(* ===== verification/SqlitePrelude.thy ===== *)
theory SqlitePrelude
  imports Main "HOL-Library.Word" "HOL-Library.Monad_Syntax"
begin

text \<open>
  Shared vocabulary of the development: the C integer types as words, byte buffers with a
  checked read, outcomes of memory allocation, bitwise lemmas about words, and the interfaces
  (locales) that several components provide or rely on.

  A C buffer is a list of bytes. A read past its end is no value: it is \<^term>\<open>None\<close>, so a
  theorem that a decoder returns \<open>Some\<close> also says that it stays inside the buffer.
\<close>

unbundle bit_operations_syntax

type_synonym u8 = "8 word"
type_synonym u16 = "16 word"
type_synonym u32 = "32 word"
type_synonym u64 = "64 word"

named_theorems buffer_simps \<open>evaluation of checked reads\<close>
named_theorems enum_simps \<open>evaluation of words bit by bit\<close>


section \<open>Byte buffers\<close>

definition byte_at :: "u8 list \<Rightarrow> nat \<Rightarrow> u32 option" where
  "byte_at p i = (if i < length p then Some (ucast (p ! i)) else None)"

lemma byte_at_simps [simp, buffer_simps]:
  "byte_at [] i = None"
  "byte_at (x # xs) 0 = Some (ucast x)"
  "byte_at (x # xs) (Suc i) = byte_at xs i"
  "byte_at (x # xs) (numeral n) = byte_at xs (pred_numeral n)"
  by (auto simp: byte_at_def numeral_eq_Suc)


lemma length_numeral_conv:
  "length xs = numeral n \<longleftrightarrow> (\<exists>y ys. xs = y # ys \<and> length ys = pred_numeral n)"
  by (simp add: numeral_eq_Suc length_Suc_conv)


section \<open>Words bit by bit\<close>

lemma word_enumI:
  fixes x y :: "'a::len word"
  assumes "list_all (\<lambda>i. bit x i = bit y i) [0..<LENGTH('a)]"
  shows "x = y"
  using assms by (intro bit_word_eqI) (auto simp: list_all_iff)

lemma upt_0_numeral [enum_simps]:
  "[0..<numeral n] = 0 # [Suc 0..<numeral n]"
  "[Suc 0..<numeral n] = (if numeral n = Suc 0 then [] else Suc 0 # [2..<numeral n])"
  by (simp_all add: upt_rec numeral_2_eq_2)

lemma bit_beyond [enum_simps]: "LENGTH('a) \<le> n \<Longrightarrow> bit (w :: 'a::len word) n \<longleftrightarrow> False"
  using bit_imp_le_length [of w n] by auto

lemmas [enum_simps] = bit_simps

lemma and_0x80_u32: "((b::u32) AND 0x80 = 0) \<longleftrightarrow> \<not> bit b 7"
proof -
  have "b AND 0x80 = (if bit b 7 then 0x80 else 0)"
    by (rule word_enumI) (simp add: enum_simps)
  then show ?thesis by simp
qed

lemma word_split_7: "push_bit 7 (drop_bit 7 (v::u64)) OR (v AND 0x7f) = v"
  by (rule word_enumI) (simp add: enum_simps)

lemma push_bit_push_bit_or:
  "push_bit 7 (push_bit m (a::u64) OR b) = push_bit (7 + m) a OR push_bit 7 b"
  by (rule bit_word_eqI) (auto simp: bit_simps)

lemma drop_bit_eq_0_iff: "drop_bit n (v :: 'a::len word) = 0 \<longleftrightarrow> unat v < 2 ^ n"
proof -
  have "unat (drop_bit n v) = unat v div 2 ^ n"
    by (metis drop_bit_eq_div unat_drop_bit_eq)
  then have "drop_bit n v = 0 \<longleftrightarrow> unat v div 2 ^ n = 0"
    by (metis unat_eq_zero)
  then show ?thesis by (simp add: div_eq_0_iff)
qed

lemma drop_bit_less_self: "v \<noteq> 0 \<Longrightarrow> unat (drop_bit 7 (v::u64)) < unat v"
  by (simp add: drop_bit_eq_div unat_div unat_gt_0)


section \<open>Outcomes of memory allocation\<close>

text \<open>
  An allocation either succeeds or returns NULL. An operation that allocates takes the list of
  the outcomes of its next allocations and returns the rest; past the end of the list every
  allocation succeeds, so \<open>[]\<close> is a run without memory pressure.
\<close>

type_synonym allocs = "bool list"

fun alloc_ok :: "allocs \<Rightarrow> bool \<times> allocs" where
  "alloc_ok [] = (True, [])"
| "alloc_ok (b # bs) = (b, bs)"


section \<open>Interface: a byte-level codec\<close>

text \<open>
  What a reader of a file format relies on: decoding the front of a buffer that starts with an
  encoded value gives that value and the number of bytes it took, whatever follows it. From
  this alone an encoding is injective, no encoding is a proper prefix of another, and a
  sequence of encoded values can be read back.
\<close>

fun decode_seq :: "(u8 list \<Rightarrow> ('v \<times> nat) option) \<Rightarrow> nat \<Rightarrow> u8 list \<Rightarrow> ('v list \<times> u8 list) option" where
  "decode_seq dec 0 bs = Some ([], bs)"
| "decode_seq dec (Suc n) bs = do {
     (v, k) \<leftarrow> dec bs;
     (vs, rest) \<leftarrow> decode_seq dec n (drop k bs);
     Some (v # vs, rest)
   }"

locale byte_codec =
  fixes valid :: "'v \<Rightarrow> bool"
    and enc :: "'v \<Rightarrow> u8 list"
    and dec :: "u8 list \<Rightarrow> ('v \<times> nat) option"
  assumes dec_enc: "valid v \<Longrightarrow> dec (enc v @ rest) = Some (v, length (enc v))"
begin

lemma enc_prefix_free:
  assumes "valid v" "valid w" "enc v @ r = enc w @ s"
  shows "v = w \<and> r = s"
proof -
  from assms have "Some (v, length (enc v)) = Some (w, length (enc w))"
    by (metis dec_enc)
  with assms(3) show ?thesis by simp
qed

lemma enc_inj: "inj_on enc {v. valid v}"
  using enc_prefix_free by (intro inj_onI) blast

lemma decode_seq_enc:
  "list_all valid vs \<Longrightarrow> decode_seq dec (length vs) (concat (map enc vs) @ rest) = Some (vs, rest)"
  by (induction vs) (simp_all add: dec_enc)

end


section \<open>Interface: a set of small integers\<close>

text \<open>
  The contract the pager has with a bitmap of page numbers: an abstraction to a set of
  numbers, an invariant every operation keeps, and membership tests that agree with the set.
  \<open>ins\<close> may fail for lack of memory; the laws below are those of the calls that succeed.
\<close>

locale page_set =
  fixes invar :: "'s \<Rightarrow> bool"
    and elems :: "'s \<Rightarrow> nat set"
    and universe :: "'s \<Rightarrow> nat set"
    and ins :: "'s \<Rightarrow> nat \<Rightarrow> 's option"
    and del :: "'s \<Rightarrow> nat \<Rightarrow> 's"
    and test :: "'s \<Rightarrow> nat \<Rightarrow> bool"
  assumes test_elems: "invar s \<Longrightarrow> i < 2 ^ 32 \<Longrightarrow> test s i \<longleftrightarrow> i \<in> elems s"
    and ins_total: "invar s \<Longrightarrow> i \<in> universe s \<Longrightarrow> \<exists>s'. ins s i = Some s'"
    and ins_elems: "invar s \<Longrightarrow> i \<in> universe s \<Longrightarrow> ins s i = Some s' \<Longrightarrow>
      invar s' \<and> elems s' = insert i (elems s) \<and> universe s' = universe s"
    and del_elems: "invar s \<Longrightarrow> i \<in> universe s \<Longrightarrow>
      invar (del s i) \<and> elems (del s i) = elems s - {i} \<and> universe (del s i) = universe s"
begin

lemma test_ins:
  "invar s \<Longrightarrow> i \<in> universe s \<Longrightarrow> j < 2 ^ 32 \<Longrightarrow> ins s i = Some s' \<Longrightarrow> test s' j \<longleftrightarrow> j = i \<or> test s j"
  using ins_elems test_elems by (metis insert_iff)

lemma test_del:
  "invar s \<Longrightarrow> i \<in> universe s \<Longrightarrow> j < 2 ^ 32 \<Longrightarrow> test (del s i) j \<longleftrightarrow> j \<noteq> i \<and> test s j"
  using del_elems test_elems by (metis Diff_iff singleton_iff)

text \<open>A run of insertions: every one succeeds and the tests answer the union.\<close>

primrec ins_all :: "'s \<Rightarrow> nat list \<Rightarrow> 's option" where
  "ins_all s [] = Some s"
| "ins_all s (i # is) = Option.bind (ins s i) (\<lambda>t. ins_all t is)"

lemma test_ins_all:
  assumes "invar s" "set is \<subseteq> universe s"
  shows "\<exists>s'. ins_all s is = Some s' \<and> invar s' \<and> universe s' = universe s \<and>
    (\<forall>j<2 ^ 32. test s' j \<longleftrightarrow> j \<in> set is \<or> test s j)"
  using assms
proof (induction "is" arbitrary: s)
  case Nil
  then show ?case by simp
next
  case (Cons i "is")
  from Cons.prems obtain t where t: "ins s i = Some t" using ins_total by fastforce
  with Cons.prems have "invar t" "universe t = universe s" "\<forall>j<2 ^ 32. test t j \<longleftrightarrow> j = i \<or> test s j"
    using ins_elems [of s i t] test_ins [of s i _ t] by auto
  with Cons.IH [of t] Cons.prems t show ?case by auto
qed

end



section \<open>Interface: a component that implements an abstract machine\<close>

text \<open>
  A concrete component takes operations and may fail (\<^term>\<open>None\<close>); an abstract machine says what
  each operation returns. The relation \<open>rel\<close> between their states is kept by every operation the
  abstract state allows, so whole runs return the same results.
\<close>

fun run_concrete :: "('s \<Rightarrow> 'op \<Rightarrow> ('r \<times> 's) option) \<Rightarrow> 's \<Rightarrow> 'op list \<Rightarrow> ('r list \<times> 's) option" where
  "run_concrete step s [] = Some ([], s)"
| "run_concrete step s (x # xs) = do {
     (r, s) \<leftarrow> step s x;
     (rs, s) \<leftarrow> run_concrete step s xs;
     Some (r # rs, s)
   }"

fun run_abstract :: "('a \<Rightarrow> 'op \<Rightarrow> 'r \<times> 'a) \<Rightarrow> 'a \<Rightarrow> 'op list \<Rightarrow> 'r list \<times> 'a" where
  "run_abstract step a [] = ([], a)"
| "run_abstract step a (x # xs) =
     (let (r, a) = step a x; (rs, a) = run_abstract step a xs in (r # rs, a))"

fun run_allowed :: "('a \<Rightarrow> 'op \<Rightarrow> 'r \<times> 'a) \<Rightarrow> ('a \<Rightarrow> 'op \<Rightarrow> bool) \<Rightarrow> 'a \<Rightarrow> 'op list \<Rightarrow> bool" where
  "run_allowed step pre a [] = True"
| "run_allowed step pre a (x # xs) \<longleftrightarrow> pre a x \<and> run_allowed step pre (snd (step a x)) xs"

locale simulation =
  fixes cstep :: "'s \<Rightarrow> 'op \<Rightarrow> ('r \<times> 's) option"
    and astep :: "'a \<Rightarrow> 'op \<Rightarrow> 'r \<times> 'a"
    and pre :: "'a \<Rightarrow> 'op \<Rightarrow> bool"
    and rel :: "'s \<Rightarrow> 'a \<Rightarrow> bool"
  assumes step_rel: "rel s a \<Longrightarrow> pre a x \<Longrightarrow>
    \<exists>s'. cstep s x = Some (fst (astep a x), s') \<and> rel s' (snd (astep a x))"
begin

lemma run_rel:
  "rel s a \<Longrightarrow> run_allowed astep pre a xs \<Longrightarrow>
   \<exists>s'. run_concrete cstep s xs = Some (fst (run_abstract astep a xs), s')
     \<and> rel s' (snd (run_abstract astep a xs))"
proof (induction xs arbitrary: s a)
  case Nil
  then show ?case by simp
next
  case (Cons x xs)
  from Cons.prems obtain s1 where "cstep s x = Some (fst (astep a x), s1)" "rel s1 (snd (astep a x))"
    using step_rel by fastforce
  with Cons.IH [of s1 "snd (astep a x)"] Cons.prems show ?case
    by (auto simp: Let_def case_prod_unfold)
qed

end

end
