(* ===== verification/Varint.thy ===== *)
theory Varint
  imports SqlitePrelude
begin

text \<open>
  The integer encodings of the file format: the variable-length integers of util.c
  (\<open>sqlite3PutVarint\<close>, \<open>sqlite3GetVarint\<close>, \<open>sqlite3GetVarint32\<close>, \<open>sqlite3VarintLen\<close>) and the
  four-byte big-endian integers (\<open>sqlite3Get4byte\<close>, \<open>sqlite3Put4byte\<close>).

  A writer returns the bytes it stores at \<open>p[0]\<close>, \<open>p[1]\<close>, ...; its C return value is their
  number. A reader takes the buffer and returns the value with the number of bytes it read, or
  \<^term>\<open>None\<close> where the C code would read past the end of the buffer. The unrolled reader is
  compared with \<open>varint_ref\<close>, the byte-at-a-time definition of the encoding.
\<close>


section \<open>Writing\<close>

text \<open>The loop of the nine-byte case, \<open>for(i=7; i>=0; i--)\<close>, filling \<open>p[i]\<close> from the right.\<close>

primrec putVarint9 :: "nat \<Rightarrow> u64 \<Rightarrow> u8 list \<Rightarrow> u8 list" where
  "putVarint9 0 v acc = acc"
| "putVarint9 (Suc i) v acc =
     putVarint9 i (drop_bit 7 v) (ucast ((v AND 0x7f) OR 0x80) # acc)"

text \<open>The do-while loop that fills \<open>buf\<close>, least significant group first.\<close>

function putVarintBuf :: "u64 \<Rightarrow> u8 list" where
  "putVarintBuf v = ucast ((v AND 0x7f) OR 0x80) #
     (let v' = drop_bit 7 v in if v' \<noteq> 0 then putVarintBuf v' else [])"
  by pat_completeness auto
termination
proof (relation "measure unat", simp)
  fix v x :: u64
  assume "x = drop_bit 7 v" "x \<noteq> 0"
  then have "v \<noteq> 0" by auto
  with \<open>x = _\<close> show "(x, v) \<in> measure unat" by (simp add: drop_bit_less_self)
qed

declare putVarintBuf.simps [simp del]

definition putVarint64 :: "u64 \<Rightarrow> u8 list" where
  "putVarint64 v =
     (if v AND (push_bit 32 0xff000000) \<noteq> 0
      then putVarint9 8 (drop_bit 8 v) [ucast v]
      else (let buf = putVarintBuf v; buf = buf[0 := buf ! 0 AND 0x7f] in rev buf))"

definition sqlite3PutVarint :: "u64 \<Rightarrow> u8 list" where
  "sqlite3PutVarint v =
     (if v \<le> 0x7f then [ucast (v AND 0x7f)]
      else if v \<le> 0x3fff then
        [ucast ((drop_bit 7 v AND 0x7f) OR 0x80), ucast (v AND 0x7f)]
      else putVarint64 v)"

text \<open>\<open>for(i=1; (v >>= 7)!=0; i++)\<close>\<close>

function sqlite3VarintLen :: "u64 \<Rightarrow> nat" where
  "sqlite3VarintLen v =
     (let v' = drop_bit 7 v in if v' \<noteq> 0 then Suc (sqlite3VarintLen v') else 1)"
  by pat_completeness auto
termination
proof (relation "measure unat", simp)
  fix v x :: u64
  assume "x = drop_bit 7 v" "x \<noteq> 0"
  then have "v \<noteq> 0" by auto
  with \<open>x = _\<close> show "(x, v) \<in> measure unat" by (simp add: drop_bit_less_self)
qed

declare sqlite3VarintLen.simps [simp del]


section \<open>Reading\<close>

definition SLOT_2_0 :: u32 where "SLOT_2_0 = 0x001fc07f"
definition SLOT_4_2_0 :: u32 where "SLOT_4_2_0 = 0xf01fc07f"

definition sqlite3GetVarint :: "u8 list \<Rightarrow> (u64 \<times> nat) option" where
  "sqlite3GetVarint p = do {
     a \<leftarrow> byte_at p 0;
     if a AND 0x80 = 0 then Some (ucast a, 1) else do {
     b \<leftarrow> byte_at p 1;
     if b AND 0x80 = 0 then
       (let a = a AND 0x7f; a = push_bit 7 a; a = a OR b in Some (ucast a, 2))
     else do {
     p2 \<leftarrow> byte_at p 2;
     let a = push_bit 14 a OR p2;
     if a AND 0x80 = 0 then
       (let a = a AND SLOT_2_0; b = b AND 0x7f; b = push_bit 7 b; a = a OR b in Some (ucast a, 3))
     else do {
     let a = a AND SLOT_2_0;
     p3 \<leftarrow> byte_at p 3;
     let b = push_bit 14 b OR p3;
     if b AND 0x80 = 0 then
       (let b = b AND SLOT_2_0; a = push_bit 7 a; a = a OR b in Some (ucast a, 4))
     else do {
     let b = b AND SLOT_2_0;
     let s = a;
     p4 \<leftarrow> byte_at p 4;
     let a = push_bit 14 a OR p4;
     if a AND 0x80 = 0 then
       (let b = push_bit 7 b; a = a OR b; s = drop_bit 18 s in
        Some (push_bit 32 (ucast s) OR ucast a, 5))
     else do {
     let s = push_bit 7 s;
     let s = s OR b;
     p5 \<leftarrow> byte_at p 5;
     let b = push_bit 14 b OR p5;
     if b AND 0x80 = 0 then
       (let a = a AND SLOT_2_0; a = push_bit 7 a; a = a OR b; s = drop_bit 18 s in
        Some (push_bit 32 (ucast s) OR ucast a, 6))
     else do {
     p6 \<leftarrow> byte_at p 6;
     let a = push_bit 14 a OR p6;
     if a AND 0x80 = 0 then
       (let a = a AND SLOT_4_2_0; b = b AND SLOT_2_0; b = push_bit 7 b; a = a OR b; s = drop_bit 11 s in
        Some (push_bit 32 (ucast s) OR ucast a, 7))
     else do {
     let a = a AND SLOT_2_0;
     p7 \<leftarrow> byte_at p 7;
     let b = push_bit 14 b OR p7;
     if b AND 0x80 = 0 then
       (let b = b AND SLOT_4_2_0; a = push_bit 7 a; a = a OR b; s = drop_bit 4 s in
        Some (push_bit 32 (ucast s) OR ucast a, 8))
     else do {
     p8 \<leftarrow> byte_at p 8;
     let a = push_bit 15 a OR p8;
     let b = b AND SLOT_2_0;
     let b = push_bit 8 b;
     let a = a OR b;
     let s = push_bit 4 s;
     b \<leftarrow> byte_at p 4;
     let b = b AND 0x7f;
     let b = drop_bit 3 b;
     let s = s OR b;
     Some (push_bit 32 (ucast s) OR ucast a, 9)
     }}}}}}}}}"

text \<open>
  The reader of 32-bit values. The macro \<open>getVarint32\<close> handles one-byte values inline; the
  function starts at the two-byte case and falls back on the 64-bit reader after three bytes.
\<close>

definition sqlite3GetVarint32 :: "u8 list \<Rightarrow> (u32 \<times> nat) option" where
  "sqlite3GetVarint32 p = do {
     a \<leftarrow> byte_at p 0;
     b \<leftarrow> byte_at p 1;
     if b AND 0x80 = 0 then
       (let a = a AND 0x7f; a = push_bit 7 a in Some (a OR b, 2))
     else do {
     p2 \<leftarrow> byte_at p 2;
     let a = push_bit 14 a OR p2;
     if a AND 0x80 = 0 then
       (let a = a AND (push_bit 14 0x7f OR 0x7f); b = b AND 0x7f; b = push_bit 7 b in
        Some (a OR b, 3))
     else do {
     (v64, n) \<leftarrow> sqlite3GetVarint p;
     if v64 AND 0xffffffff \<noteq> v64 then Some (0xffffffff, n) else Some (ucast v64, n)
     }}}"

definition getVarint32 :: "u8 list \<Rightarrow> (u32 \<times> nat) option" where
  "getVarint32 p = do {
     a \<leftarrow> byte_at p 0;
     if a < 0x80 then Some (a, 1) else sqlite3GetVarint32 p
   }"

definition putVarint32 :: "u32 \<Rightarrow> u8 list" where
  "putVarint32 v = (if v < 0x80 then [ucast v] else sqlite3PutVarint (ucast v))"


section \<open>Four-byte big-endian integers\<close>

definition sqlite3Get4byte :: "u8 list \<Rightarrow> (u32 \<times> nat) option" where
  "sqlite3Get4byte p = do {
     p0 \<leftarrow> byte_at p 0; p1 \<leftarrow> byte_at p 1; p2 \<leftarrow> byte_at p 2; p3 \<leftarrow> byte_at p 3;
     Some (((push_bit 24 p0 OR push_bit 16 p1) OR push_bit 8 p2) OR p3, 4)
   }"

definition sqlite3Put4byte :: "u32 \<Rightarrow> u8 list" where
  "sqlite3Put4byte v =
     [ucast (drop_bit 24 v), ucast (drop_bit 16 v), ucast (drop_bit 8 v), ucast v]"


section \<open>The encoding, one byte at a time\<close>

text \<open>
  \<open>varint_ref k acc\<close> has read \<open>k\<close> bytes with value \<open>acc\<close>: seven bits from each of the first
  eight bytes as long as their high bit is set, all eight bits of the ninth.
\<close>

fun varint_ref :: "nat \<Rightarrow> u64 \<Rightarrow> u8 list \<Rightarrow> (u64 \<times> nat) option" where
  "varint_ref k acc [] = None"
| "varint_ref k acc (b # bs) =
    (if 8 \<le> k then Some (push_bit 8 acc OR ucast b, 9)
     else if bit b 7 then varint_ref (Suc k) (push_bit 7 acc OR ucast (b AND 0x7f)) bs
     else Some (push_bit 7 acc OR ucast b, Suc k))"

lemmas getvarint_simps =
  sqlite3GetVarint_def Let_def and_0x80_u32 SLOT_2_0_def SLOT_4_2_0_def bit_simps


lemma ucast_u8_u64: "(ucast (ucast (a::u8) :: u32) :: u64) = ucast a"
  by (rule word_enumI) (simp add: enum_simps)

text \<open>Each lemma below is one exit of the unrolled reader.\<close>

lemma getvarint_1: "\<not> bit a 7 \<Longrightarrow> sqlite3GetVarint (a # p) = varint_ref 0 0 (a # p)"
  by (simp add: getvarint_simps ucast_u8_u64)

lemma getvarint_2:
  "bit a 7 \<Longrightarrow> \<not> bit b 7 \<Longrightarrow> sqlite3GetVarint (a # b # p) = varint_ref 0 0 (a # b # p)"
  by (simp add: getvarint_simps) (rule word_enumI, simp add: enum_simps)

lemma getvarint_3:
  "\<lbrakk>bit a 7; bit b 7; \<not> bit c 7\<rbrakk> \<Longrightarrow>
   sqlite3GetVarint (a # b # c # p) = varint_ref 0 0 (a # b # c # p)"
  by (simp add: getvarint_simps) (rule word_enumI, simp add: enum_simps)

lemma getvarint_4:
  "\<lbrakk>bit a 7; bit b 7; bit c 7; \<not> bit d 7\<rbrakk> \<Longrightarrow>
   sqlite3GetVarint (a # b # c # d # p) = varint_ref 0 0 (a # b # c # d # p)"
  by (simp add: getvarint_simps) (rule word_enumI, simp add: enum_simps)

lemma getvarint_5:
  "\<lbrakk>bit a 7; bit b 7; bit c 7; bit d 7; \<not> bit e 7\<rbrakk> \<Longrightarrow>
   sqlite3GetVarint (a # b # c # d # e # p) = varint_ref 0 0 (a # b # c # d # e # p)"
  by (simp add: getvarint_simps) (rule word_enumI, simp add: enum_simps)

lemma getvarint_6:
  "\<lbrakk>bit a 7; bit b 7; bit c 7; bit d 7; bit e 7; \<not> bit f 7\<rbrakk> \<Longrightarrow>
   sqlite3GetVarint (a # b # c # d # e # f # p) = varint_ref 0 0 (a # b # c # d # e # f # p)"
  by (simp add: getvarint_simps) (rule word_enumI, simp add: enum_simps)

lemma getvarint_7:
  "\<lbrakk>bit a 7; bit b 7; bit c 7; bit d 7; bit e 7; bit f 7; \<not> bit g 7\<rbrakk> \<Longrightarrow>
   sqlite3GetVarint (a # b # c # d # e # f # g # p) =
   varint_ref 0 0 (a # b # c # d # e # f # g # p)"
  by (simp add: getvarint_simps) (rule word_enumI, simp add: enum_simps)

lemma getvarint_8:
  "\<lbrakk>bit a 7; bit b 7; bit c 7; bit d 7; bit e 7; bit f 7; bit g 7; \<not> bit h 7\<rbrakk> \<Longrightarrow>
   sqlite3GetVarint (a # b # c # d # e # f # g # h # p) =
   varint_ref 0 0 (a # b # c # d # e # f # g # h # p)"
  by (simp add: getvarint_simps) (rule word_enumI, simp add: enum_simps)

lemma getvarint_9:
  "\<lbrakk>bit a 7; bit b 7; bit c 7; bit d 7; bit e 7; bit f 7; bit g 7; bit h 7\<rbrakk> \<Longrightarrow>
   sqlite3GetVarint (a # b # c # d # e # f # g # h # i # p) =
   varint_ref 0 0 (a # b # c # d # e # f # g # h # i # p)"
  by (simp add: getvarint_simps) (rule word_enumI, simp add: enum_simps)

text \<open>A buffer that ends inside an integer is read past its end by both definitions.\<close>

lemma getvarint_end:
  "length p < 9 \<Longrightarrow> list_all (\<lambda>b. bit b 7) p \<Longrightarrow> sqlite3GetVarint p = None"
  by (auto simp: getvarint_simps numeral_eq_Suc less_Suc_eq_le le_Suc_eq length_Suc_conv)

lemma varint_ref_end: "list_all (\<lambda>b. bit b 7) p \<Longrightarrow> k + length p \<le> 8 \<Longrightarrow> varint_ref k acc p = None"
  by (induction k acc p rule: varint_ref.induct) auto

lemma varint_exits:
  fixes p :: "u8 list"
  obtains (stop) xs y ys where "p = xs @ y # ys" "list_all (\<lambda>b. bit b 7) xs" "\<not> bit y 7" "length xs < 8"
  | (nine) xs y ys where "p = xs @ y # ys" "list_all (\<lambda>b. bit b 7) xs" "length xs = 8"
  | (short) "list_all (\<lambda>b. bit b 7) p" "length p < 9"
proof (cases "list_all (\<lambda>b. bit b 7) (take 8 p)")
  case True
  show ?thesis
  proof (cases "length p < 9")
    case True
    show ?thesis
    proof (cases "list_all (\<lambda>b. bit b 7) p")
      case True
      then show ?thesis using \<open>length p < 9\<close> short by blast
    next
      case False
      with \<open>list_all _ (take 8 p)\<close> \<open>length p < 9\<close> show ?thesis by simp
    qed
  next
    case False
    then have "p = take 8 p @ p ! 8 # drop 9 p"
      using id_take_nth_drop [of 8 p] by simp
    with True False show ?thesis using nine by auto
  qed
next
  case False
  then obtain xs y ys where "take 8 p = xs @ y # ys" "\<not> bit y 7" "list_all (\<lambda>b. bit b 7) xs"
    by (auto simp: list_all_iff dest!: split_list_first_prop)
  moreover have "length xs < 8"
  proof -
    have "length (take 8 p) \<le> 8" by simp
    then show ?thesis unfolding \<open>take 8 p = _\<close> by simp
  qed
  moreover have "p = xs @ y # (ys @ drop 8 p)"
    using calculation(1) append_take_drop_id [of 8 p] by simp
  ultimately show ?thesis using stop by blast
qed

lemma sqlite3GetVarint_ref_eq: "sqlite3GetVarint p = varint_ref 0 0 p"
proof (cases p rule: varint_exits)
  case (stop xs y ys)
  from \<open>length xs < 8\<close> consider "length xs = 0" | "length xs = 1" | "length xs = 2"
    | "length xs = 3" | "length xs = 4" | "length xs = 5" | "length xs = 6" | "length xs = 7"
    by linarith
  then show ?thesis using stop
    by cases (auto simp: length_Suc_conv length_numeral_conv intro: getvarint_1 getvarint_2 getvarint_3
        getvarint_4 getvarint_5 getvarint_6 getvarint_7 getvarint_8 simp del: varint_ref.simps)
next
  case (nine xs y ys)
  then show ?thesis
    by (auto simp: length_Suc_conv length_numeral_conv intro: getvarint_9 simp del: varint_ref.simps)
next
  case short
  then show ?thesis by (simp add: getvarint_end varint_ref_end)
qed

section \<open>Round trip\<close>

text \<open>The continuation bytes of a value, most significant group first; none for zero.\<close>

function cont_bytes :: "u64 \<Rightarrow> u8 list" where
  "cont_bytes v = (if v = 0 then [] else cont_bytes (drop_bit 7 v) @ [ucast ((v AND 0x7f) OR 0x80)])"
  by pat_completeness auto
termination
  by (relation "measure unat") (auto simp: drop_bit_less_self)

declare cont_bytes.simps [simp del]

lemma cont_bytes_0 [simp]: "cont_bytes 0 = []"
  by (simp add: cont_bytes.simps)

lemma rev_putVarintBuf: "rev (putVarintBuf v) = cont_bytes (drop_bit 7 v) @ [ucast ((v AND 0x7f) OR 0x80)]"
proof (induction v rule: putVarintBuf.induct)
  case (1 v)
  then show ?case
    by (subst putVarintBuf.simps) (simp add: Let_def cont_bytes.simps [of "drop_bit 7 v"])
qed

lemma length_cont_bytes: "drop_bit (7 * n) v = 0 \<Longrightarrow> length (cont_bytes v) \<le> n"
proof (induction n arbitrary: v)
  case 0
  then show ?case by simp
next
  case (Suc n)
  have "drop_bit (7 * n) (drop_bit 7 v) = 0" using Suc.prems by (simp add: add.commute)
  with Suc.IH show ?case by (subst cont_bytes.simps) simp
qed

lemma varint_ref_cont:
  "k + length (cont_bytes v) \<le> 8 \<Longrightarrow>
   varint_ref k acc (cont_bytes v @ bs) =
   varint_ref (k + length (cont_bytes v)) (push_bit (7 * length (cont_bytes v)) acc OR v) bs"
proof (induction v arbitrary: bs rule: cont_bytes.induct)
  case (1 v)
  show ?case
  proof (cases "v = 0")
    case True
    then show ?thesis by simp
  next
    case False
    have b: "bit (ucast ((v AND 0x7f) OR 0x80) :: u8) 7" by (simp add: bit_simps)
    have m: "(ucast ((ucast ((v AND 0x7f) OR 0x80) :: u8) AND 0x7f) :: u64) = v AND 0x7f"
      by (rule word_enumI) (simp add: enum_simps)
    have "varint_ref k acc (cont_bytes v @ bs) =
      varint_ref k acc (cont_bytes (drop_bit 7 v) @ ucast ((v AND 0x7f) OR 0x80) # bs)"
      using False by (simp add: cont_bytes.simps [of v])
    also have "\<dots> = varint_ref (k + length (cont_bytes (drop_bit 7 v)))
        (push_bit (7 * length (cont_bytes (drop_bit 7 v))) acc OR drop_bit 7 v)
        (ucast ((v AND 0x7f) OR 0x80) # bs)"
      using 1 False by (simp add: cont_bytes.simps [of v])
    finally show ?thesis
      using b m 1 False
      by (simp add: cont_bytes.simps [of v] push_bit_push_bit_or word_split_7 or.assoc)
  qed
qed

lemma nine_byte_guard: "v AND 0xff00000000000000 = 0 \<longleftrightarrow> drop_bit 56 v = (0::u64)"
proof -
  have "v AND 0xff00000000000000 = push_bit 56 (drop_bit 56 v)"
    by (rule word_enumI) (simp add: enum_simps)
  moreover have "drop_bit 56 v = drop_bit 56 (push_bit 56 (drop_bit 56 v))"
    by (rule word_enumI) (simp add: enum_simps)
  ultimately show ?thesis by (metis drop_bit_of_0 push_bit_of_0)
qed

lemma last_byte: "ucast ((v AND 0x7f) OR 0x80) AND (0x7f :: u8) = ucast ((v::u64) AND 0x7f)"
  by (rule word_enumI) (simp add: enum_simps)

lemma putVarint64_short:
  assumes "drop_bit 56 v = 0"
  shows "putVarint64 v = cont_bytes (drop_bit 7 v) @ [ucast (v AND 0x7f)]"
proof -
  obtain b bs where buf: "putVarintBuf v = b # bs" by (simp add: putVarintBuf.simps)
  with rev_putVarintBuf [of v]
  have "b = ucast ((v AND 0x7f) OR 0x80)" "rev bs = cont_bytes (drop_bit 7 v)" by simp_all
  with assms buf show ?thesis
    by (simp add: putVarint64_def nine_byte_guard Let_def last_byte)
qed

lemma sqlite3PutVarint_short:
  assumes "drop_bit 56 v = 0"
  shows "sqlite3PutVarint v = cont_bytes (drop_bit 7 v) @ [ucast (v AND 0x7f)]"
proof -
  consider "v \<le> 0x7f" | "\<not> v \<le> 0x7f" "v \<le> 0x3fff" | "\<not> v \<le> 0x3fff" by blast
  then show ?thesis
  proof cases
    case 1
    then have "drop_bit 7 v = 0" by (simp add: drop_bit_eq_0_iff word_le_nat_alt)
    with 1 show ?thesis by (simp add: sqlite3PutVarint_def)
  next
    case 2
    then have "drop_bit 7 v \<noteq> 0" "drop_bit 7 (drop_bit 7 v) = 0"
      by (simp_all add: drop_bit_eq_0_iff word_le_nat_alt)
    with 2 show ?thesis
      by (simp add: sqlite3PutVarint_def cont_bytes.simps [of "drop_bit 7 v"] and.commute)
  next
    case 3
    then have "\<not> v \<le> 0x7f" by (simp add: word_le_nat_alt)
    with 3 assms show ?thesis by (simp add: sqlite3PutVarint_def putVarint64_short)
  qed
qed

lemma sqlite3PutVarint_long:
  assumes "drop_bit 56 v \<noteq> 0"
  shows "sqlite3PutVarint v = putVarint9 8 (drop_bit 8 v) [ucast v]"
proof -
  have "\<not> v \<le> 0x7f" "\<not> v \<le> 0x3fff"
    using assms by (auto simp: drop_bit_eq_0_iff word_le_nat_alt)
  with assms show ?thesis by (simp add: sqlite3PutVarint_def putVarint64_def nine_byte_guard)
qed

lemma putVarint9_8:
  "putVarint9 8 v acc =
    [ucast ((drop_bit 49 v AND 0x7f) OR 0x80), ucast ((drop_bit 42 v AND 0x7f) OR 0x80),
     ucast ((drop_bit 35 v AND 0x7f) OR 0x80), ucast ((drop_bit 28 v AND 0x7f) OR 0x80),
     ucast ((drop_bit 21 v AND 0x7f) OR 0x80), ucast ((drop_bit 14 v AND 0x7f) OR 0x80),
     ucast ((drop_bit 7 v AND 0x7f) OR 0x80), ucast ((v AND 0x7f) OR 0x80)] @ acc"
proof -
  have "8 = Suc (Suc (Suc (Suc (Suc (Suc (Suc (Suc 0)))))))" by simp
  then show ?thesis by (simp only: putVarint9.simps) simp
qed

lemma varint_ref_long:
  "varint_ref 0 0 (putVarint9 8 (drop_bit 8 v) [ucast v] @ rest) = Some (v, 9)"
  by (simp add: putVarint9_8 bit_simps) (rule word_enumI, simp add: enum_simps)

lemma dec_enc_varint:
  "sqlite3GetVarint (sqlite3PutVarint v @ rest) = Some (v, length (sqlite3PutVarint v))"
proof (cases "drop_bit 56 v = 0")
  case True
  have "drop_bit 49 (drop_bit 7 v) = 0" using True by simp
  then have l: "length (cont_bytes (drop_bit 7 v)) \<le> 7" using length_cont_bytes [of 7] by simp
  have b: "\<not> bit (ucast (v AND 0x7f) :: u8) 7" by (simp add: bit_simps)
  have "(ucast (ucast (v AND 0x7f) :: u8) :: u64) = v AND 0x7f"
    by (rule word_enumI) (simp add: enum_simps)
  with True l b show ?thesis
    by (simp add: sqlite3GetVarint_ref_eq sqlite3PutVarint_short varint_ref_cont word_split_7)
next
  case False
  then show ?thesis
    by (simp add: sqlite3GetVarint_ref_eq sqlite3PutVarint_long varint_ref_long)
      (simp add: putVarint9_8)
qed

interpretation varint: byte_codec "\<lambda>_. True" sqlite3PutVarint sqlite3GetVarint
  by unfold_locales (rule dec_enc_varint)

lemma length_sqlite3PutVarint:
  "length (sqlite3PutVarint v) = (if drop_bit 56 v = 0 then Suc (length (cont_bytes (drop_bit 7 v))) else 9)"
  by (simp add: sqlite3PutVarint_short sqlite3PutVarint_long putVarint9_8)

lemma sqlite3VarintLen_cont: "sqlite3VarintLen v = Suc (length (cont_bytes (drop_bit 7 v)))"
proof (induction v rule: sqlite3VarintLen.induct)
  case (1 v)
  then show ?case
    by (subst sqlite3VarintLen.simps) (simp add: Let_def cont_bytes.simps [of "drop_bit 7 v"])
qed

lemma length_cont_bytes_ge: "drop_bit (7 * n) v \<noteq> 0 \<Longrightarrow> n < length (cont_bytes v)"
proof (induction n arbitrary: v)
  case 0
  then show ?case by (subst cont_bytes.simps) auto
next
  case (Suc n)
  then have "drop_bit (7 * n) (drop_bit 7 v) \<noteq> 0" "v \<noteq> 0" by (auto simp: add.commute)
  with Suc.IH show ?case by (subst cont_bytes.simps) simp
qed

text \<open>C11. \<open>sqlite3PutVarint\<close> and \<open>sqlite3GetVarint\<close> are inverse: the bytes of any 64-bit value,
  followed by anything, decode to that value and to the number of bytes written.\<close>

theorem varint_roundtrip:
  "sqlite3GetVarint (sqlite3PutVarint v @ rest) = Some (v, length (sqlite3PutVarint v))"
  by (rule dec_enc_varint)

text \<open>A sequence of varints, as in a record header, is read back value by value, and what
  follows it is left untouched.\<close>

theorem varint_sequence_roundtrip:
  "decode_seq sqlite3GetVarint (length vs) (concat (map sqlite3PutVarint vs) @ rest) = Some (vs, rest)"
  using varint.decode_seq_enc [of vs rest] by (simp add: list.pred_True)

lemma VarintLen_length:
  "sqlite3VarintLen v = (if unat v < 2 ^ 63 then length (sqlite3PutVarint v) else 10)
   \<and> length (sqlite3PutVarint v) \<in> {1..9}"
proof -
  have *: "length (cont_bytes (drop_bit 7 v)) \<le> 7" if "drop_bit 56 v = 0"
    using length_cont_bytes [of 7 "drop_bit 7 v"] that by simp
  have "length (cont_bytes (drop_bit 7 v)) = 8" if "drop_bit 56 v \<noteq> 0" "drop_bit 63 v = 0"
    using length_cont_bytes [of 8 "drop_bit 7 v"] length_cont_bytes_ge [of 7 "drop_bit 7 v"] that
    by simp
  moreover have "length (cont_bytes (drop_bit 7 v)) = 9" if "drop_bit 63 v \<noteq> 0"
  proof -
    have "drop_bit 70 v = 0" by (rule word_enumI) (simp add: enum_simps)
    then show ?thesis
      using length_cont_bytes [of 9 "drop_bit 7 v"] length_cont_bytes_ge [of 8 "drop_bit 7 v"] that
      by simp
  qed
  moreover have "drop_bit 56 v \<noteq> 0" if "drop_bit 63 v \<noteq> 0"
    using that by (auto simp: drop_bit_eq_0_iff)
  moreover have e: "(unat v < 2 ^ 63) = (drop_bit 63 v = 0)"
    by (simp only: drop_bit_eq_0_iff)
  ultimately show ?thesis using *
    unfolding e by (auto simp: sqlite3VarintLen_cont length_sqlite3PutVarint)
qed

text \<open>C36. \<open>sqlite3VarintLen\<close> is the number of bytes \<open>sqlite3PutVarint\<close> writes, between one and
  nine, except for values of at least 2^63: there it answers ten although nine bytes are
  written.\<close>

theorem sqlite3VarintLen_correct:
  "sqlite3VarintLen v = (if unat v < 2 ^ 63 then length (sqlite3PutVarint v) else 10)
   \<and> length (sqlite3PutVarint v) \<in> {1..9}"
  by (rule VarintLen_length)

text \<open>C23. The unrolled \<open>sqlite3GetVarint\<close> computes, for every buffer, exactly the value and the
  length of the byte-at-a-time definition of the encoding; it reads past the end of the buffer
  exactly when the buffer ends inside the integer.\<close>

theorem sqlite3GetVarint_equiv_ref: "sqlite3GetVarint p = varint_ref 0 0 p"
  by (rule sqlite3GetVarint_ref_eq)


section \<open>The 32-bit reader and four-byte integers\<close>

definition clamp32 :: "u64 \<Rightarrow> u32" where
  "clamp32 v = (if v AND 0xffffffff \<noteq> v then 0xffffffff else ucast v)"

lemma clamp32_ucast: "clamp32 (ucast (a :: u32)) = a"
proof -
  have "(ucast a :: u64) AND 0xffffffff = ucast a" by (rule word_enumI) (simp add: enum_simps)
  moreover have "(ucast (ucast a :: u64) :: u32) = a" by (rule word_enumI) (simp add: enum_simps)
  ultimately show ?thesis by (simp add: clamp32_def)
qed

lemma u8_less_0x80: "(ucast (a::u8) :: u32) < 0x80 \<longleftrightarrow> \<not> bit a 7"
proof -
  have "(ucast a :: u32) < 0x80 \<longleftrightarrow> unat (ucast a :: u32) < 2 ^ 7" by (simp add: word_less_nat_alt)
  also have "\<dots> \<longleftrightarrow> drop_bit 7 (ucast a :: u32) = 0" by (simp only: drop_bit_eq_0_iff)
  also have "drop_bit 7 (ucast a :: u32) = (if bit a 7 then 1 else 0)"
    by (rule word_enumI) (simp add: enum_simps)
  finally show ?thesis by simp
qed

lemma getVarint32_tail:
  assumes "bit a 7" "bit b 7" "bit c 7"
  shows "getVarint32 (a # b # c # p) =
    map_option (\<lambda>(v, n). (clamp32 v, n)) (sqlite3GetVarint (a # b # c # p))"
  using assms
  by (auto simp: getVarint32_def sqlite3GetVarint32_def u8_less_0x80 and_0x80_u32 Let_def bit_simps
      clamp32_def split: option.splits Option.bind_splits)

lemmas getvarint32_simps =
  getVarint32_def sqlite3GetVarint32_def u8_less_0x80 and_0x80_u32 Let_def bit_simps

lemma getVarint32_2:
  assumes "bit a 7" "\<not> bit b 7"
  shows "getVarint32 (a # b # p) = map_option (\<lambda>(v, n). (clamp32 v, n)) (varint_ref 0 0 (a # b # p))"
proof -
  have "(push_bit 7 (ucast (a AND 0x7f)) OR ucast b :: u64) =
    ucast (push_bit 7 (ucast a AND 0x7f) OR ucast b :: u32)"
    by (rule word_enumI) (simp add: enum_simps)
  with assms show ?thesis by (simp add: getvarint32_simps clamp32_ucast del: push_bit_and)
qed

lemma getVarint32_3:
  assumes "bit a 7" "bit b 7" "\<not> bit c 7"
  shows "getVarint32 (a # b # c # p) =
    map_option (\<lambda>(v, n). (clamp32 v, n)) (varint_ref 0 0 (a # b # c # p))"
proof -
  have "(push_bit 7 (push_bit 7 (ucast (a AND 0x7f)) OR ucast (b AND 0x7f)) OR ucast c :: u64) =
    ucast ((push_bit 14 (ucast a) OR ucast c) AND 0x1fc07f OR push_bit 7 (ucast b AND 0x7f) :: u32)"
    using assms(3) by (intro word_enumI) (simp add: enum_simps)
  with assms show ?thesis
    by (simp add: getvarint32_simps clamp32_ucast del: push_bit_and push_bit_or)
qed

lemma getVarint32_ref:
  "getVarint32 p = map_option (\<lambda>(v, n). (clamp32 v, n)) (varint_ref 0 0 p)"
proof -
  consider "p = []" | a q where "p = a # q" "\<not> bit a 7" | a where "p = [a]" "bit a 7"
    | a b q where "p = a # b # q" "bit a 7" "\<not> bit b 7" | a b where "p = [a, b]" "bit a 7" "bit b 7"
    | a b c q where "p = a # b # c # q" "bit a 7" "bit b 7" "\<not> bit c 7"
    | a b c q where "p = a # b # c # q" "bit a 7" "bit b 7" "bit c 7"
    by (metis list.exhaust)
  then show ?thesis
  proof cases
    case 1 then show ?thesis by (simp add: getvarint32_simps)
  next
    case 2 then show ?thesis
      by (simp add: getvarint32_simps clamp32_ucast flip: ucast_u8_u64)
  next
    case 3 then show ?thesis by (simp add: getvarint32_simps)
  next
    case 4 then show ?thesis by (simp add: getVarint32_2 del: varint_ref.simps)
  next
    case 5 then show ?thesis by (simp add: getvarint32_simps)
  next
    case 6 then show ?thesis by (simp add: getVarint32_3 del: varint_ref.simps)
  next
    case 7 then show ?thesis by (simp only: getVarint32_tail sqlite3GetVarint_ref_eq)
  qed
qed

text \<open>\<open>getVarint32\<close> reads the same encoding: for every buffer it returns the varint that
  \<open>sqlite3GetVarint\<close> returns, with the same length, and 0xffffffff when the value does not fit
  in 32 bits.\<close>

theorem getVarint32_correct:
  "getVarint32 p = map_option (\<lambda>(v, n). (if unat v < 2 ^ 32 then ucast v else 0xffffffff, n)) (sqlite3GetVarint p)"
proof -
  have "clamp32 v = (if unat v < 2 ^ 32 then ucast v else 0xffffffff)" for v
  proof -
    have "v AND 0xffffffff = v \<longleftrightarrow> drop_bit 32 v = 0"
    proof
      assume "v AND 0xffffffff = v"
      then have "drop_bit 32 v = drop_bit 32 (v AND 0xffffffff)" by simp
      also have "\<dots> = 0" by (rule word_enumI) (simp add: enum_simps)
      finally show "drop_bit 32 v = 0" .
    next
      assume "drop_bit 32 v = 0"
      moreover have "v = push_bit 32 (drop_bit 32 v) OR (v AND 0xffffffff)"
        by (rule word_enumI) (simp add: enum_simps)
      ultimately show "v AND 0xffffffff = v" by simp
    qed
    then show ?thesis by (simp add: clamp32_def drop_bit_eq_0_iff)
  qed
  then show ?thesis by (simp add: getVarint32_ref sqlite3GetVarint_ref_eq)
qed

lemma dec_enc_4byte: "sqlite3Get4byte (sqlite3Put4byte v @ rest) = Some (v, length (sqlite3Put4byte v))"
  by (simp add: sqlite3Get4byte_def sqlite3Put4byte_def) (rule word_enumI, simp add: enum_simps)

interpretation be4: byte_codec "\<lambda>_. True" sqlite3Put4byte sqlite3Get4byte
  by unfold_locales (rule dec_enc_4byte)

lemma dec_enc_varint32: "getVarint32 (putVarint32 v @ rest) = Some (v, length (putVarint32 v))"
proof (cases "v < 0x80")
  case True
  then have z: "drop_bit 7 v = 0" by (simp add: drop_bit_eq_0_iff word_less_nat_alt)
  have "(ucast (ucast v :: u8) :: u32) = v AND 0xff" by (rule word_enumI) (simp add: enum_simps)
  moreover have "v = push_bit 7 (drop_bit 7 v) OR (v AND 0xff)"
    by (rule word_enumI) (auto simp: enum_simps)
  ultimately have "(ucast (ucast v :: u8) :: u32) = v" using z by simp
  with True show ?thesis by (simp add: putVarint32_def getVarint32_def)
next
  case False
  then show ?thesis
    by (simp add: putVarint32_def getVarint32_ref clamp32_ucast dec_enc_varint flip: sqlite3GetVarint_ref_eq)
qed

interpretation varint32: byte_codec "\<lambda>_. True" putVarint32 getVarint32
  by unfold_locales (rule dec_enc_varint32)

text \<open>The four-byte integers of page and journal headers are written most significant byte
  first and read back exactly, and so are the 32-bit varints of cell and record headers.\<close>

theorem fixed_and_short_roundtrip:
  "sqlite3Get4byte (sqlite3Put4byte v @ rest) = Some (v, 4)
   \<and> getVarint32 (putVarint32 v @ rest) = Some (v, length (putVarint32 v))"
  using be4.dec_enc [of v rest] varint32.dec_enc [of v rest] by (simp add: sqlite3Put4byte_def)

end
