(* ===== verification/Bitvec.thy ===== *)
theory Bitvec
  imports SqlitePrelude
begin

text \<open>
  The sparse bitmap of bitvec.c, which the pager uses to remember which pages are journalled.
  A \<open>Bitvec\<close> of at most 3968 bits is a plain bitmap; a larger one starts as a hash table of at
  most 62 (at worst 123) values with linear probing and turns into 62 sub-bitmaps when the
  table fills up.

  The three members of the union are the constructors of \<open>bunion\<close>; which one is live is decided
  by \<open>iSize\<close> and \<open>iDivisor\<close>, as in the C code. A \<open>u32\<close> is a natural number, with the
  wrap-around written out where it can happen. \<^term>\<open>None\<close> is undefined behaviour: an array
  access out of range, a union read through the wrong member, a probe loop that never ends, or
  recursion beyond the fuel. The constants are those of a target with 8-byte pointers.
\<close>


section \<open>State\<close>

definition BITVEC_NINT :: nat where "BITVEC_NINT = 124"
definition BITVEC_NPTR :: nat where "BITVEC_NPTR = 62"
definition BITVEC_NELEM :: nat where "BITVEC_NELEM = 496"
definition BITVEC_NBIT :: nat where "BITVEC_NBIT = 3968"
definition BITVEC_MXHASH :: nat where "BITVEC_MXHASH = 62"

lemmas bitvec_consts =
  BITVEC_NINT_def BITVEC_NPTR_def BITVEC_NELEM_def BITVEC_NBIT_def BITVEC_MXHASH_def

definition BITVEC_HASH :: "nat \<Rightarrow> nat" where
  "BITVEC_HASH i = (i * 1) mod BITVEC_NINT"

datatype 'b bunion = ABitmap "u8 list" | AHash "nat list" | ApSub "'b option list"

datatype bitvec = Bitvec (iSize: nat) (nSet: nat) (iDivisor: nat) (un: "bitvec bunion")

definition SQLITE_OK :: nat where "SQLITE_OK = 0"
definition SQLITE_NOMEM :: nat where "SQLITE_NOMEM = 7"

text \<open>Zeroed memory, read through the member that \<open>iSize\<close> selects.\<close>

definition sqlite3BitvecCreate :: "nat \<Rightarrow> bitvec" where
  "sqlite3BitvecCreate sz = Bitvec sz 0 0
     (if sz \<le> BITVEC_NBIT then ABitmap (replicate BITVEC_NELEM 0)
      else AHash (replicate BITVEC_NINT 0))"

definition sqlite3BitvecSize :: "bitvec \<Rightarrow> nat" where
  "sqlite3BitvecSize p = iSize p"

lemma size_sub_less:
  "s ! b = Some q \<Longrightarrow> b < length s \<Longrightarrow> size q < size (Bitvec sz n d (ApSub s))"
proof -
  assume a: "s ! b = Some q" "b < length s"
  then have "Some q \<in> set s" by (metis nth_mem)
  then have "size_option size (Some q) \<le> size_list (size_option size) s"
    by (rule size_list_estimation') simp
  then show ?thesis by simp
qed


section \<open>Operations\<close>

text \<open>
  The probe loops \<open>while( p->u.aHash[h] ){ ... h = (h+1) % BITVEC_NINT; }\<close>: the first slot from
  \<open>h\<close> on that is empty or holds \<open>v\<close>. The fuel is the number of slots; a loop that has seen them
  all goes round forever.
\<close>

fun probe :: "nat \<Rightarrow> nat list \<Rightarrow> nat \<Rightarrow> nat \<Rightarrow> nat option" where
  "probe 0 t h v = None"
| "probe (Suc f) t h v =
     (if h < length t then
        if t ! h = 0 \<or> t ! h = v then Some h else probe f t ((h + 1) mod BITVEC_NINT) v
      else None)"

text \<open>\<open>sqlite3BitvecTestNotNull\<close> after \<open>i--\<close> and the range check.\<close>

function bitvecTestLoop :: "bitvec \<Rightarrow> nat \<Rightarrow> bool option" where
  "bitvecTestLoop (Bitvec sz n d u) i =
     (if d \<noteq> 0 then
        (case u of
           ApSub s \<Rightarrow>
             (let bin = i div d; i = i mod d in
              if bin < length s then
                (case s ! bin of None \<Rightarrow> Some False | Some q \<Rightarrow> bitvecTestLoop q i)
              else None)
         | _ \<Rightarrow> None)
      else if sz \<le> BITVEC_NBIT then
        (case u of
           ABitmap w \<Rightarrow> if i div 8 < length w then Some (bit (w ! (i div 8)) (i mod 8)) else None
         | _ \<Rightarrow> None)
      else
        (case u of
           AHash t \<Rightarrow> map_option (\<lambda>h. t ! h \<noteq> 0) (probe BITVEC_NINT t (BITVEC_HASH i) (i + 1))
         | _ \<Rightarrow> None))"
  by pat_completeness auto
termination
  by (relation "measure (\<lambda>(p, i). size p)") (auto simp: size_sub_less simp del: bitvec.size)

declare bitvecTestLoop.simps [simp del]

text \<open>The decrement wraps at zero, which then is out of range.\<close>

definition sqlite3BitvecTestNotNull :: "bitvec \<Rightarrow> nat \<Rightarrow> bool option" where
  "sqlite3BitvecTestNotNull p i =
     (let i = (i + (2 ^ 32 - 1)) mod 2 ^ 32 in
      if i \<ge> iSize p then Some False else bitvecTestLoop p i)"

definition sqlite3BitvecTest :: "bitvec option \<Rightarrow> nat \<Rightarrow> bool option" where
  "sqlite3BitvecTest po i =
     (case po of None \<Rightarrow> Some False | Some p \<Rightarrow> sqlite3BitvecTestNotNull p i)"

text \<open>
  \<open>sqlite3BitvecSet\<close> after \<open>i--\<close>. Each descent into a sub-bitmap and each rehash takes one unit
  of fuel. The result is the return code, the new object and the outcomes of the allocations
  still to come.
\<close>

fun bitvecSetLoop :: "nat \<Rightarrow> bitvec \<Rightarrow> nat \<Rightarrow> allocs \<Rightarrow> (nat \<times> bitvec \<times> allocs) option" where
  "bitvecSetLoop 0 p i m = None"
| "bitvecSetLoop (Suc f) (Bitvec sz n d u) i m =
     (if sz > BITVEC_NBIT \<and> d \<noteq> 0 then
        (case u of
           ApSub s \<Rightarrow>
             (let bin = i div d; i = i mod d in
              if bin < length s then
                (case s ! bin of
                   None \<Rightarrow>
                     (let (ok, m) = alloc_ok m in
                      if \<not> ok then Some (SQLITE_NOMEM, Bitvec sz n d u, m)
                      else do {
                        (rc, q, m) \<leftarrow> bitvecSetLoop f (sqlite3BitvecCreate d) i m;
                        Some (rc, Bitvec sz n d (ApSub (s[bin := Some q])), m) })
                 | Some q \<Rightarrow> do {
                     (rc, q, m) \<leftarrow> bitvecSetLoop f q i m;
                     Some (rc, Bitvec sz n d (ApSub (s[bin := Some q])), m) })
              else None)
         | _ \<Rightarrow> None)
      else if sz \<le> BITVEC_NBIT then
        (case u of
           ABitmap w \<Rightarrow>
             if i div 8 < length w
             then Some (SQLITE_OK,
               Bitvec sz n d (ABitmap (w[i div 8 := w ! (i div 8) OR push_bit (i mod 8) 1])), m)
             else None
         | _ \<Rightarrow> None)
      else
        (case u of
           AHash t \<Rightarrow>
             (let h = BITVEC_HASH i; v = i + 1 in
              if t ! h = 0 \<and> n < BITVEC_NINT - 1
              then Some (SQLITE_OK, Bitvec sz (n + 1) d (AHash (t[h := v])), m)
              else do {
                h \<leftarrow> (if t ! h = 0 then Some h else probe BITVEC_NINT t h v);
                if t ! h = v then Some (SQLITE_OK, Bitvec sz n d u, m)
                else if n \<ge> BITVEC_MXHASH then
                  (let (ok, m) = alloc_ok m in
                   if \<not> ok then Some (SQLITE_NOMEM, Bitvec sz n d u, m)
                   else
                     let d' = ((sz + BITVEC_NPTR - 1) mod 2 ^ 32) div BITVEC_NPTR;
                         p = Bitvec sz n d' (if d' = 0 then AHash (replicate BITVEC_NINT 0)
                                             else ApSub (replicate BITVEC_NPTR None))
                     in foldl (\<lambda>r x. do {
                          (rc, p, m) \<leftarrow> r;
                          if x = 0 then Some (rc, p, m)
                          else do {
                            (rc', p, m) \<leftarrow> bitvecSetLoop f p (x - 1) m;
                            Some (rc OR rc', p, m) }})
                        (bitvecSetLoop f p i m) t)
                else Some (SQLITE_OK, Bitvec sz (n + 1) d (AHash (t[h := v])), m)
              })
         | _ \<Rightarrow> None))"

declare bitvecSetLoop.simps [simp del]

text \<open>Nine units of fuel are enough for every size whose rounding does not wrap (see below).\<close>

definition sqlite3BitvecSet :: "bitvec option \<Rightarrow> nat \<Rightarrow> allocs \<Rightarrow> (nat \<times> bitvec option \<times> allocs) option" where
  "sqlite3BitvecSet po i m =
     (case po of
        None \<Rightarrow> Some (SQLITE_OK, None, m)
      | Some p \<Rightarrow>
          map_option (\<lambda>(rc, p, m). (rc, Some p, m)) (bitvecSetLoop 9 p (i - 1) m))"

text \<open>One round of the loop in \<open>sqlite3BitvecClear\<close> that rebuilds the hash table without \<open>v\<close>.\<close>

definition bitvecReinsert :: "nat \<Rightarrow> (nat \<times> nat list) option \<Rightarrow> nat \<Rightarrow> (nat \<times> nat list) option" where
  "bitvecReinsert v r x = do {
     (n, t) \<leftarrow> r;
     if x \<noteq> 0 \<and> x \<noteq> v then do {
       h \<leftarrow> probe BITVEC_NINT t (BITVEC_HASH (x - 1)) 0;
       Some (n + 1, t[h := x])
     } else Some (n, t)
   }"

function bitvecClearLoop :: "bitvec \<Rightarrow> nat \<Rightarrow> bitvec option" where
  "bitvecClearLoop (Bitvec sz n d u) i =
     (if d \<noteq> 0 then
        (case u of
           ApSub s \<Rightarrow>
             (let bin = i div d; i = i mod d in
              if bin < length s then
                (case s ! bin of
                   None \<Rightarrow> Some (Bitvec sz n d u)
                 | Some q \<Rightarrow> do {
                     q \<leftarrow> bitvecClearLoop q i;
                     Some (Bitvec sz n d (ApSub (s[bin := Some q]))) })
              else None)
         | _ \<Rightarrow> None)
      else if sz \<le> BITVEC_NBIT then
        (case u of
           ABitmap w \<Rightarrow>
             if i div 8 < length w
             then Some (Bitvec sz n d (ABitmap (w[i div 8 := w ! (i div 8) AND NOT (push_bit (i mod 8) 1)])))
             else None
         | _ \<Rightarrow> None)
      else
        (case u of
           AHash t \<Rightarrow> do {
             (n, t) \<leftarrow> foldl (bitvecReinsert (i + 1)) (Some (0, replicate BITVEC_NINT 0)) t;
             Some (Bitvec sz n d (AHash t)) }
         | _ \<Rightarrow> None))"
  by pat_completeness auto
termination
  by (relation "measure (\<lambda>(p, i). size p)") (auto simp: size_sub_less simp del: bitvec.size)

declare bitvecClearLoop.simps [simp del]

definition sqlite3BitvecClear :: "bitvec option \<Rightarrow> nat \<Rightarrow> bitvec option option" where
  "sqlite3BitvecClear po i =
     (case po of None \<Rightarrow> Some None | Some p \<Rightarrow> map_option Some (bitvecClearLoop p (i - 1)))"


section \<open>Linear probing\<close>

text \<open>The values stored in a table.\<close>

abbreviation vals :: "nat list \<Rightarrow> nat list" where
  "vals t \<equiv> filter (\<lambda>x. x \<noteq> 0) t"

text \<open>
  Every value can be reached from its hash slot through occupied slots, values are stored
  once, and a free slot remains, so that every probe loop ends.
\<close>

abbreviation slot :: "nat \<Rightarrow> nat \<Rightarrow> nat" where
  "slot v k \<equiv> (BITVEC_HASH (v - 1) + k) mod BITVEC_NINT"

definition reaches :: "nat list \<Rightarrow> nat \<Rightarrow> nat \<Rightarrow> bool" where
  "reaches t v j \<longleftrightarrow> (\<exists>k<BITVEC_NINT. j = slot v k \<and> (\<forall>k'<k. t ! slot v k' \<noteq> 0))"

definition table_ok :: "nat list \<Rightarrow> bool" where
  "table_ok t \<longleftrightarrow> length t = BITVEC_NINT \<and> distinct (vals t) \<and> length (vals t) < BITVEC_NINT
     \<and> (\<forall>j<BITVEC_NINT. t ! j \<noteq> 0 \<longrightarrow> reaches t (t ! j) j)"

lemma BITVEC_NINT_pos [simp]: "0 < BITVEC_NINT"
  by (simp add: BITVEC_NINT_def)

lemma BITVEC_HASH_less [simp]: "BITVEC_HASH i < BITVEC_NINT"
  by (simp add: BITVEC_HASH_def)

lemma probe_first:
  assumes "length t = BITVEC_NINT" "h < BITVEC_NINT" "k < f"
    and "\<forall>k'<k. t ! ((h + k') mod BITVEC_NINT) \<noteq> 0 \<and> t ! ((h + k') mod BITVEC_NINT) \<noteq> v"
    and "t ! ((h + k) mod BITVEC_NINT) = 0 \<or> t ! ((h + k) mod BITVEC_NINT) = v"
  shows "probe f t h v = Some ((h + k) mod BITVEC_NINT)"
  using assms
proof (induction k arbitrary: h f)
  case 0
  then show ?case by (cases f) auto
next
  case (Suc k)
  then obtain f' where f: "f = Suc f'" by (cases f) auto
  let ?h = "(h + 1) mod BITVEC_NINT"
  have e: "(?h + k') mod BITVEC_NINT = (h + Suc k') mod BITVEC_NINT" for k'
    by (simp add: mod_simps)
  have "probe f' t ?h v = Some ((?h + k) mod BITVEC_NINT)"
  proof (rule Suc.IH)
    show "\<forall>k'<k. t ! ((?h + k') mod BITVEC_NINT) \<noteq> 0 \<and> t ! ((?h + k') mod BITVEC_NINT) \<noteq> v"
      unfolding e using Suc.prems(4) by auto
    show "t ! ((?h + k) mod BITVEC_NINT) = 0 \<or> t ! ((?h + k) mod BITVEC_NINT) = v"
      unfolding e using Suc.prems(5) by simp
  qed (use Suc.prems f in auto)
  moreover have "t ! h \<noteq> 0" "t ! h \<noteq> v" using Suc.prems(2) Suc.prems(4)[rule_format, of 0] by auto
  ultimately show ?case using f Suc.prems e by simp
qed

lemma free_slot:
  assumes "length t = BITVEC_NINT" "length (vals t) < BITVEC_NINT" "h < BITVEC_NINT"
  shows "\<exists>k<BITVEC_NINT. t ! ((h + k) mod BITVEC_NINT) = 0"
proof -
  have "\<exists>z<length t. t ! z = 0"
  proof (rule ccontr)
    assume "\<not> ?thesis"
    then have "\<forall>x\<in>set t. x \<noteq> 0" by (auto simp: in_set_conv_nth)
    then have "vals t = t" by (simp add: filter_id_conv)
    with assms show False by simp
  qed
  then obtain z where z: "z < BITVEC_NINT" "t ! z = 0" using assms by auto
  let ?k = "(z + (BITVEC_NINT - h)) mod BITVEC_NINT"
  have "(h + ?k) mod BITVEC_NINT = z"
    using z assms(3) by (simp add: mod_simps)
  with z show ?thesis by (intro exI [of _ ?k]) simp
qed

text \<open>Where a probe for \<open>v\<close> stops: at \<open>v\<close> or at the first free slot.\<close>

lemma probe_stops:
  assumes "length t = BITVEC_NINT" "length (vals t) < BITVEC_NINT"
  obtains k where "k < BITVEC_NINT" "\<forall>k'<k. t ! slot v k' \<noteq> 0 \<and> t ! slot v k' \<noteq> w"
    "t ! slot v k = 0 \<or> t ! slot v k = w"
    "probe BITVEC_NINT t (BITVEC_HASH (v - 1)) w = Some (slot v k)"
proof -
  let ?P = "\<lambda>k. t ! slot v k = 0 \<or> t ! slot v k = w"
  obtain k0 where k0: "k0 < BITVEC_NINT" "?P k0" using free_slot [OF assms BITVEC_HASH_less] by blast
  define k where "k = (LEAST k. ?P k)"
  have "?P k" unfolding k_def by (rule LeastI [of ?P, OF k0(2)])
  moreover have "k \<le> k0" unfolding k_def by (rule Least_le [of ?P, OF k0(2)])
  moreover have "\<not> ?P k'" if "k' < k" for k' using not_less_Least [of k' ?P] that by (simp add: k_def)
  ultimately have k: "?P k" "k \<le> k0" "\<forall>k'<k. \<not> ?P k'" by auto
  with k0 have "k < BITVEC_NINT" by linarith
  with k assms(1) show ?thesis using that probe_first [of t "BITVEC_HASH (v - 1)" k BITVEC_NINT w] by auto
qed

lemma probe_table:
  assumes "table_ok t" "v \<noteq> 0"
  obtains h where "probe BITVEC_NINT t (BITVEC_HASH (v - 1)) v = Some h" "h < BITVEC_NINT"
    "reaches t v h" "t ! h = (if v \<in> set t then v else 0)"
proof -
  note ok = assms(1) [unfolded table_ok_def]
  obtain k where k: "k < BITVEC_NINT" "\<forall>k'<k. t ! slot v k' \<noteq> 0 \<and> t ! slot v k' \<noteq> v"
    "t ! slot v k = 0 \<or> t ! slot v k = v"
    "probe BITVEC_NINT t (BITVEC_HASH (v - 1)) v = Some (slot v k)"
    using probe_stops ok by blast
  have "t ! slot v k = v" if "v \<in> set t"
  proof -
    from that ok obtain j where j: "j < BITVEC_NINT" "t ! j = v" by (auto simp: in_set_conv_nth)
    with ok assms(2) have "reaches t v j" by auto
    then obtain k1 where k1: "j = slot v k1" "\<forall>k'<k1. t ! slot v k' \<noteq> 0"
      by (auto simp: reaches_def)
    show ?thesis
    proof (rule ccontr)
      assume n: "t ! slot v k \<noteq> v"
      with k have "t ! slot v k = 0" by simp
      moreover have "k \<le> k1" using k(2) k1(1) j(2) by (metis not_less)
      ultimately show False using k1 j n by (metis le_neq_implies_less)
    qed
  qed
  moreover have "t ! slot v k = 0" if "v \<notin> set t"
    using that k(3) ok by (metis BITVEC_NINT_pos mod_less_divisor nth_mem)
  moreover have "reaches t v (slot v k)" using k by (auto simp: reaches_def)
  ultimately show ?thesis using that [of "slot v k"] k(4) by simp
qed

lemma vals_update:
  assumes "h < length t" "t ! h = 0" "x \<noteq> 0"
  shows "\<exists>a b. vals t = a @ b \<and> vals (t[h := x]) = a @ x # b"
proof -
  obtain a b where "t = a @ 0 # b" "length a = h"
    using id_take_nth_drop [OF assms(1)] assms(1,2) by (metis length_take min.absorb2 less_imp_le)
  with assms(3) show ?thesis by (intro exI [of _ "vals a"] exI [of _ "vals b"]) auto
qed

lemma table_insert:
  assumes "table_ok t" "x \<noteq> 0" "x \<notin> set t" "reaches t x h" "t ! h = 0"
    "length (vals t) < BITVEC_NINT - 1"
  shows "table_ok (t[h := x])" "length (vals (t[h := x])) = length (vals t) + 1"
    "set (vals (t[h := x])) = insert x (set (vals t))"
proof -
  note ok = assms(1) [unfolded table_ok_def]
  from assms(4) have h: "h < BITVEC_NINT" by (auto simp: reaches_def)
  obtain a b where ab: "vals t = a @ b" "vals (t[h := x]) = a @ x # b"
    using vals_update [of h t x] h ok assms by auto
  show "length (vals (t[h := x])) = length (vals t) + 1"
    "set (vals (t[h := x])) = insert x (set (vals t))"
    using ab by auto
  have "x \<notin> set a" "x \<notin> set b" using ab(1) assms(3) by (metis filter_is_subset subsetD Un_iff set_append)+
  then have "distinct (vals (t[h := x]))" using ab ok by auto
  moreover have "reaches (t[h := x]) (t[h := x] ! j) j" if "j < BITVEC_NINT" "t[h := x] ! j \<noteq> 0" for j
  proof -
    have mono: "reaches (t[h := x]) v j" if "reaches t v j" for v j
      using that ok assms(2) h
      by (auto simp: reaches_def nth_list_update)
    show ?thesis using that ok assms mono by (cases "j = h") (auto simp: nth_list_update)
  qed
  ultimately show "table_ok (t[h := x])" using ok ab assms(6) by (auto simp: table_ok_def)
qed

lemma table_empty: "table_ok (replicate BITVEC_NINT 0)" "vals (replicate BITVEC_NINT 0) = []"
  by (auto simp: table_ok_def)

section \<open>Well-formed objects and the set they represent\<close>

definition bv_div :: "nat \<Rightarrow> nat" where
  "bv_div sz = (sz + 61) div 62"

inductive bv_ok :: "bitvec \<Rightarrow> bool" where
  bitmap: "sz \<le> BITVEC_NBIT \<Longrightarrow> length w = BITVEC_NELEM \<Longrightarrow> bv_ok (Bitvec sz n 0 (ABitmap w))"
| hash: "BITVEC_NBIT < sz \<Longrightarrow> table_ok t \<Longrightarrow> n = length (vals t) \<Longrightarrow> \<forall>x\<in>set t. x \<le> sz \<Longrightarrow>
    bv_ok (Bitvec sz n 0 (AHash t))"
| sub: "BITVEC_NBIT < sz \<Longrightarrow> d = bv_div sz \<Longrightarrow> length s = BITVEC_NPTR \<Longrightarrow>
    \<forall>b<BITVEC_NPTR. \<forall>q. s ! b = Some q \<longrightarrow> bv_ok q \<and> iSize q = d \<Longrightarrow>
    bv_ok (Bitvec sz n d (ApSub s))"

inductive_cases bv_okE: "bv_ok p"

text \<open>The zero-based positions of the bits that are set.\<close>

definition bits :: "bitvec \<Rightarrow> nat set" where
  "bits p = {i. i < iSize p \<and> bitvecTestLoop p i = Some True}"

lemma bits_bitmap:
  assumes "sz \<le> BITVEC_NBIT" "length w = BITVEC_NELEM"
  shows "i \<in> bits (Bitvec sz n 0 (ABitmap w)) \<longleftrightarrow> i < sz \<and> bit (w ! (i div 8)) (i mod 8)"
proof -
  have "i div 8 < length w" if "i < sz" using assms that by (simp add: bitvec_consts)
  with assms show ?thesis by (auto simp: bits_def bitvecTestLoop.simps)
qed

lemma bits_hash:
  assumes "BITVEC_NBIT < sz" "table_ok t" "\<forall>x\<in>set t. x \<le> sz"
  shows "i \<in> bits (Bitvec sz n 0 (AHash t)) \<longleftrightarrow> Suc i \<in> set (vals t)"
proof -
  obtain h where h: "probe BITVEC_NINT t (BITVEC_HASH (Suc i - 1)) (Suc i) = Some h"
    "t ! h = (if Suc i \<in> set t then Suc i else 0)"
    using probe_table [OF assms(2), of "Suc i"] by auto
  have "Suc i \<le> sz" if "Suc i \<in> set t" using that assms(3) by blast
  with h assms show ?thesis by (auto simp: bits_def bitvecTestLoop.simps)
qed

lemma sub_index:
  assumes "BITVEC_NBIT < sz" "d = bv_div sz" "i < sz"
  shows "0 < d" "i div d < BITVEC_NPTR" "i mod d < d"
proof -
  show d: "0 < d" using assms(1,2) by (simp add: bitvec_consts bv_div_def)
  have "sz \<le> 62 * d" unfolding assms(2) bv_div_def by linarith
  with assms(3) have "i < 62 * d" by simp
  then show "i div d < BITVEC_NPTR" using d by (simp add: div_less_iff_less_mult bitvec_consts mult.commute)
  show "i mod d < d" using d by simp
qed

lemma testLoop_sub:
  "0 < d \<Longrightarrow> i div d < length s \<Longrightarrow> bitvecTestLoop (Bitvec sz n d (ApSub s)) i =
    (case s ! (i div d) of None \<Rightarrow> Some False | Some q \<Rightarrow> bitvecTestLoop q (i mod d))"
  by (simp add: bitvecTestLoop.simps Let_def)

lemma bits_sub:
  assumes "BITVEC_NBIT < sz" "d = bv_div sz" "length s = BITVEC_NPTR"
    "\<forall>b<BITVEC_NPTR. \<forall>q. s ! b = Some q \<longrightarrow> iSize q = d"
  shows "i \<in> bits (Bitvec sz n d (ApSub s)) \<longleftrightarrow>
    i < sz \<and> (\<exists>q. s ! (i div d) = Some q \<and> i mod d \<in> bits q)"
proof (cases "i < sz")
  case True
  note ix = sub_index [OF assms(1,2) True]
  with assms True show ?thesis
    by (cases "s ! (i div d)") (auto simp: bits_def testLoop_sub)
next
  case False
  then show ?thesis by (simp add: bits_def)
qed

lemma bv_ok_create: "bv_ok (sqlite3BitvecCreate sz)"
  using table_empty by (auto simp: sqlite3BitvecCreate_def intro!: bv_ok.intros)

lemma bits_create: "bits (sqlite3BitvecCreate sz) = {}"
proof -
  have "i \<notin> bits (sqlite3BitvecCreate sz)" for i
  proof (cases "sz \<le> BITVEC_NBIT")
    case True
    have "replicate BITVEC_NELEM (0::u8) ! (i div 8) = 0" if "i < sz"
    proof -
      have "i div 8 < BITVEC_NELEM" using that True by (simp add: bitvec_consts)
      then show ?thesis by simp
    qed
    with True show ?thesis by (auto simp: sqlite3BitvecCreate_def bits_bitmap)
  next
    case False
    with table_empty show ?thesis by (auto simp: sqlite3BitvecCreate_def bits_hash)
  qed
  then show ?thesis by blast
qed

lemma iSize_create [simp]: "iSize (sqlite3BitvecCreate sz) = sz"
  "iDivisor (sqlite3BitvecCreate sz) = 0"
  by (simp_all add: sqlite3BitvecCreate_def)

text \<open>Testing never runs out of the arrays and never loops.\<close>

lemma test_total: "bv_ok p \<Longrightarrow> i < iSize p \<Longrightarrow> bitvecTestLoop p i = Some (i \<in> bits p)"
proof (induction arbitrary: i rule: bv_ok.induct)
  case (bitmap sz w n)
  then have "i div 8 < length w" by (simp add: bitvec_consts)
  with bitmap show ?case by (simp add: bits_bitmap bitvecTestLoop.simps)
next
  case (hash sz t n)
  obtain h where "probe BITVEC_NINT t (BITVEC_HASH (Suc i - 1)) (Suc i) = Some h"
    "t ! h = (if Suc i \<in> set t then Suc i else 0)"
    using probe_table [OF hash(2), of "Suc i"] by auto
  with hash show ?case by (auto simp: bits_hash bitvecTestLoop.simps)
next
  case (sub sz d s n)
  then have "0 < d" "i div d < BITVEC_NPTR" "i mod d < d" using sub_index by auto
  with sub show ?case
    by (cases "s ! (i div d)") (auto simp: bits_sub testLoop_sub)
qed

section \<open>Clear\<close>

lemma reinsert_table:
  assumes "table_ok t" "length (vals t) < BITVEC_NINT - 1" "x \<notin> set t" "x \<noteq> 0" "x \<noteq> v"
  shows "\<exists>t'. bitvecReinsert v (Some (n, t)) x = Some (n + 1, t') \<and> table_ok t' \<and>
    length (vals t') = length (vals t) + 1 \<and> set (vals t') = insert x (set (vals t))"
proof -
  note ok = assms(1) [unfolded table_ok_def]
  obtain k where k: "k < BITVEC_NINT" "\<forall>k'<k. t ! slot x k' \<noteq> 0 \<and> t ! slot x k' \<noteq> 0"
    "t ! slot x k = 0 \<or> t ! slot x k = 0"
    "probe BITVEC_NINT t (BITVEC_HASH (x - 1)) 0 = Some (slot x k)"
    using probe_stops [of t x 0] ok by blast
  then have "reaches t x (slot x k)" by (auto simp: reaches_def)
  with k assms show ?thesis using table_insert [of t x "slot x k"] by (auto simp: bitvecReinsert_def)
qed

lemma rebuild_table:
  assumes "table_ok t" "distinct (vals xs @ vals t)" "length (vals xs) + length (vals t) < BITVEC_NINT"
  shows "\<exists>t'. foldl (bitvecReinsert v) (Some (length (vals t), t)) xs = Some (length (vals t'), t') \<and>
    table_ok t' \<and> set (vals t') = set (vals t) \<union> (set (vals xs) - {v})"
  using assms
proof (induction xs arbitrary: t)
  case Nil
  then show ?case by simp
next
  case (Cons x xs)
  show ?case
  proof (cases "x \<noteq> 0 \<and> x \<noteq> v")
    case True
    with Cons.prems have "x \<notin> set t" "length (vals t) < BITVEC_NINT - 1" by auto
    with True Cons.prems obtain t' where t': "bitvecReinsert v (Some (length (vals t), t)) x = Some (length (vals t) + 1, t')"
      "table_ok t'" "length (vals t') = length (vals t) + 1" "set (vals t') = insert x (set (vals t))"
      using reinsert_table [of t x v "length (vals t)"] by auto
    have "distinct (vals t')" using t'(2) by (simp add: table_ok_def)
    with Cons.prems t' True have "distinct (vals xs @ vals t')" by auto
    with Cons.IH [of t'] Cons.prems t' True show ?thesis by auto
  next
    case False
    with Cons.IH [of t] Cons.prems show ?thesis
      by (auto simp: bitvecReinsert_def split: if_splits)
  qed
qed

lemma set_vals_iff: "x \<in> set (vals t) \<longleftrightarrow> x \<in> set t \<and> x \<noteq> 0"
  by auto

lemma bit_set_u8: "k < 8 \<Longrightarrow> bit ((w::u8) OR push_bit j 1) k \<longleftrightarrow> bit w k \<or> k = j"
  by (auto simp: bit_simps bit_1_iff)

lemma bit_clear_u8: "k < 8 \<Longrightarrow> bit ((w::u8) AND NOT (push_bit j 1)) k \<longleftrightarrow> bit w k \<and> k \<noteq> j"
  by (auto simp: bit_simps bit_1_iff)

lemma div_mod_eq_8: "(i::nat) = j \<longleftrightarrow> i div 8 = j div 8 \<and> i mod 8 = j mod 8"
  by (metis div_mult_mod_eq)

text \<open>Replacing the sub-bitmap that holds bit \<open>i\<close>.\<close>

definition child_bits :: "bitvec option \<Rightarrow> nat set" where
  "child_bits c = (case c of None \<Rightarrow> {} | Some q \<Rightarrow> bits q)"

lemma child_bits_simps [simp]: "child_bits None = {}" "child_bits (Some q) = bits q"
  by (simp_all add: child_bits_def)

lemma bits_sub_child:
  assumes "bv_ok (Bitvec sz n d (ApSub s))"
  shows "i \<in> bits (Bitvec sz n d (ApSub s)) \<longleftrightarrow> i < sz \<and> i mod d \<in> child_bits (s ! (i div d))"
  using assms by (auto simp: bits_sub elim!: bv_ok.cases) (auto split: option.splits simp: child_bits_def)

lemma replace_child:
  assumes "bv_ok (Bitvec sz n d (ApSub s))" "i < sz" "bv_ok q" "iSize q = d"
  defines "p' \<equiv> Bitvec sz n d (ApSub (s[i div d := Some q]))"
  shows "bv_ok p'"
    and "bits q = insert (i mod d) (child_bits (s ! (i div d))) \<Longrightarrow> bits p' = insert i (bits (Bitvec sz n d (ApSub s)))"
    and "bits q \<subseteq> insert (i mod d) (child_bits (s ! (i div d))) \<Longrightarrow> bits p' \<subseteq> insert i (bits (Bitvec sz n d (ApSub s)))"
    and "bits q = child_bits (s ! (i div d)) - {i mod d} \<Longrightarrow> bits p' = bits (Bitvec sz n d (ApSub s)) - {i}"
proof -
  from assms(1) have o: "BITVEC_NBIT < sz" "d = bv_div sz" "length s = BITVEC_NPTR"
    "\<forall>b<BITVEC_NPTR. \<forall>q. s ! b = Some q \<longrightarrow> bv_ok q \<and> iSize q = d"
    by (auto elim: bv_ok.cases)
  note ix = sub_index [OF o(1,2) assms(2)]
  have "bv_ok r \<and> iSize r = d" if "b < BITVEC_NPTR" "s[i div d := Some q] ! b = Some r" for b r
    using that o(3,4) assms(3,4) by (cases "b = i div d") auto
  then show ok: "bv_ok p'" unfolding p'_def using o by (intro bv_ok.sub) auto
  have new: "j \<in> bits p' \<longleftrightarrow> j < sz \<and> j mod d \<in> (if j div d = i div d then bits q else child_bits (s ! (j div d)))" for j
    unfolding p'_def using bits_sub_child [OF ok [unfolded p'_def]] ix(2) o(3) by (auto simp: nth_list_update)
  have eq: "j = i \<longleftrightarrow> j div d = i div d \<and> j mod d = i mod d" for j by (metis div_mult_mod_eq)
  note old = bits_sub_child [OF assms(1)]
  show "bits p' = insert i (bits (Bitvec sz n d (ApSub s)))"
    if "bits q = insert (i mod d) (child_bits (s ! (i div d)))"
    using that assms(2) by (intro set_eqI) (auto simp: new old dest: eq [THEN iffD2, OF conjI])
  show "bits p' \<subseteq> insert i (bits (Bitvec sz n d (ApSub s)))"
    if "bits q \<subseteq> insert (i mod d) (child_bits (s ! (i div d)))"
    using that by (intro subsetI) (auto simp: new old eq split: if_splits)
  show "bits p' = bits (Bitvec sz n d (ApSub s)) - {i}"
    if "bits q = child_bits (s ! (i div d)) - {i mod d}"
    using that by (intro set_eqI) (auto simp: new old eq)
qed

lemma clear_correct:
  "bv_ok p \<Longrightarrow> i < iSize p \<Longrightarrow>
   \<exists>p'. bitvecClearLoop p i = Some p' \<and> bv_ok p' \<and> iSize p' = iSize p \<and> bits p' = bits p - {i}"
proof (induction arbitrary: i rule: bv_ok.induct)
  case (bitmap sz w n)
  then have l: "i div 8 < length w" by (simp add: bitvec_consts)
  let ?w = "w[i div 8 := w ! (i div 8) AND NOT (push_bit (i mod 8) 1)]"
  have "bitvecClearLoop (Bitvec sz n 0 (ABitmap w)) i = Some (Bitvec sz n 0 (ABitmap ?w))"
    using bitmap l by (simp add: bitvecClearLoop.simps)
  moreover have "bv_ok (Bitvec sz n 0 (ABitmap ?w))" using bitmap by (auto intro: bv_ok.bitmap)
  moreover have "j \<in> bits (Bitvec sz n 0 (ABitmap ?w)) \<longleftrightarrow> j \<in> bits (Bitvec sz n 0 (ABitmap w)) - {i}" for j
    using bitmap l bit_clear_u8 [of "j mod 8" _ "i mod 8"] div_mod_eq_8 [of j i]
    by (auto simp: bits_bitmap nth_list_update)
  ultimately show ?case by auto
next
  case (hash sz t n)
  have "distinct (vals t)" "length (vals t) < BITVEC_NINT" using hash(2) by (auto simp: table_ok_def)
  then obtain t' where t': "foldl (bitvecReinsert (Suc i)) (Some (0, replicate BITVEC_NINT 0)) t = Some (length (vals t'), t')"
    "table_ok t'" "set (vals t') = set (vals t) - {Suc i}"
    using rebuild_table [of "replicate BITVEC_NINT 0" t "Suc i"] table_empty by auto
  have "\<forall>x\<in>set t'. x \<le> sz" using hash(4) t'(3) set_vals_iff [of _ t'] by (metis Diff_iff le0 set_vals_iff)
  with t' hash have "bv_ok (Bitvec sz (length (vals t')) 0 (AHash t'))" by (auto intro: bv_ok.hash)
  moreover have "j \<in> bits (Bitvec sz (length (vals t')) 0 (AHash t')) \<longleftrightarrow> j \<in> bits (Bitvec sz n 0 (AHash t)) - {i}" for j
    unfolding bits_hash [OF hash(1) t'(2) \<open>\<forall>x\<in>set t'. x \<le> sz\<close>] Diff_iff bits_hash [OF hash(1,2,4)] t'(3)
    by simp
  ultimately show ?case using hash t' by (auto simp: bitvecClearLoop.simps)
next
  case (sub sz d s n)
  then have ix: "0 < d" "i div d < BITVEC_NPTR" "i mod d < d" using sub_index by auto
  show ?case
  proof (cases "s ! (i div d)")
    case None
    moreover have "i \<notin> bits (Bitvec sz n d (ApSub s))" using None sub by (auto simp: bits_sub)
    moreover have "bv_ok (Bitvec sz n d (ApSub s))" using sub by (auto intro: bv_ok.sub)
    ultimately show ?thesis using sub ix by (auto simp: bitvecClearLoop.simps Let_def)
  next
    case (Some q)
    with sub ix obtain q' where q': "bitvecClearLoop q (i mod d) = Some q'" "bv_ok q'"
      "iSize q' = d" "bits q' = bits q - {i mod d}" by force
    have "bv_ok (Bitvec sz n d (ApSub s))" using sub by (auto intro: bv_ok.sub)
    from replace_child [OF this _ q'(2,3)] sub.prems q'(4) Some
    have "bv_ok (Bitvec sz n d (ApSub (s[i div d := Some q'])))"
      "bits (Bitvec sz n d (ApSub (s[i div d := Some q']))) = bits (Bitvec sz n d (ApSub s)) - {i}"
      by simp_all
    with sub ix Some q' show ?thesis by (auto simp: bitvecClearLoop.simps Let_def)
  qed
qed

section \<open>Set\<close>

text \<open>
  What a call that sets bit \<open>i\<close> of \<open>p\<close> guarantees. A call that reports no error has set exactly
  that bit. A call that runs out of memory leaves a well-formed object without spurious bits
  (but after a failed rehash bits can be missing).
\<close>

definition set_post :: "bitvec \<Rightarrow> nat set \<Rightarrow> allocs \<Rightarrow> (nat \<times> bitvec \<times> allocs) option \<Rightarrow> bool" where
  "set_post p is m r \<longleftrightarrow> (\<exists>rc p' m'. r = Some (rc, p', m') \<and> bv_ok p' \<and> iSize p' = iSize p
     \<and> (iDivisor p \<noteq> 0 \<longrightarrow> iDivisor p' \<noteq> 0) \<and> (rc = SQLITE_OK \<or> rc = SQLITE_NOMEM)
     \<and> bits p' \<subseteq> is \<union> bits p \<and> (rc = SQLITE_OK \<longrightarrow> bits p' = is \<union> bits p)
     \<and> (m = [] \<longrightarrow> rc = SQLITE_OK \<and> m' = []))"

lemma set_postI:
  "bv_ok p' \<Longrightarrow> iSize p' = iSize p \<Longrightarrow> (iDivisor p \<noteq> 0 \<Longrightarrow> iDivisor p' \<noteq> 0) \<Longrightarrow>
   bits p' = is \<union> bits p \<Longrightarrow> set_post p is m (Some (SQLITE_OK, p', m))"
  by (simp add: set_post_def)

lemma set_post_nomem:
  "bv_ok p \<Longrightarrow> m \<noteq> [] \<Longrightarrow> set_post p is m (Some (SQLITE_NOMEM, p, m'))"
  by (auto simp: set_post_def SQLITE_OK_def SQLITE_NOMEM_def)

lemma rc_or: "(rc = SQLITE_OK \<or> rc = SQLITE_NOMEM) \<Longrightarrow> (rc' = SQLITE_OK \<or> rc' = SQLITE_NOMEM) \<Longrightarrow>
   (rc OR rc' = SQLITE_OK \<or> rc OR rc' = SQLITE_NOMEM) \<and>
   (rc OR rc' = SQLITE_OK \<longleftrightarrow> rc = SQLITE_OK \<and> rc' = SQLITE_OK)"
  by (auto simp: SQLITE_OK_def SQLITE_NOMEM_def)

lemma alloc_okD: "alloc_ok m = (ok, m') \<Longrightarrow> (m = [] \<longrightarrow> ok \<and> m' = [])"
  by (cases m) auto

text \<open>The loop that moves the values of a full hash table into the sub-bitmaps.\<close>

lemma rehash_fold:
  assumes call: "\<And>p i m. bv_ok p \<Longrightarrow> iDivisor p \<noteq> 0 \<Longrightarrow> iSize p = sz \<Longrightarrow> i < sz \<Longrightarrow>
      set_post p {i} m (setf p i m)"
    and "\<forall>x\<in>set t. x \<le> sz" and "set_post p0 A m0 r" "iSize p0 = sz" "iDivisor p0 \<noteq> 0"
  shows "set_post p0 (A \<union> {i. Suc i \<in> set t}) m0
    (foldl (\<lambda>r x. do { (rc, p, m) \<leftarrow> r;
        if x = 0 then Some (rc, p, m)
        else do { (rc', p, m) \<leftarrow> setf p (x - 1) m; Some (rc OR rc', p, m) }}) r t)"
  using assms(2,3)
proof (induction t arbitrary: A r)
  case Nil
  then show ?case by simp
next
  case (Cons x t)
  obtain rc p m where r: "r = Some (rc, p, m)" and p: "bv_ok p" "iSize p = sz" "iDivisor p \<noteq> 0"
    and q: "rc = SQLITE_OK \<or> rc = SQLITE_NOMEM" "bits p \<subseteq> A \<union> bits p0"
      "rc = SQLITE_OK \<longrightarrow> bits p = A \<union> bits p0" "m0 = [] \<longrightarrow> rc = SQLITE_OK \<and> m = []"
    using Cons.prems(2) assms(4,5) unfolding set_post_def by auto
  let ?r = "if x = 0 then Some (rc, p, m)
        else do { (rc', p, m) \<leftarrow> setf p (x - 1) m; Some (rc OR rc', p, m) }"
  have "set_post p0 (A \<union> {i. Suc i = x}) m0 ?r"
  proof (cases "x = 0")
    case True
    with r Cons.prems(2) show ?thesis by simp
  next
    case False
    with Cons.prems(1) have "x - 1 < sz" by auto
    from call [OF p(1,3,2) this, of m] obtain rc' p' m' where
      s: "setf p (x - 1) m = Some (rc', p', m')" "bv_ok p'" "iSize p' = sz" "iDivisor p' \<noteq> 0"
      "rc' = SQLITE_OK \<or> rc' = SQLITE_NOMEM" "bits p' \<subseteq> {x - 1} \<union> bits p"
      "rc' = SQLITE_OK \<longrightarrow> bits p' = {x - 1} \<union> bits p" "m = [] \<longrightarrow> rc' = SQLITE_OK \<and> m' = []"
      using p unfolding set_post_def by auto
    moreover have "{i. Suc i = x} = {x - 1}" using False by auto
    ultimately show ?thesis
      using False q rc_or [OF q(1) s(5)] assms(4) unfolding set_post_def by auto
  qed
  from Cons.IH [OF _ this] Cons.prems(1) r
  have "set_post p0 (A \<union> {i. Suc i = x} \<union> {i. Suc i \<in> set t}) m0
    (foldl (\<lambda>r x. do { (rc, p, m) \<leftarrow> r;
        if x = 0 then Some (rc, p, m)
        else do { (rc', p, m) \<leftarrow> setf p (x - 1) m; Some (rc OR rc', p, m) }}) ?r t)" by simp
  moreover have "A \<union> {i. Suc i = x} \<union> {i. Suc i \<in> set t} = A \<union> {i. Suc i \<in> set (x # t)}" by auto
  ultimately show ?case using r by simp
qed

text \<open>Leaves.\<close>

lemma set_bitmap:
  assumes "bv_ok (Bitvec sz n d (ABitmap w))" "i < sz"
  shows "set_post (Bitvec sz n d (ABitmap w)) {i} m (bitvecSetLoop (Suc f) (Bitvec sz n d (ABitmap w)) i m)"
proof -
  from assms(1) have o: "sz \<le> BITVEC_NBIT" "d = 0" "length w = BITVEC_NELEM"
    by (auto elim: bv_ok.cases)
  then have l: "i div 8 < length w" using assms(2) by (simp add: bitvec_consts)
  let ?w = "w[i div 8 := w ! (i div 8) OR push_bit (i mod 8) 1]"
  have "bv_ok (Bitvec sz n 0 (ABitmap ?w))" using o by (auto intro: bv_ok.bitmap)
  moreover have "bits (Bitvec sz n 0 (ABitmap ?w)) = {i} \<union> bits (Bitvec sz n 0 (ABitmap w))"
    using o l assms(2) bit_set_u8 [of "_ mod 8" _ "i mod 8"]
    by (intro set_eqI) (auto simp: bits_bitmap nth_list_update dest: div_mod_eq_8 [THEN iffD2, OF conjI])
  ultimately show ?thesis using o l by (auto simp: bitvecSetLoop.simps intro!: set_postI)
qed

lemma bits_hash_insert:
  assumes "bv_ok (Bitvec sz n 0 (AHash t))" "i < sz" "reaches t (Suc i) h" "t ! h = 0" "Suc i \<notin> set t"
    "n < BITVEC_NINT - 1"
  shows "bv_ok (Bitvec sz (n + 1) 0 (AHash (t[h := Suc i])))"
    "bits (Bitvec sz (n + 1) 0 (AHash (t[h := Suc i]))) = {i} \<union> bits (Bitvec sz n 0 (AHash t))"
proof -
  from assms(1) have o: "BITVEC_NBIT < sz" "table_ok t" "n = length (vals t)" "\<forall>x\<in>set t. x \<le> sz"
    by (auto elim: bv_ok.cases)
  have ti: "table_ok (t[h := Suc i])" "length (vals (t[h := Suc i])) = n + 1"
    "set (vals (t[h := Suc i])) = insert (Suc i) (set (vals t))"
    using table_insert [of t "Suc i" h] o assms by auto
  have le: "\<forall>x\<in>set (t[h := Suc i]). x \<le> sz"
    using o(4) assms(2) set_update_subset_insert [of t h "Suc i"] by auto
  show "bv_ok (Bitvec sz (n + 1) 0 (AHash (t[h := Suc i])))"
    using o ti le by (intro bv_ok.hash) auto
  show "bits (Bitvec sz (n + 1) 0 (AHash (t[h := Suc i]))) = {i} \<union> bits (Bitvec sz n 0 (AHash t))"
    by (intro set_eqI) (simp only: Un_iff bits_hash [OF o(1) ti(1) le] bits_hash [OF o(1,2,4)] ti(3), simp)
qed

lemma bits_Suc_set:
  assumes "bv_ok (Bitvec sz n 0 (AHash t))"
  shows "{i. Suc i \<in> set t} = bits (Bitvec sz n 0 (AHash t))"
proof -
  from assms have "BITVEC_NBIT < sz" "table_ok t" "\<forall>x\<in>set t. x \<le> sz" by (auto elim: bv_ok.cases)
  then show ?thesis by (auto simp: bits_hash)
qed

lemma probe_hit: "t ! h = 0 \<Longrightarrow> h < length t \<Longrightarrow> 0 < f \<Longrightarrow> probe f t h v = Some h"
  by (cases f) auto

lemma fresh_sub:
  fixes sz n :: nat
  assumes "BITVEC_NBIT < sz"
  defines "q \<equiv> Bitvec sz n (bv_div sz) (ApSub (replicate BITVEC_NPTR None))"
  shows "bv_ok q" "bits q = {}" "0 < bv_div sz"
proof -
  show "bv_ok q" unfolding q_def using assms(1) by (intro bv_ok.sub) auto
  show "0 < bv_div sz" using assms(1) by (simp add: bv_div_def bitvec_consts)
  have "i \<notin> bits q" for i
    using sub_index [OF assms(1) refl, of i] assms(1) unfolding q_def by (subst bits_sub) auto
  then show "bits q = {}" by blast
qed

text \<open>
  The hash table: the direct insertion, the value already present, the insertion after a
  collision, and the rehash, which relies on calls for the object with sub-bitmaps.
\<close>

lemma set_rehash:
  assumes ok: "bv_ok (Bitvec sz n 0 (AHash t))" and i: "i < sz"
    and call: "\<And>p i m. bv_ok p \<Longrightarrow> iDivisor p \<noteq> 0 \<Longrightarrow> iSize p = sz \<Longrightarrow> i < sz \<Longrightarrow>
      set_post p {i} m (setf p i m)"
  shows "set_post (Bitvec sz n 0 (AHash t)) {i} m (foldl (\<lambda>r x. do { (rc, p, m) \<leftarrow> r;
      if x = 0 then Some (rc, p, m)
      else do { (rc', p, m) \<leftarrow> setf p (x - 1) m; Some (rc OR rc', p, m) }})
      (setf (Bitvec sz n (bv_div sz) (ApSub (replicate BITVEC_NPTR None))) i m) t)"
proof -
  let ?q = "Bitvec sz n (bv_div sz) (ApSub (replicate BITVEC_NPTR None))"
  from ok have o: "BITVEC_NBIT < sz" "\<forall>x\<in>set t. x \<le> sz" by (auto elim: bv_ok.cases)
  note q = fresh_sub(1,2) [OF o(1), of n] fresh_sub(3) [OF o(1)]
  have "set_post ?q ({i} \<union> {i. Suc i \<in> set t}) m (foldl (\<lambda>r x. do { (rc, p, m) \<leftarrow> r;
      if x = 0 then Some (rc, p, m)
      else do { (rc', p, m) \<leftarrow> setf p (x - 1) m; Some (rc OR rc', p, m) }}) (setf ?q i m) t)"
    using call [of ?q i m] q i o(2) by (intro rehash_fold [OF call]) auto
  then show ?thesis
    unfolding set_post_def bits_Suc_set [OF ok] q(2) by auto
qed

lemma set_hash:
  assumes ok: "bv_ok (Bitvec sz n d (AHash t))" and i: "i < sz" and w: "sz + 61 < 2 ^ 32"
    and call: "\<And>p i m. bv_ok p \<Longrightarrow> iDivisor p \<noteq> 0 \<Longrightarrow> iSize p = sz \<Longrightarrow> i < sz \<Longrightarrow>
      set_post p {i} m (bitvecSetLoop f p i m)"
  shows "set_post (Bitvec sz n d (AHash t)) {i} m (bitvecSetLoop (Suc f) (Bitvec sz n d (AHash t)) i m)"
proof -
  from ok have o: "BITVEC_NBIT < sz" "table_ok t" "n = length (vals t)" "\<forall>x\<in>set t. x \<le> sz" "d = 0"
    by (auto elim: bv_ok.cases)
  let ?p = "Bitvec sz n 0 (AHash t)" and ?h = "BITVEC_HASH i"
  have okp: "bv_ok ?p" using ok o(5) by simp
  obtain h where h: "probe BITVEC_NINT t ?h (Suc i) = Some h"
    "reaches t (Suc i) h" "t ! h = (if Suc i \<in> set t then Suc i else 0)"
    using probe_table [OF o(2), of "Suc i"] by auto
  have direct: "h = ?h" if "t ! ?h = 0"
    using that h(1) o(2) probe_hit [of t ?h] by (simp add: table_ok_def)
  have d': "((sz + BITVEC_NPTR - 1) mod 2 ^ 32) div BITVEC_NPTR = bv_div sz" "bv_div sz \<noteq> 0"
    using w fresh_sub(3) [OF o(1)] by (simp_all add: bv_div_def BITVEC_NPTR_def)
  note unf = bitvecSetLoop.simps(2) o(5) Let_def
  consider (free) "t ! ?h = 0" "n < BITVEC_NINT - 1" | (present) "t ! ?h \<noteq> 0" "Suc i \<in> set t"
    | (insert) "t ! ?h \<noteq> 0" "Suc i \<notin> set t" "n < BITVEC_MXHASH"
    | (full) "t ! ?h \<noteq> 0 \<or> \<not> n < BITVEC_NINT - 1" "Suc i \<notin> set t" "\<not> n < BITVEC_MXHASH"
    using direct h(3) by (force simp: bitvec_consts)
  then show ?thesis
  proof cases
    case free
    with direct h have "reaches t (Suc i) ?h" "Suc i \<notin> set t" by (auto split: if_splits)
    from bits_hash_insert [OF okp i this(1) free(1) this(2) free(2)] o(1) free show ?thesis
      by (simp add: unf set_post_def)
  next
    case present
    then have "bits ?p = {i} \<union> bits ?p" using bits_Suc_set [OF okp] by auto
    with present h o(1) okp show ?thesis by (simp add: unf set_post_def)
  next
    case insert
    then have "n < BITVEC_NINT - 1" "t ! h = 0" using h(3) by (simp_all add: bitvec_consts)
    from bits_hash_insert [OF okp i h(2) this(2) insert(2) this(1)] insert h(1) o(1) \<open>t ! h = 0\<close>
    show ?thesis by (simp add: unf set_post_def)
  next
    case full
    obtain ok' m' where m': "alloc_ok m = (ok', m')" by fastforce
    have z: "t ! h = 0" using full h(3) by simp
    have "(if t ! ?h = 0 then Some ?h else probe BITVEC_NINT t ?h (Suc i)) = Some h"
      using direct h(1) by auto
    with full o(1) z m' have step: "bitvecSetLoop (Suc f) ?p i m =
      (if \<not> ok' then Some (SQLITE_NOMEM, ?p, m') else
        foldl (\<lambda>r x. do { (rc, p, m) \<leftarrow> r;
          if x = 0 then Some (rc, p, m)
          else do { (rc', p, m) \<leftarrow> bitvecSetLoop f p (x - 1) m; Some (rc OR rc', p, m) }})
          (bitvecSetLoop f (Bitvec sz n (bv_div sz) (ApSub (replicate BITVEC_NPTR None))) i m') t)"
      using d' by (auto simp: unf split: if_splits)
    show ?thesis
    proof (cases ok')
      case True
      from set_rehash [where setf = "bitvecSetLoop f", OF okp i call]
      have "set_post ?p {i} m' (bitvecSetLoop (Suc f) ?p i m)"
        unfolding step by (simp only: True simp_thms if_False)
      then show ?thesis using o(5) alloc_okD [OF m'] by (auto simp: set_post_def)
    next
      case False
      then show ?thesis
        unfolding o(5) step using okp alloc_okD [OF m'] by (auto intro: set_post_nomem)
    qed
  qed
qed

text \<open>Fuel: two units for each level of sub-bitmaps.\<close>

lemma bv_div_level:
  assumes "sz \<le> BITVEC_NBIT * 62 ^ Suc k"
  shows "bv_div sz \<le> BITVEC_NBIT * 62 ^ k"
proof -
  have "(sz + 61) div 62 \<le> (BITVEC_NBIT * 62 ^ k * 62 + 61) div 62"
    using assms by (intro div_le_mono) (simp add: mult.commute mult.left_commute)
  then show ?thesis by (simp add: bv_div_def)
qed

lemma set_correct:
  assumes "bv_ok p" "i < iSize p" "iSize p \<le> BITVEC_NBIT * 62 ^ k" "iSize p + 61 < 2 ^ 32"
    "2 * k + (if iDivisor p = 0 then 1 else 0) \<le> f"
  shows "set_post p {i} m (bitvecSetLoop f p i m)"
  using assms
proof (induction f arbitrary: p i k m)
  case 0
  then have "iDivisor p \<noteq> 0" "k = 0" by (auto split: if_splits)
  with 0 show ?case by (auto elim!: bv_ok.cases)
next
  case (Suc f)
  from Suc.prems(1) show ?case
  proof cases
    case (bitmap sz w n)
    with Suc.prems show ?thesis by (auto intro: set_bitmap)
  next
    case (hash sz t n)
    have "set_post q {j} m (bitvecSetLoop f q j m)"
      if "bv_ok q" "iDivisor q \<noteq> 0" "iSize q = sz" "j < sz" for q j m
      using Suc.IH [of q j k] that Suc.prems hash(1) by auto
    with hash Suc.prems show ?thesis by (auto intro: set_hash)
  next
    case (sub sz d s n)
    then have ix: "0 < d" "i div d < BITVEC_NPTR" "i mod d < d" using sub_index Suc.prems by auto
    obtain k' where k: "k = Suc k'" using sub Suc.prems(3) by (cases k) auto
    have lev: "d \<le> BITVEC_NBIT * 62 ^ k'" using bv_div_level sub Suc.prems(3) k by simp
    have d32: "d + 61 < 2 ^ 32" using sub Suc.prems(4) by (simp add: bv_div_def BITVEC_NBIT_def)
    have child: "set_post q {i mod d} m (bitvecSetLoop f q (i mod d) m)" if "bv_ok q" "iSize q = d" for q m
      using Suc.IH [of q "i mod d" k' m] that ix lev d32 Suc.prems(5) sub k by (auto split: if_splits)
    have up: "set_post p {i} m (do { (rc, q, m) \<leftarrow> r; Some (rc, Bitvec sz n d (ApSub (s[i div d := Some q])), m) })"
      if "set_post q {i mod d} m r" "bits q = child_bits (s ! (i div d))" "iSize q = d" for q m r
    proof -
      from that obtain rc q' m' where r: "r = Some (rc, q', m')" "bv_ok q'" "iSize q' = d"
        "rc = SQLITE_OK \<or> rc = SQLITE_NOMEM" "bits q' \<subseteq> insert (i mod d) (child_bits (s ! (i div d)))"
        "rc = SQLITE_OK \<longrightarrow> bits q' = insert (i mod d) (child_bits (s ! (i div d)))"
        "m = [] \<longrightarrow> rc = SQLITE_OK \<and> m' = []" by (auto simp: set_post_def)
      from replace_child [of sz n d s i q'] r Suc.prems sub show ?thesis by (auto simp: set_post_def)
    qed
    show ?thesis
    proof (cases "s ! (i div d)")
      case (Some q)
      then have q: "bv_ok q" "iSize q = d" using sub ix by auto
      then have "set_post p {i} m (do { (rc, q, m) \<leftarrow> bitvecSetLoop f q (i mod d) m;
          Some (rc, Bitvec sz n d (ApSub (s[i div d := Some q])), m) })"
        using up [OF child [OF q]] Some by simp
      with Some sub ix show ?thesis by (simp add: bitvecSetLoop.simps Let_def)
    next
      case None
      obtain ok' m' where m': "alloc_ok m = (ok', m')" by fastforce
      have c: "set_post p {i} m' (do { (rc, q, m) \<leftarrow> bitvecSetLoop f (sqlite3BitvecCreate d) (i mod d) m';
          Some (rc, Bitvec sz n d (ApSub (s[i div d := Some q])), m) })"
        using up [OF child [OF bv_ok_create iSize_create(1)]] None bits_create by simp
      have "bitvecSetLoop (Suc f) p i m = (if \<not> ok' then Some (SQLITE_NOMEM, p, m')
        else do { (rc, q, m) \<leftarrow> bitvecSetLoop f (sqlite3BitvecCreate d) (i mod d) m';
          Some (rc, Bitvec sz n d (ApSub (s[i div d := Some q])), m) })"
        using None m' sub ix by (simp add: bitvecSetLoop.simps Let_def)
      moreover have "set_post p {i} m (Some (SQLITE_NOMEM, p, m'))" if "\<not> ok'"
        using that Suc.prems(1) alloc_okD [OF m'] by (auto intro: set_post_nomem)
      moreover have "set_post p {i} m r" if "set_post p {i} m' r" for r
        using that alloc_okD [OF m'] by (auto simp: set_post_def)
      ultimately show ?thesis using c by (cases ok') simp_all
    qed
  qed
qed

section \<open>The interface the pager uses\<close>

text \<open>Objects whose size leaves room for the rounding in the rehash: all that the pager creates.\<close>

definition bv_valid :: "bitvec \<Rightarrow> bool" where
  "bv_valid p \<longleftrightarrow> bv_ok p \<and> iSize p + 61 < 2 ^ 32"

lemma bitvec_test_bits:
  assumes "bv_valid p" "j < 2 ^ 32"
  shows "sqlite3BitvecTest (Some p) j = Some (j \<in> Suc ` bits p)"
proof (cases j)
  case 0
  with assms show ?thesis
    by (auto simp: sqlite3BitvecTest_def sqlite3BitvecTestNotNull_def bv_valid_def)
next
  case (Suc k)
  have "(j + (2 ^ 32 - 1)) mod 2 ^ 32 = k" using assms(2) Suc by simp
  then have "sqlite3BitvecTest (Some p) j = (if k \<ge> iSize p then Some False else bitvecTestLoop p k)"
    by (simp add: sqlite3BitvecTest_def sqlite3BitvecTestNotNull_def)
  also have "\<dots> = Some (k \<in> bits p)"
    using assms(1) by (auto simp: test_total bv_valid_def) (auto simp: bits_def)
  finally show ?thesis using Suc by auto
qed

lemma bitvec_set_post:
  assumes "bv_valid p" "1 \<le> i" "i \<le> iSize p"
  shows "\<exists>rc p' m'. sqlite3BitvecSet (Some p) i m = Some (rc, Some p', m') \<and> bv_valid p' \<and> iSize p' = iSize p
    \<and> (rc = SQLITE_OK \<or> rc = SQLITE_NOMEM) \<and> bits p' \<subseteq> insert (i - 1) (bits p)
    \<and> (rc = SQLITE_OK \<longrightarrow> bits p' = insert (i - 1) (bits p)) \<and> (m = [] \<longrightarrow> rc = SQLITE_OK)"
proof -
  have "iSize p \<le> BITVEC_NBIT * 62 ^ 4" using assms(1) by (simp add: bv_valid_def BITVEC_NBIT_def)
  then have "set_post p {i - 1} m (bitvecSetLoop 9 p (i - 1) m)"
    using assms by (intro set_correct [of _ _ 4]) (auto simp: bv_valid_def)
  then show ?thesis using assms(1) by (fastforce simp: set_post_def sqlite3BitvecSet_def bv_valid_def)
qed

definition bitvec_ins :: "bitvec \<Rightarrow> nat \<Rightarrow> bitvec option" where
  "bitvec_ins p i = (case sqlite3BitvecSet (Some p) i [] of
     Some (rc, Some p', m) \<Rightarrow> if rc = SQLITE_OK then Some p' else None | _ \<Rightarrow> None)"

definition bitvec_del :: "bitvec \<Rightarrow> nat \<Rightarrow> bitvec" where
  "bitvec_del p i = (case sqlite3BitvecClear (Some p) i of Some (Some p') \<Rightarrow> p' | _ \<Rightarrow> p)"

definition bitvec_has :: "bitvec \<Rightarrow> nat \<Rightarrow> bool" where
  "bitvec_has p i \<longleftrightarrow> sqlite3BitvecTest (Some p) i = Some True"

lemma bitvec_ins_ok:
  assumes "bv_valid p" "i \<in> {1..iSize p}"
  obtains p' where "bitvec_ins p i = Some p'" "bv_valid p'" "iSize p' = iSize p"
    "bits p' = insert (i - 1) (bits p)"
  using bitvec_set_post [of p i "[]"] assms by (auto simp: bitvec_ins_def)

lemma bitvec_del_ok:
  assumes "bv_valid p" "i \<in> {1..iSize p}"
  shows "bv_valid (bitvec_del p i)" "iSize (bitvec_del p i) = iSize p" "bits (bitvec_del p i) = bits p - {i - 1}"
proof -
  have "i - 1 < iSize p" using assms(2) by auto
  with clear_correct [of p "i - 1"] assms obtain p' where
    "bitvecClearLoop p (i - 1) = Some p'" "bv_ok p'" "iSize p' = iSize p" "bits p' = bits p - {i - 1}"
    by (auto simp: bv_valid_def)
  with assms show "bv_valid (bitvec_del p i)" "iSize (bitvec_del p i) = iSize p"
    "bits (bitvec_del p i) = bits p - {i - 1}"
    by (simp_all add: bitvec_del_def sqlite3BitvecClear_def bv_valid_def)
qed

lemma Suc_image_insert: "1 \<le> i \<Longrightarrow> Suc ` insert (i - 1) B = insert i (Suc ` B)"
  by auto

lemma Suc_image_diff: "1 \<le> i \<Longrightarrow> Suc ` (B - {i - 1}) = Suc ` B - {i}"
  by (cases i) (simp_all add: image_set_diff)

interpretation bv: page_set bv_valid "\<lambda>p. Suc ` bits p" "\<lambda>p. {1..iSize p}" bitvec_ins bitvec_del bitvec_has
proof unfold_locales
  fix s i
  assume s: "bv_valid s"
  show "bitvec_has s i \<longleftrightarrow> i \<in> Suc ` bits s" if "i < 2 ^ 32"
    using bitvec_test_bits [OF s that] by (simp add: bitvec_has_def)
  assume i: "i \<in> {1..iSize s}"
  show "\<exists>s'. bitvec_ins s i = Some s'" using bitvec_ins_ok [OF s i] by blast
  show "bv_valid s' \<and> Suc ` bits s' = insert i (Suc ` bits s) \<and> {1..iSize s'} = {1..iSize s}"
    if "bitvec_ins s i = Some s'" for s'
  proof -
    have "bv_valid s'" "iSize s' = iSize s" "bits s' = insert (i - 1) (bits s)"
      using bitvec_ins_ok [OF s i] that by (metis option.inject)+
    then show ?thesis using Suc_image_insert [of i "bits s"] i by simp
  qed
  show "bv_valid (bitvec_del s i) \<and> Suc ` bits (bitvec_del s i) = Suc ` bits s - {i}
    \<and> {1..iSize (bitvec_del s i)} = {1..iSize s}"
    using bitvec_del_ok [OF s i] Suc_image_diff [of i "bits s"] i by simp
qed

lemma bv_valid_create: "sz + 61 < 2 ^ 32 \<Longrightarrow> bv_valid (sqlite3BitvecCreate sz)"
  by (simp add: bv_valid_def bv_ok_create)

text \<open>C15. \<open>sqlite3BitvecSet\<close>, whatever allocations fail, stays inside its arrays, returns a
  well-formed object of the same size and a code that is SQLITE_OK or SQLITE_NOMEM. When it
  reports SQLITE_OK, a later \<open>sqlite3BitvecTest\<close> of any page answers true exactly for that bit
  and the bits that were set before, also across the change from hash table to sub-bitmaps.
  When it reports SQLITE_NOMEM no other bit appears; without memory pressure it succeeds.\<close>

theorem sqlite3BitvecSet_correct:
  assumes "bv_valid p" "1 \<le> i" "i \<le> iSize p"
  shows "\<exists>rc p' m'. sqlite3BitvecSet (Some p) i m = Some (rc, Some p', m') \<and> bv_valid p'
    \<and> iSize p' = iSize p \<and> (rc = SQLITE_OK \<or> rc = SQLITE_NOMEM) \<and> (m = [] \<longrightarrow> rc = SQLITE_OK)
    \<and> (\<forall>j<2 ^ 32. \<exists>b b'. sqlite3BitvecTest (Some p) j = Some b \<and> sqlite3BitvecTest (Some p') j = Some b'
         \<and> (b' \<longrightarrow> b \<or> j = i) \<and> (rc = SQLITE_OK \<longrightarrow> (b' \<longleftrightarrow> b \<or> j = i)))"
proof -
  obtain rc p' m' where r: "sqlite3BitvecSet (Some p) i m = Some (rc, Some p', m')" "bv_valid p'"
    "iSize p' = iSize p" "rc = SQLITE_OK \<or> rc = SQLITE_NOMEM" "m = [] \<longrightarrow> rc = SQLITE_OK"
    and b: "bits p' \<subseteq> insert (i - 1) (bits p)" "rc = SQLITE_OK \<longrightarrow> bits p' = insert (i - 1) (bits p)"
    using bitvec_set_post [OF assms, of m] by (elim exE conjE) (rule that)
  note img = Suc_image_insert [OF assms(2), of "bits p"]
  have "Suc ` bits p' \<subseteq> insert i (Suc ` bits p)" using image_mono [OF b(1), of Suc] unfolding img .
  moreover have "rc = SQLITE_OK \<longrightarrow> Suc ` bits p' = insert i (Suc ` bits p)" using b(2) img by metis
  ultimately have "\<exists>b b'. sqlite3BitvecTest (Some p) j = Some b \<and> sqlite3BitvecTest (Some p') j = Some b'
         \<and> (b' \<longrightarrow> b \<or> j = i) \<and> (rc = SQLITE_OK \<longrightarrow> (b' \<longleftrightarrow> b \<or> j = i))" if "j < 2 ^ 32" for j
    using bitvec_test_bits [OF assms(1) that] bitvec_test_bits [OF r(2) that] by auto
  with r show ?thesis by (intro exI [of _ rc] exI [of _ p'] exI [of _ m']) simp
qed

theorem sqlite3BitvecSet_correct_witness:
  "\<exists>rc p' m'. sqlite3BitvecSet (Some (sqlite3BitvecCreate 5000)) 4000 [] = Some (rc, Some p', m')
    \<and> rc = SQLITE_OK \<and> sqlite3BitvecTest (Some p') 4000 = Some True"
proof -
  have "(4000::nat) < 2 ^ 32" by simp
  then show ?thesis
    using sqlite3BitvecSet_correct [OF bv_valid_create [of 5000], of 4000 "[]"] by fastforce
qed

text \<open>\<open>sqlite3BitvecClear\<close> of a bit in range rebuilds the hash table or clears the bitmap so
  that afterwards exactly that bit is gone; it keeps the object well-formed.\<close>

theorem sqlite3BitvecClear_correct:
  assumes "bv_valid p" "1 \<le> i" "i \<le> iSize p"
  shows "\<exists>p'. sqlite3BitvecClear (Some p) i = Some (Some p') \<and> bv_valid p' \<and> iSize p' = iSize p
    \<and> (\<forall>j<2 ^ 32. sqlite3BitvecTest (Some p') j =
         map_option (\<lambda>b. b \<and> j \<noteq> i) (sqlite3BitvecTest (Some p) j))"
proof -
  have i: "i \<in> {1..iSize p}" using assms by simp
  have "i - 1 < iSize p" using assms by simp
  then obtain p' where p': "sqlite3BitvecClear (Some p) i = Some (Some p')"
    using clear_correct [of p "i - 1"] assms(1) by (auto simp: sqlite3BitvecClear_def bv_valid_def)
  then have "bitvec_del p i = p'" by (simp add: bitvec_del_def)
  with bitvec_del_ok [OF assms(1) i]
  have ok: "bv_valid p'" "iSize p' = iSize p" "Suc ` bits p' = Suc ` bits p - {i}"
    using Suc_image_diff [OF assms(2)] by simp_all
  have "sqlite3BitvecTest (Some p') j = map_option (\<lambda>b. b \<and> j \<noteq> i) (sqlite3BitvecTest (Some p) j)"
    if "j < 2 ^ 32" for j
    using bitvec_test_bits [OF assms(1) that] bitvec_test_bits [OF ok(1) that] ok(3) by auto
  with p' ok show ?thesis by simp
qed

theorem sqlite3BitvecClear_correct_witness:
  "\<exists>p'. sqlite3BitvecClear (Some (sqlite3BitvecCreate 5000)) 17 = Some (Some p') \<and> iSize p' = 5000"
  using sqlite3BitvecClear_correct [OF bv_valid_create [of 5000], of 17] by auto

text \<open>C27. After any sequence of insertions of pages in range into a fresh bitmap, every insertion
  has succeeded and a page tests as set exactly when it is in the sequence: the bitmap behaves
  as the set of pages the pager relies on.\<close>

theorem bitvec_refines_set:
  assumes "sz + 61 < 2 ^ 32" "set is \<subseteq> {1..sz}"
  shows "\<exists>p. foldl (\<lambda>r i. Option.bind r (\<lambda>q. bitvec_ins q i)) (Some (sqlite3BitvecCreate sz)) is = Some p
    \<and> (\<forall>j<2 ^ 32. bitvec_has p j \<longleftrightarrow> j \<in> set is)"
proof -
  have f: "foldl (\<lambda>r i. Option.bind r (\<lambda>q. bitvec_ins q i)) (Some s) is = bv.ins_all s is" for s "is"
  proof (induction "is" arbitrary: s)
    case (Cons i "is")
    have "foldl (\<lambda>r i. Option.bind r (\<lambda>q. bitvec_ins q i)) None js = None" for js
      by (induction js) simp_all
    with Cons show ?case by (cases "bitvec_ins s i") simp_all
  qed simp
  have "\<not> bitvec_has (sqlite3BitvecCreate sz) j" if "j < 2 ^ 32" for j
    using bitvec_test_bits [OF bv_valid_create [OF assms(1)] that] by (simp add: bitvec_has_def bits_create)
  with bv.test_ins_all [OF bv_valid_create [OF assms(1)], of "is"] assms(2) show ?thesis
    unfolding f by auto
qed

theorem bitvec_refines_set_witness:
  "\<exists>p. foldl (\<lambda>r i. Option.bind r (\<lambda>q. bitvec_ins q i)) (Some (sqlite3BitvecCreate 9000)) [1, 9000, 5, 1] = Some p
    \<and> bitvec_has p 9000 \<and> \<not> bitvec_has p 2"
proof -
  have "(9000::nat) < 2 ^ 32" "(2::nat) < 2 ^ 32" by simp_all
  then show ?thesis
    using bitvec_refines_set [of 9000 "[1, 9000, 5, 1]"] by auto
qed



end
