(* ===== verification/MergeBuckets.thy ===== *)
theory MergeBuckets
  imports SqlitePrelude "HOL-Library.Multiset"
begin

text \<open>
  Bottom-up merge sort of a linked list with an array of buckets, the scheme that rowset.c and
  pcache.c share: bucket \<open>i\<close> is NULL or holds a sorted list made of \<open>2^i\<close> elements, a new element
  is merged with the full buckets from the left like a carry in binary addition, and at the end
  all buckets are merged. A list is a linked list of entries, \<open>[]\<close> is the NULL pointer.

  The interface \<open>bucket_merge\<close> is what the scheme needs of the merge routine.
\<close>

text \<open>
  \<open>for(i=0; aBucket[i]; i++){ pIn = merge(aBucket[i], pIn); aBucket[i] = 0; } aBucket[i] = pIn;\<close>
  Running off the end of the array is \<^term>\<open>None\<close>.
\<close>

fun bucket_put :: "('a list \<Rightarrow> 'a list \<Rightarrow> 'a list) \<Rightarrow> 'a list list \<Rightarrow> 'a list \<Rightarrow> 'a list list option" where
  "bucket_put mrg [] p = None"
| "bucket_put mrg (b # bs) p =
     (if b = [] then Some (p # bs)
      else map_option ((#) []) (bucket_put mrg bs (mrg b p)))"

fun bucket_fill :: "('a list \<Rightarrow> 'a list \<Rightarrow> 'a list) \<Rightarrow> 'a list list \<Rightarrow> 'a list \<Rightarrow> 'a list list option" where
  "bucket_fill mrg bs [] = Some bs"
| "bucket_fill mrg bs (x # xs) = Option.bind (bucket_put mrg bs [x]) (\<lambda>bs. bucket_fill mrg bs xs)"

text \<open>The final loop over the buckets; \<open>p\<close> is the list merged so far.\<close>

fun bucket_join :: "('a list \<Rightarrow> 'a list \<Rightarrow> 'a list) \<Rightarrow> 'a list \<Rightarrow> 'a list list \<Rightarrow> 'a list" where
  "bucket_join mrg p [] = p"
| "bucket_join mrg p (b # bs) =
     bucket_join mrg (if b = [] then p else if p = [] then b else mrg p b) bs"

text \<open>The number whose binary digits say which buckets are full.\<close>

fun bucket_count :: "'a list list \<Rightarrow> nat" where
  "bucket_count [] = 0"
| "bucket_count (b # bs) = (if b = [] then 0 else 1) + 2 * bucket_count bs"

definition bucket_sort :: "('a list \<Rightarrow> 'a list \<Rightarrow> 'a list) \<Rightarrow> nat \<Rightarrow> 'a list \<Rightarrow> 'a list option" where
  "bucket_sort mrg n xs =
     map_option (\<lambda>bs. case bs of [] \<Rightarrow> [] | b # bs \<Rightarrow> bucket_join mrg b bs)
       (bucket_fill mrg (replicate n []) xs)"

locale bucket_merge =
  fixes mrg :: "'a list \<Rightarrow> 'a list \<Rightarrow> 'a list"
    and ok :: "'a list \<Rightarrow> bool"
  assumes single_ok: "ok [x]"
    and merge_ok: "a \<noteq> [] \<Longrightarrow> b \<noteq> [] \<Longrightarrow> ok a \<Longrightarrow> ok b \<Longrightarrow>
      ok (mrg a b) \<and> mrg a b \<noteq> [] \<and> set (mrg a b) = set a \<union> set b"
begin

lemma put_ok:
  assumes "p \<noteq> []" "ok p" "\<forall>b\<in>set bs. b \<noteq> [] \<longrightarrow> ok b" "Suc (bucket_count bs) < 2 ^ length bs"
  shows "\<exists>bs'. bucket_put mrg bs p = Some bs' \<and> length bs' = length bs
    \<and> bucket_count bs' = Suc (bucket_count bs) \<and> (\<forall>b\<in>set bs'. b \<noteq> [] \<longrightarrow> ok b)
    \<and> set (concat bs') = set (concat bs) \<union> set p"
  using assms
proof (induction bs arbitrary: p)
  case Nil
  then show ?case by simp
next
  case (Cons b bs)
  show ?case
  proof (cases "b = []")
    case True
    with Cons.prems show ?thesis by auto
  next
    case False
    with Cons.prems have m: "ok (mrg b p)" "mrg b p \<noteq> []" "set (mrg b p) = set b \<union> set p"
      using merge_ok by auto
    obtain bs' where "bucket_put mrg bs (mrg b p) = Some bs'" "length bs' = length bs"
      "bucket_count bs' = Suc (bucket_count bs)" "\<forall>b\<in>set bs'. b \<noteq> [] \<longrightarrow> ok b"
      "set (concat bs') = set (concat bs) \<union> set (mrg b p)"
      using Cons.IH [OF m(2,1)] Cons.prems False by auto
    with False m show ?thesis by auto
  qed
qed

lemma fill_ok:
  assumes "\<forall>b\<in>set bs. b \<noteq> [] \<longrightarrow> ok b" "bucket_count bs + length xs < 2 ^ length bs"
  shows "\<exists>bs'. bucket_fill mrg bs xs = Some bs' \<and> length bs' = length bs
    \<and> (\<forall>b\<in>set bs'. b \<noteq> [] \<longrightarrow> ok b) \<and> set (concat bs') = set (concat bs) \<union> set xs"
  using assms
proof (induction xs arbitrary: bs)
  case Nil
  then show ?case by simp
next
  case (Cons x xs)
  obtain bs1 where "bucket_put mrg bs [x] = Some bs1" "length bs1 = length bs"
    "bucket_count bs1 = Suc (bucket_count bs)" "\<forall>b\<in>set bs1. b \<noteq> [] \<longrightarrow> ok b"
    "set (concat bs1) = set (concat bs) \<union> {x}"
    using put_ok [of "[x]" bs] single_ok Cons.prems by auto
  with Cons.IH [of bs1] Cons.prems(2) show ?case by auto
qed

lemma join_ok:
  assumes "p \<noteq> [] \<longrightarrow> ok p" "\<forall>b\<in>set bs. b \<noteq> [] \<longrightarrow> ok b"
  shows "(bucket_join mrg p bs \<noteq> [] \<longrightarrow> ok (bucket_join mrg p bs))
    \<and> set (bucket_join mrg p bs) = set p \<union> set (concat bs)"
  using assms
proof (induction bs arbitrary: p)
  case Nil
  then show ?case by simp
next
  case (Cons b bs)
  let ?p = "if b = [] then p else if p = [] then b else mrg p b"
  have "(?p \<noteq> [] \<longrightarrow> ok ?p) \<and> set ?p = set p \<union> set b"
    using Cons.prems merge_ok [of p b] by auto
  with Cons.IH [of ?p] Cons.prems show ?case by auto
qed

text \<open>With enough buckets the sort returns, in order, with the same elements.\<close>

lemma sort_ok:
  assumes "length xs < 2 ^ n" "0 < n"
  shows "\<exists>ys. bucket_sort mrg n xs = Some ys \<and> set ys = set xs \<and> (ys \<noteq> [] \<longrightarrow> ok ys)"
proof -
  have c: "bucket_count (replicate n ([] :: 'a list)) = 0" for n by (induction n) auto
  obtain bs where bs: "bucket_fill mrg (replicate n []) xs = Some bs" "length bs = n"
    "\<forall>b\<in>set bs. b \<noteq> [] \<longrightarrow> ok b" "set (concat bs) = set xs"
    using fill_ok [of "replicate n []" xs] assms c [of n] by auto
  then obtain b bs' where "bs = b # bs'" using assms(2) by (cases bs) auto
  with bs join_ok [of b bs'] show ?thesis by (auto simp: bucket_sort_def)
qed

end

text \<open>A merge routine that keeps every element, with its multiplicity.\<close>

locale bucket_merge_mset = bucket_merge mrg ok
  for mrg :: "'a list \<Rightarrow> 'a list \<Rightarrow> 'a list" and ok :: "'a list \<Rightarrow> bool" +
  assumes merge_mset: "mset (mrg a b) = mset a + mset b"
begin

lemma put_mset: "bucket_put mrg bs p = Some bs' \<Longrightarrow> mset (concat bs') = mset (concat bs) + mset p"
  by (induction bs arbitrary: p bs') (auto simp: merge_mset split: if_splits)

lemma fill_mset: "bucket_fill mrg bs xs = Some bs' \<Longrightarrow> mset (concat bs') = mset (concat bs) + mset xs"
  by (induction xs arbitrary: bs) (auto simp: bind_eq_Some_conv dest!: put_mset)

lemma join_mset: "mset (bucket_join mrg p bs) = mset p + mset (concat bs)"
  by (induction bs arbitrary: p) (simp_all add: merge_mset)

lemma sort_mset:
  assumes "bucket_sort mrg n xs = Some ys"
  shows "mset ys = mset xs"
proof -
  obtain bs where bs: "bucket_fill mrg (replicate n []) xs = Some bs"
    "ys = (case bs of [] \<Rightarrow> [] | b # bs \<Rightarrow> bucket_join mrg b bs)"
    using assms by (auto simp: bucket_sort_def)
  have "mset (concat bs) = mset xs" using fill_mset [OF bs(1)] by (induction n) auto
  with bs(2) show ?thesis by (cases bs) (simp_all add: join_mset)
qed

end

end
