(* ===== verification/RowSet.thy ===== *)
theory RowSet
  imports MergeBuckets
begin

text \<open>
  The RowSet object of rowset.c: rowids inserted in any order, tested in batches, or extracted
  in increasing order.

  A list of entries linked by \<open>pRight\<close> is a HOL list of rowids, a tree linked by \<open>pLeft\<close> and
  \<open>pRight\<close> is a \<open>rtree\<close> (every entry is in exactly one list or tree, so updating the links in
  place and rebuilding the value are the same). \<open>pForest\<close> is the list of the trees hanging off
  the \<open>pLeft\<close> fields of the forest entries. \<open>rsSorted\<close> and \<open>rsNext\<close> are the flags of \<open>rsFlags\<close>,
  \<open>pLast\<close> is the value of the last entry, \<open>nChunk\<close> the length of the \<open>pChunk\<close> list and
  \<open>mallocFailed\<close> the flag of the database connection.
\<close>


section \<open>State\<close>

definition ROWSET_ENTRY_PER_CHUNK :: nat where
  "ROWSET_ENTRY_PER_CHUNK = (1024 - 8) div 24"

datatype rtree = Tip | Node rtree int rtree

record rowset =
  nChunk :: nat
  pEntry :: "int list"
  pLast :: "int option"
  nFresh :: nat
  pForest :: "rtree list"
  rsSorted :: bool
  rsNext :: bool
  iBatch :: int
  mallocFailed :: bool

text \<open>
  \<open>n\<close> is the size in bytes of the memory given, at least that of the object (56 bytes with
  64-bit pointers; an entry has 24). The number of entries behind the object is cut to a u16.
\<close>

definition sqlite3RowSetInit :: "nat \<Rightarrow> rowset" where
  "sqlite3RowSetInit n =
     \<lparr>nChunk = 0, pEntry = [], pLast = None, nFresh = ((n - 56) div 24) mod 2 ^ 16, pForest = [], rsSorted = True,
      rsNext = False, iBatch = 0, mallocFailed = False\<rparr>"

definition sqlite3RowSetClear :: "rowset \<Rightarrow> rowset" where
  "sqlite3RowSetClear p =
     p\<lparr>nChunk := 0, nFresh := 0, pEntry := [], pLast := None, pForest := [], rsSorted := True,
       rsNext := False\<rparr>"

text \<open>Whether an entry could be allocated, and the object and allocation outcomes after it.\<close>

definition rowSetEntryAlloc :: "rowset \<Rightarrow> allocs \<Rightarrow> bool \<times> rowset \<times> allocs" where
  "rowSetEntryAlloc p m =
     (if nFresh p = 0 then
        (let (ok, m) = alloc_ok m in
         if \<not> ok then (False, p\<lparr>mallocFailed := True\<rparr>, m)
         else (True, p\<lparr>nChunk := nChunk p + 1, nFresh := ROWSET_ENTRY_PER_CHUNK - 1\<rparr>, m))
      else (True, p\<lparr>nFresh := nFresh p - 1\<rparr>, m))"

definition sqlite3RowSetInsert :: "rowset \<Rightarrow> int \<Rightarrow> allocs \<Rightarrow> rowset \<times> allocs" where
  "sqlite3RowSetInsert p rowid m =
     (let (ok, p, m) = rowSetEntryAlloc p m in
      if \<not> ok then (p, m)
      else case pLast p of
        Some v \<Rightarrow>
          (p\<lparr>rsSorted := (if rowid \<le> v then False else rsSorted p),
             pEntry := pEntry p @ [rowid], pLast := Some rowid\<rparr>, m)
      | None \<Rightarrow> (p\<lparr>pEntry := [rowid], pLast := Some rowid\<rparr>, m))"


section \<open>Sorting\<close>

text \<open>The arguments are not NULL; the clauses with an empty list are never used.\<close>

fun rowSetEntryMerge :: "int list \<Rightarrow> int list \<Rightarrow> int list" where
  "rowSetEntryMerge (a # as) (b # bs) =
     (if a \<le> b then
        (if a < b then [a] else []) @ (if as = [] then b # bs else rowSetEntryMerge as (b # bs))
      else b # (if bs = [] then a # as else rowSetEntryMerge (a # as) bs))"
| "rowSetEntryMerge [] bs = bs"
| "rowSetEntryMerge as [] = as"

definition rowSetEntrySort :: "int list \<Rightarrow> int list option" where
  "rowSetEntrySort pIn = bucket_sort rowSetEntryMerge 40 pIn"


section \<open>Trees\<close>

fun rowSetTreeToList :: "rtree \<Rightarrow> int list" where
  "rowSetTreeToList Tip = []"
| "rowSetTreeToList (Node l v r) =
     (case l of Tip \<Rightarrow> [v] | _ \<Rightarrow> rowSetTreeToList l @ [v]) @
     (case r of Tip \<Rightarrow> [] | _ \<Rightarrow> rowSetTreeToList r)"

text \<open>The tree built and the entries left on \<open>*ppList\<close>.\<close>

fun rowSetNDeepTree :: "int list \<Rightarrow> nat \<Rightarrow> rtree \<times> int list" where
  "rowSetNDeepTree [] d = (Tip, [])"
| "rowSetNDeepTree (x # xs) d =
     (if d > 1 then
        (let (pLeft, ps) = rowSetNDeepTree (x # xs) (d - 1) in
         case ps of
           [] \<Rightarrow> (pLeft, [])
         | p # ps \<Rightarrow> (let (pRight, ps) = rowSetNDeepTree ps (d - 1) in (Node pLeft p pRight, ps)))
      else (Node Tip x Tip, xs))"

lemma rowSetTreeToList_Node [simp]:
  "rowSetTreeToList (Node l v r) = rowSetTreeToList l @ v # rowSetTreeToList r"
  by (cases l; cases r) auto

declare rowSetTreeToList.simps(2) [simp del]

declare rowSetNDeepTree.simps(2) [simp del]

lemma NDeepTree_flat: "d \<le> 1 \<Longrightarrow> rowSetNDeepTree (x # xs) d = (Node Tip x Tip, xs)"
  by (simp add: rowSetNDeepTree.simps)

lemma NDeepTree_deep:
  assumes "d > 1" "rowSetNDeepTree (x # xs) d = (t, ys)"
  obtains (exhausted) "rowSetNDeepTree (x # xs) (d - 1) = (t, [])" "ys = []"
  | (node) l p ps r where "rowSetNDeepTree (x # xs) (d - 1) = (l, p # ps)"
      "rowSetNDeepTree ps (d - 1) = (r, ys)" "t = Node l p r"
  using assms by (auto simp: rowSetNDeepTree.simps(2) [of x xs d] split: prod.splits list.splits)

lemma NDeepTree_inorder: "rowSetNDeepTree xs d = (t, ys) \<Longrightarrow> xs = rowSetTreeToList t @ ys"
proof (induction d arbitrary: xs t ys)
  case 0
  then show ?case by (cases xs) (auto simp: NDeepTree_flat)
next
  case (Suc d)
  show ?case
  proof (cases xs)
    case Nil
    with Suc.prems show ?thesis by simp
  next
    case (Cons x xs')
    show ?thesis
    proof (cases "Suc d > 1")
      case True
      from True Suc.prems [unfolded Cons] show ?thesis
        by (cases rule: NDeepTree_deep) (auto simp: Cons dest!: Suc.IH)
    next
      case False
      with Suc.prems Cons show ?thesis by (auto simp: NDeepTree_flat)
    qed
  qed
qed

text \<open>The loop of \<open>rowSetListToTree\<close>: \<open>p\<close> is the tree so far, \<open>d\<close> its depth.\<close>

function rowSetListLoop :: "rtree \<Rightarrow> int list \<Rightarrow> nat \<Rightarrow> rtree" where
  "rowSetListLoop p [] d = p"
| "rowSetListLoop p (x # xs) d =
     (let (r, ys) = rowSetNDeepTree xs d in rowSetListLoop (Node p x r) ys (d + 1))"
  by pat_completeness auto
termination
  by (relation "measure (\<lambda>(p, xs, d). length xs)") (auto dest!: NDeepTree_inorder [OF sym])

definition rowSetListToTree :: "int list \<Rightarrow> rtree" where
  "rowSetListToTree pList =
     (case pList of [] \<Rightarrow> Tip | x # xs \<Rightarrow> rowSetListLoop (Node Tip x Tip) xs 1)"


section \<open>Extracting and testing\<close>

text \<open>
  The rowid extracted (\<^term>\<open>None\<close>: the return value is 0) and the object after the call. The
  outer \<^term>\<open>None\<close> is a sort that runs off its buckets.
\<close>

definition sqlite3RowSetNext :: "rowset \<Rightarrow> (int option \<times> rowset) option" where
  "sqlite3RowSetNext p = do {
     p \<leftarrow> (if \<not> rsNext p then
             (if \<not> rsSorted p
              then map_option (\<lambda>e. p\<lparr>pEntry := e, rsSorted := True, rsNext := True\<rparr>)
                     (rowSetEntrySort (pEntry p))
              else Some (p\<lparr>rsSorted := True, rsNext := True\<rparr>))
           else Some p);
     case pEntry p of
       v # vs \<Rightarrow>
         (let p = p\<lparr>pEntry := vs\<rparr> in
          Some (Some v, if vs = [] then sqlite3RowSetClear p else p))
     | [] \<Rightarrow> Some (None, p)
   }"

text \<open>
  The loop over the forest: trees are merged into \<open>p\<close> until an empty slot takes the result.
  With no empty slot the merged list is left over.
\<close>

fun rowSetForestAdd :: "rtree list \<Rightarrow> int list \<Rightarrow> rtree list \<times> int list option" where
  "rowSetForestAdd [] p = ([], Some p)"
| "rowSetForestAdd (t # ts) p =
     (if t = Tip then (rowSetListToTree p # ts, None)
      else (let (ts, r) = rowSetForestAdd ts (rowSetEntryMerge (rowSetTreeToList t) p) in
            (Tip # ts, r)))"

fun rowSetTreeTest :: "rtree \<Rightarrow> int \<Rightarrow> bool" where
  "rowSetTreeTest Tip iRowid = False"
| "rowSetTreeTest (Node l v r) iRowid =
     (if v < iRowid then rowSetTreeTest r iRowid
      else if v > iRowid then rowSetTreeTest l iRowid
      else True)"

definition rowSetNewBatch :: "rowset \<Rightarrow> allocs \<Rightarrow> (rowset \<times> allocs) option" where
  "rowSetNewBatch q m =
     (if pEntry q \<noteq> [] then do {
        p \<leftarrow> (if \<not> rsSorted q then rowSetEntrySort (pEntry q) else Some (pEntry q));
        let (ts, rest) = rowSetForestAdd (pForest q) p;
        let q = q\<lparr>pForest := ts\<rparr>;
        let (q, m) =
          (case rest of
             None \<Rightarrow> (q, m)
           | Some p \<Rightarrow>
               (let (ok, q, m) = rowSetEntryAlloc q m in
                (if ok then q\<lparr>pForest := pForest q @ [rowSetListToTree p]\<rparr> else q, m)));
        Some (q\<lparr>pEntry := [], pLast := None, rsSorted := True\<rparr>, m)
      } else Some (q, m))"

definition sqlite3RowSetTest :: "rowset \<Rightarrow> int \<Rightarrow> int \<Rightarrow> allocs \<Rightarrow> (bool \<times> rowset \<times> allocs) option" where
  "sqlite3RowSetTest q batch iRowid m = do {
     (q, m) \<leftarrow> (if batch \<noteq> iBatch q
                then map_option (\<lambda>(q, m). (q\<lparr>iBatch := batch\<rparr>, m)) (rowSetNewBatch q m)
                else Some (q, m));
     Some (list_ex (\<lambda>t. rowSetTreeTest t iRowid) (pForest q), q, m)
   }"


section \<open>Merging and sorting are correct\<close>

abbreviation incr :: "int list \<Rightarrow> bool" where
  "incr \<equiv> sorted_wrt (<)"

lemma set_rowSetEntryMerge: "set (rowSetEntryMerge as bs) = set as \<union> set bs"
proof (induction as bs rule: rowSetEntryMerge.induct)
  case (1 a as b bs)
  consider "a < b" | "a = b" | "a > b" by linarith
  then show ?case
    by cases (cases "as = []"; cases "bs = []"; use 1 in \<open>simp add: insert_commute\<close>)+
qed simp_all

lemma incr_rowSetEntryMerge: "incr as \<Longrightarrow> incr bs \<Longrightarrow> incr (rowSetEntryMerge as bs)"
proof (induction as bs rule: rowSetEntryMerge.induct)
  case (1 a as b bs)
  have up: "incr (a # rowSetEntryMerge as (b # bs))" if "a < b" "as \<noteq> []"
    using 1 that by (fastforce simp: set_rowSetEntryMerge)
  have "incr (b # rowSetEntryMerge (a # as) bs)" if "a > b" "bs \<noteq> []"
    using 1 that by (fastforce simp: set_rowSetEntryMerge simp del: rowSetEntryMerge.simps)
  with 1 up show ?case by (auto simp: not_le)
qed simp_all

lemma rowSetEntryMerge_nonempty: "as \<noteq> [] \<Longrightarrow> bs \<noteq> [] \<Longrightarrow> rowSetEntryMerge as bs \<noteq> []"
  using set_rowSetEntryMerge [of as bs] by auto

interpretation rowset_merge: bucket_merge rowSetEntryMerge incr
  by unfold_locales (auto simp: set_rowSetEntryMerge incr_rowSetEntryMerge rowSetEntryMerge_nonempty)

lemma rowSetEntrySort_ok:
  "length xs < 2 ^ 40 \<Longrightarrow> \<exists>ys. rowSetEntrySort xs = Some ys \<and> incr ys \<and> set ys = set xs"
  using rowset_merge.sort_ok [of xs 40] by (auto simp: rowSetEntrySort_def)

lemma incr_unique: "incr xs \<Longrightarrow> incr ys \<Longrightarrow> set xs = set ys \<Longrightarrow> xs = ys"
  by (metis sorted_distinct_set_unique strict_sorted_iff)

section \<open>Trees keep the order of the list\<close>

lemma rowSetListLoop_inorder: "rowSetTreeToList (rowSetListLoop p xs d) = rowSetTreeToList p @ xs"
  by (induction p xs d rule: rowSetListLoop.induct)
    (auto simp: Let_def split: prod.splits dest!: NDeepTree_inorder)

lemma rowSetListToTree_inorder: "rowSetTreeToList (rowSetListToTree xs) = xs"
  by (cases xs) (auto simp: rowSetListToTree_def rowSetListLoop_inorder)

lemma rowSetTreeTest_iff: "incr (rowSetTreeToList t) \<Longrightarrow> rowSetTreeTest t x \<longleftrightarrow> x \<in> set (rowSetTreeToList t)"
  by (induction t) (auto simp: sorted_wrt_append)

fun theight :: "rtree \<Rightarrow> nat" where
  "theight Tip = 0"
| "theight (Node l v r) = Suc (max (theight l) (theight r))"

lemma NDeepTree_shape:
  "1 \<le> d \<Longrightarrow> rowSetNDeepTree xs d = (t, ys) \<Longrightarrow>
   theight t \<le> d \<and> (ys \<noteq> [] \<longrightarrow> length (rowSetTreeToList t) = 2 ^ d - 1)"
proof (induction d arbitrary: xs t ys)
  case 0
  then show ?case by simp
next
  case (Suc d)
  show ?case
  proof (cases xs)
    case Nil
    with Suc.prems show ?thesis by simp
  next
    case (Cons x xs')
    show ?thesis
    proof (cases "Suc d > 1")
      case True
      then have d: "1 \<le> d" by simp
      from True Suc.prems(2) [unfolded Cons] show ?thesis
      proof (cases rule: NDeepTree_deep)
        case exhausted
        with Suc.IH [OF d] show ?thesis by fastforce
      next
        case (node l p ps r)
        have l: "theight l \<le> d" "length (rowSetTreeToList l) = 2 ^ d - 1"
          using Suc.IH [OF d] node(1) by fastforce+
        have r: "theight r \<le> d" "ys \<noteq> [] \<longrightarrow> length (rowSetTreeToList r) = 2 ^ d - 1"
          using Suc.IH [OF d, of ps r ys] node(2) by auto
        have "(2::nat) ^ d \<ge> 1" by simp
        with l r node(3) show ?thesis by auto
      qed
    next
      case False
      with Suc.prems Cons show ?thesis by (auto simp: NDeepTree_flat)
    qed
  qed
qed

lemma rowSetListLoop_height:
  assumes "1 \<le> d" "theight p \<le> d" "length (rowSetTreeToList p) = 2 ^ d - 1"
  shows "2 ^ (theight (rowSetListLoop p xs d) - 1) \<le> length (rowSetTreeToList p) + length xs"
  using assms
proof (induction p xs d rule: rowSetListLoop.induct)
  case (1 p d)
  have "(2::nat) ^ (theight p - 1) \<le> 2 ^ (d - 1)" using 1 by simp
  also have "\<dots> \<le> 2 ^ d - 1" using 1(1) by (cases d) auto
  finally show ?case using 1 by simp
next
  case (2 p x xs d)
  obtain r ys where r: "rowSetNDeepTree xs d = (r, ys)" by fastforce
  note shape = NDeepTree_shape [OF 2(2) r] and io = NDeepTree_inorder [OF r]
  have two: "(2::nat) ^ d \<ge> 1" by simp
  show ?case
  proof (cases "ys = []")
    case True
    have "(2::nat) ^ (theight (Node p x r) - 1) \<le> 2 ^ d" using 2(3) shape by simp
    also have "\<dots> \<le> length (rowSetTreeToList p) + length (x # xs)" using 2(4) two by simp
    finally show ?thesis using True r by simp
  next
    case False
    with shape have "length (rowSetTreeToList (Node p x r)) = 2 ^ (d + 1) - 1" using 2(4) two by simp
    with 2(1) [OF r [symmetric] refl] r shape 2(3) io show ?thesis by simp
  qed
qed

lemma rowSetListToTree_height: "xs \<noteq> [] \<Longrightarrow> 2 ^ (theight (rowSetListToTree xs) - 1) \<le> length xs"
  using rowSetListLoop_height [of 1 "Node Tip (hd xs) Tip" "tl xs"]
  by (cases xs) (auto simp: rowSetListToTree_def)

section \<open>Batches: refinement to a set of visible rowids\<close>

definition visible :: "rowset \<Rightarrow> int set" where
  "visible p = (\<Union>t\<in>set (pForest p). set (rowSetTreeToList t))"

definition rowset_ok :: "rowset \<Rightarrow> bool" where
  "rowset_ok p \<longleftrightarrow> \<not> rsNext p \<and> (\<forall>t\<in>set (pForest p). incr (rowSetTreeToList t))
     \<and> (rsSorted p \<longrightarrow> incr (pEntry p))
     \<and> pLast p = (if pEntry p = [] then None else Some (last (pEntry p)))"

lemma rowset_ok_init: "rowset_ok (sqlite3RowSetInit n)"
  by (simp add: rowset_ok_def sqlite3RowSetInit_def)

lemma alloc_frame:
  "rowSetEntryAlloc p m = (ok, p', m') \<Longrightarrow>
   pEntry p' = pEntry p \<and> pLast p' = pLast p \<and> pForest p' = pForest p \<and> rsSorted p' = rsSorted p
   \<and> rsNext p' = rsNext p \<and> iBatch p' = iBatch p \<and> (m = [] \<longrightarrow> ok \<and> m' = [])
   \<and> mallocFailed p' = (mallocFailed p \<or> \<not> ok)"
  by (cases m) (auto simp: rowSetEntryAlloc_def split: if_splits)

lemma incr_le_last: "incr xs \<Longrightarrow> y \<in> set xs \<Longrightarrow> y \<le> last xs"
  by (induction xs rule: rev_induct) (auto simp: sorted_wrt_append)

lemma incr_snoc: "incr xs \<Longrightarrow> (xs \<noteq> [] \<longrightarrow> last xs < x) \<Longrightarrow> incr (xs @ [x])"
  by (cases "xs = []") (fastforce simp: sorted_wrt_append dest: incr_le_last)+

lemma insert_ok:
  assumes "rowset_ok p" "sqlite3RowSetInsert p x m = (p', m')"
  shows "rowset_ok p' \<and> visible p' = visible p \<and> pForest p' = pForest p \<and> iBatch p' = iBatch p
    \<and> (pEntry p' = pEntry p @ [x] \<or> pEntry p' = pEntry p \<and> mallocFailed p')
    \<and> (m = [] \<longrightarrow> pEntry p' = pEntry p @ [x] \<and> m' = [])"
proof -
  obtain ok q n where a: "rowSetEntryAlloc p m = (ok, q, n)" by (metis prod_cases3)
  note fr = alloc_frame [OF a]
  show ?thesis
  proof (cases "ok \<and> pEntry p \<noteq> []")
    case True
    with assms fr have p': "p' = q\<lparr>rsSorted := (if x \<le> last (pEntry p) then False else rsSorted q),
        pEntry := pEntry p @ [x], pLast := Some x\<rparr>" "m' = n"
      by (simp_all add: sqlite3RowSetInsert_def a rowset_ok_def split: if_splits)
    from assms(1) fr True show ?thesis unfolding p' by (simp add: rowset_ok_def visible_def incr_snoc)
  next
    case False
    show ?thesis
    proof (cases ok)
      case True
      with False assms fr have e: "pEntry p = []" "p' = q\<lparr>pEntry := [x], pLast := Some x\<rparr>" "m' = n"
        by (simp_all add: sqlite3RowSetInsert_def a rowset_ok_def)
      from assms(1) fr True e(1) show ?thesis unfolding e(2,3) by (simp add: rowset_ok_def visible_def)
    next
      case False
      with assms(2) have e: "p' = q" "m' = n" by (simp_all add: sqlite3RowSetInsert_def a)
      from assms(1) fr False show ?thesis unfolding e by (simp add: rowset_ok_def visible_def)
    qed
  qed
qed

lemma forestAdd_ok:
  assumes "rowSetForestAdd ts p = (ts', r)" "\<forall>t\<in>set ts. incr (rowSetTreeToList t)" "incr p"
  shows "(\<forall>t\<in>set ts'. incr (rowSetTreeToList t)) \<and> (\<forall>q. r = Some q \<longrightarrow> incr q)
    \<and> (\<Union>t\<in>set ts'. set (rowSetTreeToList t)) \<union> (case r of None \<Rightarrow> {} | Some q \<Rightarrow> set q)
      = (\<Union>t\<in>set ts. set (rowSetTreeToList t)) \<union> set p"
  using assms
proof (induction ts p arbitrary: ts' r rule: rowSetForestAdd.induct)
  case (1 p)
  then show ?case by auto
next
  case (2 t ts p)
  show ?case
  proof (cases "t = Tip")
    case True
    with 2 show ?thesis by (auto simp: rowSetListToTree_inorder)
  next
    case False
    let ?p = "rowSetEntryMerge (rowSetTreeToList t) p"
    obtain us where us: "rowSetForestAdd ts ?p = (us, r)" "ts' = Tip # us"
      using False 2(2) by (auto split: prod.splits)
    have "incr ?p" using 2(3,4) by (simp add: incr_rowSetEntryMerge)
    with 2(1) [OF False us(1)] 2(3) us show ?thesis
      by (auto simp: set_rowSetEntryMerge split: option.splits)
  qed
qed

lemma newBatch_ok:
  assumes ok: "rowset_ok q" and len: "length (pEntry q) < 2 ^ 40"
  shows "\<exists>q' m'. rowSetNewBatch q m = Some (q', m') \<and> rowset_ok q' \<and> pEntry q' = []
    \<and> visible q' \<subseteq> visible q \<union> set (pEntry q)
    \<and> (visible q' = visible q \<union> set (pEntry q) \<or> mallocFailed q')
    \<and> (m = [] \<longrightarrow> visible q' = visible q \<union> set (pEntry q) \<and> m' = [])"
proof (cases "pEntry q = []")
  case True
  with ok show ?thesis by (simp add: rowSetNewBatch_def)
next
  case False
  obtain p where p: "(if \<not> rsSorted q then rowSetEntrySort (pEntry q) else Some (pEntry q)) = Some p"
    "incr p" "set p = set (pEntry q)"
    using ok rowSetEntrySort_ok [OF len] by (cases "rsSorted q") (auto simp: rowset_ok_def)
  obtain ts r where add: "rowSetForestAdd (pForest q) p = (ts, r)" by fastforce
  have fa: "\<forall>t\<in>set ts. incr (rowSetTreeToList t)" "\<forall>x. r = Some x \<longrightarrow> incr x"
    "(\<Union>t\<in>set ts. set (rowSetTreeToList t)) \<union> (case r of None \<Rightarrow> {} | Some x \<Rightarrow> set x)
      = visible q \<union> set (pEntry q)"
    using forestAdd_ok [OF add _ p(2)] ok unfolding rowset_ok_def visible_def p(3) by blast+
  show ?thesis
  proof (cases r)
    case None
    with False p add fa ok show ?thesis
      by (simp add: rowSetNewBatch_def rowset_ok_def visible_def)
  next
    case (Some x)
    obtain k q1 n where a: "rowSetEntryAlloc (q\<lparr>pForest := ts\<rparr>) m = (k, q1, n)" by (metis prod_cases3)
    have nb: "rowSetNewBatch q m = Some ((if k then q1\<lparr>pForest := pForest q1 @ [rowSetListToTree x]\<rparr>
        else q1)\<lparr>pEntry := [], pLast := None, rsSorted := True\<rparr>, n)"
      using False p(1) by (simp add: rowSetNewBatch_def add Some a)
    from alloc_frame [OF a] fa Some ok show ?thesis
      unfolding nb by (cases k) (auto simp: rowset_ok_def visible_def rowSetListToTree_inorder)
  qed
qed

lemma list_ex_treeTest: "rowset_ok q \<Longrightarrow> list_ex (\<lambda>t. rowSetTreeTest t x) (pForest q) \<longleftrightarrow> x \<in> visible q"
  by (auto simp: rowset_ok_def visible_def list_ex_iff rowSetTreeTest_iff)

lemma rowset_ok_iBatch [simp]: "rowset_ok (q\<lparr>iBatch := b\<rparr>) = rowset_ok q" "visible (q\<lparr>iBatch := b\<rparr>) = visible q"
  by (auto simp: rowset_ok_def visible_def)

lemma rowSetTest_ok:
  assumes "rowset_ok q" "length (pEntry q) < 2 ^ 40"
  shows "\<exists>q' m'. sqlite3RowSetTest q b x m = Some (x \<in> visible q', q', m') \<and> rowset_ok q'
    \<and> iBatch q' = b \<and> (b = iBatch q \<longrightarrow> q' = q \<and> m' = m)
    \<and> visible q' \<subseteq> visible q \<union> set (pEntry q)
    \<and> (b \<noteq> iBatch q \<longrightarrow> pEntry q' = [] \<and>
        (visible q' = visible q \<union> set (pEntry q) \<or> mallocFailed q') \<and>
        (m = [] \<longrightarrow> visible q' = visible q \<union> set (pEntry q) \<and> m' = []))"
proof (cases "b = iBatch q")
  case True
  with assms show ?thesis by (simp add: sqlite3RowSetTest_def list_ex_treeTest)
next
  case False
  obtain q1 m1 where q1: "rowSetNewBatch q m = Some (q1, m1)" "rowset_ok q1" "pEntry q1 = []"
    "visible q1 \<subseteq> visible q \<union> set (pEntry q)"
    "visible q1 = visible q \<union> set (pEntry q) \<or> mallocFailed q1"
    "m = [] \<longrightarrow> visible q1 = visible q \<union> set (pEntry q) \<and> m1 = []"
    using newBatch_ok [OF assms, of m] by (elim exE conjE) (rule that)
  have "sqlite3RowSetTest q b x m = Some (x \<in> visible q1, q1\<lparr>iBatch := b\<rparr>, m1)"
    using False q1(1) list_ex_treeTest [OF q1(2)] by (simp add: sqlite3RowSetTest_def)
  with False q1 show ?thesis by simp
qed


text \<open>
  The abstract machine: the rowids that tests see, those inserted since the batch last changed,
  and the batch.
\<close>

datatype rowset_op = RsInsert int | RsTest int int

fun rowset_astep :: "int set \<times> int list \<times> int \<Rightarrow> rowset_op \<Rightarrow> bool \<times> (int set \<times> int list \<times> int)" where
  "rowset_astep (V, P, b) (RsInsert x) = (False, (V, P @ [x], b))"
| "rowset_astep (V, P, b) (RsTest b' x) =
     (if b' = b then (x \<in> V, (V, P, b)) else (x \<in> V \<union> set P, (V \<union> set P, [], b')))"

fun rowset_cstep :: "rowset \<Rightarrow> rowset_op \<Rightarrow> (bool \<times> rowset) option" where
  "rowset_cstep p (RsInsert x) = Some (False, fst (sqlite3RowSetInsert p x []))"
| "rowset_cstep p (RsTest b x) = map_option (\<lambda>(r, q, m). (r, q)) (sqlite3RowSetTest p b x [])"

text \<open>The number of entries waiting to be sorted must fit in the 40 buckets of the sort.\<close>

fun rowset_pre :: "int set \<times> int list \<times> int \<Rightarrow> rowset_op \<Rightarrow> bool" where
  "rowset_pre (V, P, b) x \<longleftrightarrow> length P < 2 ^ 40 - 1"

definition rowset_rel :: "rowset \<Rightarrow> int set \<times> int list \<times> int \<Rightarrow> bool" where
  "rowset_rel p a \<longleftrightarrow> rowset_ok p \<and> a = (visible p, pEntry p, iBatch p)"

interpretation rowset_sim: simulation rowset_cstep rowset_astep rowset_pre rowset_rel
proof
  fix s a x
  assume rel: "rowset_rel s a" and pre: "rowset_pre a x"
  show "\<exists>s'. rowset_cstep s x = Some (fst (rowset_astep a x), s') \<and> rowset_rel s' (snd (rowset_astep a x))"
  proof (cases x)
    case (RsInsert v)
    obtain p' m' where i: "sqlite3RowSetInsert s v [] = (p', m')" by fastforce
    from insert_ok [OF _ i] rel RsInsert i show ?thesis by (auto simp: rowset_rel_def)
  next
    case (RsTest b v)
    have "length (pEntry s) < 2 ^ 40" using rel pre by (auto simp: rowset_rel_def)
    then obtain q' m' where t: "sqlite3RowSetTest s b v [] = Some (v \<in> visible q', q', m')"
      "rowset_ok q'" "iBatch q' = b" "b = iBatch s \<longrightarrow> q' = s"
      "b \<noteq> iBatch s \<longrightarrow> pEntry q' = [] \<and> visible q' = visible s \<union> set (pEntry s)"
      using rel rowSetTest_ok [of s b v "[]"] by (auto simp: rowset_rel_def)
    show ?thesis
    proof (cases "b = iBatch s")
      case True
      with t rel RsTest show ?thesis by (auto simp: rowset_rel_def)
    next
      case False
      with t rel RsTest show ?thesis by (auto simp: rowset_rel_def)
    qed
  qed
qed

section \<open>Extraction\<close>

definition rowset_fill :: "rowset \<Rightarrow> int list \<Rightarrow> rowset" where
  "rowset_fill p xs = fold (\<lambda>x p. fst (sqlite3RowSetInsert p x [])) xs p"

fun rowset_drain :: "nat \<Rightarrow> rowset \<Rightarrow> (int option list \<times> rowset) option" where
  "rowset_drain 0 p = Some ([], p)"
| "rowset_drain (Suc n) p = do {
     (v, p) \<leftarrow> sqlite3RowSetNext p;
     (vs, p) \<leftarrow> rowset_drain n p;
     Some (v # vs, p)
   }"

lemma fill_ok_entry:
  "rowset_ok p \<Longrightarrow> rowset_ok (rowset_fill p xs) \<and> pEntry (rowset_fill p xs) = pEntry p @ xs
    \<and> pForest (rowset_fill p xs) = pForest p"
proof (induction xs arbitrary: p)
  case Nil
  then show ?case by (simp add: rowset_fill_def)
next
  case (Cons x xs)
  obtain p' m' where i: "sqlite3RowSetInsert p x [] = (p', m')" by fastforce
  from insert_ok [OF Cons.prems i] Cons.IH [of p'] i show ?case by (simp add: rowset_fill_def)
qed

lemma drain_split:
  "rowset_drain (a + b) p = do {
     (vs, q) \<leftarrow> rowset_drain a p; (ws, r) \<leftarrow> rowset_drain b q; Some (vs @ ws, r) }"
  by (induction a arbitrary: p) (auto split: bind_splits)

lemma drain_next:
  "rsNext p \<Longrightarrow> pEntry p = vs \<Longrightarrow> vs \<noteq> [] \<Longrightarrow>
   rowset_drain (length vs) p = Some (map Some vs, sqlite3RowSetClear p)"
proof (induction vs arbitrary: p)
  case Nil
  then show ?case by simp
next
  case (Cons v vs)
  show ?case
  proof (cases "vs = []")
    case True
    with Cons.prems show ?thesis by (simp add: sqlite3RowSetNext_def sqlite3RowSetClear_def)
  next
    case False
    with Cons.IH [of "p\<lparr>pEntry := vs\<rparr>"] Cons.prems show ?thesis
      by (simp add: sqlite3RowSetNext_def sqlite3RowSetClear_def Let_def)
  qed
qed

text \<open>The first call sorts and then behaves as on the sorted list.\<close>

lemma next_first:
  assumes "rowset_ok p" "length (pEntry p) < 2 ^ 40" "pEntry p \<noteq> []"
  shows "\<exists>ys. incr ys \<and> set ys = set (pEntry p) \<and>
    sqlite3RowSetNext p = sqlite3RowSetNext (p\<lparr>pEntry := ys, rsSorted := True, rsNext := True\<rparr>)"
proof (cases "rsSorted p")
  case True
  with assms show ?thesis
    by (intro exI [of _ "pEntry p"]) (simp add: sqlite3RowSetNext_def rowset_ok_def)
next
  case False
  then obtain ys where "rowSetEntrySort (pEntry p) = Some ys" "incr ys" "set ys = set (pEntry p)"
    using rowSetEntrySort_ok [OF assms(2)] by auto
  with assms False show ?thesis
    by (intro exI [of _ ys]) (simp add: sqlite3RowSetNext_def rowset_ok_def)
qed

lemma drain_cong: "sqlite3RowSetNext p = sqlite3RowSetNext q \<Longrightarrow> rowset_drain (Suc n) p = rowset_drain (Suc n) q"
  by simp


section \<open>Correctness\<close>

text \<open>C16. Insertions and tests behave as on a set: every run of \<open>sqlite3RowSetInsert\<close> and
  \<open>sqlite3RowSetTest\<close> on a fresh object in which fewer than 2^40-1 entries ever wait to be sorted
  returns, and every test answers whether the rowid was inserted before the batch number last
  changed.\<close>

theorem rowset_test_refines:
  assumes "run_allowed rowset_astep rowset_pre ({}, [], 0) ops"
  shows "\<exists>p. run_concrete rowset_cstep (sqlite3RowSetInit n) ops =
    Some (fst (run_abstract rowset_astep ({}, [], 0) ops), p)"
  using rowset_sim.run_rel [of "sqlite3RowSetInit n", OF _ assms] rowset_ok_init
  by (auto simp: rowset_rel_def visible_def sqlite3RowSetInit_def)

lemma rowset_test_refines_witness:
  "\<exists>p. run_concrete rowset_cstep (sqlite3RowSetInit 100)
      [RsInsert 5, RsInsert 3, RsTest 0 5, RsTest 1 5, RsInsert 7, RsTest 1 7, RsTest 2 7, RsTest 2 4]
    = Some ([False, False, False, True, False, False, True, False], p)"
  using rowset_test_refines [of "[RsInsert 5, RsInsert 3, RsTest 0 5, RsTest 1 5, RsInsert 7,
    RsTest 1 7, RsTest 2 7, RsTest 2 4]" 100]
  by (simp add: Let_def)

text \<open>C33. \<open>sqlite3RowSetTest\<close> under any allocation failures: it returns, keeps the object well-formed,
  never makes a rowid visible that was not inserted, and if a new batch loses entries then
  \<open>mallocFailed\<close> is set.\<close>

theorem sqlite3RowSetTest_correct:
  assumes "rowset_ok q" "length (pEntry q) < 2 ^ 40"
  shows "\<exists>q' m'. sqlite3RowSetTest q b x m = Some (x \<in> visible q', q', m') \<and> rowset_ok q'
    \<and> iBatch q' = b \<and> visible q' \<subseteq> visible q \<union> set (pEntry q)
    \<and> (b = iBatch q \<longrightarrow> q' = q)
    \<and> (b \<noteq> iBatch q \<longrightarrow> pEntry q' = [] \<and>
        (visible q' = visible q \<union> set (pEntry q) \<or> mallocFailed q'))"
  using rowSetTest_ok [OF assms, of b x m] by blast

lemma sqlite3RowSetTest_correct_witness:
  "\<exists>q' m'. sqlite3RowSetTest (rowset_fill (sqlite3RowSetInit 56) [4, 2]) 1 2 [False] = Some (2 \<in> visible q', q', m')
    \<and> (visible q' = {2, 4} \<or> mallocFailed q')"
proof -
  have f: "rowset_ok (rowset_fill (sqlite3RowSetInit 56) [4, 2])"
    "pEntry (rowset_fill (sqlite3RowSetInit 56) [4, 2]) = [4, 2]"
    "pForest (rowset_fill (sqlite3RowSetInit 56) [4, 2]) = []"
    using fill_ok_entry [OF rowset_ok_init, of 56 "[4, 2]"] by (simp_all add: sqlite3RowSetInit_def)
  have b: "iBatch (rowset_fill (sqlite3RowSetInit 56) [4, 2]) = 0"
    by (simp add: rowset_fill_def sqlite3RowSetInit_def sqlite3RowSetInsert_def rowSetEntryAlloc_def
      ROWSET_ENTRY_PER_CHUNK_def)
  have v: "visible (rowset_fill (sqlite3RowSetInit 56) [4, 2]) = {}" by (simp add: visible_def f)
  from sqlite3RowSetTest_correct [OF f(1), of 1 2 "[False]"] show ?thesis
    by (auto simp: f(2) b v insert_commute)
qed

text \<open>Extraction sorts: after inserting any list of fewer than 2^40 rowids into a fresh object,
  repeated \<open>sqlite3RowSetNext\<close> returns each distinct rowid once in increasing order, then nothing
  more, and the object is empty again with its chunks freed.\<close>

theorem rowset_next_sorted:
  assumes "length xs < 2 ^ 40"
  shows "\<exists>p. rowset_drain (card (set xs) + 1) (rowset_fill (sqlite3RowSetInit n) xs) =
      Some (map Some (sorted_list_of_set (set xs)) @ [None], p) \<and> pEntry p = []
    \<and> (xs \<noteq> [] \<longrightarrow> nChunk p = 0)"
proof (cases "xs = []")
  case True
  then show ?thesis by (simp add: rowset_fill_def sqlite3RowSetNext_def sqlite3RowSetInit_def)
next
  case False
  let ?p = "rowset_fill (sqlite3RowSetInit n) xs"
  have p: "rowset_ok ?p" "pEntry ?p = xs" "pForest ?p = []"
    using fill_ok_entry [OF rowset_ok_init, of n xs] by (simp_all add: sqlite3RowSetInit_def)
  obtain ys where ys: "incr ys" "set ys = set xs"
    "sqlite3RowSetNext ?p = sqlite3RowSetNext (?p\<lparr>pEntry := ys, rsSorted := True, rsNext := True\<rparr>)"
    using next_first [OF p(1)] p assms False by auto
  have y: "ys = sorted_list_of_set (set xs)" "length ys = card (set xs)"
    using ys by (simp_all add: incr_unique distinct_card [symmetric] strict_sorted_iff)
  let ?q = "?p\<lparr>pEntry := ys, rsSorted := True, rsNext := True\<rparr>"
  have "rowset_drain (length ys + 1) ?p = rowset_drain (length ys + 1) ?q"
    using drain_cong [OF ys(3), of "length ys"] by (simp only: Suc_eq_plus1)
  moreover have "ys \<noteq> []" using False ys(2) by auto
  then have d: "rowset_drain (length ys) ?q = Some (map Some ys, sqlite3RowSetClear ?q)"
    by (intro drain_next) simp_all
  have "rowset_drain (length ys + 1) ?q = Some (map Some ys @ [None], (sqlite3RowSetClear ?q)\<lparr>rsNext := True\<rparr>)"
    unfolding drain_split [of "length ys" 1 ?q] d
    by (simp add: sqlite3RowSetNext_def sqlite3RowSetClear_def)
  ultimately have "rowset_drain (length ys + 1) ?p = Some (map Some ys @ [None], (sqlite3RowSetClear ?q)\<lparr>rsNext := True\<rparr>)"
    by (simp only:)
  then show ?thesis using y by (simp add: sqlite3RowSetClear_def)
qed

lemma rowset_next_sorted_witness:
  "\<exists>p. rowset_drain 4 (rowset_fill (sqlite3RowSetInit 0) [9, 4, 9, 6]) =
     Some ([Some 4, Some 6, Some 9, None], p) \<and> nChunk p = 0"
proof -
  have l: "sorted_list_of_set (set [9, 4, 9, 6 :: int]) = [4, 6, 9]"
    by (rule incr_unique) (simp_all add: insert_commute del: sorted_list_of_set_insert_remove)
  have c: "card (set [9, 4, 9, 6 :: int]) = 3"
    using arg_cong [OF l, of length] unfolding length_sorted_list_of_set by simp
  from rowset_next_sorted [of "[9, 4, 9, 6]" 0] show ?thesis unfolding c l by auto
qed

text \<open>\<open>rowSetListToTree\<close> turns an increasing list into a search tree: the in-order walk gives the
  list back, the search loop of \<open>sqlite3RowSetTest\<close> finds exactly its elements, and the tree is
  balanced, of height at most 1 + log2 of the number of elements.\<close>

theorem rowSetListToTree_correct:
  assumes "sorted_wrt (<) xs" "xs \<noteq> []"
  shows "rowSetTreeToList (rowSetListToTree xs) = xs \<and> rowSetTreeTest (rowSetListToTree xs) v = (v \<in> set xs)
    \<and> 2 ^ (theight (rowSetListToTree xs) - 1) \<le> length xs"
  using assms rowSetListToTree_height [of xs] by (simp add: rowSetTreeTest_iff rowSetListToTree_inorder)

lemma rowSetListToTree_correct_witness:
  "rowSetTreeTest (rowSetListToTree [1, 4, 6, 8, 9]) 8 \<and> theight (rowSetListToTree [1, 4, 6, 8, 9]) = 3"
  using rowSetListToTree_correct [of "[1, 4, 6, 8, 9]" 8]
  by (simp add: rowSetListToTree_def rowSetNDeepTree.simps)

end
