(* ===== verification/CharTables.thy ===== *)
theory CharTables
  imports SqlitePrelude
begin

text \<open>
  The character tables of global.c (the ASCII build), the character class macros of sqliteInt.h
  and the case-insensitive string routines of util.c.

  A \<open>char *\<close> argument is the list of bytes it points to; a list without a zero byte has its
  terminator right behind its last byte (\<open>chead\<close> of the empty list is the terminator). A NULL
  pointer is \<^term>\<open>None\<close> where the code tests for it.
\<close>

section \<open>Tables\<close>

definition UpperToLowerTable :: "u8 list" where
  "UpperToLowerTable = [
     0, 1, 2, 3, 4, 5, 6, 7, 8, 9, 10, 11, 12, 13, 14, 15,
     16, 17, 18, 19, 20, 21, 22, 23, 24, 25, 26, 27, 28, 29, 30, 31,
     32, 33, 34, 35, 36, 37, 38, 39, 40, 41, 42, 43, 44, 45, 46, 47,
     48, 49, 50, 51, 52, 53, 54, 55, 56, 57, 58, 59, 60, 61, 62, 63,
     64, 97, 98, 99, 100, 101, 102, 103, 104, 105, 106, 107, 108, 109, 110, 111,
     112, 113, 114, 115, 116, 117, 118, 119, 120, 121, 122, 91, 92, 93, 94, 95,
     96, 97, 98, 99, 100, 101, 102, 103, 104, 105, 106, 107, 108, 109, 110, 111,
     112, 113, 114, 115, 116, 117, 118, 119, 120, 121, 122, 123, 124, 125, 126, 127,
     128, 129, 130, 131, 132, 133, 134, 135, 136, 137, 138, 139, 140, 141, 142, 143,
     144, 145, 146, 147, 148, 149, 150, 151, 152, 153, 154, 155, 156, 157, 158, 159,
     160, 161, 162, 163, 164, 165, 166, 167, 168, 169, 170, 171, 172, 173, 174, 175,
     176, 177, 178, 179, 180, 181, 182, 183, 184, 185, 186, 187, 188, 189, 190, 191,
     192, 193, 194, 195, 196, 197, 198, 199, 200, 201, 202, 203, 204, 205, 206, 207,
     208, 209, 210, 211, 212, 213, 214, 215, 216, 217, 218, 219, 220, 221, 222, 223,
     224, 225, 226, 227, 228, 229, 230, 231, 232, 233, 234, 235, 236, 237, 238, 239,
     240, 241, 242, 243, 244, 245, 246, 247, 248, 249, 250, 251, 252, 253, 254, 255]"

definition sqlite3CtypeMap :: "u8 list" where
  "sqlite3CtypeMap = [
     0x00, 0x00, 0x00, 0x00, 0x00, 0x00, 0x00, 0x00, 0x00, 0x01, 0x01, 0x01, 0x01, 0x01, 0x00, 0x00,
     0x00, 0x00, 0x00, 0x00, 0x00, 0x00, 0x00, 0x00, 0x00, 0x00, 0x00, 0x00, 0x00, 0x00, 0x00, 0x00,
     0x01, 0x00, 0x80, 0x00, 0x40, 0x00, 0x00, 0x80, 0x00, 0x00, 0x00, 0x00, 0x00, 0x00, 0x00, 0x00,
     0x0c, 0x0c, 0x0c, 0x0c, 0x0c, 0x0c, 0x0c, 0x0c, 0x0c, 0x0c, 0x00, 0x00, 0x00, 0x00, 0x00, 0x00,
     0x00, 0x0a, 0x0a, 0x0a, 0x0a, 0x0a, 0x0a, 0x02, 0x02, 0x02, 0x02, 0x02, 0x02, 0x02, 0x02, 0x02,
     0x02, 0x02, 0x02, 0x02, 0x02, 0x02, 0x02, 0x02, 0x02, 0x02, 0x02, 0x80, 0x00, 0x00, 0x00, 0x40,
     0x80, 0x2a, 0x2a, 0x2a, 0x2a, 0x2a, 0x2a, 0x22, 0x22, 0x22, 0x22, 0x22, 0x22, 0x22, 0x22, 0x22,
     0x22, 0x22, 0x22, 0x22, 0x22, 0x22, 0x22, 0x22, 0x22, 0x22, 0x22, 0x00, 0x00, 0x00, 0x00, 0x00,
     0x40, 0x40, 0x40, 0x40, 0x40, 0x40, 0x40, 0x40, 0x40, 0x40, 0x40, 0x40, 0x40, 0x40, 0x40, 0x40,
     0x40, 0x40, 0x40, 0x40, 0x40, 0x40, 0x40, 0x40, 0x40, 0x40, 0x40, 0x40, 0x40, 0x40, 0x40, 0x40,
     0x40, 0x40, 0x40, 0x40, 0x40, 0x40, 0x40, 0x40, 0x40, 0x40, 0x40, 0x40, 0x40, 0x40, 0x40, 0x40,
     0x40, 0x40, 0x40, 0x40, 0x40, 0x40, 0x40, 0x40, 0x40, 0x40, 0x40, 0x40, 0x40, 0x40, 0x40, 0x40,
     0x40, 0x40, 0x40, 0x40, 0x40, 0x40, 0x40, 0x40, 0x40, 0x40, 0x40, 0x40, 0x40, 0x40, 0x40, 0x40,
     0x40, 0x40, 0x40, 0x40, 0x40, 0x40, 0x40, 0x40, 0x40, 0x40, 0x40, 0x40, 0x40, 0x40, 0x40, 0x40,
     0x40, 0x40, 0x40, 0x40, 0x40, 0x40, 0x40, 0x40, 0x40, 0x40, 0x40, 0x40, 0x40, 0x40, 0x40, 0x40,
     0x40, 0x40, 0x40, 0x40, 0x40, 0x40, 0x40, 0x40, 0x40, 0x40, 0x40, 0x40, 0x40, 0x40, 0x40, 0x40]"

definition sqlite3UpperToLower :: "u8 \<Rightarrow> u8" where
  "sqlite3UpperToLower c = UpperToLowerTable ! unat c"

abbreviation ctype :: "u8 \<Rightarrow> u8" where
  "ctype c \<equiv> sqlite3CtypeMap ! unat c"

definition sqlite3Toupper :: "u8 \<Rightarrow> u8" where "sqlite3Toupper x = x AND NOT (ctype x AND 0x20)"
definition sqlite3Isspace :: "u8 \<Rightarrow> bool" where "sqlite3Isspace x \<longleftrightarrow> ctype x AND 0x01 \<noteq> 0"
definition sqlite3Isalnum :: "u8 \<Rightarrow> bool" where "sqlite3Isalnum x \<longleftrightarrow> ctype x AND 0x06 \<noteq> 0"
definition sqlite3Isalpha :: "u8 \<Rightarrow> bool" where "sqlite3Isalpha x \<longleftrightarrow> ctype x AND 0x02 \<noteq> 0"
definition sqlite3Isdigit :: "u8 \<Rightarrow> bool" where "sqlite3Isdigit x \<longleftrightarrow> ctype x AND 0x04 \<noteq> 0"
definition sqlite3Isxdigit :: "u8 \<Rightarrow> bool" where "sqlite3Isxdigit x \<longleftrightarrow> ctype x AND 0x08 \<noteq> 0"
definition sqlite3Isquote :: "u8 \<Rightarrow> bool" where "sqlite3Isquote x \<longleftrightarrow> ctype x AND 0x80 \<noteq> 0"
definition IdChar :: "u8 \<Rightarrow> bool" where "IdChar c \<longleftrightarrow> ctype c AND 0x46 \<noteq> 0"

text \<open>A fact about all bytes is decided by evaluation.\<close>

definition nibbles :: "u8 list" where
  "nibbles = [0, 1, 2, 3, 4, 5, 6, 7, 8, 9, 10, 11, 12, 13, 14, 15]"

definition byte_all :: "(u8 \<Rightarrow> bool) \<Rightarrow> bool" where
  "byte_all P \<longleftrightarrow> list_all (\<lambda>h. list_all (\<lambda>l. P (16 * h + l)) nibbles) nibbles"

lemma nibble_mem: "unat (c::u8) < 16 \<Longrightarrow> c \<in> set nibbles"
proof -
  assume "unat c < 16"
  moreover have "c = word_of_nat (unat c)" by simp
  moreover have "\<forall>n<16. (word_of_nat n :: u8) \<in> set nibbles"
    by (simp add: nibbles_def numeral_eq_Suc All_less_Suc)
  ultimately show ?thesis by metis
qed

lemma byte_all: "byte_all P \<Longrightarrow> P c"
proof -
  assume a: "byte_all P"
  have c: "c = 16 * (c div 16) + c mod 16" by (metis mult_div_mod_eq)
  have "unat c < 2 ^ LENGTH(8)" by (rule unsigned_less)
  then have "c div 16 \<in> set nibbles" "c mod 16 \<in> set nibbles"
    by (auto intro!: nibble_mem simp: unat_div unat_mod)
  with a c show ?thesis unfolding byte_all_def list_all_iff by metis
qed

lemma UpperToLower_eval: "sqlite3UpperToLower c = (if 65 \<le> c \<and> c \<le> 90 then c + 32 else c)"
  by (rule byte_all [of "\<lambda>c. sqlite3UpperToLower c = (if 65 \<le> c \<and> c \<le> 90 then c + 32 else c)"]) code_simp


definition ctype_of :: "u8 \<Rightarrow> u8" where
  "ctype_of c =
     (if 128 \<le> c then 0x40
      else if 97 \<le> c then (if c \<le> 102 then 0x2a else if c \<le> 122 then 0x22 else 0)
      else if 65 \<le> c then
        (if c \<le> 70 then 0x0a else if c \<le> 90 then 0x02
         else if c = 91 \<or> c = 96 then 0x80 else if c = 95 then 0x40 else 0)
      else if 48 \<le> c then (if c \<le> 57 then 0x0c else 0)
      else if c = 32 \<or> 9 \<le> c \<and> c \<le> 13 then 0x01
      else if c = 34 \<or> c = 39 then 0x80 else if c = 36 then 0x40 else 0)"

lemma ctype_eval: "ctype c = ctype_of c"
  by (rule byte_all [of "\<lambda>c. ctype c = ctype_of c"]) code_simp

lemma ctype_classes:
  "sqlite3Isspace c \<longleftrightarrow> 9 \<le> c \<and> c \<le> 13 \<or> c = 32"
  "sqlite3Isalpha c \<longleftrightarrow> 65 \<le> c \<and> c \<le> 90 \<or> 97 \<le> c \<and> c \<le> 122"
  "sqlite3Isdigit c \<longleftrightarrow> 48 \<le> c \<and> c \<le> 57"
  "sqlite3Isxdigit c \<longleftrightarrow> 48 \<le> c \<and> c \<le> 57 \<or> 65 \<le> c \<and> c \<le> 70 \<or> 97 \<le> c \<and> c \<le> 102"
  "sqlite3Isquote c \<longleftrightarrow> c = 34 \<or> c = 39 \<or> c = 91 \<or> c = 96"
  "sqlite3Isalnum c \<longleftrightarrow> sqlite3Isalpha c \<or> sqlite3Isdigit c"
  "IdChar c \<longleftrightarrow> sqlite3Isalnum c \<or> c = 36 \<or> c = 95 \<or> 128 \<le> c"
  unfolding sqlite3Isspace_def sqlite3Isalpha_def sqlite3Isdigit_def sqlite3Isxdigit_def
    sqlite3Isquote_def sqlite3Isalnum_def IdChar_def ctype_eval ctype_of_def
  by (auto simp: word_le_nat_alt word_less_nat_alt)

lemma Toupper_eval: "sqlite3Toupper c = (if 97 \<le> c \<and> c \<le> 122 then c - 32 else c)"
  by (rule byte_all [of "\<lambda>c. sqlite3Toupper c = (if 97 \<le> c \<and> c \<le> 122 then c - 32 else c)"]) code_simp


section \<open>Strings\<close>

definition chead :: "u8 list \<Rightarrow> u8" where
  "chead z = (case z of [] \<Rightarrow> 0 | c # _ \<Rightarrow> c)"

lemma chead_simps [simp]: "chead [] = 0" "chead (c # z) = c"
  by (simp_all add: chead_def)

function sqlite3StrICmp :: "u8 list \<Rightarrow> u8 list \<Rightarrow> int" where
  "sqlite3StrICmp a b =
     (let c = uint (sqlite3UpperToLower (chead a)) - uint (sqlite3UpperToLower (chead b)) in
      if c \<noteq> 0 \<or> chead a = 0 then c else sqlite3StrICmp (tl a) (tl b))"
  by pat_completeness auto
termination
  by (relation "measure (\<lambda>(a, b). length a)") (auto simp: chead_def split: list.splits)

definition sqlite3_stricmp :: "u8 list option \<Rightarrow> u8 list option \<Rightarrow> int" where
  "sqlite3_stricmp zLeft zRight =
     (case zLeft of
        None \<Rightarrow> if zRight \<noteq> None then - 1 else 0
      | Some a \<Rightarrow> (case zRight of None \<Rightarrow> 1 | Some b \<Rightarrow> sqlite3StrICmp a b))"

text \<open>
  The loop of \<open>sqlite3_strnicmp\<close>, with the value of \<open>N\<close> as tested by \<open>N-- > 0\<close>; the test decrements
  it in any case, so the loop ends with \<open>N < 0\<close> when it ran out.
\<close>

function strnicmpLoop :: "int \<Rightarrow> u8 list \<Rightarrow> u8 list \<Rightarrow> int" where
  "strnicmpLoop N a b =
     (if N > 0 \<and> chead a \<noteq> 0 \<and> sqlite3UpperToLower (chead a) = sqlite3UpperToLower (chead b)
      then strnicmpLoop (N - 1) (tl a) (tl b)
      else if N - 1 < 0 then 0
      else uint (sqlite3UpperToLower (chead a)) - uint (sqlite3UpperToLower (chead b)))"
  by pat_completeness auto
termination
  by (relation "measure (\<lambda>(N, a, b). length a)") (auto simp: chead_def split: list.splits)

definition sqlite3_strnicmp :: "u8 list option \<Rightarrow> u8 list option \<Rightarrow> int \<Rightarrow> int" where
  "sqlite3_strnicmp zLeft zRight N =
     (case zLeft of
        None \<Rightarrow> if zRight \<noteq> None then - 1 else 0
      | Some a \<Rightarrow> (case zRight of None \<Rightarrow> 1 | Some b \<Rightarrow> strnicmpLoop N a b))"

declare sqlite3StrICmp.simps [simp del] strnicmpLoop.simps [simp del]

definition cstr :: "u8 list \<Rightarrow> u8 list" where
  "cstr z = takeWhile (\<lambda>c. c \<noteq> 0) z"

text \<open>The case-folded string, which identifies a name.\<close>

definition cfold :: "u8 list \<Rightarrow> u8 list" where
  "cfold z = map sqlite3UpperToLower (cstr z)"

lemma UpperToLower_0 [simp]: "sqlite3UpperToLower c = 0 \<longleftrightarrow> c = 0"
  by (rule byte_all [of "\<lambda>c. sqlite3UpperToLower c = 0 \<longleftrightarrow> c = 0"]) code_simp


lemma UpperToLower_at_0 [simp]: "sqlite3UpperToLower 0 = 0"
  using UpperToLower_0 [of 0] by simp

lemma cstr_unfold: "cstr z = (if chead z = 0 then [] else chead z # cstr (tl z))"
  by (cases z) (auto simp: cstr_def)

lemma cfold_unfold:
  "cfold z = (if chead z = 0 then [] else sqlite3UpperToLower (chead z) # cfold (tl z))"
  by (cases z) (auto simp: cfold_def cstr_def)

lemma StrICmp_eq_0: "sqlite3StrICmp a b = 0 \<longleftrightarrow> cfold a = cfold b"
proof (induction a b rule: sqlite3StrICmp.induct)
  case (1 a b)
  show ?case
    unfolding sqlite3StrICmp.simps [of a b] cfold_unfold [of a] cfold_unfold [of b] Let_def
    using 1 [OF refl] by (auto simp: word_uint_eq_iff [symmetric] uint_0_iff)
qed

lemma StrICmp_less_0: "sqlite3StrICmp a b < 0 \<longleftrightarrow> (cfold a, cfold b) \<in> lexord {(x, y). x < y}"
proof (induction a b rule: sqlite3StrICmp.induct)
  case (1 a b)
  let ?l = "\<lambda>z. sqlite3UpperToLower (chead z)"
  have lt: "uint (?l a) - uint (?l b) < 0 \<longleftrightarrow> ?l a < ?l b" by (simp add: word_less_def)
  have nz: "chead z \<noteq> 0 \<Longrightarrow> 0 < uint (?l z)" for z
    using UpperToLower_0 [of "chead z"] by (metis order_le_less uint_0_iff unsigned_greater_eq)
  show ?case
    unfolding sqlite3StrICmp.simps [of a b] cfold_unfold [of a] cfold_unfold [of b] Let_def
    using 1 [OF refl] lt nz [of a] nz [of b]
    by (auto simp: word_less_def word_uint_eq_iff [of "?l a"])
qed

lemma StrICmp_antisym: "sqlite3StrICmp b a = - sqlite3StrICmp a b"
proof (induction a b rule: sqlite3StrICmp.induct)
  case (1 a b)
  have z: "uint (sqlite3UpperToLower (chead a)) = uint (sqlite3UpperToLower (chead b)) \<Longrightarrow>
    (chead a = 0) = (chead b = 0)"
    by (metis UpperToLower_0 word_uint_eq_iff)
  show ?case
    unfolding sqlite3StrICmp.simps [of a b] sqlite3StrICmp.simps [of b a] Let_def
    using 1 [OF refl] z by auto
qed

lemma strnicmp_eq_0: "strnicmpLoop N a b = 0 \<longleftrightarrow> take (nat N) (cfold a) = take (nat N) (cfold b)"
proof (induction N a b rule: strnicmpLoop.induct)
  case (1 N a b)
  show ?case
  proof (cases "N > 0")
    case False
    then show ?thesis by (simp add: strnicmpLoop.simps [of N a b])
  next
    case True
    then obtain n where n: "nat N = Suc n" "nat (N - 1) = n" by (cases "nat N") auto
    show ?thesis
      unfolding strnicmpLoop.simps [of N a b] cfold_unfold [of a] cfold_unfold [of b] n(1)
      using 1 True n(2) by (auto simp: word_uint_eq_iff [symmetric])
  qed
qed


section \<open>Removing quotes\<close>

text \<open>
  \<open>sqlite3Dequote\<close> works in place on the buffer that holds the string and its terminator. Reading
  past the buffer is \<^term>\<open>None\<close>. \<open>j < i\<close> throughout, so a byte is read before it is overwritten.
\<close>

function dequoteLoop :: "u8 list \<Rightarrow> u8 \<Rightarrow> nat \<Rightarrow> nat \<Rightarrow> u8 list option" where
  "dequoteLoop z quote i j =
     (if i \<ge> length z then None
      else if z ! i = quote then
        (if i + 1 \<ge> length z then None
         else if z ! (i + 1) = quote then dequoteLoop (z[j := quote]) quote (i + 2) (j + 1)
         else Some (z[j := 0]))
      else dequoteLoop (z[j := z ! i]) quote (i + 1) (j + 1))"
  by pat_completeness auto
termination by (relation "measure (\<lambda>(z, q, i, j). length z - i)") auto

declare dequoteLoop.simps [simp del]

definition sqlite3Dequote :: "u8 list \<Rightarrow> u8 list option" where
  "sqlite3Dequote z =
     (if \<not> sqlite3Isquote (chead z) then Some z
      else (let quote = chead z; quote = (if quote = 91 then 93 else quote) in dequoteLoop z quote 1 0))"

text \<open>The text between the quotes: the closing quote is doubled.\<close>

definition quoted :: "u8 \<Rightarrow> u8 list \<Rightarrow> u8 list" where
  "quoted q s = concat (map (\<lambda>c. if c = q then [q, q] else [c]) s)"

lemma quoted_simps [simp]: "quoted q [] = []" "quoted q (c # s) = (if c = q then [q, q] else [c]) @ quoted q s"
  by (simp_all add: quoted_def)

lemma drop_ConsD: "drop i z = x # xs \<Longrightarrow> i < length z \<and> z ! i = x \<and> drop (i + 1) z = xs"
  by (cases "i < length z") (simp_all add: Cons_nth_drop_Suc [symmetric])

lemma dequoteLoop_quoted:
  assumes "drop i z = quoted q s @ q # r" "r \<noteq> []" "hd r \<noteq> q" "j < i"
  shows "dequoteLoop z q i j = Some (take j z @ s @ 0 # drop (j + length s + 1) z)"
  using assms
proof (induction s arbitrary: z i j)
  case Nil
  then have i: "i < length z" "z ! i = q" "drop (i + 1) z = r" using drop_ConsD [of i z q r] by auto
  then have "i + 1 < length z" "z ! (i + 1) \<noteq> q" using Nil.prems drop_ConsD [of "i + 1" z] by (cases r; auto)+
  with i Nil.prems(4) show ?case
    by (simp add: dequoteLoop.simps [of z] upd_conv_take_nth_drop)
next
  case (Cons c s)
  let ?y = "z[j := c]"
  have upd: "take (j + 1) ?y @ s @ 0 # drop (j + 1 + length s + 1) ?y
      = take j z @ (c # s) @ 0 # drop (j + length (c # s) + 1) z" if "j < length z"
    using that by (simp add: take_Suc_conv_app_nth)
  show ?case
  proof (cases "c = q")
    case True
    with Cons.prems have i: "i < length z" "z ! i = q" "drop (i + 1) z = q # quoted q s @ q # r"
      using drop_ConsD [of i z q] by auto
    then have k: "i + 1 < length z" "z ! (i + 1) = q" "drop (i + 2) z = quoted q s @ q # r"
      using drop_ConsD [of "i + 1" z q] by auto
    with Cons.IH [of "i + 2" ?y "j + 1"] Cons.prems(2-4) i upd True show ?thesis
      by (simp add: dequoteLoop.simps [of z])
  next
    case False
    with Cons.prems have i: "i < length z" "z ! i = c" "drop (i + 1) z = quoted q s @ q # r"
      using drop_ConsD [of i z c] by auto
    with Cons.IH [of "i + 1" ?y "j + 1"] Cons.prems(2-4) upd False show ?thesis
      by (simp add: dequoteLoop.simps [of z])
  qed
qed

lemma cstr_app: "0 \<notin> set s \<Longrightarrow> cstr (s @ 0 # r) = s"
  by (induction s) (auto simp: cstr_def)


section \<open>Hexadecimal digits\<close>

text \<open>\<open>h\<close> is the character code of the digit.\<close>

definition sqlite3HexToInt :: "u8 \<Rightarrow> u8" where
  "sqlite3HexToInt h = (h + 9 * (1 AND drop_bit 6 h)) AND 0xf"

lemma HexToInt_digit: "d < 16 \<Longrightarrow>
   sqlite3HexToInt (if d < 10 then 48 + d else 87 + d) = d \<and>
   sqlite3HexToInt (if d < 10 then 48 + d else 55 + d) = d"
  by (rule byte_all [of "\<lambda>d. d < 16 \<longrightarrow> sqlite3HexToInt (if d < 10 then 48 + d else 87 + d) = d \<and>
   sqlite3HexToInt (if d < 10 then 48 + d else 55 + d) = d", THEN mp]) (code_simp, assumption)

text \<open>
  The blob and its terminator; \<open>n\<close> is the number of characters of the literal including the closing
  quote. \<^term>\<open>None\<close>: the allocation failed or \<open>z\<close> is too short.
\<close>

function hexToBlobLoop :: "u8 list \<Rightarrow> nat \<Rightarrow> nat \<Rightarrow> u8 list \<Rightarrow> u8 list option" where
  "hexToBlobLoop z n i zBlob =
     (if i < n then
        (if i + 1 < length z
         then hexToBlobLoop z n (i + 2)
                (zBlob @ [push_bit 4 (sqlite3HexToInt (z ! i)) OR sqlite3HexToInt (z ! (i + 1))])
         else None)
      else Some (zBlob @ [0]))"
  by pat_completeness auto
termination by (relation "measure (\<lambda>(z, n, i, b). n - i)") auto

definition sqlite3HexToBlob :: "bool \<Rightarrow> u8 list \<Rightarrow> nat \<Rightarrow> u8 list option" where
  "sqlite3HexToBlob mallocOk z n = (if mallocOk then hexToBlobLoop z (n - 1) 0 [] else None)"

declare hexToBlobLoop.simps [simp del]

definition hexDigit :: "u8 \<Rightarrow> u8" where
  "hexDigit d = (if d < 10 then 48 + d else 55 + d)"

definition hexOf :: "u8 list \<Rightarrow> u8 list" where
  "hexOf bs = concat (map (\<lambda>b. [hexDigit (drop_bit 4 b), hexDigit (b AND 0xf)]) bs)"

lemma HexToInt_byte:
  "push_bit 4 (sqlite3HexToInt (hexDigit (drop_bit 4 b))) OR sqlite3HexToInt (hexDigit (b AND 0xf)) = b"
  by (rule byte_all [of "\<lambda>b. push_bit 4 (sqlite3HexToInt (hexDigit (drop_bit 4 b))) OR
    sqlite3HexToInt (hexDigit (b AND 0xf)) = b"]) code_simp

lemma hexOf_simps [simp]: "hexOf [] = []"
  "hexOf (b # bs) = hexDigit (drop_bit 4 b) # hexDigit (b AND 0xf) # hexOf bs"
  by (simp_all add: hexOf_def)

lemma hexToBlobLoop_hexOf:
  "drop i z = hexOf bs @ rest \<Longrightarrow> i \<le> length z \<Longrightarrow> n = i + length (hexOf bs) \<Longrightarrow>
   hexToBlobLoop z n i acc = Some (acc @ bs @ [0])"
proof (induction bs arbitrary: i acc)
  case Nil
  then show ?case by (simp add: hexToBlobLoop.simps [of z])
next
  case (Cons b bs)
  note d = drop_ConsD [of i z] drop_ConsD [of "i + 1" z]
  from Cons.prems d have i: "i + 1 < length z" "z ! i = hexDigit (drop_bit 4 b)"
    "z ! (i + 1) = hexDigit (b AND 0xf)" "drop (i + 2) z = hexOf bs @ rest"
    by auto
  with Cons.IH [of "i + 2" "acc @ [b]"] Cons.prems show ?case
    by (simp add: hexToBlobLoop.simps [of z _ i acc] HexToInt_byte)
qed


section \<open>Correctness\<close>

text \<open>The case-insensitive comparison is a total order on names up to case: \<open>sqlite3StrICmp\<close> returns
  zero exactly for names that agree after mapping upper to lower case, a negative number exactly
  when the folded left name comes first lexicographically by byte values, and swapping the
  arguments negates the result; \<open>sqlite3_strnicmp\<close> returns zero exactly when the first \<open>N\<close> folded
  bytes agree.\<close>

theorem stricmp_total_order:
  "(sqlite3StrICmp a b = 0) = (cfold a = cfold b)
   \<and> (sqlite3StrICmp a b < 0) = ((cfold a, cfold b) \<in> lexord {(x, y). x < y})
   \<and> sqlite3StrICmp b a = - sqlite3StrICmp a b
   \<and> (sqlite3_strnicmp (Some a) (Some b) n = 0) = (take (nat n) (cfold a) = take (nat n) (cfold b))"
  by (simp add: StrICmp_eq_0 StrICmp_less_0 strnicmp_eq_0 sqlite3_strnicmp_def StrICmp_antisym [of b a])

text \<open>\<open>sqlite3Dequote\<close> undoes SQL quoting in place: on a buffer that holds an opening quote, a text
  with the closing quote doubled, the closing quote and a byte that is not that quote again, the
  string left in the buffer is the text, and nothing past the buffer is read.\<close>

theorem sqlite3Dequote_quoted:
  assumes "sqlite3Isquote q" "c = (if q = 91 then 93 else q)" "0 \<notin> set s" "r \<noteq> []" "hd r \<noteq> c"
  shows "\<exists>z'. sqlite3Dequote (q # quoted c s @ c # r) = Some z' \<and> cstr z' = s
    \<and> length z' = length (q # quoted c s @ c # r)"
proof -
  let ?z = "q # quoted c s @ c # r"
  have len: "length s \<le> length (quoted c s)" by (induction s) auto
  have "sqlite3Dequote ?z = Some (take 0 ?z @ s @ 0 # drop (0 + length s + 1) ?z)"
    using dequoteLoop_quoted [of 1 ?z c s r 0] assms by (simp add: sqlite3Dequote_def)
  with len show ?thesis using assms(3) by (auto simp: cstr_app)
qed

lemma sqlite3Dequote_quoted_witness:
  "\<exists>z'. sqlite3Dequote [39, 97, 39, 39, 98, 39, 0] = Some z' \<and> cstr z' = [97, 39, 98]"
  using sqlite3Dequote_quoted [of 39 39 "[97, 39, 98]" "[0]"] by (auto simp: ctype_classes)

text \<open>\<open>sqlite3HexToBlob\<close> decodes the hexadecimal text of any blob, written as in a blob literal and
  closed by a quote, to the blob and its terminator.\<close>

theorem sqlite3HexToBlob_hex:
  "sqlite3HexToBlob True (hexOf bs @ 39 # rest) (length (hexOf bs) + 1) = Some (bs @ [0])"
  using hexToBlobLoop_hexOf [of 0 "hexOf bs @ 39 # rest" bs "39 # rest"]
  by (simp add: sqlite3HexToBlob_def)

end
