(* ===== verification/HashTable.thy ===== *)
theory HashTable
  imports CharTables
begin

text \<open>
  The generic hash table of hash.c, keyed by names compared without regard to case.

  All elements are on one doubly-linked list, \<open>elems\<close>, in list order (\<open>next\<close> and \<open>prev\<close> are the
  neighbours). An element has an address \<open>hid\<close>, 0 being NULL; a bucket of the \<open>ht\<close> array is the
  address of the first of its elements and their number, its elements being consecutive on the
  list. \<open>ht = []\<close> is a NULL array. A new element gets the address \<open>nextAddr\<close>, which no element has.
  \<open>'d\<close> is the type of the non-NULL data pointers.

  \<open>msz\<close> stands for \<open>sqlite3MallocSize\<close>, which asks the configured allocator for the size of the
  array it gave for a request, in slots.
\<close>

section \<open>State\<close>

record 'd helem =
  hid :: nat
  hdata :: 'd
  hkey :: "u8 list"

record bucket =
  bcount :: nat
  bchain :: nat

record 'd hash =
  htsize :: nat
  hcount :: nat
  elems :: "'d helem list"
  ht :: "bucket list"
  nextAddr :: nat

definition sqlite3HashInit :: "'d hash" where
  "sqlite3HashInit = \<lparr>htsize = 0, hcount = 0, elems = [], ht = [], nextAddr = 1\<rparr>"

definition sqlite3HashClear :: "'d hash \<Rightarrow> 'd hash" where
  "sqlite3HashClear pH = pH\<lparr>elems := [], ht := [], htsize := 0, hcount := 0\<rparr>"

definition strHash :: "u8 list \<Rightarrow> u32" where
  "strHash z = fold (\<lambda>c h. (h + ucast (sqlite3UpperToLower c)) * 0x9e3779b1) (cstr z) 0"

text \<open>Following the list from an address, and linking an element in before one.\<close>

definition from_addr :: "nat \<Rightarrow> 'd helem list \<Rightarrow> 'd helem list" where
  "from_addr a es = dropWhile (\<lambda>e. hid e \<noteq> a) es"

definition insert_before :: "nat \<Rightarrow> 'd helem \<Rightarrow> 'd helem list \<Rightarrow> 'd helem list" where
  "insert_before a new es = takeWhile (\<lambda>e. hid e \<noteq> a) es @ new # from_addr a es"

text \<open>\<open>pEntry\<close> is the index of the bucket, \<^term>\<open>None\<close> when there is no array.\<close>

definition insertElement :: "'d hash \<Rightarrow> nat option \<Rightarrow> 'd helem \<Rightarrow> 'd hash" where
  "insertElement pH pEntry pNew =
     (let (pHead, pH) =
        (case pEntry of
           Some i \<Rightarrow>
             (let b = ht pH ! i in
              (if bcount b \<noteq> 0 then bchain b else 0,
               pH\<lparr>ht := (ht pH)[i := \<lparr>bcount = bcount b + 1, bchain = hid pNew\<rparr>]\<rparr>))
         | None \<Rightarrow> (0, pH)) in
      if pHead \<noteq> 0 then pH\<lparr>elems := insert_before pHead pNew (elems pH)\<rparr>
      else pH\<lparr>elems := pNew # elems pH\<rparr>)"

definition bucket_of :: "nat \<Rightarrow> u8 list \<Rightarrow> nat" where
  "bucket_of n key = unat (strHash key) mod n"

text \<open>
  \<open>SQLITE_MALLOC_SOFT_LIMIT\<close> is 1024 and a bucket has 16 bytes. A request of no bytes gets NULL.
\<close>

definition rehash :: "(nat \<Rightarrow> nat) \<Rightarrow> 'd hash \<Rightarrow> nat \<Rightarrow> allocs \<Rightarrow> bool \<times> 'd hash \<times> allocs" where
  "rehash msz pH new_size m =
     (let new_size = (if new_size * 16 > 1024 then 1024 div 16 else new_size) in
      if new_size = htsize pH then (False, pH, m)
      else
        (let (ok, m) = alloc_ok m in
         if \<not> ok \<or> new_size = 0 then (False, pH, m)
         else
           (let n = msz new_size;
                es = elems pH;
                pH = pH\<lparr>ht := replicate n \<lparr>bcount = 0, bchain = 0\<rparr>, htsize := n, elems := []\<rparr>;
                pH = fold (\<lambda>e pH. insertElement pH (Some (bucket_of n (hkey e))) e) es pH
            in (True, pH, m))))"

text \<open>
  The search over \<open>count\<close> elements of the list: outer \<^term>\<open>None\<close> is running off the end of the list,
  inner \<^term>\<open>None\<close> is the null element.
\<close>

fun findLoop :: "nat \<Rightarrow> 'd helem list \<Rightarrow> u8 list \<Rightarrow> 'd helem option option" where
  "findLoop 0 es key = Some None"
| "findLoop (Suc n) [] key = None"
| "findLoop (Suc n) (e # es) key =
     (if sqlite3StrICmp (hkey e) key = 0 then Some (Some e) else findLoop n es key)"

definition findElementWithHash :: "'d hash \<Rightarrow> u8 list \<Rightarrow> ('d helem option \<times> nat) option" where
  "findElementWithHash pH key =
     (let (h, es, count) =
        (if ht pH \<noteq> [] then
           (let h = bucket_of (htsize pH) key; b = ht pH ! h in
            (h, from_addr (bchain b) (elems pH), bcount b))
         else (0, elems pH, hcount pH)) in
      map_option (\<lambda>e. (e, h)) (findLoop count es key))"

definition next_addr :: "'d helem \<Rightarrow> 'd helem list \<Rightarrow> nat" where
  "next_addr e es = (case from_addr (hid e) es of x # y # _ \<Rightarrow> hid y | _ \<Rightarrow> 0)"

definition removeElementGivenHash :: "'d hash \<Rightarrow> 'd helem \<Rightarrow> nat \<Rightarrow> 'd hash" where
  "removeElementGivenHash pH elem h =
     (let nxt = next_addr elem (elems pH);
          pH = pH\<lparr>elems := filter (\<lambda>e. hid e \<noteq> hid elem) (elems pH)\<rparr>;
          pH = (if ht pH \<noteq> [] then
                  (let b = ht pH ! h;
                       b = (if bchain b = hid elem then b\<lparr>bchain := nxt\<rparr> else b);
                       b = b\<lparr>bcount := bcount b - 1\<rparr>
                   in pH\<lparr>ht := (ht pH)[h := b]\<rparr>)
                else pH);
          pH = pH\<lparr>hcount := hcount pH - 1\<rparr>
      in if hcount pH = 0 then sqlite3HashClear pH else pH)"

definition sqlite3HashFind :: "'d hash \<Rightarrow> u8 list \<Rightarrow> 'd option option" where
  "sqlite3HashFind pH key = map_option (\<lambda>(e, h). map_option hdata e) (findElementWithHash pH key)"

text \<open>
  Growing the array when there are many elements, and the bucket of the new element after it.
  \<open>count\<close> and \<open>htsize\<close> are 32-bit unsigned integers.
\<close>

definition hashGrow ::
  "(nat \<Rightarrow> nat) \<Rightarrow> 'd hash \<Rightarrow> u8 list \<Rightarrow> nat \<Rightarrow> allocs \<Rightarrow> 'd hash \<times> nat \<times> allocs" where
  "hashGrow msz pH key h m =
     (if hcount pH \<ge> 10 \<and> hcount pH > 2 * htsize pH mod 2 ^ 32 then
        (let (done, pH, m) = rehash msz pH (hcount pH * 2 mod 2 ^ 32) m in
         (pH, if done then bucket_of (htsize pH) key else h, m))
      else (pH, h, m))"

definition sqlite3HashInsert ::
  "(nat \<Rightarrow> nat) \<Rightarrow> 'd hash \<Rightarrow> u8 list \<Rightarrow> 'd option \<Rightarrow> allocs \<Rightarrow> ('d option \<times> 'd hash \<times> allocs) option" where
  "sqlite3HashInsert msz pH key data m = do {
     (elem, h) \<leftarrow> findElementWithHash pH key;
     case elem of
       Some e \<Rightarrow>
         (let old_data = hdata e in
          case data of
            None \<Rightarrow> Some (Some old_data, removeElementGivenHash pH e h, m)
          | Some d \<Rightarrow>
              Some (Some old_data,
                pH\<lparr>elems := map (\<lambda>x. if hid x = hid e then x\<lparr>hdata := d, hkey := key\<rparr> else x) (elems pH)\<rparr>, m))
     | None \<Rightarrow>
         (case data of
            None \<Rightarrow> Some (None, pH, m)
          | Some d \<Rightarrow>
              (let (ok, m) = alloc_ok m in
               if \<not> ok then Some (data, pH, m)
               else
                 (let new_elem = \<lparr>hid = nextAddr pH, hdata = d, hkey = key\<rparr>;
                      pH = pH\<lparr>nextAddr := nextAddr pH + 1, hcount := (hcount pH + 1) mod 2 ^ 32\<rparr>;
                      (pH, h, m) = hashGrow msz pH key h m
                  in Some (None, insertElement pH (if ht pH \<noteq> [] then Some h else None) new_elem, m))))
   }"


section \<open>Buckets are consecutive elements\<close>

definition seg :: "('a \<Rightarrow> bool) \<Rightarrow> 'a list \<Rightarrow> bool" where
  "seg P es \<longleftrightarrow> (\<exists>us ws. es = us @ filter P es @ ws)"

lemma segE:
  assumes "seg P es"
  obtains us ws where "es = us @ filter P es @ ws" "\<forall>x\<in>set us. \<not> P x" "\<forall>x\<in>set ws. \<not> P x"
proof -
  from assms obtain us ws where e: "es = us @ filter P es @ ws" by (auto simp: seg_def)
  from arg_cong [OF e, of "\<lambda>xs. length (filter P xs)"] have "filter P us = []" "filter P ws = []" by auto
  with e that show ?thesis by (auto simp: filter_empty_conv)
qed

lemma segI: "\<forall>x\<in>set us. \<not> P x \<Longrightarrow> \<forall>x\<in>set vs. P x \<Longrightarrow> \<forall>x\<in>set ws. \<not> P x \<Longrightarrow> seg P (us @ vs @ ws)"
proof -
  assume a: "\<forall>x\<in>set us. \<not> P x" "\<forall>x\<in>set vs. P x" "\<forall>x\<in>set ws. \<not> P x"
  then have "filter P (us @ vs @ ws) = vs" by (simp add: filter_empty_conv)
  then show ?thesis unfolding seg_def by metis
qed

lemma seg_Cons: "seg P es \<Longrightarrow> \<not> P x \<Longrightarrow> seg P (x # es)"
  unfolding seg_def by (metis append_Cons filter.simps(2))

lemma seg_filter: "seg P es \<Longrightarrow> seg P (filter Q es)"
proof (elim segE)
  fix us ws assume e: "es = us @ filter P es @ ws" "\<forall>x\<in>set us. \<not> P x" "\<forall>x\<in>set ws. \<not> P x"
  from e(1) have f: "filter Q es = filter Q us @ filter Q (filter P es) @ filter Q ws"
    by (metis filter_append)
  show ?thesis unfolding f by (rule segI) (use e in auto)
qed

lemma seg_map: "seg P es \<Longrightarrow> (\<And>x. P (g x) = P x) \<Longrightarrow> seg P (map g es)"
proof (elim segE)
  fix us ws assume g: "\<And>x. P (g x) = P x"
    and e: "es = us @ filter P es @ ws" "\<forall>x\<in>set us. \<not> P x" "\<forall>x\<in>set ws. \<not> P x"
  from e(1) have f: "map g es = map g us @ map g (filter P es) @ map g ws" by (metis map_append)
  show ?thesis unfolding f by (rule segI) (use e g in auto)
qed

lemma insert_before_split:
  "hid y \<notin> hid ` set as \<Longrightarrow> insert_before (hid y) new (as @ y # bs) = as @ new # y # bs"
  by (induction as) (auto simp: insert_before_def from_addr_def)

lemma from_addr_split: "hid y \<notin> hid ` set as \<Longrightarrow> from_addr (hid y) (as @ y # bs) = y # bs"
  by (induction as) (auto simp: from_addr_def)

lemma filter_insert_before:
  assumes "\<not> P new"
  shows "filter P (insert_before a new es) = filter P es"
proof -
  have "filter P es = filter P (takeWhile (\<lambda>e. hid e \<noteq> a) es) @ filter P (dropWhile (\<lambda>e. hid e \<noteq> a) es)"
    by (metis filter_append takeWhile_dropWhile_id)
  with assms show ?thesis by (simp add: insert_before_def from_addr_def)
qed

lemma set_insert_before [simp]: "set (insert_before a new es) = insert new (set es)"
  by (metis (no_types) insert_before_def from_addr_def list.simps(15) set_append takeWhile_dropWhile_id Un_insert_right)

lemma mset_insert_before: "length (insert_before a new es) = Suc (length es)"
  "distinct (map f (insert_before a new es)) \<longleftrightarrow> f new \<notin> f ` set es \<and> distinct (map f es)"
proof -
  let ?t = "takeWhile (\<lambda>e. hid e \<noteq> a) es" and ?d = "dropWhile (\<lambda>e. hid e \<noteq> a) es"
  have e: "?t @ ?d = es" by simp
  show "length (insert_before a new es) = Suc (length es)"
    using arg_cong [OF e, of length] by (simp add: insert_before_def from_addr_def del: takeWhile_dropWhile_id)
  have "f ` set es = f ` set ?t \<union> f ` set ?d" by (metis e image_Un set_append)
  moreover have "distinct (map f es) \<longleftrightarrow> distinct (map f ?t @ map f ?d)" by (metis e map_append)
  ultimately show "distinct (map f (insert_before a new es)) \<longleftrightarrow> f new \<notin> f ` set es \<and> distinct (map f es)"
    by (auto simp: insert_before_def from_addr_def)
qed

lemma seg_insert_other:
  assumes "seg P es" "\<not> P new" "y \<in> set es" "\<not> P y" "distinct (map hid es)"
  shows "seg P (insert_before (hid y) new es)"
proof -
  obtain us vs ws where e: "es = us @ vs @ ws" "\<forall>x\<in>set us. \<not> P x" "\<forall>x\<in>set ws. \<not> P x" "\<forall>x\<in>set vs. P x"
  proof -
    obtain us ws where "es = us @ filter P es @ ws" "\<forall>x\<in>set us. \<not> P x" "\<forall>x\<in>set ws. \<not> P x"
      using assms(1) by (rule segE)
    then show thesis by (intro that [of us "filter P es" ws]) auto
  qed
  from e assms(3,4) have "y \<in> set us \<or> y \<in> set ws" by auto
  then show ?thesis
  proof
    assume "y \<in> set us"
    then obtain as bs where u: "us = as @ y # bs" by (meson split_list)
    have "insert_before (hid y) new es = (as @ new # y # bs) @ vs @ ws"
      using insert_before_split [of y as new "bs @ vs @ ws"] assms(5) e(1) u by auto
    moreover have "seg P ((as @ new # y # bs) @ vs @ ws)"
      by (rule segI) (use e assms(2) u in auto)
    ultimately show ?thesis by simp
  next
    assume "y \<in> set ws"
    then obtain as bs where u: "ws = as @ y # bs" by (meson split_list)
    have "insert_before (hid y) new es = us @ vs @ (as @ new # y # bs)"
      using insert_before_split [of y "us @ vs @ as" new bs] assms(5) e(1) u by (auto simp: image_Un)
    moreover have "seg P (us @ vs @ (as @ new # y # bs))"
      by (rule segI) (use e assms(2) u in auto)
    ultimately show ?thesis by simp
  qed
qed


section \<open>The table invariant\<close>

abbreviation in_bucket :: "nat \<Rightarrow> nat \<Rightarrow> 'd helem \<Rightarrow> bool" where
  "in_bucket n i \<equiv> \<lambda>e. bucket_of n (hkey e) = i"

definition bucket_ok :: "'d helem list \<Rightarrow> nat \<Rightarrow> nat \<Rightarrow> bucket \<Rightarrow> bool" where
  "bucket_ok es n i b \<longleftrightarrow>
     (let vs = filter (in_bucket n i) es in
      seg (in_bucket n i) es \<and> bcount b = length vs \<and> (vs \<noteq> [] \<longrightarrow> bchain b = hid (hd vs)))"

lemma bucket_okD:
  assumes "bucket_ok es n i b"
  shows "seg (in_bucket n i) es" "bcount b = length (filter (in_bucket n i) es)"
    "filter (in_bucket n i) es = y # vs \<Longrightarrow> bchain b = hid y"
  using assms by (auto simp: bucket_ok_def Let_def)

definition tbl_ok :: "'d helem list \<Rightarrow> nat \<Rightarrow> bucket list \<Rightarrow> bool" where
  "tbl_ok es n hts \<longleftrightarrow> length hts = n \<and> 0 < n \<and> (\<forall>i<n. bucket_ok es n i (hts ! i))
     \<and> distinct (map hid es) \<and> (\<forall>e\<in>set es. 0 < hid e)"

definition hash_ok :: "'d hash \<Rightarrow> bool" where
  "hash_ok h \<longleftrightarrow>
     hcount h = length (elems h) \<and> distinct (map hid (elems h))
     \<and> distinct (map (\<lambda>e. cfold (hkey e)) (elems h))
     \<and> 0 < nextAddr h \<and> (\<forall>e\<in>set (elems h). 0 < hid e \<and> hid e < nextAddr h)
     \<and> (if ht h = [] then htsize h = 0 else tbl_ok (elems h) (htsize h) (ht h))"

lemma strHash_cfold: "cfold a = cfold b \<Longrightarrow> strHash a = strHash b"
proof -
  have "strHash z = fold (\<lambda>c h. (h + ucast c) * 0x9e3779b1) (cfold z) 0" for z
    by (simp add: strHash_def cfold_def fold_map o_def)
  then show "cfold a = cfold b \<Longrightarrow> strHash a = strHash b" by simp
qed

lemma bucket_of_cfold: "cfold a = cfold b \<Longrightarrow> bucket_of n a = bucket_of n b"
  using strHash_cfold [of a b] by (simp add: bucket_of_def)

lemma bucket_of_less: "0 < n \<Longrightarrow> bucket_of n a < n"
  by (simp add: bucket_of_def)

lemma tbl_ok_empty: "0 < n \<Longrightarrow> tbl_ok [] n (replicate n \<lparr>bcount = 0, bchain = 0\<rparr>)"
  by (simp add: tbl_ok_def bucket_ok_def seg_def)

text \<open>Linking a new element into its bucket.\<close>

lemma insertElement_seg_same:
  assumes "bucket_ok es n i b" "bcount b \<noteq> 0" "in_bucket n i new" "distinct (map hid es)"
  shows "\<exists>y. y \<in> set es \<and> bchain b = hid y \<and> in_bucket n i y
    \<and> bucket_ok (insert_before (hid y) new es) n i \<lparr>bcount = bcount b + 1, bchain = hid new\<rparr>"
proof -
  let ?P = "in_bucket n i"
  obtain us ws where e: "es = us @ filter ?P es @ ws" "\<forall>x\<in>set us. \<not> ?P x" "\<forall>x\<in>set ws. \<not> ?P x"
    using bucket_okD(1) [OF assms(1)] by (rule segE)
  obtain y vs where v: "filter ?P es = y # vs"
    using bucket_okD(2) [OF assms(1)] assms(2) by (cases "filter ?P es") auto
  have y: "y \<in> set es" "?P y" "bchain b = hid y" "bcount b = Suc (length vs)" "\<forall>x\<in>set vs. ?P x"
    using bucket_okD(2,3) [OF assms(1)] v set_filter [of ?P es] unfolding v by auto
  have es: "es = us @ y # vs @ ws" using e(1) v by simp
  have ib: "insert_before (hid y) new es = us @ (new # y # vs) @ ws"
    using insert_before_split [of y us new "vs @ ws"] assms(4) es by auto
  have f: "filter ?P (us @ (new # y # vs) @ ws) = new # y # vs"
    using e(2,3) y assms(3) by (simp add: filter_empty_conv)
  have "seg ?P (us @ (new # y # vs) @ ws)" by (rule segI) (use e(2,3) y assms(3) in auto)
  then have "bucket_ok (insert_before (hid y) new es) n i \<lparr>bcount = bcount b + 1, bchain = hid new\<rparr>"
    unfolding ib bucket_ok_def f by (simp add: y)
  with y show ?thesis by blast
qed

lemma tbl_ok_insert:
  assumes "tbl_ok (elems h) n (ht h)" "hid new \<notin> hid ` set (elems h)" "0 < hid new"
    and i: "bucket_of n (hkey new) = i"
  defines "h' \<equiv> insertElement h (Some i) new"
  shows "tbl_ok (elems h') n (ht h') \<and> set (elems h') = insert new (set (elems h))
    \<and> length (elems h') = Suc (length (elems h))"
proof -
  let ?b = "ht h ! i"
  have n: "0 < n" "length (ht h) = n" "i < n" "distinct (map hid (elems h))" "\<forall>e\<in>set (elems h). 0 < hid e"
    "\<forall>j<n. bucket_ok (elems h) n j (ht h ! j)"
    using assms(1) bucket_of_less [of n] i by (auto simp: tbl_ok_def)
  have new: "in_bucket n i new" using i by simp
  show ?thesis
  proof (cases "bcount ?b = 0")
    case True
    have h': "h' = h\<lparr>ht := (ht h)[i := \<lparr>bcount = 1, bchain = hid new\<rparr>], elems := new # elems h\<rparr>"
      using True by (simp add: h'_def insertElement_def)
    have "bucket_ok (new # elems h) n j ((ht h)[i := \<lparr>bcount = 1, bchain = hid new\<rparr>] ! j)" if j: "j < n" for j
    proof (cases "j = i")
      case True
      then have "filter (in_bucket n i) (elems h) = []"
        using bucket_okD(2) [of "elems h" n i ?b] n(6) j \<open>bcount ?b = 0\<close> by simp
      then have "seg (in_bucket n i) ([] @ [new] @ elems h)"
        by (intro segI) (auto simp: filter_empty_conv new)
      with True j n(2) new \<open>filter (in_bucket n i) (elems h) = []\<close> show ?thesis by (simp add: bucket_ok_def)
    next
      case False
      then have "\<not> in_bucket n j new" using new by auto
      with n(6) j False n(2) show ?thesis
        by (simp add: bucket_ok_def Let_def seg_Cons)
    qed
    with n assms(2,3) show ?thesis by (simp add: h' tbl_ok_def)
  next
    case False
    obtain y where y: "y \<in> set (elems h)" "bchain ?b = hid y" "in_bucket n i y"
      "bucket_ok (insert_before (hid y) new (elems h)) n i \<lparr>bcount = bcount ?b + 1, bchain = hid new\<rparr>"
      using insertElement_seg_same [OF _ False new n(4)] n(3,6) by (elim allE impE exE conjE) (auto intro: that)
    have h': "h' = h\<lparr>ht := (ht h)[i := \<lparr>bcount = bcount ?b + 1, bchain = hid new\<rparr>],
        elems := insert_before (hid y) new (elems h)\<rparr>"
      using False y n(5) by (simp add: h'_def insertElement_def)
    have "bucket_ok (insert_before (hid y) new (elems h)) n j
       ((ht h)[i := \<lparr>bcount = bcount ?b + 1, bchain = hid new\<rparr>] ! j)" if j: "j < n" for j
    proof (cases "j = i")
      case True
      with y n show ?thesis by simp
    next
      case False
      then have nj: "\<not> in_bucket n j new" "\<not> in_bucket n j y" using new y(3) by auto
      with n(6) j have "seg (in_bucket n j) (insert_before (hid y) new (elems h))"
        by (intro seg_insert_other) (auto simp: bucket_ok_def Let_def y n)
      with False n(6) j nj show ?thesis
        by (simp add: bucket_ok_def Let_def filter_insert_before [of "in_bucket n j", OF nj(1)])
    qed
    with n assms(2,3) show ?thesis by (simp add: h' tbl_ok_def mset_insert_before)
  qed
qed

lemma insertElement_frame [simp]:
  "htsize (insertElement h i e) = htsize h" "hcount (insertElement h i e) = hcount h"
  "nextAddr (insertElement h i e) = nextAddr h" "(ht (insertElement h i e) = []) = (ht h = [])"
  by (auto simp: insertElement_def Let_def split: option.splits)

definition relink :: "nat \<Rightarrow> 'd helem list \<Rightarrow> 'd hash \<Rightarrow> 'd hash" where
  "relink n es h = fold (\<lambda>e h. insertElement h (Some (bucket_of n (hkey e))) e) es h"

lemma relink_ok:
  assumes "tbl_ok (elems h) n (ht h)" "distinct (map hid (es @ elems h))" "\<forall>e\<in>set es. 0 < hid e"
  shows "tbl_ok (elems (relink n es h)) n (ht (relink n es h))
    \<and> set (elems (relink n es h)) = set es \<union> set (elems h)
    \<and> length (elems (relink n es h)) = length es + length (elems h)
    \<and> htsize (relink n es h) = htsize h \<and> hcount (relink n es h) = hcount h
    \<and> nextAddr (relink n es h) = nextAddr h \<and> (ht (relink n es h) = [] \<longleftrightarrow> ht h = [])"
  using assms
proof (induction es arbitrary: h)
  case Nil
  then show ?case by (simp add: relink_def)
next
  case (Cons e es)
  let ?h = "insertElement h (Some (bucket_of n (hkey e))) e"
  have t: "tbl_ok (elems ?h) n (ht ?h)" "set (elems ?h) = insert e (set (elems h))"
    "length (elems ?h) = Suc (length (elems h))"
    using tbl_ok_insert [OF Cons.prems(1) _ _ refl, of e] Cons.prems(2,3) by auto
  have d: "distinct (map hid (es @ elems ?h))"
  proof -
    have "distinct (map hid (elems ?h))" using t(1) by (simp add: tbl_ok_def)
    moreover have "hid ` set es \<inter> hid ` set (elems ?h) = {}" using Cons.prems(2) t(2) by auto
    ultimately show ?thesis using Cons.prems(2) by auto
  qed
  from Cons.IH [OF t(1) d] Cons.prems(3) show ?case
    by (simp add: relink_def t)
qed


section \<open>Looking up\<close>

definition hfind :: "'d helem list \<Rightarrow> u8 list \<Rightarrow> 'd helem option" where
  "hfind es k = List.find (\<lambda>e. cfold (hkey e) = k) es"

lemma findLoop_find: "findLoop (length vs) (vs @ ws) key = Some (hfind vs (cfold key))"
  by (induction vs) (auto simp: hfind_def StrICmp_eq_0)

lemma hfind_filter:
  "(\<And>e. cfold (hkey e) = k \<Longrightarrow> P e) \<Longrightarrow> hfind (filter P es) k = hfind es k"
  by (induction es) (auto simp: hfind_def)

lemma hfind_SomeD: "hfind es k = Some e \<Longrightarrow> e \<in> set es \<and> cfold (hkey e) = k"
  by (auto simp: hfind_def find_Some_iff)

lemma hfind_NoneD: "hfind es k = None \<longleftrightarrow> k \<notin> (\<lambda>e. cfold (hkey e)) ` set es"
  by (auto simp: hfind_def find_None_iff)

lemma hfind_Some_iff:
  "distinct (map (\<lambda>e. cfold (hkey e)) es) \<Longrightarrow> hfind es k = Some e \<longleftrightarrow> e \<in> set es \<and> cfold (hkey e) = k"
  by (induction es) (force simp: hfind_def)+

lemma hfind_set_cong:
  assumes "distinct (map (\<lambda>e. cfold (hkey e)) es)" "distinct (map (\<lambda>e. cfold (hkey e)) es')" "set es = set es'"
  shows "hfind es k = hfind es' k"
proof (cases "hfind es k")
  case None
  then show ?thesis using assms(3) hfind_NoneD [of es k] hfind_NoneD [of es' k] by simp
next
  case (Some e)
  then show ?thesis using assms hfind_Some_iff [of es k e] hfind_Some_iff [of es' k e] by simp
qed

lemma find_correct:
  assumes "hash_ok h"
  shows "findElementWithHash h key =
    Some (hfind (elems h) (cfold key), if ht h = [] then 0 else bucket_of (htsize h) key)"
proof (cases "ht h = []")
  case True
  with assms findLoop_find [of "elems h" "[]" key] show ?thesis
    by (simp add: findElementWithHash_def hash_ok_def)
next
  case False
  let ?n = "htsize h" and ?i = "bucket_of (htsize h) key"
  let ?P = "in_bucket ?n ?i" and ?es = "elems h" and ?b = "ht h ! ?i"
  have t: "tbl_ok ?es ?n (ht h)" using assms False by (simp add: hash_ok_def)
  then have b: "bucket_ok ?es ?n ?i ?b" and d: "distinct (map hid ?es)"
    using bucket_of_less [of ?n key] by (auto simp: tbl_ok_def)
  obtain us ws where e: "?es = us @ filter ?P ?es @ ws" using bucket_okD(1) [OF b] by (auto simp: seg_def)
  have f: "hfind (filter ?P ?es) (cfold key) = hfind ?es (cfold key)"
    by (rule hfind_filter) (auto intro: bucket_of_cfold)
  have "findLoop (bcount ?b) (from_addr (bchain ?b) ?es) key = Some (hfind ?es (cfold key))"
  proof (cases "filter ?P ?es")
    case Nil
    then show ?thesis using bucket_okD(2) [OF b] f by (simp add: hfind_def)
  next
    case (Cons y vs)
    then have "from_addr (bchain ?b) ?es = (y # vs) @ ws"
      using from_addr_split [of y us "vs @ ws"] bucket_okD(3) [OF b Cons] d e by auto
    then show ?thesis using bucket_okD(2) [OF b] f Cons findLoop_find [of "y # vs" ws key] by simp
  qed
  with False show ?thesis by (simp add: findElementWithHash_def Let_def)
qed

section \<open>Insertion\<close>

definition hmap :: "'d hash \<Rightarrow> u8 list \<Rightarrow> 'd option" where
  "hmap h k = map_option hdata (hfind (elems h) k)"

lemma dom_hmap: "dom (hmap h) = (\<lambda>e. cfold (hkey e)) ` set (elems h)"
  using hfind_NoneD [of "elems h"] by (force simp: hmap_def dom_def)

lemma card_hmap: "hash_ok h \<Longrightarrow> card (dom (hmap h)) = length (elems h)"
  unfolding dom_hmap using distinct_card [of "map (\<lambda>e. cfold (hkey e)) (elems h)"]
  by (simp add: hash_ok_def)

text \<open>What relinking keeps: the same elements on the list, in well-formed buckets.\<close>

definition relinked :: "'d hash \<Rightarrow> 'd hash \<Rightarrow> bool" where
  "relinked h h' \<longleftrightarrow> set (elems h') = set (elems h) \<and> length (elems h') = length (elems h)
     \<and> hcount h' = hcount h \<and> nextAddr h' = nextAddr h
     \<and> (if ht h' = [] then htsize h' = 0 else tbl_ok (elems h') (htsize h') (ht h'))"

lemma rehash_ok:
  assumes "distinct (map hid (elems h))" "\<forall>e\<in>set (elems h). 0 < hid e"
    and "if ht h = [] then htsize h = 0 else tbl_ok (elems h) (htsize h) (ht h)"
    and msz: "\<forall>n\<in>{1..64}. 0 < msz n"
    and r: "rehash msz h k m = (ok, h', m')"
  shows "relinked h h' \<and> (\<not> ok \<longrightarrow> h' = h) \<and> (ok \<longrightarrow> ht h' \<noteq> []) \<and> (m = [] \<longrightarrow> m' = [])"
proof -
  define c where "c = (if k * 16 > 1024 then 1024 div 16 else k)"
  define g where "g = h\<lparr>ht := replicate (msz c) \<lparr>bcount = 0, bchain = 0\<rparr>, htsize := msz c, elems := []\<rparr>"
  obtain a m2 where a: "alloc_ok m = (a, m2)" by fastforce
  have m2: "m = [] \<longrightarrow> m2 = []" using a by auto
  have e: "rehash msz h k m =
    (if c = htsize h then (False, h, m) else if \<not> a \<or> c = 0 then (False, h, m2)
     else (True, relink (msz c) (elems h) g, m2))"
    by (simp add: rehash_def Let_def c_def relink_def g_def a)
  consider "\<not> ok" "h' = h" "m = [] \<longrightarrow> m' = []"
    | "ok" "0 < c" "h' = relink (msz c) (elems h) g" "m' = m2"
  proof (cases "c = htsize h \<or> \<not> a \<or> c = 0")
    case True
    then have "rehash msz h k m = (False, h, if c = htsize h then m else m2)" unfolding e by auto
    with r have "ok = False" "h' = h" "m' = (if c = htsize h then m else m2)" by auto
    with m2 that(1) show ?thesis by simp
  next
    case False
    then have "rehash msz h k m = (True, relink (msz c) (elems h) g, m2)" unfolding e by simp
    with r have "ok" "h' = relink (msz c) (elems h) g" "m' = m2" by auto
    with that(2) False show ?thesis by simp
  qed
  then show ?thesis
  proof cases
    case 1
    with assms(3) show ?thesis by (simp add: relinked_def)
  next
    case 2
    then have n: "0 < msz c" using msz by (simp add: c_def)
    have "tbl_ok (elems g) (msz c) (ht g)" using tbl_ok_empty [OF n] by (simp add: g_def)
    from relink_ok [OF this, of "elems h"] assms(1,2) n m2 2 show ?thesis
      by (simp add: relinked_def g_def)
  qed
qed

lemma grow_ok:
  assumes "distinct (map hid (elems h))" "\<forall>e\<in>set (elems h). 0 < hid e"
    and "if ht h = [] then htsize h = 0 else tbl_ok (elems h) (htsize h) (ht h)"
    and msz: "\<forall>n\<in>{1..64}. 0 < msz n"
    and g: "hashGrow msz h key (if ht h = [] then 0 else bucket_of (htsize h) key) m = (h', i, m')"
  shows "relinked h h' \<and> (ht h' \<noteq> [] \<longrightarrow> i = bucket_of (htsize h') key) \<and> (m = [] \<longrightarrow> m' = [])"
proof (cases "hcount h \<ge> 10 \<and> hcount h > 2 * htsize h mod 2 ^ 32")
  case False
  with g have "h' = h" "i = (if ht h = [] then 0 else bucket_of (htsize h) key)" "m' = m"
    unfolding hashGrow_def if_not_P [OF False] by (metis prod.inject)+
  with assms(3) show ?thesis by (simp add: relinked_def)
next
  case True
  obtain r g1 m1 where r: "rehash msz h (hcount h * 2 mod 2 ^ 32) m = (r, g1, m1)" by (metis prod_cases3)
  have "(h', i, m') = (g1, if r then bucket_of (htsize g1) key
      else if ht h = [] then 0 else bucket_of (htsize h) key, m1)"
    unfolding g [symmetric] hashGrow_def if_P [OF True] by (simp only: r Let_def split)
  then have e: "h' = g1" "m' = m1"
    "i = (if r then bucket_of (htsize g1) key else if ht h = [] then 0 else bucket_of (htsize h) key)"
    by (simp_all only: prod.inject)
  from rehash_ok [OF assms(1-3) msz r] show ?thesis unfolding e by auto
qed

lemma distinct_map_same_set:
  "distinct (map f xs) \<Longrightarrow> set ys = set xs \<Longrightarrow> length ys = length xs \<Longrightarrow> distinct (map f ys)"
  by (metis card_distinct distinct_card length_map list.set_map)

text \<open>Adding an element to a relinked table.\<close>

lemma link_new:
  fixes d :: 'd and h :: "'d hash"
  assumes ok: "hash_ok h" and free: "hfind (elems h) (cfold key) = None"
    and rl: "relinked (h\<lparr>nextAddr := nextAddr h + 1, hcount := hcount h + 1\<rparr>) g"
  defines "new \<equiv> \<lparr>hid = nextAddr h, hdata = d, hkey = key\<rparr>"
  defines "g' \<equiv> insertElement g (if ht g \<noteq> [] then Some (bucket_of (htsize g) key) else None) new"
  shows "hash_ok g' \<and> hmap g' = (hmap h)(cfold key \<mapsto> d)"
proof -
  have g: "set (elems g) = set (elems h)" "length (elems g) = length (elems h)"
    "hcount g = hcount h + 1" "nextAddr g = nextAddr h + 1"
    "if ht g = [] then htsize g = 0 else tbl_ok (elems g) (htsize g) (ht g)"
    using rl by (auto simp: relinked_def)
  have old: "distinct (map hid (elems g))" "distinct (map (\<lambda>e. cfold (hkey e)) (elems g))"
    using ok by (auto simp: hash_ok_def intro: distinct_map_same_set [OF _ g(1,2)])
  have fresh: "hid new \<notin> hid ` set (elems g)" "0 < hid new" "hkey new = key" "hdata new = d"
    "cfold key \<notin> (\<lambda>e. cfold (hkey e)) ` set (elems g)"
    using ok free g(1) by (auto simp: hash_ok_def new_def hfind_NoneD)
  have pos: "\<forall>e\<in>set (elems h). 0 < hid e \<and> hid e < nextAddr h" using ok by (simp add: hash_ok_def)
  have g': "set (elems g') = insert new (set (elems h))" "length (elems g') = Suc (length (elems h))"
    "if ht g' = [] then htsize g' = 0 else tbl_ok (elems g') (htsize g') (ht g')"
  proof (atomize (full), cases "ht g = []")
    case True
    then have "g' = g\<lparr>elems := new # elems g\<rparr>" by (simp add: g'_def insertElement_def)
    with True g show "set (elems g') = insert new (set (elems h)) \<and> length (elems g') = Suc (length (elems h)) \<and>
      (if ht g' = [] then htsize g' = 0 else tbl_ok (elems g') (htsize g') (ht g'))" by simp
  next
    case False
    with tbl_ok_insert [of g "htsize g" new] g fresh
    show "set (elems g') = insert new (set (elems h)) \<and> length (elems g') = Suc (length (elems h)) \<and>
      (if ht g' = [] then htsize g' = 0 else tbl_ok (elems g') (htsize g') (ht g'))"
      by (simp add: g'_def)
  qed
  have dist: "distinct (map hid (elems g'))" "distinct (map (\<lambda>e. cfold (hkey e)) (elems g'))"
    using distinct_map_same_set [of hid "new # elems g" "elems g'"] g g' old fresh
      distinct_map_same_set [of "\<lambda>e. cfold (hkey e)" "new # elems g" "elems g'"] by auto
  have "nextAddr g' = nextAddr h + 1" "hcount g' = hcount h + 1" by (simp_all add: g'_def g)
  then have "hash_ok g'"
    using g' dist pos ok fresh by (auto simp: hash_ok_def new_def)
  moreover have "hfind (elems g') k = hfind (new # elems h) k" for k
    using hfind_set_cong [OF dist(2), of "new # elems h"] ok g'(1) fresh free
    by (simp add: hash_ok_def hfind_NoneD)
  then have "hmap g' = (hmap h)(cfold key \<mapsto> d)"
    using fresh by (auto simp: hmap_def hfind_def fun_eq_iff)
  ultimately show ?thesis by simp
qed

lemma insert_absent:
  assumes ok: "hash_ok h" and free: "hfind (elems h) (cfold key) = None"
    and small: "length (elems h) < 2 ^ 31" and msz: "\<forall>n\<in>{1..64}. 0 < msz n"
  shows "\<exists>h' m'. sqlite3HashInsert msz h key (Some d) m = Some (if fst (alloc_ok m) then None else Some d, h', m')
    \<and> hash_ok h' \<and> hmap h' = (if fst (alloc_ok m) then (hmap h)(cfold key \<mapsto> d) else hmap h)
    \<and> (m = [] \<longrightarrow> m' = [])"
proof -
  obtain a n where a: "alloc_ok m = (a, n)" by fastforce
  have an: "m = [] \<longrightarrow> a \<and> n = []" using a by auto
  let ?g = "h\<lparr>nextAddr := nextAddr h + 1, hcount := hcount h + 1\<rparr>"
  let ?new = "\<lparr>hid = nextAddr h, hdata = d, hkey = key\<rparr>"
  have cnt: "(hcount h + 1) mod 2 ^ 32 = hcount h + 1"
    using ok small by (simp add: hash_ok_def)
  have inv: "distinct (map hid (elems ?g))" "\<forall>e\<in>set (elems ?g). 0 < hid e"
    "if ht ?g = [] then htsize ?g = 0 else tbl_ok (elems ?g) (htsize ?g) (ht ?g)"
    using ok by (auto simp: hash_ok_def)
  show ?thesis
  proof (cases a)
    case False
    with a free ok an show ?thesis
      by (simp add: sqlite3HashInsert_def find_correct [OF ok])
  next
    case True
    obtain f i m' where gr: "hashGrow msz ?g key (if ht ?g = [] then 0 else bucket_of (htsize ?g) key) n = (f, i, m')"
      by (metis prod_cases3)
    note go = grow_ok [OF inv msz gr]
    have "sqlite3HashInsert msz h key (Some d) m =
      Some (None, insertElement f (if ht f \<noteq> [] then Some i else None) ?new, m')"
      using free a True gr unfolding sqlite3HashInsert_def find_correct [OF ok] Let_def
      by (cases "ht h = []") (simp_all add: cnt [simplified])
    moreover have "(if ht f \<noteq> [] then Some i else None) =
      (if ht f \<noteq> [] then Some (bucket_of (htsize f) key) else None)" using go by simp
    ultimately show ?thesis using link_new [OF ok free, of f d] go an a True by simp
  qed
qed


section \<open>Replacing and removing\<close>

lemma insert_present:
  fixes h :: "'d hash" and d :: 'd
  assumes ok: "hash_ok h" and e: "hfind (elems h) (cfold key) = Some e"
  defines "h' \<equiv> h\<lparr>elems := map (\<lambda>x. if hid x = hid e then x\<lparr>hdata := d, hkey := key\<rparr> else x) (elems h)\<rparr>"
  shows "hash_ok h' \<and> hmap h' = (hmap h)(cfold key \<mapsto> d)"
proof -
  let ?g = "\<lambda>x. if hid x = hid e then x\<lparr>hdata := d, hkey := key\<rparr> else x"
  let ?f = "\<lambda>e. cfold (hkey e)"
  have em: "e \<in> set (elems h)" "cfold (hkey e) = cfold key" using hfind_SomeD [OF e] by auto
  have inj: "x = e" if "x \<in> set (elems h)" "hid x = hid e" for x
    using that em(1) ok by (auto simp: hash_ok_def distinct_map inj_on_def)
  have f: "map hid (map ?g (elems h)) = map hid (elems h)" "map ?f (map ?g (elems h)) = map ?f (elems h)"
    using inj em by (auto dest!: inj)
  have bo: "bucket_ok (map ?g (elems h)) n i b" if "bucket_ok (elems h) n i b" for n i b
  proof -
    have bk: "bucket_of n (hkey (?g x)) = bucket_of n (hkey x)" if "x \<in> set (elems h)" for x
      using inj [OF that] em(2) bucket_of_cfold [of "hkey e" key n] by auto
    have fil: "filter (in_bucket n i) (map ?g (elems h)) = map ?g (filter (in_bucket n i) (elems h))"
    proof -
      have "filter (\<lambda>x. in_bucket n i (?g x)) (elems h) = filter (in_bucket n i) (elems h)"
        by (rule filter_cong) (simp_all only: bk)
      then show ?thesis by (simp only: filter_map o_def)
    qed
    have "seg (in_bucket n i) (map ?g (elems h))"
    proof -
      obtain us ws where "elems h = us @ filter (in_bucket n i) (elems h) @ ws"
        using bucket_okD(1) [OF \<open>bucket_ok (elems h) n i b\<close>] by (auto simp: seg_def)
      from arg_cong [OF this, of "map ?g"] show ?thesis unfolding seg_def fil map_append by blast
    qed
    with \<open>bucket_ok (elems h) n i b\<close> show ?thesis
      unfolding bucket_ok_def fil Let_def by (auto simp: hd_map)
  qed
  have "hash_ok h'"
    using ok f bo by (auto simp: hash_ok_def h'_def tbl_ok_def simp del: map_map)
  moreover have "hmap h' = (hmap h)(cfold key \<mapsto> d)"
  proof
    fix k
    show "hmap h' k = ((hmap h)(cfold key \<mapsto> d)) k"
    proof (cases "k = cfold key")
      case True
      have "hfind (elems h') k = Some (?g e)"
        using hfind_Some_iff [of "elems h'" k "?g e"] \<open>hash_ok h'\<close> em True by (auto simp: hash_ok_def h'_def)
      with True show ?thesis by (simp add: hmap_def)
    next
      case False
      have "hfind (map ?g xs) k = hfind xs k" if "set xs \<subseteq> set (elems h)" for xs
        using that inj em False by (induction xs) (auto simp: hfind_def)
      with False show ?thesis by (simp add: hmap_def h'_def)
    qed
  qed
  ultimately show ?thesis by simp
qed

lemma filter_absent: "a \<notin> hid ` set xs \<Longrightarrow> filter (\<lambda>x. hid x \<noteq> a) xs = xs"
  by (induction xs) auto

lemma remove_bucket_ok:
  assumes b: "bucket_ok es n i b" and d: "distinct (map hid es)" and e: "e \<in> set es"
  defines "es' \<equiv> filter (\<lambda>x. hid x \<noteq> hid e) es"
  shows "bucket_ok es' n i
    (if in_bucket n i e then (if bchain b = hid e then b\<lparr>bchain := next_addr e es\<rparr> else b)\<lparr>bcount := bcount b - 1\<rparr> else b)"
proof -
  let ?P = "in_bucket n i" and ?Q = "\<lambda>x. hid x \<noteq> hid e"
  have inj: "x = e" if "x \<in> set es" "hid x = hid e" for x
    using that e d by (auto simp: distinct_map inj_on_def)
  have sg: "seg ?P es'" using bucket_okD(1) [OF b] by (simp add: es'_def seg_filter)
  have fil: "filter ?P es' = filter ?Q (filter ?P es)" by (simp add: es'_def conj_commute)
  show ?thesis
  proof (cases "?P e")
    case False
    then have "filter ?Q (filter ?P es) = filter ?P es"
      using inj unfolding filter_filter by (intro filter_cong) auto
    with False b sg fil show ?thesis by (simp add: bucket_ok_def Let_def)
  next
    case True
    obtain us ws where es: "es = us @ filter ?P es @ ws" using bucket_okD(1) [OF b] by (auto simp: seg_def)
    have "e \<in> set (filter ?P es)" using True e by simp
    then obtain as bs where v: "filter ?P es = as @ e # bs" by (meson split_list)
    have es2: "es = (us @ as) @ e # bs @ ws" using es v by simp
    have h: "hid e \<notin> hid ` set (us @ as)" "hid e \<notin> hid ` set (bs @ ws)"
      using d unfolding es2 by auto
    have fv: "filter ?Q (filter ?P es) = as @ bs"
    proof -
      have "filter ?Q as = as" "filter ?Q bs = bs" using h by (auto intro!: filter_absent)
      then show ?thesis unfolding v by simp
    qed
    have nx: "bs \<noteq> [] \<Longrightarrow> next_addr e es = hid (hd bs)"
      using from_addr_split [OF h(1), of "bs @ ws"] es2 by (cases bs) (simp_all add: next_addr_def)
    have ch: "bchain b = hid (hd (as @ e # bs))" "bcount b = length (as @ e # bs)"
      using bucket_okD(2,3) [OF b] v by (cases as; simp)+
    show ?thesis
    proof (cases as)
      case Nil
      with ch nx True sg fil fv show ?thesis by (simp add: bucket_ok_def Let_def)
    next
      case (Cons y ys)
      with h have "hid y \<noteq> hid e" by auto
      with Cons ch True sg fil fv show ?thesis by (simp add: bucket_ok_def Let_def)
    qed
  qed
qed

lemma hfind_remove:
  assumes "distinct (map hid es)" "distinct (map (\<lambda>e. cfold (hkey e)) es)" "e \<in> set es"
  shows "hfind (filter (\<lambda>x. hid x \<noteq> hid e) es) k = (if k = cfold (hkey e) then None else hfind es k)"
proof -
  have u: "hid x = hid e \<longleftrightarrow> cfold (hkey x) = cfold (hkey e)" if "x \<in> set es" for x
    using assms that by (auto simp: distinct_map inj_on_def)
  then have f: "filter (\<lambda>x. hid x \<noteq> hid e) es = filter (\<lambda>x. cfold (hkey x) \<noteq> cfold (hkey e)) es"
    by (intro filter_cong) auto
  show ?thesis unfolding f by (induction es) (auto simp: hfind_def)
qed

lemma remove_ok:
  assumes ok: "hash_ok h" and e: "hfind (elems h) (cfold key) = Some e"
  defines "h' \<equiv> removeElementGivenHash h e (if ht h = [] then 0 else bucket_of (htsize h) key)"
  shows "hash_ok h' \<and> hmap h' = (hmap h)(cfold key := None)"
proof -
  have em: "e \<in> set (elems h)" "cfold (hkey e) = cfold key" using hfind_SomeD [OF e] by auto
  have d: "distinct (map hid (elems h))" "distinct (map (\<lambda>e. cfold (hkey e)) (elems h))"
    "hcount h = length (elems h)" using ok by (auto simp: hash_ok_def)
  let ?es = "filter (\<lambda>x. hid x \<noteq> hid e) (elems h)" and ?i = "bucket_of (htsize h) key"
  let ?b = "ht h ! ?i"
  let ?b' = "(if bchain ?b = hid e then ?b\<lparr>bchain := next_addr e (elems h)\<rparr> else ?b)\<lparr>bcount := bcount ?b - 1\<rparr>"
  define g where "g = h\<lparr>elems := ?es, ht := (if ht h = [] then ht h else (ht h)[?i := ?b']), hcount := hcount h - 1\<rparr>"
  have h': "h' = (if hcount g = 0 then sqlite3HashClear g else g)"
    by (cases "ht h = []") (simp_all add: h'_def removeElementGivenHash_def g_def Let_def sqlite3HashClear_def)
  have len: "length ?es = length (elems h) - 1"
  proof -
    obtain as bs where s: "elems h = as @ e # bs" using em(1) by (meson split_list)
    then have "filter (\<lambda>x. hid x \<noteq> hid e) as = as" "filter (\<lambda>x. hid x \<noteq> hid e) bs = bs"
      using d(1) by (auto intro!: filter_absent)
    with s show ?thesis by simp
  qed
  have dist: "distinct (map hid ?es)" "distinct (map (\<lambda>e. cfold (hkey e)) ?es)"
    using d by (auto simp: distinct_map_filter)
  have tb: "tbl_ok ?es (htsize h) ((ht h)[?i := ?b'])" if "ht h \<noteq> []"
  proof -
    have t: "tbl_ok (elems h) (htsize h) (ht h)" using ok that by (simp add: hash_ok_def)
    have "bucket_ok ?es (htsize h) j ((ht h)[?i := ?b'] ! j)" if j: "j < htsize h" for j
      using remove_bucket_ok [of "elems h" "htsize h" j "ht h ! j" e] t j em d
        bucket_of_cfold [OF em(2), of "htsize h"]
      by (cases "j = ?i") (auto simp: tbl_ok_def)
    with t dist show ?thesis by (auto simp: tbl_ok_def)
  qed
  have "hash_ok g"
    using ok len dist d(3) tb by (auto simp: hash_ok_def g_def)
  moreover have "hcount g = 0 \<Longrightarrow> elems g = []" using len d(3) by (simp add: g_def)
  ultimately have "hash_ok h'" "elems h' = elems g"
    by (auto simp: h' hash_ok_def sqlite3HashClear_def)
  moreover have "hmap g = (hmap h)(cfold key := None)"
    using hfind_remove [OF d(1,2) em(1)] em(2) by (auto simp: hmap_def g_def fun_eq_iff)
  ultimately show ?thesis by (auto simp: hmap_def fun_eq_iff)
qed


section \<open>Correctness\<close>

lemma hash_ok_init: "hash_ok sqlite3HashInit"
  by (simp add: hash_ok_def sqlite3HashInit_def)

lemma hash_ok_clear: "hash_ok h \<Longrightarrow> hash_ok (sqlite3HashClear h) \<and> hmap (sqlite3HashClear h) = Map.empty"
  by (auto simp: hash_ok_def sqlite3HashClear_def hmap_def hfind_def fun_eq_iff)

lemma HashFind_hmap: "hash_ok h \<Longrightarrow> sqlite3HashFind h key = Some (hmap h (cfold key))"
  by (simp add: sqlite3HashFind_def find_correct hmap_def)

lemma HashInsert_hmap:
  assumes "hash_ok h" "length (elems h) < 2 ^ 31" "\<forall>n\<in>{1..64}. 0 < msz n"
  shows "\<exists>r h' m'. sqlite3HashInsert msz h key data m = Some (r, h', m') \<and> hash_ok h' \<and> (m = [] \<longrightarrow> m' = [])
    \<and> r = (if \<not> fst (alloc_ok m) \<and> hmap h (cfold key) = None then data else hmap h (cfold key))
    \<and> hmap h' = (if \<not> fst (alloc_ok m) \<and> hmap h (cfold key) = None then hmap h
                  else (hmap h)(cfold key := data))"
proof (cases "hfind (elems h) (cfold key)")
  case (Some e)
  then show ?thesis
    using remove_ok [OF assms(1) Some] insert_present [OF assms(1) Some]
    by (cases data) (auto simp: sqlite3HashInsert_def find_correct [OF assms(1)] hmap_def)
next
  case None
  then have n: "hmap h (cfold key) = None" by (simp add: hmap_def)
  show ?thesis
  proof (cases data)
    case None
    with \<open>hfind (elems h) (cfold key) = None\<close> n assms(1) show ?thesis
      by (auto simp: sqlite3HashInsert_def find_correct fun_upd_idem)
  next
    case (Some d)
    obtain h' m' where "sqlite3HashInsert msz h key (Some d) m =
        Some (if fst (alloc_ok m) then None else Some d, h', m')" "hash_ok h'"
      "hmap h' = (if fst (alloc_ok m) then (hmap h)(cfold key \<mapsto> d) else hmap h)" "m = [] \<longrightarrow> m' = []"
      using insert_absent [OF assms(1) None assms(2,3), of d m] by (elim exE conjE) (rule that)
    with Some n show ?thesis by (cases "fst (alloc_ok m)") auto
  qed
qed

text \<open>The abstract machine is a map from folded names to data.\<close>

datatype 'd hash_op = HInsert "u8 list" "'d option" | HFind "u8 list" | HClear

fun hash_astep :: "(u8 list \<Rightarrow> 'd option) \<Rightarrow> 'd hash_op \<Rightarrow> 'd option \<times> (u8 list \<Rightarrow> 'd option)" where
  "hash_astep M (HInsert key data) = (M (cfold key), M(cfold key := data))"
| "hash_astep M (HFind key) = (M (cfold key), M)"
| "hash_astep M HClear = (None, Map.empty)"

fun hash_cstep :: "(nat \<Rightarrow> nat) \<Rightarrow> 'd hash \<Rightarrow> 'd hash_op \<Rightarrow> ('d option \<times> 'd hash) option" where
  "hash_cstep msz h (HInsert key data) =
     map_option (\<lambda>(r, h, m). (r, h)) (sqlite3HashInsert msz h key data [])"
| "hash_cstep msz h (HFind key) = map_option (\<lambda>r. (r, h)) (sqlite3HashFind h key)"
| "hash_cstep msz h HClear = Some (None, sqlite3HashClear h)"

definition hash_pre :: "(u8 list \<Rightarrow> 'd option) \<Rightarrow> 'd hash_op \<Rightarrow> bool" where
  "hash_pre M x \<longleftrightarrow> card (dom M) < 2 ^ 31"

definition hash_rel :: "'d hash \<Rightarrow> (u8 list \<Rightarrow> 'd option) \<Rightarrow> bool" where
  "hash_rel h M \<longleftrightarrow> hash_ok h \<and> hmap h = M"

lemma hash_step_rel:
  assumes "hash_rel h M" "hash_pre M x" "\<forall>n\<in>{1..64}. 0 < msz n"
  shows "\<exists>h'. hash_cstep msz h x = Some (fst (hash_astep M x), h') \<and> hash_rel h' (snd (hash_astep M x))"
proof (cases x)
  case (HInsert key data)
  have "length (elems h) < 2 ^ 31" using assms card_hmap [of h] by (simp add: hash_rel_def hash_pre_def)
  from HashInsert_hmap [OF _ this assms(3), of key data "[]"] assms(1) HInsert show ?thesis
    by (auto simp: hash_rel_def)
next
  case (HFind key)
  with assms(1) HashFind_hmap [of h key] show ?thesis by (simp add: hash_rel_def)
next
  case HClear
  with assms(1) hash_ok_clear [of h] show ?thesis by (simp add: hash_rel_def)
qed

text \<open>
  What the table needs of the configured allocator: a request for 1 to 64 buckets (the table never
  asks for more) is not answered with an empty array. Every such allocator makes the table simulate
  the abstract machine; the allocator that gives exactly the size asked for is one, and the root
  theory shows that the buddy allocator of mem5.c is another.
\<close>

locale array_sizer =
  fixes msz :: "nat \<Rightarrow> nat"
  assumes msz_pos: "\<forall>n\<in>{1..64}. 0 < msz n"

sublocale array_sizer \<subseteq> hash_sim: simulation "hash_cstep msz" hash_astep hash_pre hash_rel
  by unfold_locales (rule hash_step_rel, simp_all add: msz_pos)

context array_sizer
begin

lemmas hash_run = hash_sim.run_rel

end

lemma hash_rel_init: "hash_rel sqlite3HashInit Map.empty"
  using hash_ok_init by (auto simp: hash_rel_def hmap_def hfind_def sqlite3HashInit_def fun_eq_iff)

interpretation exact_sizer: array_sizer "\<lambda>n. n"
  by unfold_locales simp

text \<open>C12. A hash table is a map on names up to case: every run of insertions, replacements, removals,
  look-ups and clears on a fresh table, without allocation failures and with fewer than 2^31
  entries, returns what a map from folded names returns, for every allocator that gives a
  non-empty array for a request of 1 to 64 buckets.\<close>

theorem hash_refines_map:
  assumes "\<forall>n\<in>{1..64}. 0 < msz n" "run_allowed hash_astep hash_pre Map.empty ops"
  shows "\<exists>h. run_concrete (hash_cstep msz) sqlite3HashInit ops = Some (fst (run_abstract hash_astep Map.empty ops), h)"
proof -
  have s: "array_sizer msz" using assms(1) by unfold_locales
  from array_sizer.hash_run [OF s hash_rel_init assms(2)] show ?thesis by blast
qed

lemma hash_refines_map_witness:
  "\<exists>h. run_concrete (hash_cstep (\<lambda>n. n + 3)) sqlite3HashInit
      [HInsert [65, 98] (Some 7), HFind [97, 66], HInsert [97, 98] (Some (8::nat)), HInsert [97, 66] None, HFind [65, 98]]
    = Some ([None, Some 7, Some 7, Some 8, None], h)"
  using hash_refines_map [of "\<lambda>n. n + 3" "[HInsert [65, 98] (Some 7), HFind [97, 66], HInsert [97, 98] (Some (8::nat)),
    HInsert [97, 66] None, HFind [65, 98]]"]
  by (simp add: Let_def hash_pre_def cfold_def cstr_def UpperToLower_eval)

text \<open>\<open>sqlite3HashInsert\<close> on a well-formed table, for any allocation outcomes and any allocator that
  gives a non-empty array for a request of 1 to 64 buckets: it never runs off the list, keeps the table
  well-formed and returns the old data with the binding changed; or, only when the memory for a
  new element is refused, it returns the new data and changes no binding.\<close>

theorem sqlite3HashInsert_correct:
  assumes "hash_ok h" "length (elems h) < 2 ^ 31" "\<forall>n\<in>{1..64}. 0 < msz n"
  shows "\<exists>r h' m'. sqlite3HashInsert msz h key data m = Some (r, h', m') \<and> hash_ok h'
    \<and> (\<forall>k. sqlite3HashFind h' k = Some (if \<not> fst (alloc_ok m) \<and> hmap h (cfold key) = None \<or> cfold k \<noteq> cfold key
         then hmap h (cfold k) else data))
    \<and> r = (if \<not> fst (alloc_ok m) \<and> hmap h (cfold key) = None then data else hmap h (cfold key))"
proof -
  obtain r h' m' where "sqlite3HashInsert msz h key data m = Some (r, h', m')" "hash_ok h'"
    "r = (if \<not> fst (alloc_ok m) \<and> hmap h (cfold key) = None then data else hmap h (cfold key))"
    "hmap h' = (if \<not> fst (alloc_ok m) \<and> hmap h (cfold key) = None then hmap h
      else (hmap h)(cfold key := data))"
    using HashInsert_hmap [OF assms, of key data m] by (elim exE conjE) (rule that)
  then show ?thesis by (intro exI [of _ r] exI [of _ h'] exI [of _ m']) (auto simp: HashFind_hmap)
qed

lemma sqlite3HashInsert_correct_witness:
  "\<exists>r h' m'. sqlite3HashInsert (\<lambda>n. n + 2) sqlite3HashInit [97] (Some (5::nat)) [False] = Some (r, h', m')
    \<and> r = Some 5 \<and> sqlite3HashFind h' [97] = Some None"
  using sqlite3HashInsert_correct [OF hash_ok_init, of "\<lambda>n. n + 2" "[97]" "Some (5::nat)" "[False]"]
  by (auto simp: sqlite3HashInit_def hmap_def hfind_def)

end
