(* ===== verification/IntArith.thy ===== *)
theory IntArith
  imports SqlitePrelude "HOL-Library.Signed_Division"
begin

text \<open>
  The integer arithmetic of util.c: overflow-checked 64-bit addition, subtraction and
  multiplication (the portable code, used where the compiler has no overflow builtins), absolute
  value, and the logarithmic estimates of the query planner.

  A signed C integer is an \<^typ>\<open>int\<close>. Every intermediate result goes through \<open>ck64\<close>, which is
  \<^term>\<open>None\<close> outside the range of \<open>i64\<close>: a signed overflow, which C leaves undefined, is no value.
\<close>

section \<open>Checked arithmetic\<close>

definition is_i64 :: "int \<Rightarrow> bool" where
  "is_i64 x \<longleftrightarrow> - (2 ^ 63) \<le> x \<and> x < 2 ^ 63"

definition ck64 :: "int \<Rightarrow> int option" where
  "ck64 x = (if is_i64 x then Some x else None)"

definition LARGEST_INT64 :: int where "LARGEST_INT64 = 2 ^ 63 - 1"
definition SMALLEST_INT64 :: int where "SMALLEST_INT64 = - (2 ^ 63)"

text \<open>The return value (whether there is an overflow) and \<open>*pA\<close> after the call.\<close>

definition sqlite3AddInt64 :: "int \<Rightarrow> int \<Rightarrow> (bool \<times> int) option" where
  "sqlite3AddInt64 iA iB = do {
     over \<leftarrow>
       (if iB \<ge> 0 then
          (if iA > 0 then do { t \<leftarrow> ck64 (LARGEST_INT64 - iA); Some (t < iB) } else Some False)
        else
          (if iA < 0 then do {
             s \<leftarrow> ck64 (iA + LARGEST_INT64);
             t \<leftarrow> ck64 (- s);
             u \<leftarrow> ck64 (iB + 1);
             Some (t > u)
           } else Some False));
     if over then Some (True, iA) else do { r \<leftarrow> ck64 (iA + iB); Some (False, r) }
   }"

definition sqlite3SubInt64 :: "int \<Rightarrow> int \<Rightarrow> (bool \<times> int) option" where
  "sqlite3SubInt64 pA iB =
     (if iB = SMALLEST_INT64 then
        (if pA \<ge> 0 then Some (True, pA) else do { r \<leftarrow> ck64 (pA - iB); Some (False, r) })
      else do { nB \<leftarrow> ck64 (- iB); sqlite3AddInt64 pA nB })"

text \<open>C division truncates towards zero; a divisor of zero is \<^term>\<open>None\<close>.\<close>

definition cdiv64 :: "int \<Rightarrow> int \<Rightarrow> int option" where
  "cdiv64 a b = (if b = 0 then None else ck64 (a sdiv b))"

definition sqlite3MulInt64 :: "int \<Rightarrow> int \<Rightarrow> (bool \<times> int) option" where
  "sqlite3MulInt64 iA iB = do {
     over \<leftarrow>
       (if iB > 0 then do {
          q \<leftarrow> cdiv64 LARGEST_INT64 iB;
          if iA > q then Some True
          else do { q \<leftarrow> cdiv64 SMALLEST_INT64 iB; Some (iA < q) }
        }
        else if iB < 0 then
          (if iA > 0 then do { q \<leftarrow> cdiv64 SMALLEST_INT64 iA; Some (iB < q) }
           else if iA < 0 then
             (if iB = SMALLEST_INT64 then Some True
              else if iA = SMALLEST_INT64 then Some True
              else do {
                nA \<leftarrow> ck64 (- iA);
                nB \<leftarrow> ck64 (- iB);
                q \<leftarrow> cdiv64 LARGEST_INT64 nB;
                Some (nA > q)
              })
           else Some False)
        else Some False);
     if over then Some (True, iA) else do { r \<leftarrow> ck64 (iA * iB); Some (False, r) }
   }"

text \<open>\<open>int\<close> has 32 bits.\<close>

definition sqlite3AbsInt32 :: "int \<Rightarrow> int" where
  "sqlite3AbsInt32 x = (if x \<ge> 0 then x else if x = - (2 ^ 31) then 0x7fffffff else - x)"

lemma AddInt64_eq:
  "is_i64 a \<Longrightarrow> is_i64 b \<Longrightarrow>
   sqlite3AddInt64 a b = Some (\<not> is_i64 (a + b), if is_i64 (a + b) then a + b else a)"
  by (auto simp: sqlite3AddInt64_def ck64_def is_i64_def LARGEST_INT64_def)

lemma SubInt64_eq:
  "is_i64 a \<Longrightarrow> is_i64 b \<Longrightarrow>
   sqlite3SubInt64 a b = Some (\<not> is_i64 (a - b), if is_i64 (a - b) then a - b else a)"
  using AddInt64_eq [of a "- b"]
  by (auto simp: sqlite3SubInt64_def ck64_def is_i64_def SMALLEST_INT64_def)

lemma div_less_iff:
  fixes a b c :: int
  assumes "0 < b"
  shows "a div b < c \<longleftrightarrow> a < c * b"
proof
  assume "a div b < c"
  then have "(a div b + 1) * b \<le> c * b" using assms by (intro mult_right_mono) auto
  moreover have "a < (a div b + 1) * b"
    using assms pos_mod_bound [of b a] div_mult_mod_eq [of a b] unfolding distrib_right by linarith
  ultimately show "a < c * b" by simp
next
  assume "a < c * b"
  show "a div b < c"
  proof (rule ccontr)
    assume "\<not> a div b < c"
    then have "c * b \<le> (a div b) * b" using assms by (intro mult_right_mono) auto
    also have "\<dots> \<le> a" using assms div_mult_mod_eq [of a b] pos_mod_sign [of b a] by linarith
    finally show False using \<open>a < c * b\<close> by simp
  qed
qed

lemma div_le_self:
  fixes a b :: int
  assumes "0 \<le> a" "0 < b"
  shows "a div b \<le> a"
proof -
  have "(a + 1) * 1 \<le> (a + 1) * b" using assms by (intro mult_left_mono) auto
  then have "a div b < a + 1" unfolding div_less_iff [OF assms(2)] by simp
  then show ?thesis by simp
qed

lemma sdiv_pos: "0 < b \<Longrightarrow> 0 \<le> a \<Longrightarrow> a sdiv b = a div b" for a b :: int
  by (cases "a = 0") (simp_all add: signed_divide_int_def)

lemma sdiv_neg: "0 < b \<Longrightarrow> 0 \<le> a \<Longrightarrow> (- a) sdiv b = - (a div b)" for a b :: int
  by (cases "a = 0") (simp_all add: signed_divide_int_def)

lemma cdiv64_bounds:
  assumes "0 < b"
  shows "cdiv64 LARGEST_INT64 b = Some ((2 ^ 63 - 1) div b)"
    and "is_i64 b \<Longrightarrow> cdiv64 SMALLEST_INT64 b = Some (- (2 ^ 63 div b))"
proof -
  have "0 \<le> (2 ^ 63 - 1 :: int) div b" "(2 ^ 63 - 1 :: int) div b \<le> 2 ^ 63 - 1"
    using assms by (auto simp: pos_imp_zdiv_nonneg_iff div_le_self)
  then show "cdiv64 LARGEST_INT64 b = Some ((2 ^ 63 - 1) div b)"
    using assms by (simp add: cdiv64_def ck64_def is_i64_def LARGEST_INT64_def sdiv_pos)
  have "0 \<le> (2 ^ 63 :: int) div b" "(2 ^ 63 :: int) div b \<le> 2 ^ 63"
    using assms by (auto simp: pos_imp_zdiv_nonneg_iff div_le_self)
  then show "cdiv64 SMALLEST_INT64 b = Some (- (2 ^ 63 div b))"
    using assms sdiv_neg [of b "2 ^ 63"] by (simp add: cdiv64_def ck64_def is_i64_def SMALLEST_INT64_def)
qed

lemma MulInt64_eq:
  assumes "is_i64 a" "is_i64 b"
  shows "sqlite3MulInt64 a b = Some (\<not> is_i64 (a * b), if is_i64 (a * b) then a * b else a)"
proof -
  consider "b = 0" | "b > 0" | "b < 0" "a > 0" | "b < 0" "a = 0" | "b < 0" "a < 0" by linarith
  then show ?thesis
  proof cases
    case 2
    have "a > (2 ^ 63 - 1) div b \<longleftrightarrow> a * b > 2 ^ 63 - 1" using div_less_iff [OF 2, of "2 ^ 63 - 1" a] by simp
    moreover have "a < - (2 ^ 63 div b) \<longleftrightarrow> a * b < - (2 ^ 63)"
      using div_less_iff [OF 2, of "2 ^ 63" "- a"] unfolding mult_minus_left by linarith
    ultimately show ?thesis
      using 2 assms cdiv64_bounds [OF 2] by (auto simp: sqlite3MulInt64_def ck64_def is_i64_def)
  next
    case 3
    have "b < - (2 ^ 63 div a) \<longleftrightarrow> a * b < - (2 ^ 63)"
      using div_less_iff [OF 3(2), of "2 ^ 63" "- b"] unfolding mult_minus_left mult.commute [of b a] by linarith
    moreover have "a * b \<le> 0" using 3 by (simp add: mult_nonneg_nonpos)
    ultimately show ?thesis
      using 3 assms cdiv64_bounds [OF 3(2)] by (auto simp: sqlite3MulInt64_def ck64_def is_i64_def)
  next
    case 5
    have pos: "0 < - b" "0 < - a" using 5 by auto
    have big: "2 ^ 63 \<le> a * b" if "a = - (2 ^ 63) \<or> b = - (2 ^ 63)"
    proof -
      have "a * b = (- a) * (- b)" by simp
      moreover have "(- a) * 1 \<le> (- a) * (- b)" using pos by (intro mult_left_mono) auto
      moreover have "1 * (- b) \<le> (- a) * (- b)" using pos by (intro mult_right_mono) auto
      ultimately show ?thesis using that by auto
    qed
    have "- a > (2 ^ 63 - 1) div (- b) \<longleftrightarrow> a * b > 2 ^ 63 - 1"
      using div_less_iff [OF pos(1), of "2 ^ 63 - 1" "- a"] by simp
    moreover have "0 < a * b" using 5 by (simp add: mult_neg_neg)
    ultimately show ?thesis
      using 5 assms cdiv64_bounds(1) [OF pos(1)] big
      by (auto simp: sqlite3MulInt64_def ck64_def is_i64_def SMALLEST_INT64_def)
  qed (auto simp: sqlite3MulInt64_def ck64_def is_i64_def)
qed


section \<open>Logarithmic estimates\<close>

text \<open>A \<open>LogEst\<close> is an i16 that approximates ten times the binary logarithm.\<close>

definition logEstAddTable :: "int list" where
  "logEstAddTable =
     [10, 10, 9, 9, 8, 8, 7, 7, 7, 6, 6, 6, 5, 5, 5, 4, 4, 4, 4, 3, 3, 3, 3, 3, 3,
      2, 2, 2, 2, 2, 2, 2]"

definition sqlite3LogEstAdd :: "int \<Rightarrow> int \<Rightarrow> int" where
  "sqlite3LogEstAdd a b =
     (if a \<ge> b then
        (if a > b + 49 then a else if a > b + 31 then a + 1 else a + logEstAddTable ! nat (a - b))
      else
        (if b > a + 49 then b else if b > a + 31 then b + 1 else b + logEstAddTable ! nat (b - a)))"

text \<open>The loops of the portable code; \<open>x\<close> is a u64, \<open>x < 8\<close> in the first loop.\<close>

function logEstUp :: "nat \<Rightarrow> int \<Rightarrow> nat \<times> int" where
  "logEstUp x y = (if 0 < x \<and> x < 8 then logEstUp (2 * x) (y - 10) else (x, y))"
  by pat_completeness auto
termination by (relation "measure (\<lambda>(x, y). 8 - x)") auto

function logEstDown4 :: "nat \<Rightarrow> int \<Rightarrow> nat \<times> int" where
  "logEstDown4 x y = (if x > 255 then logEstDown4 (x div 16) (y + 40) else (x, y))"
  by pat_completeness auto
termination by (relation "measure (\<lambda>(x, y). x)") auto

function logEstDown1 :: "nat \<Rightarrow> int \<Rightarrow> nat \<times> int" where
  "logEstDown1 x y = (if x > 15 then logEstDown1 (x div 2) (y + 10) else (x, y))"
  by pat_completeness auto
termination by (relation "measure (\<lambda>(x, y). x)") auto

declare logEstUp.simps [simp del] logEstDown4.simps [simp del] logEstDown1.simps [simp del]

definition logEstTable :: "int list" where
  "logEstTable = [0, 2, 3, 5, 6, 7, 8, 9]"

definition sqlite3LogEst :: "nat \<Rightarrow> int" where
  "sqlite3LogEst x =
     (if x < 2 then 0
      else
        (let (x, y) =
           (if x < 8 then logEstUp x 40
            else (let (x, y) = logEstDown4 x 40 in logEstDown1 x y))
         in logEstTable ! (x mod 8) + y - 10))"

text \<open>The build with \<open>SQLITE_ENABLE_STMT_SCANSTATUS\<close>; \<open>x\<close> is not negative and the result is a u64.\<close>

definition sqlite3LogEstToInt :: "nat \<Rightarrow> nat" where
  "sqlite3LogEstToInt x =
     (let n = x mod 10; x = x div 10;
          n = (if n \<ge> 5 then n - 2 else if n \<ge> 1 then n - 1 else n) in
      if x > 60 then 2 ^ 63 - 1
      else if x \<ge> 3 then (n + 8) * 2 ^ (x - 3) mod 2 ^ 64 else (n + 8) div 2 ^ (3 - x))"

text \<open>The estimate of a number in \<open>[m * 2^i, (m + 1) * 2^i)\<close> with \<open>8 \<le> m < 16\<close>.\<close>

lemma logEstDown1_eq: "8 \<le> x \<Longrightarrow> 8 * 2 ^ i \<le> x \<Longrightarrow> x < 16 * 2 ^ i \<Longrightarrow> logEstDown1 x y = (x div 2 ^ i, y + 10 * int i)"
proof (induction i arbitrary: x y)
  case 0
  then show ?case by (simp add: logEstDown1.simps [of x])
next
  case (Suc i)
  then have "8 * 2 ^ i \<le> x div 2" "x div 2 < 16 * 2 ^ i" by (auto simp: less_mult_imp_div_less)
  moreover have "(1::nat) \<le> 2 ^ i" by simp
  then have "8 \<le> x div 2" using \<open>8 * 2 ^ i \<le> x div 2\<close> by linarith
  ultimately have "logEstDown1 (x div 2) (y + 10) = (x div 2 div 2 ^ i, y + 10 + 10 * int i)" by (rule Suc.IH [rotated 1])
  moreover have "16 * 2 ^ i \<le> x" using Suc.prems by simp
  then have "x > 15" using \<open>(1::nat) \<le> 2 ^ i\<close> by linarith
  ultimately show ?case by (simp add: logEstDown1.simps [of x] div_mult2_eq)
qed


lemma logEstDown_eq:
  "8 * 2 ^ i \<le> x \<Longrightarrow> x < 16 * 2 ^ i \<Longrightarrow>
   (case logEstDown4 x y of (x, y) \<Rightarrow> logEstDown1 x y) = (x div 2 ^ i, y + 10 * int i)"
proof (induction x y arbitrary: i rule: logEstDown4.induct)
  case (1 x y)
  show ?case
  proof (cases "x > 255")
    case True
    have "4 < i"
    proof (rule ccontr)
      assume "\<not> 4 < i"
      then have "(2::nat) ^ i \<le> 2 ^ 4" by (intro power_increasing) auto
      with 1(3) True show False by simp
    qed
    then obtain j where j: "i = j + 4" by (metis add.commute less_imp_add_positive)
    with 1(2,3) have "8 * 2 ^ j \<le> x div 16" "x div 16 < 16 * 2 ^ j" by (auto simp: power_add)
    from 1(1) [OF True this] True j show ?thesis
      by (simp add: logEstDown4.simps [of x] div_mult2_eq [symmetric] power_add mult.commute)
  next
    case False
    have "(1::nat) \<le> 2 ^ i" by simp
    then have "8 \<le> x" using 1(2) by linarith
    with False 1(2,3) logEstDown1_eq [of x i y] show ?thesis by (simp add: logEstDown4.simps [of x])
  qed
qed

lemma LogEst_eq:
  assumes "8 * 2 ^ i \<le> x" "x < 16 * 2 ^ i"
  shows "sqlite3LogEst x = logEstTable ! (x div 2 ^ i - 8) + 30 + 10 * int i"
    and "8 \<le> x div 2 ^ i" "x div 2 ^ i < 16" "8 \<le> x"
proof -
  have "(1::nat) \<le> 2 ^ i" by simp
  then show x: "8 \<le> x" using assms(1) by linarith
  show m: "8 \<le> x div 2 ^ i" "x div 2 ^ i < 16"
    using assms by (auto simp: less_eq_div_iff_mult_less_eq div_less_iff_less_mult)
  then have "x div 2 ^ i mod 8 = x div 2 ^ i - 8" by (simp add: le_mod_geq)
  then show "sqlite3LogEst x = logEstTable ! (x div 2 ^ i - 8) + 30 + 10 * int i"
    using logEstDown_eq [OF assms, of 40] x
    by (simp add: sqlite3LogEst_def Let_def split: prod.splits)
qed

lemma LogEst_scale:
  fixes x :: nat
  assumes "8 \<le> x"
  obtains i where "8 * 2 ^ i \<le> x" "x < 16 * 2 ^ i"
proof -
  obtain i where "2 ^ i \<le> x div 8" "x div 8 < 2 ^ (i + 1)"
    using ex_power_ivl1 [of 2 "x div 8"] div_le_mono [OF assms, of 8] by auto
  then show thesis by (intro that [of i]) auto
qed

lemma LogEst_small: "sqlite3LogEst 0 = 0" "sqlite3LogEst 1 = 0" "sqlite3LogEst 2 = 10" "sqlite3LogEst 3 = 16"
  "sqlite3LogEst 4 = 20" "sqlite3LogEst 5 = 23" "sqlite3LogEst 6 = 26" "sqlite3LogEst 7 = 28"
  by (simp_all add: sqlite3LogEst_def logEstUp.simps logEstTable_def)

lemma logEstTable_nth:
  assumes "8 \<le> m" "m < 16"
  obtains t where "logEstTable ! (m - 8) = int t" "t \<le> 9" "2 ^ (t + 30) \<le> 2 * m ^ 10"
    "(m + 1) ^ 10 \<le> 2 ^ (t + 32)"
proof -
  from assms have "m \<in> {8, 9, 10, 11, 12, 13, 14, 15}" unfolding insert_iff by linarith
  then show thesis
    using that [of "[0, 2, 3, 5, 6, 7, 8, 9] ! (m - 8)"]
    by (elim insertE emptyE) (simp_all add: logEstTable_def)
qed

lemma logEstTable_mono: "i \<le> j \<Longrightarrow> j < 8 \<Longrightarrow> logEstTable ! i \<le> logEstTable ! j"
  by (rule sorted_nth_mono) (simp_all add: logEstTable_def)


section \<open>Correctness\<close>

text \<open>C32. Overflow-checked arithmetic is exact: for all 64-bit signed arguments \<open>sqlite3AddInt64\<close>,
  \<open>sqlite3SubInt64\<close> and \<open>sqlite3MulInt64\<close> compute without any signed overflow of their own, report
  an overflow exactly when the mathematical result does not fit in 64 bits, store the result if
  it fits and leave \<open>*pA\<close> unchanged if not.\<close>

theorem int64_arithmetic_exact:
  assumes "is_i64 a" "is_i64 b"
  shows "sqlite3AddInt64 a b = Some (\<not> is_i64 (a + b), if is_i64 (a + b) then a + b else a)
    \<and> sqlite3SubInt64 a b = Some (\<not> is_i64 (a - b), if is_i64 (a - b) then a - b else a)
    \<and> sqlite3MulInt64 a b = Some (\<not> is_i64 (a * b), if is_i64 (a * b) then a * b else a)"
  using AddInt64_eq [OF assms] SubInt64_eq [OF assms] MulInt64_eq [OF assms] by (intro conjI)

lemma int64_arithmetic_exact_witness:
  "sqlite3MulInt64 (- (2 ^ 62)) 2 = Some (False, - (2 ^ 63)) \<and> sqlite3MulInt64 (- (2 ^ 62)) (- 2) = Some (True, - (2 ^ 62))
   \<and> sqlite3SubInt64 0 (- (2 ^ 63)) = Some (True, 0)"
  using int64_arithmetic_exact [of "- (2 ^ 62)" 2] int64_arithmetic_exact [of "- (2 ^ 62)" "- 2"]
    int64_arithmetic_exact [of 0 "- (2 ^ 63)"]
  by (simp add: is_i64_def)

lemma pow_mono_nat: "a \<le> b \<Longrightarrow> a ^ n \<le> b ^ n" for a b n :: nat
  by (rule power_mono) simp_all

lemma LogEst_accurate_big:
  assumes "8 \<le> x"
  shows "\<exists>y. sqlite3LogEst x = int y \<and> 2 ^ y \<le> 2 * x ^ 10 \<and> x ^ 10 < 2 ^ (y + 2)"
proof -
  obtain i where i: "8 * 2 ^ i \<le> x" "x < 16 * 2 ^ i" using assms by (rule LogEst_scale)
  let ?m = "x div 2 ^ i"
  note le = LogEst_eq [OF i]
  obtain t where t: "logEstTable ! (?m - 8) = int t" "2 ^ (t + 30) \<le> 2 * ?m ^ 10" "(?m + 1) ^ 10 \<le> 2 ^ (t + 32)"
    using logEstTable_nth [OF le(2,3)] by metis
  have lo: "?m * 2 ^ i \<le> x" by simp
  have hi: "x < (?m + 1) * 2 ^ i" by (simp add: dividend_less_div_times)
  have "(2::nat) ^ (t + 30 + 10 * i) = 2 ^ (t + 30) * (2 ^ i) ^ 10"
    by (simp add: power_add power_mult [symmetric] mult.commute)
  also have "\<dots> \<le> 2 * ?m ^ 10 * (2 ^ i) ^ 10" using t(2) by (intro mult_right_mono) auto
  also have "\<dots> = 2 * (?m * 2 ^ i) ^ 10" by (simp add: power_mult_distrib)
  also have "\<dots> \<le> 2 * x ^ 10" using pow_mono_nat [OF lo, of 10] by simp
  finally have 1: "2 ^ (t + 30 + 10 * i) \<le> 2 * x ^ 10" .
  have "x ^ 10 < ((?m + 1) * 2 ^ i) ^ 10" using hi by (intro power_strict_mono) auto
  also have "\<dots> = (?m + 1) ^ 10 * (2 ^ i) ^ 10" by (rule power_mult_distrib)
  also have "\<dots> \<le> 2 ^ (t + 32) * (2 ^ i) ^ 10" using t(3) by (intro mult_right_mono) auto
  also have "\<dots> = 2 ^ (t + 30 + 10 * i + 2)"
    by (simp add: power_add power_mult [symmetric] mult.commute)
  finally have 2: "x ^ 10 < 2 ^ (t + 30 + 10 * i + 2)" .
  from 1 2 le(1) t(1) show ?thesis by (intro exI [of _ "t + 30 + 10 * i"]) simp
qed


lemma LogEst_mono_big:
  assumes "8 \<le> x" "x \<le> x'"
  shows "sqlite3LogEst x \<le> sqlite3LogEst x'"
proof -
  obtain i where i: "8 * 2 ^ i \<le> x" "x < 16 * 2 ^ i" using assms(1) by (rule LogEst_scale)
  obtain j where j: "8 * 2 ^ j \<le> x'" "x' < 16 * 2 ^ j" using order_trans [OF assms] by (rule LogEst_scale)
  note li = LogEst_eq [OF i] and lj = LogEst_eq [OF j]
  have "(2::nat) ^ i < 2 ^ (j + 1)" using i(1) j(2) assms(2) by simp
  then have "i < j + 1" by (rule power_less_imp_less_exp [rotated]) simp
  show ?thesis
  proof (cases "i = j")
    case True
    have "x div 2 ^ i \<le> x' div 2 ^ i" using assms(2) by (rule div_le_mono)
    then have "logEstTable ! (x div 2 ^ i - 8) \<le> logEstTable ! (x' div 2 ^ i - 8)"
      using lj(3) True by (intro logEstTable_mono) auto
    with True li(1) lj(1) show ?thesis by simp
  next
    case False
    obtain t where "logEstTable ! (x div 2 ^ i - 8) = int t" "t \<le> 9" using logEstTable_nth [OF li(2,3)] by metis
    moreover obtain u where "logEstTable ! (x' div 2 ^ j - 8) = int u" using logEstTable_nth [OF lj(2,3)] by metis
    ultimately show ?thesis using False \<open>i < j + 1\<close> li(1) lj(1) by simp
  qed
qed

lemma small_cases: "x < 8 \<Longrightarrow> x \<in> {0, 1, 2, 3, 4, 5, 6, 7}" for x :: nat
  unfolding insert_iff by linarith

lemma LogEst_8: "sqlite3LogEst 8 = 30"
  using LogEst_eq(1) [of 0 8] by (simp add: logEstTable_def)

lemma LogEst_mono_small: "x < 8 \<Longrightarrow> x \<le> y \<Longrightarrow> y \<le> 8 \<Longrightarrow> sqlite3LogEst x \<le> sqlite3LogEst y"
proof -
  assume a: "x < 8" "x \<le> y" "y \<le> 8"
  then have "y = 8 \<or> y \<in> {0, 1, 2, 3, 4, 5, 6, 7}" using small_cases [of y] by linarith
  with a small_cases [OF a(1)] show ?thesis
    by (elim disjE insertE emptyE) (simp_all add: LogEst_small LogEst_8 del: One_nat_def)
qed

text \<open>\<open>sqlite3LogEst\<close> approximates ten times the binary logarithm of a positive number: the
  estimate \<open>y\<close> satisfies \<open>y - 1 \<le> 10 * log2 x < y + 2\<close>, it never decreases when its argument grows,
  and it is exact on powers of two.\<close>

theorem sqlite3LogEst_accurate:
  "(0 < x \<longrightarrow> 2 ^ nat (sqlite3LogEst x) \<le> 2 * x ^ 10 \<and> x ^ 10 < 2 ^ (nat (sqlite3LogEst x) + 2))
   \<and> 0 \<le> sqlite3LogEst x \<and> (x \<le> x' \<longrightarrow> sqlite3LogEst x \<le> sqlite3LogEst x')
   \<and> sqlite3LogEst (2 ^ k) = 10 * int k"
proof (intro conjI impI)
  have acc: "0 \<le> sqlite3LogEst x \<and> (0 < x \<longrightarrow> 2 ^ nat (sqlite3LogEst x) \<le> 2 * x ^ 10
      \<and> x ^ 10 < 2 ^ (nat (sqlite3LogEst x) + 2))"
  proof (cases "8 \<le> x")
    case True
    with LogEst_accurate_big [OF True] show ?thesis by auto
  next
    case False
    then have "x \<in> {0, 1, 2, 3, 4, 5, 6, 7}" by (intro small_cases) simp
    then show ?thesis by (elim insertE emptyE) (simp_all add: LogEst_small del: One_nat_def)
  qed
  then show "0 \<le> sqlite3LogEst x" by simp
  show "2 ^ nat (sqlite3LogEst x) \<le> 2 * x ^ 10" "x ^ 10 < 2 ^ (nat (sqlite3LogEst x) + 2)" if "0 < x"
    using acc that by auto
  show "sqlite3LogEst x \<le> sqlite3LogEst x'" if "x \<le> x'"
  proof (cases "8 \<le> x \<or> x' \<le> 8")
    case True
    with that show ?thesis using LogEst_mono_big LogEst_mono_small [of x x'] by (cases "8 \<le> x") auto
  next
    case False
    then have "sqlite3LogEst x \<le> sqlite3LogEst 8" "sqlite3LogEst 8 \<le> sqlite3LogEst x'"
      by (auto intro: LogEst_mono_small LogEst_mono_big)
    then show ?thesis by simp
  qed
  show "sqlite3LogEst (2 ^ k) = 10 * int k"
  proof (cases "k < 3")
    case True
    then have "k \<in> {0, 1, 2}" unfolding insert_iff by linarith
    then show ?thesis by (elim insertE emptyE) (simp_all add: LogEst_small del: One_nat_def)
  next
    case False
    then obtain i where "k = i + 3" by (metis add.commute le_Suc_ex linorder_not_less)
    with LogEst_eq(1) [of i "2 ^ k"] show ?thesis by (simp add: power_add logEstTable_def)
  qed
qed

lemma sqlite3LogEst_accurate_witness: "2 ^ nat (sqlite3LogEst 1000) \<le> (2::nat) * 1000 ^ 10 \<and> sqlite3LogEst 3 \<le> sqlite3LogEst 1000"
  using sqlite3LogEst_accurate [of 1000 1000 0] sqlite3LogEst_accurate [of 3 1000 0] by simp


lemma logEstAddTable_range: "i < 32 \<Longrightarrow> 2 \<le> logEstAddTable ! i \<and> logEstAddTable ! i \<le> 10"
proof -
  have "list_all (\<lambda>v. 2 \<le> v \<and> v \<le> 10) logEstAddTable" "length logEstAddTable = 32"
    by (simp_all add: logEstAddTable_def)
  then show "i < 32 \<Longrightarrow> ?thesis" by (simp add: list_all_length)
qed

lemma ten_cases: "r < 10 \<Longrightarrow> r \<in> {0, 1, 2, 3, 4, 5, 6, 7, 8, 9}" for r :: nat
  by (simp add: insert_iff) presburger

text \<open>Sums and back: \<open>sqlite3LogEstAdd\<close> is symmetric and adds between 0 and 10 to the larger
  estimate; \<open>sqlite3LogEstToInt\<close> inverts \<open>sqlite3LogEst\<close> on every estimate from 30 to 609 whose last
  digit is not 1 or 4, and is off by one on the others.\<close>

theorem sqlite3LogEst_inverse:
  assumes "30 \<le> x" "x < 610"
  shows "sqlite3LogEstAdd a b = sqlite3LogEstAdd b a \<and> max a b \<le> sqlite3LogEstAdd a b
    \<and> sqlite3LogEstAdd a b \<le> max a b + 10
    \<and> sqlite3LogEst (sqlite3LogEstToInt x) =
      int x + (if x mod 10 = 1 then - 1 else if x mod 10 = 4 then 1 else 0)"
proof (intro conjI)
  show "sqlite3LogEstAdd a b = sqlite3LogEstAdd b a" by (simp add: sqlite3LogEstAdd_def)
  show "max a b \<le> sqlite3LogEstAdd a b" "sqlite3LogEstAdd a b \<le> max a b + 10"
    using logEstAddTable_range [of "nat (a - b)"] logEstAddTable_range [of "nat (b - a)"]
    by (auto simp: sqlite3LogEstAdd_def nat_less_iff)
  define i where "i = x div 10 - 3"
  define r where "r = x mod 10"
  have x: "x = 10 * (i + 3) + r" "r < 10" "i \<le> 57" "x div 10 = i + 3" "x mod 10 = r"
    using assms by (auto simp: i_def r_def)
  define n where "n = (if r \<ge> 5 then r - 2 else if r \<ge> 1 then r - 1 else r)"
  have n: "n < 8" using x(2) unfolding n_def by presburger
  have "(n + 8) * 2 ^ i \<le> 16 * 2 ^ 57"
    using n x(3) by (intro mult_mono power_increasing) auto
  also have "\<dots> < (2::nat) ^ 64" by simp
  finally have "(n + 8) * 2 ^ i < 2 ^ 64" .
  then have "sqlite3LogEstToInt x = (n + 8) * 2 ^ i"
    using x(3) by (simp add: sqlite3LogEstToInt_def x(4,5) n_def [symmetric])
  moreover have "sqlite3LogEst ((n + 8) * 2 ^ i) = logEstTable ! n + 30 + 10 * int i"
    using LogEst_eq(1) [of i "(n + 8) * 2 ^ i"] n by simp
  moreover have "logEstTable ! n = int r + (if r = 1 then - 1 else if r = 4 then 1 else 0)"
    using ten_cases [OF x(2)] by (elim insertE emptyE) (simp_all add: n_def logEstTable_def)
  ultimately show "sqlite3LogEst (sqlite3LogEstToInt x) =
      int x + (if x mod 10 = 1 then - 1 else if x mod 10 = 4 then 1 else 0)"
    using x(1,5) by simp
qed

lemma sqlite3LogEst_inverse_witness: "sqlite3LogEst (sqlite3LogEstToInt 99) = 99 \<and> sqlite3LogEstAdd 33 30 \<le> 43"
  using sqlite3LogEst_inverse [of 99 33 30] by simp

end
