(* ===== verification/NumText.thy ===== *)
theory NumText
  imports CharTables IntArith
begin

text \<open>
  Reading integers from text (util.c): \<open>sqlite3Atoi64\<close> for counted strings in any of the three text
  encodings, and \<open>sqlite3DecOrHexToI64\<close>, \<open>sqlite3GetInt32\<close> and \<open>sqlite3Atoi\<close> for zero-terminated
  strings.

  In \<open>sqlite3Atoi64\<close> a pointer is an index into the buffer \<open>z\<close> and a read outside the buffer is
  \<^term>\<open>None\<close>. The encodings are 1 for UTF-8, 2 for UTF-16le and 3 for UTF-16be.
\<close>

section \<open>sqlite3Atoi64\<close>

definition rd :: "u8 list \<Rightarrow> nat \<Rightarrow> u8 option" where
  "rd z i = (if i < length z then Some (z ! i) else None)"

text \<open>\<open>while( zNum<zEnd && P(*zNum) ) zNum+=incr;\<close>\<close>

function skipRun :: "(u8 \<Rightarrow> bool) \<Rightarrow> u8 list \<Rightarrow> nat \<Rightarrow> nat \<Rightarrow> nat \<Rightarrow> nat option" where
  "skipRun P z incr zEnd p =
     (if p < zEnd \<and> 0 < incr then do {
        c \<leftarrow> rd z p;
        if P c then skipRun P z incr zEnd (p + incr) else Some p
      } else Some p)"
  by pat_completeness auto
termination by (relation "measure (\<lambda>(P, z, incr, zEnd, p). zEnd - p)") auto

text \<open>
  \<open>for(i=0; &zNum[i]<zEnd && (c=zNum[i])>='0' && c<='9'; i+=incr) u = u*10 + c - '0';\<close>
\<close>

function digitRun :: "u8 list \<Rightarrow> nat \<Rightarrow> nat \<Rightarrow> nat \<Rightarrow> nat \<Rightarrow> u64 \<Rightarrow> (nat \<times> u64) option" where
  "digitRun z incr zEnd p i u =
     (if p + i < zEnd \<and> 0 < incr then do {
        c \<leftarrow> rd z (p + i);
        if c \<ge> 48 \<and> c \<le> 57 then digitRun z incr zEnd p (i + incr) (u * 10 + ucast c - 48)
        else Some (i, u)
      } else Some (i, u))"
  by pat_completeness auto
termination by (relation "measure (\<lambda>(z, incr, zEnd, p, i, u). zEnd - (p + i))") auto

declare skipRun.simps [simp del] digitRun.simps [simp del]

text \<open>The digits of \<open>922337203685477580\<close>.\<close>

definition pow63 :: "u8 list" where
  "pow63 = [57, 50, 50, 51, 51, 55, 50, 48, 51, 54, 56, 53, 52, 55, 55, 53, 56, 48]"

fun cmpLoop :: "u8 list \<Rightarrow> nat \<Rightarrow> nat \<Rightarrow> u8 list \<Rightarrow> int option" where
  "cmpLoop z p incr [] = Some 0"
| "cmpLoop z p incr (d # ds) = do {
     c \<leftarrow> rd z p;
     let c = (uint c - uint d) * 10;
     if c = 0 then cmpLoop z (p + incr) incr ds else Some c
   }"

definition compare2pow63 :: "u8 list \<Rightarrow> nat \<Rightarrow> nat \<Rightarrow> int option" where
  "compare2pow63 z p incr = do {
     c \<leftarrow> cmpLoop z p incr pow63;
     if c = 0 then do { d \<leftarrow> rd z (p + 18 * incr); Some (uint d - 56) } else Some c
   }"

text \<open>\<open>for(i=3-enc; i<length && zNum[i]==0; i+=2){}\<close>\<close>

function highBytes :: "u8 list \<Rightarrow> nat \<Rightarrow> nat \<Rightarrow> nat option" where
  "highBytes z n i =
     (if i < n then do { c \<leftarrow> rd z i; if c = 0 then highBytes z n (i + 2) else Some i } else Some i)"
  by pat_completeness auto
termination by (relation "measure (\<lambda>(z, n, i). n - i)") auto

declare highBytes.simps [simp del]

text \<open>The return value and \<open>*pNum\<close>. \<open>XOR\<close> with 1 exchanges an even number with the next odd one.\<close>

definition atoi64Body :: "u8 list \<Rightarrow> nat \<Rightarrow> nat \<Rightarrow> nat \<Rightarrow> bool \<Rightarrow> (nat \<times> int) option" where
  "atoi64Body z incr zEnd zNum nonNum = do {
     zNum \<leftarrow> skipRun sqlite3Isspace z incr zEnd zNum;
     (neg, zNum) \<leftarrow>
       (if zNum < zEnd then do {
          c \<leftarrow> rd z zNum;
          Some (if c = 45 then (True, zNum + incr)
                else if c = 43 then (False, zNum + incr) else (False, zNum))
        } else Some (False, zNum));
     let zStart = zNum;
     zNum \<leftarrow> skipRun (\<lambda>c. c = 48) z incr zEnd zNum;
     (i, u) \<leftarrow> digitRun z incr zEnd zNum 0 0;
     let pNum = (if uint u > LARGEST_INT64 then (if neg then SMALLEST_INT64 else LARGEST_INT64)
                 else if neg then - uint u else uint u);
     if zNum + i < zEnd \<or> i = 0 \<and> zStart = zNum \<or> i > 19 * incr \<or> nonNum then Some (1, pNum)
     else if i < 19 * incr then Some (0, pNum)
     else do {
       c \<leftarrow> compare2pow63 z zNum incr;
       Some (if c < 0 then 0 else if c > 0 then 1 else if neg then 0 else 2, pNum)
     }
   }"

definition sqlite3Atoi64 :: "u8 list \<Rightarrow> nat \<Rightarrow> nat \<Rightarrow> (nat \<times> int) option" where
  "sqlite3Atoi64 z len enc =
     (if enc = 1 then atoi64Body z 1 len 0 False
      else do {
        i \<leftarrow> highBytes z len (3 - enc);
        atoi64Body z 2 (if even i then i + 1 else i - 1) (enc mod 2) (i < len)
      })"


section \<open>The bytes a loop sees\<close>

function stride :: "u8 list \<Rightarrow> nat \<Rightarrow> nat \<Rightarrow> nat \<Rightarrow> u8 list" where
  "stride z incr zEnd p =
     (if p < zEnd \<and> p < length z \<and> 0 < incr then z ! p # stride z incr zEnd (p + incr) else [])"
  by pat_completeness auto
termination by (relation "measure (\<lambda>(z, incr, zEnd, p). zEnd - p)") auto

declare stride.simps [simp del]

text \<open>No step of the walk leaves the buffer.\<close>

definition inb :: "u8 list \<Rightarrow> nat \<Rightarrow> nat \<Rightarrow> nat \<Rightarrow> bool" where
  "inb z incr zEnd p \<longleftrightarrow> 0 < incr \<and> (\<forall>k. p + k * incr < zEnd \<longrightarrow> p + k * incr < length z)"

lemma inb_step: "inb z incr zEnd p \<Longrightarrow> inb z incr zEnd (p + incr)"
  unfolding inb_def by (metis add.assoc add.commute mult_Suc)

lemma inb_steps: "inb z incr zEnd p \<Longrightarrow> inb z incr zEnd (p + n * incr)"
  by (induction n) (auto simp: add.assoc [symmetric] add.commute dest: inb_step)

lemma inb_rd: "inb z incr zEnd p \<Longrightarrow> p < zEnd \<Longrightarrow> p < length z \<and> 0 < incr"
  unfolding inb_def by (metis add_0_right mult_0)

lemma stride_cases:
  assumes "inb z incr zEnd p"
  shows "p < zEnd \<Longrightarrow> stride z incr zEnd p = z ! p # stride z incr zEnd (p + incr) \<and> rd z p = Some (z ! p)"
    and "\<not> p < zEnd \<Longrightarrow> stride z incr zEnd p = []"
  using inb_rd [OF assms] by (auto simp: stride.simps [of z incr zEnd p] rd_def)

lemma stride_Nil_iff: "inb z incr zEnd p \<Longrightarrow> stride z incr zEnd p = [] \<longleftrightarrow> \<not> p < zEnd"
  using stride_cases [of z incr zEnd p] by (cases "p < zEnd") auto

lemma skipRun_stride:
  "inb z incr zEnd p \<Longrightarrow>
   (let n = length (takeWhile P (stride z incr zEnd p)) in
    skipRun P z incr zEnd p = Some (p + n * incr)
    \<and> stride z incr zEnd (p + n * incr) = dropWhile P (stride z incr zEnd p))"
proof (induction P z incr zEnd p rule: skipRun.induct)
  case (1 P z incr zEnd p)
  note c = stride_cases [OF 1(2)] inb_rd [OF 1(2)]
  show ?case
  proof (cases "p < zEnd \<and> P (z ! p)")
    case True
    with 1(1) [of "z ! p"] c inb_step [OF 1(2)] show ?thesis
      by (simp add: skipRun.simps [of P z incr zEnd p] Let_def add.assoc)
  next
    case False
    with c show ?thesis by (cases "p < zEnd") (simp_all add: skipRun.simps [of P z incr zEnd p] Let_def)
  qed
qed


text \<open>The number a list of digits denotes.\<close>

definition decval :: "u8 list \<Rightarrow> nat" where
  "decval ds = fold (\<lambda>d v. v * 10 + (unat d - 48)) ds 0"

definition decval_from :: "nat \<Rightarrow> u8 list \<Rightarrow> nat" where
  "decval_from v ds = fold (\<lambda>d v. v * 10 + (unat d - 48)) ds v"

lemma decval_from_simps [simp]: "decval_from v [] = v" "decval_from v (d # ds) = decval_from (v * 10 + (unat d - 48)) ds"
  by (simp_all add: decval_from_def)

lemma decval_from_eq: "decval_from v ds = v * 10 ^ length ds + decval_from 0 ds"
proof (induction ds arbitrary: v)
  case (Cons d ds)
  have a: "decval_from w (d # ds) = (w * 10 + (unat d - 48)) * 10 ^ length ds + decval_from 0 ds" for w
    using Cons.IH [of "w * 10 + (unat d - 48)"] by simp
  show ?case unfolding a by (simp add: algebra_simps)
qed simp

lemma decval_Cons: "decval (d # ds) = (unat d - 48) * 10 ^ length ds + decval ds"
  using decval_from_eq [of "unat d - 48" ds] by (simp add: decval_def decval_from_def)

lemma decval_Nil [simp]: "decval [] = 0"
  by (simp add: decval_def)

abbreviation dig :: "u8 \<Rightarrow> bool" where
  "dig c \<equiv> c \<ge> 48 \<and> c \<le> 57"

lemma dig_bound: "dig c \<Longrightarrow> unat c - 48 \<le> 9 \<and> 48 \<le> unat c"
  by (auto simp: word_le_nat_alt)

lemma decval_less: "list_all dig ds \<Longrightarrow> decval ds < 10 ^ length ds"
proof (induction ds)
  case (Cons d ds)
  have "(unat d - 48) * 10 ^ length ds \<le> 9 * 10 ^ length ds"
    using Cons.prems dig_bound [of d] by (intro mult_right_mono) auto
  moreover have "decval ds < 10 ^ length ds" using Cons by simp
  ultimately show ?case unfolding decval_Cons length_Cons power_Suc by linarith
qed simp

lemma decval_dropzeros: "decval (dropWhile (\<lambda>c. c = 48) ds) = decval ds"
  by (induction ds) (auto simp: decval_Cons)

lemma decval_ge: "list_all dig ds \<Longrightarrow> ds \<noteq> [] \<Longrightarrow> hd ds \<noteq> 48 \<Longrightarrow> 10 ^ (length ds - 1) \<le> decval ds"
proof (cases ds)
  case (Cons d es)
  assume "list_all dig ds" "hd ds \<noteq> 48"
  then have "unat d \<noteq> 48" "48 \<le> unat d"
    using Cons dig_bound [of d] by (auto simp: word_unat_eq_iff)
  then have "1 * 10 ^ length es \<le> (unat d - 48) * 10 ^ length es" by (intro mult_right_mono) auto
  then show ?thesis unfolding Cons decval_Cons length_Cons diff_Suc_1 by linarith
qed simp

lemma digitRun_stride:
  "inb z incr zEnd (p + i) \<Longrightarrow>
   (let ds = takeWhile dig (stride z incr zEnd (p + i)) in
    digitRun z incr zEnd p i u = Some (i + length ds * incr, of_nat (decval_from (unat u) ds)))"
proof (induction z incr zEnd p i u rule: digitRun.induct)
  case (1 z incr zEnd p i u)
  note c = stride_cases [OF 1(2)] inb_rd [OF 1(2)]
  show ?case
  proof (cases "p + i < zEnd \<and> dig (z ! (p + i))")
    case True
    let ?c = "z ! (p + i)"
    have u: "of_nat (decval_from (unat (u * 10 + ucast ?c - 48)) ds) =
        (of_nat (decval_from (unat u * 10 + (unat ?c - 48)) ds) :: u64)" for ds
    proof -
      have "of_nat (unat ?c - 48) = (ucast ?c - 48 :: u64)"
        using dig_bound [of ?c] True by (simp add: of_nat_diff)
      then show ?thesis
        by (simp add: decval_from_eq [of "unat (u * 10 + ucast ?c - 48)"] decval_from_eq [of "unat u * 10 + (unat ?c - 48)"]
          add_diff_eq)
    qed
    have "inb z incr zEnd (p + (i + incr))" using inb_step [OF 1(2)] by (simp add: add.assoc)
    from 1(1) [of ?c, OF _ _ _ this] True c show ?thesis
      by (simp add: digitRun.simps [of z incr zEnd p i] Let_def u add.assoc)
  next
    case False
    with c show ?thesis by (cases "p + i < zEnd") (auto simp: digitRun.simps [of z incr zEnd p i] Let_def)
  qed
qed


section \<open>Comparing with 2^63\<close>

lemma rd_stride: "inb z incr zEnd p \<Longrightarrow> k < length (stride z incr zEnd p) \<Longrightarrow>
   rd z (p + k * incr) = Some (stride z incr zEnd p ! k)"
proof (induction k arbitrary: p)
  case 0
  then show ?case using stride_cases [OF 0(1)] by (cases "p < zEnd") auto
next
  case (Suc k)
  from Suc.prems have p: "p < zEnd" using stride_cases [OF Suc.prems(1)] by (cases "p < zEnd") auto
  with Suc.IH [OF inb_step [OF Suc.prems(1)]] Suc.prems stride_cases [OF Suc.prems(1)] show ?case
    by (simp add: add.assoc)
qed

fun cmpList :: "u8 list \<Rightarrow> u8 list \<Rightarrow> int" where
  "cmpList (c # cs) (d # ds) = (if c \<noteq> d then (uint c - uint d) * 10 else cmpList cs ds)"
| "cmpList cs ds = 0"

lemma cmpLoop_stride:
  "inb z incr zEnd p \<Longrightarrow> length ds \<le> length (stride z incr zEnd p) \<Longrightarrow>
   cmpLoop z p incr ds = Some (cmpList (stride z incr zEnd p) ds)"
proof (induction ds arbitrary: p)
  case (Cons d ds)
  then have "p < zEnd" using stride_cases [OF Cons.prems(1)] by (cases "p < zEnd") auto
  with stride_cases [OF Cons.prems(1)] Cons.IH [OF inb_step [OF Cons.prems(1)]] Cons.prems(2) show ?case
    by (auto simp: word_uint_eq_iff)
qed simp

text \<open>Comparing digit by digit is comparing the numbers.\<close>

lemma cmpList_sgn:
  "list_all dig cs \<Longrightarrow> list_all dig ds \<Longrightarrow> length cs = length ds \<Longrightarrow>
   sgn (cmpList cs ds) = sgn (int (decval cs) - int (decval ds))"
proof (induction cs ds rule: cmpList.induct)
  case (1 c cs d ds)
  have b: "decval cs < 10 ^ length ds" "decval ds < 10 ^ length ds"
    using decval_less [of cs] decval_less [of ds] 1 by auto
  show ?case
  proof (cases "c = d")
    case True
    with 1 show ?thesis by (simp add: decval_Cons)
  next
    case False
    have dg: "48 \<le> unat c" "48 \<le> unat d" using 1 dig_bound by auto
    have lt: "decval (x # xs) < decval (y # ys)"
      if "unat x < unat y" "48 \<le> unat x" "decval xs < 10 ^ n" "length xs = n" "length ys = n" for x y xs ys n
    proof -
      have "(unat x - 48 + 1) * 10 ^ n \<le> (unat y - 48) * 10 ^ n" using that by (intro mult_right_mono) auto
      with that show ?thesis unfolding decval_Cons distrib_right by simp
    qed
    have "unat c < unat d \<or> unat d < unat c" using False by (auto simp: word_unat_eq_iff)
    then show ?thesis
    proof
      assume l: "unat c < unat d"
      then have "uint c < uint d" by (simp only: word_less_def [symmetric] word_less_nat_alt)
      with lt [OF l dg(1) b(1), of ds] 1(4) False show ?thesis by (simp add: sgn_if)
    next
      assume l: "unat d < unat c"
      then have "uint d < uint c" by (simp only: word_less_def [symmetric] word_less_nat_alt)
      with lt [OF l dg(2) b(2), of cs] 1(4) False show ?thesis by (simp add: sgn_if)
    qed
  qed
qed auto

lemma cmpList_append:
  "length cs = length ds \<Longrightarrow> cmpList (cs @ cs') ds = cmpList cs ds"
  by (induction cs ds rule: cmpList.induct) (auto split: list.splits)


lemma compare2pow63_stride:
  assumes "inb z incr zEnd p" "stride z incr zEnd p = cs" "length cs = 19" "list_all dig cs"
  shows "\<exists>c. compare2pow63 z p incr = Some c \<and> sgn c = sgn (int (decval cs) - 2 ^ 63)"
proof -
  obtain as d where cs: "cs = as @ [d]" "length as = 18"
    using assms(3) by (cases cs rule: rev_cases) auto
  have len: "length pow63 = 18" by (simp add: pow63_def)
  have c: "cmpLoop z p incr pow63 = Some (cmpList as pow63)"
    using cmpLoop_stride [OF assms(1), of pow63] assms(2) cs len by (simp add: cmpList_append)
  have d: "rd z (p + 18 * incr) = Some d" "dig d"
    using rd_stride [OF assms(1), of 18] assms cs nth_append_length [of as d "[]"] by auto
  have as: "list_all dig as" using assms(4) cs by simp
  have p63: "list_all dig pow63" "decval pow63 = 922337203685477580"
    by (simp_all add: pow63_def decval_def)
  have snoc: "decval (as @ [d]) = decval as * 10 + (unat d - 48)" by (simp add: decval_def)
  have ud: "48 \<le> unat d" "unat d \<le> 57" using d(2) by (auto simp: word_le_nat_alt)
  have sg: "sgn (cmpList as pow63) = sgn (int (decval as) - 922337203685477580)"
    using cmpList_sgn [OF as p63(1)] cs(2) len p63(2) by simp
  show ?thesis
  proof (cases "cmpList as pow63 = 0")
    case True
    then have "decval as = 922337203685477580" using sg by (simp add: sgn_eq_0_iff)
    moreover have "uint d = int (unat d)" by simp
    ultimately have "int (decval cs) - 2 ^ 63 = uint d - 56" using ud unfolding cs(1) snoc by simp
    with True c d show ?thesis by (simp add: compare2pow63_def)
  next
    case False
    then have "decval as \<noteq> 922337203685477580" using sg by (metis diff_self of_nat_numeral sgn_0 sgn_eq_0_iff)
    moreover obtain e where "unat d - 48 = e" "e \<le> 9" using ud by auto
    ultimately have "sgn (int (decval as) - 922337203685477580) = sgn (int (decval cs) - 2 ^ 63)"
      unfolding cs(1) snoc by (auto simp: sgn_if)
    with False c sg show ?thesis by (simp add: compare2pow63_def)
  qed
qed

section \<open>What sqlite3Atoi64 returns\<close>

text \<open>The specification: the code and value for a text of white space, a sign, digits and a rest.\<close>

definition atoi_code :: "bool \<Rightarrow> u8 list \<Rightarrow> u8 list \<Rightarrow> nat" where
  "atoi_code neg ds rest =
     (if rest \<noteq> [] \<or> ds = [] then 1
      else if decval ds < 2 ^ 63 then 0
      else if decval ds = 2 ^ 63 then (if neg then 0 else 2) else 1)"

definition text_form :: "u8 list \<Rightarrow> bool \<Rightarrow> u8 list \<Rightarrow> u8 list \<Rightarrow> bool" where
  "text_form t neg ds rest \<longleftrightarrow>
     (let t1 = dropWhile sqlite3Isspace t;
          t2 = (if t1 \<noteq> [] \<and> (hd t1 = 45 \<or> hd t1 = 43) then tl t1 else t1) in
      neg = (t1 \<noteq> [] \<and> hd t1 = 45) \<and> ds = takeWhile dig t2 \<and> rest = dropWhile dig t2)"

lemma atoi_digits:
  assumes inb: "inb z incr zEnd p" and t: "stride z incr zEnd p = ds @ rest"
    and ds: "list_all dig ds" and rest: "rest = [] \<or> \<not> dig (hd rest)"
  shows "\<exists>q n. skipRun (\<lambda>c. c = 48) z incr zEnd p = Some q
    \<and> digitRun z incr zEnd q 0 0 = Some (n * incr, of_nat (decval ds))
    \<and> (q + n * incr < zEnd \<longleftrightarrow> rest \<noteq> []) \<and> (n = 0 \<and> p = q \<longleftrightarrow> ds = [])
    \<and> (n \<le> 19 \<longrightarrow> decval ds < 10 ^ n) \<and> (0 < n \<longrightarrow> 10 ^ (n - 1) \<le> decval ds)
    \<and> (n = 19 \<and> rest = [] \<longrightarrow> (\<exists>c. compare2pow63 z q incr = Some c \<and> sgn c = sgn (int (decval ds) - 2 ^ 63)))"
proof -
  let ?P = "\<lambda>c::u8. c = 48" and ?es = "dropWhile (\<lambda>c. c = 48) ds"
  define k where "k = length (takeWhile ?P (ds @ rest))"
  define q where "q = p + k * incr"
  have i0: "0 < incr" using inb by (simp add: inb_def)
  have es: "list_all dig ?es" using ds set_dropWhileD [of _ _ ds] by (fastforce simp: list_all_iff)
  have r48: "dropWhile ?P rest = rest" "takeWhile ?P rest = []" using rest by (cases rest; auto)+
  have dr: "dropWhile ?P (ds @ rest) = ?es @ rest"
    using r48 by (induction ds) auto
  have q: "skipRun ?P z incr zEnd p = Some q" "stride z incr zEnd q = ?es @ rest"
    using skipRun_stride [OF inb, of ?P] t dr by (simp_all add: Let_def q_def k_def)
  have iq: "inb z incr zEnd q" unfolding q_def by (rule inb_steps [OF inb])
  have "takeWhile dig rest = []" using rest by (cases rest) auto
  then have tw: "takeWhile dig (?es @ rest) = ?es"
    using es by (simp add: takeWhile_append2 list_all_iff)
  let ?n = "length ?es"
  have dg: "digitRun z incr zEnd q 0 0 = Some (?n * incr, of_nat (decval ds))"
    using digitRun_stride [of z incr zEnd q 0 0] iq q(2) tw decval_dropzeros [of ds]
    by (simp add: Let_def decval_def decval_from_def)
  have st: "stride z incr zEnd (q + ?n * incr) = rest"
  proof -
    have dw: "dropWhile dig (?es @ rest) = rest"
      using takeWhile_dropWhile_id [of dig "?es @ rest"] unfolding tw by (simp only: same_append_eq)
    from skipRun_stride [OF iq, of "\<lambda>c. dig c"] show ?thesis unfolding Let_def q(2) tw dw by (rule conjunct2)
  qed
  have "q + ?n * incr < zEnd \<longleftrightarrow> rest \<noteq> []"
    using stride_Nil_iff [OF inb_steps [OF iq], of ?n] st by auto
  moreover have "?n = 0 \<and> p = q \<longleftrightarrow> ds = []"
    using i0 r48 by (cases ds) (auto simp: q_def k_def)
  moreover have "decval ds < 10 ^ ?n" using decval_less [OF es] by (simp add: decval_dropzeros)
  moreover have "0 < ?n \<longrightarrow> 10 ^ (?n - 1) \<le> decval ds"
    using decval_ge [OF es] hd_dropWhile [of ?P ds] by (auto simp: decval_dropzeros)
  moreover have "?n = 19 \<and> rest = [] \<longrightarrow> (\<exists>c. compare2pow63 z q incr = Some c \<and> sgn c = sgn (int (decval ds) - 2 ^ 63))"
    using compare2pow63_stride [OF iq _ _ es] q(2) by (auto simp: decval_dropzeros)
  ultimately show ?thesis using q(1) dg by blast
qed


lemma body_spec:
  assumes inb: "inb z incr zEnd p" and tf: "text_form (stride z incr zEnd p) neg ds rest"
  shows "\<exists>v. atoi64Body z incr zEnd p False = Some (atoi_code neg ds rest, v)
    \<and> (atoi_code neg ds rest = 0 \<longrightarrow> v = (if neg then - int (decval ds) else int (decval ds)))
    \<and> (atoi_code neg ds rest = 2 \<longrightarrow> v = LARGEST_INT64)"
proof -
  let ?S = "stride z incr zEnd"
  define k where "k = length (takeWhile sqlite3Isspace (?S p))"
  define a where "a = p + k * incr"
  have a: "skipRun sqlite3Isspace z incr zEnd p = Some a" "?S a = dropWhile sqlite3Isspace (?S p)"
    using skipRun_stride [OF inb, of sqlite3Isspace] by (simp_all add: Let_def a_def k_def)
  have ia: "inb z incr zEnd a" unfolding a_def by (rule inb_steps [OF inb])
  define sg where "sg = (?S a \<noteq> [] \<and> (hd (?S a) = 45 \<or> hd (?S a) = 43))"
  define b where "b = (if sg then a + incr else a)"
  have ib: "inb z incr zEnd b" unfolding b_def using ia inb_step by auto
  have sb: "?S b = (if sg then tl (?S a) else ?S a)"
    using stride_cases [OF ia] by (cases "a < zEnd") (auto simp: b_def sg_def)
  have sign: "(if a < zEnd then do { c \<leftarrow> rd z a; Some (if c = 45 then (True, a + incr)
        else if c = 43 then (False, a + incr) else (False, a)) } else Some (False, a)) = Some (neg, b)"
    using stride_cases [OF ia] tf a(2) by (cases "a < zEnd") (auto simp: b_def sg_def text_form_def Let_def)
  have dr: "ds = takeWhile dig (?S b)" "rest = dropWhile dig (?S b)"
    using tf a(2) sb by (auto simp: text_form_def Let_def sg_def)
  have "?S b = ds @ rest" "list_all dig ds" "rest = [] \<or> \<not> dig (hd rest)"
    using dr hd_dropWhile [of dig "?S b"] by (auto simp: list_all_iff dest: set_takeWhileD)
  from atoi_digits [OF ib this] obtain q n where q: "skipRun (\<lambda>c. c = 48) z incr zEnd b = Some q"
    "digitRun z incr zEnd q 0 0 = Some (n * incr, of_nat (decval ds))"
    "q + n * incr < zEnd \<longleftrightarrow> rest \<noteq> []" "n = 0 \<and> b = q \<longleftrightarrow> ds = []"
    "n \<le> 19 \<longrightarrow> decval ds < 10 ^ n" "0 < n \<longrightarrow> 10 ^ (n - 1) \<le> decval ds"
    "n = 19 \<and> rest = [] \<longrightarrow> (\<exists>c. compare2pow63 z q incr = Some c \<and> sgn c = sgn (int (decval ds) - 2 ^ 63))"
    by (elim exE conjE) (rule that)
  define u where "u = (of_nat (decval ds) :: u64)"
  define pn where "pn = (if uint u > LARGEST_INT64 then (if neg then SMALLEST_INT64 else LARGEST_INT64)
                 else if neg then - uint u else uint u)"
  have i0: "0 < incr" using inb by (simp add: inb_def)
  have body: "atoi64Body z incr zEnd p False =
    (if rest \<noteq> [] \<or> ds = [] \<or> n > 19 then Some (1, pn)
     else if n < 19 then Some (0, pn)
     else do { c \<leftarrow> compare2pow63 z q incr;
       Some (if c < 0 then 0 else if c > 0 then 1 else if neg then 0 else 2, pn) })"
    using i0 q(3,4) unfolding atoi64Body_def a(1) bind.bind_lunit sign q(1,2) Let_def prod.case
    by (simp add: u_def pn_def)
  have u: "n \<le> 19 \<Longrightarrow> uint u = int (decval ds)"
  proof -
    assume n: "n \<le> 19"
    then have "(10::nat) ^ n \<le> 10 ^ 19" by (intro power_increasing) auto
    then have "decval ds < 2 ^ 64" using q(5) n by simp
    then show ?thesis by (simp add: u_def unsigned_of_nat take_bit_nat_eq_self)
  qed
  consider (bad) "rest \<noteq> [] \<or> ds = []" | (long) "rest = []" "ds \<noteq> []" "n > 19"
    | (short) "rest = []" "ds \<noteq> []" "n < 19" | (edge) "rest = []" "ds \<noteq> []" "n = 19" by linarith
  then show ?thesis
  proof cases
    case bad
    then show ?thesis by (auto simp: body atoi_code_def)
  next
    case long
    then have "(10::nat) ^ 19 \<le> 10 ^ (n - 1)" by (intro power_increasing) auto
    then have "2 ^ 63 < decval ds" using q(6) long by simp
    with long show ?thesis by (simp add: body atoi_code_def)
  next
    case short
    then have "(10::nat) ^ n \<le> 10 ^ 18" by (intro power_increasing) auto
    then have "decval ds < 2 ^ 63" using q(5) short by simp
    with short u show ?thesis by (simp add: body atoi_code_def pn_def LARGEST_INT64_def)
  next
    case edge
    then obtain c where c: "compare2pow63 z q incr = Some c" "sgn c = sgn (int (decval ds) - 2 ^ 63)"
      using q(7) by auto
    have "c < 0 \<longleftrightarrow> decval ds < 2 ^ 63" "c > 0 \<longleftrightarrow> decval ds > 2 ^ 63"
      using c(2) by (auto simp: sgn_if split: if_splits)
    with edge u c(1) show ?thesis
      by (auto simp: body atoi_code_def pn_def LARGEST_INT64_def SMALLEST_INT64_def)
  qed
qed


section \<open>Encodings\<close>

definition encode_text :: "nat \<Rightarrow> u8 list \<Rightarrow> u8 list" where
  "encode_text enc t =
     (if enc = 1 then t
      else if enc = 2 then concat (map (\<lambda>c. [c, 0]) t) else concat (map (\<lambda>c. [0, c]) t))"

lemma stride_1: "n \<le> length z \<Longrightarrow> p \<le> n \<Longrightarrow> stride z 1 n p = drop p (take n z)"
proof (induction "n - p" arbitrary: p)
  case 0
  then show ?case by (simp add: stride.simps [of z])
next
  case (Suc k)
  then have p: "p < n" "k = n - (p + 1)" by auto
  have "stride z 1 n p = z ! p # stride z 1 n (p + 1)"
    using p Suc.prems by (subst stride.simps) simp
  also have "stride z 1 n (p + 1) = drop (p + 1) (take n z)"
    using p Suc.prems by (intro Suc.hyps(1)) auto
  finally show ?case using p Suc.prems Cons_nth_drop_Suc [of p "take n z"] by simp
qed

lemma inb_1: "n \<le> length z \<Longrightarrow> inb z 1 n p"
  by (simp add: inb_def)

text \<open>A text of two-byte units: \<open>f c\<close> is the unit of \<open>c\<close>, with \<open>c\<close> at position \<open>o\<close> and zero at the other.\<close>

lemma units_length: "\<forall>c. length (f c) = 2 \<Longrightarrow> length (concat (map f t)) = 2 * length t"
  by (induction t) auto

lemma units_nth:
  "\<forall>c. length (f c) = 2 \<Longrightarrow> k < length t \<Longrightarrow> o' < 2 \<Longrightarrow> (concat (map f t) @ r) ! (2 * k + o') = f (t ! k) ! o'"
proof (induction t arbitrary: k)
  case (Cons c t)
  show ?case
  proof (cases k)
    case 0
    with Cons.prems show ?thesis by (simp add: nth_append)
  next
    case (Suc j)
    have "(f c @ (concat (map f t) @ r)) ! (2 * k + o') = (concat (map f t) @ r) ! (2 * j + o')"
      using Cons.prems(1) Suc by (simp add: nth_append)
    with Cons Suc show ?thesis by simp
  qed
qed simp

lemma stride_units:
  assumes len: "\<forall>c. length (f c) = 2" and o': "o' < 2" and e: "e = 2 * length t + o'" and c: "\<And>c. f c ! o' = c"
  shows "k \<le> length t \<Longrightarrow> stride (concat (map f t) @ r) 2 e (2 * k + o') = drop k t"
proof (induction "length t - k" arbitrary: k)
  case 0
  then show ?case by (simp add: stride.simps e)
next
  case (Suc n)
  let ?z = "concat (map f t) @ r"
  have k: "k < length t" "n = length t - (k + 1)" using Suc by auto
  have "2 * k + o' < length ?z" using units_length [OF len, where t = t] o' k(1) by simp
  then have "stride ?z 2 e (2 * k + o') = ?z ! (2 * k + o') # stride ?z 2 e (2 * k + o' + 2)"
    using k(1) e by (subst stride.simps) simp
  also have "2 * k + o' + 2 = 2 * (k + 1) + o'" by simp
  also have "stride ?z 2 e (2 * (k + 1) + o') = drop (k + 1) t" using k by (intro Suc.hyps(1)) auto
  finally show ?case
    using units_nth [OF len k(1) o', where r = r] c k(1) by (simp add: Cons_nth_drop_Suc)
qed

lemma inb_units:
  assumes "\<forall>c. length (f c) = 2" "o' < 2"
  shows "inb (concat (map f t) @ r) 2 (2 * length t + o') o'"
  using units_length [OF assms(1), where t = t] assms(2) by (auto simp: inb_def)

lemma highBytes_units:
  assumes len: "\<forall>c. length (f c) = 2" and o': "o' < 2" and c: "\<And>c. f c ! o' = 0"
  shows "k \<le> length t \<Longrightarrow> highBytes (concat (map f t) @ r) (2 * length t) (2 * k + o') = Some (2 * length t + o')"
proof (induction "length t - k" arbitrary: k)
  case 0
  then show ?case by (simp add: highBytes.simps)
next
  case (Suc n)
  let ?z = "concat (map f t) @ r"
  have k: "k < length t" "n = length t - (k + 1)" using Suc by auto
  then have "rd ?z (2 * k + o') = Some 0"
    using units_length [OF len, where t = t] o' units_nth [OF len k(1) o', where r = r] c by (simp add: rd_def)
  then have "highBytes ?z (2 * length t) (2 * k + o') = highBytes ?z (2 * length t) (2 * k + o' + 2)"
    using k(1) o' by (subst highBytes.simps) simp
  also have "2 * k + o' + 2 = 2 * (k + 1) + o'" by simp
  also have "highBytes ?z (2 * length t) (2 * (k + 1) + o') = Some (2 * length t + o')"
    using k by (intro Suc.hyps(1)) auto
  finally show ?case .
qed

text \<open>C21. \<open>sqlite3Atoi64\<close> reads every decimal text in every encoding: for a text of characters below
  256 (white space, an optional sign, digits, and whatever follows) it stays inside the buffer and
  returns 1 exactly if there are no digits, something follows them or the number has no 64-bit
  two's complement representation; it returns 2 for 9223372036854775808 without a minus sign, and
  0 with the exact value in \<open>*pNum\<close> otherwise.\<close>

theorem sqlite3Atoi64_correct:
  assumes "enc \<in> {1, 2, 3}" "text_form t neg ds rest"
  shows "\<exists>v. sqlite3Atoi64 (encode_text enc t @ junk) (length (encode_text enc t)) enc = Some (atoi_code neg ds rest, v)
    \<and> (atoi_code neg ds rest = 0 \<longrightarrow> v = (if neg then - int (decval ds) else int (decval ds)))
    \<and> (atoi_code neg ds rest = 2 \<longrightarrow> v = LARGEST_INT64)"
proof -
  let ?n = "length t"
  have l: "\<forall>c::u8. length [c, 0] = 2" "\<forall>c::u8. length [0, c] = 2" by auto
  consider "enc = 1" | "enc = 2" | "enc = 3" using assms(1) by auto
  then show ?thesis
  proof cases
    case 1
    have "stride (t @ junk) 1 ?n 0 = t" using stride_1 [of ?n "t @ junk" 0] by simp
    with body_spec [OF inb_1 [of ?n "t @ junk"], of 0 neg ds rest] assms(2) 1 show ?thesis
      by (simp add: sqlite3Atoi64_def encode_text_def)
  next
    case 2
    let ?z = "concat (map (\<lambda>c. [c, 0]) t) @ junk"
    have "inb ?z 2 (2 * ?n + 0) 0" by (rule inb_units) auto
    moreover have "stride ?z 2 (2 * ?n + 0) (2 * 0 + 0) = drop 0 t" by (rule stride_units) auto
    moreover have "highBytes ?z (2 * ?n) (2 * 0 + 1) = Some (2 * ?n + 1)" by (rule highBytes_units) auto
    ultimately show ?thesis
      using body_spec [of ?z 2 "2 * ?n" 0 neg ds rest] assms(2) 2 units_length [OF l(1), where t = t]
      by (simp add: sqlite3Atoi64_def encode_text_def)
  next
    case 3
    let ?z = "concat (map (\<lambda>c. [0, c]) t) @ junk"
    have "inb ?z 2 (2 * ?n + 1) 1" by (rule inb_units) auto
    moreover have "stride ?z 2 (2 * ?n + 1) (2 * 0 + 1) = drop 0 t" by (rule stride_units) auto
    moreover have "highBytes ?z (2 * ?n) (2 * 0 + 0) = Some (2 * ?n + 0)" by (rule highBytes_units) auto
    ultimately show ?thesis
      using body_spec [of ?z 2 "2 * ?n + 1" 1 neg ds rest] assms(2) 3 units_length [OF l(2), where t = t]
      by (simp add: sqlite3Atoi64_def encode_text_def)
  qed
qed

lemma sqlite3Atoi64_correct_witness:
  "\<exists>v. sqlite3Atoi64 (encode_text 3 [32, 45, 48, 55] @ []) (length (encode_text 3 [32, 45, 48, 55])) 3 = Some (0, v)
     \<and> v = - 7"
proof -
  have "text_form [32, 45, 48, 55] True [48, 55] []"
    by (simp add: text_form_def ctype_classes)
  then show ?thesis
    using sqlite3Atoi64_correct [of 3 "[32, 45, 48, 55]" True "[48, 55]" "[]" "[]"]
    by (simp add: atoi_code_def decval_def)
qed


section \<open>Zero-terminated strings\<close>

text \<open>
  A pointer into the string is the rest of the string; \<open>chead\<close> is the byte it points to. The hex loops
  skip zeros, then read hexadecimal digits.
\<close>

fun hexRun :: "u8 list \<Rightarrow> u64 \<Rightarrow> nat \<Rightarrow> u64 \<times> nat \<times> u8 list" where
  "hexRun (c # z) u k =
     (if sqlite3Isxdigit c then hexRun z (u * 16 + ucast (sqlite3HexToInt c)) (k + 1) else (u, k, c # z))"
| "hexRun [] u k = (u, k, [])"

text \<open>The return value and \<open>*pOut\<close>; \<open>memcpy\<close> copies the bits of the unsigned number.\<close>

definition sqlite3Strlen30 :: "u8 list \<Rightarrow> nat" where
  "sqlite3Strlen30 z = length (cstr z) mod 2 ^ 30"

definition sqlite3DecOrHexToI64 :: "u8 list \<Rightarrow> (nat \<times> int) option" where
  "sqlite3DecOrHexToI64 z =
     (if chead z = 48 \<and> (chead (tl z) = 120 \<or> chead (tl z) = 88) then
        (let (u, k, r) = hexRun (dropWhile (\<lambda>c. c = 48) (drop 2 z)) 0 0 in
         Some (if chead r = 0 \<and> k \<le> 16 then 0 else 1, sint u))
      else sqlite3Atoi64 z (sqlite3Strlen30 z) 1)"

text \<open>The loops of \<open>sqlite3GetInt32\<close>; \<open>n\<close> is the number of digits that may still be read.\<close>

fun hexRun32 :: "nat \<Rightarrow> u8 list \<Rightarrow> u32 \<Rightarrow> u32 \<times> u8 list" where
  "hexRun32 (Suc n) z u =
     (if sqlite3Isxdigit (chead z) then hexRun32 n (tl z) (u * 16 + ucast (sqlite3HexToInt (chead z))) else (u, z))"
| "hexRun32 0 z u = (u, z)"

fun decRun32 :: "nat \<Rightarrow> u8 list \<Rightarrow> int \<Rightarrow> int \<times> nat" where
  "decRun32 (Suc n) z v =
     (let c = uint (chead z) - 48 in
      if c \<ge> 0 \<and> c \<le> 9 then (let (v, i) = decRun32 n (tl z) (v * 10 + c) in (v, i + 1)) else (v, 0))"
| "decRun32 0 z v = (v, 0)"

text \<open>The value of a true return; \<^term>\<open>None\<close> is a false return, which leaves \<open>*pValue\<close> alone.\<close>

definition getInt32Dec :: "bool \<Rightarrow> u8 list \<Rightarrow> int option" where
  "getInt32Dec neg z =
     (if \<not> sqlite3Isdigit (chead z) then None
      else
        (let (v, i) = decRun32 11 (dropWhile (\<lambda>c. c = 48) z) 0 in
         if i > 10 then None
         else if v - (if neg then 1 else 0) > 2147483647 then None
         else Some (if neg then - v else v)))"

definition sqlite3GetInt32 :: "u8 list \<Rightarrow> int option" where
  "sqlite3GetInt32 zNum =
     (if chead zNum = 45 then getInt32Dec True (tl zNum)
      else if chead zNum = 43 then getInt32Dec False (tl zNum)
      else if chead zNum = 48 \<and> (chead (tl zNum) = 120 \<or> chead (tl zNum) = 88)
              \<and> sqlite3Isxdigit (chead (drop 2 zNum)) then
        (let (u, r) = hexRun32 8 (dropWhile (\<lambda>c. c = 48) (drop 2 zNum)) 0 in
         if u AND 0x80000000 = 0 \<and> \<not> sqlite3Isxdigit (chead r) then Some (uint u) else None)
      else getInt32Dec False zNum)"

definition sqlite3Atoi :: "u8 list option \<Rightarrow> int" where
  "sqlite3Atoi z = (case z of None \<Rightarrow> 0 | Some z \<Rightarrow> (case sqlite3GetInt32 z of None \<Rightarrow> 0 | Some x \<Rightarrow> x))"

lemma chead_dig: "(0 \<le> uint c - 48 \<and> uint c - 48 \<le> 9) \<longleftrightarrow> dig c" for c :: u8
  by (auto simp: word_le_def)

lemma decRun32_eq:
  "decRun32 n z (int v) =
     (let ds = take n (takeWhile dig z) in (int (decval_from v ds), length ds))"
proof (induction n arbitrary: z v)
  case (Suc n)
  show ?case
  proof (cases "z \<noteq> [] \<and> dig (hd z)")
    case True
    then obtain c y where z: "z = c # y" "dig c" by (cases z) auto
    let ?v = "v * 10 + (unat c - 48)"
    have c: "int v * 10 + (uint c - 48) = int ?v" using dig_bound [OF z(2)] by (simp add: of_nat_diff)
    have "decRun32 (Suc n) z (int v) = (let (v, i) = decRun32 n y (int ?v) in (v, i + 1))"
      unfolding decRun32.simps z(1) chead_simps list.sel Let_def if_P [OF chead_dig [THEN iffD2, OF z(2)]] c ..
    with Suc [of y ?v] z show ?thesis by (simp add: Let_def)
  next
    case False
    then have "\<not> (0 \<le> uint (chead z) - 48 \<and> uint (chead z) - 48 \<le> 9)" unfolding chead_dig by (cases z) auto
    with False show ?thesis by (cases z) (auto simp: Let_def)
  qed
qed simp

definition hexval_from :: "nat \<Rightarrow> u8 list \<Rightarrow> nat" where
  "hexval_from v ds = fold (\<lambda>d v. v * 16 + unat (sqlite3HexToInt d)) ds v"

lemma hexval_from_simps [simp]: "hexval_from v [] = v"
  "hexval_from v (d # ds) = hexval_from (v * 16 + unat (sqlite3HexToInt d)) ds"
  by (simp_all add: hexval_from_def)

lemma hexval_from_eq: "hexval_from v ds = v * 16 ^ length ds + hexval_from 0 ds"
proof (induction ds arbitrary: v)
  case (Cons d ds)
  have a: "hexval_from w (d # ds) = (w * 16 + unat (sqlite3HexToInt d)) * 16 ^ length ds + hexval_from 0 ds" for w
    using Cons.IH [of "w * 16 + unat (sqlite3HexToInt d)"] by simp
  show ?case unfolding a by (simp add: algebra_simps)
qed simp

abbreviation hexval :: "u8 list \<Rightarrow> nat" where
  "hexval \<equiv> hexval_from 0"

lemma HexToInt_less: "unat (sqlite3HexToInt d) < 16"
proof -
  have "sqlite3HexToInt d \<le> 15" by (rule byte_all [of "\<lambda>d. sqlite3HexToInt d \<le> 15"]) code_simp
  then show ?thesis by (simp add: word_le_nat_alt)
qed

lemma HexToInt_0: "sqlite3Isxdigit d \<Longrightarrow> sqlite3HexToInt d = 0 \<Longrightarrow> d = 48"
  by (rule byte_all [of "\<lambda>d. sqlite3Isxdigit d \<longrightarrow> sqlite3HexToInt d = 0 \<longrightarrow> d = 48", rule_format]) (code_simp, assumption+)

lemma hexval_less: "hexval ds < 16 ^ length ds"
proof (induction ds)
  case (Cons d ds)
  have "unat (sqlite3HexToInt d) * 16 ^ length ds \<le> 15 * 16 ^ length ds"
    using HexToInt_less [of d] by (intro mult_right_mono) auto
  moreover have "hexval (d # ds) = unat (sqlite3HexToInt d) * 16 ^ length ds + hexval ds"
    using hexval_from_eq [of "unat (sqlite3HexToInt d)" ds] by simp
  ultimately show ?case using Cons unfolding length_Cons power_Suc by linarith
qed simp

lemma hexval_ge: "list_all sqlite3Isxdigit ds \<Longrightarrow> ds \<noteq> [] \<Longrightarrow> hd ds \<noteq> 48 \<Longrightarrow> 16 ^ (length ds - 1) \<le> hexval ds"
proof (cases ds)
  case (Cons d es)
  assume "list_all sqlite3Isxdigit ds" "hd ds \<noteq> 48"
  then have "sqlite3HexToInt d \<noteq> 0" using Cons HexToInt_0 [of d] by auto
  then have "1 \<le> unat (sqlite3HexToInt d)" by (simp add: Suc_le_eq unat_gt_0)
  then have "1 * 16 ^ length es \<le> unat (sqlite3HexToInt d) * 16 ^ length es" by (intro mult_right_mono) auto
  moreover have "hexval (d # es) = unat (sqlite3HexToInt d) * 16 ^ length es + hexval es"
    using hexval_from_eq [of "unat (sqlite3HexToInt d)" es] by simp
  ultimately show ?thesis unfolding Cons length_Cons diff_Suc_1 by linarith
qed simp

lemma hexval_dropzeros: "hexval (dropWhile (\<lambda>c. c = 48) ds) = hexval ds"
proof (induction ds)
  case (Cons d ds)
  have "sqlite3HexToInt 48 = 0" by (simp add: sqlite3HexToInt_def)
  with Cons show ?case by auto
qed simp

lemma hexRun_eq:
  "hexRun z u k = (let ds = takeWhile sqlite3Isxdigit z in
     (of_nat (hexval_from (unat u) ds), k + length ds, dropWhile sqlite3Isxdigit z))"
proof (induction z u k rule: hexRun.induct)
  case (1 c z u k)
  have "of_nat (hexval_from (unat (u * 16 + ucast (sqlite3HexToInt c))) ds) =
      (of_nat (hexval_from (unat u * 16 + unat (sqlite3HexToInt c)) ds) :: u64)" for ds
    by (simp add: hexval_from_eq [of "unat (u * 16 + ucast (sqlite3HexToInt c))"]
      hexval_from_eq [of "unat u * 16 + unat (sqlite3HexToInt c)"])
  with 1 show ?case by (simp add: Let_def)
qed simp

lemma xdigit_0 [simp]: "\<not> sqlite3Isxdigit 0"
  by (simp add: ctype_classes)

lemma hexRun32_eq:
  "hexRun32 n z u = (let ds = take n (takeWhile sqlite3Isxdigit z) in
     (of_nat (hexval_from (unat u) ds), drop (length ds) z))"
proof (induction n z u rule: hexRun32.induct)
  case (1 n z u)
  have e: "of_nat (hexval_from (unat (u * 16 + ucast (sqlite3HexToInt c))) ds) =
      (of_nat (hexval_from (unat u * 16 + unat (sqlite3HexToInt c)) ds) :: u32)" for c ds
    by (simp add: hexval_from_eq [of "unat (u * 16 + ucast (sqlite3HexToInt c))"]
      hexval_from_eq [of "unat u * 16 + unat (sqlite3HexToInt c)"])
  show ?case using 1 e by (cases z) (auto simp: Let_def)
qed simp

lemma and_0x80000000: "((u::u32) AND 0x80000000 = 0) \<longleftrightarrow> unat u < 2 ^ 31"
proof -
  have "u AND 0x80000000 = (if bit u 31 then 0x80000000 else 0)" by (rule word_enumI) (simp add: enum_simps)
  moreover have "drop_bit 31 u = (if bit u 31 then 1 else 0)" by (rule word_enumI) (simp add: enum_simps)
  ultimately show ?thesis using drop_bit_eq_0_iff [of 31 u] by (auto split: if_splits)
qed


lemma takeWhile_app_stop: "list_all P xs \<Longrightarrow> ys = [] \<or> \<not> P (hd ys) \<Longrightarrow> takeWhile P (xs @ ys) = xs \<and> dropWhile P (xs @ ys) = ys"
  by (induction xs) (cases ys; auto)+

lemma skip_zeros_app:
  assumes "list_all P xs" "ys = [] \<or> \<not> P (hd ys)" "P 48"
  shows "dropWhile (\<lambda>c. c = 48) (xs @ ys) = dropWhile (\<lambda>c. c = 48) xs @ ys"
    and "list_all P (dropWhile (\<lambda>c. c = 48) xs)"
  using assms by (induction xs) (cases ys; auto)+

lemma getInt32Dec_eq:
  assumes ds: "list_all dig ds" "ds \<noteq> []" and rest: "rest = [] \<or> \<not> dig (hd rest)"
  shows "getInt32Dec neg (ds @ rest) =
    (let v = (if neg then - int (decval ds) else int (decval ds)) in
     if - (2 ^ 31) \<le> v \<and> v < 2 ^ 31 then Some v else None)"
proof -
  let ?es = "dropWhile (\<lambda>c. c = 48) ds"
  note sz = skip_zeros_app [where P = "\<lambda>c. dig c", OF ds(1) rest]
  have es: "dropWhile (\<lambda>c. c = 48) (ds @ rest) = ?es @ rest" "list_all dig ?es" using sz by simp_all
  have tw: "takeWhile dig (?es @ rest) = ?es" using takeWhile_app_stop [OF es(2) rest] by simp
  have hd: "sqlite3Isdigit (chead (ds @ rest))" using ds by (cases ds) (auto simp: ctype_classes)
  define n where "n = length ?es"
  have run: "decRun32 11 (?es @ rest) 0 = (int (decval_from 0 (take 11 ?es)), min n 11)"
    using decRun32_eq [of 11 "?es @ rest" 0] tw by (simp add: Let_def n_def min.commute)
  have val: "decval_from 0 ?es = decval ds" using decval_dropzeros [of ds] by (simp add: decval_def decval_from_def)
  show ?thesis
  proof (cases "n > 10")
    case True
    then have "(10::nat) ^ 10 \<le> 10 ^ (n - 1)" by (intro power_increasing) auto
    moreover have "?es \<noteq> []" using True by (cases ?es) (simp_all add: n_def)
    then have "10 ^ (n - 1) \<le> decval ds"
      using decval_ge [OF es(2)] hd_dropWhile [of "\<lambda>c. c = 48" ds] by (simp add: decval_dropzeros n_def)
    ultimately have "(10::nat) ^ 10 \<le> decval ds" by linarith
    with True hd run es(1) show ?thesis by (auto simp: getInt32Dec_def Let_def)
  next
    case False
    then have "take 11 ?es = ?es" by (simp add: n_def)
    with False hd run es(1) val show ?thesis by (auto simp: getInt32Dec_def Let_def)
  qed
qed

lemma getInt32_hex_eq:
  assumes hs: "list_all sqlite3Isxdigit hs" "hs \<noteq> []" and rest: "hrest = [] \<or> \<not> sqlite3Isxdigit (hd hrest)"
    and x: "x \<in> {88, 120}"
  shows "sqlite3GetInt32 (48 # x # hs @ hrest) = (if hexval hs < 2 ^ 31 then Some (int (hexval hs)) else None)"
proof -
  let ?es = "dropWhile (\<lambda>c. c = 48) hs"
  have x48: "sqlite3Isxdigit 48" by (simp add: ctype_classes)
  note es = skip_zeros_app [OF hs(1) rest x48]
  have tw: "takeWhile sqlite3Isxdigit (?es @ hrest) = ?es" using takeWhile_app_stop [OF es(2) rest] by simp
  have hd: "sqlite3Isxdigit (chead (hs @ hrest))" using hs by (cases hs) auto
  have run: "hexRun32 8 (?es @ hrest) 0 = (of_nat (hexval (take 8 ?es)), drop (min (length ?es) 8) (?es @ hrest))"
    using hexRun32_eq [of 8 "?es @ hrest" 0] tw by (simp add: Let_def min.commute)
  have get: "sqlite3GetInt32 (48 # x # hs @ hrest) =
    (let u = (of_nat (hexval (take 8 ?es)) :: u32) in
     if u AND 0x80000000 = 0 \<and> \<not> sqlite3Isxdigit (chead (drop (min (length ?es) 8) (?es @ hrest)))
     then Some (uint u) else None)"
    using x hd by (auto simp: sqlite3GetInt32_def es(1) run)
  show ?thesis
  proof (cases "length ?es \<le> 8")
    case True
    have "chead hrest = 0 \<or> \<not> sqlite3Isxdigit (chead hrest)" using rest by (cases hrest) auto
    then have "\<not> sqlite3Isxdigit (chead hrest)" by auto
    moreover have "(16::nat) ^ length ?es \<le> 16 ^ 8" using True by (intro power_increasing) auto
    then have "hexval hs < 2 ^ 32" using hexval_less [of ?es] by (simp add: hexval_dropzeros)
    then have "unat (of_nat (hexval hs) :: u32) = hexval hs" by (simp add: unsigned_of_nat take_bit_nat_eq_self)
    moreover from this have "uint (of_nat (hexval hs) :: u32) = int (hexval hs)" by (metis uint_nat)
    ultimately show ?thesis
      using True unfolding get Let_def and_0x80000000 by (simp add: hexval_dropzeros)
  next
    case False
    then have "chead (drop 8 (?es @ hrest)) = ?es ! 8"
      by (simp add: chead_def Cons_nth_drop_Suc [symmetric])
    then have "sqlite3Isxdigit (chead (drop 8 (?es @ hrest)))" using False es(2) by (simp add: list_all_length)
    moreover have "(16::nat) ^ 8 \<le> 16 ^ (length ?es - 1)" using False by (intro power_increasing) auto
    moreover have "?es \<noteq> []" using False by (cases ?es) simp_all
    then have "16 ^ (length ?es - 1) \<le> hexval hs"
      using hexval_ge [OF es(2)] hd_dropWhile [of "\<lambda>c. c = 48" hs] by (simp add: hexval_dropzeros)
    ultimately show ?thesis using False unfolding get Let_def by (simp add: min_def)
  qed
qed

text \<open>\<open>sqlite3GetInt32\<close> reads the integer at the start of a string, in decimal with an optional sign
  or in hexadecimal, ignores what follows it, and fails exactly when the number does not fit in 32
  bits (for hexadecimal: in 31 bits).\<close>

theorem sqlite3GetInt32_correct:
  assumes "ds \<noteq> []" "list_all dig ds" "rest = [] \<or> \<not> dig (hd rest)" "sg \<in> {[], [43], [45]}"
    and "sg = [] \<longrightarrow> chead rest \<noteq> 120 \<and> chead rest \<noteq> 88"
    and "hs \<noteq> []" "list_all sqlite3Isxdigit hs" "hrest = [] \<or> \<not> sqlite3Isxdigit (hd hrest)" "x \<in> {88, 120}"
  shows "sqlite3GetInt32 (sg @ ds @ rest) =
      (let v = (if sg = [45] then - int (decval ds) else int (decval ds)) in
       if - (2 ^ 31) \<le> v \<and> v < 2 ^ 31 then Some v else None)
    \<and> sqlite3GetInt32 (48 # x # hs @ hrest) = (if hexval hs < 2 ^ 31 then Some (int (hexval hs)) else None)"
proof
  show "sqlite3GetInt32 (48 # x # hs @ hrest) = (if hexval hs < 2 ^ 31 then Some (int (hexval hs)) else None)"
    by (rule getInt32_hex_eq) (use assms in auto)
  have "sqlite3GetInt32 (sg @ ds @ rest) = getInt32Dec (sg = [45]) (ds @ rest)"
  proof (cases "sg = []")
    case False
    with assms(4) show ?thesis by (auto simp: sqlite3GetInt32_def)
  next
    case True
    obtain d es where d: "ds = d # es" "dig d" "list_all dig es" using assms(1,2) by (cases ds) auto
    have "d \<noteq> 45" "d \<noteq> 43" using d(2) by auto
    moreover have "chead (es @ rest) \<noteq> 120" "chead (es @ rest) \<noteq> 88"
      using d(3) assms(5) True by (cases es; auto)+
    ultimately show ?thesis using True d(1) by (simp add: sqlite3GetInt32_def)
  qed
  with getInt32Dec_eq [OF assms(2,1,3), of "sg = [45]"] show "sqlite3GetInt32 (sg @ ds @ rest) =
      (let v = (if sg = [45] then - int (decval ds) else int (decval ds)) in
       if - (2 ^ 31) \<le> v \<and> v < 2 ^ 31 then Some v else None)" by simp
qed

lemma sqlite3GetInt32_correct_witness:
  "sqlite3GetInt32 [45, 49, 50, 32] = Some (- 12) \<and> sqlite3GetInt32 [48, 120, 49, 70] = Some 31"
  using sqlite3GetInt32_correct [of "[49, 50]" "[32]" "[45]" "[49, 70]" "[]" 120]
  by (simp add: ctype_classes decval_def sqlite3HexToInt_def)

end
