(* ===== verification/Mem5.thy ===== *)
theory Mem5
  imports SqlitePrelude
begin

text \<open>
  The power-of-two (buddy) memory allocator of mem5.c.

  The pool is \<open>nBlock\<close> atoms of \<open>szAtom\<close> bytes; a pointer into it is its byte offset and \<^term>\<open>None\<close> is
  NULL. \<open>aiFreelist ! k\<close> is the doubly-linked list of the free blocks of \<open>2^k\<close> atoms, in order, by
  the index of their first atom; unlinking an index that is not on its list, and writing outside
  \<open>aCtrl\<close>, corrupt memory and are \<^term>\<open>None\<close>. The statistics of debug builds are left out.
\<close>

section \<open>State and operations\<close>

definition LOGMAX :: nat where "LOGMAX = 30"
definition CTRL_LOGSIZE :: u8 where "CTRL_LOGSIZE = 0x1f"
definition CTRL_FREE :: u8 where "CTRL_FREE = 0x20"

record mem5 =
  szAtom :: nat
  nBlock :: nat
  aiFreelist :: "nat list list"
  aCtrl :: "u8 list"

definition setCtrl :: "nat \<Rightarrow> u8 \<Rightarrow> mem5 \<Rightarrow> mem5 option" where
  "setCtrl i v s = (if i < length (aCtrl s) then Some (s\<lparr>aCtrl := (aCtrl s)[i := v]\<rparr>) else None)"

definition memsys5Unlink :: "nat \<Rightarrow> nat \<Rightarrow> mem5 \<Rightarrow> mem5 option" where
  "memsys5Unlink i iLogsize s =
     (if iLogsize < length (aiFreelist s) \<and> i \<in> set (aiFreelist s ! iLogsize)
      then Some (s\<lparr>aiFreelist := (aiFreelist s)[iLogsize := remove1 i (aiFreelist s ! iLogsize)]\<rparr>)
      else None)"

definition memsys5Link :: "nat \<Rightarrow> nat \<Rightarrow> mem5 \<Rightarrow> mem5" where
  "memsys5Link i iLogsize s =
     s\<lparr>aiFreelist := (aiFreelist s)[iLogsize := i # aiFreelist s ! iLogsize]\<rparr>"

definition memsys5Size :: "mem5 \<Rightarrow> nat \<Rightarrow> nat" where
  "memsys5Size s p = szAtom s * 2 ^ unat (aCtrl s ! (p div szAtom s) AND CTRL_LOGSIZE)"

text \<open>\<open>for(iFullSz=szAtom,iLogsize=0; iFullSz<nByte; iFullSz*=2,iLogsize++){}\<close>\<close>

function fullSzLoop :: "nat \<Rightarrow> nat \<Rightarrow> nat \<Rightarrow> nat \<times> nat" where
  "fullSzLoop nByte iFullSz iLogsize =
     (if 0 < iFullSz \<and> iFullSz < nByte then fullSzLoop nByte (iFullSz * 2) (iLogsize + 1)
      else (iFullSz, iLogsize))"
  by pat_completeness auto
termination by (relation "measure (\<lambda>(n, f, l). n - f)") auto

text \<open>\<open>for(iBin=iLogsize; iBin<=LOGMAX && aiFreelist[iBin]<0; iBin++){}\<close>\<close>

function binLoop :: "nat list list \<Rightarrow> nat \<Rightarrow> nat" where
  "binLoop fl iBin = (if iBin \<le> LOGMAX \<and> fl ! iBin = [] then binLoop fl (iBin + 1) else iBin)"
  by pat_completeness auto
termination by (relation "measure (\<lambda>(fl, i). Suc LOGMAX - i)") auto

declare fullSzLoop.simps [simp del] binLoop.simps [simp del]

text \<open>The loop that splits the block at \<open>i\<close>, of \<open>2^iBin\<close> atoms, down to \<open>2^iLogsize\<close>.\<close>

fun splitLoop :: "nat \<Rightarrow> nat \<Rightarrow> nat \<Rightarrow> mem5 \<Rightarrow> mem5 option" where
  "splitLoop i 0 iLogsize s = Some s"
| "splitLoop i (Suc iBin) iLogsize s =
     (if Suc iBin > iLogsize then do {
        let newSize = 2 ^ iBin;
        s \<leftarrow> setCtrl (i + newSize) (CTRL_FREE OR of_nat iBin) s;
        splitLoop i iBin iLogsize (memsys5Link (i + newSize) iBin s)
      } else Some s)"

definition memsys5MallocUnsafe :: "mem5 \<Rightarrow> nat \<Rightarrow> (nat option \<times> mem5) option" where
  "memsys5MallocUnsafe s nByte =
     (if nByte > 0x40000000 then Some (None, s)
      else
        (let (iFullSz, iLogsize) = fullSzLoop nByte (szAtom s) 0;
             iBin = binLoop (aiFreelist s) iLogsize
         in if iBin > LOGMAX then Some (None, s)
            else do {
              let i = hd (aiFreelist s ! iBin);
              s \<leftarrow> memsys5Unlink i iBin s;
              s \<leftarrow> splitLoop i iBin iLogsize s;
              s \<leftarrow> setCtrl i (of_nat iLogsize) s;
              Some (Some (i * szAtom s), s)
            }))"

text \<open>The loop that merges the block at \<open>iBlock\<close> with its free buddies.\<close>

function mergeLoop :: "nat \<Rightarrow> nat \<Rightarrow> nat \<Rightarrow> mem5 \<Rightarrow> (nat \<times> nat \<times> mem5) option" where
  "mergeLoop iBlock iLogsize sz s =
     (if \<not> iLogsize < LOGMAX then Some (iBlock, iLogsize, s)
      else
        (let odd_block = odd (iBlock div 2 ^ iLogsize);
             iBuddy = (if odd_block then iBlock - sz else iBlock + sz)
         in if \<not> odd_block \<and> iBuddy \<ge> nBlock s then Some (iBlock, iLogsize, s)
            else if aCtrl s ! iBuddy \<noteq> CTRL_FREE OR of_nat iLogsize then Some (iBlock, iLogsize, s)
            else do {
              s \<leftarrow> memsys5Unlink iBuddy iLogsize s;
              if iBuddy < iBlock then do {
                s \<leftarrow> setCtrl iBuddy (CTRL_FREE OR of_nat (iLogsize + 1)) s;
                s \<leftarrow> setCtrl iBlock 0 s;
                mergeLoop iBuddy (iLogsize + 1) (sz * 2) s
              } else do {
                s \<leftarrow> setCtrl iBlock (CTRL_FREE OR of_nat (iLogsize + 1)) s;
                s \<leftarrow> setCtrl iBuddy 0 s;
                mergeLoop iBlock (iLogsize + 1) (sz * 2) s
              }
            }))"
  by pat_completeness auto
termination by (relation "measure (\<lambda>(b, l, z, s). LOGMAX - l)") auto

declare mergeLoop.simps [simp del]

definition memsys5FreeUnsafe :: "mem5 \<Rightarrow> nat \<Rightarrow> mem5 option" where
  "memsys5FreeUnsafe s pOld =
     (let iBlock = pOld div szAtom s;
          iLogsize = unat (aCtrl s ! iBlock AND CTRL_LOGSIZE);
          sz = 2 ^ iLogsize
      in do {
        s \<leftarrow> setCtrl iBlock (aCtrl s ! iBlock OR CTRL_FREE) s;
        s \<leftarrow> setCtrl (iBlock + sz - 1) (aCtrl s ! (iBlock + sz - 1) OR CTRL_FREE) s;
        s \<leftarrow> setCtrl iBlock (CTRL_FREE OR of_nat iLogsize) s;
        (iBlock, iLogsize, s) \<leftarrow> mergeLoop iBlock iLogsize sz s;
        Some (memsys5Link iBlock iLogsize s)
      })"

definition memsys5Malloc :: "mem5 \<Rightarrow> nat \<Rightarrow> (nat option \<times> mem5) option" where
  "memsys5Malloc s nBytes = (if nBytes > 0 then memsys5MallocUnsafe s nBytes else Some (None, s))"

definition memsys5Free :: "mem5 \<Rightarrow> nat \<Rightarrow> mem5 option" where
  "memsys5Free s pPrior = memsys5FreeUnsafe s pPrior"

text \<open>The bytes are not modelled; the copy is of \<open>nOld\<close> bytes into a larger block.\<close>

definition memsys5Realloc :: "mem5 \<Rightarrow> nat \<Rightarrow> nat \<Rightarrow> (nat option \<times> mem5) option" where
  "memsys5Realloc s pPrior nBytes =
     (if nBytes = 0 then Some (None, s)
      else
        (let nOld = memsys5Size s pPrior in
         if nBytes \<le> nOld then Some (Some pPrior, s)
         else do {
           (p, s) \<leftarrow> memsys5Malloc s nBytes;
           case p of
             None \<Rightarrow> Some (None, s)
           | Some q \<Rightarrow> do { s \<leftarrow> memsys5Free s pPrior; Some (Some q, s) }
         }))"

definition memsys5Roundup :: "mem5 \<Rightarrow> nat \<Rightarrow> nat" where
  "memsys5Roundup s n = (if n > 0x40000000 then 0 else fst (fullSzLoop n (szAtom s) 0))"

function log5Loop :: "nat \<Rightarrow> nat \<Rightarrow> nat" where
  "log5Loop iValue iLog = (if iLog < 31 \<and> 2 ^ iLog < iValue then log5Loop iValue (iLog + 1) else iLog)"
  by pat_completeness auto
termination by (relation "measure (\<lambda>(v, i). 31 - i)") auto

declare log5Loop.simps [simp del]

definition memsys5Log :: "nat \<Rightarrow> nat" where
  "memsys5Log iValue = log5Loop iValue 0"

text \<open>The loop over the block sizes, from \<open>ii\<close> down to 0.\<close>

fun initLoop :: "nat \<Rightarrow> nat \<Rightarrow> mem5 \<Rightarrow> (nat \<times> mem5) option" where
  "initLoop 0 iOffset s = Some (iOffset, s)"
| "initLoop (Suc ii) iOffset s =
     (let nAlloc = 2 ^ ii in
      if iOffset + nAlloc \<le> nBlock s then do {
        s \<leftarrow> setCtrl iOffset (of_nat ii OR CTRL_FREE) s;
        initLoop ii (iOffset + nAlloc) (memsys5Link iOffset ii s)
      } else initLoop ii iOffset s)"

text \<open>
  \<open>nByte\<close> and \<open>mnReq\<close> are the configured size of the heap and minimum request; \<open>junk\<close> is what the
  memory of \<open>aCtrl\<close> holds before. A \<open>Mem5Link\<close> has 8 bytes.
\<close>

definition memsys5Init :: "nat \<Rightarrow> nat \<Rightarrow> (nat \<Rightarrow> u8) \<Rightarrow> mem5 option" where
  "memsys5Init nByte mnReq junk =
     (let sz = fst (fullSzLoop 8 (2 ^ memsys5Log mnReq) 0);
          n = nByte div (sz + 1);
          s = \<lparr>szAtom = sz, nBlock = n, aiFreelist = replicate (LOGMAX + 1) [], aCtrl = map junk [0..<n]\<rparr>
      in map_option snd (initLoop (LOGMAX + 1) 0 s))"


section \<open>Control bytes\<close>

lemma log_cases: "k \<le> 30 \<Longrightarrow> k \<in> set [0..<31]" by simp

lemma ctrl_byte_list:
  "list_all (\<lambda>k. unat ((of_nat k :: u8) AND CTRL_LOGSIZE) = k
     \<and> unat ((CTRL_FREE OR of_nat k) AND CTRL_LOGSIZE) = k
     \<and> (of_nat k :: u8) AND CTRL_FREE = 0 \<and> (CTRL_FREE OR of_nat k) AND CTRL_FREE \<noteq> 0) [0..<31]"
  by code_simp

lemma ctrl_byte:
  assumes "k \<le> 30"
  shows "unat ((of_nat k :: u8) AND CTRL_LOGSIZE) = k" "unat ((CTRL_FREE OR of_nat k) AND CTRL_LOGSIZE) = k"
    "(of_nat k :: u8) AND CTRL_FREE = 0" "(CTRL_FREE OR of_nat k) AND CTRL_FREE \<noteq> 0"
  using ctrl_byte_list assms log_cases [of k] unfolding list_all_iff by blast+

definition ctl :: "bool \<Rightarrow> nat \<Rightarrow> u8" where
  "ctl free k = (if free then CTRL_FREE OR of_nat k else of_nat k)"

lemma ctl_log: "k \<le> 30 \<Longrightarrow> unat (ctl f k AND CTRL_LOGSIZE) = k"
  by (simp add: ctl_def ctrl_byte)

lemma ctl_eq: "k \<le> 30 \<Longrightarrow> j \<le> 30 \<Longrightarrow> ctl f k = CTRL_FREE OR of_nat j \<longleftrightarrow> f \<and> k = j"
  by (metis ctl_def ctl_log ctrl_byte(3,4))

lemma ctl_free_simps: "CTRL_FREE OR of_nat k = ctl True k" "of_nat k OR CTRL_FREE = ctl True k" "of_nat k = ctl False k"
  by (simp_all add: ctl_def or.commute)


section \<open>Partitions into aligned blocks\<close>

text \<open>\<open>B i\<close> is the logarithm of the size of the block that starts at \<open>i\<close>.\<close>

definition covers :: "(nat \<Rightarrow> nat option) \<Rightarrow> nat \<Rightarrow> nat \<Rightarrow> bool" where
  "covers B x i \<longleftrightarrow> (\<exists>k. B i = Some k \<and> i \<le> x \<and> x < i + 2 ^ k)"

definition part :: "nat \<Rightarrow> (nat \<Rightarrow> nat option) \<Rightarrow> bool" where
  "part n B \<longleftrightarrow> (\<forall>i k. B i = Some k \<longrightarrow> k \<le> 30 \<and> 2 ^ k dvd i \<and> i + 2 ^ k \<le> n) \<and> (\<forall>x<n. \<exists>!i. covers B x i)"

lemma part_block: "part n B \<Longrightarrow> B i = Some k \<Longrightarrow> k \<le> 30 \<and> 2 ^ k dvd i \<and> i + 2 ^ k \<le> n \<and> i < n"
proof -
  assume a: "part n B" "B i = Some k"
  have "(1::nat) \<le> 2 ^ k" by simp
  with a show ?thesis unfolding part_def by (metis add_leD1 add_le_same_cancel1 leD le_trans linorder_le_less_linear not_one_le_zero)
qed

lemma part_cover_unique: "part n B \<Longrightarrow> covers B x i \<Longrightarrow> covers B x j \<Longrightarrow> i = j"
proof -
  assume a: "part n B" "covers B x i" "covers B x j"
  then have "x < n" using part_block [of n B i] by (fastforce simp: covers_def)
  with a show ?thesis unfolding part_def by blast
qed

lemma part_cover_ex: "part n B \<Longrightarrow> x < n \<Longrightarrow> \<exists>i. covers B x i"
  unfolding part_def by blast

lemma part_disjoint:
  assumes "part n B" "B i = Some k" "B j = Some l" "i \<noteq> j"
  shows "i + 2 ^ k \<le> j \<or> j + 2 ^ l \<le> i"
proof (rule ccontr)
  assume n: "\<not> ?thesis"
  then have "covers B (max i j) i" "covers B (max i j) j"
    using assms(2,3) by (auto simp: covers_def max_def)
  with part_cover_unique [OF assms(1)] assms(4) show False by blast
qed

lemma part_split:
  assumes p: "part n B" and b: "B i = Some (Suc k)"
  shows "part n (B(i \<mapsto> k, i + 2 ^ k \<mapsto> k))" "B (i + 2 ^ k) = None"
proof -
  let ?j = "i + 2 ^ k" and ?C = "B(i \<mapsto> k, i + 2 ^ k \<mapsto> k)"
  note bl = part_block [OF p b]
  show none: "B ?j = None"
  proof (rule ccontr)
    assume "B ?j \<noteq> None"
    then obtain l where "B ?j = Some l" by auto
    from part_disjoint [OF p b this] show False by simp
  qed
  have cov: "covers ?C x y \<longleftrightarrow> (if y = i then i \<le> x \<and> x < ?j else if y = ?j then ?j \<le> x \<and> x < i + 2 ^ Suc k else covers B x y)" for x y
    by (auto simp: covers_def)
  have old: "covers B x y \<longleftrightarrow> i \<le> x \<and> x < i + 2 ^ Suc k" if "y = i" for x y
    using b that by (auto simp: covers_def)
  have "\<exists>!y. covers ?C x y" if x: "x < n" for x
  proof (cases "i \<le> x \<and> x < i + 2 ^ Suc k")
    case True
    then have u: "covers B x y \<Longrightarrow> y = i" for y using part_cover_unique [OF p] old by blast
    show ?thesis
    proof (cases "x < ?j")
      case t: True
      show ?thesis by (rule ex1I [of _ i]) (use True t u cov in \<open>auto split: if_splits\<close>)
    next
      case f: False
      show ?thesis by (rule ex1I [of _ ?j]) (use True f u cov in \<open>auto split: if_splits\<close>)
    qed
  next
    case False
    obtain y where y: "covers B x y" using part_cover_ex [OF p x] by auto
    then have "y \<noteq> i" "y \<noteq> ?j" using False old none by (auto simp: covers_def)
    then show ?thesis
      by (intro ex1I [of _ y]) (use False y part_cover_unique [OF p] cov in \<open>auto split: if_splits\<close>)
  qed
  moreover have "k' \<le> 30 \<and> 2 ^ k' dvd y \<and> y + 2 ^ k' \<le> n" if "?C y = Some k'" for y k'
  proof -
    have "(2::nat) ^ k dvd i" using bl by (metis dvd_trans le_imp_power_dvd lessI less_imp_le)
    then show ?thesis using that bl part_block [OF p] by (auto split: if_splits)
  qed
  ultimately show "part n ?C" unfolding part_def by blast
qed


lemma part_merge:
  assumes p: "part n B" and b: "B i = Some k" "B (i + 2 ^ k) = Some k" and al: "2 ^ Suc k dvd i" and k: "Suc k \<le> 30"
  shows "part n (B(i \<mapsto> Suc k, i + 2 ^ k := None))"
proof -
  let ?j = "i + 2 ^ k" and ?C = "B(i \<mapsto> Suc k, i + 2 ^ k := None)"
  have j: "?j + 2 ^ k = i + 2 ^ Suc k" by simp
  have cov: "covers ?C x y \<longleftrightarrow> (if y = ?j then False else if y = i then i \<le> x \<and> x < i + 2 ^ Suc k else covers B x y)" for x y
    by (auto simp: covers_def)
  have old: "covers B x i \<longleftrightarrow> i \<le> x \<and> x < ?j" "covers B x ?j \<longleftrightarrow> ?j \<le> x \<and> x < i + 2 ^ Suc k" for x
    using b by (auto simp: covers_def)
  have "\<exists>!y. covers ?C x y" if x: "x < n" for x
  proof (cases "i \<le> x \<and> x < i + 2 ^ Suc k")
    case True
    then have "covers B x i \<or> covers B x ?j" using old by (simp add: linorder_not_less [symmetric])
    then have u: "covers B x y \<Longrightarrow> y = i \<or> y = ?j" for y using part_cover_unique [OF p] by blast
    show ?thesis
      by (rule ex1I [of _ i]) (use True u cov in \<open>auto split: if_splits\<close>)
  next
    case False
    obtain y where y: "covers B x y" using part_cover_ex [OF p x] by auto
    have "\<not> covers B x i" "\<not> covers B x ?j" unfolding old using False by auto
    then have "y \<noteq> i" "y \<noteq> ?j" using y by metis+
    then show ?thesis
      by (intro ex1I [of _ y]) (use False y part_cover_unique [OF p] cov in \<open>auto split: if_splits\<close>)
  qed
  moreover have "k' \<le> 30 \<and> 2 ^ k' dvd y \<and> y + 2 ^ k' \<le> n" if "?C y = Some k'" for y k'
    using that al k part_block [OF p b(2)] part_block [OF p, of y k'] j by (auto split: if_splits)
  ultimately show ?thesis unfolding part_def by blast
qed

text \<open>The buddy of a block is the start of a block.\<close>

lemma dvd_between:
  fixes m j d :: nat
  assumes "d dvd m" "d dvd j" "m < j" "j < m + d"
  shows False
proof -
  have "d dvd j - m" using assms by simp
  then have "d \<le> j - m" using assms by (intro dvd_imp_le) auto
  with assms show False by simp
qed

lemma dvd_le_mult:
  fixes a c d :: nat
  assumes "d dvd a" "d dvd c" "a < c + d"
  shows "a \<le> c"
proof (rule ccontr)
  assume "\<not> a \<le> c"
  with dvd_between [OF assms(2,1)] assms(3) show False by simp
qed

lemma buddy_is_block:
  assumes p: "part n B" and b: "B i = Some k" and c: "2 ^ Suc k dvd c" "{i, j} = {c, c + 2 ^ k}" and j: "j < n"
  shows "\<exists>l. B j = Some l"
proof -
  obtain m where "covers B j m" using part_cover_ex [OF p j] by auto
  then obtain l where m: "B m = Some l" "m \<le> j" "j < m + 2 ^ l" by (auto simp: covers_def)
  note bm = part_block [OF p m(1)]
  have kj: "2 ^ k dvd j"
  proof -
    have "2 ^ k dvd c" using c(1) by (metis dvd_trans le_imp_power_dvd lessI less_imp_le)
    then show ?thesis using c(2) by (metis dvd_add_right_iff dvd_refl insert_iff singletonD)
  qed
  show ?thesis
  proof (cases "m = j")
    case True
    with m show ?thesis by blast
  next
    case False
    then have mj: "m < j" using m by simp
    show ?thesis
    proof (cases "l \<le> k")
      case True
      then have "2 ^ l dvd j" using kj by (metis dvd_trans le_imp_power_dvd)
      with dvd_between [of "2 ^ l" m j] bm mj m(3) show ?thesis by blast
    next
      case False
      let ?D = "2 ^ Suc k :: nat"
      have D: "?D dvd m" "?D dvd m + 2 ^ l"
        using bm False by (metis Suc_leI dvd_trans le_imp_power_dvd linorder_not_le, metis Suc_leI bm dvd_add dvd_trans le_imp_power_dvd linorder_not_le)
      have cj: "c \<le> j" "j < c + ?D" using c(2) by (auto simp: doubleton_eq_iff)
      have "m \<le> c" using dvd_le_mult [OF D(1) c(1)] m(2) cj(2) by simp
      moreover have "c + ?D \<le> m + 2 ^ l"
      proof (rule ccontr)
        assume "\<not> c + ?D \<le> m + 2 ^ l"
        then have "m + 2 ^ l \<le> c" using dvd_le_mult [OF D(2) c(1)] by simp
        with m(3) cj(1) show False by simp
      qed
      moreover have "c \<le> i" "i < c + ?D" using c(2) by (auto simp: doubleton_eq_iff)
      ultimately have "covers B i m" using m(1) by (auto simp: covers_def)
      moreover have "covers B i i" using b by (simp add: covers_def)
      ultimately have "m = i" using part_cover_unique [OF p] by blast
      with b m(1) False show ?thesis by simp
    qed
  qed
qed

section \<open>The invariant\<close>

text \<open>
  \<open>B\<close> is the partition, \<open>F\<close> the blocks on the free lists, \<open>X\<close> the blocks whose control byte is not
  yet up to date.
\<close>

definition mem5_inv :: "nat set \<Rightarrow> mem5 \<Rightarrow> (nat \<Rightarrow> nat option) \<Rightarrow> nat set \<Rightarrow> bool" where
  "mem5_inv X s B F \<longleftrightarrow> part (nBlock s) B \<and> F \<subseteq> dom B \<and> length (aCtrl s) = nBlock s
     \<and> length (aiFreelist s) = 31 \<and> 0 < szAtom s
     \<and> (\<forall>j k. B j = Some k \<longrightarrow> j \<notin> X \<longrightarrow> aCtrl s ! j = ctl (j \<in> F) k)
     \<and> (\<forall>k\<le>30. distinct (aiFreelist s ! k) \<and> set (aiFreelist s ! k) = {j \<in> F. B j = Some k})"

definition live :: "(nat \<Rightarrow> nat option) \<Rightarrow> nat set \<Rightarrow> nat \<Rightarrow> nat option" where
  "live B F j = (if j \<in> F then None else B j)"

lemma mem5_invD:
  assumes "mem5_inv X s B F"
  shows "part (nBlock s) B" "F \<subseteq> dom B" "length (aCtrl s) = nBlock s" "length (aiFreelist s) = 31"
    "0 < szAtom s" "\<And>j k. B j = Some k \<Longrightarrow> j \<notin> X \<Longrightarrow> aCtrl s ! j = ctl (j \<in> F) k"
    "\<And>k. k \<le> 30 \<Longrightarrow> distinct (aiFreelist s ! k)" "\<And>k. k \<le> 30 \<Longrightarrow> set (aiFreelist s ! k) = {j \<in> F. B j = Some k}"
  using assms by (auto simp: mem5_inv_def)

lemma unlink_ok:
  assumes inv: "mem5_inv X s B F" and i: "i \<in> F" "B i = Some k"
  shows "\<exists>s'. memsys5Unlink i k s = Some s' \<and> mem5_inv (insert i X) s' B (F - {i})
    \<and> szAtom s' = szAtom s \<and> nBlock s' = nBlock s \<and> aCtrl s' = aCtrl s"
proof -
  note d = mem5_invD [OF inv]
  have k: "k \<le> 30" using part_block [OF d(1) i(2)] by simp
  have mem: "i \<in> set (aiFreelist s ! k)" using d(8) [OF k] i by simp
  let ?s = "s\<lparr>aiFreelist := (aiFreelist s)[k := remove1 i (aiFreelist s ! k)]\<rparr>"
  have "set (aiFreelist ?s ! l) = {j \<in> F - {i}. B j = Some l} \<and> distinct (aiFreelist ?s ! l)" if "l \<le> 30" for l
    using d(4) d(7,8) [OF that] i that by (cases "l = k") (auto simp: set_remove1_eq distinct_remove1)
  then have "mem5_inv (insert i X) ?s B (F - {i})"
    using d by (auto simp: mem5_inv_def)
  with mem k d(4) show ?thesis by (simp add: memsys5Unlink_def)
qed

lemma link_ok:
  assumes inv: "mem5_inv (insert i X) s B F" and i: "i \<notin> F" "B i = Some k" "aCtrl s ! i = ctl True k"
  shows "mem5_inv X (memsys5Link i k s) B (insert i F)"
proof -
  note d = mem5_invD [OF inv]
  have k: "k \<le> 30" using part_block [OF d(1) i(2)] by simp
  let ?s = "memsys5Link i k s"
  have e: "aiFreelist ?s ! l = (if l = k then i # aiFreelist s ! k else aiFreelist s ! l)" for l
    using d(4) k by (simp add: memsys5Link_def)
  have "set (aiFreelist ?s ! l) = {j \<in> insert i F. B j = Some l} \<and> distinct (aiFreelist ?s ! l)" if "l \<le> 30" for l
  proof (cases "l = k")
    case True
    have "{j \<in> insert i F. B j = Some k} = insert i {j \<in> F. B j = Some k}" using i(2) by auto
    with True i(1) show ?thesis by (simp add: e d(7,8) [OF k])
  next
    case False
    have "{j \<in> insert i F. B j = Some l} = {j \<in> F. B j = Some l}" using i(2) False by auto
    with False show ?thesis by (simp add: e d(7,8) [OF that])
  qed
  moreover have "aCtrl ?s ! j = ctl (j \<in> insert i F) l" if "B j = Some l" "j \<notin> X" for j l
    using d(6) [OF that(1)] that i by (cases "j = i") (auto simp: memsys5Link_def)
  moreover have "insert i F \<subseteq> dom B" using d(2) i(2) by auto
  moreover have "nBlock ?s = nBlock s" "length (aCtrl ?s) = nBlock s" "length (aiFreelist ?s) = 31" "0 < szAtom ?s"
    using d(3,4,5) by (simp_all add: memsys5Link_def)
  ultimately show ?thesis using d(1) unfolding mem5_inv_def by simp
qed


section \<open>Allocation\<close>

lemma setCtrl_ok: "i < length (aCtrl s) \<Longrightarrow> setCtrl i v s = Some (s\<lparr>aCtrl := (aCtrl s)[i := v]\<rparr>)"
  by (simp add: setCtrl_def)

lemma split_step:
  assumes inv: "mem5_inv {i} s B F" and i: "i \<notin> F" "B i = Some (Suc k)"
  defines "j \<equiv> i + 2 ^ k"
  shows "\<exists>s'. setCtrl j (CTRL_FREE OR of_nat k) s = Some s'
    \<and> mem5_inv {i} (memsys5Link j k s') (B(i \<mapsto> k, j \<mapsto> k)) (insert j F)
    \<and> live (B(i \<mapsto> k, j \<mapsto> k)) (insert j F) = (live B F)(i \<mapsto> k) \<and> i \<notin> insert j F
    \<and> szAtom (memsys5Link j k s') = szAtom s \<and> nBlock (memsys5Link j k s') = nBlock s"
proof -
  note d = mem5_invD [OF inv]
  note sp = part_split [OF d(1) i(2), folded j_def]
  let ?B = "B(i \<mapsto> k, j \<mapsto> k)" and ?s = "s\<lparr>aCtrl := (aCtrl s)[j := ctl True k]\<rparr>"
  have ij: "i \<noteq> j" by (simp add: j_def)
  have j: "j < nBlock s" "j \<notin> F" using part_block [OF sp(1), of j k] sp(2) d(2) by auto
  have dom: "F \<subseteq> dom ?B" using d(2) by auto
  have ctl: "aCtrl ?s ! m = ctl (m \<in> F) l" if "?B m = Some l" "m \<notin> {j, i}" for m l
    using d(6) [of m l] that by auto
  have fr: "{m \<in> F. ?B m = Some l} = {m \<in> F. B m = Some l}" for l using i(1) j(2) by auto
  have inv2: "mem5_inv (insert j {i}) ?s ?B F"
    unfolding mem5_inv_def fr using sp(1) dom ctl d(3,4,5,7,8) by simp
  have "mem5_inv {i} (memsys5Link j k ?s) ?B (insert j F)"
    by (rule link_ok [OF inv2 j(2)]) (use j d(3) in simp_all)
  moreover have "live ?B (insert j F) = (live B F)(i \<mapsto> k)"
    using i(1) ij sp(2) j(2) by (auto simp: live_def fun_eq_iff)
  ultimately show ?thesis
    using setCtrl_ok [of j s] j d(3) ij i(1) by (simp add: ctl_free_simps(1) memsys5Link_def)
qed

lemma splitLoop_ok:
  "mem5_inv {i} s B F \<Longrightarrow> i \<notin> F \<Longrightarrow> B i = Some m \<Longrightarrow> k \<le> m \<Longrightarrow>
   \<exists>s' B' F'. splitLoop i m k s = Some s' \<and> mem5_inv {i} s' B' F' \<and> B' i = Some k \<and> i \<notin> F'
     \<and> live B' F' = (live B F)(i \<mapsto> k) \<and> szAtom s' = szAtom s \<and> nBlock s' = nBlock s"
proof (induction m arbitrary: s B F)
  case 0
  then show ?case by (auto simp: live_def fun_eq_iff)
next
  case (Suc m)
  show ?case
  proof (cases "k = Suc m")
    case True
    with Suc.prems show ?thesis by (intro exI [of _ s] exI [of _ B] exI [of _ F]) (auto simp: live_def fun_eq_iff)
  next
    case False
    let ?j = "i + 2 ^ m"
    obtain s1 where s1: "setCtrl ?j (CTRL_FREE OR of_nat m) s = Some s1"
      "mem5_inv {i} (memsys5Link ?j m s1) (B(i \<mapsto> m, ?j \<mapsto> m)) (insert ?j F)"
      "live (B(i \<mapsto> m, ?j \<mapsto> m)) (insert ?j F) = (live B F)(i \<mapsto> m)" "i \<notin> insert ?j F"
      "szAtom (memsys5Link ?j m s1) = szAtom s" "nBlock (memsys5Link ?j m s1) = nBlock s"
      using split_step [OF Suc.prems(1,2,3)] by (elim exE conjE) (rule that)
    have "(B(i \<mapsto> m, ?j \<mapsto> m)) i = Some m" "k \<le> m" using False Suc.prems(4) by auto
    from Suc.IH [OF s1(2,4) this] obtain s' B' F' where "splitLoop i m k (memsys5Link ?j m s1) = Some s'"
      "mem5_inv {i} s' B' F'" "B' i = Some k" "i \<notin> F'" "live B' F' = (live B F)(i \<mapsto> m, i \<mapsto> k)"
      "szAtom s' = szAtom s" "nBlock s' = nBlock s"
      unfolding s1(3,5,6) by (elim exE conjE) (rule that)
    with s1(1) False Suc.prems(4) show ?thesis
      by (intro exI [of _ s'] exI [of _ B'] exI [of _ F']) simp
  qed
qed

lemma fullSzLoop_ok:
  "0 < f \<Longrightarrow> fullSzLoop n f l = (f', l') \<Longrightarrow>
   n \<le> f' \<and> l \<le> l' \<and> f' = f * 2 ^ (l' - l) \<and> (f' = f \<or> f' < 2 * n)"
proof (induction n f l rule: fullSzLoop.induct)
  case (1 n f l)
  show ?case
  proof (cases "f < n")
    case True
    have r: "fullSzLoop n (f * 2) (l + 1) = (f', l')" using 1(2,3) True by (simp add: fullSzLoop.simps [of n f l])
    have ih: "n \<le> f' \<and> l + 1 \<le> l' \<and> f' = f * 2 * 2 ^ (l' - (l + 1)) \<and> (f' = f * 2 \<or> f' < 2 * n)"
      by (rule 1(1) [OF conjI [OF 1(2) True] _ r]) (simp add: 1(2))
    then have "f' = f * 2 ^ (l' - l)" using power_Suc [of "2::nat" "l' - (l + 1)"] by (simp add: Suc_diff_Suc)
    moreover have "f' = f \<or> f' < 2 * n" using ih True by linarith
    ultimately show ?thesis using ih by linarith
  next
    case False
    with 1 show ?thesis by (simp add: fullSzLoop.simps [of n f l])
  qed
qed

lemma binLoop_ok: "binLoop fl i = j \<Longrightarrow> i \<le> j \<and> (j \<le> 30 \<longrightarrow> fl ! j \<noteq> []) \<and> (\<forall>m. i \<le> m \<and> m < j \<and> m \<le> 30 \<longrightarrow> fl ! m = [])"
proof (induction fl i rule: binLoop.induct)
  case (1 fl i)
  show ?case
  proof (cases "i \<le> LOGMAX \<and> fl ! i = []")
    case True
    with 1 have "i + 1 \<le> j \<and> (j \<le> 30 \<longrightarrow> fl ! j \<noteq> []) \<and> (\<forall>m. i + 1 \<le> m \<and> m < j \<and> m \<le> 30 \<longrightarrow> fl ! m = [])"
      by (simp add: binLoop.simps [of fl i])
    with True show ?thesis by (metis Suc_eq_plus1 Suc_leI add_leD1 le_neq_implies_less)
  next
    case False
    with 1 show ?thesis by (auto simp: binLoop.simps [of fl i] LOGMAX_def)
  qed
qed


lemma setCtrl_inv:
  assumes inv: "mem5_inv {i} s B F" and i: "B i = Some k"
  shows "\<exists>s'. setCtrl i (ctl (i \<in> F) k) s = Some s' \<and> mem5_inv {} s' B F
    \<and> szAtom s' = szAtom s \<and> nBlock s' = nBlock s"
proof -
  note d = mem5_invD [OF inv]
  have "i < length (aCtrl s)" using part_block [OF d(1) i] d(3) by simp
  moreover have "(aCtrl s)[i := ctl (i \<in> F) k] ! j = ctl (j \<in> F) l" if "B j = Some l" for j l
    using d(6) [OF that] that i calculation by (cases "j = i") auto
  ultimately show ?thesis using d by (simp add: setCtrl_ok mem5_inv_def)
qed

lemma mallocUnsafe_ok:
  assumes inv: "mem5_inv {} s B F" and n: "0 < n"
  shows "\<exists>r s'. memsys5MallocUnsafe s n = Some (r, s') \<and> szAtom s' = szAtom s \<and> nBlock s' = nBlock s \<and>
    (case r of
       None \<Rightarrow> s' = s \<and> (n > 2 ^ 30 \<or> (\<forall>i\<in>F. \<forall>k. B i = Some k \<longrightarrow> szAtom s * 2 ^ k < n))
     | Some p \<Rightarrow> \<exists>i k B' F'. p = i * szAtom s \<and> live B F i = None \<and> n \<le> szAtom s * 2 ^ k \<and> mem5_inv {} s' B' F'
         \<and> live B' F' = (live B F)(i \<mapsto> k))"
proof (cases "n > 0x40000000")
  case True
  then show ?thesis by (intro exI [of _ None] exI [of _ s]) (simp add: memsys5MallocUnsafe_def)
next
  case False
  note d = mem5_invD [OF inv]
  obtain f k where fk: "fullSzLoop n (szAtom s) 0 = (f, k)" by fastforce
  have f: "n \<le> f" "f = szAtom s * 2 ^ k" "f = szAtom s \<or> f < 2 * n"
    using fullSzLoop_ok [OF d(5) fk] by auto
  define m where "m = binLoop (aiFreelist s) k"
  have m: "k \<le> m" "m \<le> 30 \<longrightarrow> aiFreelist s ! m \<noteq> []" "\<And>l. k \<le> l \<Longrightarrow> l < m \<Longrightarrow> l \<le> 30 \<Longrightarrow> aiFreelist s ! l = []"
    using binLoop_ok [OF m_def [symmetric]] by auto
  show ?thesis
  proof (cases "m > 30")
    case True
    have "szAtom s * 2 ^ l < n" if "i \<in> F" "B i = Some l" for i l
    proof (rule ccontr)
      assume "\<not> szAtom s * 2 ^ l < n"
      have l: "l \<le> 30" using part_block [OF d(1) that(2)] by simp
      have "i \<in> set (aiFreelist s ! l)" using d(8) [OF l] that by simp
      then have "\<not> k \<le> l" using m(3) [of l] l True by auto
      then obtain e where "k = l + Suc e" by (metis add_Suc_right less_iff_Suc_add linorder_not_le)
      then have "f = szAtom s * 2 ^ l * 2 * 2 ^ e" using f(2) by (simp add: power_add)
      moreover have "(1::nat) \<le> 2 ^ e" by simp
      ultimately have "szAtom s * 2 ^ l * 2 \<le> f" by simp
      moreover have "szAtom s \<noteq> f" using \<open>k = l + Suc e\<close> f(2) d(5) by simp
      ultimately show False using \<open>\<not> szAtom s * 2 ^ l < n\<close> f(3) by linarith
    qed
    with True False fk m_def show ?thesis
      by (intro exI [of _ None] exI [of _ s]) (simp add: memsys5MallocUnsafe_def LOGMAX_def)
  next
    case le: False
    define i where "i = hd (aiFreelist s ! m)"
    have "i \<in> set (aiFreelist s ! m)" using m(2) le by (simp add: i_def)
    then have i: "i \<in> F" "B i = Some m" using d(8) [of m] le by auto
    obtain s1 where s1: "memsys5Unlink i m s = Some s1" "mem5_inv {i} s1 B (F - {i})"
      "szAtom s1 = szAtom s" "nBlock s1 = nBlock s"
      using unlink_ok [OF inv i] by auto
    obtain s2 B' F' where s2: "splitLoop i m k s1 = Some s2" "mem5_inv {i} s2 B' F'" "B' i = Some k" "i \<notin> F'"
      "live B' F' = (live B (F - {i}))(i \<mapsto> k)" "szAtom s2 = szAtom s" "nBlock s2 = nBlock s"
      using splitLoop_ok [OF s1(2) _ i(2) m(1)] s1(3,4) by auto
    obtain s3 where s3: "setCtrl i (of_nat k) s2 = Some s3" "mem5_inv {} s3 B' F'" "szAtom s3 = szAtom s" "nBlock s3 = nBlock s"
      using setCtrl_inv [OF s2(2,3)] s2(4,6,7) by (auto simp: ctl_def)
    have "live B' F' = (live B F)(i \<mapsto> k)" unfolding s2(5) by (auto simp: live_def fun_eq_iff)
    moreover have "memsys5MallocUnsafe s n = Some (Some (i * szAtom s), s3)"
      using False le fk s1(1) s2(1) s3(1,3)
      by (simp add: memsys5MallocUnsafe_def m_def [symmetric] i_def [symmetric] LOGMAX_def)
    moreover have "live B F i = None" using i by (simp add: live_def)
    ultimately show ?thesis using s3 f by (intro exI [of _ "Some (i * szAtom s)"] exI [of _ s3]) auto
  qed
qed

section \<open>Release\<close>

lemma buddy_pair:
  fixes i k :: nat
  assumes "2 ^ k dvd i"
  defines "c \<equiv> (if odd (i div 2 ^ k) then i - 2 ^ k else i)"
  defines "j \<equiv> (if odd (i div 2 ^ k) then i - 2 ^ k else i + 2 ^ k)"
  shows "2 ^ Suc k dvd c" "{i, j} = {c, c + 2 ^ k}" "i \<noteq> j" "min i j = c" "max i j = c + 2 ^ k"
    "odd (i div 2 ^ k) \<longleftrightarrow> j < i"
proof -
  obtain q where q: "i = 2 ^ k * q" using assms(1) by (rule dvdE)
  have "(0::nat) < 2 ^ k" by simp
  then have d: "i div 2 ^ k = q" using q by simp
  have "2 ^ Suc k dvd c \<and> {i, j} = {c, c + 2 ^ k} \<and> i \<noteq> j \<and> min i j = c \<and> max i j = c + 2 ^ k \<and> (odd q \<longleftrightarrow> j < i)"
  proof (cases "odd q")
    case True
    then obtain r where r: "q = 2 * r + 1" by (rule oddE)
    then have "i = 2 ^ Suc k * r + 2 ^ k" using q by (simp add: algebra_simps)
    with True d show ?thesis by (auto simp: c_def j_def)
  next
    case False
    then obtain r where r: "q = 2 * r" by (auto elim: evenE)
    then have "i = 2 ^ Suc k * r" using q by simp
    with False d show ?thesis by (auto simp: c_def j_def)
  qed
  then show "2 ^ Suc k dvd c" "{i, j} = {c, c + 2 ^ k}" "i \<noteq> j" "min i j = c" "max i j = c + 2 ^ k"
    "odd (i div 2 ^ k) \<longleftrightarrow> j < i" using d by auto
qed


lemma merge_step:
  assumes inv: "mem5_inv {i} s B F" and i: "B i = Some k" "i \<notin> F" and k: "k < 30"
    and c: "2 ^ Suc k dvd c" "{i, j} = {c, c + 2 ^ k}" "i \<noteq> j" and j: "j < nBlock s" "aCtrl s ! j = ctl True k"
  shows "\<exists>s1 B' F'. memsys5Unlink j k s = Some s1 \<and> length (aCtrl s1) = nBlock s
    \<and> mem5_inv {c} (s1\<lparr>aCtrl := (aCtrl s1)[c := ctl True (Suc k), c + 2 ^ k := 0]\<rparr>) B' F'
    \<and> B' c = Some (Suc k) \<and> c \<notin> F' \<and> (live B' F')(c := None) = (live B F)(i := None)
    \<and> szAtom s1 = szAtom s \<and> nBlock s1 = nBlock s \<and> c + 2 ^ k < nBlock s"
proof -
  note d = mem5_invD [OF inv]
  obtain l where l: "B j = Some l" using buddy_is_block [OF d(1) i(1) c(1,2) j(1)] by auto
  have "l \<le> 30" using part_block [OF d(1) l] by simp
  then have jF: "j \<in> F" "l = k" using d(6) [OF l] c(3) j(2) ctl_eq [of l k "j \<in> F"] k by (auto simp: ctl_def)
  then have Bj: "B j = Some k" using l by simp
  obtain s1 where s1: "memsys5Unlink j k s = Some s1" "mem5_inv (insert j {i}) s1 B (F - {j})"
    "szAtom s1 = szAtom s" "nBlock s1 = nBlock s" "aCtrl s1 = aCtrl s"
    using unlink_ok [OF inv jF(1) Bj] by auto
  note e = mem5_invD [OF s1(2)]
  let ?h = "c + 2 ^ k" and ?F = "F - {j}"
  let ?B = "B(c \<mapsto> Suc k, ?h := None)" and ?s = "s1\<lparr>aCtrl := (aCtrl s1)[c := ctl True (Suc k), c + 2 ^ k := 0]\<rparr>"
  have ch: "B c = Some k" "B ?h = Some k" "c \<notin> ?F" "?h \<notin> ?F" "c \<noteq> ?h"
    using c(2) i Bj by (auto simp: doubleton_eq_iff)
  have part: "part (nBlock s) ?B" using part_merge [OF d(1) ch(1,2) c(1)] k by simp
  have "?F \<subseteq> dom ?B" using e(2) ch by auto
  moreover have "aCtrl ?s ! m = ctl (m \<in> ?F) l" if "?B m = Some l" "m \<notin> {c}" for m l
  proof -
    have "m \<noteq> ?h" "m \<noteq> c" "B m = Some l" using that ch(5) by (auto split: if_splits)
    moreover from this have "m \<notin> {j, i}" using c(2) by auto
    ultimately show ?thesis using e(6) [of m l] by simp
  qed
  moreover have "{m \<in> ?F. ?B m = Some l} = {m \<in> ?F. B m = Some l}" for l using ch by auto
  ultimately have inv2: "mem5_inv {c} ?s ?B ?F"
    using part e(3,4,5,7,8) s1(3,4,5) unfolding mem5_inv_def by simp
  have "((live ?B ?F)(c := None)) m = ((live B F)(i := None)) m" for m
  proof (cases "m = c \<or> m = ?h")
    case True
    then have "m = i \<or> m = j" using c(2) by auto
    with True jF(1) show ?thesis by (auto simp: live_def)
  next
    case False
    then have "m \<noteq> i" "m \<noteq> j" using c(2) by auto
    with False show ?thesis by (simp add: live_def)
  qed
  then have "(live ?B ?F)(c := None) = (live B F)(i := None)" by (rule ext)
  moreover have "?h < nBlock s" using part_block [OF d(1) ch(2)] by simp
  moreover have "?B c = Some (Suc k)" using ch(5) by simp
  ultimately show ?thesis using s1 inv2 ch(3) d(3) by (intro exI [of _ s1] exI [of _ ?B] exI [of _ ?F]) simp
qed

lemma mergeLoop_unfold:
  "z = 2 ^ k \<Longrightarrow> mergeLoop i k z s =
     (let iBuddy = (if odd (i div 2 ^ k) then i - 2 ^ k else i + 2 ^ k) in
      if \<not> k < 30 \<or> \<not> odd (i div 2 ^ k) \<and> iBuddy \<ge> nBlock s \<or> aCtrl s ! iBuddy \<noteq> ctl True k then Some (i, k, s)
      else do {
        s \<leftarrow> memsys5Unlink iBuddy k s;
        if iBuddy < i then do {
          s \<leftarrow> setCtrl iBuddy (ctl True (k + 1)) s; s \<leftarrow> setCtrl i 0 s; mergeLoop iBuddy (k + 1) (z * 2) s
        } else do {
          s \<leftarrow> setCtrl i (ctl True (k + 1)) s; s \<leftarrow> setCtrl iBuddy 0 s; mergeLoop i (k + 1) (z * 2) s
        }
      })"
  unfolding ctl_free_simps(1) [symmetric]
  by (hypsubst, subst mergeLoop.simps)
    (cases "k < 30"; cases "odd (i div 2 ^ k)"; simp only: Let_def LOGMAX_def if_True if_False simp_thms; metis)

lemma mergeLoop_ok:
  "mem5_inv {i} s B F \<Longrightarrow> B i = Some k \<Longrightarrow> i \<notin> F \<Longrightarrow> aCtrl s ! i = ctl True k \<Longrightarrow> z = 2 ^ k \<Longrightarrow>
   \<exists>i' k' s' B' F'. mergeLoop i k z s = Some (i', k', s') \<and> mem5_inv {i'} s' B' F' \<and> B' i' = Some k' \<and> i' \<notin> F'
     \<and> aCtrl s' ! i' = ctl True k' \<and> (live B' F')(i' := None) = (live B F)(i := None)
     \<and> szAtom s' = szAtom s \<and> nBlock s' = nBlock s"
proof (induction "30 - k" arbitrary: i k z s B F rule: less_induct)
  case less
  note inv = less.prems(1) and Bi = less.prems(2) and iF = less.prems(3) and ci = less.prems(4) and z = less.prems(5)
  note d = mem5_invD [OF inv]
  define j where "j = (if odd (i div 2 ^ k) then i - 2 ^ k else i + 2 ^ k)"
  define c where "c = (if odd (i div 2 ^ k) then i - 2 ^ k else i)"
  have dvd: "2 ^ k dvd i" "i < nBlock s" using part_block [OF d(1) Bi] by auto
  note bp = buddy_pair [OF dvd(1), folded c_def j_def]
  let ?stop = "\<not> k < 30 \<or> \<not> odd (i div 2 ^ k) \<and> j \<ge> nBlock s \<or> aCtrl s ! j \<noteq> ctl True k"
  show ?case
  proof (cases ?stop)
    case True
    then have "mergeLoop i k z s = Some (i, k, s)"
      unfolding mergeLoop_unfold [OF z] Let_def j_def [symmetric] by auto
    with less.prems show ?thesis by blast
  next
    case False
    then have k: "k < 30" and cj: "aCtrl s ! j = ctl True k" and jn: "j < nBlock s"
      using bp(6) dvd(2) by auto
    obtain s1 B' F' where s1: "memsys5Unlink j k s = Some s1" "length (aCtrl s1) = nBlock s"
      "mem5_inv {c} (s1\<lparr>aCtrl := (aCtrl s1)[c := ctl True (Suc k), c + 2 ^ k := 0]\<rparr>) B' F'"
      "B' c = Some (Suc k)" "c \<notin> F'" "(live B' F')(c := None) = (live B F)(i := None)"
      "szAtom s1 = szAtom s" "nBlock s1 = nBlock s" "c + 2 ^ k < nBlock s"
      using merge_step [OF inv Bi iF k bp(1,2,3) jn cj] by (elim exE conjE) (rule that)
    define s2 where "s2 = s1\<lparr>aCtrl := (aCtrl s1)[c := ctl True (Suc k), c + 2 ^ k := 0]\<rparr>"
    have c2: "aCtrl s2 ! c = ctl True (Suc k)" using s1(2,9) by (simp add: s2_def)
    have "mergeLoop i k z s = mergeLoop c (k + 1) (z * 2) s2"
    proof (cases "j < i")
      case True
      then have e: "j = c" "i = c + 2 ^ k" using bp(4,5) by auto
      from True False bp(6) k jn cj s1(1,2,9) show ?thesis
        unfolding mergeLoop_unfold [OF z] Let_def j_def [symmetric]
        by (simp add: setCtrl_ok s2_def e)
    next
      case F: False
      then have e: "i = c" "j = c + 2 ^ k" using bp(3,4,5) by auto
      from F False bp(6) k jn cj s1(1,2,9) show ?thesis
        unfolding mergeLoop_unfold [OF z] Let_def j_def [symmetric]
        by (simp add: setCtrl_ok s2_def e)
    qed
    moreover have "\<exists>i' k' s' B'' F''. mergeLoop c (Suc k) (z * 2) s2 = Some (i', k', s') \<and> mem5_inv {i'} s' B'' F'' \<and> B'' i' = Some k' \<and> i' \<notin> F''
     \<and> aCtrl s' ! i' = ctl True k' \<and> (live B'' F'')(i' := None) = (live B' F')(c := None)
     \<and> szAtom s' = szAtom s2 \<and> nBlock s' = nBlock s2"
      by (rule less.hyps) (use k s1 c2 z in \<open>simp_all add: s2_def\<close>)
    ultimately show ?thesis using s1(6,7,8) by (simp add: s2_def)
  qed
qed


lemma freeUnsafe_ok:
  assumes inv: "mem5_inv {} s B F" and i: "live B F i = Some k"
  shows "\<exists>s' B' F'. memsys5FreeUnsafe s (i * szAtom s) = Some s' \<and> mem5_inv {} s' B' F'
    \<and> live B' F' = (live B F)(i := None) \<and> szAtom s' = szAtom s \<and> nBlock s' = nBlock s"
proof -
  note d = mem5_invD [OF inv]
  have Bi: "B i = Some k" "i \<notin> F" using i by (auto simp: live_def split: if_splits)
  note bl = part_block [OF d(1) Bi(1)]
  have k: "k \<le> 30" using bl by simp
  have one: "(1::nat) \<le> 2 ^ k" by simp
  have idx: "i * szAtom s div szAtom s = i" "unat (aCtrl s ! i AND CTRL_LOGSIZE) = k"
    using d(5,6) Bi ctl_log [OF k, of False] by auto
  let ?e = "i + 2 ^ k - 1"
  have len: "i < length (aCtrl s)" "?e < length (aCtrl s)" using bl d(3) one by linarith+
  define a where "a = (aCtrl s)[i := aCtrl s ! i OR CTRL_FREE]"
  define b where "b = a[?e := a ! ?e OR CTRL_FREE]"
  define s1 where "s1 = s\<lparr>aCtrl := b[i := ctl True k]\<rparr>"
  have la: "length a = nBlock s" "length b = nBlock s" using d(3) by (simp_all add: a_def b_def)
  have ctrl: "aCtrl s1 ! m = ctl (m \<in> F) l" if "B m = Some l" "m \<notin> {i}" for m l
  proof -
    have "(1::nat) \<le> 2 ^ l" by simp
    moreover have "i + 2 ^ k \<le> m \<or> m + 2 ^ l \<le> i" using part_disjoint [OF d(1) Bi(1) that(1)] that(2) by auto
    ultimately have "m \<noteq> ?e" using one by linarith
    then show ?thesis using d(6) [OF that(1)] that(2) by (simp add: s1_def b_def a_def)
  qed
  have inv1: "mem5_inv {i} s1 B F"
    unfolding mem5_inv_def using ctrl d la by (simp add: s1_def)
  have c1: "aCtrl s1 ! i = ctl True k" using la bl by (simp add: s1_def)
  obtain i' k' s' B' F' where m: "mergeLoop i k (2 ^ k) s1 = Some (i', k', s')" "mem5_inv {i'} s' B' F'"
    "B' i' = Some k'" "i' \<notin> F'" "aCtrl s' ! i' = ctl True k'" "(live B' F')(i' := None) = (live B F)(i := None)"
    "szAtom s' = szAtom s1" "nBlock s' = nBlock s1"
    using mergeLoop_ok [OF inv1 Bi c1 refl] by (elim exE conjE) (rule that)
  have "memsys5FreeUnsafe s (i * szAtom s) = Some (memsys5Link i' k' s')"
    unfolding memsys5FreeUnsafe_def Let_def idx ctl_free_simps(1)
    using len m(1) d(3) by (simp add: setCtrl_ok a_def b_def s1_def)
  moreover have "mem5_inv {} (memsys5Link i' k' s') B' (insert i' F')"
    using link_ok [of i' "{}" s' B' F' k'] m by simp
  moreover have "live B' (insert i' F') = (live B F)(i := None)"
    unfolding m(6) [symmetric] by (auto simp: live_def fun_eq_iff)
  ultimately show ?thesis using m(7,8)
    by (intro exI [of _ "memsys5Link i' k' s'"] exI [of _ B'] exI [of _ "insert i' F'"]) (simp add: memsys5Link_def s1_def)
qed

section \<open>Initialisation\<close>

lemma part_extend:
  assumes p: "part n B" and k: "2 ^ k dvd n" "k \<le> 30"
  shows "part (n + 2 ^ k) (B(n \<mapsto> k))" "B n = None"
proof -
  let ?C = "B(n \<mapsto> k)"
  show none: "B n = None" using part_block [OF p, of n] by (cases "B n") auto
  have cov: "covers ?C x y \<longleftrightarrow> (if y = n then n \<le> x \<and> x < n + 2 ^ k else covers B x y)" for x y
    by (auto simp: covers_def)
  have less: "x < n" if "covers B x y" for x y using that part_block [OF p, of y] by (fastforce simp: covers_def)
  have "\<exists>!y. covers ?C x y" if x: "x < n + 2 ^ k" for x
  proof (cases "x < n")
    case True
    obtain y where y: "covers B x y" using part_cover_ex [OF p True] by auto
    with True show ?thesis
      by (intro ex1I [of _ y]) (use none part_cover_unique [OF p] cov in \<open>auto simp: covers_def split: if_splits\<close>)
  next
    case False
    with x show ?thesis by (intro ex1I [of _ n]) (use less cov in \<open>auto split: if_splits\<close>)
  qed
  moreover have "k' \<le> 30 \<and> 2 ^ k' dvd y \<and> y + 2 ^ k' \<le> n + 2 ^ k" if "?C y = Some k'" for y k'
    using that k part_block [OF p, of y k'] by (auto split: if_splits)
  ultimately show "part (n + 2 ^ k) ?C" unfolding part_def by blast
qed

definition init_inv :: "nat \<Rightarrow> mem5 \<Rightarrow> (nat \<Rightarrow> nat option) \<Rightarrow> bool" where
  "init_inv off s B \<longleftrightarrow> part off B \<and> off \<le> nBlock s \<and> length (aCtrl s) = nBlock s \<and> length (aiFreelist s) = 31
     \<and> 0 < szAtom s \<and> (\<forall>j k. B j = Some k \<longrightarrow> aCtrl s ! j = ctl True k)
     \<and> (\<forall>k\<le>30. distinct (aiFreelist s ! k) \<and> set (aiFreelist s ! k) = {j. B j = Some k})"

lemma init_step:
  assumes inv: "init_inv off s B" and k: "2 ^ k dvd off" "k \<le> 30" "off + 2 ^ k \<le> nBlock s"
  shows "\<exists>s'. setCtrl off (of_nat k OR CTRL_FREE) s = Some s' \<and> init_inv (off + 2 ^ k) (memsys5Link off k s') (B(off \<mapsto> k))
    \<and> nBlock (memsys5Link off k s') = nBlock s \<and> szAtom (memsys5Link off k s') = szAtom s"
proof -
  have i: "part off B" "length (aCtrl s) = nBlock s" "length (aiFreelist s) = 31" "0 < szAtom s"
    "\<And>j l. B j = Some l \<Longrightarrow> aCtrl s ! j = ctl True l"
    "\<And>l. l \<le> 30 \<Longrightarrow> distinct (aiFreelist s ! l) \<and> set (aiFreelist s ! l) = {j. B j = Some l}"
    using inv by (auto simp: init_inv_def)
  note pe = part_extend [OF i(1) k(1,2)]
  let ?s = "s\<lparr>aCtrl := (aCtrl s)[off := ctl True k]\<rparr>"
  have "(1::nat) \<le> 2 ^ k" by simp
  then have off: "off < nBlock s" using k(3) by linarith
  let ?t = "memsys5Link off k ?s"
  have e: "aiFreelist ?t ! l = (if l = k then off # aiFreelist s ! k else aiFreelist s ! l)" for l
    using i(3) k(2) by (simp add: memsys5Link_def)
  have "distinct (aiFreelist ?t ! l) \<and> set (aiFreelist ?t ! l) = {j. (B(off \<mapsto> k)) j = Some l}" if "l \<le> 30" for l
    unfolding e using i(6) [OF that] pe(2) by (cases "l = k") auto
  moreover have "aCtrl ?t ! j = ctl True l" if "(B(off \<mapsto> k)) j = Some l" for j l
    using that i(2,5) off by (cases "j = off") (auto simp: memsys5Link_def)
  ultimately have "init_inv (off + 2 ^ k) ?t (B(off \<mapsto> k))"
    using pe(1) k(3) i(2,3,4) by (simp add: init_inv_def memsys5Link_def)
  then show ?thesis
    using setCtrl_ok [of off s] off i(2) by (simp add: ctl_free_simps(2) memsys5Link_def)
qed

lemma initLoop_ok:
  "init_inv off s B \<Longrightarrow> 2 ^ m dvd off \<Longrightarrow> m \<le> 31 \<Longrightarrow> nBlock s < off + 2 ^ m \<Longrightarrow>
   \<exists>s' B'. initLoop m off s = Some (nBlock s, s') \<and> init_inv (nBlock s) s' B' \<and> nBlock s' = nBlock s \<and> szAtom s' = szAtom s"
proof (induction m arbitrary: off s B)
  case 0
  then have "off = nBlock s" by (simp add: init_inv_def)
  with 0 show ?case by auto
next
  case (Suc m)
  have dvd: "2 ^ m dvd off" using Suc.prems(2) by (metis dvd_trans le_imp_power_dvd lessI less_imp_le)
  show ?case
  proof (cases "off + 2 ^ m \<le> nBlock s")
    case True
    obtain s1 where s1: "setCtrl off (of_nat m OR CTRL_FREE) s = Some s1"
      "init_inv (off + 2 ^ m) (memsys5Link off m s1) (B(off \<mapsto> m))"
      "nBlock (memsys5Link off m s1) = nBlock s" "szAtom (memsys5Link off m s1) = szAtom s"
      using init_step [OF Suc.prems(1) dvd _ True] Suc.prems(3) by auto
    from Suc.IH [OF s1(2)] dvd Suc.prems(3,4) s1 True show ?thesis by simp
  next
    case False
    from Suc.IH [OF Suc.prems(1) dvd] Suc.prems(3) False show ?thesis by simp
  qed
qed


section \<open>Interface: the memory methods\<close>

text \<open>
  What the rest of SQLite relies on in \<open>sqlite3_mem_methods\<close>: \<open>rel s L\<close> says that in state \<open>s\<close> the
  outstanding allocations are \<open>L\<close>, a map from addresses to sizes.
\<close>

definition apart :: "(nat \<Rightarrow> nat option) \<Rightarrow> bool" where
  "apart L \<longleftrightarrow> (\<forall>p q z w. L p = Some z \<longrightarrow> L q = Some w \<longrightarrow> p \<noteq> q \<longrightarrow> p + z \<le> q \<or> q + w \<le> p)"

datatype mem_op = MMalloc nat | MFree nat

fun mem_run :: "('s \<Rightarrow> nat \<Rightarrow> (nat option \<times> 's) option) \<Rightarrow> ('s \<Rightarrow> nat \<Rightarrow> 's option) \<Rightarrow> ('s \<Rightarrow> nat \<Rightarrow> nat)
    \<Rightarrow> 's \<Rightarrow> (nat \<Rightarrow> nat option) \<Rightarrow> mem_op list \<Rightarrow> ('s \<times> (nat \<Rightarrow> nat option)) option" where
  "mem_run xMalloc xFree xSize s L [] = Some (s, L)"
| "mem_run xMalloc xFree xSize s L (MMalloc n # ops) = do {
     (r, s) \<leftarrow> xMalloc s n;
     mem_run xMalloc xFree xSize s (case r of None \<Rightarrow> L | Some p \<Rightarrow> L(p \<mapsto> xSize s p)) ops
   }"
| "mem_run xMalloc xFree xSize s L (MFree p # ops) =
     (if L p = None then mem_run xMalloc xFree xSize s L ops
      else do { s \<leftarrow> xFree s p; mem_run xMalloc xFree xSize s (L(p := None)) ops })"

locale mem_methods =
  fixes rel :: "'s \<Rightarrow> (nat \<Rightarrow> nat option) \<Rightarrow> bool"
    and pool :: "'s \<Rightarrow> nat"
    and xMalloc :: "'s \<Rightarrow> nat \<Rightarrow> (nat option \<times> 's) option"
    and xFree :: "'s \<Rightarrow> nat \<Rightarrow> 's option"
    and xSize :: "'s \<Rightarrow> nat \<Rightarrow> nat"
  assumes rel_apart: "rel s L \<Longrightarrow> apart L"
    and rel_pool: "rel s L \<Longrightarrow> L p = Some z \<Longrightarrow> p + z \<le> pool s"
    and size_ok: "rel s L \<Longrightarrow> L p = Some z \<Longrightarrow> xSize s p = z"
    and malloc_ok: "rel s L \<Longrightarrow> \<exists>r s'. xMalloc s n = Some (r, s') \<and> pool s' = pool s \<and>
      (case r of None \<Rightarrow> rel s' L
       | Some p \<Rightarrow> L p = None \<and> n \<le> xSize s' p \<and> rel s' (L(p \<mapsto> xSize s' p)))"
    and free_ok: "rel s L \<Longrightarrow> L p \<noteq> None \<Longrightarrow> \<exists>s'. xFree s p = Some s' \<and> pool s' = pool s \<and> rel s' (L(p := None))"
begin

lemma run_ok:
  "rel s L \<Longrightarrow> \<exists>s' L'. mem_run xMalloc xFree xSize s L ops = Some (s', L') \<and> rel s' L' \<and> pool s' = pool s"
proof (induction ops arbitrary: s L)
  case Nil
  then show ?case by simp
next
  case (Cons x ops)
  show ?case
  proof (cases x)
    case (MMalloc n)
    obtain r s1 where s1: "xMalloc s n = Some (r, s1)" "pool s1 = pool s"
      "rel s1 (case r of None \<Rightarrow> L | Some p \<Rightarrow> L(p \<mapsto> xSize s1 p))"
      using malloc_ok [OF Cons.prems, of n] by (auto split: option.splits)
    with Cons.IH [OF s1(3)] MMalloc show ?thesis by simp
  next
    case (MFree p)
    show ?thesis
    proof (cases "L p = None")
      case True
      with MFree Cons.IH [OF Cons.prems] show ?thesis by simp
    next
      case False
      then obtain s1 where s1: "xFree s p = Some s1" "pool s1 = pool s" "rel s1 (L(p := None))"
        using free_ok [OF Cons.prems] by blast
      with MFree False Cons.IH [OF s1(3)] show ?thesis by (simp only: mem_run.simps if_False bind.bind_lunit)
    qed
  qed
qed

lemma run_apart:
  assumes "rel s L"
  shows "\<exists>s' L'. mem_run xMalloc xFree xSize s L ops = Some (s', L') \<and> apart L' \<and>
    (\<forall>p z. L' p = Some z \<longrightarrow> p + z \<le> pool s \<and> xSize s' p = z)"
proof -
  obtain s' L' where "mem_run xMalloc xFree xSize s L ops = Some (s', L')" "rel s' L'" "pool s' = pool s"
    using run_ok [OF assms] by blast
  with rel_apart [of s' L'] rel_pool [of s' L'] size_ok [of s' L'] show ?thesis by auto
qed

end

definition in_bytes :: "nat \<Rightarrow> (nat \<Rightarrow> nat option) \<Rightarrow> nat \<Rightarrow> nat option" where
  "in_bytes a M p = (if a dvd p then map_option (\<lambda>k. a * 2 ^ k) (M (p div a)) else None)"

definition mem5_rel :: "mem5 \<Rightarrow> (nat \<Rightarrow> nat option) \<Rightarrow> bool" where
  "mem5_rel s L \<longleftrightarrow> (\<exists>B F. mem5_inv {} s B F \<and> L = in_bytes (szAtom s) (live B F))"

definition mem5_pool :: "mem5 \<Rightarrow> nat" where
  "mem5_pool s = nBlock s * szAtom s"

lemma in_bytes_SomeE:
  assumes "in_bytes a M p = Some z" "0 < a"
  obtains i k where "p = i * a" "M i = Some k" "z = a * 2 ^ k"
  using assms by (auto simp: in_bytes_def split: if_splits elim!: dvdE)

lemma in_bytes_upd: "0 < a \<Longrightarrow> in_bytes a (M(i := x)) = (in_bytes a M)(i * a := map_option (\<lambda>k. a * 2 ^ k) x)"
  by (auto simp: in_bytes_def fun_eq_iff elim!: dvdE)

lemma live_SomeD: "live B F i = Some k \<Longrightarrow> B i = Some k \<and> i \<notin> F"
  by (auto simp: live_def split: if_splits)

lemma mem5_size:
  assumes "mem5_inv {} s B F" "live B F i = Some k"
  shows "memsys5Size s (i * szAtom s) = szAtom s * 2 ^ k"
proof -
  note d = mem5_invD [OF assms(1)] and l = live_SomeD [OF assms(2)]
  have "k \<le> 30" using part_block [OF d(1)] l by auto
  then show ?thesis using d(5) d(6) [of i k] l ctl_log [of k False] by (simp add: memsys5Size_def)
qed

interpretation mem5: mem_methods mem5_rel mem5_pool memsys5Malloc memsys5Free memsys5Size
proof
  fix s L assume rel: "mem5_rel s L"
  then obtain B F where inv: "mem5_inv {} s B F" and L: "L = in_bytes (szAtom s) (live B F)" by (auto simp: mem5_rel_def)
  note d = mem5_invD [OF inv]
  let ?a = "szAtom s"
  show "apart L"
    unfolding apart_def
  proof (intro allI impI)
    fix p q z w assume a: "L p = Some z" "L q = Some w" "p \<noteq> q"
    obtain i k where i: "p = i * ?a" "live B F i = Some k" "z = ?a * 2 ^ k" using a(1) d(5) unfolding L by (rule in_bytes_SomeE)
    obtain j l where j: "q = j * ?a" "live B F j = Some l" "w = ?a * 2 ^ l" using a(2) d(5) unfolding L by (rule in_bytes_SomeE)
    have "i \<noteq> j" using a(3) i(1) j(1) by auto
    then have "i + 2 ^ k \<le> j \<or> j + 2 ^ l \<le> i"
      using part_disjoint [OF d(1)] live_SomeD [OF i(2)] live_SomeD [OF j(2)] by blast
    then have "(i + 2 ^ k) * ?a \<le> j * ?a \<or> (j + 2 ^ l) * ?a \<le> i * ?a" by (meson mult_le_mono1)
    then show "p + z \<le> q \<or> q + w \<le> p" using i j by (simp add: algebra_simps)
  qed
  { fix p z assume "L p = Some z"
    then obtain i k where i: "p = i * ?a" "live B F i = Some k" "z = ?a * 2 ^ k" using d(5) unfolding L by (rule in_bytes_SomeE)
    then have "i + 2 ^ k \<le> nBlock s" using part_block [OF d(1)] live_SomeD [OF i(2)] by blast
    then have "(i + 2 ^ k) * ?a \<le> nBlock s * ?a" by (rule mult_le_mono1)
    then show "p + z \<le> mem5_pool s" using i by (simp add: mem5_pool_def algebra_simps)
    show "memsys5Size s p = z" using mem5_size [OF inv i(2)] i by simp }
  { fix n
    show "\<exists>r s'. memsys5Malloc s n = Some (r, s') \<and> mem5_pool s' = mem5_pool s \<and>
      (case r of None \<Rightarrow> mem5_rel s' L
       | Some p \<Rightarrow> L p = None \<and> n \<le> memsys5Size s' p \<and> mem5_rel s' (L(p \<mapsto> memsys5Size s' p)))"
    proof (cases "n = 0")
      case True
      with rel show ?thesis by (simp add: memsys5Malloc_def)
    next
      case False
      then have n0: "0 < n" by simp
      obtain r s' where r: "memsys5MallocUnsafe s n = Some (r, s')" "szAtom s' = ?a" "nBlock s' = nBlock s"
        "case r of None \<Rightarrow> s' = s \<and> (n > 2 ^ 30 \<or> (\<forall>i\<in>F. \<forall>k. B i = Some k \<longrightarrow> szAtom s * 2 ^ k < n))
         | Some p \<Rightarrow> \<exists>i k B' F'. p = i * ?a \<and> live B F i = None \<and> n \<le> ?a * 2 ^ k \<and> mem5_inv {} s' B' F'
            \<and> live B' F' = (live B F)(i \<mapsto> k)"
        using mallocUnsafe_ok [OF inv n0] by (elim exE conjE) (rule that)
      show ?thesis
      proof (cases r)
        case None
        with r rel False show ?thesis by (auto simp: memsys5Malloc_def)
      next
        case (Some p)
        with r(4) obtain i k B' F' where p: "p = i * ?a" "live B F i = None" "n \<le> ?a * 2 ^ k" "mem5_inv {} s' B' F'"
          "live B' F' = (live B F)(i \<mapsto> k)" by auto
        have sz: "memsys5Size s' p = ?a * 2 ^ k" using mem5_size [OF p(4), of i k] p(1,5) r(2) by simp
        have "L(p \<mapsto> ?a * 2 ^ k) = in_bytes ?a (live B' F')" unfolding L p(1,5) in_bytes_upd [OF d(5)] by simp
        then have "mem5_rel s' (L(p \<mapsto> ?a * 2 ^ k))" using p(4) r(2) unfolding mem5_rel_def by metis
        moreover have "L p = None" using p(1,2) d(5) by (simp add: L in_bytes_def)
        ultimately show ?thesis using r False Some sz p(3) by (simp add: memsys5Malloc_def mem5_pool_def)
      qed
    qed }
  { fix p assume "L p \<noteq> None"
    then obtain z where "L p = Some z" by auto
    then obtain i k where i: "p = i * ?a" "live B F i = Some k" using d(5) unfolding L by (elim in_bytes_SomeE) blast
    obtain s' B' F' where f: "memsys5FreeUnsafe s (i * ?a) = Some s'" "mem5_inv {} s' B' F'"
      "live B' F' = (live B F)(i := None)" "szAtom s' = ?a" "nBlock s' = nBlock s"
      using freeUnsafe_ok [OF inv i(2)] by (elim exE conjE) (rule that)
    have "L(p := None) = in_bytes ?a (live B' F')" unfolding L i(1) f(3) in_bytes_upd [OF d(5)] by simp
    then have "mem5_rel s' (L(p := None))" using f(2,4) unfolding mem5_rel_def by metis
    with f i(1) show "\<exists>s'. memsys5Free s p = Some s' \<and> mem5_pool s' = mem5_pool s \<and> mem5_rel s' (L(p := None))"
      by (simp add: memsys5Free_def mem5_pool_def) }
qed


lemma memsys5Init_inv:
  assumes "nByte < 2 ^ 31"
  shows "\<exists>s. memsys5Init nByte mnReq junk = Some s \<and> mem5_rel s Map.empty \<and> 8 \<le> szAtom s \<and> mem5_pool s + nBlock s \<le> nByte
    \<and> szAtom s = fst (fullSzLoop 8 (2 ^ memsys5Log mnReq) 0) \<and> nBlock s = nByte div (szAtom s + 1)"
proof -
  define a where "a = fst (fullSzLoop 8 (2 ^ memsys5Log mnReq) 0)"
  have a: "8 \<le> a" using fullSzLoop_ok [of "2 ^ memsys5Log mnReq" 8 0] by (cases "fullSzLoop 8 (2 ^ memsys5Log mnReq) 0") (auto simp: a_def)
  define n where "n = nByte div (a + 1)"
  have n: "n < 2 ^ 31" using assms div_le_dividend [of nByte "a + 1"] unfolding n_def by linarith
  define t where "t = \<lparr>szAtom = a, nBlock = n, aiFreelist = replicate (LOGMAX + 1) [], aCtrl = map junk [0..<n]\<rparr>"
  have "init_inv 0 t Map.empty"
    using a by (auto simp: init_inv_def t_def part_def LOGMAX_def)
  from initLoop_ok [OF this, of 31] n obtain s B where s: "initLoop 31 0 t = Some (n, s)" "init_inv n s B"
    "nBlock s = n" "szAtom s = a"
    by (auto simp: t_def)
  have "mem5_inv {} s B (dom B)"
    using s(2,3) by (auto simp: init_inv_def mem5_inv_def dom_def)
  moreover have "in_bytes a (live B (dom B)) = Map.empty"
    by (auto simp: in_bytes_def live_def fun_eq_iff domIff)
  ultimately have "mem5_rel s Map.empty" using s(4) unfolding mem5_rel_def by metis
  moreover have "memsys5Init nByte mnReq junk = Some s"
    unfolding memsys5Init_def Let_def a_def [symmetric] n_def [symmetric] t_def [symmetric]
    using s(1) by (simp add: LOGMAX_def)
  moreover have "n * (a + 1) \<le> nByte" unfolding n_def by (rule div_times_less_eq_dividend)
  ultimately show ?thesis using s(3,4) a
    by (intro exI [of _ s]) (simp add: mem5_pool_def algebra_simps n_def a_def)
qed

section \<open>Correctness\<close>

text \<open>C13. The buddy allocator never corrupts its pool: after \<open>memsys5Init\<close> on any heap, with any
  contents of its memory, every sequence of requests and releases of outstanding blocks runs to
  the end (no free-list or control byte is touched out of place), the blocks handed out lie inside
  the pool and never overlap, and \<open>memsys5Size\<close> gives their sizes.\<close>

theorem memsys5_run_safe:
  assumes "nByte < 2 ^ 31"
  shows "\<exists>s s' L. memsys5Init nByte mnReq junk = Some s
    \<and> mem_run memsys5Malloc memsys5Free memsys5Size s Map.empty ops = Some (s', L)
    \<and> (\<forall>p z. L p = Some z \<longrightarrow> p + z \<le> nByte \<and> memsys5Size s' p = z)
    \<and> (\<forall>p q z w. L p = Some z \<longrightarrow> L q = Some w \<longrightarrow> p \<noteq> q \<longrightarrow> p + z \<le> q \<or> q + w \<le> p)"
proof -
  obtain s where s: "memsys5Init nByte mnReq junk = Some s" "mem5_rel s Map.empty" "mem5_pool s + nBlock s \<le> nByte"
    using memsys5Init_inv [OF assms] by blast
  obtain s' L where "mem_run memsys5Malloc memsys5Free memsys5Size s Map.empty ops = Some (s', L)" "apart L"
    "\<forall>p z. L p = Some z \<longrightarrow> p + z \<le> mem5_pool s \<and> memsys5Size s' p = z"
    using mem5.run_apart [OF s(2), of ops] by (elim exE conjE) (rule that)
  moreover from this(3) s(3) have "\<forall>p z. L p = Some z \<longrightarrow> p + z \<le> nByte \<and> memsys5Size s' p = z"
    by fastforce
  ultimately show ?thesis using s(1) unfolding apart_def by blast
qed

lemma memsys5_run_safe_witness:
  "\<exists>s s' L. memsys5Init 1000 16 (\<lambda>_. 0) = Some s
    \<and> mem_run memsys5Malloc memsys5Free memsys5Size s Map.empty [MMalloc 20, MMalloc 100, MFree 0, MMalloc 7] = Some (s', L)"
  using memsys5_run_safe [of 1000 16 "\<lambda>_. 0" "[MMalloc 20, MMalloc 100, MFree 0, MMalloc 7]"] by auto

text \<open>One request: in any reachable state \<open>memsys5Malloc\<close> returns a block of at least the size
  asked for that was not outstanding and adds exactly that block to the outstanding ones, or it
  returns NULL and changes nothing; it returns NULL only for an empty request, one above 1 GiB, or
  when every free block is smaller than the request.\<close>

theorem memsys5Malloc_correct:
  assumes "mem5_inv {} s B F"
  shows "\<exists>r s'. memsys5Malloc s n = Some (r, s') \<and>
    (case r of
       None \<Rightarrow> s' = s \<and> (n = 0 \<or> n > 2 ^ 30 \<or> (\<forall>i\<in>F. \<forall>k. B i = Some k \<longrightarrow> szAtom s * 2 ^ k < n))
     | Some p \<Rightarrow> \<exists>i k B' F'. p = i * szAtom s \<and> live B F i = None \<and> n \<le> szAtom s * 2 ^ k \<and> mem5_inv {} s' B' F'
         \<and> live B' F' = (live B F)(i \<mapsto> k))"
proof (cases "n = 0")
  case True
  then show ?thesis by (intro exI [of _ None] exI [of _ s]) (simp add: memsys5Malloc_def)
next
  case False
  then have "0 < n" by simp
  from mallocUnsafe_ok [OF assms this] obtain r s' where r: "memsys5MallocUnsafe s n = Some (r, s')"
    "case r of None \<Rightarrow> s' = s \<and> (n > 2 ^ 30 \<or> (\<forall>i\<in>F. \<forall>k. B i = Some k \<longrightarrow> szAtom s * 2 ^ k < n))
     | Some p \<Rightarrow> \<exists>i k B' F'. p = i * szAtom s \<and> live B F i = None \<and> n \<le> szAtom s * 2 ^ k \<and> mem5_inv {} s' B' F'
         \<and> live B' F' = (live B F)(i \<mapsto> k)" by (elim exE conjE) (rule that)
  then show ?thesis using False by (intro exI [of _ r] exI [of _ s']) (cases r; simp add: memsys5Malloc_def)
qed

lemma memsys5Malloc_correct_witness:
  "\<exists>s. memsys5Init 100 8 (\<lambda>_. 0) = Some s \<and> (\<exists>r s'. memsys5Malloc s (2 ^ 31) = Some (r, s'))"
proof -
  obtain s where s: "memsys5Init 100 8 (\<lambda>_. 0) = Some s" "mem5_rel s Map.empty"
    using memsys5Init_inv [of 100 8 "\<lambda>_. 0"] by auto
  then obtain B F where "mem5_inv {} s B F" by (auto simp: mem5_rel_def)
  from memsys5Malloc_correct [OF this, of "2 ^ 31"] s(1) show ?thesis by blast
qed

text \<open>\<open>memsys5Realloc\<close> of an outstanding block to a larger size either moves it (the new block is at
  least that large, the old one is released, no other block changes) or returns NULL with the old
  block still outstanding; a request that the old block already satisfies returns the old block.\<close>

theorem memsys5Realloc_correct:
  assumes "mem5_rel s L" "L p = Some z" "0 < n"
  shows "\<exists>r s'. memsys5Realloc s p n = Some (r, s') \<and>
    (case r of
       None \<Rightarrow> z < n \<and> mem5_rel s' L
     | Some q \<Rightarrow> \<exists>w. n \<le> w \<and> mem5_rel s' (L(p := None, q \<mapsto> w)))"
proof (cases "n \<le> z")
  case True
  have "L(p := None, p \<mapsto> z) = L" using assms(2) by auto
  with True assms mem5.size_ok [OF assms(1,2)] show ?thesis
    by (intro exI [of _ "Some p"] exI [of _ s]) (auto simp: memsys5Realloc_def)
next
  case False
  obtain r s1 where m: "memsys5Malloc s n = Some (r, s1)"
    "case r of None \<Rightarrow> mem5_rel s1 L
      | Some q \<Rightarrow> L q = None \<and> n \<le> memsys5Size s1 q \<and> mem5_rel s1 (L(q \<mapsto> memsys5Size s1 q))"
    using mem5.malloc_ok [OF assms(1), of n] by (elim exE conjE) (rule that)
  have re: "memsys5Realloc s p n = (case r of None \<Rightarrow> Some (None, s1)
      | Some q \<Rightarrow> do { s \<leftarrow> memsys5Free s1 p; Some (Some q, s) })"
    using False assms(3) mem5.size_ok [OF assms(1,2)] m(1) by (simp add: memsys5Realloc_def)
  show ?thesis
  proof (cases r)
    case None
    with m(2) re False show ?thesis by (intro exI [of _ None] exI [of _ s1]) simp
  next
    case (Some q)
    let ?w = "memsys5Size s1 q"
    have q: "q \<noteq> p" "n \<le> ?w" "mem5_rel s1 (L(q \<mapsto> ?w))" using m(2) Some assms(2) by auto
    have "(L(q \<mapsto> ?w)) p \<noteq> None" using q(1) assms(2) by simp
    from mem5.free_ok [OF q(3) this] obtain s2 where s2: "memsys5Free s1 p = Some s2" "mem5_rel s2 ((L(q \<mapsto> ?w))(p := None))"
      by blast
    have "(L(q \<mapsto> ?w))(p := None) = L(p := None, q \<mapsto> ?w)" using q(1) by auto
    with s2 re Some q(2) show ?thesis by (intro exI [of _ "Some q"] exI [of _ s2]) auto
  qed
qed


lemma init_has_free:
  assumes "mem5_inv {} s B F" "in_bytes (szAtom s) (live B F) = Map.empty" "0 < nBlock s"
  shows "\<exists>i k. i \<in> F \<and> B i = Some k"
proof -
  note d = mem5_invD [OF assms(1)]
  obtain i k where i: "B i = Some k" using part_cover_ex [OF d(1) assms(3)] by (auto simp: covers_def)
  have "in_bytes (szAtom s) (live B F) (i * szAtom s) = None" using assms(2) by simp
  then have "live B F i = None" using d(5) by (simp add: in_bytes_def)
  with i show ?thesis by (auto simp: live_def split: if_splits)
qed


lemma memsys5Realloc_correct_witness:
  "\<exists>s p r s'. memsys5Realloc s p 8 = Some (r, s')
     \<and> (case r of None \<Rightarrow> memsys5Size s p < 8 \<and> mem5_rel s' (Map.empty(p \<mapsto> memsys5Size s p))
         | Some q \<Rightarrow> \<exists>w. 8 \<le> w \<and> mem5_rel s' (Map.empty(p \<mapsto> memsys5Size s p, p := None, q \<mapsto> w)))"
proof -
  have "memsys5Log 8 = 3" by (simp add: memsys5Log_def log5Loop.simps)
  moreover have "fst (fullSzLoop 8 8 0) = 8" by (simp add: fullSzLoop.simps)
  ultimately obtain s where s: "mem5_rel s Map.empty" "szAtom s = 8" "nBlock s = 6"
    using memsys5Init_inv [of 60 8 "\<lambda>_. 0"] by auto
  then obtain B F where inv: "mem5_inv {} s B F" "in_bytes (szAtom s) (live B F) = Map.empty" by (auto simp: mem5_rel_def)
  obtain i k where "i \<in> F" "B i = Some k" using init_has_free [OF inv] s(3) by auto
  then have big: "\<not> (\<forall>i\<in>F. \<forall>k. B i = Some k \<longrightarrow> szAtom s * 2 ^ k < 1)" using s(2) by auto
  obtain r t where r: "memsys5MallocUnsafe s 1 = Some (r, t)"
    "case r of None \<Rightarrow> t = s \<and> (1 > (2::nat) ^ 30 \<or> (\<forall>i\<in>F. \<forall>k. B i = Some k \<longrightarrow> szAtom s * 2 ^ k < 1))
     | Some p \<Rightarrow> \<exists>i k B' F'. p = i * szAtom s \<and> live B F i = None \<and> 1 \<le> szAtom s * 2 ^ k \<and> mem5_inv {} t B' F'
         \<and> live B' F' = (live B F)(i \<mapsto> k)"
    using mallocUnsafe_ok [OF inv(1), of 1] by auto
  then obtain p where p: "r = Some p" using big by (cases r) auto
  then have "memsys5Malloc s 1 = Some (Some p, t)" using r(1) by (simp add: memsys5Malloc_def)
  with mem5.malloc_ok [OF s(1), of 1] have "mem5_rel t (Map.empty(p \<mapsto> memsys5Size t p))" by auto
  then show ?thesis
    by (intro exI [of _ t] exI [of _ p])
      (rule memsys5Realloc_correct [of t "Map.empty(p \<mapsto> memsys5Size t p)" p "memsys5Size t p" 8], simp_all)
qed

end
