(* ===== verification/Complete.thy ===== *)
theory Complete
  imports CharTables
begin

text \<open>
  \<open>sqlite3_complete\<close> of complete.c: whether a text holds only complete SQL statements.

  One round of the loop reads a token off the text (\<open>completeToken\<close>) and makes a transition of the
  8-state machine. \<open>zSql\<close> is the rest of the text; \<open>chead\<close> is the byte it points to.
\<close>

section \<open>The state machine\<close>

datatype ctoken = tkSEMI | tkWS | tkOTHER | tkEXPLAIN | tkCREATE | tkTEMP | tkTRIGGER | tkEND

fun tokno :: "ctoken \<Rightarrow> nat" where
  "tokno tkSEMI = 0"
| "tokno tkWS = 1"
| "tokno tkOTHER = 2"
| "tokno tkEXPLAIN = 3"
| "tokno tkCREATE = 4"
| "tokno tkTEMP = 5"
| "tokno tkTRIGGER = 6"
| "tokno tkEND = 7"

definition trans :: "nat list list" where
  "trans =
     [[1, 0, 2, 3, 4, 2, 2, 2],
      [1, 1, 2, 3, 4, 2, 2, 2],
      [1, 2, 2, 2, 2, 2, 2, 2],
      [1, 3, 3, 2, 4, 2, 2, 2],
      [1, 4, 2, 2, 2, 4, 5, 2],
      [6, 5, 5, 5, 5, 5, 5, 5],
      [6, 6, 5, 5, 5, 5, 5, 7],
      [1, 7, 5, 5, 5, 5, 5, 5]]"

definition next_state :: "nat \<Rightarrow> ctoken \<Rightarrow> nat" where
  "next_state state token = trans ! state ! tokno token"

text \<open>
  One round: the text is not complete (\<open>CIncomplete\<close>, the \<open>return 0\<close> of an unterminated comment or
  string), the text ends in a comment (\<open>CAtEnd\<close>, the \<open>return state==1\<close>), or a token and the text
  after it.
\<close>

datatype cround = CIncomplete | CAtEnd | CToken ctoken "u8 list"

text \<open>\<open>while( zSql[0] && (zSql[0]!='*' || zSql[1]!='/') ) zSql++;\<close>\<close>

fun skipComment :: "u8 list \<Rightarrow> u8 list" where
  "skipComment [] = []"
| "skipComment (c # z) = (if c \<noteq> 0 \<and> (c \<noteq> 42 \<or> chead z \<noteq> 47) then skipComment z else c # z)"

definition kw :: "nat \<Rightarrow> u8 list \<Rightarrow> u8 list \<Rightarrow> bool" where
  "kw nId z word \<longleftrightarrow> nId = length word \<and> sqlite3_strnicmp (Some z) (Some word) (int (length word)) = 0"

definition completeKeyword :: "u8 list \<Rightarrow> nat \<Rightarrow> ctoken" where
  "completeKeyword z nId =
     (let c = chead z in
      if c = 99 \<or> c = 67 then
        (if kw nId z [99, 114, 101, 97, 116, 101] then tkCREATE else tkOTHER)
      else if c = 116 \<or> c = 84 then
        (if kw nId z [116, 114, 105, 103, 103, 101, 114] then tkTRIGGER
         else if kw nId z [116, 101, 109, 112] then tkTEMP
         else if kw nId z [116, 101, 109, 112, 111, 114, 97, 114, 121] then tkTEMP
         else tkOTHER)
      else if c = 101 \<or> c = 69 then
        (if kw nId z [101, 110, 100] then tkEND
         else if kw nId z [101, 120, 112, 108, 97, 105, 110] then tkEXPLAIN
         else tkOTHER)
      else tkOTHER)"

definition completeToken :: "u8 list \<Rightarrow> cround" where
  "completeToken z =
     (let c = chead z in
      if c = 59 then CToken tkSEMI (tl z)
      else if c \<in> {32, 13, 9, 10, 12} then CToken tkWS (tl z)
      else if c = 47 then
        (if chead (tl z) \<noteq> 42 then CToken tkOTHER (tl z)
         else (let r = skipComment (drop 2 z) in
               if chead r = 0 then CIncomplete else CToken tkWS (drop 2 r)))
      else if c = 45 then
        (if chead (tl z) \<noteq> 45 then CToken tkOTHER (tl z)
         else (let r = dropWhile (\<lambda>x. x \<noteq> 0 \<and> x \<noteq> 10) z in
               if chead r = 0 then CAtEnd else CToken tkWS (tl r)))
      else if c = 91 then
        (let r = dropWhile (\<lambda>x. x \<noteq> 0 \<and> x \<noteq> 93) (tl z) in
         if chead r = 0 then CIncomplete else CToken tkOTHER (tl r))
      else if c \<in> {96, 34, 39} then
        (let r = dropWhile (\<lambda>x. x \<noteq> 0 \<and> x \<noteq> c) (tl z) in
         if chead r = 0 then CIncomplete else CToken tkOTHER (tl r))
      else if IdChar c then
        (let nId = 1 + length (takeWhile IdChar (tl z)) in CToken (completeKeyword z nId) (drop nId z))
      else CToken tkOTHER (tl z))"

lemma skipComment_length: "length (skipComment z) \<le> length z"
  by (induction z) auto

lemma length_dropWhile_tl: "z \<noteq> [] \<Longrightarrow> length (tl (dropWhile P z)) < length z"
  using length_dropWhile_le [of P z] by (cases z) (auto simp: less_Suc_eq_le)

lemma completeToken_shorter: "completeToken z = CToken t r \<Longrightarrow> chead z \<noteq> 0 \<Longrightarrow> length r < length z"
proof -
  assume a: "completeToken z = CToken t r" "chead z \<noteq> 0"
  then obtain c y where z: "z = c # y" by (cases z) auto
  have "length (drop 2 (skipComment (tl y))) \<le> length y" using skipComment_length [of "tl y"] by simp
  moreover have "length (tl (dropWhile P y)) \<le> length y" for P using length_dropWhile_le [of P y] by simp
  ultimately show ?thesis
    using a(1) length_dropWhile_tl [of z] unfolding completeToken_def z
    by (auto simp: Let_def drop_Suc less_Suc_eq_le split: if_splits)
qed

function sqlite3_complete_from :: "nat \<Rightarrow> u8 list \<Rightarrow> bool" where
  "sqlite3_complete_from state z =
     (if chead z = 0 then state = 1
      else case completeToken z of
        CIncomplete \<Rightarrow> False
      | CAtEnd \<Rightarrow> state = 1
      | CToken token r \<Rightarrow> sqlite3_complete_from (next_state state token) r)"
  by pat_completeness auto
termination
  by (relation "measure (\<lambda>(s, z). length z)") (auto dest: completeToken_shorter)

declare sqlite3_complete_from.simps [simp del]

definition sqlite3_complete :: "u8 list \<Rightarrow> bool" where
  "sqlite3_complete zSql = sqlite3_complete_from 0 zSql"


section \<open>What complete means\<close>

text \<open>The tokens of a text; \<^term>\<open>None\<close> if a comment or a quoted name or string does not end.\<close>

function completeTokens :: "u8 list \<Rightarrow> ctoken list option" where
  "completeTokens z =
     (if chead z = 0 then Some []
      else case completeToken z of
        CIncomplete \<Rightarrow> None
      | CAtEnd \<Rightarrow> Some []
      | CToken token r \<Rightarrow> map_option ((#) token) (completeTokens r))"
  by pat_completeness auto
termination by (relation "measure length") (auto dest: completeToken_shorter)

declare completeTokens.simps [simp del]

text \<open>
  A trigger definition starts with \<open>[EXPLAIN ...] CREATE [TEMP] TRIGGER\<close> and goes up to the first
  \<open>; END ;\<close>. Any other statement goes up to its first semicolon.
\<close>

definition trigger_head :: "ctoken list \<Rightarrow> bool" where
  "trigger_head h \<longleftrightarrow> (\<exists>e n. (e = [] \<or> (\<exists>m. e = tkEXPLAIN # replicate m tkOTHER))
     \<and> h = e @ tkCREATE # replicate n tkTEMP @ [tkTRIGGER])"

definition has_end :: "ctoken list \<Rightarrow> bool" where
  "has_end b \<longleftrightarrow> (\<exists>u v. b = u @ [tkSEMI, tkEND, tkSEMI] @ v)"

definition plain_stmt :: "ctoken list \<Rightarrow> bool" where
  "plain_stmt s \<longleftrightarrow> (\<exists>p. s = p @ [tkSEMI] \<and> tkSEMI \<notin> set p \<and> \<not> (\<exists>h r. p = h @ r \<and> trigger_head h))"

definition trigger_stmt :: "ctoken list \<Rightarrow> bool" where
  "trigger_stmt s \<longleftrightarrow> (\<exists>h b. s = h @ b @ [tkSEMI, tkEND, tkSEMI] \<and> trigger_head h \<and> \<not> has_end (b @ [tkSEMI, tkEND]))"

inductive statements :: "ctoken list \<Rightarrow> bool" where
  none: "statements []"
| plain: "plain_stmt s \<Longrightarrow> statements ts \<Longrightarrow> statements (s @ ts)"
| trigger: "trigger_stmt s \<Longrightarrow> statements ts \<Longrightarrow> statements (s @ ts)"

definition crun :: "nat \<Rightarrow> ctoken list \<Rightarrow> nat" where
  "crun q ts = fold (\<lambda>t q. next_state q t) ts q"

lemma crun_simps [simp]: "crun q [] = q" "crun q (t # ts) = crun (next_state q t) ts"
  "crun q (xs @ ys) = crun (crun q xs) ys"
  by (simp_all add: crun_def)

lemma complete_run:
  "sqlite3_complete_from q z \<longleftrightarrow> (\<exists>ts. completeTokens z = Some ts \<and> crun q ts = 1)"
proof (induction q z rule: sqlite3_complete_from.induct)
  case (1 q z)
  show ?case
    unfolding sqlite3_complete_from.simps [of q z] completeTokens.simps [of z]
    using 1 by (auto split: cround.splits)
qed

lemma next_eval [simp]:
  "(next_state 0 t = (case t of tkWS \<Rightarrow> 0 | _ \<Rightarrow> next_state 1 t))
    \<and> (next_state (Suc 0) t = (case t of tkSEMI \<Rightarrow> 1 | tkWS \<Rightarrow> 1 | tkEXPLAIN \<Rightarrow> 3 | tkCREATE \<Rightarrow> 4 | _ \<Rightarrow> 2))
    \<and> (next_state 2 t = (if t = tkSEMI then 1 else 2))
    \<and> (next_state 3 t = (case t of tkSEMI \<Rightarrow> 1 | tkWS \<Rightarrow> 3 | tkOTHER \<Rightarrow> 3 | tkCREATE \<Rightarrow> 4 | _ \<Rightarrow> 2))
    \<and> (next_state 4 t = (case t of tkSEMI \<Rightarrow> 1 | tkWS \<Rightarrow> 4 | tkTEMP \<Rightarrow> 4 | tkTRIGGER \<Rightarrow> 5 | _ \<Rightarrow> 2))
    \<and> (next_state 5 t = (if t = tkSEMI then 6 else 5))
    \<and> (next_state 6 t = (case t of tkSEMI \<Rightarrow> 6 | tkWS \<Rightarrow> 6 | tkEND \<Rightarrow> 7 | _ \<Rightarrow> 5))
    \<and> (next_state 7 t = (case t of tkSEMI \<Rightarrow> 1 | tkWS \<Rightarrow> 7 | _ \<Rightarrow> 5))"
  by (cases t) (simp_all add: next_state_def trans_def)

text \<open>White space makes no transition.\<close>

lemma next_WS: "q < 8 \<Longrightarrow> next_state q tkWS = q"
proof -
  assume "q < 8"
  then have "q \<in> {0, 1, 2, 3, 4, 5, 6, 7}" by (simp del: One_nat_def) linarith
  then show ?thesis by (elim insertE emptyE) simp_all
qed

lemma next_less: "q < 8 \<Longrightarrow> next_state q t < 8"
proof -
  assume "q < 8"
  then have "q \<in> {0, 1, 2, 3, 4, 5, 6, 7}" by (simp del: One_nat_def) linarith
  then show ?thesis by (elim insertE emptyE) (cases t; simp)+
qed

lemma crun_WS: "q < 8 \<Longrightarrow> crun q ts = crun q (filter (\<lambda>t. t \<noteq> tkWS) ts)"
  by (induction ts arbitrary: q) (auto simp: next_WS next_less)

text \<open>Before the first semicolon the machine is in a trigger only behind a trigger head.\<close>

abbreviation sig :: "ctoken list \<Rightarrow> bool" where
  "sig ts \<equiv> tkWS \<notin> set ts"

definition expl :: "ctoken list \<Rightarrow> bool" where
  "expl e \<longleftrightarrow> (\<exists>m. e = tkEXPLAIN # replicate m tkOTHER)"

definition creat :: "ctoken list \<Rightarrow> bool" where
  "creat c \<longleftrightarrow> (\<exists>e n. (e = [] \<or> expl e) \<and> c = e @ tkCREATE # replicate n tkTEMP)"

lemma replicate_snoc: "replicate n x @ [x] = replicate (Suc n) x"
  by (simp add: replicate_append_same)

lemma expl_snoc: "expl e \<Longrightarrow> expl (e @ [tkOTHER])" "expl [tkEXPLAIN]"
  unfolding expl_def by (metis append_Cons replicate_snoc, simp add: exI [of _ 0])

lemma creat_snoc: "creat c \<Longrightarrow> creat (c @ [tkTEMP])" "e = [] \<or> expl e \<Longrightarrow> creat (e @ [tkCREATE])"
  unfolding creat_def
  by (metis (no_types) append.assoc append_Cons replicate_snoc, metis append_Nil2 replicate_0)

lemma trigger_head_creat: "trigger_head h \<longleftrightarrow> (\<exists>c. creat c \<and> h = c @ [tkTRIGGER])"
proof -
  have "trigger_head h \<longleftrightarrow> (\<exists>e n. (e = [] \<or> expl e) \<and> h = (e @ tkCREATE # replicate n tkTEMP) @ [tkTRIGGER])"
    by (simp add: trigger_head_def expl_def)
  then show ?thesis unfolding creat_def by blast
qed

lemma crun_same: "(\<And>t. t \<in> set ts \<Longrightarrow> next_state q t = q) \<Longrightarrow> crun q ts = q"
  by (induction ts) simp_all

lemma crun_expl: "expl e \<Longrightarrow> crun 1 e = 3"
  by (auto simp: expl_def intro!: crun_same)

lemma crun_creat: "creat c \<Longrightarrow> crun 1 c = 4"
proof -
  assume "creat c"
  then obtain e n where c: "e = [] \<or> expl e" "c = e @ tkCREATE # replicate n tkTEMP"
    unfolding creat_def by blast
  have "crun 4 (replicate n tkTEMP) = 4" by (rule crun_same) simp
  with c crun_expl [of e] show ?thesis by auto
qed

lemma crun_head: "trigger_head h \<Longrightarrow> crun 1 h = 5"
  by (auto simp: trigger_head_creat dest!: crun_creat)

lemma head_states:
  assumes "tkSEMI \<notin> set p" "sig p"
  shows "crun 1 p \<in> {1, 2, 3, 4, 5} \<and> (crun 1 p = 1 \<longrightarrow> p = []) \<and> (crun 1 p = 3 \<longrightarrow> expl p)
    \<and> (crun 1 p = 4 \<longrightarrow> creat p) \<and> (crun 1 p = 5 \<longrightarrow> (\<exists>h r. p = h @ r \<and> trigger_head h))"
  using assms
proof (induction p rule: rev_induct)
  case Nil
  show ?case by simp
next
  case (snoc t p)
  then have IH: "crun 1 p \<in> {1, 2, 3, 4, 5}" "crun 1 p = 1 \<Longrightarrow> p = []" "crun 1 p = 3 \<Longrightarrow> expl p"
    "crun 1 p = 4 \<Longrightarrow> creat p" "crun 1 p = 5 \<Longrightarrow> (\<exists>h r. p = h @ r \<and> trigger_head h)"
    and t: "t \<noteq> tkSEMI" "t \<noteq> tkWS" by auto
  have ext: "\<exists>h r. p @ [t] = h @ r \<and> trigger_head h" if "\<exists>h r. p = h @ r \<and> trigger_head h"
    using that by force
  from IH(1) consider "p = []" | "crun 1 p = 2" | "crun 1 p = 3" "expl p" | "crun 1 p = 4" "creat p"
    | "crun 1 p = 5" "\<exists>h r. p = h @ r \<and> trigger_head h"
    using IH(2-5) by blast
  then show ?case
  proof cases
    case 1
    then show ?thesis using t expl_snoc(2) creat_snoc(2) [of "[]"] by (cases t) simp_all
  next
    case 2
    then show ?thesis using t by simp
  next
    case 3
    then show ?thesis using t expl_snoc(1) creat_snoc(2) by (cases t) simp_all
  next
    case 4
    then have "trigger_head (p @ [tkTRIGGER])" by (auto simp: trigger_head_creat)
    then have "\<exists>h r. p @ [tkTRIGGER] = h @ r \<and> trigger_head h"
      by (intro exI [of _ "p @ [tkTRIGGER]"] exI [of _ "[]"]) simp
    with 4 show ?thesis using t creat_snoc(1) by (cases t) simp_all
  next
    case 5
    then show ?thesis using t ext by simp
  qed
qed

text \<open>Inside a trigger the machine counts how much of \<open>; END ;\<close> it has just seen.\<close>

lemma has_end_append: "has_end u \<Longrightarrow> has_end (u @ v)"
  unfolding has_end_def by force

lemma has_end_snoc3: "has_end (u @ [tkSEMI, tkEND, tkSEMI])"
  unfolding has_end_def by force

lemma body_states:
  assumes "\<not> has_end u" "sig u"
  shows "crun 5 u \<in> {5, 6, 7} \<and> (crun 5 u = 6 \<longleftrightarrow> (\<exists>w. u = w @ [tkSEMI]))
    \<and> (crun 5 u = 7 \<longleftrightarrow> (\<exists>w. u = w @ [tkSEMI, tkEND]))"
  using assms
proof (induction u rule: rev_induct)
  case Nil
  show ?case by simp
next
  case (snoc t u)
  then have n: "\<not> has_end u" "t \<noteq> tkWS" using has_end_append [of u "[t]"] by auto
  have fin: "(\<exists>w. u @ [t] = w @ [tkSEMI, tkEND]) \<longleftrightarrow> t = tkEND \<and> (\<exists>w. u = w @ [tkSEMI])"
    by (metis append.assoc append_Cons append_Nil append1_eq_conv)
  have "\<not> (t = tkSEMI \<and> (\<exists>w. u = w @ [tkSEMI, tkEND]))"
    using snoc.prems has_end_snoc3 by auto
  with snoc.IH n snoc.prems(2) show ?case
    unfolding fin by (cases t) auto
qed

lemma has_end_first:
  "has_end w \<Longrightarrow> \<exists>u v. w = u @ [tkSEMI, tkEND, tkSEMI] @ v \<and> \<not> has_end (u @ [tkSEMI, tkEND])"
proof (induction w rule: rev_induct)
  case Nil
  then show ?case by (simp add: has_end_def)
next
  case (snoc t w)
  show ?case
  proof (cases "has_end w")
    case True
    with snoc.IH obtain u v where "w = u @ [tkSEMI, tkEND, tkSEMI] @ v" "\<not> has_end (u @ [tkSEMI, tkEND])" by blast
    then show ?thesis by (intro exI [of _ u] exI [of _ "v @ [t]"]) simp
  next
    case False
    obtain u v where uv: "w @ [t] = u @ [tkSEMI, tkEND, tkSEMI] @ v" using snoc.prems unfolding has_end_def by blast
    have "v = []"
    proof (cases v rule: rev_cases)
      case (snoc v' x)
      then have "has_end w" using uv unfolding has_end_def by auto
      with False show ?thesis by simp
    qed simp
    with uv have "w = u @ [tkSEMI, tkEND]" "t = tkSEMI" by auto
    with False show ?thesis by (intro exI [of _ u] exI [of _ "[]"]) simp
  qed
qed

lemma crun_plain: "plain_stmt s \<Longrightarrow> sig s \<Longrightarrow> crun 1 s = 1"
proof -
  assume "plain_stmt s" "sig s"
  then obtain p where p: "s = p @ [tkSEMI]" "tkSEMI \<notin> set p" "\<not> (\<exists>h r. p = h @ r \<and> trigger_head h)" "sig p"
    unfolding plain_stmt_def by auto
  with head_states [of p] have "crun 1 p \<in> {1, 2, 3, 4}" by auto
  then have "next_state (crun 1 p) tkSEMI = 1" by (elim insertE emptyE) simp_all
  with p(1) show ?thesis by simp
qed

lemma crun_body_end:
  "\<not> has_end (b @ [tkSEMI, tkEND]) \<Longrightarrow> sig b \<Longrightarrow> crun 5 (b @ [tkSEMI, tkEND, tkSEMI]) = 1"
  using body_states [of "b @ [tkSEMI, tkEND]"] by auto

lemma crun_trigger: "trigger_stmt s \<Longrightarrow> sig s \<Longrightarrow> crun 1 s = 1"
  unfolding trigger_stmt_def using crun_head crun_body_end by fastforce

lemma statements_crun: "statements s \<Longrightarrow> sig s \<Longrightarrow> crun 1 s = 1"
  by (induction rule: statements.induct) (simp_all add: crun_plain crun_trigger del: One_nat_def)

lemma crun_statements: "crun 1 s = 1 \<Longrightarrow> sig s \<Longrightarrow> statements s"
proof (induction s rule: length_induct)
  case (1 s)
  show ?case
  proof (cases "tkSEMI \<in> set s")
    case False
    with head_states [of s] 1 have "s = []" by simp
    then show ?thesis by (simp add: statements.none)
  next
    case True
    then obtain p r where s: "s = p @ tkSEMI # r" "tkSEMI \<notin> set p" by (meson split_list_first)
    have sg: "sig p" "sig r" using 1(3) s(1) by auto
    note hs = head_states [OF s(2) sg(1)]
    show ?thesis
    proof (cases "\<exists>h r. p = h @ r \<and> trigger_head h")
      case False
      then have pl: "plain_stmt (p @ [tkSEMI])" using s(2) unfolding plain_stmt_def by blast
      then have "crun 1 (p @ [tkSEMI]) = 1" using sg by (intro crun_plain) simp_all
      with 1 s sg have "statements r" by simp
      with statements.plain [OF pl] s(1) show ?thesis by simp
    next
      case True
      then obtain h w where p: "p = h @ w" "trigger_head h" by blast
      then have run: "crun 5 (w @ tkSEMI # r) = 1" using 1(2) s(1) crun_head [OF p(2)] by simp
      have sw: "sig (w @ tkSEMI # r)" using sg p by auto
      with run body_states [of "w @ tkSEMI # r"] have "has_end (w @ tkSEMI # r)" by fastforce
      then obtain b v where b: "w @ tkSEMI # r = b @ [tkSEMI, tkEND, tkSEMI] @ v" "\<not> has_end (b @ [tkSEMI, tkEND])"
        using has_end_first by blast
      have sbv: "sig b" "sig v" using sw unfolding b(1) by auto
      have st: "trigger_stmt (h @ b @ [tkSEMI, tkEND, tkSEMI])" unfolding trigger_stmt_def using p(2) b(2) by blast
      have sp: "s = (h @ b @ [tkSEMI, tkEND, tkSEMI]) @ v" using s(1) p(1) b(1) by simp
      have "crun 1 v = 1" using run b(1) crun_body_end [OF b(2) sbv(1)] by simp
      then have "statements v" using 1(1) sbv(2) sp by simp
      with statements.trigger [OF st] sp show ?thesis by simp
    qed
  qed
qed

lemma crun_0: "crun 0 s = 1 \<longleftrightarrow> s \<noteq> [] \<and> crun 1 s = 1" if "sig s"
  using that by (cases s) (auto split: ctoken.splits)

text \<open>C22. \<open>sqlite3_complete\<close> answers 1 exactly when every comment and quotation of the text is closed and
  its tokens, white space aside, are one or more whole statements: a \<open>CREATE TRIGGER\<close> statement is
  whole at its first \<open>; END ;\<close>, any other at its first semicolon.\<close>

theorem sqlite3_complete_correct:
  "sqlite3_complete z \<longleftrightarrow>
    (\<exists>ts. completeTokens z = Some ts \<and> filter (\<lambda>t. t \<noteq> tkWS) ts \<noteq> [] \<and> statements (filter (\<lambda>t. t \<noteq> tkWS) ts))"
proof -
  have "crun 0 ts = 1 \<longleftrightarrow> filter (\<lambda>t. t \<noteq> tkWS) ts \<noteq> [] \<and> statements (filter (\<lambda>t. t \<noteq> tkWS) ts)" for ts
    unfolding crun_WS [of 0 ts, simplified]
    using crun_0 [of "filter (\<lambda>t. t \<noteq> tkWS) ts"] crun_statements [of "filter (\<lambda>t. t \<noteq> tkWS) ts"]
      statements_crun [of "filter (\<lambda>t. t \<noteq> tkWS) ts"] by auto
  then show ?thesis unfolding sqlite3_complete_def complete_run by simp
qed

end
