(* ===== verification/Tokenize.thy ===== *)
theory Tokenize
  imports CharTables
begin

text \<open>
  The SQL tokenizer of tokenize.c (the ASCII build with every optional feature) and the loop of
  \<open>sqlite3RunParser\<close> that feeds its tokens to the generated parser.

  The text is the buffer that holds it and its zero terminator. Every \<open>z[i]\<close> of the code is a
  checked read (\<open>zat\<close>): a read outside the buffer makes the result \<^term>\<open>None\<close>, and so a theorem that
  the tokenizer returns \<open>Some\<close> says that it stays inside.

  \<open>keywordCode\<close> is generated by tool/mkkeywordhash.c; it returns its length argument and stores the
  code of a word. Its code for a word is the parameter \<open>kw\<close>.
\<close>

section \<open>Token types and character classes\<close>

datatype tk = TK_EOF | TK_SEMI | TK_SPACE | TK_ILLEGAL | TK_MINUS | TK_LP | TK_RP | TK_PLUS | TK_STAR | TK_SLASH
  | TK_REM | TK_EQ | TK_LE | TK_NE | TK_LSHIFT | TK_LT | TK_GE | TK_RSHIFT | TK_GT | TK_BITOR | TK_CONCAT
  | TK_COMMA | TK_BITAND | TK_BITNOT | TK_STRING | TK_ID | TK_DOT | TK_INTEGER | TK_FLOAT | TK_VARIABLE
  | TK_BLOB | TK_word nat

definition aiClass :: "nat list" where
  "aiClass = [
     27, 27, 27, 27, 27, 27, 27, 27, 27,  7,  7, 27,  7,  7, 27, 27,
     27, 27, 27, 27, 27, 27, 27, 27, 27, 27, 27, 27, 27, 27, 27, 27,
      7, 15,  8,  5,  4, 22, 24,  8, 17, 18, 21, 20, 23, 11, 26, 16,
      3,  3,  3,  3,  3,  3,  3,  3,  3,  3,  5, 19, 12, 14, 13,  6,
      5,  1,  1,  1,  1,  1,  1,  1,  1,  1,  1,  1,  1,  1,  1,  1,
      1,  1,  1,  1,  1,  1,  1,  1,  0,  1,  1,  9, 27, 27, 27,  1,
      8,  1,  1,  1,  1,  1,  1,  1,  1,  1,  1,  1,  1,  1,  1,  1,
      1,  1,  1,  1,  1,  1,  1,  1,  0,  1,  1, 27, 10, 27, 25, 27,
      2,  2,  2,  2,  2,  2,  2,  2,  2,  2,  2,  2,  2,  2,  2,  2,
      2,  2,  2,  2,  2,  2,  2,  2,  2,  2,  2,  2,  2,  2,  2,  2,
      2,  2,  2,  2,  2,  2,  2,  2,  2,  2,  2,  2,  2,  2,  2,  2,
      2,  2,  2,  2,  2,  2,  2,  2,  2,  2,  2,  2,  2,  2,  2,  2,
      2,  2,  2,  2,  2,  2,  2,  2,  2,  2,  2,  2,  2,  2,  2,  2,
      2,  2,  2,  2,  2,  2,  2,  2,  2,  2,  2,  2,  2,  2,  2,  2,
      2,  2,  2,  2,  2,  2,  2,  2,  2,  2,  2,  2,  2,  2,  2,  2,
      2,  2,  2,  2,  2,  2,  2,  2,  2,  2,  2,  2,  2,  2,  2,  2]"

abbreviation cclass :: "u8 \<Rightarrow> nat" where
  "cclass c \<equiv> aiClass ! unat c"


section \<open>The loops\<close>

definition zat :: "u8 list \<Rightarrow> nat \<Rightarrow> u8 option" where
  "zat z i = (if i < length z then Some (z ! i) else None)"

text \<open>\<open>for(; P(z[i]); i++){}\<close>, which many cases have.\<close>

function scan :: "(u8 \<Rightarrow> bool) \<Rightarrow> u8 list \<Rightarrow> nat \<Rightarrow> nat option" where
  "scan P z i = (case zat z i of None \<Rightarrow> None | Some c \<Rightarrow> if P c then scan P z (i + 1) else Some i)"
  by pat_completeness auto
termination by (relation "measure (\<lambda>(P, z, i). length z - i)") (auto simp: zat_def split: if_splits)

text \<open>The body of a C-style comment: \<open>c\<close> is the byte before \<open>z[i]\<close>. The values of \<open>c\<close> and \<open>i\<close> at the end.\<close>

function commentLoop :: "u8 list \<Rightarrow> u8 \<Rightarrow> nat \<Rightarrow> (u8 \<times> nat) option" where
  "commentLoop z c i =
     (case zat z i of
        None \<Rightarrow> None
      | Some x \<Rightarrow> if (c \<noteq> 42 \<or> x \<noteq> 47) then (if x \<noteq> 0 then commentLoop z x (i + 1) else Some (x, i))
                 else Some (c, i))"
  by pat_completeness auto
termination by (relation "measure (\<lambda>(z, c, i). length z - i)") (auto simp: zat_def split: if_splits)

text \<open>The body of a quoted string or name.\<close>

function quoteLoop :: "u8 list \<Rightarrow> u8 \<Rightarrow> nat \<Rightarrow> (u8 \<times> nat) option" where
  "quoteLoop z delim i =
     (case zat z i of
        None \<Rightarrow> None
      | Some c \<Rightarrow>
          if c = 0 then Some (c, i)
          else if c = delim then
            (case zat z (i + 1) of
               None \<Rightarrow> None
             | Some d \<Rightarrow> if d = delim then quoteLoop z delim (i + 2) else Some (c, i))
          else quoteLoop z delim (i + 1))"
  by pat_completeness auto
termination by (relation "measure (\<lambda>(z, q, i). length z - i)") (auto simp: zat_def split: if_splits)

text \<open>The body of a name in square brackets; \<open>c\<close> is the byte before \<open>z[i]\<close>.\<close>

function bracketLoop :: "u8 list \<Rightarrow> u8 \<Rightarrow> nat \<Rightarrow> (u8 \<times> nat) option" where
  "bracketLoop z c i =
     (if c \<noteq> 93 then
        (case zat z i of
           None \<Rightarrow> None
         | Some x \<Rightarrow> if x \<noteq> 0 then bracketLoop z x (i + 1) else Some (x, i))
      else Some (c, i))"
  by pat_completeness auto
termination by (relation "measure (\<lambda>(z, c, i). length z - i)") (auto simp: zat_def split: if_splits)

text \<open>
  The body of a named variable: \<open>n\<close> identifier bytes so far. The result is the token type left by
  the loop, \<open>n\<close> and \<open>i\<close>.
\<close>

function varLoop :: "u8 list \<Rightarrow> nat \<Rightarrow> nat \<Rightarrow> (tk \<times> nat \<times> nat) option" where
  "varLoop z n i =
     (case zat z i of
        None \<Rightarrow> None
      | Some c \<Rightarrow>
          if c = 0 then Some (TK_VARIABLE, n, i)
          else if IdChar c then varLoop z (n + 1) (i + 1)
          else if c = 40 \<and> n > 0 then do {
            j \<leftarrow> scan (\<lambda>c. c \<noteq> 0 \<and> \<not> sqlite3Isspace c \<and> c \<noteq> 41) z (i + 1);
            c \<leftarrow> zat z j;
            if c = 41 then Some (TK_VARIABLE, n, j + 1) else Some (TK_ILLEGAL, n, j)
          }
          else if c = 58 then
            (case zat z (i + 1) of
               None \<Rightarrow> None
             | Some d \<Rightarrow> if d = 58 then varLoop z n (i + 2) else Some (TK_VARIABLE, n, i))
          else Some (TK_VARIABLE, n, i))"
  by pat_completeness auto
termination by (relation "measure (\<lambda>(z, n, i). length z - i)") (auto simp: zat_def split: if_splits)

declare scan.simps [simp del] commentLoop.simps [simp del] quoteLoop.simps [simp del]
  bracketLoop.simps [simp del] varLoop.simps [simp del]


section \<open>The tokenizer\<close>

definition getMinus :: "u8 list \<Rightarrow> (tk \<times> nat) option" where
  "getMinus z = do {
     c \<leftarrow> zat z 1;
     if c = 45 then do { i \<leftarrow> scan (\<lambda>c. c \<noteq> 0 \<and> c \<noteq> 10) z 2; Some (TK_SPACE, i) }
     else Some (TK_MINUS, 1)
   }"

definition getSlash :: "u8 list \<Rightarrow> (tk \<times> nat) option" where
  "getSlash z = do {
     c \<leftarrow> zat z 1;
     if c \<noteq> 42 then Some (TK_SLASH, 1) else do {
       c \<leftarrow> zat z 2;
       if c = 0 then Some (TK_SLASH, 1) else do {
         (c, i) \<leftarrow> commentLoop z c 3;
         Some (TK_SPACE, if c \<noteq> 0 then i + 1 else i)
       }
     }
   }"

text \<open>The operators of one or two bytes.\<close>

definition getEq :: "u8 list \<Rightarrow> (tk \<times> nat) option" where
  "getEq z = do { c \<leftarrow> zat z 1; Some (TK_EQ, 1 + (if c = 61 then 1 else 0)) }"

definition getLt :: "u8 list \<Rightarrow> (tk \<times> nat) option" where
  "getLt z = do {
     c \<leftarrow> zat z 1;
     if c = 61 then Some (TK_LE, 2) else if c = 62 then Some (TK_NE, 2)
     else if c = 60 then Some (TK_LSHIFT, 2) else Some (TK_LT, 1)
   }"

definition getGt :: "u8 list \<Rightarrow> (tk \<times> nat) option" where
  "getGt z = do {
     c \<leftarrow> zat z 1;
     if c = 61 then Some (TK_GE, 2) else if c = 62 then Some (TK_RSHIFT, 2) else Some (TK_GT, 1)
   }"

definition getBang :: "u8 list \<Rightarrow> (tk \<times> nat) option" where
  "getBang z = do { c \<leftarrow> zat z 1; if c \<noteq> 61 then Some (TK_ILLEGAL, 1) else Some (TK_NE, 2) }"

definition getPipe :: "u8 list \<Rightarrow> (tk \<times> nat) option" where
  "getPipe z = do { c \<leftarrow> zat z 1; if c \<noteq> 124 then Some (TK_BITOR, 1) else Some (TK_CONCAT, 2) }"

definition getQuote :: "u8 list \<Rightarrow> (tk \<times> nat) option" where
  "getQuote z = do {
     delim \<leftarrow> zat z 0;
     (c, i) \<leftarrow> quoteLoop z delim 1;
     if c = 39 then Some (TK_STRING, i + 1)
     else if c \<noteq> 0 then Some (TK_ID, i + 1)
     else Some (TK_ILLEGAL, i)
   }"

definition getNumber :: "u8 list \<Rightarrow> (tk \<times> nat) option" where
  "getNumber z = do {
     z0 \<leftarrow> zat z 0;
     hex \<leftarrow> (if z0 = 48 then do {
         z1 \<leftarrow> zat z 1;
         if z1 = 120 \<or> z1 = 88 then do { z2 \<leftarrow> zat z 2; Some (sqlite3Isxdigit z2) } else Some False
       } else Some False);
     if hex then do { i \<leftarrow> scan sqlite3Isxdigit z 3; Some (TK_INTEGER, i) } else do {
       i \<leftarrow> scan sqlite3Isdigit z 0;
       c \<leftarrow> zat z i;
       (t, i) \<leftarrow> (if c = 46 then do { i \<leftarrow> scan sqlite3Isdigit z (i + 1); Some (TK_FLOAT, i) }
                 else Some (TK_INTEGER, i));
       c \<leftarrow> zat z i;
       expo \<leftarrow> (if c = 101 \<or> c = 69 then do {
           c \<leftarrow> zat z (i + 1);
           if sqlite3Isdigit c then Some True
           else if c = 43 \<or> c = 45 then do { d \<leftarrow> zat z (i + 2); Some (sqlite3Isdigit d) } else Some False
         } else Some False);
       (t, i) \<leftarrow> (if expo then do { i \<leftarrow> scan sqlite3Isdigit z (i + 2); Some (TK_FLOAT, i) } else Some (t, i));
       j \<leftarrow> scan IdChar z i;
       Some (if j > i then TK_ILLEGAL else t, j)
     }
   }"

definition getDot :: "u8 list \<Rightarrow> (tk \<times> nat) option" where
  "getDot z = do { c \<leftarrow> zat z 1; if \<not> sqlite3Isdigit c then Some (TK_DOT, 1) else getNumber z }"

definition getBracket :: "u8 list \<Rightarrow> (tk \<times> nat) option" where
  "getBracket z = do {
     c \<leftarrow> zat z 0;
     (c, i) \<leftarrow> bracketLoop z c 1;
     Some (if c = 93 then TK_ID else TK_ILLEGAL, i)
   }"

definition getVariable :: "u8 list \<Rightarrow> (tk \<times> nat) option" where
  "getVariable z = do {
     (t, n, i) \<leftarrow> varLoop z 0 1;
     Some (if n = 0 then TK_ILLEGAL else t, i)
   }"

text \<open>The code after the switch.\<close>

definition getId :: "u8 list \<Rightarrow> nat \<Rightarrow> (tk \<times> nat) option" where
  "getId z i = do { i \<leftarrow> scan IdChar z i; Some (TK_ID, i) }"

definition getKeyword :: "(u8 list \<Rightarrow> tk) \<Rightarrow> u8 list \<Rightarrow> (tk \<times> nat) option" where
  "getKeyword kw z = do {
     i \<leftarrow> scan (\<lambda>c. cclass c \<le> 1) z 1;
     c \<leftarrow> zat z i;
     if IdChar c then getId z (i + 1) else Some (kw (take i z), i)
   }"

definition getX :: "u8 list \<Rightarrow> (tk \<times> nat) option" where
  "getX z = do {
     c \<leftarrow> zat z 1;
     if c = 39 then do {
       i \<leftarrow> scan sqlite3Isxdigit z 2;
       c \<leftarrow> zat z i;
       (t, i) \<leftarrow> (if c \<noteq> 39 \<or> i mod 2 \<noteq> 0
                 then do { i \<leftarrow> scan (\<lambda>c. c \<noteq> 0 \<and> c \<noteq> 39) z i; Some (TK_ILLEGAL, i) }
                 else Some (TK_BLOB, i));
       c \<leftarrow> zat z i;
       Some (t, if c \<noteq> 0 then i + 1 else i)
     } else getId z 1
   }"

definition sqlite3GetToken :: "(u8 list \<Rightarrow> tk) \<Rightarrow> u8 list \<Rightarrow> (tk \<times> nat) option" where
  "sqlite3GetToken kw z = do {
     z0 \<leftarrow> zat z 0;
     let cc = cclass z0 in
       if cc = 7 then do { i \<leftarrow> scan sqlite3Isspace z 1; Some (TK_SPACE, i) }
       else if cc = 11 then getMinus z
       else if cc = 17 then Some (TK_LP, 1)
       else if cc = 18 then Some (TK_RP, 1)
       else if cc = 19 then Some (TK_SEMI, 1)
       else if cc = 20 then Some (TK_PLUS, 1)
       else if cc = 21 then Some (TK_STAR, 1)
       else if cc = 16 then getSlash z
       else if cc = 22 then Some (TK_REM, 1)
       else if cc = 14 then getEq z
       else if cc = 12 then getLt z
       else if cc = 13 then getGt z
       else if cc = 15 then getBang z
       else if cc = 10 then getPipe z
       else if cc = 23 then Some (TK_COMMA, 1)
       else if cc = 24 then Some (TK_BITAND, 1)
       else if cc = 25 then Some (TK_BITNOT, 1)
       else if cc = 8 then getQuote z
       else if cc = 26 then getDot z
       else if cc = 3 then getNumber z
       else if cc = 9 then getBracket z
       else if cc = 6 then do { i \<leftarrow> scan sqlite3Isdigit z 1; Some (TK_VARIABLE, i) }
       else if cc = 4 \<or> cc = 5 then getVariable z
       else if cc = 1 then getKeyword kw z
       else if cc = 0 then getX z
       else if cc = 2 then getId z 1
       else Some (TK_ILLEGAL, 1)
   }"


section \<open>Feeding the parser\<close>




text \<open>The tokens of a text, with their bytes.\<close>

inductive tokens_of :: "(u8 list \<Rightarrow> tk) \<Rightarrow> u8 list \<Rightarrow> (tk \<times> u8 list) list \<Rightarrow> bool" for kw where
  at_end: "zat z 0 = Some 0 \<Longrightarrow> tokens_of kw z []"
| token: "zat z 0 = Some c \<Longrightarrow> c \<noteq> 0 \<Longrightarrow> sqlite3GetToken kw z = Some (t, n) \<Longrightarrow> tokens_of kw (drop n z) ts
    \<Longrightarrow> tokens_of kw z ((t, take n z) # ts)"

inductive_cases tokens_of_NilE: "tokens_of kw z []"
inductive_cases tokens_of_ConsE: "tokens_of kw z (x # ts)"




section \<open>The tokenizer stays inside the text\<close>

text \<open>The buffer \<open>z\<close> holds a text of \<open>L\<close> bytes and its terminator.\<close>

definition ctext :: "u8 list \<Rightarrow> nat \<Rightarrow> bool" where
  "ctext z L \<longleftrightarrow> L < length z \<and> z ! L = 0 \<and> (\<forall>k<L. z ! k \<noteq> 0)"

lemma ctext_append: "0 \<notin> set s \<Longrightarrow> ctext (s @ 0 # rest) (length s)"
  by (auto simp: ctext_def nth_append) (metis nth_mem)

lemma zat_text [simp]: "ctext z L \<Longrightarrow> i \<le> L \<Longrightarrow> zat z i = Some (z ! i)"
  by (simp add: zat_def ctext_def)

lemma ctext_less: "ctext z L \<Longrightarrow> i \<le> L \<Longrightarrow> z ! i \<noteq> 0 \<Longrightarrow> i < L"
  by (metis ctext_def order_le_imp_less_or_eq)

lemma scan_text:
  assumes "ctext z L" "i \<le> L" "\<not> P 0"
  shows "\<exists>j. scan P z i = Some j \<and> i \<le> j \<and> j \<le> L \<and> (\<forall>k. i \<le> k \<longrightarrow> k < j \<longrightarrow> P (z ! k)) \<and> \<not> P (z ! j)"
  using assms(2)
proof (induction "L - i" arbitrary: i)
  case 0
  with assms have "i = L" "z ! i = 0" by (auto simp: ctext_def)
  with assms show ?case by (intro exI [of _ L]) (simp add: scan.simps [of P z L])
next
  case (Suc d)
  show ?case
  proof (cases "P (z ! i)")
    case True
    have "d = L - Suc i" "Suc i \<le> L" using Suc by auto
    from Suc.hyps(1) [OF this] obtain j where "scan P z (Suc i) = Some j" "Suc i \<le> j" "j \<le> L"
      "\<forall>k. Suc i \<le> k \<longrightarrow> k < j \<longrightarrow> P (z ! k)" "\<not> P (z ! j)" by blast
    moreover from this True have "P (z ! k)" if "i \<le> k" "k < j" for k using that by (cases "k = i") auto
    ultimately show ?thesis using True Suc.prems assms(1)
      by (intro exI [of _ j]) (simp add: scan.simps [of P z i])
  next
    case False
    with Suc.prems assms(1) show ?thesis by (intro exI [of _ i]) (simp add: scan.simps [of P z i])
  qed
qed

lemma scan_bounds:
  assumes "ctext z L" "i \<le> L" "\<not> P 0"
  obtains j where "scan P z i = Some j" "i \<le> j" "j \<le> L" "P (z ! i) \<Longrightarrow> i < j" "\<not> P (z ! j)"
proof -
  from scan_text [of z L i P] assms obtain j where "scan P z i = Some j \<and> i \<le> j \<and> j \<le> L \<and> \<not> P (z ! j)" by blast
  then show ?thesis using that [of j] by (cases "i = j") auto
qed

lemma commentLoop_text:
  assumes "ctext z L"
  shows "i \<le> L \<Longrightarrow> \<exists>c' j. commentLoop z c i = Some (c', j) \<and> i \<le> j \<and> j \<le> L \<and> (c' \<noteq> 0 \<longrightarrow> j < L)"
proof (induction "L - i" arbitrary: c i)
  case 0
  with assms have "i = L" "z ! i = 0" by (auto simp: ctext_def)
  with assms show ?case by (simp add: commentLoop.simps [of z c L])
next
  case (Suc d)
  then have i: "i < L" "d = L - (i + 1)" "i + 1 \<le> L" "z ! i \<noteq> 0" using assms by (auto simp: ctext_def)
  then obtain c' j where "commentLoop z (z ! i) (i + 1) = Some (c', j)" "i + 1 \<le> j" "j \<le> L" "c' \<noteq> 0 \<longrightarrow> j < L"
    using Suc.hyps(1) [of "i + 1" "z ! i"] by blast
  with i assms show ?case by (simp add: commentLoop.simps [of z c i])
qed

lemma quoteLoop_text:
  assumes "ctext z L" "delim \<noteq> 0"
  shows "i \<le> L \<Longrightarrow> \<exists>c j. quoteLoop z delim i = Some (c, j) \<and> i \<le> j \<and> j \<le> L \<and> (c \<noteq> 0 \<longrightarrow> j < L)"
proof (induction "L - i" arbitrary: i rule: less_induct)
  case less
  show ?case
  proof (cases "z ! i = 0")
    case True
    with less.prems assms show ?thesis by (simp add: quoteLoop.simps [of z delim i])
  next
    case False
    with assms less.prems have i: "i < L" by (simp add: ctext_less)
    consider "z ! i \<noteq> delim" | "z ! i = delim" "z ! (i + 1) \<noteq> delim" | "z ! i = delim" "z ! (i + 1) = delim" by blast
    then show ?thesis
    proof cases
      case 1
      with less.hyps [of "i + 1"] i False assms show ?thesis by (fastforce simp: quoteLoop.simps [of z delim i])
    next
      case 2
      with i False assms show ?thesis by (simp add: quoteLoop.simps [of z delim i])
    next
      case 3
      then have "i + 1 < L" using i assms by (intro ctext_less) auto
      then obtain c j where "quoteLoop z delim (i + 2) = Some (c, j)" "i + 2 \<le> j" "j \<le> L" "c \<noteq> 0 \<longrightarrow> j < L"
        using less.hyps [of "i + 2"] i by force
      with 3 i False assms show ?thesis by (simp add: quoteLoop.simps [of z delim i])
    qed
  qed
qed

lemma bracketLoop_text:
  assumes "ctext z L"
  shows "i \<le> L \<Longrightarrow> \<exists>c' j. bracketLoop z c i = Some (c', j) \<and> i \<le> j \<and> j \<le> L"
proof (induction "L - i" arbitrary: c i)
  case 0
  with assms have "i = L" "z ! i = 0" by (auto simp: ctext_def)
  with assms show ?case by (simp add: bracketLoop.simps [of z c L])
next
  case (Suc d)
  then have "i < L" "d = L - (i + 1)" "i + 1 \<le> L" "z ! i \<noteq> 0" using assms by (auto simp: ctext_def)
  with Suc.hyps(1) [of "i + 1" "z ! i"] assms show ?case
    by (fastforce simp: bracketLoop.simps [of z c i])
qed

lemma varLoop_text:
  assumes "ctext z L"
  shows "i \<le> L \<Longrightarrow> \<exists>t n' j. varLoop z n i = Some (t, n', j) \<and> i \<le> j \<and> j \<le> L"
proof (induction "L - i" arbitrary: n i rule: less_induct)
  case less
  note eq = varLoop.simps [of z n i]
  show ?case
  proof (cases "z ! i = 0")
    case True
    with less.prems assms show ?thesis by (simp add: eq)
  next
    case False
    with assms less.prems have i: "i < L" by (simp add: ctext_less)
    consider "IdChar (z ! i)" | "\<not> IdChar (z ! i)" "z ! i = 40" "n > 0"
      | "\<not> IdChar (z ! i)" "z ! i = 58" "z ! (i + 1) = 58"
      | "\<not> IdChar (z ! i)" "\<not> (z ! i = 40 \<and> n > 0)" "\<not> (z ! i = 58 \<and> z ! (i + 1) = 58)" by blast
    then show ?thesis
    proof cases
      case 1
      with less.hyps [of "i + 1" "n + 1"] i False assms show ?thesis by (fastforce simp: eq)
    next
      case 2
      obtain j where j: "scan (\<lambda>c. c \<noteq> 0 \<and> \<not> sqlite3Isspace c \<and> c \<noteq> 41) z (i + 1) = Some j" "i + 1 \<le> j" "j \<le> L"
        using scan_bounds [OF assms, of "i + 1" "\<lambda>c. c \<noteq> 0 \<and> \<not> sqlite3Isspace c \<and> c \<noteq> 41"] i by auto
      then have "z ! j = 41 \<longrightarrow> j < L" using assms ctext_less [of z L j] by auto
      with 2 j i False assms show ?thesis by (simp add: eq Suc_le_eq)
    next
      case 3
      then have "i + 1 < L" using i assms by (intro ctext_less) auto
      then obtain t n' j where "varLoop z n (i + 2) = Some (t, n', j)" "i + 2 \<le> j" "j \<le> L"
        using less.hyps [of "i + 2" n] i by force
      with 3 i False assms show ?thesis by (simp add: eq)
    next
      case 4
      with i False assms show ?thesis by (auto simp: eq)
    qed
  qed
qed

text \<open>What one call returns: a token of at least one byte that ends inside the text.\<close>

definition inside :: "nat \<Rightarrow> (tk \<times> nat) option \<Rightarrow> bool" where
  "inside L r \<longleftrightarrow> (\<exists>t n. r = Some (t, n) \<and> 0 < n \<and> n \<le> L)"

lemma inside_Some [simp]: "inside L (Some (t, n)) \<longleftrightarrow> 0 < n \<and> n \<le> L"
  by (simp add: inside_def)

lemma inside_If: "(b \<Longrightarrow> inside L x) \<Longrightarrow> (\<not> b \<Longrightarrow> inside L y) \<Longrightarrow> inside L (if b then x else y)"
  by simp

lemma byte1: "ctext z L \<Longrightarrow> 0 < L \<Longrightarrow> z ! Suc 0 \<noteq> 0 \<Longrightarrow> 2 \<le> L"
  using ctext_less [of z L "Suc 0"] by simp

lemma byte2: "ctext z L \<Longrightarrow> 0 < L \<Longrightarrow> z ! Suc 0 \<noteq> 0 \<Longrightarrow> z ! 2 \<noteq> 0 \<Longrightarrow> 3 \<le> L"
  using ctext_less [of z L 2] byte1 [of z L] by simp

lemma inside_ops:
  assumes "ctext z L" "0 < L"
  shows "inside L (getEq z)" "inside L (getLt z)" "inside L (getGt z)" "inside L (getBang z)" "inside L (getPipe z)"
  unfolding getEq_def getLt_def getGt_def getBang_def getPipe_def
  using byte1 [OF assms] assms by (auto simp: Suc_le_eq)

lemma inside_scan:
  assumes "ctext z L" "i \<le> L" "\<not> P 0" "0 < i"
  shows "inside L (scan P z i \<bind> (\<lambda>i. Some (t, i)))"
proof -
  obtain j where "scan P z i = Some j" "i \<le> j" "j \<le> L" using scan_bounds [of z L i P] assms by blast
  with assms show ?thesis by simp
qed

lemma inside_getMinus: "ctext z L \<Longrightarrow> 0 < L \<Longrightarrow> inside L (getMinus z)"
  unfolding getMinus_def using byte1 [of z L] by (auto simp: Suc_le_eq intro!: inside_scan)

lemma inside_getSlash: "ctext z L \<Longrightarrow> 0 < L \<Longrightarrow> inside L (getSlash z)"
  unfolding getSlash_def using byte1 [of z L] byte2 [of z L] commentLoop_text [of z L 3 "z ! 2"]
  by (auto simp: Suc_le_eq)

lemma inside_getQuote:
  assumes "ctext z L" "0 < L"
  shows "inside L (getQuote z)"
proof -
  have "z ! 0 \<noteq> 0" using assms by (simp add: ctext_def)
  with quoteLoop_text [of z L "z ! 0" 1] obtain c j where "quoteLoop z (z ! 0) 1 = Some (c, j)" "1 \<le> j" "j \<le> L"
    "c \<noteq> 0 \<longrightarrow> j < L" using assms by auto
  with assms show ?thesis by (auto simp: getQuote_def)
qed

lemma inside_getBracket: "ctext z L \<Longrightarrow> 0 < L \<Longrightarrow> inside L (getBracket z)"
  using bracketLoop_text [of z L 1 "z ! 0"] by (auto simp: getBracket_def)

lemma inside_getVariable: "ctext z L \<Longrightarrow> 0 < L \<Longrightarrow> inside L (getVariable z)"
  using varLoop_text [of z L 1 0] by (auto simp: getVariable_def)

lemma IdChar_0 [simp]: "\<not> IdChar 0" "\<not> sqlite3Isdigit 0" "\<not> sqlite3Isxdigit 0" "\<not> sqlite3Isspace 0"
  by (simp_all add: ctype_classes)

lemma cclass_0 [simp]: "aiClass ! 0 = 27" "aiClass ! 46 = 26"
  by (simp_all add: aiClass_def)

lemma inside_getId: "ctext z L \<Longrightarrow> 0 < i \<Longrightarrow> i \<le> L \<Longrightarrow> inside L (getId z i)"
  unfolding getId_def by (rule inside_scan) simp_all

lemma inside_getKeyword:
  assumes "ctext z L" "0 < L"
  shows "inside L (getKeyword kw z)"
proof -
  obtain j where j: "scan (\<lambda>c. cclass c \<le> 1) z 1 = Some j" "1 \<le> j" "j \<le> L"
    using scan_bounds [of z L 1 "\<lambda>c. cclass c \<le> 1"] assms by auto
  have "IdChar (z ! j) \<Longrightarrow> j < L" using ctext_less [of z L j] assms j by force
  with j assms show ?thesis by (auto simp: getKeyword_def Suc_le_eq intro!: inside_getId)
qed

lemma inside_getX:
  assumes "ctext z L" "0 < L"
  shows "inside L (getX z)"
proof (cases "z ! 1 = 39")
  case True
  then have L: "2 \<le> L" using byte1 assms by simp
  obtain j where j: "scan sqlite3Isxdigit z 2 = Some j" "2 \<le> j" "j \<le> L"
    using scan_bounds [of z L 2 sqlite3Isxdigit] L assms by auto
  obtain k where k: "scan (\<lambda>c. c \<noteq> 0 \<and> c \<noteq> 39) z j = Some k" "j \<le> k" "k \<le> L"
    using scan_bounds [of z L j "\<lambda>c. c \<noteq> 0 \<and> c \<noteq> 39"] j assms by auto
  have "z ! j \<noteq> 0 \<Longrightarrow> j < L" "z ! k \<noteq> 0 \<Longrightarrow> k < L" using ctext_less assms j k by blast+
  with j k assms True show ?thesis by (auto simp: getX_def Suc_le_eq)
next
  case False
  with assms show ?thesis by (simp add: getX_def inside_getId)
qed

lemma inside_getNumber:
  assumes "ctext z L" "0 < L" "sqlite3Isdigit (z ! 0) \<or> z ! 0 = 46"
  shows "inside L (getNumber z)"
proof -
  obtain h where h: "3 \<le> L \<longrightarrow> scan sqlite3Isxdigit z 3 = Some h \<and> 3 \<le> h \<and> h \<le> L"
    using scan_text [of z L 3 sqlite3Isxdigit] assms by fastforce
  obtain i where i: "scan sqlite3Isdigit z 0 = Some i" "i \<le> L" "sqlite3Isdigit (z ! 0) \<longrightarrow> 0 < i" "\<not> sqlite3Isdigit (z ! i)"
    using scan_bounds [of z L 0 sqlite3Isdigit] assms by auto
  have i0: "0 < i \<or> z ! i = 46" using i assms(3) by (cases "i = 0") auto
  have dot: "z ! i = 46 \<Longrightarrow> i + 1 \<le> L" using ctext_less [of z L i] i assms by auto
  obtain t2 i2 where i2: "(if z ! i = 46 then do { i \<leftarrow> scan sqlite3Isdigit z (i + 1); Some (TK_FLOAT, i) }
      else Some (TK_INTEGER, i)) = Some (t2, i2)" "0 < i2" "i2 \<le> L"
  proof (cases "z ! i = 46")
    case True
    with dot obtain j where "scan sqlite3Isdigit z (i + 1) = Some j" "i + 1 \<le> j" "j \<le> L"
      using scan_bounds [of z L "i + 1" sqlite3Isdigit] assms by auto
    with True that show ?thesis by simp
  next
    case False
    with i i0 that show ?thesis by simp
  qed
  define expo where "expo = (if z ! i2 = 101 \<or> z ! i2 = 69 then do {
           c \<leftarrow> zat z (i2 + 1);
           if sqlite3Isdigit c then Some True
           else if c = 43 \<or> c = 45 then do { d \<leftarrow> zat z (i2 + 2); Some (sqlite3Isdigit d) } else Some False
         } else Some False)"
  have "\<exists>b. expo = Some b \<and> (b \<longrightarrow> i2 + 2 \<le> L)"
  proof (cases "z ! i2 = 101 \<or> z ! i2 = 69")
    case True
    then have e: "i2 + 1 \<le> L" using ctext_less [of z L i2] i2 assms by auto
    then have "z ! (i2 + 1) \<noteq> 0 \<Longrightarrow> i2 + 2 \<le> L" using ctext_less [of z L "i2 + 1"] assms by auto
    with True e assms show ?thesis unfolding expo_def by (cases "z ! (i2 + 1) = 0") (simp_all, auto)
  qed (auto simp: expo_def)
  then obtain b where b: "expo = Some b" "b \<longrightarrow> i2 + 2 \<le> L" by blast
  obtain t3 i3 where i3: "(if b then do { i \<leftarrow> scan sqlite3Isdigit z (i2 + 2); Some (TK_FLOAT, i) } else Some (t2, i2)) = Some (t3, i3)"
    "0 < i3" "i3 \<le> L"
  proof (cases b)
    case True
    with b obtain j where "scan sqlite3Isdigit z (i2 + 2) = Some j" "i2 + 2 \<le> j" "j \<le> L"
      using scan_bounds [of z L "i2 + 2" sqlite3Isdigit] assms by auto
    with True that show ?thesis by simp
  next
    case False
    with i2 that show ?thesis by simp
  qed
  obtain j where j: "scan IdChar z i3 = Some j" "i3 \<le> j" "j \<le> L" using scan_bounds [of z L i3 IdChar] i3 assms by auto
  define hex where "hex = (if z ! 0 = 48 then do {
         z1 \<leftarrow> zat z 1;
         if z1 = 120 \<or> z1 = 88 then do { z2 \<leftarrow> zat z 2; Some (sqlite3Isxdigit z2) } else Some False
       } else Some False)"
  have "\<exists>x. hex = Some x \<and> (x \<longrightarrow> 3 \<le> L)"
  proof (cases "z ! 0 = 48 \<and> (z ! 1 = 120 \<or> z ! 1 = 88)")
    case True
    then have "2 \<le> L" using byte1 assms by auto
    moreover have "sqlite3Isxdigit (z ! 2) \<Longrightarrow> 3 \<le> L" using True byte2 [of z L] assms by fastforce
    ultimately show ?thesis using True assms by (auto simp: hex_def)
  next
    case False
    with assms show ?thesis by (auto simp: hex_def)
  qed
  then obtain x where x: "hex = Some x" "x \<longrightarrow> 3 \<le> L" by blast
  have "getNumber z = (if x then Some (TK_INTEGER, h) else Some (if j > i3 then TK_ILLEGAL else t3, j))"
    unfolding getNumber_def using x h i i2(1,3) b i3(1,3) j(1) assms
    by (simp add: hex_def [symmetric] expo_def [symmetric])
  with h j i3 x show ?thesis by auto
qed

lemma cclass_number: "cclass c = 3 \<longleftrightarrow> sqlite3Isdigit c" "cclass c = 26 \<longleftrightarrow> c = 46"
  by (rule byte_all [of "\<lambda>c. cclass c = 3 \<longleftrightarrow> sqlite3Isdigit c"], code_simp,
      rule byte_all [of "\<lambda>c. cclass c = 26 \<longleftrightarrow> c = 46"], code_simp)

lemma sqlite3GetToken_inside:
  assumes "ctext z L" "0 < L"
  shows "inside L (sqlite3GetToken kw z)"
proof -
  have dot: "inside L (getDot z)" if "cclass (z ! 0) = 26"
    using that assms inside_getNumber [of z L] by (auto simp: getDot_def cclass_number Suc_le_eq)
  have z0: "zat z 0 = Some (z ! 0)" using assms by simp
  have one: "inside L (Some (t, 1))" for t using assms by simp
  show ?thesis
    unfolding sqlite3GetToken_def z0 bind.bind_lunit Let_def
    by (intro inside_If one dot inside_ops inside_getMinus inside_getSlash inside_getQuote inside_getBracket
        inside_getVariable inside_getId inside_getKeyword inside_getX inside_getNumber inside_scan assms)
      (use assms in \<open>simp_all add: cclass_number Suc_le_eq\<close>)
qed

text \<open>C17. On every text, whatever its bytes and whatever follows its terminator, the tokenizer reads
  only the text and its terminator and returns a token of at least one byte that ends inside the
  text.\<close>

theorem sqlite3GetToken_safe:
  assumes "s \<noteq> []" "0 \<notin> set s"
  shows "\<exists>t n. sqlite3GetToken kw (s @ 0 # rest) = Some (t, n) \<and> 0 < n \<and> n \<le> length s"
  using sqlite3GetToken_inside [OF ctext_append [OF assms(2)], of kw rest] assms(1) by (simp add: inside_def)

lemma sqlite3GetToken_safe_witness:
  "\<exists>t n. sqlite3GetToken (\<lambda>w. TK_ID) [39, 120, 0] = Some (t, n) \<and> 0 < n \<and> n \<le> Suc (Suc 0)"
  using sqlite3GetToken_safe [of "[39, 120]" "\<lambda>w. TK_ID" "[]"] by simp

section \<open>Whole texts\<close>

lemma GetToken_text:
  assumes "s \<noteq> []" "0 \<notin> set s"
  obtains t n where "sqlite3GetToken kw (s @ 0 # rest) = Some (t, n)" "0 < n" "n \<le> length s"
  using sqlite3GetToken_inside [OF ctext_append [OF assms(2)], of kw rest] assms(1) by (auto simp: inside_def)

lemma zat_0 [simp]: "zat (c # z) 0 = Some c"
  by (simp add: zat_def)

lemma zat_text_0: "s \<noteq> [] \<Longrightarrow> 0 \<notin> set s \<Longrightarrow> \<exists>c. zat (s @ 0 # rest) 0 = Some c \<and> c \<noteq> 0"
  by (cases s) auto

lemma tokens_of_total:
  "0 \<notin> set s \<Longrightarrow> \<exists>ts. tokens_of kw (s @ 0 # rest) ts \<and> concat (map snd ts) = s \<and> [] \<notin> snd ` set ts"
proof (induction s rule: length_induct)
  case (1 s)
  show ?case
  proof (cases "s = []")
    case True
    then show ?thesis by (intro exI [of _ "[]"]) (simp add: tokens_of.at_end)
  next
    case False
    with 1 obtain t n where tn: "sqlite3GetToken kw (s @ 0 # rest) = Some (t, n)" "0 < n" "n \<le> length s"
      using GetToken_text by metis
    obtain c where c: "zat (s @ 0 # rest) 0 = Some c" "c \<noteq> 0" using zat_text_0 False 1(2) by blast
    have "length (drop n s) < length s" "0 \<notin> set (drop n s)" using tn 1(2) by (auto dest: in_set_dropD)
    with 1 obtain ts where ts: "tokens_of kw (drop n s @ 0 # rest) ts" "concat (map snd ts) = drop n s" "[] \<notin> snd ` set ts"
      by blast
    have "tokens_of kw (s @ 0 # rest) ((t, take n s) # ts)"
      using tokens_of.token [OF c tn(1), of ts] ts tn by simp
    with ts tn show ?thesis by (intro exI [of _ "(t, take n s) # ts"]) auto
  qed
qed

lemma tokens_of_unique: "tokens_of kw z ts \<Longrightarrow> tokens_of kw z us \<Longrightarrow> us = ts"
proof (induction arbitrary: us rule: tokens_of.induct)
  case (at_end z)
  then show ?case by (auto elim: tokens_of.cases)
next
  case (token z c t n ts)
  from token.prems token.hyps obtain us' where "us = (t, take n z) # us'" "tokens_of kw (drop n z) us'"
    by (auto elim: tokens_of.cases)
  with token.IH show ?case by blast
qed

text \<open>C31. Every text has exactly one sequence of tokens. They are not empty and their bytes, in order, are
  the text: nothing is lost or read twice.\<close>

theorem tokens_lossless:
  assumes "0 \<notin> set s"
  shows "\<exists>ts. tokens_of kw (s @ 0 # rest) ts \<and> (\<forall>us. tokens_of kw (s @ 0 # rest) us \<longrightarrow> us = ts)
    \<and> concat (map snd ts) = s \<and> [] \<notin> snd ` set ts"
  using tokens_of_total [OF assms, of kw rest] tokens_of_unique by metis

lemma tokens_lossless_witness: "\<exists>ts. tokens_of (\<lambda>w. TK_ID) [97, 59, 0] ts \<and> concat (map snd ts) = [97, 59]"
  using tokens_lossless [of "[97, 59]" "\<lambda>w. TK_ID" "[]"] by auto

text \<open>The end-of-input token is never a token of the text.\<close>

definition no_eof :: "(tk \<times> 'a) option \<Rightarrow> bool" where
  "no_eof r \<longleftrightarrow> (\<forall>t n. r = Some (t, n) \<longrightarrow> t \<noteq> TK_EOF)"

lemma no_eof_simps [simp]: "no_eof None" "no_eof (Some (t, n)) \<longleftrightarrow> t \<noteq> TK_EOF"
  by (simp_all add: no_eof_def)




















section \<open>Quoted strings and names\<close>

lemma zat_drop: "drop i z = c # r \<Longrightarrow> zat z i = Some c"
  using drop_ConsD [of i z c r] by (auto simp: zat_def)

lemma quoteLoop_quoted:
  assumes "drop i z = quoted q s @ q # r" "r \<noteq> []" "hd r \<noteq> q" "0 \<notin> set s" "q \<noteq> 0"
  shows "quoteLoop z q i = Some (q, i + length (quoted q s))"
  using assms
proof (induction s arbitrary: i)
  case Nil
  then have d: "drop (i + 1) z = r" "zat z i = Some q" using drop_ConsD [of i z q r] zat_drop by auto
  then have "zat z (i + 1) = Some (hd r)" using Nil.prems zat_drop [of "i + 1" z "hd r" "tl r"] by simp
  with d Nil.prems show ?case by (simp add: quoteLoop.simps [of z q i])
next
  case (Cons c s)
  show ?case
  proof (cases "c = q")
    case True
    with Cons.prems have d: "drop i z = q # q # quoted q s @ q # r" by simp
    then have d1: "drop (i + 1) z = q # quoted q s @ q # r" using drop_ConsD [OF d] by simp
    then have "drop (i + 1 + 1) z = quoted q s @ q # r" using drop_ConsD [OF d1] by simp
    with Cons.IH [of "i + 2"] Cons.prems have "quoteLoop z q (i + 2) = Some (q, i + 2 + length (quoted q s))" by simp
    then show ?thesis
      using True Cons.prems zat_drop [OF d] zat_drop [OF d1] by (simp add: quoteLoop.simps [of z q i])
  next
    case False
    with Cons.prems have d: "drop i z = c # quoted q s @ q # r" by simp
    then have "drop (i + 1) z = quoted q s @ q # r" using drop_ConsD [OF d] by simp
    with Cons.IH [of "i + 1"] Cons.prems have "quoteLoop z q (i + 1) = Some (q, i + 1 + length (quoted q s))" by simp
    then show ?thesis
      using False Cons.prems zat_drop [OF d] by (simp add: quoteLoop.simps [of z q i])
  qed
qed

lemma cclass_quote: "q = 39 \<or> q = 34 \<or> q = 96 \<Longrightarrow> cclass q = 8 \<and> sqlite3Isquote q \<and> q \<noteq> 91 \<and> q \<noteq> 0"
  by (elim disjE) (simp_all add: aiClass_def ctype_classes)

text \<open>Any text written as an SQL string or a quoted name, with its quotes doubled, is one token
  whatever follows that is not the quote again, and removing the quotes of the token gives the text
  back.\<close>

theorem quoted_token_roundtrip:
  assumes "q = 39 \<or> q = 34 \<or> q = 96" "0 \<notin> set s" "r \<noteq> []" "hd r \<noteq> q"
  shows "\<exists>n z'. sqlite3GetToken kw (q # quoted q s @ q # r) = Some (if q = 39 then TK_STRING else TK_ID, n)
    \<and> take n (q # quoted q s @ q # r) = q # quoted q s @ [q]
    \<and> sqlite3Dequote (q # quoted q s @ [q] @ [0]) = Some z' \<and> cstr z' = s"
proof -
  let ?z = "q # quoted q s @ q # r"
  have q: "cclass q = 8" "sqlite3Isquote q" "q \<noteq> 91" "q \<noteq> 0" using cclass_quote [OF assms(1)] by auto
  have loop: "quoteLoop ?z q 1 = Some (q, 1 + length (quoted q s))"
    by (rule quoteLoop_quoted) (use assms(2-4) q(4) in simp_all)
  have tok: "sqlite3GetToken kw ?z = Some (if q = 39 then TK_STRING else TK_ID, length (quoted q s) + 2)"
    using q loop by (simp add: sqlite3GetToken_def getQuote_def)
  have len: "length s \<le> length (quoted q s)" by (induction s) auto
  let ?y = "q # quoted q s @ q # [0]"
  have "sqlite3Dequote ?y = Some (take 0 ?y @ s @ 0 # drop (0 + length s + 1) ?y)"
    using dequoteLoop_quoted [of 1 ?y q s "[0]" 0] q(2-4) by (simp add: sqlite3Dequote_def)
  moreover have "cstr (take 0 ?y @ s @ 0 # drop (0 + length s + 1) ?y) = s" using assms(2) by (simp add: cstr_app)
  moreover have "take (length (quoted q s) + 2) ?z = q # quoted q s @ [q]" by simp
  ultimately show ?thesis using tok
    by (intro exI [of _ "length (quoted q s) + 2"] exI [of _ "take 0 ?y @ s @ 0 # drop (0 + length s + 1) ?y"])
      (simp del: drop_Suc_Cons)
qed

lemma quoted_token_roundtrip_witness:
  "\<exists>n z'. sqlite3GetToken (\<lambda>w. TK_ID) [39, 97, 39, 39, 39, 59, 0] = Some (TK_STRING, n)
    \<and> sqlite3Dequote [39, 97, 39, 39, 39, 0] = Some z' \<and> cstr z' = [97, 39]"
  using quoted_token_roundtrip [of 39 "[97, 39]" "[59, 0]" "\<lambda>w. TK_ID"] by auto

end
