(* ===== verification/Prng.thy ===== *)
theory Prng
  imports SqlitePrelude "HOL-Library.Multiset"
begin

text \<open>
  The pseudo-random number generator of random.c: RC4 on a permutation of the bytes.

  The bytes \<open>sqlite3OsRandomness\<close> puts into \<open>k\<close> are an argument of the call, and so is whether
  \<open>sqlite3_initialize\<close> fails; a NULL buffer is \<open>nobuf\<close>.
\<close>

record prng =
  isInit :: bool
  prng_i :: u8
  prng_j :: u8
  prng_s :: "u8 list"

text \<open>Static data is zero when the program starts.\<close>

definition prng0 :: prng where
  "prng0 = \<lparr>isInit = False, prng_i = 0, prng_j = 0, prng_s = replicate 256 0\<rparr>"

definition seedStep :: "u8 list \<Rightarrow> nat \<Rightarrow> u8 \<times> u8 list \<Rightarrow> u8 \<times> u8 list" where
  "seedStep k i js =
     (let (j, s) = js;
          j = j + (s ! i + k ! i);
          t = s ! unat j;
          s = s[unat j := s ! i];
          s = s[i := t]
      in (j, s))"

definition prngSeed :: "u8 list \<Rightarrow> prng" where
  "prngSeed k =
     (let (j, s) = fold (seedStep k) [0..<256] (0, map word_of_nat [0..<256])
      in \<lparr>isInit = True, prng_i = 0, prng_j = j, prng_s = s\<rparr>)"

definition prngByte :: "prng \<Rightarrow> u8 \<times> prng" where
  "prngByte p =
     (let i = prng_i p + 1;
          t = prng_s p ! unat i;
          j = prng_j p + t;
          s = (prng_s p)[unat i := prng_s p ! unat j];
          s = s[unat j := t];
          t = t + s ! unat i
      in (s ! unat t, p\<lparr>prng_i := i, prng_j := j, prng_s := s\<rparr>))"

fun prngLoop :: "nat \<Rightarrow> prng \<Rightarrow> u8 list \<times> prng" where
  "prngLoop 0 p = ([], p)"
| "prngLoop (Suc N) p = (let (b, p) = prngByte p; (bs, p) = prngLoop N p in (b # bs, p))"

definition sqlite3_randomness :: "bool \<Rightarrow> u8 list \<Rightarrow> int \<Rightarrow> bool \<Rightarrow> prng \<Rightarrow> u8 list \<times> prng" where
  "sqlite3_randomness initFails k N nobuf p =
     (if initFails then ([], p)
      else if N \<le> 0 \<or> nobuf then ([], p\<lparr>isInit := False\<rparr>)
      else prngLoop (nat N) (if \<not> isInit p then prngSeed k else p))"

definition sqlite3PrngSaveState :: "prng \<Rightarrow> prng \<Rightarrow> prng" where
  "sqlite3PrngSaveState sqlite3Prng sqlite3SavedPrng = sqlite3Prng"

definition sqlite3PrngRestoreState :: "prng \<Rightarrow> prng \<Rightarrow> prng" where
  "sqlite3PrngRestoreState sqlite3Prng sqlite3SavedPrng = sqlite3SavedPrng"


section \<open>The state stays a permutation\<close>

definition all_bytes :: "u8 list" where
  "all_bytes = map word_of_nat [0..<256]"

definition prng_ok :: "prng \<Rightarrow> bool" where
  "prng_ok p \<longleftrightarrow> length (prng_s p) = 256 \<and> (isInit p \<longrightarrow> mset (prng_s p) = mset all_bytes)"

lemma unat_u8: "unat (x::u8) < 256"
  using unsigned_less [of x] by simp

lemma mset_swapped: "i < length s \<Longrightarrow> j < length s \<Longrightarrow> mset (s[j := s ! i, i := s ! j]) = mset s"
  using mset_swap [of i s j] by simp

lemma seedStep_mset:
  assumes "length s = 256" "i < 256"
  shows "mset (snd (seedStep k i (j, s))) = mset s \<and> length (snd (seedStep k i (j, s))) = 256"
  using assms unat_u8 [of "j + (s ! i + k ! i)"] by (simp add: seedStep_def Let_def mset_swapped)

lemma seed_fold:
  "\<forall>i\<in>set is. i < 256 \<Longrightarrow> length (snd js) = 256 \<Longrightarrow>
   mset (snd (fold (seedStep k) is js)) = mset (snd js) \<and> length (snd (fold (seedStep k) is js)) = 256"
proof (induction "is" arbitrary: js)
  case (Cons i "is")
  then show ?case using seedStep_mset [of "snd js" i k "fst js"] by simp
qed simp

lemma prngSeed_ok: "prng_ok (prngSeed k) \<and> isInit (prngSeed k)"
  using seed_fold [of "[0..<256]" "(0, map word_of_nat [0..<256])" k]
  by (simp add: prngSeed_def prng_ok_def all_bytes_def case_prod_unfold Let_def)

lemma prngByte_ok: "prng_ok p \<Longrightarrow> isInit p \<Longrightarrow> prng_ok (snd (prngByte p)) \<and> isInit (snd (prngByte p))"
  using mset_swapped [of "unat (prng_j p + prng_s p ! unat (prng_i p + 1))" "prng_s p" "unat (prng_i p + 1)"]
  by (simp add: prngByte_def Let_def prng_ok_def unat_u8)

lemma prngLoop_ok:
  "prng_ok p \<Longrightarrow> isInit p \<Longrightarrow>
   prng_ok (snd (prngLoop n p)) \<and> isInit (snd (prngLoop n p)) \<and> length (fst (prngLoop n p)) = n"
proof (induction n arbitrary: p)
  case (Suc n)
  then show ?case using prngByte_ok [of p] Suc.IH [of "snd (prngByte p)"] by (simp add: case_prod_unfold Let_def)
qed simp

text \<open>A run: the sequence of calls a program makes, and the bytes each returns.\<close>

fun prng_run :: "(bool \<times> u8 list \<times> int \<times> bool) list \<Rightarrow> prng \<Rightarrow> u8 list list \<times> prng" where
  "prng_run [] p = ([], p)"
| "prng_run ((ini, k, N, nobuf) # cs) p =
     (let (bs, p) = sqlite3_randomness ini k N nobuf p; (bss, p) = prng_run cs p in (bs # bss, p))"

lemma sqlite3_randomness_ok:
  assumes "prng_ok p"
  shows "prng_ok (snd (sqlite3_randomness ini k N nobuf p))
    \<and> length (fst (sqlite3_randomness ini k N nobuf p)) = (if ini \<or> nobuf then 0 else nat N)"
  using assms prngSeed_ok [of k] prngLoop_ok [of "prngSeed k" "nat N"] prngLoop_ok [of p "nat N"]
  by (auto simp: sqlite3_randomness_def prng_ok_def)

text \<open>C35. Whatever the calls since the program started and whatever the seeds, the generator's array has 256
  entries, once seeded it is a permutation of all bytes, and each call writes exactly the \<open>N\<close> bytes
  it was asked for (none for \<open>N \<le> 0\<close>, a NULL buffer or a failed initialisation).\<close>

theorem prng_permutation:
  "prng_ok (snd (prng_run calls prng0))
    \<and> map length (fst (prng_run calls prng0)) = map (\<lambda>(ini, k, N, nobuf). if ini \<or> nobuf then 0 else nat N) calls"
proof -
  have "prng_ok p \<Longrightarrow> prng_ok (snd (prng_run calls p))
    \<and> map length (fst (prng_run calls p)) = map (\<lambda>(ini, k, N, nobuf). if ini \<or> nobuf then 0 else nat N) calls" for p
  proof (induction calls arbitrary: p)
    case (Cons c cs)
    obtain ini k N nobuf where c: "c = (ini, k, N, nobuf)" by (cases c)
    show ?case
      using Cons.IH [of "snd (sqlite3_randomness ini k N nobuf p)"] sqlite3_randomness_ok [OF Cons.prems, of ini k N nobuf]
      by (simp add: c case_prod_unfold Let_def)
  qed simp
  moreover have "prng_ok prng0" by (simp add: prng0_def prng_ok_def)
  ultimately show ?thesis by blast
qed

end
