(* ===== verification/Notify.thy ===== *)
theory Notify
  imports SqlitePrelude "HOL-Library.Multiset"
begin

text \<open>
  Unlock notification between connections that share a cache (notify.c).

  Connections, callbacks and their arguments are numbers. The list linked through \<open>pNextBlocked\<close> is
  the list \<open>sqlite3BlockedList\<close>. Every operation holds the STATIC_MASTER mutex from its start to its
  end, so a run of the program is a sequence of whole operations. A callback invocation is an
  entry (callback, arguments) of the log the operation returns; calling a NULL callback and writing
  past the argument array are \<^term>\<open>None\<close>.
\<close>

section \<open>State and operations\<close>

datatype nrc = SQLITE_OK | SQLITE_LOCKED

record conn =
  pBlockingConnection :: "nat option"
  pUnlockConnection :: "nat option"
  xUnlockNotify :: "nat option"
  pUnlockArg :: nat

record nstate =
  sqlite3BlockedList :: "nat list"
  conns :: "nat \<Rightarrow> conn"

definition conn0 :: conn where
  "conn0 = \<lparr>pBlockingConnection = None, pUnlockConnection = None, xUnlockNotify = None, pUnlockArg = 0\<rparr>"

abbreviation setconn :: "nat \<Rightarrow> (conn \<Rightarrow> conn) \<Rightarrow> nstate \<Rightarrow> nstate" where
  "setconn db f s \<equiv> s\<lparr>conns := (conns s)(db := f (conns s db))\<rparr>"

text \<open>The assertions of debug builds: the loop over \<open>p2\<close> for one \<open>p\<close>, and over all \<open>p\<close>.\<close>

fun checkBefore :: "nat option \<Rightarrow> (nat \<Rightarrow> conn) \<Rightarrow> nat list \<Rightarrow> nat \<Rightarrow> bool \<Rightarrow> bool" where
  "checkBefore db c [] p seen = True"
| "checkBefore db c (p2 # ps) p seen =
     (let same = (xUnlockNotify (c p2) = xUnlockNotify (c p)); seen = (seen \<or> same) in
      (same \<or> \<not> seen) \<and> (db = None \<or> pUnlockConnection (c p) \<noteq> db)
      \<and> (db = None \<or> pBlockingConnection (c p) \<noteq> db) \<and> checkBefore db c ps p seen)"

definition checkListProperties :: "nat option \<Rightarrow> nstate \<Rightarrow> bool" where
  "checkListProperties db s =
     (let l = sqlite3BlockedList s; c = conns s in
      \<forall>i < length l. (pUnlockConnection (c (l ! i)) \<noteq> None \<or> pBlockingConnection (c (l ! i)) \<noteq> None)
        \<and> checkBefore db c (take i l) (l ! i) False)"

definition removeFromBlockedList :: "nat \<Rightarrow> nstate \<Rightarrow> nstate" where
  "removeFromBlockedList db s = s\<lparr>sqlite3BlockedList := remove1 db (sqlite3BlockedList s)\<rparr>"

definition addToBlockedList :: "nat \<Rightarrow> nstate \<Rightarrow> nstate" where
  "addToBlockedList db s =
     (let other = (\<lambda>p. xUnlockNotify (conns s p) \<noteq> xUnlockNotify (conns s db)) in
      s\<lparr>sqlite3BlockedList :=
          takeWhile other (sqlite3BlockedList s) @ db # dropWhile other (sqlite3BlockedList s)\<rparr>)"

text \<open>\<open>for(p=db->pBlockingConnection; p && p!=db; p=p->pUnlockConnection){}\<close>\<close>

partial_function (option) unlockChain :: "nstate \<Rightarrow> nat \<Rightarrow> nat option \<Rightarrow> nat option option" where
  "unlockChain s db p =
     (case p of
        None \<Rightarrow> Some None
      | Some q \<Rightarrow> if q = db then Some (Some q) else unlockChain s db (pUnlockConnection (conns s q)))"

declare unlockChain.simps [code]

type_synonym nlog = "(nat \<times> nat list) list"

definition sqlite3_unlock_notify :: "nat \<Rightarrow> nat option \<Rightarrow> nat \<Rightarrow> nstate \<Rightarrow> (nrc \<times> nlog \<times> nstate) option" where
  "sqlite3_unlock_notify db xNotify pArg s =
     (case xNotify of
        None \<Rightarrow> Some (SQLITE_OK, [], setconn db (\<lambda>_. conn0) (removeFromBlockedList db s))
      | Some f \<Rightarrow>
          if pBlockingConnection (conns s db) = None then Some (SQLITE_OK, [(f, [pArg])], s)
          else do {
            p \<leftarrow> unlockChain s db (pBlockingConnection (conns s db));
            if p \<noteq> None then Some (SQLITE_LOCKED, [], s)
            else Some (SQLITE_OK, [],
              addToBlockedList db (removeFromBlockedList db
                (setconn db (\<lambda>c. c\<lparr>pUnlockConnection := pBlockingConnection c, xUnlockNotify := Some f,
                                   pUnlockArg := pArg\<rparr>) s)))
          })"

definition sqlite3ConnectionBlocked :: "nat \<Rightarrow> nat \<Rightarrow> nstate \<Rightarrow> nstate" where
  "sqlite3ConnectionBlocked db pBlocker s =
     setconn db (\<lambda>c. c\<lparr>pBlockingConnection := Some pBlocker\<rparr>)
       (if pBlockingConnection (conns s db) = None \<and> pUnlockConnection (conns s db) = None
        then addToBlockedList db s else s)"

text \<open>
  The loop of \<open>sqlite3ConnectionUnlocked\<close>: \<open>x\<close>, \<open>args\<close> and \<open>cap\<close> are the local \<open>xUnlockNotify\<close>, the first
  \<open>nArg\<close> entries of \<open>aArg\<close> and its capacity (16 on the stack). \<open>sz n\<close> is the capacity
  \<open>sqlite3MallocSize\<close> reports for an allocation of \<open>n\<close> entries, \<open>al\<close> the outcomes of the allocations.
  The result is the connections, the list left behind, \<open>x\<close>, \<open>args\<close> and the log.
\<close>

definition invoke :: "nat option \<Rightarrow> nat list \<Rightarrow> nlog option" where
  "invoke x args = map_option (\<lambda>f. [(f, args)]) x"

definition unlockEntry ::
  "(nat \<Rightarrow> nat) \<Rightarrow> nat \<Rightarrow> conn \<Rightarrow> nat option \<Rightarrow> nat list \<Rightarrow> nat \<Rightarrow> allocs \<Rightarrow>
   (nlog \<times> nat option \<times> nat list \<times> nat \<times> allocs \<times> conn) option"
where
  "unlockEntry sz db cp x args cap al =
     (let cp = (if pBlockingConnection cp = Some db then cp\<lparr>pBlockingConnection := None\<rparr> else cp) in
      if pUnlockConnection cp = Some db then do {
        (l1, args) \<leftarrow> (if xUnlockNotify cp \<noteq> x \<and> args \<noteq> [] then do { l \<leftarrow> invoke x args; Some (l, []) }
                      else Some ([], args));
        (l2, args, cap, al) \<leftarrow>
          (if length args = cap then
             (let (ok, al) = alloc_ok al in
              if ok then Some ([], args, sz (length args * 2), al)
              else do { l \<leftarrow> invoke x args; Some (l, [], cap, al) })
           else Some ([], args, cap, al));
        if length args \<ge> cap then None
        else Some (l1 @ l2, xUnlockNotify cp, args @ [pUnlockArg cp], cap, al,
                   cp\<lparr>pUnlockConnection := None, xUnlockNotify := None, pUnlockArg := 0\<rparr>)
      } else Some ([], x, args, cap, al, cp))"

fun unlockLoop ::
  "(nat \<Rightarrow> nat) \<Rightarrow> nat \<Rightarrow> (nat \<Rightarrow> conn) \<Rightarrow> nat list \<Rightarrow> nat option \<Rightarrow> nat list \<Rightarrow> nat \<Rightarrow> allocs \<Rightarrow>
   ((nat \<Rightarrow> conn) \<times> nat list \<times> nat option \<times> nat list \<times> nlog) option"
where
  "unlockLoop sz db c [] x args cap al = Some (c, [], x, args, [])"
| "unlockLoop sz db c (p # ps) x args cap al = do {
     (l, x, args, cap, al, cp) \<leftarrow> unlockEntry sz db (c p) x args cap al;
     (c, kept, x, args, l') \<leftarrow> unlockLoop sz db (c(p := cp)) ps x args cap al;
     Some (c, if pBlockingConnection cp = None \<and> pUnlockConnection cp = None then kept else p # kept,
           x, args, l @ l')
   }"

definition sqlite3ConnectionUnlocked :: "(nat \<Rightarrow> nat) \<Rightarrow> allocs \<Rightarrow> nat \<Rightarrow> nstate \<Rightarrow> (nlog \<times> nstate) option" where
  "sqlite3ConnectionUnlocked sz al db s = do {
     (c, kept, x, args, l) \<leftarrow> unlockLoop sz db (conns s) (sqlite3BlockedList s) None [] 16 al;
     l' \<leftarrow> (if args \<noteq> [] then invoke x args else Some []);
     Some (l @ l', s\<lparr>sqlite3BlockedList := kept, conns := c\<rparr>)
   }"

definition sqlite3ConnectionClosed :: "(nat \<Rightarrow> nat) \<Rightarrow> allocs \<Rightarrow> nat \<Rightarrow> nstate \<Rightarrow> (nlog \<times> nstate) option" where
  "sqlite3ConnectionClosed sz al db s = do {
     (l, s) \<leftarrow> sqlite3ConnectionUnlocked sz al db s;
     Some (l, removeFromBlockedList db s)
   }"


section \<open>Who is notified\<close>

text \<open>The calls of a log, one entry per argument, and what unlocking does to one connection.\<close>

definition deliveries :: "nlog \<Rightarrow> (nat option \<times> nat) list" where
  "deliveries l = concat (map (\<lambda>(f, as). map (Pair (Some f)) as) l)"

lemma deliveries_simps [simp]:
  "deliveries [] = []" "deliveries ((f, as) # l) = map (Pair (Some f)) as @ deliveries l"
  "deliveries (l @ l') = deliveries l @ deliveries l'"
  by (simp_all add: deliveries_def)

definition unlocked :: "nat \<Rightarrow> conn \<Rightarrow> conn" where
  "unlocked db cp =
     (let cp = (if pBlockingConnection cp = Some db then cp\<lparr>pBlockingConnection := None\<rparr> else cp) in
      if pUnlockConnection cp = Some db then cp\<lparr>pUnlockConnection := None, xUnlockNotify := None, pUnlockArg := 0\<rparr>
      else cp)"

definition idle :: "conn \<Rightarrow> bool" where
  "idle cp \<longleftrightarrow> pBlockingConnection cp = None \<and> pUnlockConnection cp = None"

lemma unlocked_sel:
  "pBlockingConnection (unlocked db cp) = (if pBlockingConnection cp = Some db then None else pBlockingConnection cp)"
  "pUnlockConnection (unlocked db cp) = (if pUnlockConnection cp = Some db then None else pUnlockConnection cp)"
  "xUnlockNotify (unlocked db cp) = (if pUnlockConnection cp = Some db then None else xUnlockNotify cp)"
  by (simp_all add: unlocked_def Let_def)

lemma alloc_ok_cases: obtains al' where "alloc_ok al = (True, al')" | al' where "alloc_ok al = (False, al')"
  by (cases "alloc_ok al") (metis (full_types))

lemma unlockEntry_ok:
  assumes "0 < cap" "length args \<le> cap" "args \<noteq> [] \<Longrightarrow> x \<noteq> None" "\<And>n. n \<le> sz n"
    "pUnlockConnection cp = Some db \<Longrightarrow> xUnlockNotify cp \<noteq> None"
  shows "\<exists>l x' args' cap' al'. unlockEntry sz db cp x args cap al = Some (l, x', args', cap', al', unlocked db cp)
    \<and> 0 < cap' \<and> length args' \<le> cap' \<and> (args' \<noteq> [] \<longrightarrow> x' \<noteq> None)
    \<and> deliveries l @ map (Pair x') args' = map (Pair x) args
        @ (if pUnlockConnection cp = Some db then [(xUnlockNotify cp, pUnlockArg cp)] else [])"
proof (cases "pUnlockConnection cp = Some db")
  case False
  with assms show ?thesis by (simp add: unlockEntry_def unlocked_def Let_def)
next
  case True
  consider (flush) f where "xUnlockNotify cp \<noteq> x" "args \<noteq> []" "x = Some f"
    | (room) "xUnlockNotify cp = x \<or> args = []" "length args < cap"
    | (full) f where "xUnlockNotify cp = x" "length args = cap" "x = Some f" "args \<noteq> []"
    using assms by (cases x; cases args; fastforce)
  then show ?thesis
  proof cases
    case flush
    with True assms show ?thesis by (simp add: unlockEntry_def unlocked_def Let_def invoke_def)
  next
    case room
    with True assms show ?thesis by (auto simp: unlockEntry_def unlocked_def Let_def)
  next
    case full
    have big: "length args < sz (length args * 2)" using assms(1) assms(4) [of "length args * 2"] full(2) by simp
    show ?thesis
      by (rule alloc_ok_cases [of al])
        (use full True assms big in \<open>simp_all add: unlockEntry_def unlocked_def Let_def invoke_def\<close>)
  qed
qed

lemma unlockLoop_ok:
  assumes "0 < cap" "length args \<le> cap" "args \<noteq> [] \<longrightarrow> x \<noteq> None" "\<forall>n. n \<le> sz n" "distinct ps"
    "\<forall>p\<in>set ps. pUnlockConnection (c p) = Some db \<longrightarrow> xUnlockNotify (c p) \<noteq> None"
  shows "\<exists>l x' args'. unlockLoop sz db c ps x args cap al
      = Some (\<lambda>q. if q \<in> set ps then unlocked db (c q) else c q, filter (\<lambda>p. \<not> idle (unlocked db (c p))) ps, x', args', l)
    \<and> (args' \<noteq> [] \<longrightarrow> x' \<noteq> None)
    \<and> deliveries l @ map (Pair x') args' = map (Pair x) args
        @ map (\<lambda>p. (xUnlockNotify (c p), pUnlockArg (c p))) (filter (\<lambda>p. pUnlockConnection (c p) = Some db) ps)"
  using assms
proof (induction ps arbitrary: c x args cap al)
  case Nil
  then show ?case by simp
next
  case (Cons p ps)
  obtain l x1 args1 cap1 al1 where e: "unlockEntry sz db (c p) x args cap al = Some (l, x1, args1, cap1, al1, unlocked db (c p))"
    and e': "0 < cap1" "length args1 \<le> cap1" "args1 \<noteq> [] \<longrightarrow> x1 \<noteq> None"
      "deliveries l @ map (Pair x1) args1 = map (Pair x) args
        @ (if pUnlockConnection (c p) = Some db then [(xUnlockNotify (c p), pUnlockArg (c p))] else [])"
    using unlockEntry_ok [of cap args x sz "c p" db al] Cons.prems by auto
  define c1 where "c1 = c(p := unlocked db (c p))"
  have same: "q \<in> set ps \<Longrightarrow> c1 q = c q" for q using Cons.prems(5) by (auto simp: c1_def)
  have prem: "\<forall>q\<in>set ps. pUnlockConnection (c1 q) = Some db \<longrightarrow> xUnlockNotify (c1 q) \<noteq> None"
    using same Cons.prems(6) by simp
  have dps: "distinct ps" using Cons.prems(5) by simp
  note IH = Cons.IH [where c = c1 and al = al1, OF e'(1,2,3) Cons.prems(4) dps prem]
  obtain l2 x2 args2 where r: "unlockLoop sz db c1 ps x1 args1 cap1 al1
      = Some (\<lambda>q. if q \<in> set ps then unlocked db (c1 q) else c1 q, filter (\<lambda>p. \<not> idle (unlocked db (c1 p))) ps, x2, args2, l2)"
    and r': "args2 \<noteq> [] \<longrightarrow> x2 \<noteq> None" "deliveries l2 @ map (Pair x2) args2 = map (Pair x1) args1
        @ map (\<lambda>p. (xUnlockNotify (c1 p), pUnlockArg (c1 p))) (filter (\<lambda>p. pUnlockConnection (c1 p) = Some db) ps)"
    using IH by (elim exE conjE) (rule that)
  have fl: "filter (\<lambda>p. \<not> idle (unlocked db (c1 p))) ps = filter (\<lambda>p. \<not> idle (unlocked db (c p))) ps"
    "filter (\<lambda>p. pUnlockConnection (c1 p) = Some db) ps = filter (\<lambda>p. pUnlockConnection (c p) = Some db) ps"
    using same by (auto intro!: filter_cong)
  have mp: "map (\<lambda>p. (xUnlockNotify (c1 p), pUnlockArg (c1 p))) (filter (\<lambda>p. pUnlockConnection (c p) = Some db) ps)
    = map (\<lambda>p. (xUnlockNotify (c p), pUnlockArg (c p))) (filter (\<lambda>p. pUnlockConnection (c p) = Some db) ps)"
    using same by (intro map_cong) auto
  have cs: "(\<lambda>q. if q \<in> set ps then unlocked db (c1 q) else c1 q) = (\<lambda>q. if q \<in> set (p # ps) then unlocked db (c q) else c q)"
    using same Cons.prems(5) by (auto simp: fun_eq_iff c1_def)
  have del: "deliveries (l @ l2) @ map (Pair x2) args2 = map (Pair x) args
        @ map (\<lambda>p. (xUnlockNotify (c p), pUnlockArg (c p))) (filter (\<lambda>p. pUnlockConnection (c p) = Some db) (p # ps))"
    using e'(4) r'(2) unfolding fl mp by (auto split: if_splits)
  show ?case
    unfolding unlockLoop.simps e bind.bind_lunit case_prod_conv c1_def [symmetric] r fl cs
    using del r'(1) by (intro exI [of _ "l @ l2"] exI [of _ x2] exI [of _ args2]) (simp add: idle_def)
qed


section \<open>The invariant\<close>

text \<open>
  A connection is on the list iff it is blocked or waits for a notification, once; it has a callback
  iff it waits; and no connection waits, through others, for itself.
\<close>

definition waits :: "nstate \<Rightarrow> (nat \<times> nat) set" where
  "waits s = {(p, q). pUnlockConnection (conns s p) = Some q}"

definition nb_inv :: "nstate \<Rightarrow> bool" where
  "nb_inv s \<longleftrightarrow> distinct (sqlite3BlockedList s)
     \<and> (\<forall>p. p \<in> set (sqlite3BlockedList s) \<longleftrightarrow> \<not> idle (conns s p))
     \<and> (\<forall>p. pUnlockConnection (conns s p) = None \<longleftrightarrow> xUnlockNotify (conns s p) = None)
     \<and> acyclic (waits s)"

lemma nb_invD:
  assumes "nb_inv s"
  shows "distinct (sqlite3BlockedList s)" "p \<in> set (sqlite3BlockedList s) \<longleftrightarrow> \<not> idle (conns s p)"
    "pUnlockConnection (conns s p) = None \<longleftrightarrow> xUnlockNotify (conns s p) = None" "acyclic (waits s)"
  using assms by (auto simp: nb_inv_def)

lemma finite_waits: "nb_inv s \<Longrightarrow> finite (waits s)"
proof (rule finite_subset)
  assume "nb_inv s"
  then show "waits s \<subseteq> (\<lambda>p. (p, the (pUnlockConnection (conns s p)))) ` set (sqlite3BlockedList s)"
    by (auto simp: waits_def nb_invD(2) idle_def image_iff)
qed simp

lemma unlockChain_eq:
  assumes "nb_inv s"
  shows "unlockChain s db (Some q) = Some (if (q, db) \<in> (waits s)\<^sup>* then Some db else None)"
proof -
  have "wf ((waits s)\<inverse>)" using finite_acyclic_wf_converse finite_waits nb_invD(4) assms by blast
  then show ?thesis
  proof (induction q rule: wf_induct_rule)
    case (less q)
    show ?case
    proof (cases "q = db")
      case True
      then show ?thesis by (subst unlockChain.simps) simp
    next
      case ne: False
      show ?thesis
      proof (cases "pUnlockConnection (conns s q)")
        case None
        have "(q, db) \<notin> (waits s)\<^sup>*"
        proof
          assume "(q, db) \<in> (waits s)\<^sup>*"
          then show False using ne None by (cases rule: converse_rtranclE) (auto simp: waits_def)
        qed
        with None ne show ?thesis by (subst unlockChain.simps, subst unlockChain.simps) simp
      next
        case (Some r)
        then have qr: "(q, r) \<in> waits s" by (simp add: waits_def)
        have iff: "(q, db) \<in> (waits s)\<^sup>* \<longleftrightarrow> (r, db) \<in> (waits s)\<^sup>*"
        proof
          assume "(q, db) \<in> (waits s)\<^sup>*"
          then show "(r, db) \<in> (waits s)\<^sup>*" using ne Some by (cases rule: converse_rtranclE) (auto simp: waits_def)
        next
          assume "(r, db) \<in> (waits s)\<^sup>*"
          with qr show "(q, db) \<in> (waits s)\<^sup>*" by (rule converse_rtrancl_into_rtrancl)
        qed
        have "unlockChain s db (Some q) = unlockChain s db (Some r)" using ne Some by (subst unlockChain.simps) simp
        with less.IH [of r] qr iff show ?thesis by simp
      qed
    qed
  qed
qed

lemma mset_mid: "mset (a @ x # b) = add_mset x (mset (a @ b))"
  by simp

lemma add_list:
  "distinct (sqlite3BlockedList s) \<Longrightarrow> db \<notin> set (sqlite3BlockedList s) \<Longrightarrow>
   distinct (sqlite3BlockedList (addToBlockedList db s))
   \<and> set (sqlite3BlockedList (addToBlockedList db s)) = insert db (set (sqlite3BlockedList s))
   \<and> conns (addToBlockedList db s) = conns s"
proof -
  let ?P = "\<lambda>p. xUnlockNotify (conns s p) \<noteq> xUnlockNotify (conns s db)"
  let ?L = "sqlite3BlockedList s"
  assume a: "distinct ?L" "db \<notin> set ?L"
  have m: "mset (takeWhile ?P ?L @ db # dropWhile ?P ?L) = mset (db # ?L)"
    unfolding mset_mid takeWhile_dropWhile_id mset.simps ..
  have "distinct (takeWhile ?P ?L @ db # dropWhile ?P ?L)" using mset_eq_imp_distinct_iff [OF m] a by simp
  moreover have "set (takeWhile ?P ?L @ db # dropWhile ?P ?L) = insert db (set ?L)" using mset_eq_setD [OF m] by simp
  ultimately show ?thesis by (simp add: addToBlockedList_def Let_def)
qed

lemma inv_blocked: "nb_inv s \<Longrightarrow> nb_inv (sqlite3ConnectionBlocked db b s)"
proof -
  assume inv: "nb_inv s"
  let ?t = "if idle (conns s db) then addToBlockedList db s else s"
  have t: "distinct (sqlite3BlockedList ?t)" "set (sqlite3BlockedList ?t) = insert db (set (sqlite3BlockedList s))"
    "conns ?t = conns s"
    using add_list [of s db] nb_invD(1) [OF inv] nb_invD(2) [OF inv, of db] by auto
  have eq: "sqlite3ConnectionBlocked db b s = setconn db (\<lambda>c. c\<lparr>pBlockingConnection := Some b\<rparr>) ?t"
    by (simp add: sqlite3ConnectionBlocked_def idle_def)
  have w: "waits (sqlite3ConnectionBlocked db b s) = waits s" unfolding eq waits_def by (auto simp: t(3) split: if_splits)
  have m: "p \<in> insert db (set (sqlite3BlockedList s)) \<longleftrightarrow> \<not> idle (((conns s)(db := (conns s db)\<lparr>pBlockingConnection := Some b\<rparr>)) p)" for p
    using nb_invD(2) [OF inv, of p] by (auto simp: idle_def)
  have x: "pUnlockConnection (((conns s)(db := (conns s db)\<lparr>pBlockingConnection := Some b\<rparr>)) p) = None
    \<longleftrightarrow> xUnlockNotify (((conns s)(db := (conns s db)\<lparr>pBlockingConnection := Some b\<rparr>)) p) = None" for p
    using nb_invD(3) [OF inv, of p] by auto
  show ?thesis
    unfolding nb_inv_def w using nb_invD(4) [OF inv] t m x unfolding eq by simp
qed

lemma inv_cancel:
  assumes inv: "nb_inv s" and t: "t = setconn db (\<lambda>_. conn0) (removeFromBlockedList db s)"
  shows "nb_inv t"
proof -
  have l: "sqlite3BlockedList t = remove1 db (sqlite3BlockedList s)" "conns t = (conns s)(db := conn0)"
    by (simp_all add: t removeFromBlockedList_def)
  have "waits t \<subseteq> waits s" by (auto simp: waits_def l conn0_def split: if_splits)
  then have "acyclic (waits t)" using nb_invD(4) [OF inv] acyclic_subset by blast
  moreover have "p \<in> set (remove1 db (sqlite3BlockedList s)) \<longleftrightarrow> \<not> idle (conns t p)" for p
    using nb_invD(1) [OF inv] nb_invD(2) [OF inv, of p] by (auto simp: l idle_def conn0_def)
  moreover have "pUnlockConnection (conns t p) = None \<longleftrightarrow> xUnlockNotify (conns t p) = None" for p
    using nb_invD(3) [OF inv, of p] by (simp add: l conn0_def)
  ultimately show ?thesis using nb_invD(1) [OF inv] by (simp add: nb_inv_def l(1) distinct_remove1)
qed

lemma inv_register:
  assumes inv: "nb_inv s" and q: "pBlockingConnection (conns s db) = Some q" and no: "(q, db) \<notin> (waits s)\<^sup>*"
    and t: "t = setconn db (\<lambda>c. c\<lparr>pUnlockConnection := pBlockingConnection c, xUnlockNotify := Some f, pUnlockArg := a\<rparr>) s"
  shows "nb_inv (addToBlockedList db (removeFromBlockedList db t))"
proof -
  let ?r = "removeFromBlockedList db t"
  have L: "db \<in> set (sqlite3BlockedList s)" using nb_invD(2) [OF inv] q by (simp add: idle_def)
  have r: "sqlite3BlockedList ?r = remove1 db (sqlite3BlockedList s)" "conns ?r = conns t"
    by (simp_all add: removeFromBlockedList_def t)
  have add: "distinct (sqlite3BlockedList (addToBlockedList db ?r))"
    "set (sqlite3BlockedList (addToBlockedList db ?r)) = set (sqlite3BlockedList s)"
    "conns (addToBlockedList db ?r) = conns t"
    using add_list [of ?r db] nb_invD(1) [OF inv] L by (auto simp: r distinct_remove1)
  have "waits (addToBlockedList db ?r) \<subseteq> insert (db, q) (waits s)"
    unfolding waits_def add(3) using q by (auto simp: t split: if_splits)
  moreover have "acyclic (insert (db, q) (waits s))" using nb_invD(4) [OF inv] no by (simp add: acyclic_insert)
  ultimately have ac: "acyclic (waits (addToBlockedList db ?r))" using acyclic_subset by blast
  have m: "p \<in> set (sqlite3BlockedList s) \<longleftrightarrow> \<not> idle (conns t p)" for p
    using nb_invD(2) [OF inv, of p] q by (auto simp: t idle_def)
  have x: "pUnlockConnection (conns t p) = None \<longleftrightarrow> xUnlockNotify (conns t p) = None" for p
    using nb_invD(3) [OF inv, of p] q by (simp add: t)
  show ?thesis unfolding nb_inv_def using add m x ac by simp
qed

lemma unlock_notify_eq:
  assumes "nb_inv s" "pBlockingConnection (conns s db) = Some q"
  shows "sqlite3_unlock_notify db (Some f) a s =
    (if (q, db) \<in> (waits s)\<^sup>* then Some (SQLITE_LOCKED, [], s)
     else Some (SQLITE_OK, [], addToBlockedList db (removeFromBlockedList db
       (setconn db (\<lambda>c. c\<lparr>pUnlockConnection := pBlockingConnection c, xUnlockNotify := Some f, pUnlockArg := a\<rparr>) s))))"
  using unlockChain_eq [OF assms(1), of db q] assms(2) by (simp add: sqlite3_unlock_notify_def)

lemma inv_notify:
  assumes inv: "nb_inv s" and r: "sqlite3_unlock_notify db x a s = Some (rc, l, s')"
  shows "nb_inv s'"
proof (cases x)
  case None
  with r have "s' = setconn db (\<lambda>_. conn0) (removeFromBlockedList db s)" by (simp add: sqlite3_unlock_notify_def)
  then show ?thesis by (rule inv_cancel [OF inv])
next
  case (Some f)
  show ?thesis
  proof (cases "pBlockingConnection (conns s db)")
    case None
    with r Some inv show ?thesis by (simp add: sqlite3_unlock_notify_def)
  next
    case q: (Some q)
    show ?thesis
      using r inv_register [OF inv q _ refl, where f = f and a = a] inv unfolding Some unlock_notify_eq [OF inv q]
      by (auto split: if_splits)
  qed
qed

lemma unlocked_idle: "idle cp \<Longrightarrow> unlocked db cp = cp"
  by (simp add: idle_def unlocked_def)

text \<open>What unlocking does under the invariant.\<close>

lemma ConnectionUnlocked_eq:
  assumes inv: "nb_inv s" and sz: "\<forall>n. n \<le> sz n"
  shows "\<exists>l. sqlite3ConnectionUnlocked sz al db s
      = Some (l, s\<lparr>sqlite3BlockedList := filter (\<lambda>p. \<not> idle (unlocked db (conns s p))) (sqlite3BlockedList s),
                   conns := \<lambda>q. unlocked db (conns s q)\<rparr>)
    \<and> deliveries l = map (\<lambda>p. (xUnlockNotify (conns s p), pUnlockArg (conns s p)))
        (filter (\<lambda>p. pUnlockConnection (conns s p) = Some db) (sqlite3BlockedList s))"
proof -
  have "\<forall>p\<in>set (sqlite3BlockedList s). pUnlockConnection (conns s p) = Some db \<longrightarrow> xUnlockNotify (conns s p) \<noteq> None"
    using nb_invD(3) [OF inv] by (metis option.distinct(1))
  from unlockLoop_ok [of 16 "[]" None sz "sqlite3BlockedList s" "conns s" db al, OF _ _ _ sz nb_invD(1) [OF inv] this]
  obtain l x' args' where l: "unlockLoop sz db (conns s) (sqlite3BlockedList s) None [] 16 al
      = Some (\<lambda>q. if q \<in> set (sqlite3BlockedList s) then unlocked db (conns s q) else conns s q,
          filter (\<lambda>p. \<not> idle (unlocked db (conns s p))) (sqlite3BlockedList s), x', args', l)"
    "args' \<noteq> [] \<longrightarrow> x' \<noteq> None"
    "deliveries l @ map (Pair x') args' = map (\<lambda>p. (xUnlockNotify (conns s p), pUnlockArg (conns s p)))
        (filter (\<lambda>p. pUnlockConnection (conns s p) = Some db) (sqlite3BlockedList s))"
    by auto
  have c: "(\<lambda>q. if q \<in> set (sqlite3BlockedList s) then unlocked db (conns s q) else conns s q)
    = (\<lambda>q. unlocked db (conns s q))"
    using nb_invD(2) [OF inv] unlocked_idle by (auto simp: fun_eq_iff)
  show ?thesis
  proof (cases args')
    case Nil
    with l c show ?thesis by (simp add: sqlite3ConnectionUnlocked_def)
  next
    case (Cons a as)
    with l(2) obtain f where "x' = Some f" by auto
    with l c Cons show ?thesis by (simp add: sqlite3ConnectionUnlocked_def invoke_def)
  qed
qed

lemma inv_unlocked:
  assumes inv: "nb_inv s" and t: "t = s\<lparr>sqlite3BlockedList := filter (\<lambda>p. \<not> idle (unlocked db (conns s p))) (sqlite3BlockedList s),
                   conns := \<lambda>q. unlocked db (conns s q)\<rparr>"
  shows "nb_inv t"
proof -
  have "waits t \<subseteq> waits s" by (auto simp: waits_def t unlocked_sel split: if_splits)
  then have "acyclic (waits t)" using nb_invD(4) [OF inv] acyclic_subset by blast
  moreover have "p \<in> set (sqlite3BlockedList s) \<and> \<not> idle (unlocked db (conns s p)) \<longleftrightarrow> \<not> idle (unlocked db (conns s p))" for p
    using nb_invD(2) [OF inv, of p] unlocked_idle [of "conns s p" db] by auto
  moreover have "pUnlockConnection (unlocked db (conns s p)) = None \<longleftrightarrow> xUnlockNotify (unlocked db (conns s p)) = None" for p
    using nb_invD(3) [OF inv, of p] by (simp add: unlocked_sel)
  ultimately show ?thesis using nb_invD(1) [OF inv] by (simp add: nb_inv_def t)
qed

text \<open>
  The states of a run. A connection object is freed after \<open>sqlite3ConnectionClosed\<close>; a later connection
  at its address starts zeroed.
\<close>

inductive nstep :: "(nat \<Rightarrow> nat) \<Rightarrow> nstate \<Rightarrow> nlog \<Rightarrow> nstate \<Rightarrow> bool" for sz where
  notify: "sqlite3_unlock_notify db x a s = Some (rc, l, s') \<Longrightarrow> nstep sz s l s'"
| blocked: "nstep sz s [] (sqlite3ConnectionBlocked db b s)"
| unlocked: "sqlite3ConnectionUnlocked sz al db s = Some (l, s') \<Longrightarrow> nstep sz s l s'"
| closed: "sqlite3ConnectionClosed sz al db s = Some (l, s') \<Longrightarrow> nstep sz s l (setconn db (\<lambda>_. conn0) s')"

inductive nreach :: "(nat \<Rightarrow> nat) \<Rightarrow> nstate \<Rightarrow> bool" for sz where
  start: "nreach sz \<lparr>sqlite3BlockedList = [], conns = \<lambda>_. conn0\<rparr>"
| more: "nreach sz s \<Longrightarrow> nstep sz s l s' \<Longrightarrow> nreach sz s'"

text \<open>Runs as programs: a sequence of calls.\<close>

datatype nop = NNotify nat "nat option" nat | NBlocked nat nat | NUnlocked allocs nat | NClosed allocs nat

fun nexec :: "(nat \<Rightarrow> nat) \<Rightarrow> nop \<Rightarrow> nstate \<Rightarrow> nstate option" where
  "nexec sz (NNotify db x a) s = map_option (\<lambda>(rc, l, s). s) (sqlite3_unlock_notify db x a s)"
| "nexec sz (NBlocked db b) s = Some (sqlite3ConnectionBlocked db b s)"
| "nexec sz (NUnlocked al db) s = map_option snd (sqlite3ConnectionUnlocked sz al db s)"
| "nexec sz (NClosed al db) s = map_option (\<lambda>(l, s). setconn db (\<lambda>_. conn0) s) (sqlite3ConnectionClosed sz al db s)"

fun nrun :: "(nat \<Rightarrow> nat) \<Rightarrow> nop list \<Rightarrow> nstate \<Rightarrow> nstate option" where
  "nrun sz [] s = Some s"
| "nrun sz (x # xs) s = do { s \<leftarrow> nexec sz x s; nrun sz xs s }"

lemma nexec_step: "nexec sz x s = Some s' \<Longrightarrow> \<exists>l. nstep sz s l s'"
  by (cases x) (auto intro: nstep.intros)

lemma nrun_reach: "nrun sz xs s = Some s' \<Longrightarrow> nreach sz s \<Longrightarrow> nreach sz s'"
  by (induction xs arbitrary: s) (auto simp: bind_eq_Some_conv dest!: nexec_step intro: nreach.more)

abbreviation nstart :: nstate where
  "nstart \<equiv> \<lparr>sqlite3BlockedList = [], conns = \<lambda>_. conn0\<rparr>"

lemma nstep_inv:
  assumes "nstep sz s l s'" "nb_inv s" "\<forall>n. n \<le> sz n"
  shows "nb_inv s'"
  using assms
proof cases
  case (notify db x a rc)
  then show ?thesis using inv_notify assms(2) by blast
next
  case (blocked db b)
  then show ?thesis using inv_blocked assms(2) by blast
next
  case (unlocked al db)
  with ConnectionUnlocked_eq [OF assms(2,3), of al db] show ?thesis using inv_unlocked [OF assms(2) refl] by auto
next
  case (closed al db t)
  obtain u where u: "sqlite3ConnectionUnlocked sz al db s = Some (l, u)" "t = removeFromBlockedList db u"
    using closed by (auto simp: sqlite3ConnectionClosed_def bind_eq_Some_conv)
  with ConnectionUnlocked_eq [OF assms(2,3), of al db] have "nb_inv u" using inv_unlocked [OF assms(2) refl] by auto
  then show ?thesis using inv_cancel [of u s' db] u(2) closed by simp
qed

lemma nreach_inv: "nreach sz s \<Longrightarrow> \<forall>n. n \<le> sz n \<Longrightarrow> nb_inv s"
proof (induction rule: nreach.induct)
  case start
  have "waits \<lparr>sqlite3BlockedList = [], conns = \<lambda>_. conn0\<rparr> = {}" by (simp add: waits_def conn0_def)
  then show ?case by (simp add: nb_inv_def idle_def conn0_def acyclic_def)
next
  case (more s l s')
  then show ?case using nstep_inv by blast
qed

text \<open>C24. In every reachable state a connection is on the blocked list exactly when it is blocked or waits,
  and only once; it has a callback exactly when it waits; and no connection waits, directly or
  through others, for itself.\<close>

theorem blocked_list_invariant:
  assumes "nreach sz s" "\<forall>n. n \<le> sz n"
  shows "distinct (sqlite3BlockedList s)
    \<and> (\<forall>p. p \<in> set (sqlite3BlockedList s) \<longleftrightarrow>
          pBlockingConnection (conns s p) \<noteq> None \<or> pUnlockConnection (conns s p) \<noteq> None)
    \<and> (\<forall>p. pUnlockConnection (conns s p) = None \<longleftrightarrow> xUnlockNotify (conns s p) = None)
    \<and> acyclic {(p, q). pUnlockConnection (conns s p) = Some q}"
  using nreach_inv [OF assms] unfolding nb_inv_def idle_def waits_def de_Morgan_conj .

lemma blocked_list_invariant_witness:
  "acyclic {(p, q). pUnlockConnection (conns (sqlite3ConnectionBlocked 1 2 \<lparr>sqlite3BlockedList = [], conns = \<lambda>_. conn0\<rparr>) p) = Some q}"
  using blocked_list_invariant [OF nreach.more [OF nreach.start nstep.blocked], of id 1 2] by simp

text \<open>C30. The search for a deadlock in \<open>sqlite3_unlock_notify\<close> always ends. It reports SQLITE_LOCKED, and changes
  nothing, exactly when the blocking connection already waits, directly or through others, for this
  one; otherwise the connection waits for its blocker with the new callback and argument.\<close>

theorem unlock_notify_deadlock:
  assumes "nreach sz s" "\<forall>n. n \<le> sz n" "pBlockingConnection (conns s db) = Some q"
  shows "\<exists>rc s'. sqlite3_unlock_notify db (Some f) a s = Some (rc, [], s')
    \<and> (rc = SQLITE_LOCKED \<longleftrightarrow> (q, db) \<in> {(p, r). pUnlockConnection (conns s p) = Some r}\<^sup>*)
    \<and> (if rc = SQLITE_LOCKED then s' = s
       else conns s' = (conns s)(db := (conns s db)\<lparr>pUnlockConnection := Some q, xUnlockNotify := Some f, pUnlockArg := a\<rparr>)
         \<and> db \<in> set (sqlite3BlockedList s'))"
  using unlock_notify_eq [OF nreach_inv [OF assms(1,2)] assms(3), of f a] assms(3)
  by (auto simp: waits_def addToBlockedList_def removeFromBlockedList_def Let_def)

lemma unlock_notify_deadlock_witness:
  "\<exists>rc s'. sqlite3_unlock_notify 1 (Some 7) 8
      (sqlite3ConnectionBlocked 1 1 \<lparr>sqlite3BlockedList = [], conns = \<lambda>_. conn0\<rparr>) = Some (rc, [], s')
    \<and> rc = SQLITE_LOCKED"
  using unlock_notify_deadlock [OF nreach.more [OF nreach.start nstep.blocked [of id _ 1 1]], of 1 1 7 8]
  by (auto simp: sqlite3ConnectionBlocked_def)

text \<open>C20. When a connection's transaction ends, every connection that waits for it is notified: its callback
  gets its argument, once, in the order of the list, whatever allocations fail, and the argument
  array is never overrun. Afterwards no connection is blocked by it or waits for it.\<close>

theorem unlock_notifies_waiters:
  assumes "nreach sz s" "\<forall>n. n \<le> sz n"
  shows "\<exists>l s' ps. sqlite3ConnectionUnlocked sz al db s = Some (l, s')
    \<and> concat (map (\<lambda>(f, as). map (Pair (Some f)) as) l)
        = map (\<lambda>p. (xUnlockNotify (conns s p), pUnlockArg (conns s p))) ps
    \<and> distinct ps \<and> set ps = {p. pUnlockConnection (conns s p) = Some db}
    \<and> (\<forall>p. pUnlockConnection (conns s' p) \<noteq> Some db \<and> pBlockingConnection (conns s' p) \<noteq> Some db)"
proof -
  note inv = nreach_inv [OF assms]
  let ?ps = "filter (\<lambda>p. pUnlockConnection (conns s p) = Some db) (sqlite3BlockedList s)"
  have "set ?ps = {p. pUnlockConnection (conns s p) = Some db}" using nb_invD(2) [OF inv] by (auto simp: idle_def)
  moreover have "distinct ?ps" using nb_invD(1) [OF inv] by simp
  ultimately show ?thesis
    using ConnectionUnlocked_eq [OF inv assms(2), of al db] unfolding deliveries_def
    by (elim exE conjE, intro exI [of _ ?ps] exI conjI) (assumption | simp add: unlocked_sel)+
qed

lemma unlock_notifies_waiters_witness:
  "\<exists>s l s' ps. nrun id [NBlocked 1 2, NNotify 1 (Some 7) 8] nstart = Some s
    \<and> sqlite3ConnectionUnlocked id [] 2 s = Some (l, s') \<and> pUnlockConnection (conns s 1) = Some 2
    \<and> concat (map (\<lambda>(f, as). map (Pair (Some f)) as) l)
        = map (\<lambda>p. (xUnlockNotify (conns s p), pUnlockArg (conns s p))) ps
    \<and> set ps = {p. pUnlockConnection (conns s p) = Some 2}"
proof -
  have "map_option (\<lambda>s. pUnlockConnection (conns s 1)) (nrun id [NBlocked 1 2, NNotify 1 (Some 7) 8] nstart) = Some (Some 2)"
    by code_simp
  then obtain s where s: "nrun id [NBlocked 1 2, NNotify 1 (Some 7) 8] nstart = Some s" "pUnlockConnection (conns s 1) = Some 2"
    unfolding map_option_eq_Some by metis
  with unlock_notifies_waiters [OF nrun_reach [OF s(1) nreach.start], of "[]" 2] show ?thesis by auto
qed

text \<open>C38. The assertion of debug builds that connections with the same callback stand together on the blocked
  list does not hold in every reachable state: a connection that waits for one transaction and is
  then blocked by another keeps its place, without its callback, when the first one ends.\<close>

theorem blocked_list_grouping_lost:
  "\<exists>s. nreach id s \<and> \<not> checkListProperties None s"
proof -
  let ?ops = "[NBlocked 1 4, NNotify 1 (Some 7) 1, NBlocked 2 5, NNotify 2 (Some 7) 2, NBlocked 3 4, NNotify 3 (Some 7) 3,
    NBlocked 2 4, NUnlocked [] 5]"
  have "map_option (checkListProperties None) (nrun id ?ops nstart) = Some False"
    by code_simp
  then obtain s where "nrun id ?ops nstart = Some s" "\<not> checkListProperties None s"
    unfolding map_option_eq_Some by metis
  then show ?thesis using nrun_reach nreach.start by blast
qed

end
