(* ===== verification/UnixLock.thy ===== *)
theory UnixLock
  imports SqlitePrelude
begin

text \<open>
  The POSIX advisory locks of os_unix.c: the five locking levels of a database file, their
  implementation by byte range locks, and the bookkeeping that makes the connections of one
  process share the locks the operating system grants to the process as a whole.

  The operations are programs whose only effects outside the process are system calls: a value of
  \<open>act\<close> is a result or a system call and what to do with its outcome. Within a process the
  operations exclude each other by a mutex, but the system calls of different processes interleave
  in any order. The state of a process is that of the one inode of the database file and of its
  connections. \<open>lastErrno\<close> and the trace output are not modelled.
\<close>

section \<open>System calls\<close>

datatype flk = F_UNLCK | F_RDLCK | F_WRLCK

text \<open>
  \<open>SetLk\<close>: \<open>fcntl(F_SETLK)\<close> on \<open>l_len\<close> bytes from \<open>l_start\<close>, where length 0 is to the end of the file.
  \<open>GetLk\<close>: \<open>fcntl(F_GETLK)\<close> for a write lock. \<open>CloseFd\<close>: \<open>close\<close> of one of the descriptors of the file.
\<close>

datatype sysop = SetLk flk nat nat | GetLk nat nat | CloseFd

text \<open>
  Outcomes: success, or an \<open>errno\<close> of the groups \<open>sqliteErrorFromPosixError\<close> distinguishes. A
  successful \<open>GetLk\<close> has the outcome \<open>FLocked\<close> when another process has a lock.
\<close>

datatype fres = FOk | FLocked | FBusy | FPerm | FErr

datatype 'a act = Done 'a | Sys sysop "fres \<Rightarrow> 'a act"

primrec act_bind :: "'a act \<Rightarrow> ('a \<Rightarrow> 'b act) \<Rightarrow> 'b act" where
  "act_bind (Done a) g = g a"
| "act_bind (Sys op k) g = Sys op (\<lambda>r. act_bind (k r) g)"


section \<open>State of a process\<close>

abbreviation NO_LOCK :: nat where "NO_LOCK \<equiv> 0"
abbreviation SHARED_LOCK :: nat where "SHARED_LOCK \<equiv> 1"
abbreviation RESERVED_LOCK :: nat where "RESERVED_LOCK \<equiv> 2"
abbreviation PENDING_LOCK :: nat where "PENDING_LOCK \<equiv> 3"
abbreviation EXCLUSIVE_LOCK :: nat where "EXCLUSIVE_LOCK \<equiv> 4"

definition PENDING_BYTE :: nat where "PENDING_BYTE = 0x40000000"
definition RESERVED_BYTE :: nat where "RESERVED_BYTE = PENDING_BYTE + 1"
definition SHARED_FIRST :: nat where "SHARED_FIRST = PENDING_BYTE + 2"
definition SHARED_SIZE :: nat where "SHARED_SIZE = 510"

text \<open>\<open>exclFlag\<close>: the file was opened read/write with the unix-excl VFS. \<open>h\<close>: its descriptor is open.\<close>

record unixFile =
  isOpen :: bool
  h :: bool
  eFileLock :: nat
  exclFlag :: bool

record unixInodeInfo =
  nShared :: int
  iFileLock :: nat
  bProcessLock :: bool
  nRef :: int
  nLock :: int
  pUnused :: nat

record uproc =
  inode :: unixInodeInfo
  files :: "nat \<Rightarrow> unixFile"

definition inode0 :: unixInodeInfo where
  "inode0 = \<lparr>nShared = 0, iFileLock = NO_LOCK, bProcessLock = False, nRef = 0, nLock = 0, pUnused = 0\<rparr>"

definition file0 :: unixFile where
  "file0 = \<lparr>isOpen = False, h = False, eFileLock = NO_LOCK, exclFlag = False\<rparr>"

abbreviation lev :: "uproc \<Rightarrow> nat \<Rightarrow> nat" where
  "lev s f \<equiv> eFileLock (files s f)"

definition setlev :: "nat \<Rightarrow> nat \<Rightarrow> uproc \<Rightarrow> uproc" where
  "setlev f v s = s\<lparr>files := (files s)(f := (files s f)\<lparr>eFileLock := v\<rparr>)\<rparr>"

definition setino :: "(unixInodeInfo \<Rightarrow> unixInodeInfo) \<Rightarrow> uproc \<Rightarrow> uproc" where
  "setino g s = s\<lparr>inode := g (inode s)\<rparr>"


section \<open>Operations\<close>

datatype urc = U_OK | U_BUSY | U_PERM | U_IOERR_LOCK | U_IOERR_UNLOCK | U_IOERR_RDLOCK | U_IOERR_CHECKRESERVEDLOCK

fun sqliteErrorFromPosixError :: "fres \<Rightarrow> urc \<Rightarrow> urc" where
  "sqliteErrorFromPosixError FBusy sqliteIOErr = U_BUSY"
| "sqliteErrorFromPosixError FPerm sqliteIOErr = U_PERM"
| "sqliteErrorFromPosixError _ sqliteIOErr = sqliteIOErr"

definition unixFileLock :: "nat \<Rightarrow> flk \<Rightarrow> nat \<Rightarrow> nat \<Rightarrow> uproc \<Rightarrow> (fres \<times> uproc) act" where
  "unixFileLock f l_type l_start l_len s =
     (if exclFlag (files s f) then
        (if \<not> bProcessLock (inode s) then
           Sys (SetLk F_WRLCK SHARED_FIRST SHARED_SIZE)
             (\<lambda>r. Done (r, if r \<noteq> FOk then s else setino (\<lambda>i. i\<lparr>bProcessLock := True, nLock := nLock i + 1\<rparr>) s))
         else Done (FOk, s))
      else Sys (SetLk l_type l_start l_len) (\<lambda>r. Done (r, s)))"

definition unixCheckReservedLock :: "nat \<Rightarrow> uproc \<Rightarrow> ((urc \<times> bool) \<times> uproc) act" where
  "unixCheckReservedLock f s =
     (let reserved = iFileLock (inode s) > SHARED_LOCK in
      if \<not> reserved \<and> \<not> bProcessLock (inode s) then
        Sys (GetLk RESERVED_BYTE 1)
          (\<lambda>r. Done (case r of FOk \<Rightarrow> (U_OK, False) | FLocked \<Rightarrow> (U_OK, True)
                     | _ \<Rightarrow> (U_IOERR_CHECKRESERVEDLOCK, False), s))
      else Done ((U_OK, reserved), s))"

text \<open>The code between the system calls of \<open>unixLock\<close> and its label \<open>end_lock\<close>.\<close>

definition unixLockDone :: "nat \<Rightarrow> nat \<Rightarrow> urc \<Rightarrow> uproc \<Rightarrow> (urc \<times> uproc) act" where
  "unixLockDone f e rc s =
     Done (rc,
       if rc = U_OK then setino (\<lambda>i. i\<lparr>iFileLock := e\<rparr>) (setlev f e s)
       else if e = EXCLUSIVE_LOCK then setino (\<lambda>i. i\<lparr>iFileLock := PENDING_LOCK\<rparr>) (setlev f PENDING_LOCK s)
       else s)"

definition unixLockShared :: "nat \<Rightarrow> uproc \<Rightarrow> (urc \<times> uproc) act" where
  "unixLockShared f s =
     act_bind (unixFileLock f F_RDLCK SHARED_FIRST SHARED_SIZE s) (\<lambda>(r, s).
       let rc = (if r \<noteq> FOk then sqliteErrorFromPosixError r U_IOERR_LOCK else U_OK) in
       act_bind (unixFileLock f F_UNLCK PENDING_BYTE 1 s) (\<lambda>(r, s).
         let rc = (if r \<noteq> FOk \<and> rc = U_OK then U_IOERR_UNLOCK else rc) in
         if rc \<noteq> U_OK then Done (rc, s)
         else unixLockDone f SHARED_LOCK rc
           (setino (\<lambda>i. i\<lparr>nLock := nLock i + 1, nShared := 1\<rparr>) (setlev f SHARED_LOCK s))))"

definition unixLockWrite :: "nat \<Rightarrow> nat \<Rightarrow> uproc \<Rightarrow> (urc \<times> uproc) act" where
  "unixLockWrite f e s =
     (if e = EXCLUSIVE_LOCK \<and> nShared (inode s) > 1 then unixLockDone f e U_BUSY s
      else
        act_bind
          (if e = RESERVED_LOCK then unixFileLock f F_WRLCK RESERVED_BYTE 1 s
           else unixFileLock f F_WRLCK SHARED_FIRST SHARED_SIZE s)
          (\<lambda>(r, s). unixLockDone f e (if r \<noteq> FOk then sqliteErrorFromPosixError r U_IOERR_LOCK else U_OK) s))"

definition unixLock :: "nat \<Rightarrow> nat \<Rightarrow> uproc \<Rightarrow> (urc \<times> uproc) act" where
  "unixLock f e s =
     (if lev s f \<ge> e then Done (U_OK, s)
      else if lev s f \<noteq> iFileLock (inode s) \<and> (iFileLock (inode s) \<ge> PENDING_LOCK \<or> e > SHARED_LOCK) then Done (U_BUSY, s)
      else if e = SHARED_LOCK \<and> (iFileLock (inode s) = SHARED_LOCK \<or> iFileLock (inode s) = RESERVED_LOCK) then
        Done (U_OK, setino (\<lambda>i. i\<lparr>nShared := nShared i + 1, nLock := nLock i + 1\<rparr>) (setlev f SHARED_LOCK s))
      else
        act_bind
          (if e = SHARED_LOCK \<or> (e = EXCLUSIVE_LOCK \<and> lev s f < PENDING_LOCK)
           then unixFileLock f (if e = SHARED_LOCK then F_RDLCK else F_WRLCK) PENDING_BYTE 1 s
           else Done (FOk, s))
          (\<lambda>(r, s).
            if r \<noteq> FOk then Done (sqliteErrorFromPosixError r U_IOERR_LOCK, s)
            else if e = SHARED_LOCK then unixLockShared f s
            else unixLockWrite f e s))"

primrec closeFds :: "nat \<Rightarrow> unit act" where
  "closeFds 0 = Done ()"
| "closeFds (Suc n) = Sys CloseFd (\<lambda>_. closeFds n)"

definition closePendingFds :: "uproc \<Rightarrow> uproc act" where
  "closePendingFds s = act_bind (closeFds (pUnused (inode s))) (\<lambda>_. Done (setino (\<lambda>i. i\<lparr>pUnused := 0\<rparr>) s))"

definition setPendingFd :: "nat \<Rightarrow> uproc \<Rightarrow> uproc" where
  "setPendingFd f s =
     (setino (\<lambda>i. i\<lparr>pUnused := pUnused i + 1\<rparr>) s)\<lparr>files := (files s)(f := (files s f)\<lparr>h := False\<rparr>)\<rparr>"

text \<open>The part of \<open>posixUnlock\<close> for \<open>eFileLock==NO_LOCK\<close>, and its end.\<close>

definition unlockNone :: "nat \<Rightarrow> uproc \<Rightarrow> (urc \<times> uproc) act" where
  "unlockNone f s =
     (let s = setino (\<lambda>i. i\<lparr>nShared := nShared i - 1\<rparr>) s in
      act_bind
        (if nShared (inode s) = 0 then
           act_bind (unixFileLock f F_UNLCK 0 0 s) (\<lambda>(r, s).
             if r = FOk then Done (U_OK, setino (\<lambda>i. i\<lparr>iFileLock := NO_LOCK\<rparr>) s)
             else Done (U_IOERR_UNLOCK, setlev f NO_LOCK (setino (\<lambda>i. i\<lparr>iFileLock := NO_LOCK\<rparr>) s)))
         else Done (U_OK, s))
        (\<lambda>(rc, s).
           let s = setino (\<lambda>i. i\<lparr>nLock := nLock i - 1\<rparr>) s in
           act_bind (if nLock (inode s) = 0 then closePendingFds s else Done s)
             (\<lambda>s. Done (rc, if rc = U_OK then setlev f NO_LOCK s else s))))"

definition posixUnlock :: "nat \<Rightarrow> nat \<Rightarrow> uproc \<Rightarrow> (urc \<times> uproc) act" where
  "posixUnlock f e s =
     (if lev s f \<le> e then Done (U_OK, s)
      else
        act_bind
          (if lev s f > SHARED_LOCK then
             act_bind
               (if e = SHARED_LOCK then
                  act_bind (unixFileLock f F_RDLCK SHARED_FIRST SHARED_SIZE s)
                    (\<lambda>(r, s). Done (if r \<noteq> FOk then U_IOERR_RDLOCK else U_OK, s))
                else Done (U_OK, s))
               (\<lambda>(rc, s).
                  if rc \<noteq> U_OK then Done (rc, s)
                  else act_bind (unixFileLock f F_UNLCK PENDING_BYTE 2 s)
                    (\<lambda>(r, s). if r = FOk then Done (U_OK, setino (\<lambda>i. i\<lparr>iFileLock := SHARED_LOCK\<rparr>) s)
                              else Done (U_IOERR_UNLOCK, s)))
           else Done (U_OK, s))
          (\<lambda>(rc, s).
             if rc \<noteq> U_OK then Done (rc, s)
             else if e = NO_LOCK then unlockNone f s
             else Done (U_OK, setlev f e s)))"

definition unixUnlock :: "nat \<Rightarrow> nat \<Rightarrow> uproc \<Rightarrow> (urc \<times> uproc) act" where
  "unixUnlock f e s = posixUnlock f e s"

text \<open>An inode without references is freed; the next file of the process starts with a zeroed one.\<close>

definition releaseInodeInfo :: "uproc \<Rightarrow> uproc act" where
  "releaseInodeInfo s =
     (let s = setino (\<lambda>i. i\<lparr>nRef := nRef i - 1\<rparr>) s in
      if nRef (inode s) = 0 then act_bind (closePendingFds s) (\<lambda>s. Done (setino (\<lambda>_. inode0) s))
      else Done s)"

definition closeUnixFile :: "nat \<Rightarrow> uproc \<Rightarrow> uproc act" where
  "closeUnixFile f s =
     act_bind (if h (files s f) then Sys CloseFd (\<lambda>_. Done ()) else Done ())
       (\<lambda>_. Done (s\<lparr>files := (files s)(f := file0)\<rparr>))"

definition unixClose :: "nat \<Rightarrow> uproc \<Rightarrow> (urc \<times> uproc) act" where
  "unixClose f s =
     act_bind (unixUnlock f NO_LOCK s) (\<lambda>(_, s).
       let s = (if nLock (inode s) \<noteq> 0 then setPendingFd f s else s) in
       act_bind (releaseInodeInfo s) (\<lambda>s.
         act_bind (closeUnixFile f s) (\<lambda>s. Done (U_OK, s))))"

text \<open>The part of \<open>findInodeInfo\<close> that counts references, when a file of the process is opened.\<close>

definition openFile :: "nat \<Rightarrow> uproc \<Rightarrow> uproc" where
  "openFile f s =
     (setino (\<lambda>i. i\<lparr>nRef := nRef i + 1\<rparr>) s)
       \<lparr>files := (files s)(f := file0\<lparr>isOpen := True, h := True\<rparr>)\<rparr>"


section \<open>The operating system\<close>

text \<open>The locks of one process on the bytes of the file, and what a successful call does to them.\<close>

type_synonym locks = "nat \<Rightarrow> flk"

definition inrange :: "nat \<Rightarrow> nat \<Rightarrow> nat \<Rightarrow> bool" where
  "inrange l_start l_len b \<longleftrightarrow> l_start \<le> b \<and> (l_len = 0 \<or> b < l_start + l_len)"

fun setlk :: "sysop \<Rightarrow> locks \<Rightarrow> locks" where
  "setlk (SetLk t st ln) L = (\<lambda>b. if inrange st ln b then t else L b)"
| "setlk (GetLk st ln) L = L"
| "setlk CloseFd L = (\<lambda>b. F_UNLCK)"

definition eff :: "sysop \<Rightarrow> fres \<Rightarrow> locks \<Rightarrow> locks" where
  "eff op r L = (if op = CloseFd \<or> r = FOk then setlk op L else L)"

text \<open>A lock is refused when another process has a conflicting one. A call may also fail for other reasons.\<close>

definition compatible :: "flk \<Rightarrow> flk \<Rightarrow> bool" where
  "compatible a b \<longleftrightarrow> a = F_UNLCK \<or> b = F_UNLCK \<or> (a = F_RDLCK \<and> b = F_RDLCK)"

definition permitted :: "(nat \<Rightarrow> locks) \<Rightarrow> nat \<Rightarrow> sysop \<Rightarrow> fres \<Rightarrow> bool" where
  "permitted LL p op r \<longleftrightarrow>
     (case op of SetLk t st ln \<Rightarrow> r = FOk \<longrightarrow> (\<forall>q b. q \<noteq> p \<longrightarrow> inrange st ln b \<longrightarrow> compatible t (LL q b)) | _ \<Rightarrow> True)"

text \<open>
  The system. A process is idle or runs an operation of the connection \<open>f\<close> that started in the state
  \<open>s\<close> and gives up what the connection has above the level \<open>t\<close>. \<open>x\<close> is a history variable: the process
  had an exclusive lock when the operation started and has kept the pending byte since.
\<close>

datatype pst = Idle uproc | Running uproc nat nat bool "uproc act"

record usys =
  oslocks :: "nat \<Rightarrow> locks"
  procs :: "nat \<Rightarrow> pst"

definition forget :: "('r \<times> uproc) act \<Rightarrow> uproc act" where
  "forget a = act_bind a (\<lambda>(rc, s). Done s)"

text \<open>
  The operations a process may start; their conditions are the assertions at the start of \<open>unixLock\<close>,
  \<open>posixUnlock\<close> and \<open>unixCheckReservedLock\<close>.
\<close>

inductive call :: "uproc \<Rightarrow> nat \<Rightarrow> nat \<Rightarrow> uproc act \<Rightarrow> bool" where
  lock: "isOpen (files s f) \<Longrightarrow> e \<in> {SHARED_LOCK, RESERVED_LOCK, EXCLUSIVE_LOCK} \<Longrightarrow>
    (lev s f = NO_LOCK \<longrightarrow> e = SHARED_LOCK) \<Longrightarrow> (e = RESERVED_LOCK \<longrightarrow> lev s f = SHARED_LOCK) \<Longrightarrow>
    call s f EXCLUSIVE_LOCK (forget (unixLock f e s))"
| unlock: "isOpen (files s f) \<Longrightarrow> e \<le> SHARED_LOCK \<Longrightarrow> call s f e (forget (unixUnlock f e s))"
| check: "isOpen (files s f) \<Longrightarrow> lev s f \<le> SHARED_LOCK \<Longrightarrow> call s f EXCLUSIVE_LOCK (forget (unixCheckReservedLock f s))"
| close: "isOpen (files s f) \<Longrightarrow> call s f NO_LOCK (forget (unixClose f s))"

definition has_excl :: "uproc \<Rightarrow> bool" where
  "has_excl s \<longleftrightarrow> (\<exists>g. lev s g = EXCLUSIVE_LOCK)"

inductive ustep :: "usys \<Rightarrow> usys \<Rightarrow> bool" where
  opened: "procs S p = Idle s \<Longrightarrow> \<not> isOpen (files s f) \<Longrightarrow>
    ustep S (S\<lparr>procs := (procs S)(p := Idle (openFile f s))\<rparr>)"
| start: "procs S p = Idle s \<Longrightarrow> call s f t a \<Longrightarrow>
    ustep S (S\<lparr>procs := (procs S)(p := Running s f t (has_excl s) a)\<rparr>)"
| sys: "procs S p = Running s f t x (Sys op k) \<Longrightarrow> permitted (oslocks S) p op r \<Longrightarrow>
    L' = eff op r (oslocks S p) \<Longrightarrow>
    ustep S (S\<lparr>oslocks := (oslocks S)(p := L'),
               procs := (procs S)(p := Running s f t (x \<and> L' PENDING_BYTE = F_WRLCK) (k r))\<rparr>)"
| finish: "procs S p = Running s f t x (Done s') \<Longrightarrow> ustep S (S\<lparr>procs := (procs S)(p := Idle s')\<rparr>)"

definition usys0 :: usys where
  "usys0 = \<lparr>oslocks = \<lambda>p b. F_UNLCK, procs = \<lambda>p. Idle \<lparr>inode = inode0, files = \<lambda>f. file0\<rparr>\<rparr>"

inductive ureach :: "usys \<Rightarrow> bool" where
  init: "ureach usys0"
| next_step: "ureach S \<Longrightarrow> ustep S S' \<Longrightarrow> ureach S'"

text \<open>The level a connection may rely on: during an operation that lowers it, only the level it keeps.\<close>

fun hold :: "pst \<Rightarrow> nat \<Rightarrow> nat" where
  "hold (Idle s) g = lev s g"
| "hold (Running s f t x a) g = (if g = f then min (lev s f) t else lev s g)"


section \<open>Weakest preconditions\<close>

definition SH :: "nat set" where
  "SH = {SHARED_FIRST..<SHARED_FIRST + SHARED_SIZE}"

definition held :: "locks \<Rightarrow> bool" where
  "held L \<longleftrightarrow> (\<forall>b\<in>SH. L b \<noteq> F_UNLCK)"

text \<open>The discipline: a process without locks in the shared range locks it only behind the pending byte.\<close>

definition disc :: "sysop \<Rightarrow> locks \<Rightarrow> bool" where
  "disc op L \<longleftrightarrow> (\<forall>t st ln. op = SetLk t st ln \<longrightarrow> t \<noteq> F_UNLCK \<longrightarrow> (\<exists>b\<in>SH. inrange st ln b) \<longrightarrow>
     held L \<or> L PENDING_BYTE \<noteq> F_UNLCK)"

text \<open>
  \<open>wp I Q a L x\<close>: running \<open>a\<close> alone keeps the discipline and the claims \<open>I\<close> after every system call,
  whatever their outcomes, and ends in \<open>Q\<close>.
\<close>

primrec wp :: "(locks \<Rightarrow> bool) \<Rightarrow> ('a \<Rightarrow> locks \<Rightarrow> bool \<Rightarrow> bool) \<Rightarrow> 'a act \<Rightarrow> locks \<Rightarrow> bool \<Rightarrow> bool" where
  "wp I Q (Done a) = Q a"
| "wp I Q (Sys op k) = (\<lambda>L x. disc op L \<and>
     (\<forall>r. I (eff op r L) \<and> wp I Q (k r) (eff op r L) (x \<and> eff op r L PENDING_BYTE = F_WRLCK)))"

lemma wp_bind: "wp I Q (act_bind a g) = wp I (\<lambda>r. wp I Q (g r)) a"
  by (induction a) (auto simp: fun_eq_iff)

lemma wp_mono:
  assumes "\<And>r L x. Q r L x \<Longrightarrow> Q' r L x"
  shows "wp I Q a L x \<Longrightarrow> wp I Q' a L x"
  using assms by (induction a arbitrary: L x) auto

text \<open>The results an operation can have.\<close>

primrec results :: "'a act \<Rightarrow> 'a set" where
  "results (Done a) = {a}"
| "results (Sys op k) = (\<Union>r. results (k r))"

lemma results_bind: "results (act_bind a g) = (\<Union>r\<in>results a. results (g r))"
  by (induction a) auto

lemma wp_more:
  assumes "\<And>r L x. r \<in> results a \<Longrightarrow> I L \<Longrightarrow> Q r L x \<Longrightarrow> Q' r L x"
  shows "wp I Q a L x \<Longrightarrow> I L \<Longrightarrow> wp I Q' a L x"
  using assms
proof (induction a arbitrary: L x)
  case (Sys op k)
  have "wp I Q' (k r) (eff op r L) (x \<and> eff op r L PENDING_BYTE = F_WRLCK)" for r
    by (rule Sys.IH) (use Sys.prems in auto)
  then show ?case using Sys.prems(1) by simp
qed simp

text \<open>What the calls of the code do to the pending byte, the reserved byte and the shared range.\<close>

lemma bytes: "RESERVED_BYTE \<noteq> PENDING_BYTE" "PENDING_BYTE \<notin> SH" "RESERVED_BYTE \<notin> SH"
  by (simp_all add: SH_def RESERVED_BYTE_def SHARED_FIRST_def)

lemma SH_nonempty: "SHARED_FIRST \<in> SH"
  by (simp add: SH_def SHARED_SIZE_def)

lemma range_simps [simp]:
  "inrange PENDING_BYTE (Suc 0) b \<longleftrightarrow> b = PENDING_BYTE"
  "inrange RESERVED_BYTE (Suc 0) b \<longleftrightarrow> b = RESERVED_BYTE"
  "inrange PENDING_BYTE 2 b \<longleftrightarrow> b = PENDING_BYTE \<or> b = RESERVED_BYTE"
  "inrange SHARED_FIRST SHARED_SIZE b \<longleftrightarrow> b \<in> SH"
  "inrange 0 0 b"
  by (auto simp: inrange_def RESERVED_BYTE_def SH_def SHARED_SIZE_def)

lemma held_simps [simp]:
  "held (\<lambda>b. if b = PENDING_BYTE then t else L b) = held L"
  "held (\<lambda>b. if b = RESERVED_BYTE then t else L b) = held L"
  "held (\<lambda>b. if b = PENDING_BYTE \<or> b = RESERVED_BYTE then t else L b) = held L"
  "held (\<lambda>b. if b \<in> SH then t else L b) \<longleftrightarrow> t \<noteq> F_UNLCK"
  "held (\<lambda>b. t) \<longleftrightarrow> t \<noteq> F_UNLCK"
  using bytes SH_nonempty unfolding held_def by auto

lemma disc_simps [simp]:
  "disc (SetLk t PENDING_BYTE (Suc 0)) L" "disc (SetLk t RESERVED_BYTE (Suc 0)) L" "disc (SetLk t PENDING_BYTE 2) L"
  "disc (SetLk F_UNLCK st ln) L" "disc CloseFd L" "disc (GetLk st ln) L"
  "disc (SetLk t SHARED_FIRST SHARED_SIZE) L \<longleftrightarrow> t = F_UNLCK \<or> held L \<or> L PENDING_BYTE \<noteq> F_UNLCK"
  using bytes SH_nonempty unfolding disc_def by auto


section \<open>The invariant of an idle process\<close>

definition holders :: "uproc \<Rightarrow> nat set" where
  "holders s = {g. lev s g \<ge> SHARED_LOCK}"

text \<open>
  The bookkeeping: the counters bound the number of connections with a lock, the inode's level is
  that of the one connection above SHARED, and an exclusive connection is alone.
\<close>

definition books :: "uproc \<Rightarrow> bool" where
  "books s \<longleftrightarrow>
     (\<forall>g. \<not> exclFlag (files s g)) \<and> \<not> bProcessLock (inode s)
     \<and> finite {g. isOpen (files s g)} \<and> nRef (inode s) = int (card {g. isOpen (files s g)})
     \<and> (\<forall>g. lev s g \<ge> SHARED_LOCK \<longrightarrow> isOpen (files s g)) \<and> (\<forall>g. lev s g \<le> EXCLUSIVE_LOCK)
     \<and> int (card (holders s)) \<le> nShared (inode s) \<and> nShared (inode s) \<le> nLock (inode s)
     \<and> (nShared (inode s) = 0 \<longleftrightarrow> iFileLock (inode s) = NO_LOCK)
     \<and> (\<forall>g. lev s g > SHARED_LOCK \<longrightarrow> iFileLock (inode s) = lev s g \<and> (\<forall>k. k \<noteq> g \<longrightarrow> lev s k \<le> SHARED_LOCK))
     \<and> (\<forall>g. lev s g = EXCLUSIVE_LOCK \<longrightarrow> (\<forall>k. k \<noteq> g \<longrightarrow> lev s k = NO_LOCK))"

text \<open>What a level requires of the locks of the process.\<close>

definition claim :: "locks \<Rightarrow> nat \<Rightarrow> bool" where
  "claim L v \<longleftrightarrow> (v \<ge> SHARED_LOCK \<longrightarrow> held L) \<and> (v = RESERVED_LOCK \<longrightarrow> L RESERVED_BYTE = F_WRLCK)
     \<and> (v \<ge> PENDING_LOCK \<longrightarrow> L PENDING_BYTE = F_WRLCK)"

definition LI :: "locks \<Rightarrow> uproc \<Rightarrow> bool" where
  "LI L s \<longleftrightarrow> books s \<and> (iFileLock (inode s) > NO_LOCK \<longrightarrow> held L) \<and> (\<forall>g. claim L (lev s g))"

definition claims :: "uproc \<Rightarrow> nat \<Rightarrow> nat \<Rightarrow> locks \<Rightarrow> bool" where
  "claims s f t L \<longleftrightarrow> (\<forall>g. claim L (if g = f then min (lev s f) t else lev s g))"

definition post :: "uproc \<Rightarrow> locks \<Rightarrow> bool \<Rightarrow> bool" where
  "post s L x \<longleftrightarrow> LI L s \<and> (has_excl s \<longrightarrow> x \<or> (\<forall>b\<in>SH. L b = F_WRLCK))"

lemma booksD:
  assumes "books s"
  shows "\<not> exclFlag (files s g)" "\<not> bProcessLock (inode s)" "finite {g. isOpen (files s g)}"
    "lev s g \<ge> SHARED_LOCK \<Longrightarrow> isOpen (files s g)" "lev s g \<le> EXCLUSIVE_LOCK"
    "int (card (holders s)) \<le> nShared (inode s)" "nShared (inode s) \<le> nLock (inode s)"
    "nShared (inode s) = 0 \<longleftrightarrow> iFileLock (inode s) = NO_LOCK"
    "lev s g > SHARED_LOCK \<Longrightarrow> iFileLock (inode s) = lev s g"
    "lev s g > SHARED_LOCK \<Longrightarrow> k \<noteq> g \<Longrightarrow> lev s k \<le> SHARED_LOCK"
    "lev s g = EXCLUSIVE_LOCK \<Longrightarrow> k \<noteq> g \<Longrightarrow> lev s k = NO_LOCK"
    "nRef (inode s) = int (card {g. isOpen (files s g)})"
  using assms unfolding books_def by blast+

lemma finite_holders: "books s \<Longrightarrow> finite (holders s)"
  by (rule finite_subset [of _ "{g. isOpen (files s g)}"]) (auto simp: holders_def dest: booksD(3,4))

lemma no_holders:
  assumes "books s" "nShared (inode s) \<le> 0"
  shows "lev s g = NO_LOCK"
proof -
  have "card (holders s) = 0" using booksD(6) [OF assms(1)] assms(2) by linarith
  then have "holders s = {}" using finite_holders [OF assms(1)] by simp
  then show ?thesis by (auto simp: holders_def not_le)
qed

lemma one_holder:
  assumes "books s" "nShared (inode s) \<le> 1" "lev s f \<ge> SHARED_LOCK" "g \<noteq> f"
  shows "lev s g = NO_LOCK"
proof (rule ccontr)
  assume "lev s g \<noteq> NO_LOCK"
  with assms(3) have "{f, g} \<subseteq> holders s" by (simp add: holders_def)
  then have "card {f, g} \<le> card (holders s)" using finite_holders [OF assms(1)] by (rule card_mono [rotated])
  with assms booksD(6) [OF assms(1)] show False by simp
qed

lemma holder_count: "books s \<Longrightarrow> lev s f \<ge> SHARED_LOCK \<Longrightarrow> nShared (inode s) \<ge> 1"
  using no_holders [of s f] by (cases "nShared (inode s) \<le> 0") auto

text \<open>All changes of levels are instances of one update.\<close>

lemma holders_upd:
  assumes "files s' = (files s)(f := (files s f)\<lparr>eFileLock := v\<rparr>)"
  shows "holders s' = (if v \<ge> SHARED_LOCK then insert f (holders s) else holders s - {f})"
  using assms by (auto simp: holders_def)

lemma books_upd:
  assumes b: "books s" and "isOpen (files s f)"
    and fl: "files s' = (files s)(f := (files s f)\<lparr>eFileLock := v\<rparr>)"
    and ino: "nShared (inode s') = nShared (inode s) + d" "nLock (inode s') = nLock (inode s) + d"
      "nRef (inode s') = nRef (inode s)" "\<not> bProcessLock (inode s')"
    and d: "d = (if v \<ge> SHARED_LOCK then 1 else 0) - (if lev s f \<ge> SHARED_LOCK then 1 else 0)"
    and v: "v \<le> EXCLUSIVE_LOCK" "nShared (inode s') = 0 \<longleftrightarrow> iFileLock (inode s') = NO_LOCK"
      "v > SHARED_LOCK \<Longrightarrow> iFileLock (inode s') = v"
      "v = EXCLUSIVE_LOCK \<Longrightarrow> \<forall>g. g \<noteq> f \<longrightarrow> lev s g = NO_LOCK"
      "\<forall>g. g \<noteq> f \<longrightarrow> lev s g > SHARED_LOCK \<longrightarrow> v \<le> SHARED_LOCK \<and> iFileLock (inode s') = lev s g"
      "\<forall>g. g \<noteq> f \<longrightarrow> lev s g = EXCLUSIVE_LOCK \<longrightarrow> v = NO_LOCK"
  shows "books s'"
proof -
  have lv: "lev s' g = (if g = f then v else lev s g)" for g by (simp add: fl)
  have op: "isOpen (files s' g) = isOpen (files s g)" "exclFlag (files s' g) = exclFlag (files s g)" for g
    by (simp_all add: fl)
  have "f \<in> holders s \<Longrightarrow> card (holders s) \<ge> 1" using finite_holders [OF b] by (auto simp: Suc_le_eq card_gt_0_iff)
  moreover have "f \<in> holders s \<longleftrightarrow> lev s f \<ge> SHARED_LOCK" by (simp add: holders_def)
  ultimately have c: "int (card (holders s')) = int (card (holders s)) + d"
    unfolding holders_upd [OF fl] d using finite_holders [OF b]
    by (simp add: card_insert_if card_Diff_singleton_if of_nat_diff)
  show ?thesis
    unfolding books_def lv op ino(1-3)
  proof (intro conjI allI impI)
    show "int (card (holders s')) \<le> nShared (inode s) + d" using c booksD(6) [OF b] by simp
  next
    show "nShared (inode s) + d \<le> nLock (inode s) + d" using booksD(7) [OF b] by simp
  next
    show "nShared (inode s) + d = 0 \<longleftrightarrow> iFileLock (inode s') = NO_LOCK" using v(2) ino(1) by simp
  next
    fix g
    assume "SHARED_LOCK < (if g = f then v else lev s g)"
    then show "iFileLock (inode s') = (if g = f then v else lev s g)" using v(3,5) by (cases "g = f") simp_all
  next
    fix g k
    assume a: "SHARED_LOCK < (if g = f then v else lev s g)" "k \<noteq> g"
    show "(if k = f then v else lev s k) \<le> SHARED_LOCK"
    proof (cases "g = f")
      case True
      with a v(5) have "\<not> lev s k > SHARED_LOCK" by (metis not_le)
      with True a show ?thesis by simp
    next
      case False
      with a v(5) booksD(10) [OF b, of g k] show ?thesis by simp
    qed
  next
    fix g k
    assume a: "(if g = f then v else lev s g) = EXCLUSIVE_LOCK" "k \<noteq> g"
    show "(if k = f then v else lev s k) = NO_LOCK"
    proof (cases "g = f")
      case True
      then have "v = EXCLUSIVE_LOCK" using a(1) by simp
      with v(4) True a(2) have "lev s k = NO_LOCK" by blast
      with True a show ?thesis by simp
    next
      case False
      with a have g: "lev s g = EXCLUSIVE_LOCK" by simp
      show ?thesis using v(6) g False booksD(11) [OF b g a(2)] by simp
    qed
  next
    fix g
    assume "SHARED_LOCK \<le> (if g = f then v else lev s g)"
    then show "isOpen (files s g)" using assms(2) booksD(4) [OF b, of g] by (cases "g = f") simp_all
  next
    fix g
    show "(if g = f then v else lev s g) \<le> EXCLUSIVE_LOCK" using v(1) booksD(5) [OF b, of g] by simp
  qed (fact booksD(1) [OF b] ino(4) booksD(3) [OF b] booksD(12) [OF b])+
qed


section \<open>The operations keep it\<close>

lemma unixFileLock_plain:
  "\<not> exclFlag (files s f) \<Longrightarrow> unixFileLock f t st ln s = Sys (SetLk t st ln) (\<lambda>r. Done (r, s))"
  by (simp add: unixFileLock_def)

lemma wp_unixFileLock:
  "\<not> exclFlag (files s f) \<Longrightarrow> wp I Q (unixFileLock f t st ln s) L x \<longleftrightarrow> disc (SetLk t st ln) L \<and>
     I (setlk (SetLk t st ln) L) \<and> Q (FOk, s) (setlk (SetLk t st ln) L) (x \<and> setlk (SetLk t st ln) L PENDING_BYTE = F_WRLCK) \<and>
     (\<forall>r. r \<noteq> FOk \<longrightarrow> I L \<and> Q (r, s) L (x \<and> L PENDING_BYTE = F_WRLCK))"
  by (auto simp: unixFileLock_plain eff_def)

lemma posix_error [simp]:
  "sqliteErrorFromPosixError r U_IOERR_LOCK \<noteq> U_OK" "U_OK \<noteq> sqliteErrorFromPosixError r U_IOERR_LOCK"
  by (cases r; simp)+

lemma claim_simps: "claim L 0" "claim L (Suc 0) \<longleftrightarrow> held L"
  by (simp_all add: claim_def)

lemma claim_low: "held L \<Longrightarrow> v \<le> SHARED_LOCK \<Longrightarrow> claim L v"
  by (simp add: claim_def)

text \<open>Locks that are not less than before keep every claim.\<close>

definition stronger :: "locks \<Rightarrow> locks \<Rightarrow> bool" where
  "stronger L L' \<longleftrightarrow> (held L \<longrightarrow> held L') \<and> (L RESERVED_BYTE = F_WRLCK \<longrightarrow> L' RESERVED_BYTE = F_WRLCK)
     \<and> (L PENDING_BYTE = F_WRLCK \<longrightarrow> L' PENDING_BYTE = F_WRLCK)"

lemma claim_stronger: "claim L v \<Longrightarrow> stronger L L' \<Longrightarrow> claim L' v"
  by (auto simp: claim_def stronger_def)

lemma LI_stronger: "LI L s \<Longrightarrow> stronger L L' \<Longrightarrow> LI L' s"
  unfolding LI_def using claim_stronger by (auto simp: stronger_def)

lemma claims_stronger: "claims s f t L \<Longrightarrow> stronger L L' \<Longrightarrow> claims s f t L'"
  unfolding claims_def using claim_stronger by blast

lemma claim_min: "claim L v \<Longrightarrow> t \<in> {0, 1, 4} \<Longrightarrow> v \<le> 4 \<Longrightarrow> claim L (min v t)"
  by (auto simp: claim_def min_def)

lemma LI_claims:
  assumes "LI L s" "t \<in> {0, 1, 4}"
  shows "claims s f t L"
proof -
  have "lev s f \<le> 4" "claim L (lev s g)" for g using assms(1) booksD(5) by (auto simp: LI_def)
  with assms(2) claim_min show ?thesis by (auto simp: claims_def)
qed

lemma stronger_refl: "stronger L L"
  by (simp add: stronger_def)

lemma stronger_set [simp]:
  "stronger L (\<lambda>b. if b = PENDING_BYTE then F_WRLCK else L b)"
  "stronger L (\<lambda>b. if b = RESERVED_BYTE then F_WRLCK else L b)"
  "t \<noteq> F_UNLCK \<Longrightarrow> stronger L (\<lambda>b. if b \<in> SH then t else L b)"
  using bytes by (auto simp: stronger_def)

text \<open>A process without locks meets every claim.\<close>

lemma LI_unlocked: "LI L s \<Longrightarrow> iFileLock (inode s) = NO_LOCK \<Longrightarrow> lev s g = NO_LOCK"
  using no_holders [of s g] booksD(8) [of s] by (auto simp: LI_def)

lemma LI_any: "LI L s \<Longrightarrow> iFileLock (inode s) = NO_LOCK \<Longrightarrow> LI L' s"
  using LI_unlocked [of L s] by (simp add: LI_def claim_simps)

lemma upd_sel [simp]:
  "inode (setlev f v s) = inode s" "files (setino g s) = files s" "inode (setino g s) = g (inode s)"
  "files (setlev f v s) = (files s)(f := (files s f)\<lparr>eFileLock := v\<rparr>)"
  by (simp_all add: setlev_def setino_def)

lemma unixLock_join:
  assumes LI: "LI L s" and f: "isOpen (files s f)" "lev s f = NO_LOCK"
    and i: "iFileLock (inode s) = SHARED_LOCK \<or> iFileLock (inode s) = RESERVED_LOCK"
    and t: "t = setino (\<lambda>i. i\<lparr>nShared := nShared i + 1, nLock := nLock i + 1\<rparr>) (setlev f SHARED_LOCK s)"
  shows "LI L t"
proof -
  have b: "books s" using LI by (simp add: LI_def)
  have ns: "nShared (inode s) > 0" using booksD(6,8) [OF b] i by (metis le_less less_irrefl numeral_eq_one_iff of_nat_0_le_iff order_trans zero_neq_numeral zero_neq_one)
  have hi: "lev s g \<le> RESERVED_LOCK" for g using booksD(9) [OF b, of g] i by (cases "lev s g > 1") auto
  have "lev s g \<noteq> EXCLUSIVE_LOCK" for g using hi [of g] by linarith
  then have "books t"
    by (intro books_upd [OF b f(1), where v = 1 and d = 1])
      (use t f i ns booksD(2,9) [OF b] in auto)
  moreover have "claim L (lev t g)" for g using LI t i by (auto simp: LI_def claim_simps)
  ultimately show ?thesis using LI t i by (auto simp: LI_def)
qed

lemma unixLock_raise:
  assumes LI: "LI L s" and f: "isOpen (files s f)" "lev s f = iFileLock (inode s)" "lev s f \<ge> SHARED_LOCK"
    and v: "v \<in> {RESERVED_LOCK, PENDING_LOCK, EXCLUSIVE_LOCK}" "v = EXCLUSIVE_LOCK \<Longrightarrow> nShared (inode s) \<le> 1"
    and L: "stronger L L'" "claim L' v"
    and t: "t = setino (\<lambda>i. i\<lparr>iFileLock := v\<rparr>) (setlev f v s)"
  shows "LI L' t"
proof -
  have b: "books s" using LI by (simp add: LI_def)
  have low: "lev s g \<le> SHARED_LOCK" if "g \<noteq> f" for g
    using booksD(9) [OF b, of g] booksD(10) [OF b, of g f] booksD(10) [OF b, of f g] f that
    by (cases "lev s g > 1"; cases "lev s f > 1") auto
  have ns: "nShared (inode s) \<ge> 1" using holder_count [OF b f(3)] .
  have one: "v = EXCLUSIVE_LOCK \<Longrightarrow> \<forall>g. g \<noteq> f \<longrightarrow> lev s g = NO_LOCK" using one_holder [OF b v(2) f(3)] by blast
  have ge: "v \<ge> SHARED_LOCK" "v \<le> EXCLUSIVE_LOCK" "v > SHARED_LOCK" using v(1) by auto
  have "books t"
  proof (rule books_upd [OF b f(1), where v = v and d = 0])
    show "\<forall>g. g \<noteq> f \<longrightarrow> SHARED_LOCK < lev s g \<longrightarrow> v \<le> SHARED_LOCK \<and> iFileLock (inode t) = lev s g"
      using low by (metis not_le)
    show "\<forall>g. g \<noteq> f \<longrightarrow> lev s g = EXCLUSIVE_LOCK \<longrightarrow> v = NO_LOCK" using low by fastforce
    show "v = EXCLUSIVE_LOCK \<Longrightarrow> \<forall>g. g \<noteq> f \<longrightarrow> lev s g = NO_LOCK" by (rule one)
  qed (use t f ge ns booksD(2) [OF b] in auto)
  moreover have "claim L' (lev t g)" for g
    using LI L claim_stronger [of L "lev s g" L'] t by (auto simp: LI_def)
  moreover have "held L'" using L(2) ge by (simp add: claim_def)
  ultimately show ?thesis by (simp add: LI_def)
qed

lemma post_same: "LI L s \<Longrightarrow> has_excl s = x \<Longrightarrow> post s L x"
  by (simp add: post_def)

lemma LI_pending: "LI L s \<Longrightarrow> has_excl s \<Longrightarrow> L PENDING_BYTE = F_WRLCK"
proof -
  assume "LI L s" "has_excl s"
  then obtain g where "lev s g = EXCLUSIVE_LOCK" "\<forall>g. claim L (lev s g)" unfolding LI_def has_excl_def by blast
  then have "claim L EXCLUSIVE_LOCK" by metis
  then show ?thesis by (simp add: claim_def)
qed

lemma wp_unixLockWrite:
  assumes LI: "LI L s" and f: "isOpen (files s f)" "lev s f = iFileLock (inode s)" "lev s f \<ge> SHARED_LOCK"
    and e: "e = RESERVED_LOCK \<or> e = EXCLUSIVE_LOCK \<and> L PENDING_BYTE = F_WRLCK" and c: "claims s0 g0 t0 L"
    and nx: "lev s f < EXCLUSIVE_LOCK"
  shows "wp (claims s0 g0 t0) (\<lambda>(rc, s). post s) (unixLockWrite f e s) L x"
proof -
  have b: "books s" using LI by (simp add: LI_def)
  have held: "held L" using LI f by (simp add: LI_def)
  have nex: "\<not> has_excl s"
  proof
    assume "has_excl s"
    then obtain g where "lev s g = EXCLUSIVE_LOCK" unfolding has_excl_def by blast
    with booksD(9) [OF b, of g] f(2) nx show False by simp
  qed
  have pend: "post (setino (\<lambda>i. i\<lparr>iFileLock := PENDING_LOCK\<rparr>) (setlev f PENDING_LOCK s)) L x'"
    if "L PENDING_BYTE = F_WRLCK" for x'
  proof -
    have "LI L (setino (\<lambda>i. i\<lparr>iFileLock := PENDING_LOCK\<rparr>) (setlev f PENDING_LOCK s))"
      using that held by (intro unixLock_raise [OF LI f, of PENDING_LOCK, OF _ _ stronger_refl _ refl]) (simp_all add: claim_def)
    moreover have "\<not> has_excl (setino (\<lambda>i. i\<lparr>iFileLock := PENDING_LOCK\<rparr>) (setlev f PENDING_LOCK s))"
      using nex by (auto simp: has_excl_def)
    ultimately show ?thesis by (simp add: post_def)
  qed
  have same: "post s L x'" for x' using LI nex by (simp add: post_def)
  show ?thesis
  proof (cases "e = RESERVED_LOCK")
    case True
    let ?L = "\<lambda>b. if b = RESERVED_BYTE then F_WRLCK else L b"
    have "LI ?L (setino (\<lambda>i. i\<lparr>iFileLock := RESERVED_LOCK\<rparr>) (setlev f RESERVED_LOCK s))"
      using held by (intro unixLock_raise [OF LI f, of RESERVED_LOCK, OF _ _ _ _ refl]) (simp_all add: claim_def)
    moreover have "\<not> has_excl (setino (\<lambda>i. i\<lparr>iFileLock := RESERVED_LOCK\<rparr>) (setlev f RESERVED_LOCK s))"
      using nex by (auto simp: has_excl_def)
    ultimately have "post (setino (\<lambda>i. i\<lparr>iFileLock := RESERVED_LOCK\<rparr>) (setlev f RESERVED_LOCK s)) ?L x'" for x'
      by (simp add: post_def)
    moreover have "claims s0 g0 t0 ?L" using c by (rule claims_stronger) simp
    ultimately show ?thesis
      using True c same
      by (auto simp: unixLockWrite_def wp_bind wp_unixFileLock [OF booksD(1) [OF b]] unixLockDone_def)
  next
    case False
    with e have E: "e = EXCLUSIVE_LOCK" "L PENDING_BYTE = F_WRLCK" by auto
    show ?thesis
    proof (cases "nShared (inode s) > 1")
      case True
      with E pend show ?thesis by (simp add: unixLockWrite_def unixLockDone_def)
    next
      case False
      let ?L = "\<lambda>b. if b \<in> SH then F_WRLCK else L b"
      have "LI ?L (setino (\<lambda>i. i\<lparr>iFileLock := EXCLUSIVE_LOCK\<rparr>) (setlev f EXCLUSIVE_LOCK s))"
        using E False bytes by (intro unixLock_raise [OF LI f, of EXCLUSIVE_LOCK, OF _ _ _ _ refl]) (simp_all add: claim_def)
      then have "post (setino (\<lambda>i. i\<lparr>iFileLock := EXCLUSIVE_LOCK\<rparr>) (setlev f EXCLUSIVE_LOCK s)) ?L x'" for x'
        by (simp add: post_def)
      moreover have "claims s0 g0 t0 ?L" using c by (rule claims_stronger) simp
      ultimately show ?thesis
        using E False c pend held
        by (auto simp: unixLockWrite_def wp_bind wp_unixFileLock [OF booksD(1) [OF b]] unixLockDone_def)
    qed
  qed
qed

lemma wp_unixLockShared:
  assumes LI: "LI L s" and f: "isOpen (files s f)" and i: "iFileLock (inode s) = NO_LOCK" and c: "\<And>L. claims s0 g0 t0 L"
    and p: "L PENDING_BYTE \<noteq> F_UNLCK"
  shows "wp (claims s0 g0 t0) (\<lambda>(rc, s). post s) (unixLockShared f s) L x"
proof -
  have b: "books s" using LI by (simp add: LI_def)
  have z: "lev s g = NO_LOCK" for g by (rule LI_unlocked [OF LI i])
  have nz: "nShared (inode s) = 0" using booksD(8) [OF b] i by simp
  let ?t = "setino (\<lambda>i. i\<lparr>iFileLock := SHARED_LOCK\<rparr>) (setlev f SHARED_LOCK
    (setino (\<lambda>i. i\<lparr>nLock := nLock i + 1, nShared := 1\<rparr>) (setlev f SHARED_LOCK s)))"
  have nx: "\<not> has_excl s" "\<not> has_excl ?t" using z by (auto simp: has_excl_def)
  have fail: "post s L' x'" for L' x' using LI_any [OF LI i] nx by (simp add: post_def)
  have "books ?t"
    by (rule books_upd [OF b f(1), where v = 1 and d = 1]) (use z nz booksD(2) [OF b] in \<open>simp_all add: fun_eq_iff\<close>)
  then have ok: "post ?t L' x'" if "held L'" for L' x'
    using that z nx by (auto simp: post_def LI_def claim_simps)
  show ?thesis
    using c fail ok p
    by (auto simp: unixLockShared_def wp_bind wp_unixFileLock [OF booksD(1) [OF b]] unixLockDone_def Let_def)
qed

lemma wp_unixLock:
  assumes LI: "LI L s" and f: "isOpen (files s f)" and e: "e \<in> {SHARED_LOCK, RESERVED_LOCK, EXCLUSIVE_LOCK}"
    "lev s f = NO_LOCK \<longrightarrow> e = SHARED_LOCK" "e = RESERVED_LOCK \<longrightarrow> lev s f = SHARED_LOCK"
  shows "wp (claims s f EXCLUSIVE_LOCK) (\<lambda>(rc, s). post s) (unixLock f e s) L (has_excl s)"
proof -
  have b: "books s" using LI by (simp add: LI_def)
  have same: "post s L (has_excl s)" using LI by (rule post_same) simp
  have c: "claims s f EXCLUSIVE_LOCK L" using LI by (rule LI_claims) simp
  show ?thesis
  proof (cases "lev s f \<ge> e \<or> lev s f \<noteq> iFileLock (inode s) \<and> (iFileLock (inode s) \<ge> PENDING_LOCK \<or> e > SHARED_LOCK)")
    case True
    with same show ?thesis by (auto simp: unixLock_def)
  next
    case go: False
    show ?thesis
    proof (cases "e = SHARED_LOCK")
      case sh: True
      with go have lf: "lev s f = NO_LOCK" by simp
      let ?t = "setino (\<lambda>i. i\<lparr>nShared := nShared i + 1, nLock := nLock i + 1\<rparr>) (setlev f SHARED_LOCK s)"
      show ?thesis
      proof (cases "iFileLock (inode s) = SHARED_LOCK \<or> iFileLock (inode s) = RESERVED_LOCK")
        case True
        have "has_excl ?t \<Longrightarrow> has_excl s" by (auto simp: has_excl_def split: if_splits)
        then have "post ?t L (has_excl s)" using unixLock_join [OF LI f lf True refl] by (simp add: post_def)
        with go sh True show ?thesis by (auto simp: unixLock_def)
      next
        case False
        with go sh lf have i: "iFileLock (inode s) = NO_LOCK" by auto
        have cl: "claims s f EXCLUSIVE_LOCK L'" for L' using LI_unlocked [OF LI i] by (simp add: claims_def claim_simps)
        have "wp (claims s f EXCLUSIVE_LOCK) (\<lambda>(rc, s). post s) (unixLockShared f s)
            (\<lambda>b. if b = PENDING_BYTE then F_RDLCK else L b) x'" for x'
          by (rule wp_unixLockShared [OF LI_any [OF LI i] f i cl]) simp
        moreover have "\<not> has_excl s" using LI_unlocked [OF LI i] by (simp add: has_excl_def)
        ultimately show ?thesis
          using go sh i cl same by (simp add: unixLock_def wp_bind wp_unixFileLock [OF booksD(1) [OF b]])
      qed
    next
      case hi: False
      with go e have lf: "lev s f = iFileLock (inode s)" "lev s f \<ge> SHARED_LOCK" "lev s f < EXCLUSIVE_LOCK"
        by auto
      have nex: "\<not> has_excl s"
      proof
        assume "has_excl s"
        then obtain g where "lev s g = EXCLUSIVE_LOCK" unfolding has_excl_def by blast
        with booksD(9) [OF b, of g] lf show False by simp
      qed
      then have same': "post s L x'" for x' using LI by (simp add: post_def)
      show ?thesis
      proof (cases "e = EXCLUSIVE_LOCK \<and> lev s f < PENDING_LOCK")
        case True
        let ?L = "\<lambda>b. if b = PENDING_BYTE then F_WRLCK else L b"
        have "wp (claims s f EXCLUSIVE_LOCK) (\<lambda>(rc, s). post s) (unixLockWrite f e s) ?L x'" for x'
          by (rule wp_unixLockWrite [OF LI_stronger [OF LI] f lf(1,2)])
            (use True lf claims_stronger [OF c] in simp_all)
        moreover have "claims s f EXCLUSIVE_LOCK ?L" using c by (rule claims_stronger) simp
        ultimately show ?thesis
          using True go hi c same' by (simp add: unixLock_def wp_bind wp_unixFileLock [OF booksD(1) [OF b]])
      next
        case False
        have pe: "e = RESERVED_LOCK \<or> e = EXCLUSIVE_LOCK \<and> L PENDING_BYTE = F_WRLCK"
        proof (cases "e = RESERVED_LOCK")
          case False
          with \<open>\<not> (e = EXCLUSIVE_LOCK \<and> lev s f < PENDING_LOCK)\<close> e hi have "e = EXCLUSIVE_LOCK" "lev s f \<ge> PENDING_LOCK" by auto
          moreover have "claim L (lev s f)" using LI by (simp add: LI_def)
          ultimately show ?thesis by (simp add: claim_def)
        qed simp
        have "wp (claims s f EXCLUSIVE_LOCK) (\<lambda>(rc, s). post s) (unixLockWrite f e s) L (has_excl s)"
          by (rule wp_unixLockWrite [OF LI f lf(1,2) pe c lf(3)])
        with False go hi lf(1) same show ?thesis by (auto simp: unixLock_def)
      qed
    qed
  qed
qed

lemma wp_closeFds:
  assumes "I (\<lambda>b. F_UNLCK)" "\<And>x'. Q () (\<lambda>b. F_UNLCK) x'"
  shows "Q () L x \<Longrightarrow> wp I Q (closeFds n) L x"
  using assms by (induction n arbitrary: L x) (simp_all add: eff_def)

lemma wp_closePendingFds:
  assumes "I (\<lambda>b. F_UNLCK)" "\<And>L x. Q (setino (\<lambda>i. i\<lparr>pUnused := 0\<rparr>) s) L x"
  shows "wp I Q (closePendingFds s) L x"
  unfolding closePendingFds_def wp_bind using assms by (intro wp_closeFds) simp_all

lemma wp_unlockNone:
  assumes b: "books s" and f: "isOpen (files s f)" "lev s f \<ge> SHARED_LOCK"
    and j: "j = iFileLock (inode s) \<and> lev s f \<le> SHARED_LOCK \<or> j = SHARED_LOCK \<and> lev s f > SHARED_LOCK"
    and L: "held L" "\<And>g. g \<noteq> f \<Longrightarrow> claim L (lev s g)"
    and s1: "s1 = setino (\<lambda>i. i\<lparr>iFileLock := j\<rparr>) s"
  shows "wp (claims s f NO_LOCK) (\<lambda>(rc, s). post s) (unlockNone f s1) L x"
proof -
  have ns: "nShared (inode s) \<ge> 1" using holder_count [OF b f(2)] .
  have noex: "lev s g \<noteq> EXCLUSIVE_LOCK" if "g \<noteq> f" for g using booksD(11) [OF b, of g f] that f(2) by auto
  have jpos: "j > 0" using j booksD(8) [OF b] ns by (auto intro: gr0I)
  have low: "lev s g \<le> SHARED_LOCK" if "g \<noteq> f" "lev s f > SHARED_LOCK" for g using booksD(10) [OF b that(2,1)] .
  have upd: "books t" if t: "files t = (files s)(f := (files s f)\<lparr>eFileLock := NO_LOCK\<rparr>)" "nShared (inode t) = nShared (inode s) - 1"
      "nLock (inode t) = nLock (inode s) - 1" "nRef (inode t) = nRef (inode s)" "\<not> bProcessLock (inode t)"
      "iFileLock (inode t) = (if nShared (inode s) = 1 then NO_LOCK else j)" for t
  proof (rule books_upd [OF b f(1) t(1), where d = "- 1"])
    show "nShared (inode t) = 0 \<longleftrightarrow> iFileLock (inode t) = NO_LOCK" using t ns jpos by auto
    show "\<forall>g. g \<noteq> f \<longrightarrow> SHARED_LOCK < lev s g \<longrightarrow> NO_LOCK \<le> SHARED_LOCK \<and> iFileLock (inode t) = lev s g"
    proof (intro allI impI conjI)
      fix g
      assume g: "g \<noteq> f" "SHARED_LOCK < lev s g"
      then have "nShared (inode s) \<noteq> 1" using one_holder [OF b _ f(2) g(1)] by auto
      moreover have "j = iFileLock (inode s)" using j low [OF g(1)] g(2) by auto
      ultimately show "iFileLock (inode t) = lev s g" using t(6) booksD(9) [OF b g(2)] by simp
    qed simp
  qed (use t f noex in simp_all)
  have nx: "\<not> has_excl t" if "files t = (files s)(f := (files s f)\<lparr>eFileLock := NO_LOCK\<rparr>)" for t
    using that noex by (auto simp: has_excl_def)
  have ex: "\<not> exclFlag (files s f)" using booksD(1) [OF b] .
  show ?thesis
  proof (cases "nShared (inode s) = 1")
    case True
    have z: "lev s g = NO_LOCK" if "g \<noteq> f" for g using one_holder [OF b _ f(2) that] True by simp
    have c: "claims s f NO_LOCK L'" for L' using z by (simp add: claims_def claim_simps)
    have post: "post t L' x'" if "files t = (files s)(f := (files s f)\<lparr>eFileLock := NO_LOCK\<rparr>)" "books t" "iFileLock (inode t) = NO_LOCK" for t L' x'
      using that z nx by (auto simp: post_def LI_def claim_simps)
    show ?thesis
      unfolding unlockNone_def Let_def s1
      by (auto simp: True wp_bind wp_unixFileLock ex c intro!: wp_closePendingFds post upd)
        (simp_all add: booksD(2) [OF b] True)
  next
    case False
    then have "nLock (inode s) - 1 \<noteq> 0" using booksD(7) [OF b] ns by simp
    moreover have "post (setlev f NO_LOCK (setino (\<lambda>i. i\<lparr>nLock := nLock i - 1\<rparr>) (setino (\<lambda>i. i\<lparr>nShared := nShared i - 1\<rparr>) s1))) L x"
      (is "post ?t L x")
    proof -
      have "books ?t" by (rule upd) (simp_all add: s1 booksD(2) [OF b] False)
      with L nx [of ?t] show ?thesis by (auto simp: post_def LI_def s1 claim_simps)
    qed
    ultimately show ?thesis using False by (simp add: unlockNone_def wp_bind s1)
  qed
qed

lemma claims_lower:
  assumes b: "books s" and f: "lev s f > SHARED_LOCK" and e: "e \<le> SHARED_LOCK"
  shows "claims s f e L \<longleftrightarrow> (e = SHARED_LOCK \<or> (\<exists>g. g \<noteq> f \<and> lev s g \<ge> SHARED_LOCK) \<longrightarrow> held L)"
proof -
  have low: "lev s g \<le> SHARED_LOCK" if "g \<noteq> f" for g using booksD(10) [OF b f that] .
  have g: "claim L (lev s g) \<longleftrightarrow> (lev s g \<ge> SHARED_LOCK \<longrightarrow> held L)" if "g \<noteq> f" for g
    using low [OF that] by (auto simp: claim_def)
  have "min (lev s f) e = e" using f e by simp
  then have "claims s f e L \<longleftrightarrow> claim L e \<and> (\<forall>g. g \<noteq> f \<longrightarrow> claim L (lev s g))" unfolding claims_def by auto
  moreover have "claim L e \<longleftrightarrow> (e = SHARED_LOCK \<longrightarrow> held L)" using e by (auto simp: claim_def)
  moreover have "(\<forall>g. g \<noteq> f \<longrightarrow> claim L (lev s g)) \<longleftrightarrow> (\<forall>g. g \<noteq> f \<longrightarrow> lev s g \<ge> SHARED_LOCK \<longrightarrow> held L)"
    using g by blast
  ultimately show ?thesis by blast
qed

lemma wp_posixUnlock:
  assumes LI: "LI L s" and f: "isOpen (files s f)" and e: "e \<le> SHARED_LOCK"
  shows "wp (claims s f e) (\<lambda>(rc, s). post s) (posixUnlock f e s) L (has_excl s)"
proof (cases "lev s f \<le> e")
  case True
  then show ?thesis using post_same [OF LI refl] by (simp add: posixUnlock_def)
next
  case up: False
  have b: "books s" using LI by (simp add: LI_def)
  note ex = booksD(1) [OF b]
  have held: "held L" and cl: "claim L (lev s g)" for g
    using LI up booksD(8) [OF b] holder_count [OF b, of f] by (auto simp: LI_def)
  show ?thesis
  proof (cases "lev s f > SHARED_LOCK")
    case False
    with up e have "e = NO_LOCK" "lev s f = SHARED_LOCK" by auto
    moreover have "wp (claims s f NO_LOCK) (\<lambda>(rc, s). post s) (unlockNone f s) L (has_excl s)"
      by (rule wp_unlockNone [OF b f, where j = "iFileLock (inode s)"])
        (use calculation held cl in \<open>simp_all add: setino_def\<close>)
    ultimately show ?thesis by (simp add: posixUnlock_def)
  next
    case hi: True
    note c = claims_lower [OF b hi e]
    have low: "lev s g \<le> SHARED_LOCK" if "g \<noteq> f" for g using booksD(10) [OF b hi that] .
    have keep: "post s L' (has_excl s \<and> L' PENDING_BYTE = F_WRLCK)"
      if "held L'" "\<And>b. b \<notin> SH \<Longrightarrow> L' b = L b" for L'
    proof -
      have "stronger L L'" using that bytes by (simp add: stronger_def)
      then have "LI L' s" by (rule LI_stronger [OF LI])
      then show ?thesis using LI_pending [of L' s] by (auto simp: post_def)
    qed
    have noex: "lev s g \<noteq> EXCLUSIVE_LOCK" if "g \<noteq> f" for g using low [OF that] by linarith
    let ?s1 = "setino (\<lambda>i. i\<lparr>iFileLock := SHARED_LOCK\<rparr>) s"
    have down: "post (setlev f SHARED_LOCK ?s1) L' x'" if "held L'" for L' x'
    proof -
      let ?t = "setlev f SHARED_LOCK ?s1"
      have "books ?t"
        by (rule books_upd [OF b f, where v = 1 and d = 0])
          (use hi low noex holder_count [OF b, of f] booksD(2) [OF b] in \<open>auto simp: not_less [symmetric]\<close>)
      moreover have "claim L' (lev ?t g)" for g using that low [of g] by (auto simp: claim_def)
      moreover have "\<not> has_excl ?t" using noex by (auto simp: has_excl_def)
      ultimately show ?thesis using that by (simp add: post_def LI_def)
    qed
    have none: "wp (claims s f NO_LOCK) (\<lambda>(rc, s). post s) (unlockNone f ?s1) L' x'" if "held L'" for L' x'
      by (rule wp_unlockNone [OF b f, where j = SHARED_LOCK])
        (use hi that claim_low [OF that low] in simp_all)
    have keepL: "post s L (has_excl s \<and> L PENDING_BYTE = F_WRLCK)" by (rule keep [OF held]) simp
    let ?L = "\<lambda>b. if b \<in> SH then F_RDLCK else L b"
    have keepR: "post s ?L (has_excl s \<and> ?L PENDING_BYTE = F_WRLCK)" by (rule keep) simp_all
    from e consider "e = NO_LOCK" | "e = SHARED_LOCK" by linarith
    then show ?thesis
    proof cases
      case 1
      then show ?thesis
        using up hi c held keepL none by (simp add: posixUnlock_def wp_bind wp_unixFileLock [OF ex])
    next
      case 2
      then show ?thesis
        using up hi c held keepL keepR down bytes by (simp add: posixUnlock_def wp_bind wp_unixFileLock [OF ex])
    qed
  qed
qed

text \<open>An operation changes no other connection.\<close>

definition frame :: "nat \<Rightarrow> uproc \<Rightarrow> uproc \<Rightarrow> bool" where
  "frame f s s' \<longleftrightarrow> (\<forall>g. g \<noteq> f \<longrightarrow> files s' g = files s g)
     \<and> isOpen (files s' f) = isOpen (files s f) \<and> h (files s' f) = h (files s f)"

lemma frame_simps [simp]:
  "frame f s s" "frame f s (setlev f v t) \<longleftrightarrow> frame f s t" "frame f s (setino g t) \<longleftrightarrow> frame f s t"
  by (auto simp: frame_def)

lemma results_closeFds: "results (closeFds n) = {()}"
  by (induction n) auto

lemma frame_unixFileLock: "(r, s') \<in> results (unixFileLock f t st ln s) \<Longrightarrow> frame f s0 s \<Longrightarrow> frame f s0 s'"
  by (auto simp: unixFileLock_def split: if_splits)

lemma frame_closePendingFds: "s' \<in> results (closePendingFds s) \<Longrightarrow> frame f s0 s \<Longrightarrow> frame f s0 s'"
  by (auto simp: closePendingFds_def results_bind results_closeFds)

lemma frame_unlockNone: "(rc, s') \<in> results (unlockNone f s) \<Longrightarrow> frame f s0 s \<Longrightarrow> frame f s0 s'"
  unfolding unlockNone_def Let_def results_bind
  by (auto split: if_splits simp: results_bind dest!: frame_unixFileLock [where ?s0.0 = s0] frame_closePendingFds [where f = f and ?s0.0 = s0])

lemma frame_posixUnlock: "(rc, s') \<in> results (posixUnlock f e s) \<Longrightarrow> frame f s s'"
  unfolding posixUnlock_def Let_def results_bind
  by (auto split: if_splits simp: results_bind
      dest!: frame_unixFileLock [where ?s0.0 = s] frame_unlockNone [where ?s0.0 = s])

lemma holders_close: "files t = (files s)(f := file0) \<Longrightarrow> holders t = holders s - {f}"
  by (auto simp: holders_def file0_def)

lemma open_close: "files t = (files s)(f := file0) \<Longrightarrow> {g. isOpen (files t g)} = {g. isOpen (files s g)} - {f}"
  by (auto simp: file0_def)

lemma books_close:
  assumes b: "books s" and f: "isOpen (files s f)" and t: "files t = (files s)(f := file0)"
    and ino: "nShared (inode t) = nShared (inode s)" "nLock (inode t) = nLock (inode s)" "iFileLock (inode t) = iFileLock (inode s)"
      "\<not> bProcessLock (inode t)" "nRef (inode t) = nRef (inode s) - 1"
  shows "books t"
proof -
  have lv: "lev t g = (if g = f then NO_LOCK else lev s g)" for g by (simp add: t file0_def)
  have opn: "isOpen (files t g) \<longleftrightarrow> g \<noteq> f \<and> isOpen (files s g)" for g by (simp add: t file0_def)
  have exc: "\<not> exclFlag (files t g)" for g using booksD(1) [OF b, of g] by (simp add: t file0_def)
  have c: "card (holders t) \<le> card (holders s)"
    unfolding holders_close [OF t] using finite_holders [OF b] by (simp add: card_Diff1_le)
  have "{g. isOpen (files s g)} \<noteq> {}" using f by auto
  then have "int (card ({g. isOpen (files s g)} - {f})) = nRef (inode s) - 1"
    using booksD(3,12) [OF b] f by (simp add: of_nat_diff Suc_le_eq card_gt_0_iff)
  then have r: "nRef (inode t) = int (card {g. isOpen (files t g)})" "finite {g. isOpen (files t g)}"
    unfolding open_close [OF t] ino using booksD(3) [OF b] by simp_all
  show ?thesis
    unfolding books_def
  proof (intro conjI allI impI)
    show "int (card (holders t)) \<le> nShared (inode t)" using c booksD(6) [OF b] ino by simp
    show "nShared (inode t) \<le> nLock (inode t)" using booksD(7) [OF b] ino by simp
    show "nShared (inode t) = 0 \<longleftrightarrow> iFileLock (inode t) = NO_LOCK" using booksD(8) [OF b] ino by simp
  next
    fix g assume "SHARED_LOCK \<le> lev t g" then show "isOpen (files t g)"
      using booksD(4) [OF b, of g] by (auto simp: lv opn split: if_splits)
  next
    fix g show "lev t g \<le> EXCLUSIVE_LOCK" using booksD(5) [OF b, of g] by (simp add: lv)
  next
    fix g assume "SHARED_LOCK < lev t g" then show "iFileLock (inode t) = lev t g"
      using booksD(9) [OF b, of g] ino by (simp add: lv split: if_splits)
  next
    fix g k assume "SHARED_LOCK < lev t g" "k \<noteq> g" then show "lev t k \<le> SHARED_LOCK"
      using booksD(10) [OF b, of g k] by (simp add: lv split: if_splits)
  next
    fix g k assume "lev t g = EXCLUSIVE_LOCK" "k \<noteq> g" then show "lev t k = NO_LOCK"
      using booksD(11) [OF b, of g k] by (simp add: lv split: if_splits)
  qed (use exc ino r in simp_all)
qed

lemma books_empty: "files t = (files s)(f := file0) \<Longrightarrow> inode t = inode0 \<Longrightarrow> {g. isOpen (files s g)} = {f} \<Longrightarrow>
  books s \<Longrightarrow> books t \<and> (\<forall>g. lev t g = NO_LOCK)"
proof -
  assume a: "files t = (files s)(f := file0)" "inode t = inode0" "{g. isOpen (files s g)} = {f}" "books s"
  have lv: "lev t g = NO_LOCK" for g
  proof (cases "g = f")
    case False
    with a(3) have "\<not> isOpen (files s g)" by blast
    with booksD(4) [OF a(4), of g] have "lev s g = NO_LOCK" by (cases "lev s g") auto
    with a(1) False show ?thesis by simp
  qed (simp add: a(1) file0_def)
  moreover have "{g. isOpen (files t g)} = {}" using a(1,3) by (auto simp: file0_def)
  moreover have "\<not> exclFlag (files t g)" for g using a(1) booksD(1) [OF a(4), of g] by (simp add: file0_def)
  ultimately show ?thesis using a(2) by (simp add: books_def inode0_def holders_def)
qed

lemma wp_unixClose:
  assumes LI: "LI L s" and f: "isOpen (files s f)"
  shows "wp (claims s f NO_LOCK) (\<lambda>(rc, s). post s) (unixClose f s) L (has_excl s)"
proof -
  let ?I = "claims s f NO_LOCK"
  have "?I L" using LI by (rule LI_claims) simp
  have wp: "wp ?I (\<lambda>(rc, s). post s) (posixUnlock f NO_LOCK s) L (has_excl s)" by (rule wp_posixUnlock [OF LI f]) simp
  have fr: "frame f s (snd r)" if "r \<in> results (posixUnlock f NO_LOCK s)" for r
    using frame_posixUnlock [of "fst r" "snd r"] that by simp
  have "wp ?I (\<lambda>(rc, s1) L x. frame f s s1 \<and> ?I L \<and> post s1 L x) (posixUnlock f NO_LOCK s) L (has_excl s)"
    using wp_more [of "posixUnlock f NO_LOCK s" ?I "\<lambda>(rc, s). post s"
        "\<lambda>(rc, s1) L x. frame f s s1 \<and> ?I L \<and> post s1 L x" L "has_excl s"] fr wp \<open>?I L\<close>
    by (simp add: case_prod_unfold)
  moreover have "wp ?I (\<lambda>(rc, s). post s)
      (let s = (if nLock (inode s1) \<noteq> 0 then setPendingFd f s1 else s1) in
       act_bind (releaseInodeInfo s) (\<lambda>s. act_bind (closeUnixFile f s) (\<lambda>s. Done (U_OK, s)))) L1 x1"
    if s1: "frame f s s1" "?I L1" "post s1 L1 x1" for s1 L1 x1
  proof -
    have LI1: "LI L1 s1" and b: "books s1" using s1(3) by (auto simp: post_def LI_def)
    have op: "isOpen (files s1 f)" using s1(1) f by (simp add: frame_def)
    have other: "lev s1 g = lev s g" if "g \<noteq> f" for g using s1(1) that by (simp add: frame_def)
    define s2 where "s2 = (if nLock (inode s1) \<noteq> 0 then setPendingFd f s1 else s1)"
    have s2: "nRef (inode s2) = nRef (inode s1)" "nShared (inode s2) = nShared (inode s1)" "nLock (inode s2) = nLock (inode s1)"
      "iFileLock (inode s2) = iFileLock (inode s1)" "bProcessLock (inode s2) = bProcessLock (inode s1)"
      "(files s2)(f := y) = (files s1)(f := y)" "h (files s2 f) \<Longrightarrow> nLock (inode s1) = 0" for y
      unfolding s2_def by (cases "nLock (inode s1) = 0"; simp add: setPendingFd_def)+
    have wpc: "wp ?I (\<lambda>(rc, s). post s) (act_bind (closeUnixFile f t) (\<lambda>s. Done (U_OK, s))) L' x'"
      if "post (t\<lparr>files := (files t)(f := file0)\<rparr>) L' x'"
        "h (files t f) \<Longrightarrow> ?I (\<lambda>b. F_UNLCK) \<and> (\<forall>x. post (t\<lparr>files := (files t)(f := file0)\<rparr>) (\<lambda>b. F_UNLCK) x)" for t L' x'
      using that by (simp add: closeUnixFile_def wp_bind eff_def)
    show ?thesis
    proof (cases "nRef (inode s1) = 1")
      case True
      then have "card {g. isOpen (files s1 g)} = 1" using booksD(12) [OF b] by simp
      then obtain y where "{g. isOpen (files s1 g)} = {y}" by (rule card_1_singletonE)
      moreover have "f \<in> {g. isOpen (files s1 g)}" using op by simp
      ultimately have one: "{g. isOpen (files s1 g)} = {f}" by simp
      have post: "post t L' x'" if "files t = (files s1)(f := file0)" "inode t = inode0" for t L' x'
        using books_empty [OF that one b] that by (simp add: post_def LI_def claim_simps has_excl_def inode0_def)
      have "lev s g = NO_LOCK" if "g \<noteq> f" for g
      proof -
        have "\<not> isOpen (files s1 g)" using one that by blast
        with booksD(4) [OF b, of g] other [OF that] show ?thesis by (cases "lev s1 g") auto
      qed
      then have I: "?I L'" for L' by (simp add: claims_def claim_simps)
      let ?s3 = "setino (\<lambda>i. i\<lparr>nRef := nRef i - 1\<rparr>) s2"
      have "nRef (inode ?s3) = 0" using True s2(1) by simp
      moreover have "wp ?I (\<lambda>s. wp ?I (\<lambda>(rc, s). post s) (act_bind (closeUnixFile f (setino (\<lambda>_. inode0) s)) (\<lambda>s. Done (U_OK, s))))
          (closePendingFds ?s3) L1 x1"
        using I by (intro wp_closePendingFds wpc conjI allI post) (simp_all add: s2(6))
      ultimately show ?thesis
        unfolding Let_def s2_def [symmetric] releaseInodeInfo_def by (simp add: wp_bind)
    next
      case False
      let ?s3 = "setino (\<lambda>i. i\<lparr>nRef := nRef i - 1\<rparr>) s2"
      let ?t = "?s3\<lparr>files := (files ?s3)(f := file0)\<rparr>"
      have rel: "releaseInodeInfo s2 = Done ?s3" using False s2(1) by (simp add: releaseInodeInfo_def)
      have ft: "files ?t = (files s1)(f := file0)" using s2(6) by simp
      have it: "nShared (inode ?t) = nShared (inode s1)" "nLock (inode ?t) = nLock (inode s1)"
        "iFileLock (inode ?t) = iFileLock (inode s1)" "\<not> bProcessLock (inode ?t)" "nRef (inode ?t) = nRef (inode s1) - 1"
        using s2(1-5) booksD(2) [OF b] by simp_all
      have bt: "books ?t" by (rule books_close [OF b op ft it])
      have lt: "lev ?t g = (if g = f then NO_LOCK else lev s1 g)" for g unfolding ft by (simp add: file0_def)
      have ex: "has_excl ?t \<Longrightarrow> has_excl s1" unfolding has_excl_def lt by (auto split: if_splits)
      have "claim L1 (lev ?t g)" for g unfolding lt using LI1 by (simp add: LI_def claim_simps)
      then have "post ?t L1 x1" using bt ex s1(3) LI1 it(3) unfolding post_def LI_def by simp
      moreover have "?I (\<lambda>b. F_UNLCK) \<and> (\<forall>x. post ?t (\<lambda>b. F_UNLCK) x)" if "nLock (inode s1) = 0"
      proof -
        have i: "iFileLock (inode s1) = NO_LOCK" using that booksD(6-8) [OF b] by auto
        then have z: "lev s1 g = NO_LOCK" for g using no_holders [OF b] booksD(7) [OF b] that by simp
        have nex: "\<not> has_excl ?t" using ex z by (auto simp: has_excl_def [of s1])
        have "claims s f NO_LOCK (\<lambda>b. F_UNLCK)" using other z by (simp add: claims_def claim_simps)
        moreover have "post ?t (\<lambda>b. F_UNLCK) x" for x
          using bt i it(3) nex unfolding post_def LI_def lt by (simp add: z claim_simps)
        ultimately show ?thesis by blast
      qed
      ultimately show ?thesis
        unfolding Let_def s2_def [symmetric] rel act_bind.simps
        using s2(7) by (intro wpc) simp_all
    qed
  qed
  ultimately show ?thesis
    unfolding unixClose_def unixUnlock_def wp_bind by (elim wp_mono [rotated]) auto
qed

lemma wp_unixCheckReservedLock:
  assumes "LI L s"
  shows "wp (claims s f EXCLUSIVE_LOCK) (\<lambda>(rc, s). post s) (unixCheckReservedLock f s) L (has_excl s)"
proof -
  have "claims s f EXCLUSIVE_LOCK L" using assms by (rule LI_claims) simp
  moreover have "post s L (has_excl s)" "post s L (has_excl s \<and> L PENDING_BYTE = F_WRLCK)"
    using assms LI_pending by (auto simp: post_def)
  ultimately show ?thesis by (auto simp: unixCheckReservedLock_def Let_def eff_def split: fres.split)
qed

lemma wp_forget: "wp I Q (forget a) = wp I (\<lambda>(rc, s). Q s) a"
  unfolding forget_def wp_bind by (simp add: case_prod_unfold)

lemma call_wp:
  assumes "call s f t a" "LI L s"
  shows "wp (claims s f t) post a L (has_excl s) \<and> t \<in> {NO_LOCK, SHARED_LOCK, EXCLUSIVE_LOCK}"
  using assms(1)
proof cases
  case (lock e)
  then show ?thesis using wp_unixLock [OF assms(2)] by (simp add: wp_forget)
next
  case unlock
  then have "t \<in> {NO_LOCK, SHARED_LOCK, EXCLUSIVE_LOCK}" by auto
  with unlock show ?thesis using wp_posixUnlock [OF assms(2)] by (simp add: wp_forget unixUnlock_def)
next
  case check
  then show ?thesis using wp_unixCheckReservedLock [OF assms(2)] by (simp add: wp_forget)
next
  case close
  then show ?thesis using wp_unixClose [OF assms(2)] by (simp add: wp_forget)
qed


section \<open>The whole system\<close>

definition local_inv :: "locks \<Rightarrow> pst \<Rightarrow> bool" where
  "local_inv L P \<longleftrightarrow> (case P of
     Idle s \<Rightarrow> LI L s
   | Running s f t x a \<Rightarrow> wp (claims s f t) post a L x \<and> claims s f t L \<and> books s
       \<and> t \<in> {NO_LOCK, SHARED_LOCK, EXCLUSIVE_LOCK} \<and> (x \<longrightarrow> L PENDING_BYTE = F_WRLCK)
       \<and> ((\<exists>g. hold P g = EXCLUSIVE_LOCK) \<longrightarrow> x))"

fun ghost :: "pst \<Rightarrow> bool" where
  "ghost (Idle s) = has_excl s"
| "ghost (Running s f t x a) = x"

definition uinv :: "usys \<Rightarrow> bool" where
  "uinv S \<longleftrightarrow> (\<forall>p q b. p \<noteq> q \<longrightarrow> compatible (oslocks S p b) (oslocks S q b))
     \<and> (\<forall>p. local_inv (oslocks S p) (procs S p))
     \<and> (\<forall>p q. p \<noteq> q \<longrightarrow> ghost (procs S p) \<longrightarrow> (\<forall>b\<in>SH. oslocks S q b = F_UNLCK))"

lemma ghost_pending: "local_inv L P \<Longrightarrow> ghost P \<Longrightarrow> L PENDING_BYTE = F_WRLCK"
  using LI_pending by (cases P) (auto simp: local_inv_def)

lemma uinvD:
  assumes "uinv S"
  shows "p \<noteq> q \<Longrightarrow> compatible (oslocks S p b) (oslocks S q b)" "local_inv (oslocks S p) (procs S p)"
    "p \<noteq> q \<Longrightarrow> ghost (procs S p) \<Longrightarrow> b \<in> SH \<Longrightarrow> oslocks S q b = F_UNLCK"
  using assms by (auto simp: uinv_def)

text \<open>Steps that change no locks.\<close>

lemma uinv_proc:
  assumes inv: "uinv S" and l: "local_inv (oslocks S p) P"
    and g: "ghost P \<Longrightarrow> ghost (procs S p) \<or> (\<forall>b\<in>SH. oslocks S p b = F_WRLCK)"
  shows "uinv (S\<lparr>procs := (procs S)(p := P)\<rparr>)"
proof -
  have "oslocks S q b = F_UNLCK" if "p \<noteq> q" "ghost P" "b \<in> SH" for q b
    using g [OF that(2)]
  proof
    assume "ghost (procs S p)"
    with that show ?thesis using uinvD(3) [OF inv] by blast
  next
    assume "\<forall>b\<in>SH. oslocks S p b = F_WRLCK"
    with that uinvD(1) [OF inv that(1), of b] show ?thesis by (auto simp: compatible_def)
  qed
  with inv l show ?thesis by (auto simp: uinv_def)
qed

lemma LI_open: "LI L s \<Longrightarrow> \<not> isOpen (files s f) \<Longrightarrow> LI L (openFile f s) \<and> has_excl (openFile f s) = has_excl s"
proof -
  assume LI: "LI L s" and f: "\<not> isOpen (files s f)"
  let ?t = "openFile f s"
  have b: "books s" using LI by (simp add: LI_def)
  have lf: "lev s f = NO_LOCK" using booksD(4) [OF b, of f] f by (cases "lev s f") auto
  have lv: "lev ?t g = lev s g" for g using lf by (simp add: openFile_def file0_def)
  have o: "{g. isOpen (files ?t g)} = insert f {g. isOpen (files s g)}" by (auto simp: openFile_def file0_def)
  have i: "inode ?t = (inode s)\<lparr>nRef := nRef (inode s) + 1\<rparr>" by (simp add: openFile_def)
  have e: "\<not> exclFlag (files ?t g)" for g using booksD(1) [OF b, of g] by (simp add: openFile_def file0_def)
  have hd: "holders ?t = holders s" unfolding holders_def lv ..
  have op: "isOpen (files s g) \<Longrightarrow> isOpen (files ?t g)" for g using o by auto
  have "books ?t"
    using b e op booksD(3) [OF b] f unfolding books_def hd lv o i by (simp add: card_insert_if)
  with LI show ?thesis by (simp add: LI_def lv i has_excl_def)
qed

text \<open>A system call of one process leaves the others' locks and exclusive rights alone.\<close>

lemma uinv_sys:
  assumes inv: "uinv S" and p: "procs S p = Running s f t x (Sys op k)" and ok: "permitted (oslocks S) p op r"
    and L': "L' = eff op r (oslocks S p)"
  shows "uinv (S\<lparr>oslocks := (oslocks S)(p := L'), procs := (procs S)(p := Running s f t (x \<and> L' PENDING_BYTE = F_WRLCK) (k r))\<rparr>)"
proof -
  let ?L = "oslocks S p"
  have l: "disc op ?L" "claims s f t L'" "wp (claims s f t) post (k r) L' (x \<and> L' PENDING_BYTE = F_WRLCK)" "books s"
    "t \<in> {NO_LOCK, SHARED_LOCK, EXCLUSIVE_LOCK}" "(\<exists>g. hold (procs S p) g = EXCLUSIVE_LOCK) \<longrightarrow> x" "x \<longrightarrow> ?L PENDING_BYTE = F_WRLCK"
    using uinvD(2) [OF inv, of p] by (auto simp: p local_inv_def L')
  have compat: "compatible (L' b) (oslocks S q b)" if "q \<noteq> p" for q b
    using ok uinvD(1) [OF inv, of p q b] that
    by (cases op) (auto simp: L' eff_def permitted_def compatible_def)
  have sh: "L' b = F_UNLCK" if q: "q \<noteq> p" and gq: "ghost (procs S q)" and bS: "b \<in> SH" for q b
  proof (rule ccontr)
    assume n: "L' b \<noteq> F_UNLCK"
    have u: "?L c = F_UNLCK" if "c \<in> SH" for c using uinvD(3) [OF inv q gq that] .
    then have nh: "\<not> held ?L" using SH_nonempty by (auto simp: held_def)
    have "\<exists>t' st ln. op = SetLk t' st ln \<and> t' \<noteq> F_UNLCK \<and> inrange st ln b"
      using n u [OF bS] by (cases op) (auto simp: L' eff_def split: if_splits)
    with nh have "?L PENDING_BYTE \<noteq> F_UNLCK" using l(1) bS unfolding disc_def by blast
    moreover have "oslocks S q PENDING_BYTE = F_WRLCK" using ghost_pending [OF uinvD(2) [OF inv] gq] .
    ultimately show False using uinvD(1) [OF inv q, of PENDING_BYTE] by (auto simp: compatible_def)
  qed
  have excl: "(\<exists>g. hold (Running s f t x' a) g = EXCLUSIVE_LOCK) \<longrightarrow> x \<and> L' PENDING_BYTE = F_WRLCK" for x' a
  proof
    assume "\<exists>g. hold (Running s f t x' a) g = EXCLUSIVE_LOCK"
    then obtain g where g: "hold (Running s f t x' a) g = EXCLUSIVE_LOCK" by blast
    then have "hold (procs S p) g = EXCLUSIVE_LOCK" unfolding p by simp
    then have x using l(6) by blast
    have "claim L' (if g = f then min (lev s f) t else lev s g)" using l(2) unfolding claims_def by blast
    then have "claim L' EXCLUSIVE_LOCK" using g by simp
    with \<open>x\<close> show "x \<and> L' PENDING_BYTE = F_WRLCK" by (simp add: claim_def)
  qed
  have loc: "local_inv L' (Running s f t (x \<and> L' PENDING_BYTE = F_WRLCK) (k r))"
    unfolding local_inv_def using l(2-5) excl by simp
  define S' where "S' = S\<lparr>oslocks := (oslocks S)(p := L'), procs := (procs S)(p := Running s f t (x \<and> L' PENDING_BYTE = F_WRLCK) (k r))\<rparr>"
  have os: "oslocks S' = (oslocks S)(p := L')" and ps: "procs S' = (procs S)(p := Running s f t (x \<and> L' PENDING_BYTE = F_WRLCK) (k r))"
    by (simp_all add: S'_def)
  have gh: "ghost (procs S' p') \<Longrightarrow> ghost (procs S p')" for p' by (auto simp: ps p split: if_splits)
  have "compatible (oslocks S' p' b) (oslocks S' q b)" if "p' \<noteq> q" for p' q b
    using compat [of q b] compat [of p' b] uinvD(1) [OF inv, of p' q b] that by (auto simp: compatible_def os)
  moreover have "local_inv (oslocks S' p') (procs S' p')" for p'
    using loc uinvD(2) [OF inv, of p'] by (simp add: os ps)
  moreover have "oslocks S' q b = F_UNLCK" if "p' \<noteq> q" "ghost (procs S' p')" "b \<in> SH" for p' q b
    using that sh [of p' b] uinvD(3) [OF inv, of p' q b] gh [of p'] by (auto simp: os)
  ultimately show ?thesis unfolding uinv_def S'_def by blast
qed

lemma ustep_inv: "ustep S S' \<Longrightarrow> uinv S \<Longrightarrow> uinv S'"
proof (induction rule: ustep.induct)
  case (opened S p s f)
  then have "LI (oslocks S p) s" using uinvD(2) [of S p] by (simp add: local_inv_def)
  with opened LI_open [of "oslocks S p" s f] show ?case by (intro uinv_proc) (auto simp: local_inv_def)
next
  case (start S p s f t a)
  then have LI: "LI (oslocks S p) s" using uinvD(2) [of S p] by (simp add: local_inv_def)
  note wp = call_wp [OF start.hyps(2) LI]
  have "local_inv (oslocks S p) (Running s f t (has_excl s) a)"
  proof -
    have "books s" using LI by (simp add: LI_def)
    moreover have "has_excl s" if "hold (Running s f t (has_excl s) a) g = EXCLUSIVE_LOCK" for g
      using that booksD(5) [OF \<open>books s\<close>, of f] wp by (auto simp: has_excl_def min_def split: if_splits)
    ultimately show ?thesis
      unfolding local_inv_def using wp LI_claims [OF LI, of t f] LI_pending [OF LI] by (simp del: hold.simps) blast
  qed
  with start show ?case by (intro uinv_proc) auto
next
  case (sys S p s f t x op k r L')
  then show ?case by (intro uinv_sys)
next
  case (finish S p s f t x s')
  then have "post s' (oslocks S p) x" using uinvD(2) [of S p] by (simp add: local_inv_def)
  with finish show ?case by (intro uinv_proc) (auto simp: local_inv_def post_def)
qed

lemma ureach_inv: "ureach S \<Longrightarrow> uinv S"
proof (induction rule: ureach.induct)
  case init
  have "books \<lparr>inode = inode0, files = \<lambda>f. file0\<rparr>" by (simp add: books_def inode0_def file0_def holders_def)
  then show ?case
    by (simp add: usys0_def uinv_def compatible_def local_inv_def LI_def inode0_def file0_def claim_simps has_excl_def)
next
  case (next_step S S')
  then show ?case using ustep_inv by blast
qed

lemma hold_claim:
  assumes "local_inv L P"
  shows "claim L (hold P g)"
proof (cases P)
  case (Idle s)
  then show ?thesis using assms by (simp add: local_inv_def LI_def)
next
  case (Running s f t x a)
  then have "claims s f t L" using assms by (simp add: local_inv_def)
  then show ?thesis by (auto simp: claims_def Running)
qed

text \<open>Two connections of one process.\<close>

lemma hold_books: "local_inv L P \<Longrightarrow> \<exists>s. books s \<and> (\<forall>g. hold P g \<le> lev s g)"
proof (cases P)
  case (Idle s)
  assume "local_inv L P"
  then show ?thesis by (intro exI [of _ s]) (simp add: Idle local_inv_def LI_def)
next
  case (Running s f t x a)
  assume "local_inv L P"
  then show ?thesis by (intro exI [of _ s]) (simp add: Running local_inv_def)
qed

lemma hold_ghost: "local_inv L P \<Longrightarrow> hold P g = EXCLUSIVE_LOCK \<Longrightarrow> ghost P"
  by (cases P) (auto simp: local_inv_def has_excl_def simp del: hold.simps(2))

text \<open>C10. In every state the processes can reach, however their system calls interleave and whichever of
  them fail, two different connections, of one process or of two, never hold conflicting levels: an
  exclusive lock excludes every other lock, and there is at most one reserved lock and at most one
  pending or exclusive lock.\<close>

theorem unix_lock_exclusion:
  assumes "ureach S" "(p, f) \<noteq> (q, g)"
  shows "\<not> (hold (procs S p) f = EXCLUSIVE_LOCK \<and> hold (procs S q) g \<ge> SHARED_LOCK)
    \<and> \<not> (hold (procs S p) f = RESERVED_LOCK \<and> hold (procs S q) g = RESERVED_LOCK)
    \<and> \<not> (hold (procs S p) f \<ge> PENDING_LOCK \<and> hold (procs S q) g \<ge> PENDING_LOCK)"
proof (cases "p = q")
  case True
  with assms(2) have "g \<noteq> f" by simp
  obtain s where s: "books s" "\<And>g. hold (procs S p) g \<le> lev s g" using hold_books uinvD(2) [OF ureach_inv [OF assms(1)], of p] by blast
  have "lev s f = EXCLUSIVE_LOCK" if "hold (procs S p) f = EXCLUSIVE_LOCK" using that s(2) [of f] booksD(5) [OF s(1), of f] by simp
  then have "hold (procs S p) f = EXCLUSIVE_LOCK \<Longrightarrow> hold (procs S p) g = NO_LOCK"
    using booksD(11) [OF s(1) _ \<open>g \<noteq> f\<close>] s(2) [of g] by fastforce
  moreover have "hold (procs S p) f > SHARED_LOCK \<Longrightarrow> hold (procs S p) g \<le> SHARED_LOCK"
    using booksD(10) [OF s(1) _ \<open>g \<noteq> f\<close>] s(2) [of f] s(2) [of g] by fastforce
  ultimately show ?thesis using True by fastforce
next
  case False
  note inv = ureach_inv [OF assms(1)]
  have c: "claim (oslocks S r) (hold (procs S r) k)" for r k using hold_claim uinvD(2) [OF inv] .
  have comp: "compatible (oslocks S p b) (oslocks S q b)" for b using uinvD(1) [OF inv False] .
  have "\<not> hold (procs S q) g \<ge> SHARED_LOCK" if "hold (procs S p) f = EXCLUSIVE_LOCK"
  proof
    assume "hold (procs S q) g \<ge> SHARED_LOCK"
    then have "held (oslocks S q)" using c [of q g] by (simp add: claim_def)
    moreover have "ghost (procs S p)" using hold_ghost [OF uinvD(2) [OF inv] that] .
    ultimately show False using uinvD(3) [OF inv False] SH_nonempty unfolding held_def by blast
  qed
  moreover have "\<not> (hold (procs S p) f = RESERVED_LOCK \<and> hold (procs S q) g = RESERVED_LOCK)"
    using c [of p f] c [of q g] comp [of RESERVED_BYTE] by (auto simp: claim_def compatible_def)
  moreover have "\<not> (hold (procs S p) f \<ge> PENDING_LOCK \<and> hold (procs S q) g \<ge> PENDING_LOCK)"
    using c [of p f] c [of q g] comp [of PENDING_BYTE] by (auto simp: claim_def compatible_def)
  ultimately show ?thesis by blast
qed

lemma unix_lock_exclusion_witness:
  "\<not> (hold (procs (usys0\<lparr>procs := (procs usys0)(1 := Idle (openFile 1 \<lparr>inode = inode0, files = \<lambda>f. file0\<rparr>))\<rparr>) 1) 1 = EXCLUSIVE_LOCK
      \<and> hold (procs (usys0\<lparr>procs := (procs usys0)(1 := Idle (openFile 1 \<lparr>inode = inode0, files = \<lambda>f. file0\<rparr>))\<rparr>) 2) 1 \<ge> SHARED_LOCK)"
proof -
  have "ureach (usys0\<lparr>procs := (procs usys0)(1 := Idle (openFile 1 \<lparr>inode = inode0, files = \<lambda>f. file0\<rparr>))\<rparr>)"
    by (rule ureach.next_step [OF ureach.init ustep.opened]) (simp_all add: usys0_def file0_def)
  from unix_lock_exclusion [OF this, of 1 1 2 1] show ?thesis by simp
qed


section \<open>Outcomes\<close>







end
