(* ===== verification/MemJournal.thy ===== *)
theory MemJournal
  imports SqlitePrelude
begin

text \<open>
  Rollback journals in memory (memjournal.c, without the atomic-write options).

  The linked list of chunks is a list of byte lists, a pointer to a chunk is its index. Offsets and
  lengths are natural numbers: the code's are signed 32 and 64 bit integers, and a journal has less
  than \<open>2^31\<close> bytes in memory. Reading through a NULL pointer is \<^term>\<open>None\<close>. What \<open>sqlite3_malloc\<close> returns
  is an argument: nothing, or memory with arbitrary contents.

  The file on disk is of a type \<open>'f\<close> with the operations of its VFS as parameters.
\<close>

section \<open>State and operations\<close>

record memjrnl =
  nChunkSize :: nat
  nSpill :: int
  nSize :: nat
  pFirst :: "u8 list list"
  endOffset :: nat
  endChunk :: "nat option"
  readOffset :: nat
  readChunk :: "nat option"

datatype 'f jfile = InMemory memjrnl | OnDisk 'f

abbreviation SQLITE_OK :: nat where "SQLITE_OK \<equiv> 0"
abbreviation SQLITE_IOERR_NOMEM :: nat where "SQLITE_IOERR_NOMEM \<equiv> 3082"

type_synonym mallocs = "u8 list option list"

fun malloc_chunk :: "nat \<Rightarrow> mallocs \<Rightarrow> u8 list option \<times> mallocs" where
  "malloc_chunk n [] = (Some (replicate n 0), [])"
| "malloc_chunk n (m # ms) = (map_option (\<lambda>junk. take n (junk @ replicate n 0)) m, ms)"

text \<open>The chunk with offset \<open>iOfst\<close>, from the start of the list.\<close>

function seekLoop :: "u8 list list \<Rightarrow> nat \<Rightarrow> nat \<Rightarrow> nat \<Rightarrow> nat \<Rightarrow> nat" where
  "seekLoop cs n iOfst k iOff = (if k < length cs \<and> iOff + n \<le> iOfst then seekLoop cs n iOfst (k + 1) (iOff + n) else k)"
  by pat_completeness auto
termination by (relation "measure (\<lambda>(cs, n, iOfst, k, iOff). length cs - k)") auto

text \<open>The loop that copies; the result is the bytes and the chunk it ends at.\<close>

function readLoop :: "u8 list list \<Rightarrow> nat \<Rightarrow> nat \<Rightarrow> nat \<Rightarrow> int \<Rightarrow> (u8 list \<times> nat option) option" where
  "readLoop cs n k iChunkOffset nRead =
     (if k \<ge> length cs then None
      else
        let iSpace = n - iChunkOffset;
            nCopy = (if nRead < int iSpace then nat nRead else iSpace);
            out = take nCopy (drop iChunkOffset (cs ! k));
            nRead = nRead - int iSpace
        in if nRead \<ge> 0 then
             (if k + 1 < length cs then
                (if nRead > 0 then do { (bs, p) \<leftarrow> readLoop cs n (k + 1) 0 nRead; Some (out @ bs, p) }
                 else Some (out, Some (k + 1)))
              else Some (out, None))
           else Some (out, Some k))"
  by pat_completeness auto
termination by (relation "measure (\<lambda>(cs, n, k, off, r). length cs - k)") auto

declare seekLoop.simps [simp del] readLoop.simps [simp del]

definition memjrnlRead :: "memjrnl \<Rightarrow> nat \<Rightarrow> nat \<Rightarrow> (u8 list \<times> memjrnl) option" where
  "memjrnlRead p iAmt iOfst = do {
     k \<leftarrow> (if readOffset p \<noteq> iOfst \<or> iOfst = 0 then Some (seekLoop (pFirst p) (nChunkSize p) iOfst 0 0)
           else readChunk p);
     (bs, c) \<leftarrow> readLoop (pFirst p) (nChunkSize p) k (iOfst mod nChunkSize p) (int iAmt);
     Some (bs, p\<lparr>readOffset := (if c \<noteq> None then iOfst + iAmt else 0), readChunk := c\<rparr>)
   }"

definition memjrnlFreeChunks :: "memjrnl \<Rightarrow> memjrnl" where
  "memjrnlFreeChunks p = p\<lparr>pFirst := []\<rparr>"

text \<open>Writing the chunks to the new file: \<open>wr\<close> is \<open>sqlite3OsWrite\<close>, with its result code.\<close>

fun createLoop :: "('f \<Rightarrow> u8 list \<Rightarrow> nat \<Rightarrow> nat \<times> 'f) \<Rightarrow> nat \<Rightarrow> u8 list list \<Rightarrow> nat \<Rightarrow> nat \<Rightarrow> 'f \<Rightarrow> nat \<times> 'f" where
  "createLoop wr endp [] nChunk iOff fd = (SQLITE_OK, fd)"
| "createLoop wr endp (c # cs) nChunk iOff fd =
     (let nChunk = (if iOff + nChunk > endp then endp - iOff else nChunk);
          (rc, fd) = wr fd (take nChunk c) iOff
      in if rc \<noteq> SQLITE_OK then (rc, fd) else createLoop wr endp cs nChunk (iOff + nChunk) fd)"

definition memjrnlCreateFile :: "nat \<times> 'f \<Rightarrow> ('f \<Rightarrow> u8 list \<Rightarrow> nat \<Rightarrow> nat \<times> 'f) \<Rightarrow> memjrnl \<Rightarrow> nat \<times> 'f jfile" where
  "memjrnlCreateFile opn wr p =
     (let (rc, fd) = opn in
      if rc = SQLITE_OK then
        (let (rc, fd) = createLoop wr (endOffset p) (pFirst p) (nChunkSize p) 0 fd in
         if rc = SQLITE_OK then (rc, OnDisk fd) else (rc, InMemory p))
      else (rc, InMemory p))"

text \<open>The loop that appends to the chunks.\<close>

definition chunkPut :: "u8 list \<Rightarrow> nat \<Rightarrow> u8 list \<Rightarrow> u8 list" where
  "chunkPut c off bs = take off c @ bs @ drop (off + length bs) c"

definition newChunk :: "memjrnl \<Rightarrow> u8 list \<Rightarrow> memjrnl" where
  "newChunk p new =
     (case endChunk p of
        None \<Rightarrow> p\<lparr>pFirst := [new], endChunk := Some 0\<rparr>
      | Some k \<Rightarrow> p\<lparr>pFirst := take (k + 1) (pFirst p) @ [new], endChunk := Some (k + 1)\<rparr>)"

function writeLoop :: "mallocs \<Rightarrow> memjrnl \<Rightarrow> u8 list \<Rightarrow> (nat \<times> memjrnl) option" where
  "writeLoop al p zWrite =
     (if zWrite = [] then Some (SQLITE_OK, p)
      else if nChunkSize p = 0 then None
      else
        let iChunkOffset = endOffset p mod nChunkSize p;
            iSpace = min (length zWrite) (nChunkSize p - iChunkOffset);
            (m, al) = (if iChunkOffset = 0 then malloc_chunk (nChunkSize p) al else (Some [], al))
        in case m of
             None \<Rightarrow> Some (SQLITE_IOERR_NOMEM, p)
           | Some new \<Rightarrow>
               let p = (if iChunkOffset = 0 then newChunk p new else p) in
               do {
                 k \<leftarrow> endChunk p;
                 if k \<ge> length (pFirst p) then None
                 else writeLoop al
                   (p\<lparr>pFirst := (pFirst p)[k := chunkPut (pFirst p ! k) iChunkOffset (take iSpace zWrite)],
                      endOffset := endOffset p + iSpace\<rparr>)
                   (drop iSpace zWrite)
               })"
  by pat_completeness auto
termination
  by (relation "measure (\<lambda>(al, p, z). length z)") (auto simp: min_def split: if_splits)

declare writeLoop.simps [simp del]

definition memjrnlWrite ::
  "nat \<times> 'f \<Rightarrow> ('f \<Rightarrow> u8 list \<Rightarrow> nat \<Rightarrow> nat \<times> 'f) \<Rightarrow> mallocs \<Rightarrow> memjrnl \<Rightarrow> u8 list \<Rightarrow> nat \<Rightarrow> (nat \<times> 'f jfile) option"
where
  "memjrnlWrite opn wr al p zBuf iOfst =
     (if nSpill p > 0 \<and> int (length zBuf + iOfst) > nSpill p then
        (case memjrnlCreateFile opn wr p of
           (rc, OnDisk fd) \<Rightarrow> let (rc, fd) = wr fd zBuf iOfst in Some (rc, OnDisk fd)
         | (rc, InMemory p) \<Rightarrow> Some (rc, InMemory p))
      else do {
        (rc, p) \<leftarrow> writeLoop al p zBuf;
        if rc \<noteq> SQLITE_OK then Some (rc, InMemory p)
        else Some (SQLITE_OK, InMemory (p\<lparr>nSize := length zBuf + iOfst\<rparr>))
      })"

definition memjrnlTruncate :: "memjrnl \<Rightarrow> nat \<Rightarrow> memjrnl" where
  "memjrnlTruncate p sz =
     (if sz = 0 then
        (memjrnlFreeChunks p)\<lparr>nSize := 0, endChunk := None, endOffset := 0, readChunk := None, readOffset := 0\<rparr>
      else p)"

definition memjrnlClose :: "memjrnl \<Rightarrow> memjrnl" where
  "memjrnlClose p = memjrnlFreeChunks p"

definition memjrnlSync :: "memjrnl \<Rightarrow> nat" where
  "memjrnlSync p = SQLITE_OK"

definition memjrnlFileSize :: "memjrnl \<Rightarrow> nat" where
  "memjrnlFileSize p = endOffset p"

definition sqlite3JournalOpen :: "nat \<times> 'f \<Rightarrow> int \<Rightarrow> nat \<times> 'f jfile" where
  "sqlite3JournalOpen opn spill =
     (if spill = 0 then (let (rc, fd) = opn in (rc, OnDisk fd))
      else (SQLITE_OK, InMemory
        \<lparr>nChunkSize = (if spill > 0 then nat spill else 8 + 1024 - 16), nSpill = spill, nSize = 0, pFirst = [],
         endOffset = 0, endChunk = None, readOffset = 0, readChunk = None\<rparr>))"

definition sqlite3MemJournalOpen :: "nat \<times> 'f \<Rightarrow> nat \<times> 'f jfile" where
  "sqlite3MemJournalOpen opn = sqlite3JournalOpen opn (- 1)"

fun sqlite3JournalIsInMemory :: "'f jfile \<Rightarrow> bool" where
  "sqlite3JournalIsInMemory (InMemory p) = True"
| "sqlite3JournalIsInMemory (OnDisk fd) = False"


section \<open>Invariant and contents\<close>

definition jinv :: "memjrnl \<Rightarrow> bool" where
  "jinv p \<longleftrightarrow> nChunkSize p > 0 \<and> (\<forall>c\<in>set (pFirst p). length c = nChunkSize p)
     \<and> endOffset p \<le> nChunkSize p * length (pFirst p) \<and> nChunkSize p * length (pFirst p) < endOffset p + nChunkSize p
     \<and> endChunk p = (if pFirst p = [] then None else Some (length (pFirst p) - 1))
     \<and> (readOffset p \<noteq> 0 \<longrightarrow> readChunk p = Some (readOffset p div nChunkSize p))"

definition content :: "memjrnl \<Rightarrow> u8 list" where
  "content p = take (endOffset p) (concat (pFirst p))"

lemma length_concat_same: "\<forall>c\<in>set cs. length c = n \<Longrightarrow> length (concat cs) = n * length cs"
  by (induction cs) auto

lemma concat_drop: "\<forall>c\<in>set cs. length c = n \<Longrightarrow> concat (drop k cs) = drop (k * n) (concat cs)"
proof (induction cs arbitrary: k)
  case (Cons c cs)
  then show ?case by (cases k) (auto simp: drop_append)
qed simp

lemma length_content: "jinv p \<Longrightarrow> length (content p) = endOffset p"
  using length_concat_same [of "pFirst p" "nChunkSize p"] by (auto simp: content_def jinv_def)

text \<open>Reading.\<close>

lemma drop_chunk:
  assumes "\<forall>c\<in>set cs. length c = n" "k < length cs" "off \<le> n"
  shows "drop (k * n + off) (concat cs) = drop off (cs ! k) @ concat (drop (Suc k) cs)"
proof -
  have "concat (drop k cs) = cs ! k @ concat (drop (Suc k) cs)"
    using assms(2) by (simp add: Cons_nth_drop_Suc [symmetric])
  moreover have "length (cs ! k) = n" using assms by simp
  moreover have "drop (k * n + off) (concat cs) = drop off (concat (drop k cs))"
    using concat_drop [OF assms(1), of k] by (simp add: add.commute)
  ultimately show ?thesis using assms(3) by simp
qed

lemma seekLoop_eq:
  assumes "0 < n" "k * n \<le> ofst" "ofst < n * length cs"
  shows "seekLoop cs n ofst k (k * n) = ofst div n"
  using assms(2)
proof (induction "ofst div n - k" arbitrary: k)
  case 0
  have "k \<le> ofst div n" using 0(2) assms(1) by (simp add: less_eq_div_iff_mult_less_eq)
  with 0 have k: "k = ofst div n" by simp
  have "ofst < k * n + n" unfolding k using assms(1) by (metis add.commute dividend_less_div_times mult.commute)
  then have "seekLoop cs n ofst k (k * n) = k" by (subst seekLoop.simps) simp
  with k show ?case by simp
next
  case (Suc d)
  then have "Suc k \<le> ofst div n" by simp
  then have le: "Suc k * n \<le> ofst" using assms(1) by (simp add: less_eq_div_iff_mult_less_eq)
  then have "Suc k * n < length cs * n" using assms(3) by (metis mult.commute order_le_less_trans)
  then have "k < length cs" unfolding mult_less_cancel2 by simp
  then have "seekLoop cs n ofst k (k * n) = seekLoop cs n ofst (Suc k) (Suc k * n)"
    using le by (simp add: seekLoop.simps [of cs n ofst k] add.commute)
  with Suc.hyps(1) [of "Suc k"] Suc.hyps(2) le show ?case by simp
qed

lemma readLoop_eq:
  assumes n: "0 < n" "\<forall>c\<in>set cs. length c = n"
  shows "k < length cs \<Longrightarrow> off < n \<Longrightarrow> 0 < r \<Longrightarrow> k * n + off + r \<le> n * length cs \<Longrightarrow>
    \<exists>c. readLoop cs n k off (int r) = Some (take r (drop (k * n + off) (concat cs)), c)
      \<and> (c \<noteq> None \<longrightarrow> c = Some ((k * n + off + r) div n))"
proof (induction "length cs - k" arbitrary: k off r)
  case 0
  then show ?case by simp
next
  case (Suc d)
  note dc = drop_chunk [OF n(2) Suc.prems(1), of off]
  have lk: "length (cs ! k) = n" using n(2) Suc.prems(1) by simp
  consider "r < n - off" | "r = n - off" | "r > n - off" by linarith
  then show ?case
  proof cases
    case 1
    then have "(k * n + off + r) div n = k" by (intro div_nat_eqI) (auto simp: algebra_simps)
    moreover have "readLoop cs n k off (int r) = Some (take r (drop off (cs ! k)), Some k)"
      using 1 Suc.prems by (simp add: readLoop.simps [of cs n k off] Let_def of_nat_diff)
    ultimately show ?thesis using 1 dc lk Suc.prems by simp
  next
    case 2
    then have eq: "k * n + off + r = Suc k * n" using Suc.prems by simp
    have "(k * n + off + r) div n = Suc k" unfolding eq by (rule nonzero_mult_div_cancel_right) (use n(1) in simp)
    moreover have "readLoop cs n k off (int r) = Some (drop off (cs ! k), if Suc k < length cs then Some (Suc k) else None)"
      using 2 Suc.prems lk by (simp add: readLoop.simps [of cs n k off] Let_def of_nat_diff)
    ultimately show ?thesis using 2 dc lk Suc.prems by simp
  next
    case 3
    let ?r = "r - (n - off)"
    have sum: "Suc k * n + ?r = k * n + off + r" using 3 Suc.prems by simp
    have k1: "Suc k < length cs"
    proof (rule ccontr)
      assume "\<not> Suc k < length cs"
      then have "length cs = Suc k" using Suc.prems(1) by simp
      with Suc.prems(4) sum 3 show False by simp
    qed
    obtain c where c: "readLoop cs n (Suc k) 0 (int ?r) = Some (take ?r (drop (Suc k * n + 0) (concat cs)), c)"
      "c \<noteq> None \<longrightarrow> c = Some ((Suc k * n + 0 + ?r) div n)"
      using Suc.hyps(1) [of "Suc k" 0 ?r] Suc.hyps(2) k1 n(1) 3 Suc.prems(4) sum by force
    have ri: "int r - int (n - off) = int ?r" "\<not> int r < int (n - off)" "0 < int ?r" using 3 by simp_all
    have "readLoop cs n k off (int r) = Some (drop off (cs ! k) @ take ?r (drop (Suc k * n) (concat cs)), c)"
      unfolding readLoop.simps [of cs n k off] Let_def ri(1)
      using Suc.prems(1,2) k1 lk c(1) ri(2,3) by (simp del: of_nat_diff mult_Suc)
    moreover have "take r (drop (k * n + off) (concat cs)) = drop off (cs ! k) @ take ?r (drop (Suc k * n) (concat cs))"
    proof -
      have "length (drop off (cs ! k)) = n - off" using lk by simp
      then show ?thesis
        using 3 dc Suc.prems(2) unfolding concat_drop [OF n(2), of "Suc k", symmetric] by (simp add: less_imp_le)
    qed
    moreover have "Suc k * n + 0 + ?r = k * n + off + r" using sum by (simp only: add_0_right)
    ultimately show ?thesis using c(2) by (metis (no_types))
  qed
qed

lemma memjrnlRead_ok:
  assumes j: "jinv p" and a: "0 < amt" "ofst + amt \<le> endOffset p"
  shows "\<exists>p'. memjrnlRead p amt ofst = Some (take amt (drop ofst (content p)), p') \<and> jinv p' \<and> content p' = content p \<and> nSpill p' = nSpill p"
proof -
  let ?n = "nChunkSize p" and ?cs = "pFirst p"
  have n: "0 < ?n" "\<forall>c\<in>set ?cs. length c = ?n" "endOffset p \<le> ?n * length ?cs" using j by (auto simp: jinv_def)
  have o: "ofst < ?n * length ?cs" using a n(3) by linarith
  then have k: "ofst div ?n < length ?cs" by (simp add: less_mult_imp_div_less mult.commute)
  have sk: "(if readOffset p \<noteq> ofst \<or> ofst = 0 then Some (seekLoop ?cs ?n ofst 0 0) else readChunk p) = Some (ofst div ?n)"
    using seekLoop_eq [OF n(1), of 0 ofst ?cs] o j by (auto simp: jinv_def)
  have eq: "ofst div ?n * ?n + ofst mod ?n = ofst" by simp
  obtain c where c: "readLoop ?cs ?n (ofst div ?n) (ofst mod ?n) (int amt) = Some (take amt (drop ofst (concat ?cs)), c)"
    "c \<noteq> None \<longrightarrow> c = Some ((ofst + amt) div ?n)"
    using readLoop_eq [OF n(1,2) k, of "ofst mod ?n" amt] n a unfolding eq by auto
  have "take amt (drop ofst (content p)) = take amt (drop ofst (concat ?cs))"
    using a by (simp add: content_def drop_take min_def)
  then show ?thesis
    using c sk j by (auto simp: memjrnlRead_def jinv_def content_def)
qed

text \<open>Writing.\<close>

lemma chunkPut_length: "off + length bs \<le> length c \<Longrightarrow> length (chunkPut c off bs) = length c"
  by (simp add: chunkPut_def)

lemma malloc_chunk_length: "malloc_chunk n al = (Some new, al') \<Longrightarrow> length new = n"
  by (cases "(n, al)" rule: malloc_chunk.cases) auto

text \<open>One round of the loop: \<open>ds\<close> are the full chunks, \<open>c\<close> the chunk written to.\<close>

lemma put_inv:
  assumes n: "0 < n" "\<forall>d\<in>set ds. length d = n" "length c = n" "off + length bs \<le> n" "bs \<noteq> []"
    and q: "nChunkSize q = n" "pFirst q = ds @ [chunkPut c off bs]" "endOffset q = n * length ds + off + length bs"
      "endChunk q = Some (length ds)" "readOffset q \<noteq> 0 \<longrightarrow> readChunk q = Some (readOffset q div n)"
  shows "jinv q \<and> content q = concat ds @ take off c @ bs"
proof -
  have l: "length (chunkPut c off bs) = n" using n by (simp add: chunkPut_length)
  have "content q = take (n * length ds + (off + length bs)) (concat ds @ chunkPut c off bs)"
    by (simp add: content_def q add.assoc)
  also have "\<dots> = concat ds @ take (off + length bs) (chunkPut c off bs)"
    using length_concat_same [OF n(2)] by simp
  also have "take (off + length bs) (chunkPut c off bs) = take off c @ bs" using n by (simp add: chunkPut_def)
  finally have "content q = concat ds @ take off c @ bs" by simp
  moreover have "jinv q"
    using n q l by (auto simp: jinv_def algebra_simps)
  ultimately show ?thesis by blast
qed

lemma write_round:
  assumes j: "jinv p" and z: "z \<noteq> []" and off: "off = endOffset p mod nChunkSize p"
    and sp: "sp = min (length z) (nChunkSize p - off)" and new: "off = 0 \<Longrightarrow> length new = nChunkSize p"
    and p1: "p1 = (if off = 0 then newChunk p new else p)"
  shows "\<exists>k. endChunk p1 = Some k \<and> k < length (pFirst p1) \<and>
    (let q = p1\<lparr>pFirst := (pFirst p1)[k := chunkPut (pFirst p1 ! k) off (take sp z)], endOffset := endOffset p1 + sp\<rparr>
     in jinv q \<and> content q = content p @ take sp z \<and> nSpill q = nSpill p)"
proof -
  let ?n = "nChunkSize p" and ?cs = "pFirst p"
  have n: "0 < ?n" "\<forall>c\<in>set ?cs. length c = ?n" "endOffset p \<le> ?n * length ?cs" "?n * length ?cs < endOffset p + ?n"
    "endChunk p = (if ?cs = [] then None else Some (length ?cs - 1))" "readOffset p \<noteq> 0 \<longrightarrow> readChunk p = Some (readOffset p div ?n)"
    using j by (auto simp: jinv_def)
  have offn: "off < ?n" using n(1) off by simp
  then have spn: "off + length (take sp z) \<le> ?n" "take sp z \<noteq> []" using z sp by auto
  have lz: "length (take sp z) = sp" using sp by simp
  show ?thesis
  proof (cases "off = 0")
    case True
    then have "?n dvd endOffset p" using off by (simp add: mod_eq_0_iff_dvd)
    then obtain m where m: "endOffset p = ?n * m" by (auto simp: dvd_def)
    have "?n * m \<le> ?n * length ?cs" "?n * length ?cs < ?n * (m + 1)" using n(3,4) m by simp_all
    then have "m \<le> length ?cs" "length ?cs < m + 1" using n(1) by (metis mult_le_cancel1, metis mult_less_cancel1)
    then have e: "endOffset p = ?n * length ?cs" using m by simp
    have cs: "p1 = p\<lparr>pFirst := ?cs @ [new], endChunk := Some (length ?cs)\<rparr>"
      using n(5) True by (cases "?cs = []") (simp_all add: p1 newChunk_def)
    have "content p = concat ?cs" using e length_concat_same [OF n(2)] by (simp add: content_def)
    then show ?thesis
      using put_inv [OF n(1,2) new [OF True] spn, of "p1\<lparr>pFirst := (pFirst p1)[length ?cs := chunkPut (pFirst p1 ! length ?cs) off (take sp z)], endOffset := endOffset p1 + sp\<rparr>"]
      using True e n(6) lz by (simp add: cs Let_def)
  next
    case False
    then have "?cs \<noteq> []" using n off by (cases ?cs) auto
    then obtain ds c where dc: "?cs = ds @ [c]" by (cases ?cs rule: rev_cases) auto
    have le: "?n * length ds \<le> endOffset p" "endOffset p \<le> ?n * length ds + ?n" using n(3,4) by (simp_all add: dc algebra_simps)
    have "endOffset p \<noteq> ?n * length ds + ?n" using False off by auto
    then have "endOffset p - ?n * length ds < ?n" using le by simp
    moreover have "endOffset p mod ?n = (endOffset p - ?n * length ds) mod ?n" using le(1)
      by (metis le_add_diff_inverse mod_mult_self4)
    ultimately have e: "endOffset p = ?n * length ds + off" using off le(1) by simp
    have p1p: "p1 = p" using False by (simp add: p1)
    have "content p = concat ds @ take off c" using e length_concat_same [of ds ?n] n(2) by (simp add: content_def dc)
    then show ?thesis
      using put_inv [OF n(1) _ _ spn, of ds c "p\<lparr>pFirst := (pFirst p)[length ds := chunkPut (pFirst p ! length ds) off (take sp z)], endOffset := endOffset p + sp\<rparr>"]
      using e n lz by (simp add: p1p dc Let_def)
  qed
qed

lemma writeLoop_ok:
  "jinv p \<Longrightarrow> \<exists>rc q k. writeLoop al p z = Some (rc, q) \<and> jinv q \<and> content q = content p @ take k z \<and> nSpill q = nSpill p
    \<and> (rc = SQLITE_OK \<longrightarrow> take k z = z) \<and> (al = [] \<longrightarrow> rc = SQLITE_OK)"
proof (induction z arbitrary: al p rule: length_induct)
  case (1 z)
  show ?case
  proof (cases "z = []")
    case True
    with 1 have "writeLoop al p z = Some (SQLITE_OK, p)" by (simp add: writeLoop.simps [of al p "[]"])
    with 1 True show ?thesis by (intro exI [of _ SQLITE_OK] exI [of _ p] exI [of _ 0]) simp
  next
    case False
    define off where "off = endOffset p mod nChunkSize p"
    define sp where "sp = min (length z) (nChunkSize p - off)"
    have n: "nChunkSize p > 0" using 1(2) by (simp add: jinv_def)
    obtain m al' where m: "(if off = 0 then malloc_chunk (nChunkSize p) al else (Some [], al)) = (m, al')" by fastforce
    have al: "al = [] \<Longrightarrow> al' = [] \<and> m \<noteq> None" using m by (auto split: if_splits)
    have eq: "writeLoop al p z = (case m of None \<Rightarrow> Some (SQLITE_IOERR_NOMEM, p)
      | Some new \<Rightarrow> let p = (if off = 0 then newChunk p new else p) in
               do {
                 k \<leftarrow> endChunk p;
                 if k \<ge> length (pFirst p) then None
                 else writeLoop al'
                   (p\<lparr>pFirst := (pFirst p)[k := chunkPut (pFirst p ! k) off (take sp z)], endOffset := endOffset p + sp\<rparr>)
                   (drop sp z)
               })"
      unfolding writeLoop.simps [of al p z] Let_def off_def [symmetric] sp_def [symmetric] m
      using False n by simp
    show ?thesis
    proof (cases m)
      case None
      with 1(2) al show ?thesis unfolding eq by (intro exI [of _ SQLITE_IOERR_NOMEM] exI [of _ p] exI [of _ 0]) auto
    next
      case (Some new)
      define p1 where "p1 = (if off = 0 then newChunk p new else p)"
      have "off = 0 \<Longrightarrow> length new = nChunkSize p" using m Some malloc_chunk_length by fastforce
      from write_round [OF 1(2) False off_def sp_def this p1_def]
      obtain k q where k: "endChunk p1 = Some k" "k < length (pFirst p1)"
        "q = p1\<lparr>pFirst := (pFirst p1)[k := chunkPut (pFirst p1 ! k) off (take sp z)], endOffset := endOffset p1 + sp\<rparr>"
        "jinv q" "content q = content p @ take sp z" "nSpill q = nSpill p" by (auto simp: Let_def)
      have "off < nChunkSize p" using n by (simp add: off_def)
      then have "0 < sp" using False by (simp add: sp_def)
      then have "length (drop sp z) < length z" using False by simp
      with 1(1) [rule_format, OF this k(4), of al'] obtain rc q' i where q': "writeLoop al' q (drop sp z) = Some (rc, q')" "jinv q'"
        "content q' = content q @ take i (drop sp z)" "nSpill q' = nSpill q" "rc = SQLITE_OK \<longrightarrow> take i (drop sp z) = drop sp z"
        "al' = [] \<longrightarrow> rc = SQLITE_OK" by blast
      have w: "writeLoop al p z = Some (rc, q')"
        unfolding eq Some Let_def using k(1,2) q'(1) by (simp add: p1_def [symmetric] k(3) [symmetric])
      have t: "take (sp + i) z = take sp z @ take i (drop sp z)" by (simp add: take_add)
      then have ok: "rc = SQLITE_OK \<longrightarrow> take (sp + i) z = z" using q'(5) by simp
      have cont: "content q' = content p @ take (sp + i) z" unfolding q'(3) k(5) t by simp
      have sp': "nSpill q' = nSpill p" using q'(4) k(6) by simp
      have al2: "al = [] \<longrightarrow> rc = SQLITE_OK" using al q'(6) by blast
      show ?thesis using w q'(2) cont sp' ok al2 by blast
    qed
  qed
qed

text \<open>
  Moving to disk. The laws of the VFS: a write at an offset inside or at the end of the file, when it
  reports success, replaces the bytes there and extends the file.
\<close>

definition vfs_write :: "('f \<Rightarrow> u8 list) \<Rightarrow> ('f \<Rightarrow> u8 list \<Rightarrow> nat \<Rightarrow> nat \<times> 'f) \<Rightarrow> bool" where
  "vfs_write fc wr \<longleftrightarrow> (\<forall>fd bs off fd'. off \<le> length (fc fd) \<longrightarrow> wr fd bs off = (SQLITE_OK, fd') \<longrightarrow>
     fc fd' = take off (fc fd) @ bs @ drop (off + length bs) (fc fd))"

lemma vfs_append: "vfs_write fc wr \<Longrightarrow> wr fd bs (length (fc fd)) = (SQLITE_OK, fd') \<Longrightarrow> fc fd' = fc fd @ bs"
  unfolding vfs_write_def by (elim allE [of _ fd] allE [of _ bs] allE [of _ "length (fc fd)"] allE [of _ fd']) simp

lemma createLoop_ok:
  assumes w: "vfs_write fc wr" and n: "0 < n"
  shows "\<forall>c\<in>set cs. length c = n \<Longrightarrow> iOff = length (fc fd) \<Longrightarrow> endp \<le> iOff + n * length cs \<Longrightarrow>
    iOff + n * length cs < endp + n \<Longrightarrow> createLoop wr endp cs n iOff fd = (SQLITE_OK, fd') \<Longrightarrow>
    fc fd' = fc fd @ take (endp - iOff) (concat cs)"
proof (induction cs arbitrary: iOff fd)
  case Nil
  then show ?case by simp
next
  case (Cons c cs)
  have lc: "length c = n" using Cons.prems(1) by simp
  show ?case
  proof (cases "iOff + n > endp")
    case True
    then have "cs = []" using Cons.prems(4) n by (cases cs) auto
    obtain rc fd1 where "wr fd (take (endp - iOff) c) iOff = (rc, fd1)" by fastforce
    with True Cons.prems(2,5) w \<open>cs = []\<close> show ?thesis
      by (auto simp: Let_def vfs_append split: if_splits)
  next
    case False
    obtain rc fd1 where r: "wr fd c iOff = (rc, fd1)" by fastforce
    with False Cons.prems(5) lc have rc: "rc = SQLITE_OK" "createLoop wr endp cs n (iOff + n) fd1 = (SQLITE_OK, fd')"
      by (auto simp: Let_def split: if_splits)
    have f1: "fc fd1 = fc fd @ c" using vfs_append [OF w] r rc(1) Cons.prems(2) by simp
    have "fc fd' = fc fd1 @ take (endp - (iOff + n)) (concat cs)"
      using Cons.prems rc(2) lc f1 by (intro Cons.IH) auto
    moreover have "take (endp - iOff) (c @ concat cs) = c @ take (endp - (iOff + n)) (concat cs)"
      using False lc by simp
    ultimately show ?thesis using f1 by simp
  qed
qed

lemma memjrnlCreateFile_ok:
  assumes j: "jinv p" and w: "vfs_write fc wr" and o: "fst opn = SQLITE_OK \<longrightarrow> fc (snd opn) = []"
  shows "\<exists>rc r. memjrnlCreateFile opn wr p = (rc, r)
    \<and> (if rc = SQLITE_OK then \<exists>fd. r = OnDisk fd \<and> fc fd = content p else r = InMemory p)"
proof -
  obtain rc fd where opn: "opn = (rc, fd)" by (cases opn)
  obtain rc' fd' where c: "createLoop wr (endOffset p) (pFirst p) (nChunkSize p) 0 fd = (rc', fd')" by fastforce
  have "rc' = SQLITE_OK \<Longrightarrow> rc = SQLITE_OK \<Longrightarrow> fc fd' = content p"
    using createLoop_ok [OF w, of "nChunkSize p" "pFirst p" 0 fd "endOffset p" fd'] j o opn c
    by (auto simp: jinv_def content_def)
  then show ?thesis using c opn by (auto simp: memjrnlCreateFile_def)
qed

text \<open>Appending to a journal in memory never follows a NULL pointer. On SQLITE_OK its contents, in memory or
  on disk, are the old ones and the bytes. When an allocation fails they are the old ones and some
  of the first bytes; when the file cannot be created or filled, the journal stays as it was.\<close>

theorem memjrnlWrite_correct:
  assumes "jinv p" "vfs_write fc wr" "fst opn = SQLITE_OK \<longrightarrow> fc (snd opn) = []"
  shows "\<exists>rc r. memjrnlWrite opn wr al p bs (length (content p)) = Some (rc, r)
    \<and> (case r of
         InMemory q \<Rightarrow> jinv q \<and> (\<exists>k. content q = content p @ take k bs) \<and> (rc = SQLITE_OK \<longrightarrow> content q = content p @ bs)
           \<and> (nSpill p > 0 \<and> int (length bs + length (content p)) > nSpill p \<longrightarrow> rc \<noteq> SQLITE_OK \<and> q = p)
       | OnDisk fd \<Rightarrow> rc = SQLITE_OK \<longrightarrow> fc fd = content p @ bs)"
proof (cases "nSpill p > 0 \<and> int (length bs + length (content p)) > nSpill p")
  case True
  obtain rc r where c: "memjrnlCreateFile opn wr p = (rc, r)"
    "if rc = SQLITE_OK then \<exists>fd. r = OnDisk fd \<and> fc fd = content p else r = InMemory p"
    using memjrnlCreateFile_ok [OF assms] by blast
  show ?thesis
  proof (cases "rc = SQLITE_OK")
    case ok: True
    with c obtain fd where fd: "r = OnDisk fd" "fc fd = content p" by auto
    obtain rc' fd' where w: "wr fd bs (length (content p)) = (rc', fd')" by fastforce
    with vfs_append [OF assms(2), of fd bs fd'] fd(2) have "rc' = SQLITE_OK \<longrightarrow> fc fd' = content p @ bs" by simp
    with True c(1) ok fd w show ?thesis by (simp add: memjrnlWrite_def)
  next
    case False
    with True c assms(1) show ?thesis by (auto simp: memjrnlWrite_def intro: exI [of _ 0])
  qed
next
  case False
  obtain rc q k where q: "writeLoop al p bs = Some (rc, q)" "jinv q" "content q = content p @ take k bs"
    "rc = SQLITE_OK \<longrightarrow> take k bs = bs" using writeLoop_ok [OF assms(1)] by blast
  have "jinv (q\<lparr>nSize := v\<rparr>)" "content (q\<lparr>nSize := v\<rparr>) = content q" for v
    using q(2) by (simp_all add: jinv_def content_def)
  with False q show ?thesis by (auto simp: memjrnlWrite_def intro: exI [of _ "length bs"])
qed

lemma memjrnlWrite_correct_witness:
  "\<exists>p rc r. snd (sqlite3JournalOpen (0, []) 4) = InMemory p
    \<and> memjrnlWrite (0, []) (\<lambda>fd bs off. (0, take off fd @ bs @ drop (off + length bs) fd)) [] p [1, 2, 3] (length (content p)) = Some (rc, r)
    \<and> (case r of InMemory q \<Rightarrow> jinv q | OnDisk fd \<Rightarrow> True)"
proof -
  let ?p = "\<lparr>nChunkSize = 4, nSpill = 4, nSize = 0, pFirst = [], endOffset = 0, endChunk = None, readOffset = 0, readChunk = None\<rparr>"
  let ?wr = "\<lambda>fd bs off. (0, take off fd @ bs @ drop (off + length bs) fd)"
  have j: "jinv ?p" by (simp add: jinv_def)
  have v: "vfs_write (\<lambda>fd. fd) ?wr" by (simp add: vfs_write_def)
  have o: "fst (0 :: nat, [] :: u8 list) = SQLITE_OK \<longrightarrow> snd (0 :: nat, [] :: u8 list) = []" by simp
  obtain rc r where w: "memjrnlWrite (0, []) ?wr [] ?p [1, 2, 3] (length (content ?p)) = Some (rc, r)"
    and c: "case r of InMemory q \<Rightarrow> jinv q \<and> (\<exists>k. content q = content ?p @ take k [1, 2, 3])
        \<and> (rc = SQLITE_OK \<longrightarrow> content q = content ?p @ [1, 2, 3])
        \<and> (nSpill ?p > 0 \<and> int (length [1::u8, 2, 3] + length (content ?p)) > nSpill ?p \<longrightarrow> rc \<noteq> SQLITE_OK \<and> q = ?p)
      | OnDisk fd \<Rightarrow> rc = SQLITE_OK \<longrightarrow> fd = content ?p @ [1, 2, 3]"
    using memjrnlWrite_correct [OF j v o, of "[]" "[1, 2, 3]"] by (elim exE conjE) (rule that)
  have "case r of InMemory q \<Rightarrow> jinv q | OnDisk fd \<Rightarrow> True" using c by (cases r) simp_all
  with w have "\<exists>rc r. memjrnlWrite (0, []) ?wr [] ?p [1, 2, 3] (length (content ?p)) = Some (rc, r)
    \<and> (case r of InMemory q \<Rightarrow> jinv q | OnDisk fd \<Rightarrow> True)" by blast
  moreover have "snd (sqlite3JournalOpen (0, []) 4) = InMemory ?p" by (simp add: sqlite3JournalOpen_def)
  ultimately show ?thesis by blast
qed


section \<open>Refinement\<close>

text \<open>A journal is a sequence of bytes that is appended to, read and truncated.\<close>

datatype jop = JWrite "u8 list" nat | JRead nat nat | JTruncate | JSize

datatype jres = JR nat "u8 list" nat

fun jabs :: "u8 list \<Rightarrow> jop \<Rightarrow> jres \<times> u8 list" where
  "jabs a (JWrite bs off) = (JR SQLITE_OK [] 0, a @ bs)"
| "jabs a (JRead amt off) = (JR SQLITE_OK (take amt (drop off a)) 0, a)"
| "jabs a JTruncate = (JR SQLITE_OK [] 0, [])"
| "jabs a JSize = (JR SQLITE_OK [] (length a), a)"

text \<open>The assertions of the code: writes append, reads stay inside.\<close>

fun jpre :: "u8 list \<Rightarrow> jop \<Rightarrow> bool" where
  "jpre a (JWrite bs off) \<longleftrightarrow> off = length a"
| "jpre a (JRead amt off) \<longleftrightarrow> 0 < amt \<and> off + amt \<le> length a"
| "jpre a JTruncate \<longleftrightarrow> True"
| "jpre a JSize \<longleftrightarrow> True"

text \<open>The methods of a real file, as the VFS provides them.\<close>

record 'f vfs =
  xOpen :: "nat \<times> 'f"
  xRead :: "'f \<Rightarrow> nat \<Rightarrow> nat \<Rightarrow> nat \<times> u8 list"
  xWrite :: "'f \<Rightarrow> u8 list \<Rightarrow> nat \<Rightarrow> nat \<times> 'f"
  xTruncate :: "'f \<Rightarrow> nat \<Rightarrow> nat \<times> 'f"
  xFileSize :: "'f \<Rightarrow> nat \<times> nat"

fun jstep :: "'f vfs \<Rightarrow> 'f jfile \<Rightarrow> jop \<Rightarrow> (jres \<times> 'f jfile) option" where
  "jstep v (InMemory p) (JWrite bs off) =
     map_option (\<lambda>(rc, r). (JR rc [] 0, r)) (memjrnlWrite (xOpen v) (xWrite v) [] p bs off)"
| "jstep v (InMemory p) (JRead amt off) = map_option (\<lambda>(bs, p). (JR SQLITE_OK bs 0, InMemory p)) (memjrnlRead p amt off)"
| "jstep v (InMemory p) JTruncate = Some (JR SQLITE_OK [] 0, InMemory (memjrnlTruncate p 0))"
| "jstep v (InMemory p) JSize = Some (JR SQLITE_OK [] (memjrnlFileSize p), InMemory p)"
| "jstep v (OnDisk fd) (JWrite bs off) = (let (rc, fd) = xWrite v fd bs off in Some (JR rc [] 0, OnDisk fd))"
| "jstep v (OnDisk fd) (JRead amt off) = (let (rc, bs) = xRead v fd amt off in Some (JR rc bs 0, OnDisk fd))"
| "jstep v (OnDisk fd) JTruncate = (let (rc, fd) = xTruncate v fd 0 in Some (JR rc [] 0, OnDisk fd))"
| "jstep v (OnDisk fd) JSize = (let (rc, n) = xFileSize v fd in Some (JR rc [] n, OnDisk fd))"

text \<open>A disk without errors.\<close>

definition vfs_ok :: "('f \<Rightarrow> u8 list) \<Rightarrow> 'f vfs \<Rightarrow> bool" where
  "vfs_ok fc v \<longleftrightarrow> fst (xOpen v) = SQLITE_OK \<and> fc (snd (xOpen v)) = []
     \<and> (\<forall>fd bs off. off \<le> length (fc fd) \<longrightarrow> fst (xWrite v fd bs off) = SQLITE_OK
          \<and> fc (snd (xWrite v fd bs off)) = take off (fc fd) @ bs @ drop (off + length bs) (fc fd))
     \<and> (\<forall>fd amt off. off + amt \<le> length (fc fd) \<longrightarrow> xRead v fd amt off = (SQLITE_OK, take amt (drop off (fc fd))))
     \<and> (\<forall>fd. fst (xTruncate v fd 0) = SQLITE_OK \<and> fc (snd (xTruncate v fd 0)) = [])
     \<and> (\<forall>fd. xFileSize v fd = (SQLITE_OK, length (fc fd)))"

fun jrel :: "('f \<Rightarrow> u8 list) \<Rightarrow> 'f jfile \<Rightarrow> u8 list \<Rightarrow> bool" where
  "jrel fc (InMemory p) a \<longleftrightarrow> jinv p \<and> content p = a"
| "jrel fc (OnDisk fd) a \<longleftrightarrow> fc fd = a"

lemma vfs_okD:
  assumes "vfs_ok fc v"
  shows "vfs_write fc (xWrite v)" "fst (xOpen v) = SQLITE_OK" "fc (snd (xOpen v)) = []"
    "off \<le> length (fc fd) \<Longrightarrow> fst (xWrite v fd bs off) = SQLITE_OK"
  using assms unfolding vfs_ok_def vfs_write_def by (metis fst_conv snd_conv)+

lemma createLoop_rc:
  assumes "vfs_ok fc v" "0 < n"
  shows "\<forall>c\<in>set cs. length c = n \<Longrightarrow> iOff = length (fc fd) \<Longrightarrow> iOff + n * length cs < endp + n \<Longrightarrow>
    fst (createLoop (xWrite v) endp cs n iOff fd) = SQLITE_OK"
proof (induction cs arbitrary: iOff fd)
  case (Cons c cs)
  let ?k = "if iOff + n > endp then endp - iOff else n"
  obtain rc fd1 where r: "xWrite v fd (take ?k c) iOff = (rc, fd1)" by fastforce
  have rc: "rc = SQLITE_OK" using vfs_okD(4) [OF assms(1), of iOff fd "take ?k c"] r Cons.prems(2) by simp
  show ?case
  proof (cases "iOff + n > endp")
    case True
    then have "cs = []" using Cons.prems(3) assms(2) by (cases cs) auto
    with r rc show ?thesis by (simp add: Let_def)
  next
    case False
    have "fc fd1 = fc fd @ c" using vfs_append [OF vfs_okD(1) [OF assms(1)], of fd c fd1] r rc False Cons.prems(1,2) by simp
    then have "fst (createLoop (xWrite v) endp cs n (iOff + n) fd1) = SQLITE_OK"
      using Cons.prems by (intro Cons.IH) auto
    with r rc False show ?thesis by (simp add: Let_def)
  qed
qed simp

lemma jstep_write:
  assumes v: "vfs_ok fc v" and j: "jinv p"
  shows "\<exists>r. memjrnlWrite (xOpen v) (xWrite v) [] p bs (length (content p)) = Some (SQLITE_OK, r) \<and> jrel fc r (content p @ bs)"
proof -
  have o: "fst (xOpen v) = SQLITE_OK \<longrightarrow> fc (snd (xOpen v)) = []" using vfs_okD(3) [OF v] by simp
  show ?thesis
  proof (cases "nSpill p > 0 \<and> int (length bs + length (content p)) > nSpill p")
    case True
    have "fst (createLoop (xWrite v) (endOffset p) (pFirst p) (nChunkSize p) 0 (snd (xOpen v))) = SQLITE_OK"
      using j vfs_okD(3) [OF v] by (intro createLoop_rc [OF v]) (auto simp: jinv_def)
    then have "fst (memjrnlCreateFile (xOpen v) (xWrite v) p) = SQLITE_OK"
      using vfs_okD(2) [OF v] by (simp add: memjrnlCreateFile_def case_prod_unfold Let_def)
    with memjrnlCreateFile_ok [OF j vfs_okD(1) [OF v] o]
    obtain fd where fd: "memjrnlCreateFile (xOpen v) (xWrite v) p = (SQLITE_OK, OnDisk fd)" "fc fd = content p" by auto
    obtain fd' where w: "xWrite v fd bs (length (content p)) = (SQLITE_OK, fd')"
      using vfs_okD(4) [OF v, of "length (content p)" fd bs] fd(2) by (cases "xWrite v fd bs (length (content p))") auto
    with vfs_append [OF vfs_okD(1) [OF v], of fd bs fd'] fd have "fc fd' = content p @ bs" by simp
    with True fd(1) w show ?thesis by (simp add: memjrnlWrite_def)
  next
    case False
    obtain q where q: "writeLoop [] p bs = Some (SQLITE_OK, q)" "jinv q" "content q = content p @ bs"
      using writeLoop_ok [OF j, of "[]" bs] by auto
    have "jinv (q\<lparr>nSize := n\<rparr>)" "content (q\<lparr>nSize := n\<rparr>) = content q" for n
      using q(2) by (simp_all add: jinv_def content_def)
    with False q show ?thesis by (auto simp: memjrnlWrite_def)
  qed
qed

lemma journal_simulation:
  assumes v: "vfs_ok fc v"
  shows "simulation (jstep v) jabs jpre (jrel fc)"
proof
  fix s a x
  assume rel: "jrel fc s a" and pre: "jpre a x"
  show "\<exists>s'. jstep v s x = Some (fst (jabs a x), s') \<and> jrel fc s' (snd (jabs a x))"
  proof (cases s)
    case (InMemory p)
    with rel have p: "jinv p" "content p = a" by auto
    show ?thesis
    proof (cases x)
      case (JWrite bs off)
      then show ?thesis using jstep_write [OF v p(1), of bs] p pre by (auto simp: InMemory)
    next
      case (JRead amt off)
      then show ?thesis
        using memjrnlRead_ok [OF p(1), of amt off] p pre length_content [OF p(1)] by (auto simp: InMemory)
    next
      case JTruncate
      have "jinv (memjrnlTruncate p 0)" "content (memjrnlTruncate p 0) = []"
        using p(1) by (simp_all add: jinv_def memjrnlTruncate_def memjrnlFreeChunks_def content_def)
      with JTruncate show ?thesis by (simp add: InMemory)
    next
      case JSize
      then show ?thesis using p length_content [OF p(1)] by (simp add: InMemory memjrnlFileSize_def)
    qed
  next
    case (OnDisk fd)
    with rel have a: "fc fd = a" by simp
    show ?thesis
    proof (cases x)
      case (JWrite bs off)
      with pre a v have "fst (xWrite v fd bs off) = SQLITE_OK \<and> fc (snd (xWrite v fd bs off)) = a @ bs"
        unfolding vfs_ok_def by simp
      with JWrite show ?thesis by (auto simp: OnDisk case_prod_unfold)
    next
      case (JRead amt off)
      with pre a v show ?thesis by (auto simp: OnDisk vfs_ok_def)
    next
      case JTruncate
      with a v show ?thesis by (auto simp: OnDisk vfs_ok_def case_prod_unfold)
    next
      case JSize
      with a v show ?thesis by (auto simp: OnDisk vfs_ok_def)
    qed
  qed
qed

text \<open>C14. Without memory and disk errors a journal, whatever its threshold and whether or when it moves to
  disk, behaves as a sequence of bytes: any run of appends, reads inside it, truncations and size
  queries returns what the byte sequence returns.\<close>

theorem journal_refines_bytes:
  assumes "vfs_ok fc v" "run_allowed jabs jpre [] xs"
  shows "\<exists>j. run_concrete (jstep v) (snd (sqlite3JournalOpen (xOpen v) spill)) xs = Some (fst (run_abstract jabs [] xs), j)"
proof -
  have "jrel fc (snd (sqlite3JournalOpen (xOpen v) spill)) []"
    using vfs_okD(3) [OF assms(1)] by (auto simp: sqlite3JournalOpen_def jinv_def content_def case_prod_unfold Let_def)
  with simulation.run_rel [OF journal_simulation [OF assms(1)]] assms(2) show ?thesis by blast
qed

lemma journal_refines_bytes_witness:
  "\<exists>v j. run_concrete (jstep v) (snd (sqlite3JournalOpen (xOpen v) 2)) [JWrite [1, 2, 3] 0, JRead 2 1]
    = Some ([JR 0 [] 0, JR 0 [2, 3] 0], j :: u8 list jfile)"
proof -
  let ?v = "\<lparr>xOpen = (0, []), xRead = \<lambda>fd amt off. (0, take amt (drop off fd)),
    xWrite = \<lambda>fd bs off. (0, take off fd @ bs @ drop (off + length bs) fd),
    xTruncate = \<lambda>fd n. (0, take n fd), xFileSize = \<lambda>fd. (0, length fd)\<rparr> :: u8 list vfs"
  have "vfs_ok (\<lambda>fd. fd) ?v" by (simp add: vfs_ok_def)
  from journal_refines_bytes [OF this, of "[JWrite [1, 2, 3] 0, JRead 2 1]" 2]
  show ?thesis by (intro exI [of _ ?v]) simp
qed

end
