(* ===== verification/PcacheModule.thy ===== *)
theory PcacheModule
  imports SqlitePrelude
begin

text \<open>
  The interface between the page cache of pcache.c and the pluggable module that keeps the pages
  (\<open>sqlite3_pcache_methods2\<close>; pcache1.c is the default module).

  A page is named by its address. The result of \<open>xFetch\<close> is NULL, or a page and whether the module
  has just made it: then the module has cleared the first word of its extra space, so pcache.c sees an
  uninitialised header. Outer \<^term>\<open>None\<close> stands for a run that leaves the rules of C.
\<close>

record 'm pcache2 =
  xFetch :: "'m \<Rightarrow> nat \<Rightarrow> nat \<Rightarrow> ((nat \<times> bool) option \<times> 'm) option"
  xUnpin :: "'m \<Rightarrow> nat \<Rightarrow> bool \<Rightarrow> 'm option"
  xRekey :: "'m \<Rightarrow> nat \<Rightarrow> nat \<Rightarrow> nat \<Rightarrow> 'm option"
  xTruncate :: "'m \<Rightarrow> nat \<Rightarrow> 'm option"
  xPagecount :: "'m \<Rightarrow> nat"
  xCachesize :: "'m \<Rightarrow> int \<Rightarrow> 'm option"
  xShrink :: "'m \<Rightarrow> 'm option"

text \<open>
  Abstractly a module holds the pages \<open>R\<close> (a map from page numbers to addresses), some of them
  pinned (\<open>P\<close>). It may evict pages, but no pinned ones.
\<close>

definition kept :: "(nat \<rightharpoonup> nat) \<Rightarrow> nat set \<Rightarrow> (nat \<rightharpoonup> nat) \<Rightarrow> bool" where
  "kept R P R' \<longleftrightarrow> (\<forall>k a. R' k = Some a \<longrightarrow> R k = Some a) \<and> (\<forall>k a. R k = Some a \<longrightarrow> a \<in> P \<longrightarrow> R' k = Some a)"

lemma keptI:
  "(\<And>k a. R' k = Some a \<Longrightarrow> R k = Some a) \<Longrightarrow> (\<And>k a. R k = Some a \<Longrightarrow> a \<in> P \<Longrightarrow> R' k = Some a) \<Longrightarrow> kept R P R'"
  unfolding kept_def by blast

lemma keptD: "kept R P R' \<Longrightarrow> R' k = Some a \<Longrightarrow> R k = Some a"
  unfolding kept_def by blast

lemma kept_pinned: "kept R P R' \<Longrightarrow> R k = Some a \<Longrightarrow> a \<in> P \<Longrightarrow> R' k = Some a"
  unfolding kept_def by blast

lemma kept_refl [simp]: "kept R P R"
  by (simp add: kept_def)

lemma kept_trans: "kept R P R' \<Longrightarrow> kept R' P R'' \<Longrightarrow> kept R P R''"
  unfolding kept_def by blast

locale pcache_module =
  fixes M :: "'m pcache2" and mrel :: "'m \<Rightarrow> (nat \<rightharpoonup> nat) \<Rightarrow> nat set \<Rightarrow> bool"
  assumes mrel_wf: "mrel m R P \<Longrightarrow> inj_on R (dom R) \<and> P \<subseteq> ran R \<and> finite (dom R)"
    and fetch_hit: "mrel m R P \<Longrightarrow> R k = Some a \<Longrightarrow>
      \<exists>m'. xFetch M m k c = Some (Some (a, False), m') \<and> mrel m' R (insert a P)"
    and fetch_miss: "mrel m R P \<Longrightarrow> R k = None \<Longrightarrow> 1 \<le> k \<Longrightarrow>
      \<exists>r m' R'. xFetch M m k c = Some (r, m') \<and> kept R P R' \<and>
        (case r of None \<Rightarrow> mrel m' R' P
         | Some (a, new) \<Rightarrow> new \<and> c \<noteq> 0 \<and> a \<notin> P \<and> a \<notin> ran R' \<and> mrel m' (R'(k \<mapsto> a)) (insert a P))"
    and unpin: "mrel m R P \<Longrightarrow> a \<in> P \<Longrightarrow>
      \<exists>m' R'. xUnpin M m a discard = Some m' \<and> kept R (P - {a}) R' \<and> mrel m' R' (P - {a})
        \<and> (discard \<longrightarrow> a \<notin> ran R')"
    and rekey: "mrel m R P \<Longrightarrow> R old = Some a \<Longrightarrow> a \<in> P \<Longrightarrow> R new = None \<Longrightarrow> 1 \<le> new \<Longrightarrow>
      \<exists>m'. xRekey M m a old new = Some m' \<and> mrel m' (R(old := None, new \<mapsto> a)) P"
    and truncate: "mrel m R P \<Longrightarrow> 1 \<le> lim \<Longrightarrow>
      \<exists>m'. xTruncate M m lim = Some m' \<and> mrel m' (R |` {..<lim}) (P \<inter> ran (R |` {..<lim}))"
    and cachesize: "mrel m R P \<Longrightarrow> \<exists>m' R'. xCachesize M m n = Some m' \<and> kept R P R' \<and> mrel m' R' P"
    and shrink: "mrel m R P \<Longrightarrow> \<exists>m' R'. xShrink M m = Some m' \<and> kept R P R' \<and> mrel m' R' P"
    and pagecount: "mrel m R P \<Longrightarrow> xPagecount M m = card (dom R)"

end
