(* ===== verification/Pcache.thy ===== *)
theory Pcache
  imports PcacheModule MergeBuckets "HOL-Library.Signed_Division"
begin

unbundle bit_operations_syntax

text \<open>
  The page cache of pcache.c: page headers with reference counts and flags, and the list of dirty
  pages, on top of a pluggable module (\<open>pcache2\<close>).

  A page header is named by the address of its page; \<open>hdr\<close> is the memory of the headers, where
  \<^term>\<open>None\<close> is one whose \<open>pPage\<close> is NULL (not initialised). Following a pointer to such a header, or
  a NULL pointer, has no value. The dirty list is linked by \<open>pDirtyNext\<close> and \<open>pDirtyPrev\<close> as in the code. The
  list linked by \<open>PgHdr.pDirty\<close> that \<open>sqlite3PcacheDirtyList\<close> builds, sorts and returns is a HOL list of
  pages. The contents of the pages are not modelled.
\<close>

section \<open>State\<close>

type_synonym u16 = "16 word"

record pghdr =
  pgno :: nat
  flags :: u16
  nRef :: int
  pDirtyNext :: "nat option"
  pDirtyPrev :: "nat option"

record 'm pcache =
  hdr :: "nat \<rightharpoonup> pghdr"
  pDirty :: "nat option"
  pDirtyTail :: "nat option"
  pSynced :: "nat option"
  nRefSum :: int
  szCache :: int
  szSpill :: int
  szPage :: int
  szExtra :: int
  bPurgeable :: bool
  eCreate :: nat
  pCache :: "'m option"

definition PGHDR_CLEAN :: u16 where "PGHDR_CLEAN = 0x001"
definition PGHDR_DIRTY :: u16 where "PGHDR_DIRTY = 0x002"
definition PGHDR_WRITEABLE :: u16 where "PGHDR_WRITEABLE = 0x004"
definition PGHDR_NEED_SYNC :: u16 where "PGHDR_NEED_SYNC = 0x008"
definition PGHDR_DONT_WRITE :: u16 where "PGHDR_DONT_WRITE = 0x010"

text \<open>Assignments to fields of a header.\<close>

definition upd :: "nat \<Rightarrow> (pghdr \<Rightarrow> pghdr) \<Rightarrow> 'm pcache \<Rightarrow> 'm pcache option" where
  "upd a f s = (case hdr s a of None \<Rightarrow> None | Some h \<Rightarrow> Some (s\<lparr>hdr := (hdr s)(a \<mapsto> f h)\<rparr>))"

text \<open>Conversions to \<open>i16\<close> and \<open>int\<close>.\<close>

definition to_i16 :: "int \<Rightarrow> int" where
  "to_i16 x = (x + 2 ^ 15) mod 2 ^ 16 - 2 ^ 15"

definition to_i32 :: "int \<Rightarrow> int" where
  "to_i32 x = (x + 2 ^ 31) mod 2 ^ 32 - 2 ^ 31"

text \<open>The checks of debug builds on a page header.\<close>

definition sqlite3PcachePageSanity :: "nat \<Rightarrow> 'm pcache \<Rightarrow> bool" where
  "sqlite3PcachePageSanity p s =
     (case hdr s p of
        None \<Rightarrow> False
      | Some h \<Rightarrow>
          pgno h > 0 \<and> pCache s \<noteq> None
          \<and> (flags h AND PGHDR_CLEAN \<noteq> 0 \<longrightarrow>
               flags h AND PGHDR_DIRTY = 0 \<and> pDirty s \<noteq> Some p \<and> pDirtyTail s \<noteq> Some p)
          \<and> (flags h AND PGHDR_WRITEABLE \<noteq> 0 \<longrightarrow> flags h AND PGHDR_DIRTY \<noteq> 0))"

section \<open>The dirty list\<close>

definition dirtyRemove :: "nat \<Rightarrow> 'm pcache \<Rightarrow> 'm pcache option" where
  "dirtyRemove p s = do {
     h \<leftarrow> hdr s p;
     let s = (if pSynced s = Some p then s\<lparr>pSynced := pDirtyPrev h\<rparr> else s);
     s \<leftarrow> (case pDirtyNext h of
            Some q \<Rightarrow> upd q (\<lambda>x. x\<lparr>pDirtyPrev := pDirtyPrev h\<rparr>) s
          | None \<Rightarrow> Some (s\<lparr>pDirtyTail := pDirtyPrev h\<rparr>));
     h \<leftarrow> hdr s p;
     case pDirtyPrev h of
       Some q \<Rightarrow> upd q (\<lambda>x. x\<lparr>pDirtyNext := pDirtyNext h\<rparr>) s
     | None \<Rightarrow>
         (let s = s\<lparr>pDirty := pDirtyNext h\<rparr> in
          Some (if pDirty s = None then s\<lparr>eCreate := 2\<rparr> else s))
   }"

definition dirtyAdd :: "nat \<Rightarrow> 'm pcache \<Rightarrow> 'm pcache option" where
  "dirtyAdd p s = do {
     s \<leftarrow> upd p (\<lambda>x. x\<lparr>pDirtyPrev := None, pDirtyNext := pDirty s\<rparr>) s;
     s \<leftarrow> (case pDirty s of
            Some q \<Rightarrow> upd q (\<lambda>x. x\<lparr>pDirtyPrev := Some p\<rparr>) s
          | None \<Rightarrow>
              (let s = s\<lparr>pDirtyTail := Some p\<rparr> in Some (if bPurgeable s then s\<lparr>eCreate := 1\<rparr> else s)));
     let s = s\<lparr>pDirty := Some p\<rparr>;
     h \<leftarrow> hdr s p;
     Some (if pSynced s = None \<and> flags h AND PGHDR_NEED_SYNC = 0 then s\<lparr>pSynced := Some p\<rparr> else s)
   }"

definition PCACHE_DIRTYLIST_REMOVE :: u8 where "PCACHE_DIRTYLIST_REMOVE = 1"
definition PCACHE_DIRTYLIST_ADD :: u8 where "PCACHE_DIRTYLIST_ADD = 2"
definition PCACHE_DIRTYLIST_FRONT :: u8 where "PCACHE_DIRTYLIST_FRONT = 3"

definition pcacheManageDirtyList :: "nat \<Rightarrow> u8 \<Rightarrow> 'm pcache \<Rightarrow> 'm pcache option" where
  "pcacheManageDirtyList p addRemove s = do {
     s \<leftarrow> (if addRemove AND PCACHE_DIRTYLIST_REMOVE \<noteq> 0 then dirtyRemove p s else Some s);
     if addRemove AND PCACHE_DIRTYLIST_ADD \<noteq> 0 then dirtyAdd p s else Some s
   }"

section \<open>Opening and configuring\<close>

definition pcacheUnpin :: "'m pcache2 \<Rightarrow> nat \<Rightarrow> 'm pcache \<Rightarrow> 'm pcache option" where
  "pcacheUnpin M p s =
     (if bPurgeable s then do {
        m \<leftarrow> pCache s;
        m \<leftarrow> xUnpin M m p False;
        Some (s\<lparr>pCache := Some m\<rparr>)
      } else Some s)"

text \<open>The size of a page with its extra space is positive, so the division of C is \<open>div\<close>.\<close>

definition numberOfCachePages :: "'m pcache \<Rightarrow> int" where
  "numberOfCachePages p =
     (if szCache p \<ge> 0 then szCache p else to_i32 ((- 1024 * szCache p) div (szPage p + szExtra p)))"

text \<open>
  \<open>mk\<close> is \<open>xCreate\<close>: from page size, extra space and purgeability it gives a new module, or NULL. The old one is
  destroyed. \<open>ROUND8(sizeof(PgHdr))\<close> is 80 on a 64-bit machine.
\<close>

definition sqlite3PcacheSetPageSize ::
  "'m pcache2 \<Rightarrow> (int \<Rightarrow> int \<Rightarrow> bool \<Rightarrow> 'm option) \<Rightarrow> int \<Rightarrow> 'm pcache \<Rightarrow> (nat \<times> 'm pcache) option"
where
  "sqlite3PcacheSetPageSize M mk sz s =
     (if szPage s \<noteq> 0 then
        (case mk sz (szExtra s + 80) (bPurgeable s) of
           None \<Rightarrow> Some (7, s)
         | Some m \<Rightarrow> do {
             m \<leftarrow> xCachesize M m (numberOfCachePages s);
             Some (0, s\<lparr>pCache := Some m, szPage := sz\<rparr>)
           })
      else Some (0, s))"

definition sqlite3PcacheOpen ::
  "'m pcache2 \<Rightarrow> (int \<Rightarrow> int \<Rightarrow> bool \<Rightarrow> 'm option) \<Rightarrow> int \<Rightarrow> int \<Rightarrow> bool \<Rightarrow> (nat \<times> 'm pcache) option"
where
  "sqlite3PcacheOpen M mk sz extra purgeable =
     sqlite3PcacheSetPageSize M mk sz
       \<lparr>hdr = Map.empty, pDirty = None, pDirtyTail = None, pSynced = None, nRefSum = 0, szCache = 100, szSpill = 1,
        szPage = 1, szExtra = extra, bPurgeable = purgeable, eCreate = 2, pCache = None\<rparr>"

definition sqlite3PcachePagecount :: "'m pcache2 \<Rightarrow> 'm pcache \<Rightarrow> nat option" where
  "sqlite3PcachePagecount M s = map_option (xPagecount M) (pCache s)"

definition sqlite3PcacheRefCount :: "'m pcache \<Rightarrow> int" where
  "sqlite3PcacheRefCount s = nRefSum s"

definition sqlite3PcachePageRefcount :: "nat \<Rightarrow> 'm pcache \<Rightarrow> int option" where
  "sqlite3PcachePageRefcount p s = map_option nRef (hdr s p)"

definition sqlite3PcacheSetCachesize :: "'m pcache2 \<Rightarrow> int \<Rightarrow> 'm pcache \<Rightarrow> 'm pcache option" where
  "sqlite3PcacheSetCachesize M mxPage s = do {
     let s = s\<lparr>szCache := mxPage\<rparr>;
     m \<leftarrow> pCache s;
     m \<leftarrow> xCachesize M m (numberOfCachePages s);
     Some (s\<lparr>pCache := Some m\<rparr>)
   }"

definition sqlite3PcacheSetSpillsize :: "int \<Rightarrow> 'm pcache \<Rightarrow> int \<times> 'm pcache" where
  "sqlite3PcacheSetSpillsize mxPage s =
     (let s = (if mxPage \<noteq> 0 then
                 s\<lparr>szSpill := (if mxPage < 0 then to_i32 ((- 1024 * mxPage) div (szPage s + szExtra s)) else mxPage)\<rparr>
               else s);
          res = numberOfCachePages s
      in (if res < szSpill s then szSpill s else res, s))"

definition sqlite3PcacheShrink :: "'m pcache2 \<Rightarrow> 'm pcache \<Rightarrow> 'm pcache option" where
  "sqlite3PcacheShrink M s = do { m \<leftarrow> pCache s; m \<leftarrow> xShrink M m; Some (s\<lparr>pCache := Some m\<rparr>) }"

section \<open>Fetching pages\<close>

text \<open>A page that the module has just made has a cleared \<open>pPage\<close>.\<close>

definition moduleFetch :: "'m pcache2 \<Rightarrow> nat \<Rightarrow> nat \<Rightarrow> 'm pcache \<Rightarrow> (nat option \<times> 'm pcache) option" where
  "moduleFetch M k e s = do {
     m \<leftarrow> pCache s;
     (r, m) \<leftarrow> xFetch M m k e;
     let s = s\<lparr>pCache := Some m\<rparr>;
     Some (case r of
       None \<Rightarrow> (None, s)
     | Some (a, new) \<Rightarrow> (Some a, if new then s\<lparr>hdr := (hdr s)(a := None)\<rparr> else s))
   }"

text \<open>\<open>createFlag\<close> is 0 or 3, so \<open>createFlag & eCreate\<close> is 0 or \<open>eCreate\<close>.\<close>

definition sqlite3PcacheFetch :: "'m pcache2 \<Rightarrow> nat \<Rightarrow> nat \<Rightarrow> 'm pcache \<Rightarrow> (nat option \<times> 'm pcache) option" where
  "sqlite3PcacheFetch M k createFlag s = moduleFetch M k (createFlag AND eCreate s) s"

text \<open>\<open>for(pPg=x; pPg && P(pPg); pPg=pPg->pDirtyPrev);\<close>\<close>

partial_function (option) walkPrev :: "(pghdr \<Rightarrow> bool) \<Rightarrow> (nat \<rightharpoonup> pghdr) \<Rightarrow> nat option \<Rightarrow> nat option option" where
  "walkPrev P H x =
     (case x of
        None \<Rightarrow> Some None
      | Some a \<Rightarrow> do {
          h \<leftarrow> H a;
          if P h then walkPrev P H (pDirtyPrev h) else Some (Some a)
        })"

text \<open>The page to spill, and \<open>pSynced\<close> moved along.\<close>

definition spillVictim :: "'m pcache \<Rightarrow> (nat option \<times> 'm pcache) option" where
  "spillVictim s = do {
     p \<leftarrow> walkPrev (\<lambda>h. nRef h \<noteq> 0 \<or> flags h AND PGHDR_NEED_SYNC \<noteq> 0) (hdr s) (pSynced s);
     let s = s\<lparr>pSynced := p\<rparr>;
     p \<leftarrow> (if p = None then walkPrev (\<lambda>h. nRef h \<noteq> 0) (hdr s) (pDirtyTail s) else Some p);
     Some (p, s)
   }"

text \<open>The result is the return code (5 is \<open>SQLITE_BUSY\<close>, 7 \<open>SQLITE_NOMEM\<close>) and \<open>*ppPage\<close>.\<close>

definition sqlite3PcacheFetchStress ::
  "'m pcache2 \<Rightarrow> ('m pcache \<Rightarrow> nat \<Rightarrow> (nat \<times> 'm pcache) option) \<Rightarrow> nat \<Rightarrow> 'm pcache \<Rightarrow> (nat \<times> nat option \<times> 'm pcache) option"
where
  "sqlite3PcacheFetchStress M xStress k s =
     (if eCreate s = 2 then Some (0, None, s)
      else do {
        n \<leftarrow> sqlite3PcachePagecount M s;
        (rc, s) \<leftarrow>
          (if int n > szSpill s then do {
             (p, s) \<leftarrow> spillVictim s;
             case p of None \<Rightarrow> Some (0, s) | Some p \<Rightarrow> xStress s p
           } else Some (0, s));
        if rc \<noteq> 0 \<and> rc \<noteq> 5 then Some (rc, None, s)
        else do {
          (r, s) \<leftarrow> moduleFetch M k 2 s;
          Some (if r = None then 7 else 0, r, s)
        }
      })"

definition sqlite3PcacheFetchFinish :: "nat \<Rightarrow> nat \<Rightarrow> 'm pcache \<Rightarrow> 'm pcache option" where
  "sqlite3PcacheFetchFinish k a s = do {
     let s = (if hdr s a = None then
                s\<lparr>hdr := (hdr s)(a \<mapsto> \<lparr>pgno = k, flags = PGHDR_CLEAN, nRef = 0, pDirtyNext = None, pDirtyPrev = None\<rparr>)\<rparr>
              else s);
     upd a (\<lambda>h. h\<lparr>nRef := to_i16 (nRef h + 1)\<rparr>) (s\<lparr>nRefSum := nRefSum s + 1\<rparr>)
   }"

text \<open>
  How the pager gets a page: \<open>getPageNormal\<close> up to the point where the content is read (\<open>create\<close>), and
  \<open>sqlite3PagerLookup\<close>.
\<close>

definition pagerGet ::
  "'m pcache2 \<Rightarrow> ('m pcache \<Rightarrow> nat \<Rightarrow> (nat \<times> 'm pcache) option) \<Rightarrow> nat \<Rightarrow> 'm pcache \<Rightarrow> (nat \<times> nat option \<times> 'm pcache) option"
where
  "pagerGet M xStress k s = do {
     (pBase, s) \<leftarrow> sqlite3PcacheFetch M k 3 s;
     (rc, pBase, s) \<leftarrow> (if pBase = None then sqlite3PcacheFetchStress M xStress k s else Some (0, pBase, s));
     if rc \<noteq> 0 then Some (rc, None, s)
     else case pBase of
       None \<Rightarrow> Some (7, None, s)
     | Some a \<Rightarrow> do { s \<leftarrow> sqlite3PcacheFetchFinish k a s; Some (0, Some a, s) }
   }"

definition sqlite3PagerLookup :: "'m pcache2 \<Rightarrow> nat \<Rightarrow> 'm pcache \<Rightarrow> (nat option \<times> 'm pcache) option" where
  "sqlite3PagerLookup M k s = do {
     (pBase, s) \<leftarrow> sqlite3PcacheFetch M k 0 s;
     case pBase of
       None \<Rightarrow> Some (None, s)
     | Some a \<Rightarrow> do { s \<leftarrow> sqlite3PcacheFetchFinish k a s; Some (Some a, s) }
   }"

section \<open>References, dirty and clean pages\<close>

definition sqlite3PcacheRelease :: "'m pcache2 \<Rightarrow> nat \<Rightarrow> 'm pcache \<Rightarrow> 'm pcache option" where
  "sqlite3PcacheRelease M p s = do {
     let s = s\<lparr>nRefSum := nRefSum s - 1\<rparr>;
     s \<leftarrow> upd p (\<lambda>h. h\<lparr>nRef := to_i16 (nRef h - 1)\<rparr>) s;
     h \<leftarrow> hdr s p;
     if nRef h = 0 then
       (if flags h AND PGHDR_CLEAN \<noteq> 0 then pcacheUnpin M p s
        else pcacheManageDirtyList p PCACHE_DIRTYLIST_FRONT s)
     else Some s
   }"

definition sqlite3PcacheRef :: "nat \<Rightarrow> 'm pcache \<Rightarrow> 'm pcache option" where
  "sqlite3PcacheRef p s =
     map_option (\<lambda>s. s\<lparr>nRefSum := nRefSum s + 1\<rparr>) (upd p (\<lambda>h. h\<lparr>nRef := to_i16 (nRef h + 1)\<rparr>) s)"

text \<open>Dropping a page gives its memory, and with it the header, back to the module.\<close>

definition sqlite3PcacheDrop :: "'m pcache2 \<Rightarrow> nat \<Rightarrow> 'm pcache \<Rightarrow> 'm pcache option" where
  "sqlite3PcacheDrop M p s = do {
     h \<leftarrow> hdr s p;
     s \<leftarrow> (if flags h AND PGHDR_DIRTY \<noteq> 0 then pcacheManageDirtyList p PCACHE_DIRTYLIST_REMOVE s else Some s);
     let s = s\<lparr>nRefSum := nRefSum s - 1\<rparr>;
     m \<leftarrow> pCache s;
     m \<leftarrow> xUnpin M m p True;
     Some (s\<lparr>pCache := Some m, hdr := (hdr s)(p := None)\<rparr>)
   }"

definition sqlite3PcacheMakeDirty :: "nat \<Rightarrow> 'm pcache \<Rightarrow> 'm pcache option" where
  "sqlite3PcacheMakeDirty p s = do {
     h \<leftarrow> hdr s p;
     if flags h AND (PGHDR_CLEAN OR PGHDR_DONT_WRITE) \<noteq> 0 then do {
       s \<leftarrow> upd p (\<lambda>h. h\<lparr>flags := flags h AND NOT PGHDR_DONT_WRITE\<rparr>) s;
       h \<leftarrow> hdr s p;
       if flags h AND PGHDR_CLEAN \<noteq> 0 then do {
         s \<leftarrow> upd p (\<lambda>h. h\<lparr>flags := flags h XOR (PGHDR_DIRTY OR PGHDR_CLEAN)\<rparr>) s;
         pcacheManageDirtyList p PCACHE_DIRTYLIST_ADD s
       } else Some s
     } else Some s
   }"

definition sqlite3PcacheMakeClean :: "'m pcache2 \<Rightarrow> nat \<Rightarrow> 'm pcache \<Rightarrow> 'm pcache option" where
  "sqlite3PcacheMakeClean M p s = do {
     h \<leftarrow> hdr s p;
     if flags h AND PGHDR_DIRTY \<noteq> 0 then do {
       s \<leftarrow> pcacheManageDirtyList p PCACHE_DIRTYLIST_REMOVE s;
       s \<leftarrow> upd p (\<lambda>h. h\<lparr>flags := (flags h AND NOT (PGHDR_DIRTY OR PGHDR_NEED_SYNC OR PGHDR_WRITEABLE)) OR PGHDR_CLEAN\<rparr>) s;
       h \<leftarrow> hdr s p;
       if nRef h = 0 then pcacheUnpin M p s else Some s
     } else Some s
   }"

partial_function (option) sqlite3PcacheCleanAll :: "'m pcache2 \<Rightarrow> 'm pcache \<Rightarrow> 'm pcache option" where
  "sqlite3PcacheCleanAll M s =
     (case pDirty s of
        None \<Rightarrow> Some s
      | Some p \<Rightarrow> do { s \<leftarrow> sqlite3PcacheMakeClean M p s; sqlite3PcacheCleanAll M s })"

text \<open>\<open>for(p=x; p; p=p->pDirtyNext) p->flags &= mask;\<close>\<close>

partial_function (option) maskFlags :: "u16 \<Rightarrow> nat option \<Rightarrow> 'm pcache \<Rightarrow> 'm pcache option" where
  "maskFlags msk x s =
     (case x of
        None \<Rightarrow> Some s
      | Some p \<Rightarrow> do {
          s \<leftarrow> upd p (\<lambda>h. h\<lparr>flags := flags h AND msk\<rparr>) s;
          h \<leftarrow> hdr s p;
          maskFlags msk (pDirtyNext h) s
        })"

definition sqlite3PcacheClearWritable :: "'m pcache \<Rightarrow> 'm pcache option" where
  "sqlite3PcacheClearWritable s = do {
     s \<leftarrow> maskFlags (NOT (PGHDR_NEED_SYNC OR PGHDR_WRITEABLE)) (pDirty s) s;
     Some (s\<lparr>pSynced := pDirtyTail s\<rparr>)
   }"

definition sqlite3PcacheClearSyncFlags :: "'m pcache \<Rightarrow> 'm pcache option" where
  "sqlite3PcacheClearSyncFlags s = do {
     s \<leftarrow> maskFlags (NOT PGHDR_NEED_SYNC) (pDirty s) s;
     Some (s\<lparr>pSynced := pDirtyTail s\<rparr>)
   }"

definition sqlite3PcacheMove :: "'m pcache2 \<Rightarrow> nat \<Rightarrow> nat \<Rightarrow> 'm pcache \<Rightarrow> 'm pcache option" where
  "sqlite3PcacheMove M p newPgno s = do {
     h \<leftarrow> hdr s p;
     m \<leftarrow> pCache s;
     m \<leftarrow> xRekey M m p (pgno h) newPgno;
     s \<leftarrow> upd p (\<lambda>h. h\<lparr>pgno := newPgno\<rparr>) (s\<lparr>pCache := Some m\<rparr>);
     h \<leftarrow> hdr s p;
     if flags h AND PGHDR_DIRTY \<noteq> 0 \<and> flags h AND PGHDR_NEED_SYNC \<noteq> 0
     then pcacheManageDirtyList p PCACHE_DIRTYLIST_FRONT s else Some s
   }"

text \<open>
  What the pager passes as \<open>xStress\<close> (without \<open>SQLITE_ENABLE_BATCH_ATOMIC_WRITE\<close>). The rest of the pager is given by
  its state and by the outcomes of its I/O: \<open>rcSync\<close> is what \<open>syncJournal\<close> returns.
\<close>

record spillenv =
  errCode :: nat
  doNotSpill :: u8
  useWal :: bool
  cacheMod :: bool
  rcSubjournal :: nat
  rcFrames :: nat
  rcSync :: nat
  rcWrite :: nat

definition SPILLFLAG_OFF :: u8 where "SPILLFLAG_OFF = 0x01"
definition SPILLFLAG_ROLLBACK :: u8 where "SPILLFLAG_ROLLBACK = 0x02"
definition SPILLFLAG_NOSYNC :: u8 where "SPILLFLAG_NOSYNC = 0x04"

definition pagerStress :: "'m pcache2 \<Rightarrow> spillenv \<Rightarrow> 'm pcache \<Rightarrow> nat \<Rightarrow> (nat \<times> 'm pcache) option" where
  "pagerStress M e s p = do {
     h \<leftarrow> hdr s p;
     if errCode e \<noteq> 0 then Some (0, s)
     else if doNotSpill e \<noteq> 0
         \<and> (doNotSpill e AND (SPILLFLAG_ROLLBACK OR SPILLFLAG_OFF) \<noteq> 0 \<or> flags h AND PGHDR_NEED_SYNC \<noteq> 0)
     then Some (0, s)
     else do {
       (rc, s) \<leftarrow>
         (if useWal e then Some (if rcSubjournal e = 0 then rcFrames e else rcSubjournal e, s)
          else do {
            (rc, s) \<leftarrow>
              (if flags h AND PGHDR_NEED_SYNC \<noteq> 0 \<or> cacheMod e
               then (if rcSync e = 0 then map_option (Pair 0) (sqlite3PcacheClearSyncFlags s) else Some (rcSync e, s))
               else Some (0, s));
            Some (if rc = 0 then rcWrite e else rc, s)
          });
       if rc = 0 then map_option (Pair 0) (sqlite3PcacheMakeClean M p s) else Some (rc, s)
     }
   }"

section \<open>Truncation and the list of dirty pages\<close>

partial_function (option) truncDirty :: "'m pcache2 \<Rightarrow> nat \<Rightarrow> nat option \<Rightarrow> 'm pcache \<Rightarrow> 'm pcache option" where
  "truncDirty M k x s =
     (case x of
        None \<Rightarrow> Some s
      | Some p \<Rightarrow> do {
          h \<leftarrow> hdr s p;
          s \<leftarrow> (if pgno h > k then sqlite3PcacheMakeClean M p s else Some s);
          truncDirty M k (pDirtyNext h) s
        })"

definition sqlite3PcacheTruncate :: "'m pcache2 \<Rightarrow> nat \<Rightarrow> 'm pcache \<Rightarrow> 'm pcache option" where
  "sqlite3PcacheTruncate M k s =
     (if pCache s \<noteq> None then do {
        s \<leftarrow> truncDirty M k (pDirty s) s;
        (k, s) \<leftarrow>
          (if k = 0 \<and> nRefSum s \<noteq> 0 then do {
             (p, s) \<leftarrow> moduleFetch M 1 0 s;
             Some (if p \<noteq> None then 1 else k, s)
           } else Some (k, s));
        m \<leftarrow> pCache s;
        m \<leftarrow> xTruncate M m (k + 1);
        Some (s\<lparr>pCache := Some m\<rparr>)
      } else Some s)"

definition sqlite3PcacheClear :: "'m pcache2 \<Rightarrow> 'm pcache \<Rightarrow> 'm pcache option" where
  "sqlite3PcacheClear M s = sqlite3PcacheTruncate M 0 s"

text \<open>Merging lists linked by \<open>pDirty\<close>; \<open>key\<close> gives the page numbers. The code never merges an empty list.\<close>

fun pcacheMergeDirtyList :: "(nat \<Rightarrow> nat) \<Rightarrow> nat list \<Rightarrow> nat list \<Rightarrow> nat list" where
  "pcacheMergeDirtyList key (a # as) (b # bs) =
     (if key a < key b then a # (if as = [] then b # bs else pcacheMergeDirtyList key as (b # bs))
      else b # (if bs = [] then a # as else pcacheMergeDirtyList key (a # as) bs))"
| "pcacheMergeDirtyList key as [] = as"
| "pcacheMergeDirtyList key [] bs = bs"

text \<open>
  One round of the loop of \<open>pcacheSortDirtyList\<close>; the last bucket takes everything and must not be NULL.
\<close>

fun sortPut :: "(nat \<Rightarrow> nat) \<Rightarrow> nat list list \<Rightarrow> nat list \<Rightarrow> nat list list option" where
  "sortPut key [] p = None"
| "sortPut key [b] p = (if b = [] then None else Some [pcacheMergeDirtyList key b p])"
| "sortPut key (b # c # bs) p =
     (if b = [] then Some (p # c # bs)
      else map_option ((#) []) (sortPut key (c # bs) (pcacheMergeDirtyList key b p)))"

definition N_SORT_BUCKET :: nat where "N_SORT_BUCKET = 32"

fun sortFill :: "(nat \<Rightarrow> nat) \<Rightarrow> nat list list \<Rightarrow> nat list \<Rightarrow> nat list list option" where
  "sortFill key bs [] = Some bs"
| "sortFill key bs (x # xs) = Option.bind (sortPut key bs [x]) (\<lambda>bs. sortFill key bs xs)"

definition pcacheSortDirtyList :: "(nat \<Rightarrow> nat) \<Rightarrow> nat list \<Rightarrow> nat list option" where
  "pcacheSortDirtyList key pIn =
     map_option
       (\<lambda>a. foldl (\<lambda>p b. if b = [] then p else if p \<noteq> [] then pcacheMergeDirtyList key p b else b) (hd a) (tl a))
       (sortFill key (replicate N_SORT_BUCKET []) pIn)"

text \<open>\<open>for(p=pCache->pDirty; p; p=p->pDirtyNext) p->pDirty = p->pDirtyNext;\<close>\<close>

partial_function (option) nextList :: "(nat \<rightharpoonup> pghdr) \<Rightarrow> nat option \<Rightarrow> nat list option" where
  "nextList H x =
     (case x of
        None \<Rightarrow> Some []
      | Some a \<Rightarrow> do { h \<leftarrow> H a; l \<leftarrow> nextList H (pDirtyNext h); Some (a # l) })"

definition sqlite3PcacheDirtyList :: "'m pcache \<Rightarrow> nat list option" where
  "sqlite3PcacheDirtyList s = do {
     l \<leftarrow> nextList (hdr s) (pDirty s);
     pcacheSortDirtyList (\<lambda>a. case hdr s a of None \<Rightarrow> 0 | Some h \<Rightarrow> pgno h) l
   }"

definition sqlite3PCachePercentDirty :: "'m pcache \<Rightarrow> int option" where
  "sqlite3PCachePercentDirty s = do {
     l \<leftarrow> nextList (hdr s) (pDirty s);
     let nCache = numberOfCachePages s;
     Some (if nCache \<noteq> 0 then to_i32 (int (length l) * 100 sdiv nCache) else 0)
   }"


section \<open>Sorting the dirty pages\<close>

lemma merge_mset: "mset (pcacheMergeDirtyList key as bs) = mset as + mset bs"
  by (induction key as bs rule: pcacheMergeDirtyList.induct) auto

lemma merge_sorted:
  "sorted (map key as) \<Longrightarrow> sorted (map key bs) \<Longrightarrow> sorted (map key (pcacheMergeDirtyList key as bs))"
proof (induction key as bs rule: pcacheMergeDirtyList.induct)
  case (1 key a as b bs)
  have set: "set (pcacheMergeDirtyList key xs ys) = set xs \<union> set ys" for xs ys
    using merge_mset [of key xs ys] by (metis set_mset_mset set_mset_union)
  from 1 show ?case by (auto simp: set)
qed simp_all

lemma merge_nonempty: "as \<noteq> [] \<Longrightarrow> pcacheMergeDirtyList key as bs \<noteq> []"
  by (cases as; cases bs) simp_all

interpretation dirty_sort: bucket_merge_mset "pcacheMergeDirtyList key" "\<lambda>l. sorted (map key l)" for key
proof unfold_locales
  fix a b :: "nat list"
  have "set (pcacheMergeDirtyList key a b) = set a \<union> set b"
    using merge_mset [of key a b] by (metis set_mset_mset set_mset_union)
  moreover assume "a \<noteq> []" "sorted (map key a)" "sorted (map key b)"
  ultimately show "sorted (map key (pcacheMergeDirtyList key a b)) \<and> pcacheMergeDirtyList key a b \<noteq> []
      \<and> set (pcacheMergeDirtyList key a b) = set a \<union> set b"
    by (simp add: merge_sorted merge_nonempty)
qed (simp_all add: merge_mset)

text \<open>While the first 31 buckets have room, the last one is never used.\<close>

lemma sortPut_bucket:
  "bucket_put (pcacheMergeDirtyList key) bs p = Some bs' \<Longrightarrow> sortPut key (bs @ [z]) p = Some (bs' @ [z])"
proof (induction bs arbitrary: p bs')
  case (Cons b bs)
  obtain c cs where "bs @ [z] = c # cs" by (cases "bs @ [z]") auto
  with Cons show ?case by (auto split: if_splits)
qed simp

lemma sortFill_bucket:
  "bucket_fill (pcacheMergeDirtyList key) bs xs = Some bs' \<Longrightarrow> sortFill key (bs @ [z]) xs = Some (bs' @ [z])"
  by (induction xs arbitrary: bs) (auto simp: bind_eq_Some_conv sortPut_bucket)

lemma foldl_join:
  "foldl (\<lambda>p b. if b = [] then p else if p \<noteq> [] then pcacheMergeDirtyList key p b else b) p bs
     = bucket_join (pcacheMergeDirtyList key) p bs"
  by (induction bs arbitrary: p) auto

lemma join_append_empty: "bucket_join mrg p (bs @ [[]]) = bucket_join mrg p bs"
  by (induction bs arbitrary: p) simp_all

lemma SortDirtyList_ok:
  assumes "length xs < 2 ^ 31"
  shows "\<exists>ys. pcacheSortDirtyList key xs = Some ys \<and> mset ys = mset xs \<and> sorted (map key ys)"
proof -
  obtain ys where ys: "bucket_sort (pcacheMergeDirtyList key) 31 xs = Some ys" "ys \<noteq> [] \<longrightarrow> sorted (map key ys)"
    using dirty_sort.sort_ok [of xs 31 key] assms by auto
  then obtain bs where bs: "bucket_fill (pcacheMergeDirtyList key) (replicate 31 []) xs = Some bs"
    "ys = (case bs of [] \<Rightarrow> [] | b # bs \<Rightarrow> bucket_join (pcacheMergeDirtyList key) b bs)"
    by (auto simp: bucket_sort_def)
  have "replicate N_SORT_BUCKET [] = replicate 31 [] @ [[] :: nat list]"
    unfolding N_SORT_BUCKET_def by (simp add: replicate_append_same [symmetric] numeral_eq_Suc)
  then have "pcacheSortDirtyList key xs = Some ys"
    using sortFill_bucket [OF bs(1), of "[]"] bs(2)
    by (cases bs) (simp_all add: pcacheSortDirtyList_def foldl_join join_append_empty)
  with dirty_sort.sort_mset [OF ys(1)] ys(2) show ?thesis by auto
qed

section \<open>Flags\<close>

lemma flag_exp:
  "PGHDR_CLEAN = 2 ^ 0" "PGHDR_DIRTY = 2 ^ 1" "PGHDR_WRITEABLE = 2 ^ 2" "PGHDR_NEED_SYNC = 2 ^ 3" "PGHDR_DONT_WRITE = 2 ^ 4"
  by (simp_all add: PGHDR_CLEAN_def PGHDR_DIRTY_def PGHDR_WRITEABLE_def PGHDR_NEED_SYNC_def PGHDR_DONT_WRITE_def)

lemma flag_test:
  "w AND PGHDR_CLEAN = 0 \<longleftrightarrow> \<not> bit w 0" "w AND PGHDR_DIRTY = 0 \<longleftrightarrow> \<not> bit w 1"
  "w AND PGHDR_WRITEABLE = 0 \<longleftrightarrow> \<not> bit w 2" "w AND PGHDR_NEED_SYNC = 0 \<longleftrightarrow> \<not> bit w 3"
  "w AND PGHDR_DONT_WRITE = 0 \<longleftrightarrow> \<not> bit w 4"
  unfolding flag_exp by (rule and_exp_eq_0_iff_not_bit)+

lemma flag_bit:
  "bit PGHDR_CLEAN n \<longleftrightarrow> n = 0" "bit PGHDR_DIRTY n \<longleftrightarrow> n = 1" "bit PGHDR_WRITEABLE n \<longleftrightarrow> n = 2"
  "bit PGHDR_NEED_SYNC n \<longleftrightarrow> n = 3" "bit PGHDR_DONT_WRITE n \<longleftrightarrow> n = 4"
  unfolding flag_exp bit_exp_iff by auto

lemma flag_test2: "w AND (PGHDR_CLEAN OR PGHDR_DONT_WRITE) = 0 \<longleftrightarrow> \<not> bit w 0 \<and> \<not> bit w 4"
  by (simp only: bit.conj_disj_distrib or_eq_0_iff flag_test de_Morgan_disj)

lemmas flag_simps = flag_test flag_test2 flag_bit bit_and_iff bit_or_iff bit_xor_iff bit_not_iff

section \<open>The linked list\<close>

text \<open>The first page of a list, or what comes after it; the last page, or what comes before.\<close>

definition hd_or :: "nat list \<Rightarrow> nat option \<Rightarrow> nat option" where
  "hd_or as n = (case as of [] \<Rightarrow> n | a # _ \<Rightarrow> Some a)"

definition last_or :: "nat option \<Rightarrow> nat list \<Rightarrow> nat option" where
  "last_or p as = (if as = [] then p else Some (last as))"

lemma hd_or_simps [simp]: "hd_or [] n = n" "hd_or (a # as) n = Some a" "hd_or (as @ bs) n = hd_or as (hd_or bs n)"
  by (simp_all add: hd_or_def split: list.split)

lemma last_or_simps [simp]: "last_or p [] = p" "last_or p (a # as) = last_or (Some a) as" "last_or p (as @ bs) = last_or (last_or p as) bs"
  by (simp_all add: last_or_def)

lemma hd_or_None: "hd_or as None = None \<longleftrightarrow> as = []"
  by (cases as) simp_all

lemma last_or_mem: "last_or p as = Some a \<Longrightarrow> a \<in> set as \<or> p = Some a"
  by (auto simp: last_or_def split: if_splits)

text \<open>A segment of the doubly linked list, between \<open>p\<close> and \<open>n\<close>.\<close>

primrec dseg :: "(nat \<rightharpoonup> pghdr) \<Rightarrow> nat option \<Rightarrow> nat list \<Rightarrow> nat option \<Rightarrow> bool" where
  "dseg H p [] n = True"
| "dseg H p (a # as) n \<longleftrightarrow>
     (\<exists>h. H a = Some h \<and> pDirtyPrev h = p \<and> pDirtyNext h = hd_or as n) \<and> dseg H (Some a) as n"

lemma dseg_append: "dseg H p (as @ bs) n \<longleftrightarrow> dseg H p as (hd_or bs n) \<and> dseg H (last_or p as) bs n"
  by (induction as arbitrary: p) auto

lemma dseg_off: "a \<notin> set as \<Longrightarrow> dseg (H(a := x)) p as n \<longleftrightarrow> dseg H p as n"
  by (induction as arbitrary: p) auto

lemma dseg_links:
  "dseg H p as n \<Longrightarrow> (\<And>a h. a \<in> set as \<Longrightarrow> H a = Some h \<Longrightarrow>
     \<exists>h'. H' a = Some h' \<and> pDirtyPrev h' = pDirtyPrev h \<and> pDirtyNext h' = pDirtyNext h) \<Longrightarrow> dseg H' p as n"
  by (induction as arbitrary: p) fastforce+

lemma dseg_mem: "dseg H p as n \<Longrightarrow> a \<in> set as \<Longrightarrow> \<exists>h. H a = Some h"
  by (induction as arbitrary: p) auto

text \<open>What a header holds besides its links, and what is kept when only headers and list ends change.\<close>

definition core :: "pghdr \<Rightarrow> nat \<times> u16 \<times> int" where
  "core h = (pgno h, flags h, nRef h)"

definition cores :: "'m pcache \<Rightarrow> nat \<Rightarrow> (nat \<times> u16 \<times> int) option" where
  "cores s a = map_option core (hdr s a)"

definition same_rest :: "'m pcache \<Rightarrow> 'm pcache \<Rightarrow> bool" where
  "same_rest s s' \<longleftrightarrow> nRefSum s' = nRefSum s \<and> szCache s' = szCache s \<and> szSpill s' = szSpill s \<and> szPage s' = szPage s
     \<and> szExtra s' = szExtra s \<and> bPurgeable s' = bPurgeable s \<and> pCache s' = pCache s"

definition relinked :: "'m pcache \<Rightarrow> 'm pcache \<Rightarrow> bool" where
  "relinked s s' \<longleftrightarrow> (\<forall>a. cores s' a = cores s a) \<and> same_rest s s'"

lemmas relinked_simps = relinked_def cores_def same_rest_def

lemma relinked_refl [simp]: "relinked s s"
  by (simp add: relinked_simps)

lemma relinked_trans: "relinked s s' \<Longrightarrow> relinked s' s'' \<Longrightarrow> relinked s s''"
  by (simp add: relinked_simps)

definition dlist :: "'m pcache \<Rightarrow> nat list \<Rightarrow> bool" where
  "dlist s ds \<longleftrightarrow> distinct ds \<and> dseg (hdr s) None ds None \<and> pDirty s = hd_or ds None \<and> pDirtyTail s = last_or None ds"

lemma dseg_set_prev:
  assumes "dseg H p (a # as) n" "H a = Some h" "a \<notin> set as"
  shows "dseg (H(a \<mapsto> h\<lparr>pDirtyPrev := q\<rparr>)) q (a # as) n"
  using assms by (simp add: dseg_off)

lemma dseg_set_next:
  assumes "dseg H p (as @ [a]) n" "H a = Some h" "a \<notin> set as"
  shows "dseg (H(a \<mapsto> h\<lparr>pDirtyNext := q\<rparr>)) p (as @ [a]) q"
  using assms by (simp add: dseg_append dseg_off)

lemma dirtyRemove_ok:
  assumes "dlist s (xs @ p # ys)"
  shows "\<exists>s'. dirtyRemove p s = Some s' \<and> dlist s' (xs @ ys) \<and> relinked s s'
    \<and> pSynced s' = (if pSynced s = Some p then last_or None xs else pSynced s)
    \<and> eCreate s' = (if xs @ ys = [] then 2 else eCreate s)"
proof -
  have d: "distinct (xs @ p # ys)" and x: "dseg (hdr s) None xs (Some p)" and y: "dseg (hdr s) (Some p) ys None"
    and ht: "pDirty s = hd_or xs (Some p)" "pDirtyTail s = last_or (Some p) ys"
    using assms by (simp_all add: dlist_def dseg_append)
  obtain h where h: "hdr s p = Some h" "pDirtyPrev h = last_or None xs" "pDirtyNext h = hd_or ys None"
    using assms by (auto simp: dlist_def dseg_append)
  define s1 where "s1 = (if pSynced s = Some p then s\<lparr>pSynced := pDirtyPrev h\<rparr> else s)"
  have s1: "hdr s1 = hdr s" "relinked s s1" "pDirty s1 = pDirty s" "pDirtyTail s1 = pDirtyTail s" "eCreate s1 = eCreate s"
    "pSynced s1 = (if pSynced s = Some p then last_or None xs else pSynced s)"
    using h(2) by (simp_all add: s1_def relinked_simps)
  have "\<exists>s2. (case hd_or ys None of Some q \<Rightarrow> upd q (\<lambda>x. x\<lparr>pDirtyPrev := last_or None xs\<rparr>) s1
      | None \<Rightarrow> Some (s1\<lparr>pDirtyTail := last_or None xs\<rparr>)) = Some s2
    \<and> dseg (hdr s2) None xs (Some p) \<and> dseg (hdr s2) (last_or None xs) ys None \<and> hdr s2 p = Some h \<and> relinked s1 s2
    \<and> pDirtyTail s2 = last_or (last_or None xs) ys \<and> pDirty s2 = pDirty s1 \<and> pSynced s2 = pSynced s1 \<and> eCreate s2 = eCreate s1"
  proof (cases ys)
    case Nil
    with x h(1) s1 show ?thesis by (simp add: relinked_simps)
  next
    case (Cons b bs)
    obtain g where g: "hdr s b = Some g" using y Cons by auto
    from Cons d have "b \<notin> set xs" "b \<noteq> p" "b \<notin> set bs" by auto
    with dseg_set_prev [OF y [unfolded Cons] g, of "last_or None xs"] x h(1) g s1 ht(2) Cons show ?thesis
      by (simp add: upd_def dseg_off relinked_simps core_def)
  qed
  then obtain s2 where s2: "(case pDirtyNext h of Some q \<Rightarrow> upd q (\<lambda>x. x\<lparr>pDirtyPrev := pDirtyPrev h\<rparr>) s1
      | None \<Rightarrow> Some (s1\<lparr>pDirtyTail := pDirtyPrev h\<rparr>)) = Some s2"
    "dseg (hdr s2) None xs (Some p)" "dseg (hdr s2) (last_or None xs) ys None" "hdr s2 p = Some h" "relinked s1 s2"
    "pDirtyTail s2 = last_or (last_or None xs) ys" "pDirty s2 = pDirty s1" "pSynced s2 = pSynced s1" "eCreate s2 = eCreate s1"
    unfolding h(2,3) by blast
  define r where "r = (case last_or None xs of Some q \<Rightarrow> upd q (\<lambda>x. x\<lparr>pDirtyNext := hd_or ys None\<rparr>) s2
      | None \<Rightarrow> (let s = s2\<lparr>pDirty := hd_or ys None\<rparr> in Some (if pDirty s = None then s\<lparr>eCreate := 2\<rparr> else s)))"
  have "\<exists>s'. r = Some s' \<and> dlist s' (xs @ ys) \<and> relinked s2 s' \<and> pSynced s' = pSynced s2
    \<and> eCreate s' = (if xs @ ys = [] then 2 else eCreate s2)"
  proof (cases xs rule: rev_cases)
    case Nil
    with s2 d show ?thesis by (auto simp: r_def Let_def dlist_def hd_or_None relinked_simps)
  next
    case (snoc zs z)
    obtain g where g: "hdr s2 z = Some g" using s2(2) snoc by (auto simp: dseg_append)
    from snoc d have "z \<notin> set ys" "z \<noteq> p" "z \<notin> set zs" by auto
    with dseg_set_next [OF s2(2) [unfolded snoc] g, of "hd_or ys None"] s2(3,6,7) g s1(3) ht(1) d snoc show ?thesis
      by (auto simp: r_def upd_def dlist_def dseg_append dseg_off relinked_simps core_def)
  qed
  then obtain s' where r: "r = Some s'" "dlist s' (xs @ ys)" "relinked s2 s'" "pSynced s' = pSynced s2"
    "eCreate s' = (if xs @ ys = [] then 2 else eCreate s2)" by blast
  moreover have "dirtyRemove p s = r"
    unfolding dirtyRemove_def h(1) Option.bind.bind_lunit Let_def s1_def [symmetric] s2(1,4)
    unfolding r_def h(2,3) Let_def ..
  moreover have "relinked s s'" using relinked_trans [OF relinked_trans [OF s1(2) s2(5)] r(3)] .
  ultimately show ?thesis using s1(5,6) s2(8,9) by simp
qed

lemma dirtyAdd_ok:
  assumes "dlist s ds" "p \<notin> set ds" "hdr s p = Some h"
  shows "\<exists>s'. dirtyAdd p s = Some s' \<and> dlist s' (p # ds) \<and> relinked s s'
    \<and> pSynced s' = (if pSynced s = None \<and> flags h AND PGHDR_NEED_SYNC = 0 then Some p else pSynced s)
    \<and> eCreate s' = (if ds = [] \<and> bPurgeable s then 1 else eCreate s)"
proof -
  define s1 where "s1 = s\<lparr>hdr := (hdr s)(p \<mapsto> h\<lparr>pDirtyPrev := None, pDirtyNext := pDirty s\<rparr>)\<rparr>"
  have d: "dseg (hdr s1) None ds None" using assms by (simp add: dlist_def s1_def dseg_off)
  show ?thesis
  proof (cases ds)
    case Nil
    with assms show ?thesis
      by (auto simp: dirtyAdd_def upd_def Let_def dlist_def relinked_simps core_def)
  next
    case (Cons b bs)
    obtain g where g: "hdr s1 b = Some g" using d Cons by auto
    define s2 where "s2 = s1\<lparr>hdr := (hdr s1)(b \<mapsto> g\<lparr>pDirtyPrev := Some p\<rparr>), pDirty := Some p\<rparr>"
    have ht: "pDirty s = Some b" "pDirtyTail s = last_or None ds" using assms(1) Cons by (simp_all add: dlist_def)
    have "b \<notin> set bs" "p \<noteq> b" using assms(1,2) Cons by (auto simp: dlist_def)
    from dseg_set_prev [OF d [unfolded Cons] g this(1), of "Some p"]
    have "dseg (hdr s2) (Some p) ds None" by (simp add: s2_def Cons)
    moreover have hp: "hdr s2 p = Some (h\<lparr>pDirtyPrev := None, pDirtyNext := Some b\<rparr>)"
      using \<open>p \<noteq> b\<close> ht by (simp add: s2_def s1_def)
    ultimately have "dlist s2 (p # ds)"
      using assms(1,2) ht Cons by (simp add: dlist_def) (simp add: s2_def s1_def)
    moreover have "relinked s s2"
      using assms(3) g \<open>p \<noteq> b\<close> by (simp add: relinked_simps core_def s2_def s1_def)
    moreover have "dirtyAdd p s = Some (if pSynced s2 = None \<and> flags h AND PGHDR_NEED_SYNC = 0 then s2\<lparr>pSynced := Some p\<rparr> else s2)"
    proof -
      have "upd p (\<lambda>x. x\<lparr>pDirtyPrev := None, pDirtyNext := pDirty s\<rparr>) s = Some s1"
        using assms(3) by (simp add: upd_def s1_def)
      moreover have "upd b (\<lambda>x. x\<lparr>pDirtyPrev := Some p\<rparr>) s1 = Some (s1\<lparr>hdr := (hdr s1)(b \<mapsto> g\<lparr>pDirtyPrev := Some p\<rparr>)\<rparr>)"
        using g by (simp add: upd_def)
      moreover have "pDirty s1 = Some b" using ht by (simp add: s1_def)
      ultimately show ?thesis using hp by (simp add: dirtyAdd_def Let_def s2_def)
    qed
    moreover have "pSynced s2 = pSynced s" "eCreate s2 = eCreate s" by (simp_all add: s2_def s1_def)
    ultimately show ?thesis using Cons by (simp add: dlist_def relinked_simps)
  qed
qed


section \<open>States of the list, headers as pages see them\<close>

text \<open>
  \<open>mid s C ds\<close>: the pointers of \<open>s\<close> form the dirty list \<open>ds\<close>, \<open>pSynced\<close> points into it or is NULL,
  \<open>eCreate\<close> says whether it is empty, and \<open>C\<close> is what the headers hold otherwise.
\<close>

definition mid :: "'m pcache \<Rightarrow> (nat \<rightharpoonup> nat \<times> u16 \<times> int) \<Rightarrow> nat list \<Rightarrow> bool" where
  "mid s C ds \<longleftrightarrow> dlist s ds \<and> cores s = C \<and> (\<forall>a. pSynced s = Some a \<longrightarrow> a \<in> set ds)
     \<and> eCreate s = (if bPurgeable s \<and> ds \<noteq> [] then 1 else 2)"

lemma cores_cong: "hdr s' = hdr s \<Longrightarrow> cores s' = cores s"
  by (simp add: cores_def fun_eq_iff)

lemma mid_cong:
  "mid s C ds \<Longrightarrow> hdr s' = hdr s \<Longrightarrow> pDirty s' = pDirty s \<Longrightarrow> pDirtyTail s' = pDirtyTail s \<Longrightarrow> pSynced s' = pSynced s
   \<Longrightarrow> eCreate s' = eCreate s \<Longrightarrow> bPurgeable s' = bPurgeable s \<Longrightarrow> mid s' C ds"
  using cores_cong [of s' s] by (simp add: mid_def dlist_def)

lemma mid_dlist: "mid s C ds \<Longrightarrow> dlist s ds"
  by (simp add: mid_def)

lemma mid_hdr:
  assumes "mid s C ds"
  shows "hdr s a = Some h \<Longrightarrow> C a = Some (core h)" "C a = Some c \<Longrightarrow> \<exists>h. hdr s a = Some h \<and> core h = c"
    "hdr s a = None \<longleftrightarrow> C a = None"
  using assms by (auto simp: mid_def cores_def)

lemma dlist_mem: "dlist s ds \<Longrightarrow> a \<in> set ds \<Longrightarrow> \<exists>h. hdr s a = Some h"
  unfolding dlist_def using dseg_mem by blast

lemma mid_mem: "mid s C ds \<Longrightarrow> a \<in> set ds \<Longrightarrow> \<exists>c. C a = Some c"
  using dlist_mem [of s ds a] mid_hdr(1) [of s C ds a] mid_dlist [of s C ds] by blast

definition keeps_links :: "(pghdr \<Rightarrow> pghdr) \<Rightarrow> ((nat \<times> u16 \<times> int) \<Rightarrow> (nat \<times> u16 \<times> int)) \<Rightarrow> bool" where
  "keeps_links f g \<longleftrightarrow> (\<forall>h. core (f h) = g (core h) \<and> pDirtyNext (f h) = pDirtyNext h \<and> pDirtyPrev (f h) = pDirtyPrev h)"

lemma keeps_links_simps:
  "keeps_links (\<lambda>h. h\<lparr>flags := F (flags h)\<rparr>) (\<lambda>(k, f, n). (k, F f, n))"
  "keeps_links (\<lambda>h. h\<lparr>nRef := N (nRef h)\<rparr>) (\<lambda>(k, f, n). (k, f, N n))"
  "keeps_links (\<lambda>h. h\<lparr>pgno := k'\<rparr>) (\<lambda>(k, f, n). (k', f, n))"
  by (simp_all add: keeps_links_def core_def)

lemma upd_mid:
  assumes "mid s C ds" "C a = Some c" "keeps_links f g"
  shows "\<exists>s'. upd a f s = Some s' \<and> mid s' (C(a \<mapsto> g c)) ds \<and> same_rest s s'"
proof -
  obtain h where h: "hdr s a = Some h" "core h = c" using mid_hdr(2) [OF assms(1,2)] by blast
  define s' where "s' = s\<lparr>hdr := (hdr s)(a \<mapsto> f h)\<rparr>"
  have "dseg (hdr s') None ds None"
  proof (rule dseg_links)
    show "dseg (hdr s) None ds None" using assms(1) by (simp add: mid_def dlist_def)
    show "\<exists>h'. hdr s' b = Some h' \<and> pDirtyPrev h' = pDirtyPrev g \<and> pDirtyNext h' = pDirtyNext g"
      if "hdr s b = Some g" for b g
      using that h(1) assms(3) by (cases "b = a") (auto simp: s'_def keeps_links_def)
  qed
  then have "dlist s' ds" using assms(1) by (simp add: mid_def dlist_def s'_def)
  moreover have "cores s' = C(a \<mapsto> g c)"
    using assms(1,3) h(2) by (auto simp: mid_def cores_def fun_eq_iff s'_def keeps_links_def)
  ultimately have "mid s' (C(a \<mapsto> g c)) ds" using assms(1) by (simp add: mid_def s'_def)
  moreover have "upd a f s = Some s'" using h(1) by (simp add: upd_def s'_def)
  ultimately show ?thesis by (auto simp: same_rest_def s'_def)
qed

lemma remove_mid:
  assumes "mid s C ds" "p \<in> set ds"
  shows "\<exists>s'. dirtyRemove p s = Some s' \<and> mid s' C (remove1 p ds) \<and> same_rest s s'"
proof -
  obtain xs ys where ds: "ds = xs @ p # ys" "p \<notin> set xs" using split_list_first [OF assms(2)] by blast
  have r: "remove1 p ds = xs @ ys" using ds by (simp add: remove1_append)
  obtain s' where s': "dirtyRemove p s = Some s'" "dlist s' (xs @ ys)" "relinked s s'"
    "pSynced s' = (if pSynced s = Some p then last_or None xs else pSynced s)"
    "eCreate s' = (if xs @ ys = [] then 2 else eCreate s)"
    using dirtyRemove_ok [OF mid_dlist [OF assms(1), unfolded ds(1)]] by blast
  have "\<forall>a. pSynced s' = Some a \<longrightarrow> a \<in> set (xs @ ys)"
    using s'(4) last_or_mem [of None xs] assms(1) ds(1) by (auto simp: mid_def)
  moreover have "cores s' = C" using s'(3) assms(1) by (auto simp: relinked_def mid_def)
  ultimately have "mid s' C (xs @ ys)"
    using s'(2,3,5) assms(1) ds(1) by (simp add: mid_def relinked_def same_rest_def)
  with s'(1,3) r show ?thesis by (auto simp: relinked_def)
qed

lemma add_mid:
  assumes "mid s C ds" "p \<notin> set ds" "C p = Some c"
  shows "\<exists>s'. dirtyAdd p s = Some s' \<and> mid s' C (p # ds) \<and> same_rest s s'"
proof -
  obtain h where h: "hdr s p = Some h" using mid_hdr(2) [OF assms(1,3)] by blast
  obtain s' where s': "dirtyAdd p s = Some s'" "dlist s' (p # ds)" "relinked s s'"
    "pSynced s' = (if pSynced s = None \<and> flags h AND PGHDR_NEED_SYNC = 0 then Some p else pSynced s)"
    "eCreate s' = (if ds = [] \<and> bPurgeable s then 1 else eCreate s)"
    using dirtyAdd_ok [OF mid_dlist [OF assms(1)] assms(2) h] by blast
  have "\<forall>a. pSynced s' = Some a \<longrightarrow> a \<in> set (p # ds)" using s'(4) assms(1) by (simp add: mid_def)
  moreover have "cores s' = C" using s'(3) assms(1) by (auto simp: relinked_def mid_def)
  ultimately have "mid s' C (p # ds)"
    using s'(2,3,5) assms(1) by (auto simp: mid_def relinked_def same_rest_def)
  with s'(1,3) show ?thesis by (auto simp: relinked_def)
qed

lemma manage_eval:
  "pcacheManageDirtyList p PCACHE_DIRTYLIST_REMOVE s = dirtyRemove p s"
  "pcacheManageDirtyList p PCACHE_DIRTYLIST_ADD s = dirtyAdd p s"
  "pcacheManageDirtyList p PCACHE_DIRTYLIST_FRONT s = Option.bind (dirtyRemove p s) (dirtyAdd p)"
  by (cases "dirtyRemove p s"; simp add: pcacheManageDirtyList_def PCACHE_DIRTYLIST_REMOVE_def PCACHE_DIRTYLIST_ADD_def
      PCACHE_DIRTYLIST_FRONT_def)+

lemma manage_add: "pcacheManageDirtyList p PCACHE_DIRTYLIST_ADD = dirtyAdd p"
  by (rule ext) (rule manage_eval)

lemma same_rest_trans: "same_rest s s' \<Longrightarrow> same_rest s' s'' \<Longrightarrow> same_rest s s''"
  by (simp add: same_rest_def)

lemma front_mid:
  assumes "mid s C ds" "p \<in> set ds"
  shows "\<exists>s'. pcacheManageDirtyList p PCACHE_DIRTYLIST_FRONT s = Some s' \<and> mid s' C (p # remove1 p ds) \<and> same_rest s s'"
proof -
  obtain s1 where s1: "dirtyRemove p s = Some s1" "mid s1 C (remove1 p ds)" "same_rest s s1"
    using remove_mid [OF assms] by blast
  have "p \<notin> set (remove1 p ds)" using assms(1) by (simp add: mid_def dlist_def)
  moreover obtain c where "C p = Some c" using mid_mem [OF assms] by blast
  ultimately obtain s2 where "dirtyAdd p s1 = Some s2" "mid s2 C (p # remove1 p ds)" "same_rest s1 s2"
    using add_mid [OF s1(2)] by blast
  with s1 same_rest_trans show ?thesis by (auto simp: manage_eval)
qed

lemma nextList_dseg: "dseg H p ds None \<Longrightarrow> nextList H (hd_or ds None) = Some ds"
proof (induction ds arbitrary: p)
  case Nil
  show ?case by (subst nextList.simps) simp
next
  case (Cons a ds)
  then obtain h where "H a = Some h" "pDirtyNext h = hd_or ds None" "nextList H (hd_or ds None) = Some ds" by auto
  then show ?case by (subst nextList.simps) simp
qed

lemma walkPrev_dseg:
  "dseg H None ds n \<Longrightarrow>
   (walkPrev P H (last_or None ds) = Some None \<and> (\<forall>a\<in>set ds. \<exists>h. H a = Some h \<and> P h))
   \<or> (\<exists>xs a ys h. ds = xs @ a # ys \<and> walkPrev P H (last_or None ds) = Some (Some a) \<and> H a = Some h \<and> \<not> P h
        \<and> (\<forall>b\<in>set ys. \<exists>g. H b = Some g \<and> P g))"
proof (induction ds arbitrary: n rule: rev_induct)
  case Nil
  show ?case by (subst walkPrev.simps) simp
next
  case (snoc a ds)
  then obtain h where h: "H a = Some h" "pDirtyPrev h = last_or None ds" and d: "dseg H None ds (Some a)"
    by (auto simp: dseg_append)
  have w: "walkPrev P H (last_or None (ds @ [a])) = (if P h then walkPrev P H (last_or None ds) else Some (Some a))"
    using h by (subst walkPrev.simps) simp
  show ?case
  proof (cases "P h")
    case False
    then have "ds @ [a] = ds @ a # [] \<and> walkPrev P H (last_or None (ds @ [a])) = Some (Some a) \<and> H a = Some h \<and> \<not> P h
        \<and> (\<forall>b\<in>set []. \<exists>g. H b = Some g \<and> P g)" using w h by simp
    then show ?thesis by blast
  next
    case True
    from snoc.IH [OF d] show ?thesis
    proof
      assume "walkPrev P H (last_or None ds) = Some None \<and> (\<forall>a\<in>set ds. \<exists>h. H a = Some h \<and> P h)"
      then show ?thesis using True w h(1) by simp
    next
      assume "\<exists>xs b ys h. ds = xs @ b # ys \<and> walkPrev P H (last_or None ds) = Some (Some b) \<and> H b = Some h \<and> \<not> P h
        \<and> (\<forall>b\<in>set ys. \<exists>g. H b = Some g \<and> P g)"
      then obtain xs b ys g where "ds = xs @ b # ys" "walkPrev P H (last_or None ds) = Some (Some b)" "H b = Some g" "\<not> P g"
        "\<forall>b\<in>set ys. \<exists>g. H b = Some g \<and> P g" by (elim exE conjE) (rule that)
      then have "ds @ [a] = xs @ b # (ys @ [a]) \<and> walkPrev P H (last_or None (ds @ [a])) = Some (Some b) \<and> H b = Some g \<and> \<not> P g
        \<and> (\<forall>b\<in>set (ys @ [a]). \<exists>g. H b = Some g \<and> P g)" using w True h(1) by simp
      then show ?thesis by blast
    qed
  qed
qed


section \<open>The invariant\<close>

text \<open>
  \<open>pageok\<close>: a page of a purgeable cache (or not) that is dirty (or not) and pinned (or not): exactly one of CLEAN and
  DIRTY, WRITEABLE only if dirty, and it is pinned as long as it is dirty or referenced.
\<close>

definition pageok :: "bool \<Rightarrow> bool \<Rightarrow> bool \<Rightarrow> nat \<times> u16 \<times> int \<Rightarrow> bool" where
  "pageok purge dirty pinned c \<longleftrightarrow> (case c of (k, f, n) \<Rightarrow>
     0 < k \<and> (bit f 1 \<longleftrightarrow> dirty) \<and> (bit f 0 \<longleftrightarrow> \<not> dirty) \<and> (bit f 2 \<longrightarrow> dirty) \<and> 0 \<le> n \<and> n < 2 ^ 15
     \<and> (dirty \<longrightarrow> pinned) \<and> (\<not> pinned \<longrightarrow> n = 0) \<and> (pinned \<and> \<not> dirty \<and> purge \<longrightarrow> 0 < n))"

definition good :: "bool \<Rightarrow> nat set \<Rightarrow> (nat \<rightharpoonup> nat \<times> u16 \<times> int) \<Rightarrow> (nat \<rightharpoonup> nat) \<Rightarrow> nat set \<Rightarrow> bool" where
  "good purge D C R P \<longleftrightarrow> (\<forall>a c. C a = Some c \<longrightarrow> pageok purge (a \<in> D) (a \<in> P) c)
     \<and> (\<forall>k a. R k = Some a \<longrightarrow> (\<exists>f n. C a = Some (k, f, n)))"

definition refsum :: "(nat \<rightharpoonup> nat \<times> u16 \<times> int) \<Rightarrow> nat set \<Rightarrow> int" where
  "refsum C P = (\<Sum>a\<in>P. case C a of None \<Rightarrow> 0 | Some (k, f, n) \<Rightarrow> n)"

definition pcinv ::
  "('m \<Rightarrow> (nat \<rightharpoonup> nat) \<Rightarrow> nat set \<Rightarrow> bool) \<Rightarrow> 'm pcache \<Rightarrow> (nat \<rightharpoonup> nat \<times> u16 \<times> int) \<Rightarrow> nat list \<Rightarrow> (nat \<rightharpoonup> nat) \<Rightarrow> nat set \<Rightarrow> bool"
where
  "pcinv rel s C ds R P \<longleftrightarrow> mid s C ds \<and> (\<exists>m. pCache s = Some m \<and> rel m R P)
     \<and> good (bPurgeable s) (set ds) C R P \<and> nRefSum s = refsum C P"

definition pcok :: "('m \<Rightarrow> (nat \<rightharpoonup> nat) \<Rightarrow> nat set \<Rightarrow> bool) \<Rightarrow> 'm pcache \<Rightarrow> bool" where
  "pcok rel s \<longleftrightarrow> (\<exists>C ds R P. pcinv rel s C ds R P)"

text \<open>
  What the users of the cache see: the pages with references (number and count), and the dirty pages (number).
\<close>

definition held :: "(nat \<rightharpoonup> nat \<times> u16 \<times> int) \<Rightarrow> nat \<rightharpoonup> nat \<times> int" where
  "held C a = (case C a of None \<Rightarrow> None | Some (k, f, n) \<Rightarrow> if n = 0 then None else Some (k, n))"

definition unsaved :: "(nat \<rightharpoonup> nat \<times> u16 \<times> int) \<Rightarrow> nat \<rightharpoonup> nat" where
  "unsaved C a = (case C a of None \<Rightarrow> None | Some (k, f, n) \<Rightarrow> if bit f 1 then Some k else None)"

definition count_at :: "(nat \<rightharpoonup> nat \<times> int) \<Rightarrow> nat \<Rightarrow> int" where
  "count_at H a = (case H a of None \<Rightarrow> 0 | Some (k, n) \<Rightarrow> n)"

definition dirty_upto :: "nat \<Rightarrow> (nat \<rightharpoonup> nat) \<Rightarrow> nat \<rightharpoonup> nat" where
  "dirty_upto lim D a = (case D a of None \<Rightarrow> None | Some k \<Rightarrow> if k \<le> lim then Some k else None)"

lemma held_upd [simp]:
  "held (C(a \<mapsto> (k, f, n))) = (held C)(a := if n = 0 then None else Some (k, n))" "held (C(a := None)) = (held C)(a := None)"
  by (simp_all add: held_def fun_eq_iff)

lemma unsaved_upd [simp]:
  "unsaved (C(a \<mapsto> (k, f, n))) = (unsaved C)(a := if bit f 1 then Some k else None)" "unsaved (C(a := None)) = (unsaved C)(a := None)"
  by (simp_all add: unsaved_def fun_eq_iff)

lemma held_at: "C a = Some (k, f, n) \<Longrightarrow> held C a = (if n = 0 then None else Some (k, n))"
  by (simp add: held_def)

lemma unsaved_at: "C a = Some (k, f, n) \<Longrightarrow> unsaved C a = (if bit f 1 then Some k else None)"
  by (simp add: unsaved_def)

lemma held_flags: "C a = Some (k, f, n) \<Longrightarrow> held (C(a \<mapsto> (k, f', n))) = held C"
  by (auto simp: held_at fun_eq_iff)

lemma unsaved_flags: "C a = Some (k, f, n) \<Longrightarrow> bit f' 1 = bit f 1 \<Longrightarrow> unsaved (C(a \<mapsto> (k, f', n'))) = unsaved C"
  by (auto simp: unsaved_at fun_eq_iff)

text \<open>Cleaning pages changes no page number and no reference count.\<close>

definition same_refs :: "(nat \<rightharpoonup> nat \<times> u16 \<times> int) \<Rightarrow> (nat \<rightharpoonup> nat \<times> u16 \<times> int) \<Rightarrow> bool" where
  "same_refs C C' \<longleftrightarrow> (\<forall>a. map_option (\<lambda>(k, f, n). (k, n)) (C' a) = map_option (\<lambda>(k, f, n). (k, n)) (C a))"

lemma same_refs_trans: "same_refs C C' \<Longrightarrow> same_refs C' C'' \<Longrightarrow> same_refs C C''"
  by (simp add: same_refs_def)

lemma same_refs_refl [simp]: "same_refs C C"
  by (simp add: same_refs_def)

lemma same_refs_upd: "C a = Some (k, f, n) \<Longrightarrow> same_refs C (C(a \<mapsto> (k, f', n)))"
  by (simp add: same_refs_def)

lemma same_refsD: "same_refs C C' \<Longrightarrow> C' a = Some (k, f', n) \<Longrightarrow> \<exists>f. C a = Some (k, f, n)"
  unfolding same_refs_def by (drule spec [of _ a]) (cases "C a"; auto)

lemma same_refs_held: "same_refs C C' \<Longrightarrow> held C' = held C"
proof (rule ext)
  fix a
  assume "same_refs C C'"
  then have "map_option (\<lambda>(k, f, n). (k, n)) (C' a) = map_option (\<lambda>(k, f, n). (k, n)) (C a)" by (simp add: same_refs_def)
  then show "held C' a = held C a" unfolding held_def by (cases "C a"; cases "C' a") auto
qed

lemma pcokI: "pcinv rel s C ds R P \<Longrightarrow> pcok rel s"
  unfolding pcok_def by blast

lemma goodD:
  assumes "good b D C R P"
  shows "C a = Some c \<Longrightarrow> pageok b (a \<in> D) (a \<in> P) c" "R k = Some a \<Longrightarrow> \<exists>f n. C a = Some (k, f, n)"
  using assms unfolding good_def by blast+

lemma pcinvD:
  assumes "pcinv rel s C ds R P"
  shows "mid s C ds" "\<exists>m. pCache s = Some m \<and> rel m R P" "nRefSum s = refsum C P"
    "C a = Some c \<Longrightarrow> pageok (bPurgeable s) (a \<in> set ds) (a \<in> P) c"
    "R k = Some a \<Longrightarrow> \<exists>f n. C a = Some (k, f, n)" "distinct ds" "good (bPurgeable s) (set ds) C R P"
  using assms goodD [of "bPurgeable s" "set ds" C R P] unfolding pcinv_def mid_def dlist_def by simp_all

lemma refsum_cong: "(\<And>a. a \<in> P \<Longrightarrow> C a = C' a) \<Longrightarrow> refsum C P = refsum C' P"
  unfolding refsum_def by (rule sum.cong) auto

lemma refsum_split:
  "finite P \<Longrightarrow> a \<in> P \<Longrightarrow> C a = Some (k, f, n) \<Longrightarrow> refsum C P = n + refsum C (P - {a})"
  unfolding refsum_def by (simp add: sum.remove [of P a])

lemma refsum_upd:
  assumes "finite P" "C a = Some (k, f, n)"
  shows "refsum (C(a \<mapsto> (k', f', n'))) P = refsum C P + (if a \<in> P then n' - n else 0)"
proof (cases "a \<in> P")
  case True
  have "refsum (C(a \<mapsto> (k', f', n'))) (P - {a}) = refsum C (P - {a})" by (rule refsum_cong) simp
  with True refsum_split [OF assms(1) True, of "C(a \<mapsto> (k', f', n'))"] refsum_split [OF assms(1) True, of C, OF assms(2)]
  show ?thesis by simp
next
  case False
  then have "refsum (C(a \<mapsto> (k', f', n'))) P = refsum C P" by (intro refsum_cong) auto
  with False show ?thesis by simp
qed

lemma refsum_remove:
  assumes "finite P" "case C a of None \<Rightarrow> True | Some (k, f, n) \<Rightarrow> n = 0"
  shows "refsum C (P - {a}) = refsum C P"
proof (cases "a \<in> P")
  case True
  show ?thesis using assms(2) unfolding refsum_def sum.remove [OF assms(1) True]
    by (auto split: option.splits)
qed simp

lemma refsum_mono_neutral:
  assumes "finite P" "P' \<subseteq> P" "\<And>a k f n. a \<in> P - P' \<Longrightarrow> C a = Some (k, f, n) \<Longrightarrow> n = 0"
  shows "refsum C P' = refsum C P"
  unfolding refsum_def by (rule sum.mono_neutral_left) (use assms in \<open>auto split: option.splits\<close>)

context pcache_module
begin

lemma mrel_finite: "mrel m R P \<Longrightarrow> finite P"
  using mrel_wf [of m R P] finite_ran [of R] finite_subset [of P "ran R"] by simp

lemma fin:
  assumes "pcinv mrel s C ds R P"
  shows "finite P"
proof -
  obtain m where "mrel m R P" using pcinvD(2) [OF assms] by blast
  then show ?thesis by (rule mrel_finite)
qed

lemma pinned_mem:
  assumes "pcinv mrel s C ds R P" "a \<in> P"
  shows "\<exists>k f n. R k = Some a \<and> C a = Some (k, f, n)"
proof -
  obtain m where "mrel m R P" using pcinvD(2) [OF assms(1)] by blast
  then obtain k where "R k = Some a" using mrel_wf assms(2) by (fastforce simp: ran_def)
  with pcinvD(5) [OF assms(1)] show ?thesis by blast
qed

lemma good_upd:
  assumes "good b D C R P" "C a = Some (k, f, n)" "pageok b (a \<in> D') (a \<in> P') (k, f', n')"
    "D' - {a} = D - {a}" "P' - {a} = P - {a}"
  shows "good b D' (C(a \<mapsto> (k, f', n'))) R P'"
  unfolding good_def
proof (intro conjI allI impI)
  fix x c assume c: "(C(a \<mapsto> (k, f', n'))) x = Some c"
  have "x \<in> D' \<longleftrightarrow> x \<in> D" "x \<in> P' \<longleftrightarrow> x \<in> P" if "x \<noteq> a" using assms(4,5) that by blast+
  with c assms(3) goodD(1) [OF assms(1), of x c] show "pageok b (x \<in> D') (x \<in> P') c" by (cases "x = a") auto
next
  fix l x assume "R l = Some x"
  with goodD(2) [OF assms(1)] assms(2) show "\<exists>f'' n''. (C(a \<mapsto> (k, f', n'))) x = Some (l, f'', n'')" by fastforce
qed

text \<open>Taking one more reference.\<close>

lemma ref_upd:
  assumes "pcinv mrel s C ds R P" "C a = Some (k, f, n)" "a \<in> P" "n + 1 < 2 ^ 15"
  shows "\<exists>s'. upd a (\<lambda>h. h\<lparr>nRef := to_i16 (nRef h + 1)\<rparr>) s = Some s' \<and> same_rest s s'
    \<and> pcinv mrel (s'\<lparr>nRefSum := nRefSum s + 1\<rparr>) (C(a \<mapsto> (k, f, n + 1))) ds R P"
proof -
  note d = pcinvD [OF assms(1)]
  have n: "0 \<le> n" using d(4) [OF assms(2)] by (simp add: pageok_def)
  then have i: "to_i16 (n + 1) = n + 1" using assms(4) by (simp add: to_i16_def)
  obtain s' where s': "upd a (\<lambda>h. h\<lparr>nRef := to_i16 (nRef h + 1)\<rparr>) s = Some s'" "mid s' (C(a \<mapsto> (k, f, n + 1))) ds" "same_rest s s'"
    using upd_mid [OF d(1) assms(2) keeps_links_simps(2) [of "\<lambda>x. to_i16 (x + 1)"]] i by auto
  have "good (bPurgeable s) (set ds) (C(a \<mapsto> (k, f, n + 1))) R P"
    by (rule good_upd [OF d(7) assms(2)]) (use d(4) [OF assms(2)] assms(3,4) n in \<open>auto simp: pageok_def\<close>)
  moreover have "nRefSum s + 1 = refsum (C(a \<mapsto> (k, f, n + 1))) P"
    using refsum_upd [of P C a k f n, OF fin [OF assms(1)] assms(2)] assms(3) d(3) by simp
  moreover have "mid (s'\<lparr>nRefSum := nRefSum s + 1\<rparr>) (C(a \<mapsto> (k, f, n + 1))) ds" by (rule mid_cong [OF s'(2)]) simp_all
  ultimately show ?thesis using s' d(2) by (auto simp: pcinv_def same_rest_def)
qed

lemma Ref_inv:
  assumes "pcinv mrel s C ds R P" "C a = Some (k, f, n)" "0 < n" "n + 1 < 2 ^ 15"
  shows "\<exists>s'. sqlite3PcacheRef a s = Some s' \<and> pcinv mrel s' (C(a \<mapsto> (k, f, n + 1))) ds R P"
proof -
  have "a \<in> P" using pcinvD(4) [OF assms(1,2)] assms(3) by (auto simp: pageok_def)
  from ref_upd [OF assms(1,2) this assms(4)] show ?thesis by (auto simp: sqlite3PcacheRef_def same_rest_def)
qed


text \<open>A page of which nobody has a reference goes back to the module, if the cache is purgeable.\<close>

lemma Unpin_inv:
  assumes "mid s C ds" "pCache s = Some m" "mrel m R P" "a \<in> P" "C a = Some (k, f, 0)" "nRefSum s = refsum C P"
    and g: "good (bPurgeable s) (set ds) C R (if bPurgeable s then P - {a} else P)"
  shows "\<exists>s' R' P'. pcacheUnpin M a s = Some s' \<and> pcinv mrel s' C ds R' P' \<and> bPurgeable s' = bPurgeable s
    \<and> kept R (P - {a}) R' \<and> P - {a} \<subseteq> P' \<and> P' \<subseteq> P"
proof (cases "bPurgeable s")
  case False
  with assms show ?thesis
    by (intro exI [of _ s] exI [of _ R] exI [of _ P]) (auto simp: pcacheUnpin_def pcinv_def)
next
  case True
  obtain m' R' where m': "xUnpin M m a False = Some m'" "kept R (P - {a}) R'" "mrel m' R' (P - {a})"
    using unpin [OF assms(3,4)] by blast
  define s' where "s' = s\<lparr>pCache := Some m'\<rparr>"
  have "mid s' C ds" by (rule mid_cong [OF assms(1)]) (simp_all add: s'_def)
  moreover have "good True (set ds) C R' (P - {a})"
    using g True keptD [OF m'(2)] unfolding good_def by auto
  moreover have "finite P" using mrel_finite [OF assms(3)] .
  then have "refsum C (P - {a}) = refsum C P" by (rule refsum_remove) (simp add: assms(5))
  ultimately have "pcinv mrel s' C ds R' (P - {a})" using True assms(6) m'(3) by (simp add: pcinv_def s'_def)
  moreover have "pcacheUnpin M a s = Some s'" using True assms(2) m'(1) by (simp add: pcacheUnpin_def s'_def)
  ultimately show ?thesis using m'(2)
    by (intro exI [of _ s'] exI [of _ R'] exI [of _ "P - {a}"]) (simp add: s'_def)
qed

lemma Release_inv:
  assumes "pcinv mrel s C ds R P" "C a = Some (k, f, n)" "0 < n"
  shows "\<exists>s' ds' R' P'. sqlite3PcacheRelease M a s = Some s' \<and> pcinv mrel s' (C(a \<mapsto> (k, f, n - 1))) ds' R' P'"
proof -
  note d = pcinvD [OF assms(1)]
  note ok = d(4) [OF assms(2)]
  have a: "a \<in> P" "n < 2 ^ 15" "bit f 0 \<longleftrightarrow> a \<notin> set ds" using ok assms(3) by (auto simp: pageok_def)
  have i: "to_i16 (n - 1) = n - 1" using assms(3) a(2) by (simp add: to_i16_def)
  define s1 where "s1 = s\<lparr>nRefSum := nRefSum s - 1\<rparr>"
  define C' where "C' = C(a \<mapsto> (k, f, n - 1))"
  have "mid s1 C ds" by (rule mid_cong [OF d(1)]) (simp_all add: s1_def)
  from upd_mid [OF this assms(2) keeps_links_simps(2) [of "\<lambda>x. to_i16 (x - 1)"]] i
  obtain s2 where s2: "upd a (\<lambda>h. h\<lparr>nRef := to_i16 (nRef h - 1)\<rparr>) s1 = Some s2" "mid s2 C' ds" "same_rest s1 s2"
    by (auto simp: C'_def)
  have ca: "C' a = Some (k, f, n - 1)" by (simp add: C'_def)
  obtain h where h: "hdr s2 a = Some h" "flags h = f" "nRef h = n - 1"
    using mid_hdr(2) [OF s2(2) ca] by (auto simp: core_def)
  obtain m where m: "pCache s = Some m" "mrel m R P" using d(2) by blast
  have sum: "nRefSum s2 = refsum C' P"
    using refsum_upd [of P C a k f n k f "n - 1", OF fin [OF assms(1)] assms(2)] a(1) d(3) s2(3)
    by (simp add: C'_def same_rest_def s1_def)
  have g: "good (bPurgeable s) (set ds) C R P" using assms(1) by (simp add: pcinv_def)
  have e: "sqlite3PcacheRelease M a s =
    (if n = 1 then (if bit f 0 then pcacheUnpin M a s2 else pcacheManageDirtyList a PCACHE_DIRTYLIST_FRONT s2) else Some s2)"
    using s2(1) h by (simp add: sqlite3PcacheRelease_def s1_def Let_def flag_test)
  consider "n \<noteq> 1" | "n = 1" "a \<notin> set ds" | "n = 1" "a \<in> set ds" by blast
  then show ?thesis
  proof cases
    case 1
    have "good (bPurgeable s) (set ds) C' R P" unfolding C'_def
      by (rule good_upd [OF g assms(2)]) (use ok 1 assms(3) in \<open>auto simp: pageok_def\<close>)
    then have "pcinv mrel s2 C' ds R P" using s2 m sum by (simp add: pcinv_def same_rest_def s1_def)
    with e 1 show ?thesis unfolding C'_def by auto
  next
    case 2
    have "good (bPurgeable s2) (set ds) C' R (if bPurgeable s2 then P - {a} else P)"
      unfolding C'_def using s2(3) by (intro good_upd [OF g assms(2), THEN back_subst [where P = "\<lambda>b. good b _ _ _ _"]])
        (use ok 2 in \<open>auto simp: pageok_def same_rest_def s1_def\<close>)
    moreover have "pCache s2 = Some m" using s2(3) m(1) by (simp add: same_rest_def s1_def)
    moreover have "C' a = Some (k, f, 0)" using 2 by (simp add: C'_def)
    ultimately obtain s' R' P' where "pcacheUnpin M a s2 = Some s'" "pcinv mrel s' C' ds R' P'"
      using Unpin_inv [OF s2(2) _ m(2) a(1) _ sum] by blast
    with e 2 a(3) show ?thesis unfolding C'_def by auto
  next
    case 3
    obtain s' where s': "pcacheManageDirtyList a PCACHE_DIRTYLIST_FRONT s2 = Some s'" "mid s' C' (a # remove1 a ds)" "same_rest s2 s'"
      using front_mid [OF s2(2) 3(2)] by blast
    have st: "set (a # remove1 a ds) = set ds" using 3(2) d(6) by auto
    have "good (bPurgeable s) (set (a # remove1 a ds)) C' R P" unfolding C'_def st
      by (rule good_upd [OF g assms(2)]) (use ok 3 in \<open>auto simp: pageok_def\<close>)
    then have "pcinv mrel s' C' (a # remove1 a ds) R P" using s' s2(3) m sum by (simp add: pcinv_def same_rest_def s1_def)
    with e 3 a(3) s'(1) show ?thesis unfolding C'_def by auto
  qed
qed

text \<open>Making a dirty page clean.\<close>

lemma MakeClean_inv:
  assumes "pcinv mrel s C ds R P" "a \<in> set ds"
  shows "\<exists>s' k f f' n R' P'. sqlite3PcacheMakeClean M a s = Some s' \<and> C a = Some (k, f, n) \<and> \<not> bit f' 1
    \<and> pcinv mrel s' (C(a \<mapsto> (k, f', n))) (remove1 a ds) R' P' \<and> bPurgeable s' = bPurgeable s
    \<and> kept R (P - {a}) R' \<and> P - {a} \<subseteq> P' \<and> P' \<subseteq> P"
proof -
  note d = pcinvD [OF assms(1)]
  obtain k f n where c: "C a = Some (k, f, n)" using mid_mem [OF d(1) assms(2)] by (auto simp: prod_eq_iff)
  note ok = d(4) [OF c]
  obtain h where h: "hdr s a = Some h" "flags h = f" using mid_hdr(2) [OF d(1) c] by (auto simp: core_def)
  obtain s1 where s1: "dirtyRemove a s = Some s1" "mid s1 C (remove1 a ds)" "same_rest s s1"
    using remove_mid [OF d(1) assms(2)] by blast
  define F where "F = (\<lambda>f. (f AND NOT (PGHDR_DIRTY OR PGHDR_NEED_SYNC OR PGHDR_WRITEABLE)) OR PGHDR_CLEAN)"
  define C' where "C' = C(a \<mapsto> (k, F f, n))"
  obtain s2 where s2: "upd a (\<lambda>h. h\<lparr>flags := F (flags h)\<rparr>) s1 = Some s2" "mid s2 C' (remove1 a ds)" "same_rest s1 s2"
    using upd_mid [OF s1(2) c keeps_links_simps(1) [of F]] by (auto simp: C'_def)
  obtain g where g: "hdr s2 a = Some g" "nRef g = n" using mid_hdr(2) [OF s2(2), of a] by (auto simp: core_def C'_def)
  obtain m where m: "pCache s = Some m" "mrel m R P" using d(2) by blast
  have sum: "nRefSum s2 = refsum C' P"
    using refsum_upd [of P C a k f n k "F f" n, OF fin [OF assms(1)] c] d(3) s1(3) s2(3) by (simp add: C'_def same_rest_def)
  have e: "sqlite3PcacheMakeClean M a s = (if n = 0 then pcacheUnpin M a s2 else Some s2)"
    using h ok assms(2) s1(1) s2(1) g unfolding F_def
    by (simp add: sqlite3PcacheMakeClean_def manage_eval flag_test pageok_def)
  have F: "bit (F f) 0" "\<not> bit (F f) 1" "\<not> bit (F f) 2" by (simp_all add: F_def flag_simps)
  have P: "a \<in> P" using ok assms(2) by (simp add: pageok_def)
  have good: "good (bPurgeable s) (set ds) C R P" using assms(1) by (simp add: pcinv_def)
  have st: "set (remove1 a ds) = set ds - {a}" using d(6) by simp
  show ?thesis
  proof (cases "n = 0")
    case False
    have "good (bPurgeable s) (set ds - {a}) C' R P" unfolding C'_def
      by (rule good_upd [OF good c]) (use ok False F P in \<open>auto simp: pageok_def\<close>)
    then have "pcinv mrel s2 C' (remove1 a ds) R P" using s1(3) s2 m sum st by (simp add: pcinv_def same_rest_def)
    with e False c F(2) show ?thesis using s1(3) s2(3)
      by (intro exI [of _ s2] exI [of _ k] exI [of _ f] exI [of _ "F f"] exI [of _ n] exI [of _ R] exI [of _ P])
        (auto simp: C'_def same_rest_def)
  next
    case True
    have b: "bPurgeable s2 = bPurgeable s" using s1(3) s2(3) by (simp add: same_rest_def)
    have "good (bPurgeable s2) (set (remove1 a ds)) C' R (if bPurgeable s2 then P - {a} else P)"
      unfolding C'_def st b by (rule good_upd [OF good c]) (use ok F P True in \<open>auto simp: pageok_def\<close>)
    moreover have "pCache s2 = Some m" using s1(3) s2(3) m(1) by (simp add: same_rest_def)
    moreover have "C' a = Some (k, F f, 0)" using True by (simp add: C'_def)
    ultimately obtain s' R' P' where s': "pcacheUnpin M a s2 = Some s'" "pcinv mrel s' C' (remove1 a ds) R' P'" "bPurgeable s' = bPurgeable s2"
      "kept R (P - {a}) R'" "P - {a} \<subseteq> P'" "P' \<subseteq> P"
      using Unpin_inv [OF s2(2) _ m(2) P _ sum] by blast
    with e True c b F(2) show ?thesis
      by (intro exI [of _ s'] exI [of _ k] exI [of _ f] exI [of _ "F f"] exI [of _ n] exI [of _ R'] exI [of _ P'])
        (simp add: C'_def)
  qed
qed


lemma unsaved_iff:
  assumes "pcinv mrel s C ds R P"
  shows "unsaved C a = Some k \<longleftrightarrow> a \<in> set ds \<and> (\<exists>f n. C a = Some (k, f, n))"
  using pcinvD(4) [OF assms, of a] by (cases "C a") (auto simp: unsaved_def pageok_def)

lemma CleanAll_inv:
  "pcinv mrel s C ds R P \<Longrightarrow> \<exists>s' C' R' P'. sqlite3PcacheCleanAll M s = Some s' \<and> pcinv mrel s' C' [] R' P' \<and> same_refs C C'"
proof (induction ds arbitrary: s C R P)
  case Nil
  then have "pDirty s = None" using pcinvD(1) [of mrel s C "[]" R P] by (simp add: mid_def dlist_def)
  then have "sqlite3PcacheCleanAll M s = Some s" by (subst sqlite3PcacheCleanAll.simps) simp
  with Nil show ?case by (intro exI [of _ s] exI [of _ C] exI [of _ R] exI [of _ P]) simp
next
  case (Cons a ds)
  obtain s1 k f f' n R1 P1 where s1: "sqlite3PcacheMakeClean M a s = Some s1" "C a = Some (k, f, n)"
    "pcinv mrel s1 (C(a \<mapsto> (k, f', n))) ds R1 P1"
    using MakeClean_inv [OF Cons.prems, of a] by auto
  obtain s' C' R' P' where s': "sqlite3PcacheCleanAll M s1 = Some s'" "pcinv mrel s' C' [] R' P'"
    "same_refs (C(a \<mapsto> (k, f', n))) C'"
    using Cons.IH [OF s1(3)] by blast
  have "pDirty s = Some a" using pcinvD(1) [OF Cons.prems] by (simp add: mid_def dlist_def)
  then have "sqlite3PcacheCleanAll M s = Some s'" using s1(1) s'(1) by (subst sqlite3PcacheCleanAll.simps) simp
  with s'(2) same_refs_trans [OF same_refs_upd [of C a, OF s1(2)] s'(3)] show ?case
    by (intro exI [of _ s'] exI [of _ C'] exI [of _ R'] exI [of _ P']) simp
qed

lemma truncDirty_inv:
  "pcinv mrel s C (xs @ ys) R P \<Longrightarrow> \<forall>a\<in>set xs. \<forall>k f n. C a = Some (k, f, n) \<longrightarrow> k \<le> lim \<Longrightarrow>
   \<exists>s' C' ds' R' P'. truncDirty M lim (hd_or ys None) s = Some s' \<and> pcinv mrel s' C' ds' R' P' \<and> same_refs C C' \<and> unsaved C' = dirty_upto lim (unsaved C)
     \<and> (\<forall>a\<in>set ds'. \<forall>k f n. C' a = Some (k, f, n) \<longrightarrow> k \<le> lim)"
proof (induction ys arbitrary: s C R P xs)
  case Nil
  have "truncDirty M lim (hd_or [] None) s = Some s" by (subst truncDirty.simps) simp
  moreover have "unsaved C = dirty_upto lim (unsaved C)"
  proof (rule ext)
    fix a
    show "unsaved C a = dirty_upto lim (unsaved C) a"
    proof (cases "unsaved C a")
      case (Some k)
      with unsaved_iff [OF Nil(1), of a k] Nil(2) have "k \<le> lim" by auto
      with Some show ?thesis by (simp add: dirty_upto_def)
    qed (simp add: dirty_upto_def)
  qed
  ultimately show ?case using Nil
    by (intro exI [of _ s] exI [of _ C] exI [of _ xs] exI [of _ R] exI [of _ P]) simp
next
  case (Cons y ys)
  note d = pcinvD [OF Cons.prems(1)]
  obtain h where h: "hdr s y = Some h" "pDirtyNext h = hd_or ys None" "C y = Some (core h)"
    using mid_dlist [OF d(1)] mid_hdr(1) [OF d(1)] by (auto simp: dlist_def dseg_append)
  have st: "truncDirty M lim (hd_or (y # ys) None) s =
    (if pgno h > lim then Option.bind (sqlite3PcacheMakeClean M y s) (\<lambda>s. truncDirty M lim (hd_or ys None) s)
     else truncDirty M lim (hd_or ys None) s)"
    using h by (subst truncDirty.simps) simp
  show ?case
  proof (cases "pgno h > lim")
    case False
    have "pcinv mrel s C ((xs @ [y]) @ ys) R P" using Cons.prems(1) by simp
    moreover have "\<forall>a\<in>set (xs @ [y]). \<forall>k f n. C a = Some (k, f, n) \<longrightarrow> k \<le> lim"
      using Cons.prems(2) h(3) False by (auto simp: core_def)
    ultimately show ?thesis using Cons.IH [of s C "xs @ [y]" R P] st False by simp
  next
    case True
    have y: "y \<notin> set xs" "remove1 y (xs @ y # ys) = xs @ ys" using d(6) by (simp_all add: remove1_append)
    obtain s1 k f f' n R1 P1 where s1: "sqlite3PcacheMakeClean M y s = Some s1" "C y = Some (k, f, n)"
      "pcinv mrel s1 (C(y \<mapsto> (k, f', n))) (xs @ ys) R1 P1" "\<not> bit f' 1"
      using MakeClean_inv [OF Cons.prems(1), of y] unfolding y(2) by auto
    have "\<forall>a\<in>set xs. \<forall>k' f'' n'. (C(y \<mapsto> (k, f', n))) a = Some (k', f'', n') \<longrightarrow> k' \<le> lim"
      using Cons.prems(2) y(1) by auto
    from Cons.IH [OF s1(3) this] obtain s' C' ds' R' P' where s': "truncDirty M lim (hd_or ys None) s1 = Some s'"
      "pcinv mrel s' C' ds' R' P'" "same_refs (C(y \<mapsto> (k, f', n))) C'" "\<forall>a\<in>set ds'. \<forall>k f n. C' a = Some (k, f, n) \<longrightarrow> k \<le> lim"
      "unsaved C' = dirty_upto lim (unsaved (C(y \<mapsto> (k, f', n))))"
      by blast
    have "k = pgno h" using s1(2) h(3) by (simp add: core_def)
    then have "unsaved C' = dirty_upto lim (unsaved C)"
      using s'(5) s1(2,4) True by (auto simp: dirty_upto_def fun_eq_iff unsaved_at)
    moreover
    have "truncDirty M lim (hd_or (y # ys) None) s = Some s'" using st True s1(1) s'(1) by simp
    ultimately show ?thesis using s'(2,4) same_refs_trans [OF same_refs_upd [of C y, OF s1(2)] s'(3)]
      by (intro exI [of _ s'] exI [of _ C'] exI [of _ ds'] exI [of _ R'] exI [of _ P']) simp
  qed
qed

lemma refsum_zero:
  assumes "pcinv mrel s C ds R P" "refsum C P = 0" "C a = Some (k, f, n)"
  shows "n = 0"
proof (rule ccontr)
  assume "n \<noteq> 0"
  note ok = pcinvD(4) [OF assms(1)]
  have a: "a \<in> P" "0 < n" using ok [OF assms(3)] \<open>n \<noteq> 0\<close> by (auto simp: pageok_def)
  have "0 \<le> refsum C (P - {a})" unfolding refsum_def
    by (rule sum_nonneg) (use ok in \<open>force simp: pageok_def split: option.splits\<close>)
  with refsum_split [of P a C, OF fin [OF assms(1)] a(1) assms(3)] a(2) assms(2) show False by simp
qed

lemma Truncate_inv:
  assumes "pcinv mrel s C ds R P" "\<forall>a f n j. C a = Some (j, f, n) \<longrightarrow> 0 < n \<longrightarrow> j \<le> k \<or> j = 1"
  shows "\<exists>s' C' ds' R' P'. sqlite3PcacheTruncate M k s = Some s' \<and> pcinv mrel s' C' ds' R' P'
    \<and> held C' = held C \<and> unsaved C' = dirty_upto k (unsaved C)"
proof -
  have "pDirty s = hd_or ds None" "pCache s \<noteq> None" using pcinvD(1,2) [OF assms(1)] by (auto simp: mid_def dlist_def)
  then obtain s1 C1 ds1 R1 P1 where s1: "truncDirty M k (pDirty s) s = Some s1" "pcinv mrel s1 C1 ds1 R1 P1" "same_refs C C1"
    "unsaved C1 = dirty_upto k (unsaved C)" "\<forall>a\<in>set ds1. \<forall>j f n. C1 a = Some (j, f, n) \<longrightarrow> j \<le> k"
    using truncDirty_inv [of s C "[]" ds R P k] assms(1) by auto
  note d = pcinvD [OF s1(2)]
  have refs: "j \<le> k \<or> j = 1" if "C1 a = Some (j, f, n)" "0 < n" for a j f n
    using same_refsD [OF s1(3) that(1)] assms(2) that(2) by blast
  obtain m where m: "pCache s1 = Some m" "mrel m R1 P1" using d(2) by blast
  define l where "l = (if k = 0 \<and> nRefSum s1 \<noteq> 0 then 2 else k + 1)"
  have "\<exists>s2. Option.bind (if k = 0 \<and> nRefSum s1 \<noteq> 0 then Option.bind (moduleFetch M 1 0 s1) (\<lambda>(p, s). Some (if p \<noteq> None then 1 else k, s))
       else Some (k, s1)) (\<lambda>(k, s). Some (k + 1, s)) = Some (l, s2) \<and> pcinv mrel s2 C1 ds1 R1 P1"
  proof (cases "k = 0 \<and> nRefSum s1 \<noteq> 0")
    case False
    with s1(2) show ?thesis by (auto simp: l_def)
  next
    case True
    have "\<exists>a j f n. C1 a = Some (j, f, n) \<and> 0 < n \<and> a \<in> P1"
    proof (rule ccontr)
      assume no: "\<nexists>a j f n. C1 a = Some (j, f, n) \<and> 0 < n \<and> a \<in> P1"
      have "refsum C1 P1 = 0" unfolding refsum_def
      proof (rule sum.neutral, rule ballI)
        fix a assume a: "a \<in> P1"
        show "(case C1 a of None \<Rightarrow> 0 | Some (k, f, n) \<Rightarrow> n) = 0"
        proof (cases "C1 a")
          case (Some c)
          obtain j f n where c: "c = (j, f, n)" by (cases c)
          with no Some a have "\<not> 0 < n" by blast
          with d(4) [OF Some] c Some show ?thesis by (simp add: pageok_def)
        qed simp
      qed
      with True d(3) show False by simp
    qed
    then obtain a j f n where a: "C1 a = Some (j, f, n)" "0 < n" "a \<in> P1" by blast
    have "j = 1" using refs [OF a(1,2)] d(4) [OF a(1)] True by (auto simp: pageok_def)
    then have R1: "R1 1 = Some a" using pinned_mem [OF s1(2) a(3)] a(1) by auto
    obtain m' where m': "xFetch M m 1 0 = Some (Some (a, False), m')" "mrel m' R1 P1"
      using fetch_hit [OF m(2) R1, of 0] a(3) by (auto simp: insert_absorb)
    define s2 where "s2 = s1\<lparr>pCache := Some m'\<rparr>"
    have "mid s2 C1 ds1" by (rule mid_cong [OF d(1)]) (simp_all add: s2_def)
    then have "pcinv mrel s2 C1 ds1 R1 P1" using d(3,7) m'(2) by (simp add: pcinv_def s2_def)
    moreover have "moduleFetch M 1 0 s1 = Some (Some a, s2)" using m(1) m'(1) by (simp add: moduleFetch_def s2_def Let_def)
    ultimately show ?thesis using True by (auto simp: l_def)
  qed
  then obtain s2 where s2: "Option.bind (if k = 0 \<and> nRefSum s1 \<noteq> 0 then Option.bind (moduleFetch M 1 0 s1) (\<lambda>(p, s). Some (if p \<noteq> None then 1 else k, s))
       else Some (k, s1)) (\<lambda>(k, s). Some (k + 1, s)) = Some (l, s2)" "pcinv mrel s2 C1 ds1 R1 P1" by blast
  note e = pcinvD [OF s2(2)]
  obtain m2 where m2: "pCache s2 = Some m2" "mrel m2 R1 P1" using e(2) by blast
  have "1 \<le> l" by (simp add: l_def)
  from truncate [OF m2(2) this] obtain m3 where m3: "xTruncate M m2 l = Some m3"
    "mrel m3 (R1 |` {..<l}) (P1 \<inter> ran (R1 |` {..<l}))" by blast
  define R2 where "R2 = R1 |` {..<l}"
  define P2 where "P2 = P1 \<inter> ran R2"
  have out: "n = 0 \<and> a \<notin> set ds1" if "C1 a = Some (j, f, n)" "a \<notin> P2" for a j f n
  proof (cases "a \<in> P1")
    case False
    with e(4) [OF that(1)] show ?thesis by (auto simp: pageok_def)
  next
    case True
    have "R1 j = Some a" using pinned_mem [OF s2(2) True] that(1) by auto
    then have "a \<in> ran R2" if "j < l" using that by (intro ranI [of R2 j]) (simp add: R2_def)
    with that(2) True have j: "\<not> j < l" by (auto simp: P2_def)
    then have "a \<notin> set ds1" using s1(5) that(1) by (auto simp: l_def split: if_splits)
    moreover have "n = 0"
    proof (rule ccontr)
      assume "n \<noteq> 0"
      then have n: "0 < n" using e(4) [OF that(1)] by (simp add: pageok_def)
      with refs [OF that(1)] j have "j = 1" "k = 0" "nRefSum s1 = 0" by (auto simp: l_def split: if_splits)
      then show False using refsum_zero [OF s1(2) _ that(1)] d(3) n by simp
    qed
    ultimately show ?thesis by simp
  qed
  have "good (bPurgeable s2) (set ds1) C1 R2 P2" unfolding good_def
  proof (intro conjI allI impI)
    fix a c assume c: "C1 a = Some c"
    obtain j f n where [simp]: "c = (j, f, n)" by (cases c)
    from e(4) [OF c] out [of a j f n] c show "pageok (bPurgeable s2) (a \<in> set ds1) (a \<in> P2) c"
      by (cases "a \<in> P2") (auto simp: pageok_def P2_def)
  next
    fix j a assume "R2 j = Some a"
    then show "\<exists>f n. C1 a = Some (j, f, n)" using e(5) by (auto simp: R2_def restrict_map_def split: if_splits)
  qed
  moreover have "refsum C1 P2 = refsum C1 P1"
    by (rule refsum_mono_neutral [OF fin [OF s2(2)]]) (use out in \<open>auto simp: P2_def\<close>)
  moreover define s3 where "s3 = s2\<lparr>pCache := Some m3\<rparr>"
  moreover have "mid s3 C1 ds1" by (rule mid_cong [OF e(1)]) (simp_all add: s3_def)
  ultimately have "pcinv mrel s3 C1 ds1 R2 P2" using m3(2) e(3) by (simp add: pcinv_def P2_def R2_def)
  moreover have "sqlite3PcacheTruncate M k s = Some s3"
    using \<open>pCache s \<noteq> None\<close> s1(1) s2(1) m2(1) m3(1)
    by (auto simp: sqlite3PcacheTruncate_def s3_def split: if_splits option.splits bind_splits)
  ultimately show ?thesis using same_refs_held [OF s1(3)] s1(4) by blast
qed


lemma mid_clear:
  assumes "mid s C ds" "a \<notin> set ds"
  shows "mid (s\<lparr>pCache := m, hdr := (hdr s)(a := None)\<rparr>) (C(a := None)) ds"
proof -
  have "dlist (s\<lparr>pCache := m, hdr := (hdr s)(a := None)\<rparr>) ds"
    using assms by (simp add: mid_def dlist_def dseg_off)
  moreover have "cores (s\<lparr>pCache := m, hdr := (hdr s)(a := None)\<rparr>) = C(a := None)"
    using assms(1) by (auto simp: mid_def cores_def fun_eq_iff)
  ultimately show ?thesis using assms(1) by (simp add: mid_def)
qed

lemma Drop_inv:
  assumes "pcinv mrel s C ds R P" "C a = Some (k, f, 1)"
  shows "\<exists>s' ds' R' P'. sqlite3PcacheDrop M a s = Some s' \<and> pcinv mrel s' (C(a := None)) ds' R' P'"
proof -
  note d = pcinvD [OF assms(1)]
  note ok = d(4) [OF assms(2)]
  have P: "a \<in> P" using ok by (auto simp: pageok_def)
  obtain h where h: "hdr s a = Some h" "flags h = f" using mid_hdr(2) [OF d(1) assms(2)] by (auto simp: core_def)
  have "\<exists>s1. (if flags h AND PGHDR_DIRTY \<noteq> 0 then pcacheManageDirtyList a PCACHE_DIRTYLIST_REMOVE s else Some s) = Some s1
    \<and> mid s1 C (remove1 a ds) \<and> same_rest s s1"
  proof (cases "a \<in> set ds")
    case True
    with remove_mid [OF d(1) True] ok h(2) show ?thesis by (simp add: manage_eval flag_test pageok_def)
  next
    case False
    with d(1) ok h(2) show ?thesis by (simp add: flag_test pageok_def remove1_idem same_rest_def)
  qed
  then obtain s1 where s1: "(if flags h AND PGHDR_DIRTY \<noteq> 0 then pcacheManageDirtyList a PCACHE_DIRTYLIST_REMOVE s else Some s) = Some s1"
    "mid s1 C (remove1 a ds)" "same_rest s s1" by blast
  obtain m where m: "pCache s = Some m" "mrel m R P" using d(2) by blast
  obtain m' R' where m': "xUnpin M m a True = Some m'" "kept R (P - {a}) R'" "mrel m' R' (P - {a})" "a \<notin> ran R'"
    using unpin [OF m(2) P, of True] by auto
  define s2 where "s2 = s1\<lparr>nRefSum := nRefSum s1 - 1\<rparr>"
  define s3 where "s3 = s2\<lparr>pCache := Some m', hdr := (hdr s2)(a := None)\<rparr>"
  define C' where "C' = C(a := None)"
  have "mid s2 C (remove1 a ds)" by (rule mid_cong [OF s1(2)]) (simp_all add: s2_def)
  then have "mid s3 C' (remove1 a ds)" unfolding s3_def C'_def by (rule mid_clear) (use d(6) in simp)
  moreover have "good (bPurgeable s) (set (remove1 a ds)) C' R' (P - {a})"
    unfolding good_def
  proof (intro conjI allI impI)
    fix x c assume "C' x = Some c"
    then have x: "x \<noteq> a" "C x = Some c" by (simp_all add: C'_def split: if_splits)
    with d(4) [OF x(2)] d(6) show "pageok (bPurgeable s) (x \<in> set (remove1 a ds)) (x \<in> P - {a}) c" by simp
  next
    fix j x assume x: "R' j = Some x"
    then have "x \<noteq> a" using m'(4) by (auto simp: ran_def)
    with d(5) [OF keptD [OF m'(2) x]] show "\<exists>f n. C' x = Some (j, f, n)" by (simp add: C'_def)
  qed
  moreover have "refsum C' (P - {a}) = refsum C (P - {a})" by (rule refsum_cong) (auto simp: C'_def)
  then have "nRefSum s3 = refsum C' (P - {a})"
    using refsum_split [of P a C, OF fin [OF assms(1)] P assms(2)] d(3) s1(3) by (simp add: s3_def s2_def same_rest_def)
  ultimately have "pcinv mrel s3 C' (remove1 a ds) R' (P - {a})"
    using m'(3) s1(3) by (simp add: pcinv_def s3_def s2_def same_rest_def)
  moreover have "sqlite3PcacheDrop M a s = Some s3"
    using h(1) s1(1,3) m(1) m'(1) by (simp add: sqlite3PcacheDrop_def s3_def s2_def Let_def same_rest_def)
  ultimately show ?thesis unfolding C'_def by blast
qed

text \<open>Changing flags other than CLEAN and DIRTY.\<close>

lemma flags_upd:
  assumes "pcinv mrel s C ds R P" "C a = Some (k, f, n)" "bit (F f) 0 = bit f 0" "bit (F f) 1 = bit f 1" "bit (F f) 2 \<longrightarrow> bit f 1"
  shows "\<exists>s'. upd a (\<lambda>h. h\<lparr>flags := F (flags h)\<rparr>) s = Some s' \<and> pcinv mrel s' (C(a \<mapsto> (k, F f, n))) ds R P"
proof -
  note d = pcinvD [OF assms(1)]
  obtain s' where s': "upd a (\<lambda>h. h\<lparr>flags := F (flags h)\<rparr>) s = Some s'" "mid s' (C(a \<mapsto> (k, F f, n))) ds" "same_rest s s'"
    using upd_mid [OF d(1) assms(2) keeps_links_simps(1) [of F]] by auto
  have "good (bPurgeable s) (set ds) (C(a \<mapsto> (k, F f, n))) R P"
    by (rule good_upd [OF d(7) assms(2)]) (use d(4) [OF assms(2)] assms(3-5) in \<open>auto simp: pageok_def\<close>)
  moreover have "refsum (C(a \<mapsto> (k, F f, n))) P = refsum C P"
    using refsum_upd [of P C a k f n k "F f" n, OF fin [OF assms(1)] assms(2)] by simp
  ultimately have "pcinv mrel s' (C(a \<mapsto> (k, F f, n))) ds R P"
    using s'(2,3) d(2,3) by (simp add: pcinv_def same_rest_def)
  with s'(1) show ?thesis by blast
qed

lemma MakeDirty_inv:
  assumes "pcinv mrel s C ds R P" "C a = Some (k, f, n)" "0 < n"
  shows "\<exists>s' C' ds' R' P'. sqlite3PcacheMakeDirty a s = Some s' \<and> pcinv mrel s' C' ds' R' P'
    \<and> held C' = held C \<and> unsaved C' = (unsaved C)(a \<mapsto> k)"
proof -
  note d = pcinvD [OF assms(1)]
  obtain h where h: "hdr s a = Some h" "flags h = f" using mid_hdr(2) [OF d(1) assms(2)] by (auto simp: core_def)
  show ?thesis
  proof (cases "bit f 0 \<or> bit f 4")
    case False
    then have "sqlite3PcacheMakeDirty a s = Some s" using h by (simp add: sqlite3PcacheMakeDirty_def flag_simps)
    moreover have "bit f 1" using d(4) [OF assms(2)] False by (simp add: pageok_def)
    then have "unsaved C = (unsaved C)(a \<mapsto> k)" using assms(2) by (simp add: fun_eq_iff unsaved_at)
    ultimately show ?thesis using assms(1) by blast
  next
    case True
    define g where "g = f AND NOT PGHDR_DONT_WRITE"
    have b: "bit g 0 = bit f 0" "bit g 1 = bit f 1" "bit g 2 = bit f 2" by (simp_all add: g_def flag_simps)
    obtain s1 where s1: "upd a (\<lambda>h. h\<lparr>flags := flags h AND NOT PGHDR_DONT_WRITE\<rparr>) s = Some s1"
      "pcinv mrel s1 (C(a \<mapsto> (k, g, n))) ds R P"
      using flags_upd [OF assms(1,2), of "\<lambda>f. f AND NOT PGHDR_DONT_WRITE"] b d(4) [OF assms(2)]
      by (auto simp: g_def pageok_def)
    note e = pcinvD [OF s1(2)]
    have ca: "(C(a \<mapsto> (k, g, n))) a = Some (k, g, n)" by simp
    obtain h1 where h1: "hdr s1 a = Some h1" "flags h1 = g" using mid_hdr(2) [OF e(1) ca] by (auto simp: core_def)
    note ok = e(4) [OF ca]
    have st: "sqlite3PcacheMakeDirty a s = (if bit g 0 then
        Option.bind (upd a (\<lambda>h. h\<lparr>flags := flags h XOR (PGHDR_DIRTY OR PGHDR_CLEAN)\<rparr>) s1) (dirtyAdd a)
      else Some s1)"
      using h True s1(1) h1 by (simp add: sqlite3PcacheMakeDirty_def flag_test flag_test2 manage_add)
    show ?thesis
    proof (cases "bit g 0")
      case False
      then have "bit g 1" using ok by (simp add: pageok_def)
      then have "unsaved (C(a \<mapsto> (k, g, n))) = (unsaved C)(a \<mapsto> k)" by simp
      with st s1(2) held_flags [of C a, OF assms(2), of g] False show ?thesis by (simp del: held_upd unsaved_upd) blast
    next
      case c: True
      define g' where "g' = g XOR (PGHDR_DIRTY OR PGHDR_CLEAN)"
      define C' where "C' = C(a \<mapsto> (k, g', n))"
      obtain s2 where s2: "upd a (\<lambda>h. h\<lparr>flags := flags h XOR (PGHDR_DIRTY OR PGHDR_CLEAN)\<rparr>) s1 = Some s2"
        "mid s2 (C(a \<mapsto> (k, g, n), a \<mapsto> (k, g', n))) ds" "same_rest s1 s2"
        using upd_mid [OF e(1) ca keeps_links_simps(1) [of "\<lambda>f. f XOR (PGHDR_DIRTY OR PGHDR_CLEAN)"]]
        unfolding prod.case g'_def by blast
      have m2: "mid s2 C' ds" using s2(2) by (simp add: C'_def)
      have ad: "a \<notin> set ds" "a \<in> P" using ok c assms(3) by (auto simp: pageok_def)
      obtain s3 where s3: "dirtyAdd a s2 = Some s3" "mid s3 C' (a # ds)" "same_rest s2 s3"
        using add_mid [OF m2 ad(1), of "(k, g', n)"] by (auto simp: C'_def)
      have g': "bit g' 1" "\<not> bit g' 0" "bit g' 2 = bit g 2" using ok c by (auto simp: g'_def flag_simps pageok_def)
      then have "pageok (bPurgeable s1) True True (k, g', n)" using ok ad by (simp add: pageok_def)
      then have "good (bPurgeable s1) (set (a # ds)) (C(a \<mapsto> (k, g, n), a \<mapsto> (k, g', n))) R P"
        by (intro good_upd [OF e(7) ca]) (use ad in auto)
      moreover have "refsum C' P = nRefSum s1"
        using refsum_upd [of P "C(a \<mapsto> (k, g, n))" a k g n k g' n, OF fin [OF s1(2)]] e(3) by (simp add: C'_def)
      ultimately have "pcinv mrel s3 C' (a # ds) R P"
        using s3(2,3) s2(3) e(2) by (simp add: pcinv_def same_rest_def C'_def)
      moreover have "unsaved C' = (unsaved C)(a \<mapsto> k)" using g'(1) by (simp add: C'_def)
      moreover have "held C' = held C" unfolding C'_def by (rule held_flags [of C a, OF assms(2)])
      moreover have "sqlite3PcacheMakeDirty a s = Some s3" using st c s2(1) s3(1) by simp
      ultimately show ?thesis by blast
    qed
  qed
qed

text \<open>The loops that clear flags of all dirty pages.\<close>

lemma maskFlags_inv:
  "pcinv mrel s C (xs @ ys) R P \<Longrightarrow> bit msk 0 \<Longrightarrow> bit msk 1 \<Longrightarrow>
   \<exists>s' C'. maskFlags msk (hd_or ys None) s = Some s' \<and> pcinv mrel s' C' (xs @ ys) R P \<and> same_refs C C' \<and> unsaved C' = unsaved C"
proof (induction ys arbitrary: s C xs)
  case Nil
  have "maskFlags msk (hd_or [] None) s = Some s" by (subst maskFlags.simps) simp
  with Nil show ?case by auto
next
  case (Cons y ys)
  note d = pcinvD [OF Cons.prems(1)]
  obtain k f n where c: "C y = Some (k, f, n)" using mid_mem [OF d(1), of y] by auto
  obtain s1 where s1: "upd y (\<lambda>h. h\<lparr>flags := flags h AND msk\<rparr>) s = Some s1"
    "pcinv mrel s1 (C(y \<mapsto> (k, f AND msk, n))) (xs @ y # ys) R P"
    using flags_upd [OF Cons.prems(1) c, of "\<lambda>f. f AND msk"] Cons.prems(2,3) d(4) [OF c]
    by (auto simp: bit_and_iff pageok_def)
  have u: "bit (f AND msk) 1 = bit f 1" using Cons.prems(3) by (simp add: bit_and_iff)
  obtain h where h: "hdr s1 y = Some h" "pDirtyNext h = hd_or ys None"
    using mid_dlist [OF pcinvD(1) [OF s1(2)]] by (auto simp: dlist_def dseg_append)
  have eq: "(xs @ [y]) @ ys = xs @ y # ys" by simp
  have i: "pcinv mrel s1 (C(y \<mapsto> (k, f AND msk, n))) ((xs @ [y]) @ ys) R P" using s1(2) by simp
  obtain s' C' where s': "maskFlags msk (hd_or ys None) s1 = Some s'"
    "pcinv mrel s' C' (xs @ y # ys) R P" "same_refs (C(y \<mapsto> (k, f AND msk, n))) C'"
    "unsaved C' = unsaved (C(y \<mapsto> (k, f AND msk, n)))"
    using Cons.IH [OF i Cons.prems(2,3)] unfolding eq by (elim exE conjE) (rule that)
  have "maskFlags msk (hd_or (y # ys) None) s = Some s'" using h s1(1) s'(1) by (subst maskFlags.simps) simp
  with s'(2) same_refs_trans [OF same_refs_upd [of C y, OF c] s'(3)]
    s'(4) [unfolded unsaved_flags [of C y, OF c u]] show ?case by blast
qed

lemma synced_tail:
  assumes "pcinv mrel s C ds R P"
  shows "pcinv mrel (s\<lparr>pSynced := pDirtyTail s\<rparr>) C ds R P"
proof -
  note d = pcinvD [OF assms]
  have "cores (s\<lparr>pSynced := pDirtyTail s\<rparr>) = cores s" by (rule cores_cong) simp
  then have "mid (s\<lparr>pSynced := pDirtyTail s\<rparr>) C ds"
    using d(1) last_or_mem [of None ds] by (auto simp: mid_def dlist_def)
  with d show ?thesis by (simp add: pcinv_def)
qed

lemma ClearFlags_inv:
  assumes "pcinv mrel s C ds R P"
  shows "\<exists>s' C'. sqlite3PcacheClearSyncFlags s = Some s' \<and> pcinv mrel s' C' ds R P \<and> same_refs C C' \<and> unsaved C' = unsaved C"
    "\<exists>s' C'. sqlite3PcacheClearWritable s = Some s' \<and> pcinv mrel s' C' ds R P \<and> same_refs C C' \<and> unsaved C' = unsaved C"
proof -
  have hd: "pDirty s = hd_or ds None" using pcinvD(1) [OF assms] by (simp add: mid_def dlist_def)
  have m: "bit (NOT PGHDR_NEED_SYNC) 0" "bit (NOT PGHDR_NEED_SYNC) 1"
    "bit (NOT (PGHDR_NEED_SYNC OR PGHDR_WRITEABLE)) 0" "bit (NOT (PGHDR_NEED_SYNC OR PGHDR_WRITEABLE)) 1"
    by (simp_all add: flag_simps)
  show "\<exists>s' C'. sqlite3PcacheClearSyncFlags s = Some s' \<and> pcinv mrel s' C' ds R P \<and> same_refs C C' \<and> unsaved C' = unsaved C"
    using maskFlags_inv [of s C "[]" ds R P] assms m(1,2) synced_tail
    by (fastforce simp: sqlite3PcacheClearSyncFlags_def hd)
  show "\<exists>s' C'. sqlite3PcacheClearWritable s = Some s' \<and> pcinv mrel s' C' ds R P \<and> same_refs C C' \<and> unsaved C' = unsaved C"
    using maskFlags_inv [of s C "[]" ds R P] assms m(3,4) synced_tail
    by (fastforce simp: sqlite3PcacheClearWritable_def hd)
qed


lemma Move_inv:
  assumes "pcinv mrel s C ds R P" "C a = Some (k, f, n)" "0 < n" "R k' = None" "1 \<le> k'"
  shows "\<exists>s' ds' R' P'. sqlite3PcacheMove M a k' s = Some s' \<and> pcinv mrel s' (C(a \<mapsto> (k', f, n))) ds' R' P'"
proof -
  note d = pcinvD [OF assms(1)]
  note ok = d(4) [OF assms(2)]
  have P: "a \<in> P" using ok assms(3) by (auto simp: pageok_def)
  have R: "R k = Some a" using pinned_mem [OF assms(1) P] assms(2) by auto
  obtain h where h: "hdr s a = Some h" "pgno h = k" using mid_hdr(2) [OF d(1) assms(2)] by (auto simp: core_def)
  obtain m where m: "pCache s = Some m" "mrel m R P" using d(2) by blast
  obtain m' where m': "xRekey M m a k k' = Some m'" "mrel m' (R(k := None, k' \<mapsto> a)) P"
    using rekey [OF m(2) R P assms(4,5)] by blast
  define R' where "R' = R(k := None, k' \<mapsto> a)"
  define C' where "C' = C(a \<mapsto> (k', f, n))"
  have "mid (s\<lparr>pCache := Some m'\<rparr>) C ds" by (rule mid_cong [OF d(1)]) simp_all
  from upd_mid [OF this assms(2) keeps_links_simps(3) [of k']] obtain s1 where
    s1: "upd a (\<lambda>h. h\<lparr>pgno := k'\<rparr>) (s\<lparr>pCache := Some m'\<rparr>) = Some s1" "mid s1 C' ds" "same_rest (s\<lparr>pCache := Some m'\<rparr>) s1"
    unfolding prod.case C'_def by blast
  obtain h1 where h1: "hdr s1 a = Some h1" "flags h1 = f" using mid_hdr(2) [OF s1(2), of a] by (auto simp: core_def C'_def)
  have g: "good (bPurgeable s) (set ds) C' R' P"
    unfolding good_def
  proof (intro conjI allI impI)
    fix x c assume "C' x = Some c"
    with d(4) [of x c] ok assms(5) show "pageok (bPurgeable s) (x \<in> set ds) (x \<in> P) c"
      by (cases "x = a") (auto simp: C'_def pageok_def)
  next
    fix j x assume x: "R' j = Some x"
    show "\<exists>f n. C' x = Some (j, f, n)"
    proof (cases "j = k'")
      case True
      with x show ?thesis by (simp add: R'_def C'_def)
    next
      case False
      with x have Rj: "R j = Some x" "j \<noteq> k" by (simp_all add: R'_def split: if_splits)
      have "x \<noteq> a" using d(5) [OF Rj(1)] Rj(2) assms(2) by auto
      with d(5) [OF Rj(1)] show ?thesis by (simp add: C'_def)
    qed
  qed
  have sum: "nRefSum s1 = refsum C' P"
    using refsum_upd [of P C a k f n k' f n, OF fin [OF assms(1)] assms(2)] d(3) s1(3) by (simp add: C'_def same_rest_def)
  have e: "sqlite3PcacheMove M a k' s = (if bit f 1 \<and> bit f 3 then pcacheManageDirtyList a PCACHE_DIRTYLIST_FRONT s1 else Some s1)"
    using h m(1) m'(1) s1(1) h1 by (simp add: sqlite3PcacheMove_def flag_test)
  show ?thesis
  proof (cases "bit f 1 \<and> bit f 3")
    case False
    have "pcinv mrel s1 C' ds R' P" using s1(2,3) m'(2) g sum by (simp add: pcinv_def same_rest_def R'_def)
    with e False show ?thesis unfolding C'_def by auto
  next
    case True
    then have a: "a \<in> set ds" using ok by (simp add: pageok_def)
    obtain s2 where s2: "pcacheManageDirtyList a PCACHE_DIRTYLIST_FRONT s1 = Some s2" "mid s2 C' (a # remove1 a ds)" "same_rest s1 s2"
      using front_mid [OF s1(2) a] by blast
    have st: "set (a # remove1 a ds) = set ds" using a d(6) by auto
    have "pcinv mrel s2 C' (a # remove1 a ds) R' P"
      using s2(2,3) s1(3) m'(2) g sum unfolding pcinv_def st by (simp add: same_rest_def R'_def)
    with e True s2(1) show ?thesis unfolding C'_def by auto
  qed
qed

text \<open>The calls that let the module evict pages.\<close>

lemma evict_inv:
  assumes "pcinv mrel s C ds R P" "kept R P R'" "mrel m' R' P"
  shows "pcinv mrel (s\<lparr>pCache := Some m'\<rparr>) C ds R' P"
proof -
  note d = pcinvD [OF assms(1)]
  have "mid (s\<lparr>pCache := Some m'\<rparr>) C ds" by (rule mid_cong [OF d(1)]) simp_all
  moreover have "good (bPurgeable s) (set ds) C R' P"
    using d(7) keptD [OF assms(2)] unfolding good_def by blast
  ultimately show ?thesis using assms(3) d(3) by (simp add: pcinv_def)
qed

lemma config_inv:
  assumes "pcinv mrel s C ds R P"
  shows "pcinv mrel (s\<lparr>szCache := x\<rparr>) C ds R P" "pcinv mrel (s\<lparr>szSpill := x\<rparr>) C ds R P"
proof -
  note d = pcinvD [OF assms]
  have "mid (s\<lparr>szCache := x\<rparr>) C ds" "mid (s\<lparr>szSpill := x\<rparr>) C ds" by (rule mid_cong [OF d(1)]; simp)+
  with d show "pcinv mrel (s\<lparr>szCache := x\<rparr>) C ds R P" "pcinv mrel (s\<lparr>szSpill := x\<rparr>) C ds R P"
    by (simp_all add: pcinv_def)
qed

lemma SetCachesize_inv:
  assumes "pcinv mrel s C ds R P"
  shows "\<exists>s' R'. sqlite3PcacheSetCachesize M n s = Some s' \<and> pcinv mrel s' C ds R' P"
proof -
  define s1 where "s1 = s\<lparr>szCache := n\<rparr>"
  have s1: "pcinv mrel s1 C ds R P" unfolding s1_def by (rule config_inv [OF assms])
  obtain m where m: "pCache s1 = Some m" "mrel m R P" using pcinvD(2) [OF s1] by blast
  obtain m' R' where m': "xCachesize M m (numberOfCachePages s1) = Some m'" "kept R P R'" "mrel m' R' P"
    using cachesize [OF m(2), of "numberOfCachePages s1"] by (elim exE conjE) (rule that)
  have "sqlite3PcacheSetCachesize M n s = Some (s1\<lparr>pCache := Some m'\<rparr>)"
    using m(1) m'(1) by (simp add: sqlite3PcacheSetCachesize_def s1_def Let_def)
  with evict_inv [OF s1 m'(2,3)] show ?thesis by blast
qed

lemma Shrink_inv:
  assumes "pcinv mrel s C ds R P"
  shows "\<exists>s' R'. sqlite3PcacheShrink M s = Some s' \<and> pcinv mrel s' C ds R' P"
proof -
  obtain m where m: "pCache s = Some m" "mrel m R P" using pcinvD(2) [OF assms] by blast
  obtain m' R' where m': "xShrink M m = Some m'" "kept R P R'" "mrel m' R' P"
    using shrink [OF m(2)] by (elim exE conjE) (rule that)
  have "sqlite3PcacheShrink M s = Some (s\<lparr>pCache := Some m'\<rparr>)" using m(1) m'(1) by (simp add: sqlite3PcacheShrink_def)
  with evict_inv [OF assms m'(2,3)] show ?thesis by blast
qed

lemma SetSpillsize_inv: "pcinv mrel s C ds R P \<Longrightarrow> pcinv mrel (snd (sqlite3PcacheSetSpillsize n s)) C ds R P"
  using config_inv(2) by (auto simp: sqlite3PcacheSetSpillsize_def Let_def)

lemma pgno_inj:
  assumes "pcinv mrel s C ds R P" "a \<in> P" "b \<in> P" "C a = Some (k, f, n)" "C b = Some (k', g, m)" "k' = k"
  shows "a = b"
proof -
  have "R k = Some a" using pinned_mem [OF assms(1,2)] assms(4) by auto
  moreover have "R k = Some b" using pinned_mem [OF assms(1,3)] assms(5,6) by auto
  ultimately show ?thesis by simp
qed

lemma DirtyList_inv:
  assumes "pcinv mrel s C ds R P" "length ds < 2 ^ 31"
  shows "\<exists>l. sqlite3PcacheDirtyList s = Some l \<and> mset l = mset ds
    \<and> sorted_wrt (<) (map (\<lambda>a. case hdr s a of None \<Rightarrow> 0 | Some h \<Rightarrow> pgno h) l)"
proof -
  let ?key = "\<lambda>a. case hdr s a of None \<Rightarrow> 0 | Some h \<Rightarrow> pgno h"
  note d = pcinvD [OF assms(1)]
  have dl: "distinct ds" "nextList (hdr s) (pDirty s) = Some ds"
    using mid_dlist [OF d(1)] nextList_dseg by (auto simp: dlist_def)
  obtain l where l: "pcacheSortDirtyList ?key ds = Some l" "mset l = mset ds" "sorted (map ?key l)"
    using SortDirtyList_ok [OF assms(2), of ?key] by blast
  have "inj_on ?key (set ds)"
  proof (rule inj_onI)
    fix a b assume ab: "a \<in> set ds" "b \<in> set ds" "?key a = ?key b"
    obtain h g where hg: "hdr s a = Some h" "hdr s b = Some g"
      using dlist_mem [OF mid_dlist [OF d(1)] ab(1)] dlist_mem [OF mid_dlist [OF d(1)] ab(2)] by blast
    then have c: "C a = Some (core h)" "C b = Some (core g)" using d(1) by (auto simp: mid_def cores_def)
    have "a \<in> P" using d(4) [OF c(1)] ab(1) by (simp add: pageok_def core_def)
    moreover have "b \<in> P" using d(4) [OF c(2)] ab(2) by (simp add: pageok_def core_def)
    moreover have "pgno g = pgno h" using ab(3) hg by simp
    ultimately show "a = b" by (rule pgno_inj [OF assms(1) _ _ c [unfolded core_def]])
  qed
  moreover have "set l = set ds" using l(2) by (rule mset_eq_setD)
  moreover have "distinct l" using mset_eq_imp_distinct_iff [OF l(2)] dl(1) by simp
  ultimately have "sorted_wrt (<) (map ?key l)" using l(3) by (simp add: strict_sorted_iff distinct_map)
  moreover have "sqlite3PcacheDirtyList s = Some l" unfolding sqlite3PcacheDirtyList_def dl(2) using l(1) by simp
  ultimately show ?thesis using l(2) by blast
qed

end

section \<open>Fetching keeps the invariant\<close>

text \<open>
  What \<open>xStress\<close> may do: it keeps the invariant and all references, and at most makes the page clean that it gets.
\<close>

definition stress_ok ::
  "('m \<Rightarrow> (nat \<rightharpoonup> nat) \<Rightarrow> nat set \<Rightarrow> bool) \<Rightarrow> ('m pcache \<Rightarrow> nat \<Rightarrow> (nat \<times> 'm pcache) option) \<Rightarrow> bool"
where
  "stress_ok rel xStress \<longleftrightarrow> (\<forall>s C ds R P a. pcinv rel s C ds R P \<longrightarrow> a \<in> set ds \<longrightarrow>
     (\<exists>rc s' C' ds' R' P'. xStress s a = Some (rc, s') \<and> pcinv rel s' C' ds' R' P' \<and> nRefSum s' = nRefSum s
       \<and> held C' = held C \<and> (unsaved C' = unsaved C \<or> unsaved C' = (unsaved C)(a := None))))"

text \<open>A page may only be cleaned while nobody has a reference to it.\<close>

definition spilled :: "(nat \<rightharpoonup> nat \<times> u16 \<times> int) \<Rightarrow> (nat \<rightharpoonup> nat \<times> u16 \<times> int) \<Rightarrow> bool" where
  "spilled C C' \<longleftrightarrow> held C' = held C \<and> (unsaved C' = unsaved C \<or> (\<exists>a. held C a = None \<and> unsaved C' = (unsaved C)(a := None)))"

lemma spilled_refl: "held C' = held C \<Longrightarrow> unsaved C' = unsaved C \<Longrightarrow> spilled C C'"
  unfolding spilled_def by simp

lemma spilled_held: "spilled C C' \<Longrightarrow> held C' = held C"
  unfolding spilled_def by simp

lemma spilled_trans: "spilled C C' \<Longrightarrow> held C'' = held C' \<Longrightarrow> unsaved C'' = unsaved C' \<Longrightarrow> spilled C C''"
  unfolding spilled_def by simp

text \<open>Between \<open>sqlite3PcacheFetch\<close> and \<open>sqlite3PcacheFetchFinish\<close> page \<open>a\<close> is pinned, perhaps without a reference or a header.\<close>

definition fetched ::
  "('m \<Rightarrow> (nat \<rightharpoonup> nat) \<Rightarrow> nat set \<Rightarrow> bool) \<Rightarrow> 'm pcache \<Rightarrow> (nat \<rightharpoonup> nat \<times> u16 \<times> int) \<Rightarrow> nat list \<Rightarrow> (nat \<rightharpoonup> nat) \<Rightarrow> nat set \<Rightarrow> nat \<Rightarrow> nat \<Rightarrow> bool"
where
  "fetched rel s C ds R P k a \<longleftrightarrow> mid s C ds \<and> (\<exists>m. pCache s = Some m \<and> rel m R P) \<and> nRefSum s = refsum C P
     \<and> R k = Some a \<and> a \<in> P \<and> 0 < k
     \<and> (\<forall>x c. x \<noteq> a \<longrightarrow> C x = Some c \<longrightarrow> pageok (bPurgeable s) (x \<in> set ds) (x \<in> P) c)
     \<and> (\<forall>j x. x \<noteq> a \<longrightarrow> R j = Some x \<longrightarrow> (\<exists>f n. C x = Some (j, f, n)))
     \<and> (case C a of None \<Rightarrow> a \<notin> set ds | Some c \<Rightarrow> fst c = k \<and> pageok False (a \<in> set ds) True c)"

lemma refsum_le:
  assumes "finite P" "C a = Some (k, f, n)" "a \<in> P" "\<And>x c. C x = Some c \<Longrightarrow> 0 \<le> snd (snd c)"
  shows "n \<le> refsum C P"
proof -
  have "0 \<le> refsum C (P - {a})" unfolding refsum_def
    by (rule sum_nonneg) (use assms(4) in \<open>force split: option.splits\<close>)
  with refsum_split [of P a C, OF assms(1,3,2)] show ?thesis by simp
qed

context pcache_module
begin

lemma moduleFetch_inv:
  assumes "pcinv mrel s C ds R P" "0 < k"
  shows "\<exists>r s'. moduleFetch M k e s = Some (r, s') \<and> nRefSum s' = nRefSum s \<and> (\<forall>b. R k = Some b \<longrightarrow> r = Some b) \<and>
    (case r of None \<Rightarrow> \<exists>R'. pcinv mrel s' C ds R' P | Some a \<Rightarrow> \<exists>C' R' P'. fetched mrel s' C' ds R' P' k a \<and> held C' = held C \<and> unsaved C' = unsaved C)"
proof -
  note d = pcinvD [OF assms(1)]
  obtain m where m: "pCache s = Some m" "mrel m R P" using d(2) by blast
  show ?thesis
  proof (cases "R k")
    case (Some a)
    obtain m' where m': "xFetch M m k e = Some (Some (a, False), m')" "mrel m' R (insert a P)"
      using fetch_hit [OF m(2) Some] by blast
    define s' where "s' = s\<lparr>pCache := Some m'\<rparr>"
    obtain f n where c: "C a = Some (k, f, n)" using d(5) [OF Some] by blast
    note ok = d(4) [OF c]
    have "refsum C (insert a P) = nRefSum s"
    proof (cases "a \<in> P")
      case True
      with d(3) show ?thesis by (simp add: insert_absorb)
    next
      case False
      then have "n = 0" using ok by (simp add: pageok_def)
      with refsum_remove [of "insert a P" C a] fin [OF assms(1)] False c d(3) show ?thesis by simp
    qed
    moreover have "mid s' C ds" by (rule mid_cong [OF d(1)]) (simp_all add: s'_def)
    moreover have "pageok False (a \<in> set ds) True (k, f, n)" using ok by (auto simp: pageok_def)
    ultimately have "fetched mrel s' C ds R (insert a P) k a"
      using m'(2) Some c d(4,5) assms(2) unfolding fetched_def by (simp add: s'_def)
    moreover have "moduleFetch M k e s = Some (Some a, s')"
      using m(1) m'(1) by (simp add: moduleFetch_def s'_def Let_def)
    ultimately show ?thesis
      using Some by (intro exI [of _ "Some a"] exI [of _ s']) (auto simp: s'_def)
  next
    case None
    obtain r m' R' where f: "xFetch M m k e = Some (r, m')" "kept R P R'" "case r of None \<Rightarrow> mrel m' R' P
         | Some (a, new) \<Rightarrow> new \<and> e \<noteq> 0 \<and> a \<notin> P \<and> a \<notin> ran R' \<and> mrel m' (R'(k \<mapsto> a)) (insert a P)"
      using fetch_miss [OF m(2) None, of e] assms(2) by (auto simp: Suc_le_eq)
    show ?thesis
    proof (cases r)
      case None
      have "moduleFetch M k e s = Some (None, s\<lparr>pCache := Some m'\<rparr>)"
        using m(1) f(1) None by (simp add: moduleFetch_def Let_def)
      moreover have "pcinv mrel (s\<lparr>pCache := Some m'\<rparr>) C ds R' P"
        by (rule evict_inv [OF assms(1) f(2)]) (use f(3) None in simp)
      ultimately show ?thesis
        using \<open>R k = None\<close> by (intro exI [of _ None] exI [of _ "s\<lparr>pCache := Some m'\<rparr>"]) auto
    next
      case (Some x)
      then obtain a where x: "r = Some (a, True)" "a \<notin> P" "a \<notin> ran R'" "mrel m' (R'(k \<mapsto> a)) (insert a P)"
        using f(3) by (cases x) auto
      define s' where "s' = s\<lparr>pCache := Some m', hdr := (hdr s)(a := None)\<rparr>"
      define C' where "C' = C(a := None)"
      have ads: "a \<notin> set ds"
      proof
        assume "a \<in> set ds"
        with mid_mem [OF d(1) this] obtain c where "C a = Some c" by blast
        with d(4) \<open>a \<in> set ds\<close> x(2) show False by (fastforce simp: pageok_def)
      qed
      have "mid s' C' ds" unfolding s'_def C'_def by (rule mid_clear [OF d(1) ads])
      moreover have "refsum C' (insert a P) = refsum C' P"
        using refsum_remove [of "insert a P" C' a] fin [OF assms(1)] x(2) by (simp add: C'_def)
      moreover have "refsum C' P = refsum C P" by (rule refsum_cong) (use x(2) in \<open>auto simp: C'_def\<close>)
      moreover have "\<exists>f n. C' y = Some (j, f, n)" if "y \<noteq> a" "(R'(k \<mapsto> a)) j = Some y" for j y
      proof -
        have "R' j = Some y" using that by (auto split: if_splits)
        from d(5) [OF keptD [OF f(2) this]] that(1) show ?thesis by (simp add: C'_def)
      qed
      moreover have "pageok (bPurgeable s) (y \<in> set ds) (y \<in> insert a P) c" if "y \<noteq> a" "C' y = Some c" for y c
        using d(4) [of y c] that by (simp add: C'_def)
      moreover have "held C' = held C \<and> unsaved C' = unsaved C"
      proof (cases "C a")
        case None
        then show ?thesis by (auto simp: C'_def held_def unsaved_def fun_eq_iff)
      next
        case (Some c)
        then have "snd (snd c) = 0 \<and> \<not> bit (fst (snd c)) 1" using d(4) [OF Some] x(2) ads by (auto simp: pageok_def)
        with Some show ?thesis by (auto simp: C'_def held_def unsaved_def fun_eq_iff split: prod.split)
      qed
      note hu = this
      ultimately have "fetched mrel s' C' ds (R'(k \<mapsto> a)) (insert a P) k a"
        using x(4) d(3) ads assms(2) unfolding fetched_def by (simp add: s'_def) (simp add: C'_def)
      moreover have "moduleFetch M k e s = Some (Some a, s')"
        using m(1) f(1) x(1) by (simp add: moduleFetch_def s'_def Let_def)
      ultimately show ?thesis
        using hu \<open>R k = None\<close> by (intro exI [of _ "Some a"] exI [of _ s']) (auto simp: s'_def)
    qed
  qed
qed

lemma FetchFinish_inv:
  assumes "fetched mrel s C ds R P k a" "nRefSum s < 2 ^ 15 - 1"
  shows "\<exists>s' C'. sqlite3PcacheFetchFinish k a s = Some s' \<and> pcinv mrel s' C' ds R P
    \<and> held C' = (held C)(a \<mapsto> (k, count_at (held C) a + 1)) \<and> unsaved C' = unsaved C"
proof -
  have f: "mid s C ds" "nRefSum s = refsum C P" "R k = Some a" "a \<in> P" "0 < k"
    "\<And>x c. x \<noteq> a \<Longrightarrow> C x = Some c \<Longrightarrow> pageok (bPurgeable s) (x \<in> set ds) (x \<in> P) c"
    "\<And>j x. x \<noteq> a \<Longrightarrow> R j = Some x \<Longrightarrow> \<exists>f n. C x = Some (j, f, n)"
    "case C a of None \<Rightarrow> a \<notin> set ds | Some c \<Rightarrow> fst c = k \<and> pageok False (a \<in> set ds) True c"
    using assms(1) unfolding fetched_def by blast+
  obtain m where m: "pCache s = Some m" "mrel m R P" using assms(1) unfolding fetched_def by blast
  have finP: "finite P" using mrel_finite [OF m(2)] .
  define h0 where "h0 = \<lparr>pgno = k, flags = PGHDR_CLEAN, nRef = 0, pDirtyNext = None, pDirtyPrev = None\<rparr>"
  define s1 where "s1 = (if hdr s a = None then s\<lparr>hdr := (hdr s)(a \<mapsto> h0)\<rparr> else s)"
  define C1 where "C1 = (if C a = None then C(a \<mapsto> (k, PGHDR_CLEAN, 0)) else C)"
  have none: "hdr s a = None \<longleftrightarrow> C a = None" using mid_hdr(3) [OF f(1)] .
  have fr: "same_rest s s1" by (simp add: s1_def same_rest_def)
  have mid1: "mid s1 C1 ds"
  proof (cases "C a = None")
    case True
    have "cores (s\<lparr>hdr := (hdr s)(a \<mapsto> h0)\<rparr>) = C1"
      using f(1) True by (auto simp: mid_def cores_def fun_eq_iff C1_def h0_def core_def)
    moreover have "dlist (s\<lparr>hdr := (hdr s)(a \<mapsto> h0)\<rparr>) ds" using f(1,8) True by (simp add: mid_def dlist_def dseg_off)
    ultimately show ?thesis using f(1) True none by (simp add: s1_def mid_def)
  next
    case False
    then have "hdr s a \<noteq> None" by (subst none)
    with False have "s1 = s" "C1 = C" unfolding s1_def C1_def by (simp_all only: if_False)
    with f(1) show ?thesis by simp
  qed
  obtain fl n where c1: "C1 a = Some (k, fl, n)" "pageok False (a \<in> set ds) True (k, fl, n)"
  proof (cases "C a")
    case None
    with f(5,8) that [of PGHDR_CLEAN 0] show ?thesis by (simp add: C1_def pageok_def flag_bit)
  next
    case (Some c)
    with f(8) that [of "fst (snd c)" "snd (snd c)"] show ?thesis by (cases c) (simp add: C1_def)
  qed
  have sum1: "refsum C1 P = nRefSum s"
  proof (cases "C a = None")
    case True
    have "refsum C1 P = refsum C1 (P - {a})" using True refsum_remove [of P C1 a] finP by (simp add: C1_def)
    also have "\<dots> = refsum C (P - {a})" by (rule refsum_cong) (simp add: C1_def True)
    also have "\<dots> = refsum C P" using True refsum_remove [of P C a] finP by simp
    finally show ?thesis using f(2) by simp
  next
    case False
    then have "C1 = C" unfolding C1_def by (simp only: if_False)
    with f(2) show ?thesis by simp
  qed
  have nn: "0 \<le> snd (snd c)" if "C1 x = Some c" for x c
  proof (cases "x = a")
    case True
    with c1 that show ?thesis by (auto simp: pageok_def)
  next
    case False
    with that have "C x = Some c" by (simp add: C1_def split: if_splits)
    with f(6) [OF False this] show ?thesis by (auto simp: pageok_def)
  qed
  have "n \<le> refsum C1 P" by (rule refsum_le [of P C1 a k fl n, OF finP c1(1) f(4)]) (rule nn)
  then have n: "0 \<le> n" "n < 2 ^ 15 - 1" using nn [OF c1(1)] sum1 assms(2) by simp_all
  then have i: "to_i16 (n + 1) = n + 1" by (simp add: to_i16_def)
  define s2 where "s2 = s1\<lparr>nRefSum := nRefSum s1 + 1\<rparr>"
  have "mid s2 C1 ds" by (rule mid_cong [OF mid1]) (simp_all add: s2_def)
  from upd_mid [OF this c1(1) keeps_links_simps(2) [of "\<lambda>x. to_i16 (x + 1)"]]
  obtain s3 where s3: "upd a (\<lambda>h. h\<lparr>nRef := to_i16 (nRef h + 1)\<rparr>) s2 = Some s3"
    "mid s3 (C1(a \<mapsto> (k, fl, n + 1))) ds" "same_rest s2 s3"
    unfolding prod.case i by blast
  have "good (bPurgeable s) (set ds) (C1(a \<mapsto> (k, fl, n + 1))) R P"
    unfolding good_def
  proof (intro conjI allI impI)
    fix x c assume x: "(C1(a \<mapsto> (k, fl, n + 1))) x = Some c"
    show "pageok (bPurgeable s) (x \<in> set ds) (x \<in> P) c"
    proof (cases "x = a")
      case True
      with x c1(2) n f(4) show ?thesis by (auto simp: pageok_def)
    next
      case False
      with x have "C x = Some c" by (simp add: C1_def split: if_splits)
      with f(6) False show ?thesis by simp
    qed
  next
    fix j x assume x: "R j = Some x"
    show "\<exists>f n'. (C1(a \<mapsto> (k, fl, n + 1))) x = Some (j, f, n')"
    proof (cases "x = a")
      case True
      have "inj_on R (dom R)" using mrel_wf [OF m(2)] by blast
      then have "j = k" by (rule inj_onD) (use x True f(3) in \<open>simp_all add: domI\<close>)
      with True show ?thesis by simp
    next
      case False
      with f(7) [OF False x] show ?thesis by (auto simp: C1_def)
    qed
  qed
  moreover have "nRefSum s3 = refsum (C1(a \<mapsto> (k, fl, n + 1))) P"
    using refsum_upd [of P C1 a k fl n k fl "n + 1", OF finP c1(1)] f(4) sum1 s3(3) fr
    by (simp add: s2_def same_rest_def)
  ultimately have "pcinv mrel s3 (C1(a \<mapsto> (k, fl, n + 1))) ds R P"
    using s3(2,3) fr m unfolding pcinv_def by (simp add: s2_def same_rest_def)
  moreover have "sqlite3PcacheFetchFinish k a s = Some s3"
    unfolding sqlite3PcacheFetchFinish_def Let_def h0_def [symmetric] s1_def [symmetric]
    using s3(1) unfolding s2_def .
  moreover have "held C1 = held C \<and> unsaved C1 = unsaved C"
    by (auto simp: C1_def held_def unsaved_def fun_eq_iff flag_bit)
  moreover have "count_at (held C1) a = n" using c1(1) by (simp add: count_at_def held_at)
  moreover have "unsaved (C1(a \<mapsto> (k, fl, n + 1))) = unsaved C1" by (rule unsaved_flags [of C1 a, OF c1(1) refl])
  moreover have "held (C1(a \<mapsto> (k, fl, n + 1))) = (held C1)(a \<mapsto> (k, n + 1))" using n by simp
  ultimately show ?thesis by metis
qed

text \<open>The page that is spilled.\<close>

lemma spillVictim_ok:
  assumes "pcinv mrel s C ds R P"
  shows "\<exists>r. spillVictim s = Some (r, s\<lparr>pSynced := pSynced (snd (the (spillVictim s)))\<rparr>)
    \<and> pcinv mrel (s\<lparr>pSynced := pSynced (snd (the (spillVictim s)))\<rparr>) C ds R P
    \<and> (case r of
         None \<Rightarrow> \<forall>a\<in>set ds. \<exists>h. hdr s a = Some h \<and> nRef h \<noteq> 0
       | Some a \<Rightarrow> \<exists>xs ys h. ds = xs @ a # ys \<and> hdr s a = Some h \<and> nRef h = 0
           \<and> (flags h AND PGHDR_NEED_SYNC \<noteq> 0 \<longrightarrow> (\<forall>b\<in>set ys. \<exists>g. hdr s b = Some g \<and> nRef g \<noteq> 0)))"
proof -
  note d = pcinvD [OF assms]
  have dl: "dseg (hdr s) None ds None" "pDirtyTail s = last_or None ds" using d(1) by (simp_all add: mid_def dlist_def)
  define Q :: "pghdr \<Rightarrow> bool" where "Q = (\<lambda>h. nRef h \<noteq> 0 \<or> flags h AND PGHDR_NEED_SYNC \<noteq> 0)"
  obtain us zs where uz: "ds = us @ zs" "pSynced s = last_or None us"
  proof (cases "pSynced s")
    case None
    with that [of "[]" ds] show ?thesis by simp
  next
    case (Some b)
    then have "b \<in> set ds" using d(1) by (simp add: mid_def)
    then obtain us zs where "ds = us @ b # zs" by (meson split_list)
    with that [of "us @ [b]" zs] Some show ?thesis by simp
  qed
  have du: "dseg (hdr s) None us (hd_or zs None)" using dl(1) uz(1) by (simp add: dseg_append)
  have st: "pcinv mrel (s\<lparr>pSynced := x\<rparr>) C ds R P" if "\<forall>a. x = Some a \<longrightarrow> a \<in> set ds" for x
  proof -
    have "mid (s\<lparr>pSynced := x\<rparr>) C ds" using d(1) that cores_cong [of "s\<lparr>pSynced := x\<rparr>" s] by (simp add: mid_def dlist_def)
    with d show ?thesis by (simp add: pcinv_def)
  qed
  from walkPrev_dseg [OF du, of Q] show ?thesis
  proof
    assume "\<exists>xs a ys h. us = xs @ a # ys \<and> walkPrev Q (hdr s) (last_or None us) = Some (Some a) \<and> hdr s a = Some h \<and> \<not> Q h
        \<and> (\<forall>b\<in>set ys. \<exists>g. hdr s b = Some g \<and> Q g)"
    then obtain xs a ys h where a: "us = xs @ a # ys" "walkPrev Q (hdr s) (last_or None us) = Some (Some a)" "hdr s a = Some h" "\<not> Q h"
      by blast
    have e: "spillVictim s = Some (Some a, s\<lparr>pSynced := Some a\<rparr>)"
      using a(2) uz(2) by (simp add: spillVictim_def Q_def Let_def)
    have "ds = xs @ a # (ys @ zs)" using a(1) uz(1) by simp
    moreover have "nRef h = 0" "flags h AND PGHDR_NEED_SYNC = 0" using a(4) by (simp_all add: Q_def)
    ultimately show ?thesis using a(3) st [of "Some a"] unfolding e
      by (intro exI [of _ "Some a"] conjI) auto
  next
    assume n: "walkPrev Q (hdr s) (last_or None us) = Some None \<and> (\<forall>a\<in>set us. \<exists>h. hdr s a = Some h \<and> Q h)"
    obtain r where r: "walkPrev (\<lambda>h. nRef h \<noteq> 0) (hdr s) (last_or None ds) = Some r"
      "case r of None \<Rightarrow> \<forall>a\<in>set ds. \<exists>h. hdr s a = Some h \<and> nRef h \<noteq> 0
       | Some a \<Rightarrow> \<exists>xs ys h. ds = xs @ a # ys \<and> hdr s a = Some h \<and> nRef h = 0
           \<and> (\<forall>b\<in>set ys. \<exists>g. hdr s b = Some g \<and> nRef g \<noteq> 0)"
      using walkPrev_dseg [OF dl(1), of "\<lambda>h. nRef h \<noteq> 0"]
    proof
      assume "walkPrev (\<lambda>h. nRef h \<noteq> 0) (hdr s) (last_or None ds) = Some None \<and> (\<forall>a\<in>set ds. \<exists>h. hdr s a = Some h \<and> nRef h \<noteq> 0)"
      with that [of None] show ?thesis by simp
    next
      assume "\<exists>xs a ys h. ds = xs @ a # ys \<and> walkPrev (\<lambda>h. nRef h \<noteq> 0) (hdr s) (last_or None ds) = Some (Some a)
        \<and> hdr s a = Some h \<and> \<not> nRef h \<noteq> 0 \<and> (\<forall>b\<in>set ys. \<exists>g. hdr s b = Some g \<and> nRef g \<noteq> 0)"
      then obtain xs a ys h where "ds = xs @ a # ys" "walkPrev (\<lambda>h. nRef h \<noteq> 0) (hdr s) (last_or None ds) = Some (Some a)"
        "hdr s a = Some h" "\<not> nRef h \<noteq> 0" "\<forall>b\<in>set ys. \<exists>g. hdr s b = Some g \<and> nRef g \<noteq> 0" by blast
      with that [of "Some a"] show ?thesis by auto
    qed
    have e: "spillVictim s = Some (r, s\<lparr>pSynced := None\<rparr>)"
      using n r(1) uz(2) dl(2) by (simp add: spillVictim_def Q_def Let_def)
    have "case r of None \<Rightarrow> \<forall>a\<in>set ds. \<exists>h. hdr s a = Some h \<and> nRef h \<noteq> 0
       | Some a \<Rightarrow> \<exists>xs ys h. ds = xs @ a # ys \<and> hdr s a = Some h \<and> nRef h = 0
           \<and> (flags h AND PGHDR_NEED_SYNC \<noteq> 0 \<longrightarrow> (\<forall>b\<in>set ys. \<exists>g. hdr s b = Some g \<and> nRef g \<noteq> 0))"
      using r(2) by (cases r) auto
    then show ?thesis using st [of None] unfolding e by (intro exI [of _ r] conjI) auto
  qed
qed

lemma refcount_keep:
  assumes "pcinv mrel s C ds R P" "pcinv mrel s' C' ds' R' P'" "same_refs C C'" "P' \<subseteq> P"
  shows "nRefSum s' = nRefSum s"
proof -
  have z: "n = 0" if a: "a \<in> P - P'" "C a = Some (k, f, n)" for a k f n
  proof -
    have "map_option (\<lambda>(k, f, n). (k, n)) (C' a) = Some (k, n)" using assms(3) a(2) by (simp add: same_refs_def)
    then obtain f' where "C' a = Some (k, f', n)" by auto
    with pcinvD(4) [OF assms(2) this] a(1) show ?thesis by (simp add: pageok_def)
  qed
  have "refsum C' P' = refsum C P'" unfolding refsum_def
  proof (rule sum.cong)
    fix a
    have "map_option (\<lambda>(k, f, n). (k, n)) (C' a) = map_option (\<lambda>(k, f, n). (k, n)) (C a)" using assms(3) by (simp add: same_refs_def)
    then show "(case C' a of None \<Rightarrow> 0 | Some (k, f, n) \<Rightarrow> n) = (case C a of None \<Rightarrow> 0 | Some (k, f, n) \<Rightarrow> n)"
      by (cases "C' a"; cases "C a") auto
  qed simp
  also have "\<dots> = refsum C P" by (rule refsum_mono_neutral [OF fin [OF assms(1)] assms(4)]) (rule z)
  finally show ?thesis using pcinvD(3) [OF assms(1)] pcinvD(3) [OF assms(2)] by simp
qed

lemma MakeClean_held:
  assumes "pcinv mrel s C ds R P" "a \<in> set ds"
  shows "\<exists>s' C' ds' R' P'. sqlite3PcacheMakeClean M a s = Some s' \<and> pcinv mrel s' C' ds' R' P' \<and> nRefSum s' = nRefSum s
    \<and> held C' = held C \<and> unsaved C' = (unsaved C)(a := None)"
proof -
  obtain s' k f f' n R' P' where m: "sqlite3PcacheMakeClean M a s = Some s'" "C a = Some (k, f, n)" "\<not> bit f' 1"
    "pcinv mrel s' (C(a \<mapsto> (k, f', n))) (remove1 a ds) R' P'" "P' \<subseteq> P"
    using MakeClean_inv [OF assms] by (elim exE conjE) (rule that)
  have "nRefSum s' = nRefSum s"
    by (rule refcount_keep [OF assms(1) m(4) same_refs_upd [of C a, OF m(2)] m(5)])
  moreover have "held (C(a \<mapsto> (k, f', n))) = held C" by (rule held_flags [of C a, OF m(2)])
  moreover have "unsaved (C(a \<mapsto> (k, f', n))) = (unsaved C)(a := None)" using m(3) by simp
  ultimately show ?thesis using m(1,4) by blast
qed

lemma pagerStress_ok: "stress_ok mrel (pagerStress M e)"
  unfolding stress_ok_def
proof (intro allI impI)
  fix s C ds R P a
  assume inv: "pcinv mrel s C ds R P" and a: "a \<in> set ds"
  let ?goal = "\<lambda>x. \<exists>rc s' C' ds' R' P'. x = Some (rc, s') \<and> pcinv mrel s' C' ds' R' P' \<and> nRefSum s' = nRefSum s
    \<and> held C' = held C \<and> (unsaved C' = unsaved C \<or> unsaved C' = (unsaved C)(a := None))"
  obtain h where h: "hdr s a = Some h" using dlist_mem [OF mid_dlist [OF pcinvD(1) [OF inv]] a] by blast
  have keep: "?goal (Some (rc, s))" for rc using inv by blast
  have clean: "?goal (if rc = 0 then map_option (Pair 0) (sqlite3PcacheMakeClean M a s1) else Some (rc, s1))"
    if "pcinv mrel s1 C1 ds R P" "nRefSum s1 = nRefSum s" "held C1 = held C" "unsaved C1 = unsaved C" for rc s1 C1
  proof (cases "rc = 0")
    case True
    from MakeClean_held [OF that(1) a] obtain s' C' ds' R' P' where "sqlite3PcacheMakeClean M a s1 = Some s'"
      "pcinv mrel s' C' ds' R' P'" "nRefSum s' = nRefSum s1" "held C' = held C1" "unsaved C' = (unsaved C1)(a := None)"
      by (elim exE conjE) (rule that)
    with that(2-4) True show ?thesis by (intro exI [of _ 0] exI [of _ s'] exI [of _ C'] exI [of _ ds'] exI [of _ R'] exI [of _ P']) simp
  next
    case False
    with that show ?thesis by (intro exI [of _ rc] exI [of _ s1] exI [of _ C1] exI [of _ ds] exI [of _ R] exI [of _ P]) simp
  qed
  obtain s2 C2 where s2: "sqlite3PcacheClearSyncFlags s = Some s2" "pcinv mrel s2 C2 ds R P" "same_refs C C2" "unsaved C2 = unsaved C"
    using ClearFlags_inv(1) [OF inv] by (elim exE conjE) (rule that)
  have n2: "nRefSum s2 = nRefSum s" by (rule refcount_keep [OF inv s2(2,3)]) simp
  define G where "G = (\<lambda>rc s. if rc = 0 then map_option (Pair 0) (sqlite3PcacheMakeClean M a s) else Some (rc :: nat, s))"
  have G1: "?goal (G rc s)" for rc unfolding G_def by (rule clean [OF inv refl refl refl])
  have G2: "?goal (G rc s2)" for rc unfolding G_def by (rule clean [OF s2(2) n2 same_refs_held [OF s2(3)] s2(4)])
  have ifI: "?goal (if b then x else y)" if "?goal x" "?goal y" for b x y using that by simp
  have eq: "pagerStress M e s a = (if errCode e \<noteq> 0 then Some (0, s)
      else if doNotSpill e \<noteq> 0 \<and> (doNotSpill e AND (SPILLFLAG_ROLLBACK OR SPILLFLAG_OFF) \<noteq> 0 \<or> flags h AND PGHDR_NEED_SYNC \<noteq> 0)
      then Some (0, s)
      else if useWal e then G (if rcSubjournal e = 0 then rcFrames e else rcSubjournal e) s
      else if flags h AND PGHDR_NEED_SYNC \<noteq> 0 \<or> cacheMod e
      then (if rcSync e = 0 then G (rcWrite e) s2 else G (rcSync e) s) else G (rcWrite e) s)"
    by (simp add: pagerStress_def h s2(1) G_def)
  show "?goal (pagerStress M e s a)" unfolding eq by (rule ifI keep G1 G2)+
qed

lemma stress_inv:
  assumes "stress_ok mrel xStress" "pcinv mrel s C ds R P" "a \<in> set ds"
  shows "\<exists>rc s' C' ds' R' P'. xStress s a = Some (rc, s') \<and> pcinv mrel s' C' ds' R' P' \<and> nRefSum s' = nRefSum s
    \<and> held C' = held C \<and> (unsaved C' = unsaved C \<or> unsaved C' = (unsaved C)(a := None))"
  using assms unfolding stress_ok_def by blast

lemma FetchStress_inv:
  assumes "stress_ok mrel xStress" "pcinv mrel s C ds R P" "0 < k"
  shows "\<exists>rc r s'. sqlite3PcacheFetchStress M xStress k s = Some (rc, r, s') \<and> nRefSum s' = nRefSum s \<and>
    (case r of None \<Rightarrow> \<exists>C' ds' R' P'. pcinv mrel s' C' ds' R' P' \<and> spilled C C'
     | Some a \<Rightarrow> rc = 0 \<and> (\<exists>C' ds' R' P'. fetched mrel s' C' ds' R' P' k a \<and> spilled C C'))"
proof (cases "eCreate s = 2")
  case True
  with assms(2) spilled_refl [OF refl refl, of C] show ?thesis by (auto simp: sqlite3PcacheFetchStress_def)
next
  case False
  obtain n where n: "sqlite3PcachePagecount M s = Some n" using pcinvD(2) [OF assms(2)] by (auto simp: sqlite3PcachePagecount_def)
  have "\<exists>rc s1 C1 ds1 R1 P1. (if int n > szSpill s then Option.bind (spillVictim s)
        (\<lambda>(p, s). case p of None \<Rightarrow> Some (0, s) | Some p \<Rightarrow> xStress s p) else Some (0, s)) = Some (rc, s1)
      \<and> pcinv mrel s1 C1 ds1 R1 P1 \<and> nRefSum s1 = nRefSum s \<and> spilled C C1"
  proof (cases "int n > szSpill s")
    case False
    with assms(2) spilled_refl [OF refl refl, of C] show ?thesis by auto
  next
    case True
    define s0 where "s0 = s\<lparr>pSynced := pSynced (snd (the (spillVictim s)))\<rparr>"
    obtain r where r: "spillVictim s = Some (r, s0)" "pcinv mrel s0 C ds R P" "\<forall>a. r = Some a \<longrightarrow> a \<in> set ds \<and> held C a = None"
    proof -
      obtain r where r: "spillVictim s = Some (r, s0)" "pcinv mrel s0 C ds R P"
        "case r of None \<Rightarrow> \<forall>a\<in>set ds. \<exists>h. hdr s a = Some h \<and> nRef h \<noteq> 0
         | Some a \<Rightarrow> \<exists>xs ys h. ds = xs @ a # ys \<and> hdr s a = Some h \<and> nRef h = 0
           \<and> (flags h AND PGHDR_NEED_SYNC \<noteq> 0 \<longrightarrow> (\<forall>b\<in>set ys. \<exists>g. hdr s b = Some g \<and> nRef g \<noteq> 0))"
        using spillVictim_ok [OF assms(2)] unfolding s0_def [symmetric] by (elim exE conjE) (rule that)
      have "a \<in> set ds \<and> held C a = None" if "r = Some a" for a
      proof -
        from r(3) that obtain xs ys h where h: "ds = xs @ a # ys" "hdr s a = Some h" "nRef h = 0" by auto
        then have "C a = Some (core h)" using pcinvD(1) [OF assms(2)] by (auto simp: mid_def cores_def)
        with h show ?thesis by (simp add: core_def held_at)
      qed
      with r(1,2) show ?thesis by (intro that [of r]) blast+
    qed
    have s0: "nRefSum s0 = nRefSum s" by (simp add: s0_def)
    show ?thesis
    proof (cases r)
      case None
      with True r s0 spilled_refl [OF refl refl, of C] show ?thesis by auto
    next
      case (Some a)
      with r(3) have a: "a \<in> set ds" "held C a = None" by simp_all
      obtain rc s' C' ds' R' P' where x: "xStress s0 a = Some (rc, s')" "pcinv mrel s' C' ds' R' P'" "nRefSum s' = nRefSum s0"
        "held C' = held C" "unsaved C' = unsaved C \<or> unsaved C' = (unsaved C)(a := None)"
        using stress_inv [OF assms(1) r(2) a(1)] by (elim exE conjE) (rule that)
      have "spilled C C'" unfolding spilled_def using x(4,5) a(2) by blast
      with x(1-3) True r(1) Some s0 show ?thesis
        by (intro exI [of _ rc] exI [of _ s'] exI [of _ C'] exI [of _ ds'] exI [of _ R'] exI [of _ P']) simp
    qed
  qed
  then obtain rc s1 C1 ds1 R1 P1 where s1: "(if int n > szSpill s then Option.bind (spillVictim s)
        (\<lambda>(p, s). case p of None \<Rightarrow> Some (0, s) | Some p \<Rightarrow> xStress s p) else Some (0, s)) = Some (rc, s1)"
    "pcinv mrel s1 C1 ds1 R1 P1" "nRefSum s1 = nRefSum s" "spilled C C1" by blast
  have e: "sqlite3PcacheFetchStress M xStress k s = (if rc \<noteq> 0 \<and> rc \<noteq> 5 then Some (rc, None, s1)
      else Option.bind (moduleFetch M k 2 s1) (\<lambda>(r, s). Some (if r = None then 7 else 0, r, s)))"
    using False n s1(1) by (simp add: sqlite3PcacheFetchStress_def)
  show ?thesis
  proof (cases "rc \<noteq> 0 \<and> rc \<noteq> 5")
    case True
    with e s1 show ?thesis by auto
  next
    case False
    obtain r s' where r: "moduleFetch M k 2 s1 = Some (r, s')" "nRefSum s' = nRefSum s1"
      "case r of None \<Rightarrow> \<exists>R'. pcinv mrel s' C1 ds1 R' P1 | Some a \<Rightarrow> \<exists>C' R' P'. fetched mrel s' C' ds1 R' P' k a \<and> held C' = held C1 \<and> unsaved C' = unsaved C1"
      using moduleFetch_inv [OF s1(2) assms(3), of 2] by blast
    show ?thesis
    proof (cases r)
      case None
      with r s1(3,4) e False show ?thesis by auto
    next
      case (Some a)
      with r(3) obtain C' R' P' where f: "fetched mrel s' C' ds1 R' P' k a" "held C' = held C1" "unsaved C' = unsaved C1" by auto
      with spilled_trans [OF s1(4) f(2,3)] e False r(1,2) s1(3) Some show ?thesis by auto
    qed
  qed
qed

lemma pagerGet_inv:
  assumes "stress_ok mrel xStress" "pcinv mrel s C ds R P" "0 < k" "nRefSum s < 2 ^ 15 - 1"
  shows "\<exists>rc r s' C1 C' ds' R' P'. pagerGet M xStress k s = Some (rc, r, s') \<and> pcinv mrel s' C' ds' R' P'
    \<and> spilled C C1 \<and> unsaved C' = unsaved C1 \<and> (\<forall>b. R k = Some b \<longrightarrow> r = Some b)
    \<and> (case r of None \<Rightarrow> rc \<noteq> 0 \<and> held C' = held C
       | Some a \<Rightarrow> rc = 0 \<and> R' k = Some a \<and> held C' = (held C)(a \<mapsto> (k, count_at (held C) a + 1)))"
proof -
  obtain r s1 where r: "sqlite3PcacheFetch M k 3 s = Some (r, s1)" "nRefSum s1 = nRefSum s" "\<forall>b. R k = Some b \<longrightarrow> r = Some b"
    "case r of None \<Rightarrow> \<exists>R'. pcinv mrel s1 C ds R' P
     | Some a \<Rightarrow> \<exists>C' R' P'. fetched mrel s1 C' ds R' P' k a \<and> held C' = held C \<and> unsaved C' = unsaved C"
    using moduleFetch_inv [OF assms(2,3)] unfolding sqlite3PcacheFetch_def by blast
  have "\<exists>rc r2 s2. (if r = None then sqlite3PcacheFetchStress M xStress k s1 else Some (0, r, s1)) = Some (rc, r2, s2)
     \<and> nRefSum s2 = nRefSum s \<and> (\<forall>b. R k = Some b \<longrightarrow> r2 = Some b) \<and> (case r2 of None \<Rightarrow> \<exists>C' ds' R' P'. pcinv mrel s2 C' ds' R' P' \<and> spilled C C'
     | Some a \<Rightarrow> rc = 0 \<and> (\<exists>C' ds' R' P'. fetched mrel s2 C' ds' R' P' k a \<and> spilled C C'))"
  proof (cases r)
    case None
    then obtain R' where "pcinv mrel s1 C ds R' P" using r(4) by auto
    from FetchStress_inv [OF assms(1) this assms(3)] None r(2,3) show ?thesis by auto
  next
    case (Some a)
    with r(4) obtain C' R' P' where f: "fetched mrel s1 C' ds R' P' k a" "held C' = held C" "unsaved C' = unsaved C" by auto
    with spilled_refl [OF f(2,3)] Some r(1,2,3) show ?thesis
      by (intro exI [of _ 0] exI [of _ r] exI [of _ s1]) auto
  qed
  then obtain rc r2 s2 where s2: "(if r = None then sqlite3PcacheFetchStress M xStress k s1 else Some (0, r, s1)) = Some (rc, r2, s2)"
    "nRefSum s2 = nRefSum s" "\<forall>b. R k = Some b \<longrightarrow> r2 = Some b" "case r2 of None \<Rightarrow> \<exists>C' ds' R' P'. pcinv mrel s2 C' ds' R' P' \<and> spilled C C'
     | Some a \<Rightarrow> rc = 0 \<and> (\<exists>C' ds' R' P'. fetched mrel s2 C' ds' R' P' k a \<and> spilled C C')" by blast
  have e: "pagerGet M xStress k s = (if rc \<noteq> 0 then Some (rc, None, s2) else case r2 of None \<Rightarrow> Some (7, None, s2)
     | Some a \<Rightarrow> Option.bind (sqlite3PcacheFetchFinish k a s2) (\<lambda>s. Some (0, Some a, s)))"
    using r(1) s2(1) by (simp add: pagerGet_def)
  show ?thesis
  proof (cases r2)
    case None
    then obtain C' ds' R' P' where c: "pcinv mrel s2 C' ds' R' P'" "spilled C C'" using s2(4) by auto
    have "\<exists>rc. pagerGet M xStress k s = Some (rc, None, s2) \<and> rc \<noteq> 0" using e None by (cases "rc = 0") auto
    then obtain rc where "pagerGet M xStress k s = Some (rc, None, s2)" "rc \<noteq> 0" by blast
    with c spilled_held [OF c(2)] s2(3) None show ?thesis
      by (intro exI [of _ rc] exI [of _ None] exI [of _ s2] exI [of _ C'] exI [of _ C'] exI [of _ ds'] exI [of _ R'] exI [of _ P']) simp
  next
    case (Some a)
    then obtain C1 ds' R' P' where f: "rc = 0" "fetched mrel s2 C1 ds' R' P' k a" "spilled C C1" using s2(4) by auto
    have Rk: "R' k = Some a" using f(2) unfolding fetched_def by blast
    obtain s' C' where c: "sqlite3PcacheFetchFinish k a s2 = Some s'" "pcinv mrel s' C' ds' R' P'"
      "held C' = (held C1)(a \<mapsto> (k, count_at (held C1) a + 1))" "unsaved C' = unsaved C1"
      using FetchFinish_inv [OF f(2)] s2(2) assms(4) by auto
    with e Some f(1,3) Rk spilled_held [OF f(3)] s2(3) show ?thesis
      by (intro exI [of _ 0] exI [of _ "Some a"] exI [of _ s'] exI [of _ C1] exI [of _ C'] exI [of _ ds'] exI [of _ R'] exI [of _ P']) simp
  qed
qed

lemma PagerLookup_inv:
  assumes "pcinv mrel s C ds R P" "0 < k" "nRefSum s < 2 ^ 15 - 1"
  shows "\<exists>r s' C' R' P'. sqlite3PagerLookup M k s = Some (r, s') \<and> pcinv mrel s' C' ds R' P' \<and> unsaved C' = unsaved C
    \<and> (\<forall>b. R k = Some b \<longrightarrow> r = Some b)
    \<and> (case r of None \<Rightarrow> held C' = held C
       | Some a \<Rightarrow> R' k = Some a \<and> held C' = (held C)(a \<mapsto> (k, count_at (held C) a + 1)))"
proof -
  obtain r s1 where r: "sqlite3PcacheFetch M k 0 s = Some (r, s1)" "nRefSum s1 = nRefSum s" "\<forall>b. R k = Some b \<longrightarrow> r = Some b"
    "case r of None \<Rightarrow> \<exists>R'. pcinv mrel s1 C ds R' P
     | Some a \<Rightarrow> \<exists>C' R' P'. fetched mrel s1 C' ds R' P' k a \<and> held C' = held C \<and> unsaved C' = unsaved C"
    using moduleFetch_inv [OF assms(1,2)] unfolding sqlite3PcacheFetch_def by blast
  show ?thesis
  proof (cases r)
    case None
    with r show ?thesis by (auto simp: sqlite3PagerLookup_def)
  next
    case (Some a)
    then obtain C1 R' P' where f: "fetched mrel s1 C1 ds R' P' k a" "held C1 = held C" "unsaved C1 = unsaved C" using r(4) by auto
    have Rk: "R' k = Some a" using f(1) unfolding fetched_def by blast
    obtain s' C' where c: "sqlite3PcacheFetchFinish k a s1 = Some s'" "pcinv mrel s' C' ds R' P'"
      "held C' = (held C1)(a \<mapsto> (k, count_at (held C1) a + 1))" "unsaved C' = unsaved C1"
      using FetchFinish_inv [OF f(1)] r(2) assms(3) by auto
    with r(1,3) Some f(2,3) Rk show ?thesis
      by (intro exI [of _ "Some a"] exI [of _ s'] exI [of _ C'] exI [of _ R'] exI [of _ P']) (simp add: sqlite3PagerLookup_def)
  qed
qed

end

end
