(* ===== verification/Pcache1.thy ===== *)
theory Pcache1
  imports PcacheModule
begin

text \<open>
  The default page cache module, pcache1.c, in the mode where every cache has a group of its own
  (\<open>separateCache\<close>) and without \<open>SQLITE_ENABLE_MEMORY_MANAGEMENT\<close>.

  A page is the address of its line (\<open>PgHdr1\<close> with the buffer before it). A chain of the hash table,
  the list of local free pages, the free slots of the start-time buffer and the LRU list (between the two ends of the
  anchor, newest first) are lists of addresses; a page is unpinned if it is on the LRU list.
  The state includes what comes from outside: the outcomes of coming allocations and of
  \<open>sqlite3HeapNearlyFull\<close>, the first address not used yet, and what \<open>sqlite3MallocSize\<close>
  answers for a block of a given request. Statistics and mutexes are left out.
\<close>

section \<open>State\<close>

record pcglobal =
  nInitPage :: int
  szSlot :: nat
  nSlot :: nat
  nReserve :: nat
  pStart :: nat
  pEnd :: nat
  pFreeSlot :: "nat list"
  nFreeSlot :: nat
  bUnderPressure :: bool
  memOk :: allocs
  heapFull :: "bool list"
  brk :: nat
  mallocSize :: "nat \<Rightarrow> nat"

record pcache1 = pcglobal +
  nMaxPage :: nat
  nMinPage :: nat
  mxPinned :: nat
  nPurgeable :: nat
  lru :: "nat list"
  szPage :: nat
  szExtra :: nat
  szAlloc :: nat
  bPurgeable :: bool
  nMin :: nat
  nMax :: nat
  n90pct :: nat
  iMaxKey :: nat
  nRecyclable :: nat
  nPage :: nat
  nHash :: nat
  apHash :: "nat list list"
  pFree :: "nat list"
  pBulk :: bool
  iKey :: "nat \<Rightarrow> nat"
  isBulkLocal :: "nat \<Rightarrow> bool"

text \<open>Decrement of an \<open>unsigned int\<close>.\<close>

definition dec32 :: "nat \<Rightarrow> nat" where
  "dec32 n = (if n = 0 then 2 ^ 32 - 1 else n - 1)"

section \<open>Allocation of pages\<close>

definition sqlite3PCacheBufferSetup :: "bool \<Rightarrow> nat \<Rightarrow> nat \<Rightarrow> pcglobal \<Rightarrow> pcglobal" where
  "sqlite3PCacheBufferSetup hasBuf sz n g =
     (let n = (if hasBuf then n else 0);
          sz = (if \<not> hasBuf \<or> n = 0 then 0 else sz);
          sz = sz div 8 * 8
      in g\<lparr>szSlot := sz, nSlot := n, nFreeSlot := n, nReserve := (if n > 90 then 10 else n div 10 + 1),
           pStart := brk g, pFreeSlot := rev [brk g..<brk g + n], bUnderPressure := False,
           pEnd := brk g + n, brk := brk g + n\<rparr>)"

text \<open>The bytes of a bulk allocation: \<open>nInitPage\<close> lines, or that many KiB if it is negative; at most \<open>nMax\<close> lines.\<close>

definition bulkSize :: "pcache1 \<Rightarrow> int" where
  "bulkSize s =
     (let szBulk = (if nInitPage s > 0 then int (szAlloc s) * nInitPage s else - 1024 * nInitPage s)
      in if szBulk > int (szAlloc s * nMax s) then int (szAlloc s * nMax s) else szBulk)"

definition pcache1InitBulk :: "pcache1 \<Rightarrow> (bool \<times> pcache1) option" where
  "pcache1InitBulk s =
     (if nInitPage s = 0 then Some (False, s)
      else if nMax s < 3 then Some (False, s)
      else
        (let szBulk = bulkSize s;
             (ok, mem) = alloc_ok (memOk s);
             s = s\<lparr>memOk := mem, pBulk := ok\<rparr>
         in if \<not> ok then Some (pFree s \<noteq> [], s)
            else
              (let nBulk = mallocSize s (nat szBulk) div szAlloc s
               in if nBulk = 0 then None
                  else
                    (let s = s\<lparr>pFree := rev [brk s..<brk s + nBulk] @ pFree s,
                           isBulkLocal := (\<lambda>a. brk s \<le> a \<and> a < brk s + nBulk \<or> isBulkLocal s a),
                           brk := brk s + nBulk\<rparr>
                     in Some (pFree s \<noteq> [], s)))))"

definition pcache1Alloc :: "nat \<Rightarrow> pcache1 \<Rightarrow> nat option \<times> pcache1" where
  "pcache1Alloc nByte s =
     (case (if nByte \<le> szSlot s then pFreeSlot s else []) of
        a # as \<Rightarrow>
          (Some a, s\<lparr>pFreeSlot := as, nFreeSlot := nFreeSlot s - 1,
             bUnderPressure := nFreeSlot s - 1 < nReserve s\<rparr>)
      | [] \<Rightarrow>
          (let (ok, mem) = alloc_ok (memOk s);
               s = s\<lparr>memOk := mem\<rparr>
           in if ok then (Some (brk s), s\<lparr>brk := brk s + 1\<rparr>) else (None, s)))"

definition pcache1Free :: "nat \<Rightarrow> pcache1 \<Rightarrow> pcache1" where
  "pcache1Free a s =
     (if pStart s \<le> a \<and> a < pEnd s
      then s\<lparr>pFreeSlot := a # pFreeSlot s, nFreeSlot := nFreeSlot s + 1,
             bUnderPressure := nFreeSlot s + 1 < nReserve s\<rparr>
      else s)"

text \<open>\<open>*pnPurgeable\<close> is the counter of the group for a purgeable cache, else a dummy.\<close>

definition pcache1AllocPage :: "pcache1 \<Rightarrow> (nat option \<times> pcache1) option" where
  "pcache1AllocPage s = do {
     (local, s) \<leftarrow> (if pFree s \<noteq> [] then Some (True, s)
                    else if nPage s = 0 then pcache1InitBulk s else Some (False, s));
     let (p, s) = (if local then (Some (hd (pFree s)), s\<lparr>pFree := tl (pFree s)\<rparr>)
                   else case pcache1Alloc (szAlloc s) s of
                     (None, s) \<Rightarrow> (None, s)
                   | (Some a, s) \<Rightarrow> (Some a, s\<lparr>isBulkLocal := (isBulkLocal s)(a := False)\<rparr>));
     Some (p, if p \<noteq> None \<and> bPurgeable s then s\<lparr>nPurgeable := nPurgeable s + 1\<rparr> else s)
   }"

definition pcache1FreePage :: "nat \<Rightarrow> pcache1 \<Rightarrow> pcache1" where
  "pcache1FreePage p s =
     (let s = (if isBulkLocal s p then s\<lparr>pFree := p # pFree s\<rparr> else pcache1Free p s)
      in if bPurgeable s then s\<lparr>nPurgeable := dec32 (nPurgeable s)\<rparr> else s)"

definition pcache1UnderMemoryPressure :: "pcache1 \<Rightarrow> bool \<times> pcache1" where
  "pcache1UnderMemoryPressure s =
     (if nSlot s \<noteq> 0 \<and> szPage s + szExtra s \<le> szSlot s then (bUnderPressure s, s)
      else case heapFull s of [] \<Rightarrow> (False, s) | b # bs \<Rightarrow> (b, s\<lparr>heapFull := bs\<rparr>))"

section \<open>The hash table and the LRU list\<close>

definition hash_push :: "(nat \<Rightarrow> nat) \<Rightarrow> nat \<Rightarrow> nat \<Rightarrow> nat list list \<Rightarrow> nat list list" where
  "hash_push key n a t = (let h = key a mod n in t[h := a # t ! h])"

definition pcache1ResizeHash :: "pcache1 \<Rightarrow> pcache1" where
  "pcache1ResizeHash s =
     (let nNew = nHash s * 2;
          nNew = (if nNew < 256 then 256 else nNew);
          (ok, mem) = alloc_ok (memOk s);
          s = s\<lparr>memOk := mem\<rparr>
      in if ok then s\<lparr>apHash := fold (hash_push (iKey s) nNew) (concat (apHash s)) (replicate nNew []), nHash := nNew\<rparr>
         else s)"

definition pcache1PinPage :: "nat \<Rightarrow> pcache1 \<Rightarrow> pcache1" where
  "pcache1PinPage p s = s\<lparr>lru := remove1 p (lru s), nRecyclable := dec32 (nRecyclable s)\<rparr>"

text \<open>A page that is not on its chain makes the search run into NULL.\<close>

definition pcache1RemoveFromHash :: "nat \<Rightarrow> bool \<Rightarrow> pcache1 \<Rightarrow> pcache1 option" where
  "pcache1RemoveFromHash p freeFlag s =
     (if nHash s = 0 then None
      else
        (let h = iKey s p mod nHash s in
         if p \<notin> set (apHash s ! h) then None
         else
           (let s = s\<lparr>apHash := (apHash s)[h := remove1 p (apHash s ! h)], nPage := dec32 (nPage s)\<rparr>
            in Some (if freeFlag then pcache1FreePage p s else s))))"

lemma FreePage_lru [simp]: "lru (pcache1FreePage p s) = lru s"
  by (simp add: pcache1FreePage_def pcache1Free_def Let_def)

lemma RemoveFromHash_lru: "pcache1RemoveFromHash p f s = Some s' \<Longrightarrow> lru s' = lru s"
  by (auto simp: pcache1RemoveFromHash_def Let_def split: if_splits)

function enforceLoop :: "pcache1 \<Rightarrow> pcache1 option" where
  "enforceLoop s =
     (if nPurgeable s > nMaxPage s \<and> lru s \<noteq> []
      then (let p = last (lru s) in
            case pcache1RemoveFromHash p True (pcache1PinPage p s) of
              None \<Rightarrow> None
            | Some s \<Rightarrow> enforceLoop s)
      else Some s)"
  by pat_completeness auto
termination
  by (relation "measure (\<lambda>s. length (lru s))")
    (auto dest!: RemoveFromHash_lru simp: pcache1PinPage_def length_remove1 intro!: diff_less)

declare enforceLoop.simps [simp del]

definition pcache1EnforceMaxPage :: "pcache1 \<Rightarrow> pcache1 option" where
  "pcache1EnforceMaxPage s = do {
     s \<leftarrow> enforceLoop s;
     Some (if nPage s = 0 \<and> pBulk s then s\<lparr>pBulk := False, pFree := []\<rparr> else s)
   }"

text \<open>The inner loop of \<open>pcache1TruncateUnsafe\<close>, on the chain of slot \<open>h\<close>.\<close>

definition truncPage :: "nat \<Rightarrow> pcache1 \<Rightarrow> pcache1" where
  "truncPage p s =
     (let s = s\<lparr>nPage := dec32 (nPage s)\<rparr>;
          s = (if p \<in> set (lru s) then pcache1PinPage p s else s)
      in pcache1FreePage p s)"

definition truncChain :: "nat \<Rightarrow> nat \<Rightarrow> pcache1 \<Rightarrow> pcache1" where
  "truncChain iLimit h s =
     (let chain = apHash s ! h in
      fold truncPage (filter (\<lambda>p. iKey s p \<ge> iLimit) chain)
        (s\<lparr>apHash := (apHash s)[h := filter (\<lambda>p. \<not> iKey s p \<ge> iLimit) chain]\<rparr>))"

text \<open>The outer loop; with a slot out of range it would not end.\<close>

function truncLoop :: "nat \<Rightarrow> nat \<Rightarrow> nat \<Rightarrow> nat \<Rightarrow> pcache1 \<Rightarrow> pcache1 option" where
  "truncLoop n iLimit h iStop s =
     (if \<not> (h < n \<and> iStop < n) then None
      else if h = iStop then Some (truncChain iLimit h s)
      else truncLoop n iLimit ((h + 1) mod n) iStop (truncChain iLimit h s))"
  by pat_completeness auto
termination
proof (relation "measure (\<lambda>(n, l, h, i, s). (i + n - h) mod n)", simp)
  fix n l h i :: nat and s
  assume "\<not> \<not> (h < n \<and> i < n)" "h \<noteq> i"
  then have "(i + n - (h + 1) mod n) mod n < (i + n - h) mod n"
    by (auto simp: mod_if Suc_diff_le)
  then show "((n, l, (h + 1) mod n, i, truncChain l h s), n, l, h, i, s) \<in> measure (\<lambda>(n, l, h, i, s). (i + n - h) mod n)"
    by simp
qed

declare truncLoop.simps [simp del]

definition pcache1TruncateUnsafe :: "nat \<Rightarrow> pcache1 \<Rightarrow> pcache1 option" where
  "pcache1TruncateUnsafe iLimit s =
     (if nHash s = 0 \<or> iMaxKey s < iLimit then None
      else if iMaxKey s - iLimit < nHash s
      then truncLoop (nHash s) iLimit (iLimit mod nHash s) (iMaxKey s mod nHash s) s
      else truncLoop (nHash s) iLimit (nHash s div 2) (dec32 (nHash s div 2)) s)"


section \<open>The methods\<close>

text \<open>\<open>unsigned int\<close> arithmetic.\<close>

definition to_u32 :: "int \<Rightarrow> nat" where
  "to_u32 x = nat (x mod 2 ^ 32)"

text \<open>\<open>pcache1Init\<close>: whether a start-time buffer is configured and \<open>SQLITE_CONFIG_PAGECACHE\<close>'s N.\<close>

definition pcache1Init :: "bool \<Rightarrow> int \<Rightarrow> allocs \<Rightarrow> bool list \<Rightarrow> nat \<Rightarrow> (nat \<Rightarrow> nat) \<Rightarrow> pcglobal" where
  "pcache1Init hasBuf nPg ok full base msz =
     \<lparr>nInitPage = (if nPg \<noteq> 0 \<and> \<not> hasBuf then nPg else 0), szSlot = 0, nSlot = 0, nReserve = 0,
      pStart = 0, pEnd = 0, pFreeSlot = [], nFreeSlot = 0, bUnderPressure = False,
      memOk = ok, heapFull = full, brk = base, mallocSize = msz\<rparr>"

text \<open>The memory of \<open>sqlite3MallocZero\<close>. On a 64-bit machine \<open>ROUND8(sizeof(PgHdr1))\<close> is 56.\<close>

definition pcache1Zero :: "pcglobal \<Rightarrow> pcache1" where
  "pcache1Zero g = pcglobal.extend g
     \<lparr>nMaxPage = 0, nMinPage = 0, mxPinned = 0, nPurgeable = 0, lru = [], szPage = 0, szExtra = 0, szAlloc = 0,
      bPurgeable = False, nMin = 0, nMax = 0, n90pct = 0, iMaxKey = 0, nRecyclable = 0, nPage = 0, nHash = 0,
      apHash = [], pFree = [], pBulk = False, iKey = (\<lambda>_. 0), isBulkLocal = (\<lambda>_. False)\<rparr>"

definition pcache1Create :: "nat \<Rightarrow> nat \<Rightarrow> bool \<Rightarrow> pcglobal \<Rightarrow> pcache1 option" where
  "pcache1Create sz extra purgeable g =
     (let (ok, mem) = alloc_ok (memOk g) in
      if \<not> ok then None
      else
        (let s = (pcache1Zero (g\<lparr>memOk := mem\<rparr>))\<lparr>mxPinned := 10, szPage := sz, szExtra := extra,
               szAlloc := sz + extra + 56, bPurgeable := purgeable\<rparr>;
             s = pcache1ResizeHash s;
             s = (if purgeable then
                    (let s = s\<lparr>nMin := 10, nMinPage := nMinPage s + 10\<rparr>
                     in s\<lparr>mxPinned := to_u32 (int (nMaxPage s) + 10 - int (nMinPage s))\<rparr>)
                  else s)
         in if nHash s = 0 then None else Some s))"

definition pcache1Cachesize :: "pcache1 \<Rightarrow> int \<Rightarrow> pcache1 option" where
  "pcache1Cachesize s n =
     (if bPurgeable s then
        (let s = s\<lparr>nMaxPage := to_u32 (int (nMaxPage s) + (n - int (nMax s)))\<rparr>;
             s = s\<lparr>mxPinned := to_u32 (int (nMaxPage s) + 10 - int (nMinPage s)), nMax := to_u32 n\<rparr>;
             s = s\<lparr>n90pct := to_u32 (int (nMax s) * 9) div 10\<rparr>
         in pcache1EnforceMaxPage s)
      else Some s)"

definition pcache1Shrink :: "pcache1 \<Rightarrow> pcache1 option" where
  "pcache1Shrink s =
     (if bPurgeable s then do {
        let savedMaxPage = nMaxPage s;
        s \<leftarrow> pcache1EnforceMaxPage (s\<lparr>nMaxPage := 0\<rparr>);
        Some (s\<lparr>nMaxPage := savedMaxPage\<rparr>)
      } else Some s)"

definition pcache1Pagecount :: "pcache1 \<Rightarrow> nat" where
  "pcache1Pagecount s = nPage s"

text \<open>Step 3 of \<open>pcache1FetchStage2\<close>: is the cache nearly full?\<close>

definition nearlyFull :: "pcache1 \<Rightarrow> bool \<times> pcache1" where
  "nearlyFull s =
     (let nPinned = nPage s - nRecyclable s in
      if nPinned \<ge> mxPinned s \<or> nPinned \<ge> n90pct s then (True, s)
      else (let (b, s) = pcache1UnderMemoryPressure s in (b \<and> nRecyclable s < nPinned, s)))"

text \<open>Step 4: try to recycle the oldest page of the LRU list, which belongs to this cache.\<close>

definition recyclePage :: "pcache1 \<Rightarrow> (nat option \<times> pcache1) option" where
  "recyclePage s =
     (if bPurgeable s \<and> lru s \<noteq> [] then
        (let (b, s) = (if nPage s + 1 \<ge> nMax s then (True, s) else pcache1UnderMemoryPressure s) in
         if b then do {
           let p = last (lru s);
           s \<leftarrow> pcache1RemoveFromHash p False s;
           Some (Some p, pcache1PinPage p s)
         } else Some (None, s))
      else Some (None, s))"

text \<open>The end of \<open>pcache1FetchStage2\<close>: page \<open>p\<close> becomes the page of key \<open>k\<close>, its extra space is cleared.\<close>

definition pageInsert :: "nat \<Rightarrow> nat \<Rightarrow> pcache1 \<Rightarrow> pcache1" where
  "pageInsert p k s =
     (let h = k mod nHash s in
      s\<lparr>nPage := nPage s + 1, iKey := (iKey s)(p := k), apHash := (apHash s)[h := p # apHash s ! h],
        iMaxKey := (if k > iMaxKey s then k else iMaxKey s)\<rparr>)"

definition pcache1FetchStage2 :: "pcache1 \<Rightarrow> nat \<Rightarrow> nat \<Rightarrow> ((nat \<times> bool) option \<times> pcache1) option" where
  "pcache1FetchStage2 s k createFlag =
     (let (full, s) = (if createFlag = 1 then nearlyFull s else (False, s)) in
      if full then Some (None, s)
      else do {
        let s = (if nPage s \<ge> nHash s then pcache1ResizeHash s else s);
        (p, s) \<leftarrow> recyclePage s;
        (p, s) \<leftarrow> (if p = None then pcache1AllocPage s else Some (p, s));
        Some (case p of None \<Rightarrow> (None, s) | Some p \<Rightarrow> (Some (p, True), pageInsert p k s))
      })"

definition pcache1Fetch :: "pcache1 \<Rightarrow> nat \<Rightarrow> nat \<Rightarrow> ((nat \<times> bool) option \<times> pcache1) option" where
  "pcache1Fetch s k createFlag =
     (if nHash s = 0 then None
      else case find (\<lambda>p. iKey s p = k) (apHash s ! (k mod nHash s)) of
        Some p \<Rightarrow> Some (Some (p, False), if p \<in> set (lru s) then pcache1PinPage p s else s)
      | None \<Rightarrow> if createFlag \<noteq> 0 then pcache1FetchStage2 s k createFlag else Some (None, s))"

definition pcache1Unpin :: "pcache1 \<Rightarrow> nat \<Rightarrow> bool \<Rightarrow> pcache1 option" where
  "pcache1Unpin s p reuseUnlikely =
     (if reuseUnlikely \<or> nPurgeable s > nMaxPage s then pcache1RemoveFromHash p True s
      else Some (s\<lparr>lru := p # lru s, nRecyclable := nRecyclable s + 1\<rparr>))"

definition pcache1Rekey :: "pcache1 \<Rightarrow> nat \<Rightarrow> nat \<Rightarrow> nat \<Rightarrow> pcache1 option" where
  "pcache1Rekey s p iOld iNew =
     (if nHash s = 0 then None
      else
        (let h = iOld mod nHash s in
         if p \<notin> set (apHash s ! h) then None
         else
           (let s = s\<lparr>apHash := (apHash s)[h := remove1 p (apHash s ! h)]\<rparr>;
                h = iNew mod nHash s
            in Some (s\<lparr>iKey := (iKey s)(p := iNew), apHash := (apHash s)[h := p # apHash s ! h],
                       iMaxKey := (if iNew > iMaxKey s then iNew else iMaxKey s)\<rparr>))))"

definition pcache1Truncate :: "pcache1 \<Rightarrow> nat \<Rightarrow> pcache1 option" where
  "pcache1Truncate s iLimit =
     (if iLimit \<le> iMaxKey s then do {
        s \<leftarrow> pcache1TruncateUnsafe iLimit s;
        Some (s\<lparr>iMaxKey := dec32 iLimit\<rparr>)
      } else Some s)"

text \<open>Nothing of the group is left when its only cache is gone; what is given back is the global state.\<close>

definition pcache1Destroy :: "pcache1 \<Rightarrow> pcglobal option" where
  "pcache1Destroy s = do {
     s \<leftarrow> (if nPage s \<noteq> 0 then pcache1TruncateUnsafe 0 s else Some s);
     if nMaxPage s < nMax s \<or> nMinPage s < nMin s then None
     else
       (let s = s\<lparr>nMaxPage := nMaxPage s - nMax s, nMinPage := nMinPage s - nMin s\<rparr>;
            s = s\<lparr>mxPinned := to_u32 (int (nMaxPage s) + 10 - int (nMinPage s))\<rparr>
        in map_option pcglobal.truncate (pcache1EnforceMaxPage s))
   }"

text \<open>\<open>sqlite3PCacheSetDefault\<close>\<close>

definition defaultMethods :: "pcache1 pcache2" where
  "defaultMethods =
     \<lparr>xFetch = pcache1Fetch, xUnpin = pcache1Unpin, xRekey = pcache1Rekey, xTruncate = pcache1Truncate,
      xPagecount = pcache1Pagecount, xCachesize = pcache1Cachesize, xShrink = pcache1Shrink\<rparr>"


section \<open>The invariant\<close>

text \<open>A hash table of the pages \<open>S\<close>.\<close>

definition tbl :: "(nat \<Rightarrow> nat) \<Rightarrow> nat \<Rightarrow> nat list list \<Rightarrow> nat set \<Rightarrow> bool" where
  "tbl key n t S \<longleftrightarrow> 0 < n \<and> length t = n \<and> (\<forall>h<n. distinct (t ! h) \<and> set (t ! h) = {a \<in> S. key a mod n = h})"

lemma tblD:
  "tbl key n t S \<Longrightarrow> 0 < n" "tbl key n t S \<Longrightarrow> length t = n"
  "tbl key n t S \<Longrightarrow> h < n \<Longrightarrow> distinct (t ! h)"
  "tbl key n t S \<Longrightarrow> h < n \<Longrightarrow> a \<in> set (t ! h) \<longleftrightarrow> a \<in> S \<and> key a mod n = h"
  by (auto simp: tbl_def)

lemma tbl_mem: "tbl key n t S \<Longrightarrow> a \<in> set (t ! (key a mod n)) \<longleftrightarrow> a \<in> S"
  by (simp add: tblD)

lemma tbl_insert:
  "tbl key n t S \<Longrightarrow> a \<notin> S \<Longrightarrow> h = key a mod n \<Longrightarrow> tbl key n (t[h := a # t ! h]) (insert a S)"
  by (auto simp: tbl_def nth_list_update)

lemma tbl_remove:
  "tbl key n t S \<Longrightarrow> h = key a mod n \<Longrightarrow> tbl key n (t[h := remove1 a (t ! h)]) (S - {a})"
  by (auto simp: tbl_def nth_list_update)

lemma tbl_filter:
  "tbl key n t S \<Longrightarrow> h < n \<Longrightarrow> tbl key n (t[h := filter Q (t ! h)]) (S - {a. key a mod n = h \<and> \<not> Q a})"
  by (auto simp: tbl_def nth_list_update)

lemma tbl_key: "tbl key n t S \<Longrightarrow> \<forall>a\<in>S. key' a = key a \<Longrightarrow> tbl key' n t S"
  by (auto simp: tbl_def)

lemma tbl_empty: "0 < n \<Longrightarrow> tbl key n (replicate n []) {}"
  by (simp add: tbl_def)

lemma tbl_concat: assumes "tbl key n t S" shows "distinct (concat t) \<and> set (concat t) = S"
proof -
  have "distinct (concat us)" if "\<forall>u\<in>set us. distinct u" "\<forall>i<length us. \<forall>a\<in>set (us ! i). f a = i + c" for us :: "nat list list" and f c
    using that
  proof (induction us arbitrary: c)
    case Nil
    then show ?case by simp
  next
    case (Cons u us)
    have u: "\<forall>a\<in>set u. f a = c" using Cons.prems(2) by force
    have us: "\<forall>i<length us. \<forall>a\<in>set (us ! i). f a = i + (c + 1)" using Cons.prems(2) by force
    with Cons.IH [OF _ us] Cons.prems(1) have "distinct (concat us)" by simp
    moreover have "f a > c" if "a \<in> set (concat us)" for a
    proof -
      from that obtain w where w: "w \<in> set us" "a \<in> set w" by auto
      then obtain i where "i < length us" "us ! i = w" by (auto simp: in_set_conv_nth)
      with us w show ?thesis by simp
    qed
    ultimately show ?case using u Cons.prems(1) by fastforce
  qed
  moreover have "\<forall>u\<in>set t. distinct u" using assms by (auto simp: tbl_def in_set_conv_nth)
  moreover have "\<forall>i<length t. \<forall>a\<in>set (t ! i). key a mod n = i + 0" using assms by (simp add: tbl_def)
  ultimately have "distinct (concat t)" .
  moreover have "a \<in> set (concat t) \<longleftrightarrow> a \<in> S" for a
  proof -
    have "a \<in> set (concat t) \<longleftrightarrow> (\<exists>h<n. a \<in> set (t ! h))"
      using tblD(2) [OF assms] by (metis UN_iff in_set_conv_nth set_concat)
    also have "\<dots> \<longleftrightarrow> a \<in> S" using tblD(4) [OF assms] tblD(1) [OF assms] mod_less_divisor by blast
    finally show ?thesis .
  qed
  ultimately show ?thesis by blast
qed

lemma tbl_finite: "tbl key n t S \<Longrightarrow> finite S"
  using tbl_concat by (metis List.finite_set)

lemma tbl_rehash:
  assumes "tbl key n t S" "0 < m"
  shows "tbl key m (fold (hash_push key m) (concat t) (replicate m [])) S"
proof -
  have "tbl key m (fold (hash_push key m) xs u) (set xs \<union> A)" if "tbl key m u A" "distinct xs" "set xs \<inter> A = {}" for xs u A
    using that
  proof (induction xs arbitrary: u A)
    case Nil
    then show ?case by simp
  next
    case (Cons x xs)
    have "tbl key m (hash_push key m x u) (insert x A)"
      using tbl_insert [OF Cons.prems(1) _ refl] Cons.prems(3) by (simp add: hash_push_def Let_def)
    from Cons.IH [OF this] Cons.prems show ?case by simp
  qed
  from this [OF tbl_empty [OF assms(2)], of "concat t"] tbl_concat [OF assms(1)] show ?thesis
    by (simp del: set_concat)
qed

text \<open>
  The addresses that are in use, \<open>U\<close>, and the two free lists: local pages of a bulk allocation, and slots of the
  start-time buffer.
\<close>

definition pool :: "pcache1 \<Rightarrow> nat set \<Rightarrow> bool" where
  "pool s U \<longleftrightarrow>
     distinct (pFree s) \<and> set (pFree s) \<inter> U = {}
     \<and> (\<forall>a\<in>set (pFree s). isBulkLocal s a \<and> pEnd s \<le> a \<and> a < brk s)
     \<and> distinct (pFreeSlot s) \<and> set (pFreeSlot s) \<inter> U = {} \<and> (\<forall>a\<in>set (pFreeSlot s). pStart s \<le> a \<and> a < pEnd s)
     \<and> nFreeSlot s = length (pFreeSlot s)
     \<and> (\<forall>a\<in>U. a < brk s \<and> (isBulkLocal s a \<longrightarrow> pEnd s \<le> a))
     \<and> pEnd s \<le> brk s
     \<and> (\<forall>n. n \<le> mallocSize s n) \<and> 0 < szAlloc s \<and> (nInitPage s < 0 \<longrightarrow> int (szAlloc s) \<le> - 1024 * nInitPage s)"

text \<open>
  \<open>pc1 s S A n\<close>: the table holds \<open>S\<close>, the code has the pages \<open>A\<close> in its hands, and \<open>nPage\<close> is \<open>n\<close>.
  Between calls \<open>A\<close> is empty and \<open>n\<close> the number of pages.
\<close>

definition pc1 :: "pcache1 \<Rightarrow> nat set \<Rightarrow> nat set \<Rightarrow> nat \<Rightarrow> bool" where
  "pc1 s S A n \<longleftrightarrow>
     tbl (iKey s) (nHash s) (apHash s) S \<and> 256 \<le> nHash s \<and> inj_on (iKey s) S \<and> (\<forall>a\<in>S. iKey s a \<le> iMaxKey s)
     \<and> finite A \<and> S \<inter> A = {} \<and> nPage s = n
     \<and> distinct (lru s) \<and> set (lru s) \<subseteq> S \<union> A \<and> nRecyclable s = length (lru s)
     \<and> (bPurgeable s \<longrightarrow> nPurgeable s = card (S \<union> A)) \<and> pool s (S \<union> A)"

definition mrel1 :: "pcache1 \<Rightarrow> (nat \<rightharpoonup> nat) \<Rightarrow> nat set \<Rightarrow> bool" where
  "mrel1 s R P \<longleftrightarrow> (\<exists>S. pc1 s S {} (card S) \<and> (\<forall>k a. R k = Some a \<longleftrightarrow> a \<in> S \<and> iKey s a = k) \<and> P = S - set (lru s))"


lemma pc1D:
  assumes "pc1 s S A n"
  shows "tbl (iKey s) (nHash s) (apHash s) S" "inj_on (iKey s) S" "\<forall>a\<in>S. iKey s a \<le> iMaxKey s"
    "finite A" "S \<inter> A = {}" "nPage s = n" "distinct (lru s)" "set (lru s) \<subseteq> S \<union> A" "nRecyclable s = length (lru s)"
    "bPurgeable s \<Longrightarrow> nPurgeable s = card (S \<union> A)" "pool s (S \<union> A)" "finite S" "0 < nHash s" "256 \<le> nHash s"
  using assms tbl_finite [of "iKey s" "nHash s" "apHash s" S] tblD(1) [of "iKey s" "nHash s" "apHash s" S]
  by (simp_all add: pc1_def)

section \<open>Allocation keeps the pools apart\<close>

lemma Free_pool:
  assumes "pool s U" "a \<in> U" "\<not> isBulkLocal s a"
  shows "pool (pcache1Free a s) (U - {a})"
  using assms unfolding pool_def pcache1Free_def by auto

text \<open>Fields that the allocation of pages leaves alone.\<close>

definition same_tab :: "pcache1 \<Rightarrow> pcache1 \<Rightarrow> bool" where
  "same_tab s s' \<longleftrightarrow> iKey s' = iKey s \<and> nHash s' = nHash s \<and> apHash s' = apHash s \<and> iMaxKey s' = iMaxKey s
     \<and> nPage s' = nPage s \<and> lru s' = lru s \<and> nRecyclable s' = nRecyclable s \<and> bPurgeable s' = bPurgeable s"

lemma FreePage_pc1:
  assumes "pc1 s S A n" "a \<in> A" "a \<notin> set (lru s)"
  shows "pc1 (pcache1FreePage a s) S (A - {a}) n" "same_tab s (pcache1FreePage a s)"
proof -
  note d = pc1D [OF assms(1)]
  define s1 where "s1 = (if isBulkLocal s a then s\<lparr>pFree := a # pFree s\<rparr> else pcache1Free a s)"
  have U: "S \<union> A - {a} = S \<union> (A - {a})" using d(5) assms(2) by auto
  have "pool s1 (S \<union> A - {a})"
  proof (cases "isBulkLocal s a")
    case True
    with d(11) assms(2) show ?thesis unfolding s1_def pool_def by auto
  next
    case False
    with Free_pool [OF d(11)] assms(2) show ?thesis unfolding s1_def by simp
  qed
  then have p: "pool s1 (S \<union> (A - {a}))" unfolding U .
  have f: "same_tab s s1" "nPurgeable s1 = nPurgeable s"
    by (simp_all add: s1_def pcache1Free_def same_tab_def)
  have e: "pcache1FreePage a s = (if bPurgeable s then s1\<lparr>nPurgeable := dec32 (nPurgeable s)\<rparr> else s1)"
    using f by (simp add: pcache1FreePage_def s1_def Let_def same_tab_def)
  show "same_tab s (pcache1FreePage a s)" using f(1) unfolding e by (simp add: same_tab_def)
  have "card (S \<union> A) \<noteq> 0" using d(4,12) assms(2) by auto
  then have "dec32 (card (S \<union> A)) = card (S \<union> A - {a})"
    using d(4,12) assms(2) by (simp add: dec32_def)
  then have "bPurgeable s \<longrightarrow> dec32 (nPurgeable s) = card (S \<union> (A - {a}))" using d(10) unfolding U by simp
  moreover have "pool (s1\<lparr>nPurgeable := x\<rparr>) (S \<union> (A - {a}))" for x using p by (simp add: pool_def)
  ultimately show "pc1 (pcache1FreePage a s) S (A - {a}) n"
    using d f p assms(3) unfolding e pc1_def same_tab_def by auto
qed

lemma InitBulk_pc1:
  assumes "pc1 s S {} n" "pFree s = []"
  shows "\<exists>b s'. pcache1InitBulk s = Some (b, s') \<and> pc1 s' S {} n \<and> same_tab s s' \<and> b = (pFree s' \<noteq> [])"
proof (cases "nInitPage s = 0 \<or> nMax s < 3")
  case True
  with assms show ?thesis by (auto simp: pcache1InitBulk_def same_tab_def)
next
  case False
  note d = pc1D [OF assms(1)]
  note q = d(11) [unfolded pool_def]
  define z where "z = bulkSize s"
  obtain ok mem where al: "alloc_ok (memOk s) = (ok, mem)" by fastforce
  have z: "int (szAlloc s) \<le> z"
  proof -
    have "int (szAlloc s) * 1 \<le> int (szAlloc s) * nInitPage s" if "nInitPage s > 0"
      by (rule mult_left_mono) (use that in simp_all)
    moreover have "int (szAlloc s) * 1 \<le> int (szAlloc s) * int (nMax s)"
      by (rule mult_left_mono) (use False in simp_all)
    ultimately show ?thesis using False q unfolding z_def bulkSize_def Let_def by (simp split: if_splits)
  qed
  have "szAlloc s \<le> nat z" using z by linarith
  also have "nat z \<le> mallocSize s (nat z)" using q by blast
  finally have b: "mallocSize s (nat z) div szAlloc s \<noteq> 0" using q by (simp add: div_eq_0_iff)
  show ?thesis
  proof (cases ok)
    case False
    with \<open>\<not> (nInitPage s = 0 \<or> nMax s < 3)\<close> al assms show ?thesis
      by (auto simp: pcache1InitBulk_def Let_def z_def [symmetric] same_tab_def pc1_def pool_def)
  next
    case True
    define k where "k = mallocSize s (nat z) div szAlloc s"
    define s' where "s' = s\<lparr>memOk := mem, pBulk := True, pFree := rev [brk s..<brk s + k],
      isBulkLocal := (\<lambda>a. brk s \<le> a \<and> a < brk s + k \<or> isBulkLocal s a), brk := brk s + k\<rparr>"
    have "pcache1InitBulk s = Some (True, s')"
      using \<open>\<not> (nInitPage s = 0 \<or> nMax s < 3)\<close> al True b assms(2)
      by (simp add: pcache1InitBulk_def Let_def z_def [symmetric] s'_def k_def)
    moreover have "pool s' (S \<union> {})" using q unfolding pool_def s'_def by fastforce
    moreover have "same_tab s s'" by (simp add: same_tab_def s'_def)
    moreover have "pFree s' \<noteq> []" using b by (simp add: s'_def k_def)
    ultimately show ?thesis using d unfolding pc1_def by (auto simp: same_tab_def s'_def)
  qed
qed


lemma Alloc_pc1:
  assumes "pc1 s S {} n"
  shows "\<exists>r s'. pcache1Alloc z s = (r, s') \<and> same_tab s s' \<and> nPurgeable s' = nPurgeable s
    \<and> isBulkLocal s' = isBulkLocal s \<and> pFree s' = pFree s
    \<and> (case r of None \<Rightarrow> pc1 s' S {} n
       | Some a \<Rightarrow> a \<notin> S \<and> pool (s'\<lparr>isBulkLocal := (isBulkLocal s)(a := False)\<rparr>) (S \<union> {a}))"
proof (cases "if z \<le> szSlot s then pFreeSlot s else []")
  case (Cons a as)
  then have "pFreeSlot s = a # as" by (simp split: if_splits)
  with Cons pc1D(11) [OF assms] show ?thesis
    by (auto simp: pcache1Alloc_def same_tab_def pool_def)
next
  case Nil
  obtain ok mem where al: "alloc_ok (memOk s) = (ok, mem)" by fastforce
  show ?thesis
  proof (cases ok)
    case False
    with Nil al assms show ?thesis by (simp add: pcache1Alloc_def Let_def same_tab_def pc1_def pool_def)
  next
    case True
    have "pcache1Alloc z s = (Some (brk s), s\<lparr>memOk := mem, brk := brk s + 1\<rparr>)"
      using True Nil al by (simp add: pcache1Alloc_def Let_def)
    moreover have "pool (s\<lparr>memOk := mem, brk := brk s + 1, isBulkLocal := (isBulkLocal s)(brk s := False)\<rparr>) (S \<union> {brk s})"
      and "brk s \<notin> S"
      using pc1D(11) [OF assms] unfolding pool_def by fastforce+
    ultimately show ?thesis by (simp add: same_tab_def)
  qed
qed

lemma AllocPage_pc1:
  assumes "pc1 s S {} n"
  shows "\<exists>r s'. pcache1AllocPage s = Some (r, s') \<and> same_tab s s'
    \<and> (case r of None \<Rightarrow> pc1 s' S {} n | Some a \<Rightarrow> a \<notin> S \<and> a \<notin> set (lru s') \<and> pc1 s' S {a} n)"
proof -
  obtain l s1 where s1: "(if pFree s \<noteq> [] then Some (True, s) else if nPage s = 0 then pcache1InitBulk s else Some (False, s))
      = Some (l, s1)" "pc1 s1 S {} n" "same_tab s s1" "l \<longrightarrow> pFree s1 \<noteq> []"
  proof (cases "pFree s = [] \<and> nPage s = 0")
    case True
    then obtain b s' where "pcache1InitBulk s = Some (b, s')" "pc1 s' S {} n" "same_tab s s'" "b = (pFree s' \<noteq> [])"
      using InitBulk_pc1 [OF assms] by blast
    with True that show ?thesis by simp
  next
    case False
    show ?thesis by (rule that [of "pFree s \<noteq> []" s]) (use False assms in \<open>auto simp: same_tab_def\<close>)
  qed
  note d = pc1D [OF s1(2)]
  have lru: "set (lru s1) \<subseteq> S" using d(8) by simp
  show ?thesis
  proof (cases l)
    case True
    with s1(4) obtain a as where f: "pFree s1 = a # as" by (cases "pFree s1") auto
    define s2 where "s2 = s1\<lparr>pFree := as\<rparr>"
    have p: "pool s2 (S \<union> {a})" and a: "a \<notin> S" using d(11) f unfolding pool_def s2_def by auto
    define s' where "s' = (if bPurgeable s2 then s2\<lparr>nPurgeable := nPurgeable s2 + 1\<rparr> else s2)"
    have "pcache1AllocPage s = Some (Some a, s')"
      using True f s1(1) by (simp add: pcache1AllocPage_def s2_def s'_def Let_def)
    moreover have "same_tab s s'" using s1(3) by (simp add: same_tab_def s'_def s2_def)
    moreover have "pool s' (S \<union> {a})" using p by (simp add: s'_def pool_def)
    moreover have "bPurgeable s' \<longrightarrow> nPurgeable s' = card (S \<union> {a})"
      using d(10,12) a by (simp add: s'_def s2_def)
    ultimately show ?thesis using a lru d unfolding pc1_def by (auto simp: s'_def s2_def)
  next
    case False
    obtain r s2 where r: "pcache1Alloc (szAlloc s1) s1 = (r, s2)" "same_tab s1 s2" "nPurgeable s2 = nPurgeable s1"
      "isBulkLocal s2 = isBulkLocal s1" "pFree s2 = pFree s1" "case r of None \<Rightarrow> pc1 s2 S {} n
       | Some a \<Rightarrow> a \<notin> S \<and> pool (s2\<lparr>isBulkLocal := (isBulkLocal s1)(a := False)\<rparr>) (S \<union> {a})"
      using Alloc_pc1 [OF s1(2), of "szAlloc s1"] by blast
    show ?thesis
    proof (cases r)
      case None
      with False s1 r show ?thesis by (simp add: pcache1AllocPage_def Let_def same_tab_def)
    next
      case (Some a)
      define s3 where "s3 = s2\<lparr>isBulkLocal := (isBulkLocal s2)(a := False)\<rparr>"
      have p: "pool s3 (S \<union> {a})" and a: "a \<notin> S" using r(4,6) Some unfolding s3_def by auto
      define s' where "s' = (if bPurgeable s3 then s3\<lparr>nPurgeable := nPurgeable s3 + 1\<rparr> else s3)"
      have "pcache1AllocPage s = Some (Some a, s')"
        using False s1(1) r(1) Some by (simp add: pcache1AllocPage_def s3_def s'_def Let_def)
      moreover have "same_tab s s'" "same_tab s1 s'" using s1(3) r(2) by (simp_all add: same_tab_def s'_def s3_def)
      moreover have "pool s' (S \<union> {a})" using p by (simp add: s'_def pool_def)
      moreover have "bPurgeable s' \<longrightarrow> nPurgeable s' = card (S \<union> {a})"
        using d(10,12) a r(2,3) by (simp add: s'_def s3_def same_tab_def)
      ultimately show ?thesis using a lru d unfolding pc1_def by (auto simp: same_tab_def)
    qed
  qed
qed


section \<open>Pages leave and enter the table\<close>

lemma PinPage_pc1:
  assumes "pc1 s S A n" "a \<in> set (lru s)"
  shows "pc1 (pcache1PinPage a s) S A n" "set (lru (pcache1PinPage a s)) = set (lru s) - {a}"
proof -
  note d = pc1D [OF assms(1)]
  show l: "set (lru (pcache1PinPage a s)) = set (lru s) - {a}" using d(7) by (simp add: pcache1PinPage_def)
  have "length (lru s) \<noteq> 0" using assms(2) by auto
  then have "dec32 (nRecyclable s) = length (remove1 a (lru s))" using d(9) assms(2) by (simp add: dec32_def length_remove1)
  moreover have "pool (pcache1PinPage a s) (S \<union> A)" using d(11) by (simp add: pool_def pcache1PinPage_def)
  moreover have "set (remove1 a (lru s)) \<subseteq> S \<union> A" using d(8) set_remove1_subset [of a "lru s"] by blast
  ultimately show "pc1 (pcache1PinPage a s) S A n" using d unfolding pc1_def
    by (simp add: pcache1PinPage_def)
qed

lemma inj_on_remove: "inj_on f S \<Longrightarrow> inj_on f (S - {a})"
  by (rule inj_on_subset) auto

lemma RemoveFromHash_keep:
  assumes "pc1 s S {} n" "a \<in> S"
  shows "\<exists>s'. pcache1RemoveFromHash a False s = Some s' \<and> pc1 s' (S - {a}) {a} (dec32 n)
    \<and> iKey s' = iKey s \<and> iMaxKey s' = iMaxKey s \<and> nHash s' = nHash s \<and> lru s' = lru s \<and> bPurgeable s' = bPurgeable s"
proof -
  note d = pc1D [OF assms(1)]
  define h where "h = iKey s a mod nHash s"
  define s' where "s' = s\<lparr>apHash := (apHash s)[h := remove1 a (apHash s ! h)], nPage := dec32 (nPage s)\<rparr>"
  have "pcache1RemoveFromHash a False s = Some s'"
    using d(13) tbl_mem [OF d(1)] assms(2) by (simp add: pcache1RemoveFromHash_def s'_def h_def Let_def)
  moreover have "tbl (iKey s) (nHash s) (apHash s') (S - {a})"
    using tbl_remove [OF d(1) h_def] by (simp add: s'_def)
  moreover have U: "S - {a} \<union> {a} = S \<union> {}" using assms(2) by auto
  moreover have "pool s' (S - {a} \<union> {a})" using d(11) unfolding U by (simp add: pool_def s'_def)
  ultimately show ?thesis using d inj_on_remove [OF d(2), of a] unfolding pc1_def U by (simp add: s'_def)
qed

lemma RemoveFromHash_free:
  assumes "pc1 s S {} (card S)" "a \<in> S" "a \<notin> set (lru s)"
  shows "\<exists>s'. pcache1RemoveFromHash a True s = Some s' \<and> pc1 s' (S - {a}) {} (card (S - {a}))
    \<and> iKey s' = iKey s \<and> iMaxKey s' = iMaxKey s \<and> lru s' = lru s"
proof -
  obtain s1 where s1: "pcache1RemoveFromHash a False s = Some s1" "pc1 s1 (S - {a}) {a} (dec32 (card S))"
    "iKey s1 = iKey s" "iMaxKey s1 = iMaxKey s" "lru s1 = lru s"
    using RemoveFromHash_keep [OF assms(1,2)] by blast
  have "pcache1RemoveFromHash a True s = Some (pcache1FreePage a s1)"
    using s1(1) by (auto simp: pcache1RemoveFromHash_def Let_def split: if_splits)
  moreover have "card S \<noteq> 0" using assms(2) pc1D(12) [OF assms(1)] by auto
  then have "dec32 (card S) = card (S - {a})" using assms(2) pc1D(12) [OF assms(1)] by (simp add: dec32_def)
  ultimately show ?thesis using FreePage_pc1 [OF s1(2)] assms(3) s1(3-5) by (auto simp: same_tab_def)
qed

lemma pc1_empty_free: "pc1 s S {} n \<Longrightarrow> pc1 (s\<lparr>pBulk := b, pFree := []\<rparr>) S {} n"
  by (simp add: pc1_def pool_def)

text \<open>Eviction takes pages off the LRU list only.\<close>

definition evicts :: "pcache1 \<Rightarrow> nat set \<Rightarrow> pcache1 \<Rightarrow> nat set \<Rightarrow> bool" where
  "evicts s S s' S' \<longleftrightarrow> pc1 s' S' {} (card S') \<and> S' \<subseteq> S \<and> S - set (lru s) = S' - set (lru s') \<and> iKey s' = iKey s"

lemma enforceLoop_evicts: "pc1 s S {} (card S) \<Longrightarrow> \<exists>s' S'. enforceLoop s = Some s' \<and> evicts s S s' S'"
proof (induction s arbitrary: S rule: enforceLoop.induct)
  case (1 s)
  show ?case
  proof (cases "nPurgeable s > nMaxPage s \<and> lru s \<noteq> []")
    case False
    have "enforceLoop s = Some s" unfolding enforceLoop.simps [of s] if_not_P [OF False] ..
    with 1(2) show ?thesis by (intro exI [of _ s] exI [of _ S]) (simp add: evicts_def)
  next
    case True
    define p where "p = last (lru s)"
    note d = pc1D [OF 1(2)]
    have p: "p \<in> set (lru s)" "p \<in> S" using True d(8) unfolding p_def by auto
    note pin = PinPage_pc1 [OF 1(2) p(1)]
    obtain s1 where s1: "pcache1RemoveFromHash p True (pcache1PinPage p s) = Some s1" "pc1 s1 (S - {p}) {} (card (S - {p}))"
      "iKey s1 = iKey s" "lru s1 = lru (pcache1PinPage p s)"
      using RemoveFromHash_free [OF pin(1) p(2)] pin(2) by (auto simp: pcache1PinPage_def)
    obtain s' S' where s': "enforceLoop s1 = Some s'" "evicts s1 (S - {p}) s' S'"
      using 1(1) [OF True p_def s1(1,2)] by blast
    have "S - set (lru s) = S - {p} - set (lru s1)" using p unfolding s1(4) pin(2) by auto
    moreover have "enforceLoop s = Some s'"
      using True s1(1) s'(1) by (simp add: enforceLoop.simps [of s] p_def)
    ultimately show ?thesis using s'(2) s1(3) unfolding evicts_def by auto
  qed
qed

lemma EnforceMaxPage_evicts:
  assumes "pc1 s S {} (card S)"
  shows "\<exists>s' S'. pcache1EnforceMaxPage s = Some s' \<and> evicts s S s' S'"
proof -
  obtain s1 S' where s: "enforceLoop s = Some s1" "evicts s S s1 S'" using enforceLoop_evicts [OF assms] by blast
  then have "evicts s S (s1\<lparr>pBulk := False, pFree := []\<rparr>) S'"
    using pc1_empty_free unfolding evicts_def by auto
  with s show ?thesis by (auto simp: pcache1EnforceMaxPage_def)
qed

lemma ResizeHash_pc1:
  assumes "pc1 s S A n"
  shows "pc1 (pcache1ResizeHash s) S A n" "iKey (pcache1ResizeHash s) = iKey s" "lru (pcache1ResizeHash s) = lru s"
proof -
  note d = pc1D [OF assms]
  obtain ok mem where al: "alloc_ok (memOk s) = (ok, mem)" by fastforce
  define m where "m = (if nHash s * 2 < 256 then 256 else nHash s * 2)"
  have "0 < m" "256 \<le> m" using d(13) by (simp_all add: m_def)
  note t = tbl_rehash [OF d(1) this(1)]
  have e: "pcache1ResizeHash s = (if ok then s\<lparr>memOk := mem,
      apHash := fold (hash_push (iKey s) m) (concat (apHash s)) (replicate m []), nHash := m\<rparr> else s\<lparr>memOk := mem\<rparr>)"
    by (simp add: pcache1ResizeHash_def al Let_def m_def)
  show "pc1 (pcache1ResizeHash s) S A n" using d t \<open>256 \<le> m\<close> unfolding e pc1_def by (simp add: pool_def)
  show "iKey (pcache1ResizeHash s) = iKey s" "lru (pcache1ResizeHash s) = lru s" unfolding e by simp_all
qed

lemma pageInsert_pc1:
  assumes "pc1 s S {p} (card S)" "p \<notin> set (lru s)" "k \<notin> iKey s ` S"
  shows "pc1 (pageInsert p k s) (insert p S) {} (card (insert p S))"
proof -
  note d = pc1D [OF assms(1)]
  have p: "p \<notin> S" using d(5) by simp
  define h where "h = k mod nHash s"
  have "tbl ((iKey s)(p := k)) (nHash s) (apHash s) S" by (rule tbl_key [OF d(1)]) (use p in auto)
  from tbl_insert [OF this p, of h] have "tbl ((iKey s)(p := k)) (nHash s) ((apHash s)[h := p # apHash s ! h]) (insert p S)"
    by (simp add: h_def)
  moreover have "inj_on ((iKey s)(p := k)) (insert p S)"
    using d(2) p assms(3) by (auto simp: inj_on_def)
  moreover have "pool (pageInsert p k s) (insert p S)" using d(11) by (simp add: pool_def pageInsert_def Let_def)
  ultimately show ?thesis using d p assms(2) unfolding pc1_def
    by (fastforce simp: pageInsert_def Let_def h_def)
qed


section \<open>Truncation\<close>

lemma truncPage_pc1:
  assumes "pc1 s S A n" "a \<in> A"
  shows "pc1 (truncPage a s) S (A - {a}) (dec32 n)" "set (lru (truncPage a s)) = set (lru s) - {a}"
    "iKey (truncPage a s) = iKey s" "nHash (truncPage a s) = nHash s" "iMaxKey (truncPage a s) = iMaxKey s"
proof -
  define s1 where "s1 = s\<lparr>nPage := dec32 (nPage s)\<rparr>"
  have p1: "pc1 s1 S A (dec32 n)" using assms(1) by (simp add: s1_def pc1_def pool_def)
  define s2 where "s2 = (if a \<in> set (lru s1) then pcache1PinPage a s1 else s1)"
  have p2: "pc1 s2 S A (dec32 n)" "set (lru s2) = set (lru s) - {a}"
    using PinPage_pc1 [OF p1, of a] p1 by (simp_all add: s2_def) (simp_all add: s1_def)
  have f: "iKey s2 = iKey s" "nHash s2 = nHash s" "iMaxKey s2 = iMaxKey s"
    by (simp_all add: s2_def s1_def pcache1PinPage_def)
  have "truncPage a s = pcache1FreePage a s2" by (simp add: truncPage_def s2_def s1_def Let_def)
  with FreePage_pc1 [OF p2(1) assms(2)] p2(2) f
  show "pc1 (truncPage a s) S (A - {a}) (dec32 n)" "set (lru (truncPage a s)) = set (lru s) - {a}"
    "iKey (truncPage a s) = iKey s" "nHash (truncPage a s) = nHash s" "iMaxKey (truncPage a s) = iMaxKey s"
    by (simp_all add: same_tab_def)
qed

lemma truncPages_pc1:
  "pc1 s S (set xs) (m + length xs) \<Longrightarrow> distinct xs \<Longrightarrow>
   pc1 (fold truncPage xs s) S {} m \<and> set (lru (fold truncPage xs s)) = set (lru s) - set xs
   \<and> iKey (fold truncPage xs s) = iKey s \<and> nHash (fold truncPage xs s) = nHash s
   \<and> iMaxKey (fold truncPage xs s) = iMaxKey s"
proof (induction xs arbitrary: s)
  case Nil
  then show ?case by simp
next
  case (Cons x xs)
  note c = truncPage_pc1 [OF Cons.prems(1), of x, simplified]
  have "set (x # xs) - {x} = set xs" "dec32 (m + length (x # xs)) = m + length xs"
    using Cons.prems(2) by (auto simp: dec32_def)
  with c(1) Cons.prems(2) have "pc1 (truncPage x s) S (set xs) (m + length xs)" by simp
  from Cons.IH [OF this] Cons.prems(2) c(2-) show ?case by auto
qed

text \<open>A truncation removes pages of large keys and forgets them on the LRU list.\<close>

definition cuts :: "nat \<Rightarrow> pcache1 \<Rightarrow> nat set \<Rightarrow> pcache1 \<Rightarrow> nat set \<Rightarrow> bool" where
  "cuts lim s S s' S' \<longleftrightarrow> pc1 s' S' {} (card S') \<and> S' \<subseteq> S \<and> {a \<in> S. iKey s a < lim} \<subseteq> S'
     \<and> set (lru s') = set (lru s) \<inter> S' \<and> iKey s' = iKey s \<and> nHash s' = nHash s \<and> iMaxKey s' = iMaxKey s"

lemma cuts_trans: "cuts lim s S s1 S1 \<Longrightarrow> cuts lim s1 S1 s2 S2 \<Longrightarrow> cuts lim s S s2 S2"
  unfolding cuts_def by auto

lemma truncChain_cuts:
  assumes "pc1 s S {} (card S)" "h < nHash s"
  shows "cuts lim s S (truncChain lim h s) (S - {a. iKey s a mod nHash s = h \<and> iKey s a \<ge> lim})"
proof -
  note d = pc1D [OF assms(1)]
  define xs where "xs = filter (\<lambda>p. iKey s p \<ge> lim) (apHash s ! h)"
  define ys where "ys = filter (\<lambda>p. \<not> iKey s p \<ge> lim) (apHash s ! h)"
  define s1 where "s1 = s\<lparr>apHash := (apHash s)[h := ys]\<rparr>"
  define S' where "S' = S - {a. iKey s a mod nHash s = h \<and> iKey s a \<ge> lim}"
  have xs: "distinct xs" "set xs = S - S'" "set xs \<subseteq> S"
    using tblD(3,4) [OF d(1) assms(2)] by (auto simp: xs_def S'_def)
  have U: "S' \<union> set xs = S" "S' \<inter> set xs = {}" using xs(2) by (auto simp: S'_def)
  have "tbl (iKey s) (nHash s) (apHash s1) S'"
    using tbl_filter [OF d(1) assms(2), of "\<lambda>p. \<not> iKey s p \<ge> lim"] by (simp add: s1_def ys_def S'_def)
  moreover have "inj_on (iKey s) S'" using d(2) by (rule inj_on_subset) (auto simp: S'_def)
  moreover have "card S = card S' + length xs"
    using card_Un_disjoint [of S' "set xs"] U d(12) distinct_card [OF xs(1)] by (metis finite_Un)
  moreover have "pool s1 (S' \<union> set xs)" using d(11) unfolding U by (simp add: pool_def s1_def)
  ultimately have p: "pc1 s1 S' (set xs) (card S' + length xs)"
    using d U unfolding pc1_def by (auto simp: s1_def S'_def)
  have "truncChain lim h s = fold truncPage xs s1" by (simp add: truncChain_def xs_def ys_def s1_def Let_def)
  with truncPages_pc1 [OF p xs(1)] xs(2) d(8) show ?thesis
    unfolding S'_def [symmetric] cuts_def by (auto simp: s1_def S'_def)
qed

text \<open>The loop visits the slots from \<open>h\<close> to \<open>i\<close>, cyclically.\<close>

lemma truncLoop_cuts:
  "pc1 s S {} (card S) \<Longrightarrow> nHash s = n \<Longrightarrow> h < n \<Longrightarrow> i < n \<Longrightarrow>
   \<exists>s' S'. truncLoop n lim h i s = Some s' \<and> cuts lim s S s' S'
     \<and> (\<forall>a\<in>S'. \<forall>j\<le>(i + n - h) mod n. iKey s a mod n = (h + j) mod n \<longrightarrow> iKey s a < lim)"
proof (induction n lim h i s arbitrary: S rule: truncLoop.induct)
  case (1 n lim h i s)
  define S1 where "S1 = S - {a. iKey s a mod n = h \<and> iKey s a \<ge> lim}"
  have c: "cuts lim s S (truncChain lim h s) S1"
    using truncChain_cuts [OF 1(2), of h lim] 1(3,4) by (simp add: S1_def)
  show ?case
  proof (cases "h = i")
    case True
    have "truncLoop n lim h i s = Some (truncChain lim h s)" using 1(4) True by (subst truncLoop.simps) simp
    with True 1(4,5) c show ?thesis
      by (intro exI [of _ "truncChain lim h s"] exI [of _ S1]) (auto simp: S1_def)
  next
    case False
    have "pc1 (truncChain lim h s) S1 {} (card S1)" "nHash (truncChain lim h s) = n"
      using c 1(3) by (simp_all add: cuts_def)
    then obtain s' S' where s': "truncLoop n lim ((h + 1) mod n) i (truncChain lim h s) = Some s'"
      "cuts lim (truncChain lim h s) S1 s' S'"
      "\<forall>a\<in>S'. \<forall>j\<le>(i + n - (h + 1) mod n) mod n. iKey (truncChain lim h s) a mod n = ((h + 1) mod n + j) mod n
         \<longrightarrow> iKey (truncChain lim h s) a < lim"
      using 1(1) [of S1] 1(4,5) False by auto
    have k: "iKey (truncChain lim h s) = iKey s" using c by (simp add: cuts_def)
    have st: "(i + n - h) mod n = Suc ((i + n - (h + 1) mod n) mod n)"
      using 1(4,5) False by (auto simp: mod_if Suc_diff_le)
    have "iKey s a < lim" if "a \<in> S'" "j \<le> (i + n - h) mod n" "iKey s a mod n = (h + j) mod n" for a j
    proof (cases j)
      case 0
      have "a \<in> S1" using that(1) s'(2) by (auto simp: cuts_def)
      with 0 that(3) 1(4) show ?thesis by (auto simp: S1_def)
    next
      case (Suc l)
      then have "iKey s a mod n = ((h + 1) mod n + l) mod n" using that(3) by (simp add: mod_add_left_eq)
      with s'(3) that(1,2) Suc st k show ?thesis by auto
    qed
    moreover have "truncLoop n lim h i s = Some s'" using False 1(4,5) s'(1) by (simp add: truncLoop.simps [of n lim h i s])
    ultimately show ?thesis using cuts_trans [OF c s'(2)] by blast
  qed
qed

lemma cyclic_distance: "d < n \<Longrightarrow> ((l + d) mod n + n - l mod n) mod n = (d::nat)"
proof -
  assume d: "d < n"
  define r where "r = l mod n"
  have r: "r < n" using d by (simp add: r_def)
  have "(l + d) mod n = (r + d) mod n" by (simp add: r_def mod_add_left_eq)
  then have "(l + d) mod n = (if r + d < n then r + d else r + d - n)" using r d by (simp add: mod_if)
  then show ?thesis using r d unfolding r_def [symmetric] by (cases "r + d < n") (simp_all add: mod_if)
qed

lemma TruncateUnsafe_cuts:
  assumes "pc1 s S {} (card S)" "lim \<le> iMaxKey s"
  shows "\<exists>s'. pcache1TruncateUnsafe lim s = Some s' \<and> cuts lim s S s' {a \<in> S. iKey s a < lim}"
proof -
  note d = pc1D [OF assms(1)]
  define n where "n = nHash s"
  have n: "256 \<le> n" "0 < n" using d(13,14) by (simp_all add: n_def)
  define h where "h = (if iMaxKey s - lim < n then lim mod n else n div 2)"
  define i where "i = (if iMaxKey s - lim < n then iMaxKey s mod n else n div 2 - 1)"
  have "h < n" "i < n" using n by (auto simp: h_def i_def)
  from truncLoop_cuts [OF assms(1) n_def [symmetric] this, of lim]
  obtain s' S' where s': "truncLoop n lim h i s = Some s'" "cuts lim s S s' S'"
    "\<forall>a\<in>S'. \<forall>j\<le>(i + n - h) mod n. iKey s a mod n = (h + j) mod n \<longrightarrow> iKey s a < lim" by blast
  have "iKey s a < lim" if a: "a \<in> S'" for a
  proof (rule ccontr)
    assume l: "\<not> iKey s a < lim"
    have m: "iKey s a \<le> iMaxKey s" using a s'(2) d(3) by (auto simp: cuts_def)
    have "\<exists>j\<le>(i + n - h) mod n. iKey s a mod n = (h + j) mod n"
    proof (cases "iMaxKey s - lim < n")
      case True
      have "(i + n - h) mod n = iMaxKey s - lim"
        using cyclic_distance [OF True, of lim] True assms(2) by (simp add: h_def i_def)
      moreover have "iKey s a = lim + (iKey s a - lim)" using l by simp
      then have "iKey s a mod n = (lim mod n + (iKey s a - lim)) mod n" by (metis mod_add_left_eq)
      ultimately show ?thesis using m l True by (intro exI [of _ "iKey s a - lim"]) (simp add: h_def)
    next
      case False
      have "(i + n - h) mod n = n - 1" using False n by (simp add: h_def i_def)
      moreover have "iKey s a mod n = (h + (iKey s a + (n - h)) mod n) mod n"
        using \<open>h < n\<close> by (simp add: mod_add_right_eq)
      moreover have "(iKey s a + (n - h)) mod n \<le> n - 1" using n(2) mod_less_divisor [of n "iKey s a + (n - h)"] by linarith
      ultimately show ?thesis by (intro exI [of _ "(iKey s a + (n - h)) mod n"]) simp
    qed
    with s'(3) a l show False by blast
  qed
  then have "S' = {a \<in> S. iKey s a < lim}" using s'(2) by (auto simp: cuts_def)
  moreover have "pcache1TruncateUnsafe lim s = truncLoop n lim h i s"
    using n assms(2) by (simp add: pcache1TruncateUnsafe_def h_def i_def n_def dec32_def)
  ultimately show ?thesis using s'(1,2) by auto
qed


section \<open>The methods keep the contract\<close>

lemma mrel1I:
  "pc1 s S {} (card S) \<Longrightarrow> (\<And>k a. R k = Some a \<longleftrightarrow> a \<in> S \<and> iKey s a = k) \<Longrightarrow> P = S - set (lru s) \<Longrightarrow> mrel1 s R P"
  unfolding mrel1_def by blast

lemma mrel1E:
  assumes "mrel1 s R P"
  obtains S where "pc1 s S {} (card S)" "\<And>k a. R k = Some a \<longleftrightarrow> a \<in> S \<and> iKey s a = k" "P = S - set (lru s)"
  using assms unfolding mrel1_def by blast

lemma no_key:
  assumes "\<And>k a. R k = Some a \<longleftrightarrow> a \<in> S \<and> key a = k" "R k = None"
  shows "k \<notin> key ` S"
proof
  assume "k \<in> key ` S"
  then obtain a where "a \<in> S" "key a = k" by auto
  then have "R k = Some a" by (simp add: assms(1))
  with assms(2) show False by simp
qed

text \<open>The map that a table stands for.\<close>

definition rmap :: "(nat \<Rightarrow> nat) \<Rightarrow> nat set \<Rightarrow> nat \<rightharpoonup> nat" where
  "rmap key S k = (if k \<in> key ` S then Some (the_inv_into S key k) else None)"

lemma rmap_iff: "inj_on key S \<Longrightarrow> rmap key S k = Some a \<longleftrightarrow> a \<in> S \<and> key a = k"
  unfolding rmap_def using the_inv_into_f_f [of key S] by (auto dest: inj_onD)

lemma mrel1_rmap: "pc1 s S {} (card S) \<Longrightarrow> P = S - set (lru s) \<Longrightarrow> mrel1 s (rmap (iKey s) S) P"
  using pc1D(2) [of s S "{}" "card S"] by (intro mrel1I) (simp_all add: rmap_iff)

lemma mrel1_wf:
  assumes "mrel1 s R P"
  shows "inj_on R (dom R) \<and> P \<subseteq> ran R \<and> finite (dom R)"
proof -
  obtain S where S: "pc1 s S {} (card S)" "\<And>k a. R k = Some a \<longleftrightarrow> a \<in> S \<and> iKey s a = k" "P = S - set (lru s)"
    using mrel1E [OF assms] by blast
  have "dom R = iKey s ` S" using S(2) by (auto simp: dom_def)
  moreover have "P \<subseteq> ran R" using S(2,3) by (auto simp: ran_def)
  moreover have "inj_on R (dom R)"
  proof (rule inj_onI)
    fix k l assume "k \<in> dom R" "R k = R l"
    then obtain a where "R k = Some a" by blast
    with \<open>R k = R l\<close> S(2) show "k = l" by metis
  qed
  ultimately show ?thesis using pc1D(12) [OF S(1)] by simp
qed

lemma evicts_mrel1:
  assumes "evicts s S s' S'" "\<And>k a. R k = Some a \<longleftrightarrow> a \<in> S \<and> iKey s a = k" "P = S - set (lru s)"
  shows "kept R P (rmap (iKey s') S') \<and> mrel1 s' (rmap (iKey s') S') P"
proof -
  have p: "pc1 s' S' {} (card S')" and e: "S' \<subseteq> S" "S - set (lru s) = S' - set (lru s')" "iKey s' = iKey s"
    using assms(1) by (simp_all add: evicts_def)
  note i = rmap_iff [OF pc1D(2) [OF p]]
  have "kept R P (rmap (iKey s') S')"
    by (rule keptI) (use assms(2,3) e i in auto)
  with mrel1_rmap [OF p, of P] assms(3) e(2) show ?thesis by simp
qed

lemma pc1_grp:
  "pc1 s S A n \<Longrightarrow> pc1 (s\<lparr>nMaxPage := x\<rparr>) S A n"
  "pc1 s S A n \<Longrightarrow> pc1 (s\<lparr>nMaxPage := x, mxPinned := y, nMax := z, n90pct := w\<rparr>) S A n"
  by (simp_all add: pc1_def pool_def)

lemma evicts_grp: "evicts (s\<lparr>nMaxPage := x, mxPinned := y, nMax := z, n90pct := w\<rparr>) S s' S' \<longleftrightarrow> evicts s S s' S'"
  "evicts (s\<lparr>nMaxPage := x\<rparr>) S s' S' \<longleftrightarrow> evicts s S s' S'"
  "evicts s S s' S' \<Longrightarrow> evicts s S (s'\<lparr>nMaxPage := x\<rparr>) S'"
  unfolding evicts_def by (simp_all add: pc1_grp)

lemma Cachesize_mrel1:
  assumes "mrel1 s R P"
  shows "\<exists>s' R'. pcache1Cachesize s n = Some s' \<and> kept R P R' \<and> mrel1 s' R' P"
proof (cases "bPurgeable s")
  case False
  with assms show ?thesis by (auto simp: pcache1Cachesize_def intro: exI [of _ R])
next
  case True
  obtain S where S: "pc1 s S {} (card S)" "\<And>k a. R k = Some a \<longleftrightarrow> a \<in> S \<and> iKey s a = k" "P = S - set (lru s)"
    using mrel1E [OF assms] by blast
  obtain x y z w where e: "pcache1Cachesize s n = pcache1EnforceMaxPage (s\<lparr>nMaxPage := x, mxPinned := y, nMax := z, n90pct := w\<rparr>)"
    using True by (simp add: pcache1Cachesize_def Let_def)
  obtain s' S' where "pcache1Cachesize s n = Some s'" "evicts s S s' S'"
    using EnforceMaxPage_evicts [OF pc1_grp(2) [OF S(1), where x = x and y = y and z = z and w = w]]
    unfolding e evicts_grp by blast
  with evicts_mrel1 [OF _ S(2,3)] show ?thesis by blast
qed

lemma Shrink_mrel1:
  assumes "mrel1 s R P"
  shows "\<exists>s' R'. pcache1Shrink s = Some s' \<and> kept R P R' \<and> mrel1 s' R' P"
proof (cases "bPurgeable s")
  case False
  with assms show ?thesis by (auto simp: pcache1Shrink_def intro: exI [of _ R])
next
  case True
  obtain S where S: "pc1 s S {} (card S)" "\<And>k a. R k = Some a \<longleftrightarrow> a \<in> S \<and> iKey s a = k" "P = S - set (lru s)"
    using mrel1E [OF assms] by blast
  from EnforceMaxPage_evicts [OF pc1_grp(1) [OF S(1)], of 0]
  obtain s' S' where s': "pcache1EnforceMaxPage (s\<lparr>nMaxPage := 0\<rparr>) = Some s'" "evicts s S s' S'" unfolding evicts_grp by blast
  have "pcache1Shrink s = Some (s'\<lparr>nMaxPage := nMaxPage s\<rparr>)" using True s'(1) by (simp add: pcache1Shrink_def Let_def)
  with evicts_mrel1 [OF evicts_grp(3) [OF s'(2)] S(2,3)] show ?thesis by blast
qed

lemma Truncate_mrel1:
  assumes "mrel1 s R P" "1 \<le> lim"
  shows "\<exists>s'. pcache1Truncate s lim = Some s' \<and> mrel1 s' (R |` {..<lim}) (P \<inter> ran (R |` {..<lim}))"
proof -
  obtain S where S: "pc1 s S {} (card S)" "\<And>k a. R k = Some a \<longleftrightarrow> a \<in> S \<and> iKey s a = k" "P = S - set (lru s)"
    using mrel1E [OF assms(1)] by blast
  define S' where "S' = {a \<in> S. iKey s a < lim}"
  have R': "(R |` {..<lim}) k = Some a \<longleftrightarrow> a \<in> S' \<and> iKey s a = k" for k a
    using S(2) by (auto simp: restrict_map_def S'_def)
  then have P': "P \<inter> ran (R |` {..<lim}) = S' - set (lru s)"
    using S(3) by (auto simp: ran_def S'_def)
  show ?thesis
  proof (cases "lim \<le> iMaxKey s")
    case False
    then have "S' = S" using pc1D(3) [OF S(1)] by (fastforce simp: S'_def)
    with False S(1) R' show ?thesis unfolding P' by (simp add: pcache1Truncate_def mrel1I [of s S])
  next
    case True
    obtain s1 where s1: "pcache1TruncateUnsafe lim s = Some s1" "cuts lim s S s1 S'"
      using TruncateUnsafe_cuts [OF S(1) True] unfolding S'_def by blast
    define s' where "s' = s1\<lparr>iMaxKey := dec32 lim\<rparr>"
    have "dec32 lim = lim - 1" using assms(2) by (simp add: dec32_def)
    then have "\<forall>a\<in>S'. iKey s' a \<le> iMaxKey s'" using s1(2) by (auto simp: s'_def S'_def cuts_def)
    then have "pc1 s' S' {} (card S')" using s1(2) by (auto simp: s'_def cuts_def pc1_def pool_def)
    moreover have "iKey s' = iKey s" "set (lru s') = set (lru s) \<inter> S'" using s1(2) by (simp_all add: s'_def cuts_def)
    ultimately have "mrel1 s' (R |` {..<lim}) (P \<inter> ran (R |` {..<lim}))"
      using R' unfolding P' by (intro mrel1I [of s' S']) auto
    moreover have "pcache1Truncate s lim = Some s'" using True s1(1) by (simp add: pcache1Truncate_def s'_def)
    ultimately show ?thesis by blast
  qed
qed


lemma Pagecount_mrel1:
  assumes "mrel1 s R P"
  shows "pcache1Pagecount s = card (dom R)"
proof -
  obtain S where S: "pc1 s S {} (card S)" "\<And>k a. R k = Some a \<longleftrightarrow> a \<in> S \<and> iKey s a = k"
    using mrel1E [OF assms] by blast
  have "dom R = iKey s ` S" using S(2) by (auto simp: dom_def)
  with pc1D(2,6) [OF S(1)] show ?thesis by (simp add: pcache1Pagecount_def card_image)
qed

lemma Unpin_mrel1:
  assumes "mrel1 s R P" "a \<in> P"
  shows "\<exists>s' R'. pcache1Unpin s a discard = Some s' \<and> kept R (P - {a}) R' \<and> mrel1 s' R' (P - {a})
    \<and> (discard \<longrightarrow> a \<notin> ran R')"
proof -
  obtain S where S: "pc1 s S {} (card S)" "\<And>k a. R k = Some a \<longleftrightarrow> a \<in> S \<and> iKey s a = k" "P = S - set (lru s)"
    using mrel1E [OF assms(1)] by blast
  note d = pc1D [OF S(1)]
  have a: "a \<in> S" "a \<notin> set (lru s)" using assms(2) S(3) by auto
  show ?thesis
  proof (cases "discard \<or> nPurgeable s > nMaxPage s")
    case True
    obtain s' where s': "pcache1RemoveFromHash a True s = Some s'" "pc1 s' (S - {a}) {} (card (S - {a}))"
      "iKey s' = iKey s" "lru s' = lru s"
      using RemoveFromHash_free [OF S(1) a] by blast
    define R' where "R' = rmap (iKey s) (S - {a})"
    have R': "R' k = Some b \<longleftrightarrow> b \<in> S - {a} \<and> iKey s b = k" for k b
      unfolding R'_def by (rule rmap_iff [OF inj_on_remove [OF d(2)]])
    have "mrel1 s' R' (P - {a})"
      by (rule mrel1I [OF s'(2)]) (use R' s'(3,4) S(3) in auto)
    moreover have "kept R (P - {a}) R'" by (rule keptI) (use R' S(2) in auto)
    moreover have "a \<notin> ran R'" using R' by (auto simp: ran_def)
    ultimately show ?thesis using True s'(1) by (auto simp: pcache1Unpin_def)
  next
    case False
    define s' where "s' = s\<lparr>lru := a # lru s, nRecyclable := nRecyclable s + 1\<rparr>"
    have "pc1 s' S {} (card S)" using S(1) a by (simp add: s'_def pc1_def pool_def)
    then have "mrel1 s' R (P - {a})"
      by (rule mrel1I) (use S(2,3) in \<open>auto simp: s'_def\<close>)
    moreover have "pcache1Unpin s a discard = Some s'" using False by (simp add: pcache1Unpin_def s'_def)
    ultimately show ?thesis using False by (intro exI [of _ s'] exI [of _ R]) simp
  qed
qed

lemma Rekey_mrel1:
  assumes "mrel1 s R P" "R old = Some a" "a \<in> P" "R new = None"
  shows "\<exists>s'. pcache1Rekey s a old new = Some s' \<and> mrel1 s' (R(old := None, new \<mapsto> a)) P"
proof -
  obtain S where S: "pc1 s S {} (card S)" "\<And>k a. R k = Some a \<longleftrightarrow> a \<in> S \<and> iKey s a = k" "P = S - set (lru s)"
    using mrel1E [OF assms(1)] by blast
  note d = pc1D [OF S(1)]
  have a: "a \<in> S" "iKey s a = old" "a \<notin> set (lru s)" using assms(2,3) S(2,3) by auto
  have new: "new \<notin> iKey s ` S" by (rule no_key [OF S(2) assms(4)])
  define s1 where "s1 = s\<lparr>apHash := (apHash s)[old mod nHash s := remove1 a (apHash s ! (old mod nHash s))]\<rparr>"
  define h where "h = new mod nHash s"
  define s' where "s' = s1\<lparr>iKey := (iKey s)(a := new), apHash := (apHash s1)[h := a # apHash s1 ! h],
    iMaxKey := (if new > iMaxKey s then new else iMaxKey s)\<rparr>"
  have "a \<in> set (apHash s ! (old mod nHash s))" using tbl_mem [OF d(1), of a] a(1,2) by simp
  then have e: "pcache1Rekey s a old new = Some s'" using d(13)
    by (simp add: pcache1Rekey_def Let_def s'_def s1_def h_def)
  have "tbl (iKey s) (nHash s) (apHash s1) (S - {a})"
    using tbl_remove [OF d(1), of "old mod nHash s" a] a(2) by (simp add: s1_def)
  then have "tbl ((iKey s)(a := new)) (nHash s) (apHash s1) (S - {a})" by (rule tbl_key) simp
  from tbl_insert [OF this, of a h] a(1) have "tbl (iKey s') (nHash s) (apHash s') S"
    by (simp add: s'_def h_def insert_absorb)
  moreover have "inj_on (iKey s') S" using d(2) new by (auto simp: s'_def inj_on_def)
  moreover have "\<forall>b\<in>S. iKey s' b \<le> iMaxKey s'" using d(3) by (auto simp: s'_def)
  moreover have "pool s' (S \<union> {})" using d(11) by (simp add: pool_def s'_def s1_def)
  ultimately have p: "pc1 s' S {} (card S)" using d unfolding pc1_def by (simp add: s'_def s1_def)
  show ?thesis
  proof (intro exI conjI, rule e, rule mrel1I [OF p])
    show "P = S - set (lru s')" using S(3) by (simp add: s'_def s1_def)
    have u: "b = a" if "b \<in> S" "iKey s b = old" for b
      using inj_onD [OF d(2), of b a] that a by simp
    have ik: "iKey s' = (iKey s)(a := new)" by (simp add: s'_def)
    show "(R(old := None, new \<mapsto> a)) k = Some b \<longleftrightarrow> b \<in> S \<and> iKey s' b = k" for k b
    proof (cases "b = a")
      case True
      then show ?thesis using a S(2) [of k a] unfolding ik by (cases "k = old") auto
    next
      case False
      moreover have "iKey s b \<noteq> new" if "b \<in> S" using new that by blast
      ultimately show ?thesis using u [of b] S(2) [of k b] unfolding ik by auto
    qed
  qed
qed

lemma Fetch_hit_mrel1:
  assumes "mrel1 s R P" "R k = Some a"
  shows "\<exists>s'. pcache1Fetch s k c = Some (Some (a, False), s') \<and> mrel1 s' R (insert a P)"
proof -
  obtain S where S: "pc1 s S {} (card S)" "\<And>k a. R k = Some a \<longleftrightarrow> a \<in> S \<and> iKey s a = k" "P = S - set (lru s)"
    using mrel1E [OF assms(1)] by blast
  note d = pc1D [OF S(1)]
  have a: "a \<in> S" "iKey s a = k" using assms(2) S(2) by auto
  have m: "a \<in> set (apHash s ! (k mod nHash s))" using tbl_mem [OF d(1), of a] a by simp
  have u: "b = a" if "b \<in> set (apHash s ! (k mod nHash s))" "iKey s b = k" for b
  proof -
    have "b \<in> S" using that(1) tblD(4) [OF d(1), of "k mod nHash s"] d(13) by simp
    with that(2) a d(2) show ?thesis by (auto dest: inj_onD)
  qed
  have "find (\<lambda>p. iKey s p = k) (apHash s ! (k mod nHash s)) = Some a"
  proof (cases "find (\<lambda>p. iKey s p = k) (apHash s ! (k mod nHash s))")
    case None
    with m a(2) show ?thesis by (auto simp: find_None_iff)
  next
    case (Some b)
    then have "b \<in> set (apHash s ! (k mod nHash s)) \<and> iKey s b = k" by (auto simp: find_Some_iff)
    with u Some show ?thesis by simp
  qed
  then have "pcache1Fetch s k c = Some (Some (a, False), if a \<in> set (lru s) then pcache1PinPage a s else s)"
    using d(13) by (simp add: pcache1Fetch_def)
  moreover have "mrel1 (if a \<in> set (lru s) then pcache1PinPage a s else s) R (insert a P)"
  proof (cases "a \<in> set (lru s)")
    case True
    note p = PinPage_pc1 [OF S(1) True]
    have "insert a P = S - set (lru (pcache1PinPage a s))" unfolding p(2) S(3) using a by auto
    moreover have "iKey (pcache1PinPage a s) = iKey s" by (simp add: pcache1PinPage_def)
    ultimately show ?thesis using mrel1I [OF p(1)] S(2) True by simp
  next
    case False
    with assms(1) S(3) a show ?thesis by (simp add: insert_absorb)
  qed
  ultimately show ?thesis by blast
qed


lemma pc1_heapFull: "pc1 (s\<lparr>heapFull := x\<rparr>) S A n \<longleftrightarrow> pc1 s S A n"
  by (simp add: pc1_def pool_def)

lemma env_pc1:
  "pc1 s S A n \<Longrightarrow> pcache1UnderMemoryPressure s = (b, s') \<Longrightarrow> pc1 s' S A n \<and> same_tab s s'"
  by (auto simp: pcache1UnderMemoryPressure_def same_tab_def pc1_heapFull split: if_splits list.splits)

lemma nearlyFull_pc1:
  "pc1 s S A n \<Longrightarrow> nearlyFull s = (b, s') \<Longrightarrow> pc1 s' S A n \<and> same_tab s s'"
  using env_pc1 [of s S A n]
  by (cases "pcache1UnderMemoryPressure s") (auto simp: nearlyFull_def Let_def same_tab_def split: if_splits)

lemma recyclePage_pc1:
  assumes "pc1 s S {} (card S)"
  shows "\<exists>r s'. recyclePage s = Some (r, s') \<and> iKey s' = iKey s \<and>
    (case r of None \<Rightarrow> pc1 s' S {} (card S) \<and> lru s' = lru s
     | Some p \<Rightarrow> p \<in> set (lru s) \<and> pc1 s' (S - {p}) {p} (card (S - {p})) \<and> set (lru s') = set (lru s) - {p})"
proof (cases "bPurgeable s \<and> lru s \<noteq> []")
  case False
  with assms show ?thesis by (auto simp: recyclePage_def)
next
  case True
  obtain b s1 where b: "(if nPage s + 1 \<ge> nMax s then (True, s) else pcache1UnderMemoryPressure s) = (b, s1)"
    "pc1 s1 S {} (card S)" "same_tab s s1"
    using env_pc1 [OF assms] assms by (cases "nPage s + 1 \<ge> nMax s"; cases "pcache1UnderMemoryPressure s")
      (simp_all add: same_tab_def)
  show ?thesis
  proof (cases b)
    case False
    with True b show ?thesis by (auto simp: recyclePage_def same_tab_def)
  next
    case bT: True
    define p where "p = last (lru s1)"
    have l: "lru s1 = lru s" "iKey s1 = iKey s" using b(3) by (simp_all add: same_tab_def)
    have p: "p \<in> set (lru s)" "p \<in> S" using True pc1D(8) [OF assms] unfolding p_def l by auto
    obtain s2 where s2: "pcache1RemoveFromHash p False s1 = Some s2" "pc1 s2 (S - {p}) {p} (dec32 (card S))"
      "iKey s2 = iKey s1" "lru s2 = lru s1"
      using RemoveFromHash_keep [OF b(2) p(2)] by blast
    have "card S \<noteq> 0" using p(2) pc1D(12) [OF assms] by auto
    then have c: "dec32 (card S) = card (S - {p})" using p(2) pc1D(12) [OF assms] by (simp add: dec32_def)
    have "recyclePage s = Some (Some p, pcache1PinPage p s2)"
      using True b(1) bT s2(1) by (simp add: recyclePage_def p_def Let_def)
    moreover have "iKey (pcache1PinPage p s2) = iKey s" using s2(3) l by (simp add: pcache1PinPage_def)
    ultimately show ?thesis using PinPage_pc1 [OF s2(2), of p] p(1) s2(4) l c by simp
  qed
qed

lemma Fetch_miss_mrel1:
  assumes "mrel1 s R P" "R k = None"
  shows "\<exists>r s' R'. pcache1Fetch s k c = Some (r, s') \<and> kept R P R' \<and>
    (case r of None \<Rightarrow> mrel1 s' R' P
     | Some (a, new) \<Rightarrow> new \<and> c \<noteq> 0 \<and> a \<notin> P \<and> a \<notin> ran R' \<and> mrel1 s' (R'(k \<mapsto> a)) (insert a P))"
proof -
  obtain S where S: "pc1 s S {} (card S)" "\<And>k a. R k = Some a \<longleftrightarrow> a \<in> S \<and> iKey s a = k" "P = S - set (lru s)"
    using mrel1E [OF assms(1)] by blast
  note d = pc1D [OF S(1)]
  have k: "k \<notin> iKey s ` S" by (rule no_key [OF S(2) assms(2)])
  have "find (\<lambda>p. iKey s p = k) (apHash s ! (k mod nHash s)) = None"
    using tblD(4) [OF d(1), of "k mod nHash s"] d(13) k by (auto simp: find_None_iff)
  then have e: "pcache1Fetch s k c = (if c \<noteq> 0 then pcache1FetchStage2 s k c else Some (None, s))"
    using d(13) by (simp add: pcache1Fetch_def)
  have stay: "pcache1Fetch s k c = Some (None, s') \<Longrightarrow> pc1 s' S {} (card S) \<Longrightarrow> iKey s' = iKey s \<Longrightarrow> lru s' = lru s \<Longrightarrow> ?thesis" for s'
    using S(2,3) by (intro exI [of _ None] exI [of _ s'] exI [of _ R]) (simp add: mrel1I [of s' S])
  show ?thesis
  proof (cases "c = 0")
    case True
    with stay S(1) e show ?thesis by simp
  next
    case False
    obtain full s1 where f: "(if c = 1 then nearlyFull s else (False, s)) = (full, s1)" "pc1 s1 S {} (card S)" "same_tab s s1"
      using nearlyFull_pc1 [OF S(1)] S(1) by (cases "c = 1"; cases "nearlyFull s") (simp_all add: same_tab_def)
    show ?thesis
    proof (cases full)
      case True
      with stay f False e show ?thesis by (simp add: pcache1FetchStage2_def same_tab_def)
    next
      case nf: False
      define s2 where "s2 = (if nPage s1 \<ge> nHash s1 then pcache1ResizeHash s1 else s1)"
      have s2: "pc1 s2 S {} (card S)" "iKey s2 = iKey s" "lru s2 = lru s"
        using f(2,3) ResizeHash_pc1 [OF f(2)] by (simp_all add: s2_def same_tab_def)
      obtain r s3 where r: "recyclePage s2 = Some (r, s3)" "iKey s3 = iKey s2"
        "case r of None \<Rightarrow> pc1 s3 S {} (card S) \<and> lru s3 = lru s2
         | Some p \<Rightarrow> p \<in> set (lru s2) \<and> pc1 s3 (S - {p}) {p} (card (S - {p})) \<and> set (lru s3) = set (lru s2) - {p}"
        using recyclePage_pc1 [OF s2(1)] by blast
      have st: "pcache1Fetch s k c = do {
          (p, t) \<leftarrow> (if r = None then pcache1AllocPage s3 else Some (r, s3));
          Some (case p of None \<Rightarrow> (None, t) | Some p \<Rightarrow> (Some (p, True), pageInsert p k t)) }"
        using False nf f(1) r(1) e by (simp add: pcache1FetchStage2_def s2_def Let_def)
      have fin: ?thesis if t: "pcache1Fetch s k c = Some (Some (p, True), pageInsert p k t)" "pc1 t S' {p} (card S')"
        "p \<notin> set (lru t)" "S' \<subseteq> S" "iKey t = iKey s" "P = S' - set (lru t)" for p t S'
      proof -
        have ks: "k \<notin> iKey t ` S'" using k t(4,5) by auto
        note i = pageInsert_pc1 [OF t(2,3) ks]
        have p: "p \<notin> S'" using pc1D(5) [OF t(2)] by simp
        define R' where "R' = rmap (iKey s) S'"
        have R': "R' l = Some b \<longleftrightarrow> b \<in> S' \<and> iKey s b = l" for l b
          unfolding R'_def using d(2) t(4) by (intro rmap_iff) (rule inj_on_subset)
        have "mrel1 (pageInsert p k t) (R'(k \<mapsto> p)) (insert p P)"
        proof (rule mrel1I [OF i])
          show "(R'(k \<mapsto> p)) l = Some b \<longleftrightarrow> b \<in> insert p S' \<and> iKey (pageInsert p k t) b = l" for l b
            using R' p ks t(5) by (auto simp: pageInsert_def Let_def)
          show "insert p P = insert p S' - set (lru (pageInsert p k t))"
            using t(3,6) by (auto simp: pageInsert_def Let_def)
        qed
        moreover have "kept R P R'" by (rule keptI) (use R' S(2) t(4,6) in auto)
        moreover have "p \<notin> P" "p \<notin> ran R'" using p t(6) R' by (auto simp: ran_def)
        ultimately show ?thesis using t(1) False by (intro exI [of _ "Some (p, True)"] exI [of _ "pageInsert p k t"] exI [of _ R']) simp
      qed
      show ?thesis
      proof (cases r)
        case (Some p)
        then have p: "p \<in> set (lru s)" "pc1 s3 (S - {p}) {p} (card (S - {p}))" "set (lru s3) = set (lru s) - {p}"
          using r(3) s2(3) by simp_all
        show ?thesis by (rule fin [of p s3 "S - {p}"]) (use st Some p r(2) s2(2) S(3) in auto)
      next
        case None
        then have s3: "pc1 s3 S {} (card S)" "lru s3 = lru s" using r(3) s2(3) by simp_all
        obtain q t where q: "pcache1AllocPage s3 = Some (q, t)" "same_tab s3 t"
          "case q of None \<Rightarrow> pc1 t S {} (card S) | Some a \<Rightarrow> a \<notin> S \<and> a \<notin> set (lru t) \<and> pc1 t S {a} (card S)"
          using AllocPage_pc1 [OF s3(1)] by blast
        show ?thesis
        proof (cases q)
          case None
          with stay [of t] st q s3 r(2) s2(2) \<open>r = None\<close> show ?thesis by (simp add: same_tab_def)
        next
          case (Some p)
          show ?thesis by (rule fin [of p t S])
            (use st Some q s3 r(2) s2(2) \<open>r = None\<close> S(3) in \<open>simp_all add: same_tab_def\<close>)
        qed
      qed
    qed
  qed
qed

text \<open>The module keeps the promises of the interface.\<close>

lemma defaultMethods_module: "pcache_module defaultMethods mrel1"
  by (unfold_locales, unfold defaultMethods_def pcache2.select_convs)
    (rule mrel1_wf Fetch_hit_mrel1 Fetch_miss_mrel1 Unpin_mrel1 Rekey_mrel1 Truncate_mrel1
      Cachesize_mrel1 Shrink_mrel1 Pagecount_mrel1; assumption)+

section \<open>A new cache\<close>

text \<open>What the global state gives a cache whose lines have \<open>sz\<close> bytes.\<close>

definition global_ok :: "nat \<Rightarrow> pcglobal \<Rightarrow> bool" where
  "global_ok sz g \<longleftrightarrow> distinct (pFreeSlot g) \<and> (\<forall>a\<in>set (pFreeSlot g). pStart g \<le> a \<and> a < pEnd g)
     \<and> nFreeSlot g = length (pFreeSlot g) \<and> pEnd g \<le> brk g \<and> (\<forall>n. n \<le> mallocSize g n)
     \<and> (nInitPage g < 0 \<longrightarrow> int sz \<le> - 1024 * nInitPage g)"

lemma Init_global_ok:
  "\<forall>n. n \<le> msz n \<Longrightarrow> 0 \<le> nPg \<or> hasBuf \<or> int sz \<le> - 1024 * nPg \<Longrightarrow> global_ok sz (pcache1Init hasBuf nPg ok full base msz)"
  by (auto simp: global_ok_def pcache1Init_def)

lemma BufferSetup_global_ok: "global_ok sz g \<Longrightarrow> global_ok sz (sqlite3PCacheBufferSetup b z n g)"
  by (auto simp: global_ok_def sqlite3PCacheBufferSetup_def Let_def)

lemma Create_mrel1:
  assumes "pcache1Create sz extra p g = Some s" "global_ok (sz + extra + 56) g"
  shows "mrel1 s Map.empty {}"
proof -
  obtain ok mem where al: "alloc_ok (memOk g) = (ok, mem)" by fastforce
  define s0 where "s0 = (pcache1Zero (g\<lparr>memOk := mem\<rparr>))\<lparr>mxPinned := 10, szPage := sz, szExtra := extra,
    szAlloc := sz + extra + 56, bPurgeable := p\<rparr>"
  define s1 where "s1 = pcache1ResizeHash s0"
  have ok: "ok" and nz: "nHash s1 \<noteq> 0" and s: "s = (if p then s1\<lparr>nMin := 10, nMinPage := nMinPage s1 + 10,
      mxPinned := to_u32 (int (nMaxPage s1) + 10 - int (nMinPage s1 + 10))\<rparr> else s1)"
    using assms(1) al unfolding pcache1Create_def by (auto simp: Let_def s0_def s1_def split: if_splits)
  obtain ok2 mem2 where al2: "alloc_ok mem = (ok2, mem2)" by fastforce
  have s0: "nHash s0 = 0" "apHash s0 = []" "memOk s0 = mem"
    by (simp_all add: s0_def pcache1Zero_def pcglobal.defs)
  have s1: "s1 = s0\<lparr>memOk := mem2, apHash := replicate 256 [], nHash := 256\<rparr>"
    using nz s0 al2 unfolding s1_def pcache1ResizeHash_def by (auto simp: Let_def split: if_splits)
  have "tbl (iKey s1) 256 (replicate 256 []) {}" by (rule tbl_empty) simp
  then have "pc1 s1 {} {} 0"
    using assms(2) unfolding s1 s0_def
    by (simp add: pc1_def pool_def pcache1Zero_def pcglobal.defs global_ok_def)
  then have "pc1 s {} {} 0" unfolding s by (simp add: pc1_def pool_def)
  then show ?thesis by (intro mrel1I [of s "{}"]) auto
qed

section \<open>Properties\<close>

text \<open>C39. If \<open>SQLITE_CONFIG_PAGECACHE\<close> asks for a bulk allocation of \<open>1024*k\<close> bytes by a negative N and that is less than one
  cache line, \<open>pcache1InitBulk\<close> computes \<open>nBulk = 0\<close> and its loop \<open>do{ ... }while( --nBulk )\<close> runs out of the block (no value
  in the model).\<close>

theorem InitBulk_overrun:
  assumes "nInitPage s < 0" "- 1024 * nInitPage s < int (szAlloc s)" "3 \<le> nMax s" "fst (alloc_ok (memOk s))"
    "mallocSize s (nat (- 1024 * nInitPage s)) < szAlloc s"
  shows "pcache1InitBulk s = None"
proof -
  obtain mem where al: "alloc_ok (memOk s) = (True, mem)" using assms(4) by (cases "alloc_ok (memOk s)") auto
  have "int (szAlloc s) * 1 \<le> int (szAlloc s) * int (nMax s)" by (rule mult_left_mono) (use assms(3) in simp_all)
  then have "\<not> - 1024 * nInitPage s > int (szAlloc s * nMax s)" using assms(2) unfolding of_nat_mult by linarith
  then have "bulkSize s = - 1024 * nInitPage s" using assms(1,2) by (simp add: bulkSize_def Let_def)
  with assms al show ?thesis by (simp add: pcache1InitBulk_def Let_def)
qed

definition ex_cache :: "int \<Rightarrow> pcache1" where
  "ex_cache N = the (Option.bind (pcache1Create 1024 80 True (pcache1Init False N [] [] 1 id)) (\<lambda>s. pcache1Cachesize s 10))"

theorem InitBulk_overrun_witness: "pcache1InitBulk (ex_cache (- 1)) = None"
  by (rule InitBulk_overrun; code_simp)

text \<open>C40. \<open>pcache1Rekey\<close> does not discard an entry that the cache already has for the new key: afterwards two pages
  of the same chain have that key. (pcache.c never calls it in such a state.)\<close>

theorem Rekey_keeps_old_entry:
  assumes "0 < nHash s" "length (apHash s) = nHash s" "a \<in> set (apHash s ! (old mod nHash s))"
    "b \<in> set (apHash s ! (new mod nHash s))" "iKey s b = new" "b \<noteq> a"
  shows "\<exists>s'. pcache1Rekey s a old new = Some s' \<and> {a, b} \<subseteq> set (apHash s' ! (new mod nHash s'))
    \<and> iKey s' a = new \<and> iKey s' b = new"
  using assms by (auto simp: pcache1Rekey_def Let_def nth_list_update)

text \<open>Page 1 (key 1) is pinned, page 2 (key 2) is not.\<close>

definition ex_two :: pcache1 where
  "ex_two = the (do {
     (p, s) \<leftarrow> pcache1Fetch (ex_cache 0) 1 2;
     (p, s) \<leftarrow> pcache1Fetch s 2 2;
     pcache1Unpin s 2 False
   })"

theorem Rekey_keeps_old_entry_witness:
  "lru ex_two = [2] \<and> (\<exists>s'. pcache1Rekey ex_two 1 1 2 = Some s' \<and> {1, 2} \<subseteq> set (apHash s' ! (2 mod nHash s'))
    \<and> iKey s' 1 = 2 \<and> iKey s' 2 = 2)"
proof (rule conjI)
  show "lru ex_two = [2]" by code_simp
  show "\<exists>s'. pcache1Rekey ex_two 1 1 2 = Some s' \<and> {1, 2} \<subseteq> set (apHash s' ! (2 mod nHash s'))
    \<and> iKey s' 1 = 2 \<and> iKey s' 2 = 2"
    by (rule Rekey_keeps_old_entry; code_simp)
qed

end
