(* ===== verification/PageCache.thy ===== *)
theory PageCache
  imports Pcache Pcache1
begin

unbundle bit_operations_syntax

text \<open>
  The page cache as a whole: pcache.c on its default module pcache1.c. The operations that a pager calls are steps
  of a state machine; \<open>pc_may\<close> says what the callers owe (the assertions of the code). What the users of the
  cache see is a map of the pages with references and a map of the dirty pages; \<open>pc_spec\<close> is the
  abstract specification of each operation on these two maps.
\<close>

section \<open>Operations\<close>

datatype pc_op =
    OpGet nat spillenv
  | OpLookup nat
  | OpRef nat
  | OpRelease nat
  | OpDrop nat
  | OpMakeDirty nat
  | OpMakeClean nat
  | OpCleanAll
  | OpClearWritable
  | OpClearSyncFlags
  | OpMove nat nat
  | OpTruncate nat
  | OpCachesize int
  | OpSpillsize int
  | OpShrink

definition pcacheOpen :: "pcglobal \<Rightarrow> int \<Rightarrow> int \<Rightarrow> bool \<Rightarrow> (nat \<times> pcache1 pcache) option" where
  "pcacheOpen g = sqlite3PcacheOpen defaultMethods (\<lambda>sz extra p. pcache1Create (nat sz) (nat extra) p g)"

fun pc_apply :: "pc_op \<Rightarrow> pcache1 pcache \<Rightarrow> (nat option \<times> pcache1 pcache) option" where
  "pc_apply (OpGet k e) s = map_option snd (pagerGet defaultMethods (pagerStress defaultMethods e) k s)"
| "pc_apply (OpLookup k) s = sqlite3PagerLookup defaultMethods k s"
| "pc_apply (OpRef a) s = map_option (Pair None) (sqlite3PcacheRef a s)"
| "pc_apply (OpRelease a) s = map_option (Pair None) (sqlite3PcacheRelease defaultMethods a s)"
| "pc_apply (OpDrop a) s = map_option (Pair None) (sqlite3PcacheDrop defaultMethods a s)"
| "pc_apply (OpMakeDirty a) s = map_option (Pair None) (sqlite3PcacheMakeDirty a s)"
| "pc_apply (OpMakeClean a) s = map_option (Pair None) (sqlite3PcacheMakeClean defaultMethods a s)"
| "pc_apply OpCleanAll s = map_option (Pair None) (sqlite3PcacheCleanAll defaultMethods s)"
| "pc_apply OpClearWritable s = map_option (Pair None) (sqlite3PcacheClearWritable s)"
| "pc_apply OpClearSyncFlags s = map_option (Pair None) (sqlite3PcacheClearSyncFlags s)"
| "pc_apply (OpMove a k) s = map_option (Pair None) (sqlite3PcacheMove defaultMethods a k s)"
| "pc_apply (OpTruncate k) s = map_option (Pair None) (sqlite3PcacheTruncate defaultMethods k s)"
| "pc_apply (OpCachesize n) s = map_option (Pair None) (sqlite3PcacheSetCachesize defaultMethods n s)"
| "pc_apply (OpSpillsize n) s = Some (None, snd (sqlite3PcacheSetSpillsize n s))"
| "pc_apply OpShrink s = map_option (Pair None) (sqlite3PcacheShrink defaultMethods s)"

text \<open>The pages with references (number, count), the dirty pages (number), and the pages of the module.\<close>

definition users :: "'m pcache \<Rightarrow> nat \<rightharpoonup> nat \<times> int" where
  "users s a = (case hdr s a of None \<Rightarrow> None | Some h \<Rightarrow> if nRef h = 0 then None else Some (pgno h, nRef h))"

definition dirties :: "'m pcache \<Rightarrow> nat \<rightharpoonup> nat" where
  "dirties s a = (case hdr s a of None \<Rightarrow> None | Some h \<Rightarrow> if flags h AND PGHDR_DIRTY = 0 then None else Some (pgno h))"

definition resident :: "pcache1 pcache \<Rightarrow> nat list" where
  "resident s = (case pCache s of None \<Rightarrow> [] | Some m \<Rightarrow> concat (apHash m))"

text \<open>
  What callers owe: page numbers are positive, references are given back by those who have them, no two pages get the same
  number, a truncation leaves the pages in use (but page 1 may be in use), and there are at most 32766 references.
\<close>

fun pc_may :: "pc_op \<Rightarrow> pcache1 pcache \<Rightarrow> bool" where
  "pc_may (OpGet k e) s \<longleftrightarrow> 0 < k \<and> nRefSum s < 2 ^ 15 - 1"
| "pc_may (OpLookup k) s \<longleftrightarrow> 0 < k \<and> nRefSum s < 2 ^ 15 - 1"
| "pc_may (OpRef a) s \<longleftrightarrow> users s a \<noteq> None \<and> nRefSum s < 2 ^ 15 - 1"
| "pc_may (OpRelease a) s \<longleftrightarrow> users s a \<noteq> None"
| "pc_may (OpDrop a) s \<longleftrightarrow> (case users s a of None \<Rightarrow> False | Some (k, n) \<Rightarrow> n = 1)"
| "pc_may (OpMakeDirty a) s \<longleftrightarrow> users s a \<noteq> None"
| "pc_may (OpMakeClean a) s \<longleftrightarrow> dirties s a \<noteq> None"
| "pc_may (OpMove a k) s \<longleftrightarrow> users s a \<noteq> None \<and> 0 < k
     \<and> (case pCache s of None \<Rightarrow> False | Some m \<Rightarrow> \<forall>b\<in>set (resident s). iKey m b \<noteq> k)"
| "pc_may (OpTruncate k) s \<longleftrightarrow>
     (\<forall>a\<in>set (resident s). case users s a of None \<Rightarrow> True | Some (j, n) \<Rightarrow> j \<le> k \<or> j = 1)"
| "pc_may _ s \<longleftrightarrow> True"

section \<open>Abstract specification\<close>

text \<open>
  \<open>pc_spec op r (H, D) (H', D')\<close>: with the result \<open>r\<close> the operation takes the pages in use \<open>H\<close> and the dirty pages \<open>D\<close> to \<open>H'\<close> and \<open>D'\<close>.
\<close>

definition pc_found :: "nat \<Rightarrow> nat option \<Rightarrow> (nat \<rightharpoonup> nat \<times> int) \<Rightarrow> (nat \<rightharpoonup> nat) \<Rightarrow> (nat \<rightharpoonup> nat \<times> int) \<Rightarrow> bool" where
  "pc_found k r H D H' \<longleftrightarrow>
     H' = (case r of None \<Rightarrow> H | Some a \<Rightarrow> H(a \<mapsto> (k, count_at H a + 1)))
     \<and> (\<forall>b. map_option fst (H b) = Some k \<or> D b = Some k \<longrightarrow> r = Some b)"

definition pc_clear :: "nat \<Rightarrow> (nat \<rightharpoonup> nat) \<Rightarrow> nat \<rightharpoonup> nat" where
  "pc_clear a D = D(a := None)"

fun pc_spec ::
  "pc_op \<Rightarrow> nat option \<Rightarrow> (nat \<rightharpoonup> nat \<times> int) \<Rightarrow> (nat \<rightharpoonup> nat) \<Rightarrow> (nat \<rightharpoonup> nat \<times> int) \<Rightarrow> (nat \<rightharpoonup> nat) \<Rightarrow> bool"
where
  "pc_spec (OpGet k e) r H D H' D' \<longleftrightarrow> pc_found k r H D H' \<and> (D' = D \<or> (\<exists>a. H a = None \<and> D' = D(a := None)))"
| "pc_spec (OpLookup k) r H D H' D' \<longleftrightarrow> pc_found k r H D H' \<and> D' = D"
| "pc_spec (OpRef a) r H D H' D' \<longleftrightarrow> (\<exists>k n. H a = Some (k, n) \<and> H' = H(a \<mapsto> (k, n + 1))) \<and> D' = D"
| "pc_spec (OpRelease a) r H D H' D' \<longleftrightarrow>
     (\<exists>k n. H a = Some (k, n) \<and> H' = H(a := if n = 1 then None else Some (k, n - 1))) \<and> D' = D"
| "pc_spec (OpDrop a) r H D H' D' \<longleftrightarrow> H' = H(a := None) \<and> D' = D(a := None)"
| "pc_spec (OpMakeDirty a) r H D H' D' \<longleftrightarrow> H' = H \<and> (\<exists>k n. H a = Some (k, n) \<and> D' = D(a \<mapsto> k))"
| "pc_spec (OpMakeClean a) r H D H' D' \<longleftrightarrow> H' = H \<and> D' = D(a := None)"
| "pc_spec OpCleanAll r H D H' D' \<longleftrightarrow> H' = H \<and> D' = Map.empty"
| "pc_spec (OpMove a k) r H D H' D' \<longleftrightarrow>
     (\<exists>j n. H a = Some (j, n) \<and> H' = H(a \<mapsto> (k, n))) \<and> D' = (if D a = None then D else D(a \<mapsto> k))"
| "pc_spec (OpTruncate k) r H D H' D' \<longleftrightarrow> H' = H \<and> D' = dirty_upto k D"
| "pc_spec _ r H D H' D' \<longleftrightarrow> H' = H \<and> D' = D"

section \<open>The operations implement the specification\<close>

interpretation pcache1_module: pcache_module defaultMethods mrel1
  by (rule defaultMethods_module)

lemma users_held: "mid s C ds \<Longrightarrow> users s = held C"
proof (rule ext)
  fix a
  assume "mid s C ds"
  then have "C a = map_option core (hdr s a)" by (auto simp: mid_def cores_def)
  then show "users s a = held C a" by (cases "hdr s a") (simp_all add: users_def held_def core_def)
qed

lemma dirties_unsaved: "mid s C ds \<Longrightarrow> dirties s = unsaved C"
proof (rule ext)
  fix a
  assume "mid s C ds"
  then have "C a = map_option core (hdr s a)" by (auto simp: mid_def cores_def)
  then show "dirties s a = unsaved C a" by (cases "hdr s a") (simp_all add: dirties_def unsaved_def core_def flag_test)
qed

lemma resident_mrel1:
  assumes "mrel1 m R P" "pCache s = Some m"
  shows "R k = Some a \<longleftrightarrow> a \<in> set (resident s) \<and> iKey m a = k"
proof -
  obtain S where S: "pc1 m S {} (card S)" "\<forall>k a. R k = Some a \<longleftrightarrow> a \<in> S \<and> iKey m a = k"
    using assms(1) unfolding mrel1_def by blast
  have "set (concat (apHash m)) = S" using tbl_concat [OF pc1D(1) [OF S(1)]] by blast
  with S(2) assms(2) show ?thesis by (simp add: resident_def)
qed

text \<open>One step, in the terms of the invariant.\<close>

definition pc_steps :: "pc_op \<Rightarrow> pcache1 pcache \<Rightarrow> (nat \<rightharpoonup> nat \<times> u16 \<times> int) \<Rightarrow> bool" where
  "pc_steps op s C \<longleftrightarrow> (\<exists>r s' C' ds' R' P'. pc_apply op s = Some (r, s') \<and> pcinv mrel1 s' C' ds' R' P'
     \<and> pc_spec op r (held C) (unsaved C) (held C') (unsaved C'))"

lemma pc_stepsI:
  "pc_apply op s = Some (r, s') \<Longrightarrow> pcinv mrel1 s' C' ds' R' P' \<Longrightarrow> pc_spec op r (held C) (unsaved C) (held C') (unsaved C')
   \<Longrightarrow> pc_steps op s C"
  unfolding pc_steps_def by blast

lemma held_some: "held C a = Some (k, n) \<longleftrightarrow> (\<exists>f. C a = Some (k, f, n)) \<and> n \<noteq> 0"
  by (auto simp: held_def split: option.splits prod.splits if_splits)

lemma unsaved_some: "unsaved C a = Some k \<longleftrightarrow> (\<exists>f n. C a = Some (k, f, n) \<and> bit f 1)"
  by (auto simp: unsaved_def split: option.splits prod.splits if_splits)

lemma in_use_resident:
  assumes "pcinv mrel1 s C ds R P" "map_option fst (held C b) = Some k \<or> unsaved C b = Some k"
  shows "R k = Some b"
proof -
  obtain f n where c: "C b = Some (k, f, n)" "n \<noteq> 0 \<or> bit f 1"
    using assms(2) by (auto simp: held_some unsaved_some)
  have "b \<in> P" using pcinvD(4) [OF assms(1) c(1)] c(2) by (auto simp: pageok_def)
  from pcache1_module.pinned_mem [OF assms(1) this] c(1) show ?thesis by auto
qed

lemma count_bound:
  assumes "pcinv mrel1 s C ds R P" "C a = Some (k, f, n)" "n \<noteq> 0"
  shows "0 < n \<and> n \<le> nRefSum s"
proof -
  note d = pcinvD [OF assms(1)]
  have ok: "0 \<le> n" "a \<in> P" using d(4) [OF assms(2)] assms(3) by (auto simp: pageok_def)
  have "n \<le> refsum C P"
    by (rule refsum_le [of P C a k f n, OF pcache1_module.fin [OF assms(1)] assms(2) ok(2)])
      (use d(4) in \<open>force simp: pageok_def\<close>)
  with ok(1) assms(3) d(3) show ?thesis by simp
qed

lemma step_get:
  assumes "pcinv mrel1 s C ds R P" "0 < k" "nRefSum s < 2 ^ 15 - 1"
  shows "pc_steps (OpGet k e) s C"
proof -
  obtain rc r s' C1 C' ds' R' P' where g: "pagerGet defaultMethods (pagerStress defaultMethods e) k s = Some (rc, r, s')"
    "pcinv mrel1 s' C' ds' R' P'" "spilled C C1" "unsaved C' = unsaved C1" "\<forall>b. R k = Some b \<longrightarrow> r = Some b"
    "case r of None \<Rightarrow> rc \<noteq> 0 \<and> held C' = held C
      | Some a \<Rightarrow> rc = 0 \<and> R' k = Some a \<and> held C' = (held C)(a \<mapsto> (k, count_at (held C) a + 1))"
    using pcache1_module.pagerGet_inv [OF pcache1_module.pagerStress_ok [of e] assms] by (elim exE conjE) (rule that)
  have "pc_found k r (held C) (unsaved C) (held C')"
    unfolding pc_found_def
  proof
    show "held C' = (case r of None \<Rightarrow> held C | Some a \<Rightarrow> (held C)(a \<mapsto> (k, count_at (held C) a + 1)))" using g(6) by (cases r) auto
    show "\<forall>b. map_option fst (held C b) = Some k \<or> unsaved C b = Some k \<longrightarrow> r = Some b"
      using in_use_resident [OF assms(1)] g(5) by blast
  qed
  moreover have "unsaved C' = unsaved C \<or> (\<exists>a. held C a = None \<and> unsaved C' = (unsaved C)(a := None))"
    using g(3,4) unfolding spilled_def by auto
  ultimately show ?thesis by (intro pc_stepsI [OF _ g(2)]) (simp_all add: g(1))
qed

lemma step_lookup:
  assumes "pcinv mrel1 s C ds R P" "0 < k" "nRefSum s < 2 ^ 15 - 1"
  shows "pc_steps (OpLookup k) s C"
proof -
  obtain r s' C' R' P' where g: "sqlite3PagerLookup defaultMethods k s = Some (r, s')"
    "pcinv mrel1 s' C' ds R' P'" "unsaved C' = unsaved C" "\<forall>b. R k = Some b \<longrightarrow> r = Some b"
    "case r of None \<Rightarrow> held C' = held C
      | Some a \<Rightarrow> R' k = Some a \<and> held C' = (held C)(a \<mapsto> (k, count_at (held C) a + 1))"
    using pcache1_module.PagerLookup_inv [OF assms] by (elim exE conjE) (rule that)
  have "pc_found k r (held C) (unsaved C) (held C')"
    unfolding pc_found_def
  proof
    show "held C' = (case r of None \<Rightarrow> held C | Some a \<Rightarrow> (held C)(a \<mapsto> (k, count_at (held C) a + 1)))" using g(5) by (cases r) auto
    show "\<forall>b. map_option fst (held C b) = Some k \<or> unsaved C b = Some k \<longrightarrow> r = Some b"
      using in_use_resident [OF assms(1)] g(4) by blast
  qed
  then show ?thesis by (intro pc_stepsI [OF _ g(2)]) (simp_all add: g(1,3))
qed

lemma held_someE:
  assumes "held C a \<noteq> None"
  obtains k f n where "C a = Some (k, f, n)" "n \<noteq> 0" "held C a = Some (k, n)"
  using assms by (auto simp: held_def split: option.splits prod.splits if_splits)

lemma step_ref:
  assumes "pcinv mrel1 s C ds R P" "held C a \<noteq> None" "nRefSum s < 2 ^ 15 - 1"
  shows "pc_steps (OpRef a) s C"
proof -
  obtain k f n where c: "C a = Some (k, f, n)" "n \<noteq> 0" "held C a = Some (k, n)" using assms(2) by (rule held_someE)
  have n: "0 < n" "n + 1 < 2 ^ 15" using count_bound [OF assms(1) c(1,2)] assms(3) by simp_all
  obtain s' where s': "sqlite3PcacheRef a s = Some s'" "pcinv mrel1 s' (C(a \<mapsto> (k, f, n + 1))) ds R P"
    using pcache1_module.Ref_inv [OF assms(1) c(1) n] by blast
  show ?thesis by (rule pc_stepsI [OF _ s'(2), of _ _ None])
    (use s'(1) n c(1,3) unsaved_flags [of C a k f n f "n + 1"] in \<open>simp_all del: unsaved_upd\<close>)
qed

lemma step_release:
  assumes "pcinv mrel1 s C ds R P" "held C a \<noteq> None"
  shows "pc_steps (OpRelease a) s C"
proof -
  obtain k f n where c: "C a = Some (k, f, n)" "n \<noteq> 0" "held C a = Some (k, n)" using assms(2) by (rule held_someE)
  have n: "0 < n" using count_bound [OF assms(1) c(1,2)] by simp
  obtain s' ds' R' P' where s': "sqlite3PcacheRelease defaultMethods a s = Some s'" "pcinv mrel1 s' (C(a \<mapsto> (k, f, n - 1))) ds' R' P'"
    using pcache1_module.Release_inv [OF assms(1) c(1) n] by blast
  show ?thesis by (rule pc_stepsI [OF _ s'(2), of _ _ None])
    (use s'(1) n c(1,3) unsaved_flags [of C a k f n f "n - 1"] in \<open>simp_all del: unsaved_upd\<close>)
qed

lemma step_drop:
  assumes "pcinv mrel1 s C ds R P" "held C a = Some (k, 1)"
  shows "pc_steps (OpDrop a) s C"
proof -
  obtain f where c: "C a = Some (k, f, 1)" using assms(2) by (auto simp: held_some)
  obtain s' ds' R' P' where s': "sqlite3PcacheDrop defaultMethods a s = Some s'" "pcinv mrel1 s' (C(a := None)) ds' R' P'"
    using pcache1_module.Drop_inv [OF assms(1) c] by blast
  show ?thesis by (rule pc_stepsI [OF _ s'(2), of _ _ None]) (use s'(1) in simp_all)
qed

lemma step_makedirty:
  assumes "pcinv mrel1 s C ds R P" "held C a \<noteq> None"
  shows "pc_steps (OpMakeDirty a) s C"
proof -
  obtain k f n where c: "C a = Some (k, f, n)" "n \<noteq> 0" "held C a = Some (k, n)" using assms(2) by (rule held_someE)
  have n: "0 < n" using count_bound [OF assms(1) c(1,2)] by simp
  obtain s' C' ds' R' P' where s': "sqlite3PcacheMakeDirty a s = Some s'" "pcinv mrel1 s' C' ds' R' P'"
    "held C' = held C" "unsaved C' = (unsaved C)(a \<mapsto> k)"
    using pcache1_module.MakeDirty_inv [OF assms(1) c(1) n] by (elim exE conjE) (rule that)
  show ?thesis by (rule pc_stepsI [OF _ s'(2), of _ _ None]) (use s' c(3) in simp_all)
qed

lemma step_move:
  assumes "pcinv mrel1 s C ds R P" "held C a \<noteq> None" "0 < k'" "R k' = None"
  shows "pc_steps (OpMove a k') s C"
proof -
  obtain k f n where c: "C a = Some (k, f, n)" "n \<noteq> 0" "held C a = Some (k, n)" using assms(2) by (rule held_someE)
  have n: "0 < n" using count_bound [OF assms(1) c(1,2)] by simp
  obtain s' ds' R' P' where s': "sqlite3PcacheMove defaultMethods a k' s = Some s'" "pcinv mrel1 s' (C(a \<mapsto> (k', f, n))) ds' R' P'"
    using pcache1_module.Move_inv [OF assms(1) c(1) n assms(4)] assms(3) by (auto simp: Suc_le_eq)
  show ?thesis by (rule pc_stepsI [OF _ s'(2), of _ _ None]) (use s'(1) c in \<open>auto simp: unsaved_at fun_eq_iff\<close>)
qed

lemma step_makeclean:
  assumes "pcinv mrel1 s C ds R P" "unsaved C a \<noteq> None"
  shows "pc_steps (OpMakeClean a) s C"
proof -
  have "a \<in> set ds" using assms(2) pcache1_module.unsaved_iff [OF assms(1)] by auto
  then obtain s' C' ds' R' P' where s': "sqlite3PcacheMakeClean defaultMethods a s = Some s'" "pcinv mrel1 s' C' ds' R' P'"
    "held C' = held C" "unsaved C' = (unsaved C)(a := None)"
    using pcache1_module.MakeClean_held [OF assms(1)] by blast
  show ?thesis by (rule pc_stepsI [OF _ s'(2), of _ _ None]) (use s' in simp_all)
qed

lemma step_cleanall:
  assumes "pcinv mrel1 s C ds R P"
  shows "pc_steps OpCleanAll s C"
proof -
  obtain s' C' R' P' where s': "sqlite3PcacheCleanAll defaultMethods s = Some s'" "pcinv mrel1 s' C' [] R' P'" "same_refs C C'"
    using pcache1_module.CleanAll_inv [OF assms] by blast
  have "unsaved C' a = None" for a
  proof (cases "unsaved C' a")
    case (Some k)
    with pcache1_module.unsaved_iff [OF s'(2), of a k] show ?thesis by simp
  qed
  then have "unsaved C' = Map.empty" by (simp add: fun_eq_iff)
  then show ?thesis
    by (intro pc_stepsI [OF _ s'(2), of _ _ None]) (simp_all add: s'(1) same_refs_held [OF s'(3)])
qed

lemma step_clear:
  assumes "pcinv mrel1 s C ds R P"
  shows "pc_steps OpClearWritable s C" "pc_steps OpClearSyncFlags s C"
proof -
  obtain s' C' where s': "sqlite3PcacheClearWritable s = Some s'" "pcinv mrel1 s' C' ds R P" "same_refs C C'" "unsaved C' = unsaved C"
    using pcache1_module.ClearFlags_inv(2) [OF assms] by blast
  show "pc_steps OpClearWritable s C"
    by (intro pc_stepsI [OF _ s'(2), of _ _ None]) (simp_all add: s'(1,4) same_refs_held [OF s'(3)])
  obtain s' C' where s': "sqlite3PcacheClearSyncFlags s = Some s'" "pcinv mrel1 s' C' ds R P" "same_refs C C'" "unsaved C' = unsaved C"
    using pcache1_module.ClearFlags_inv(1) [OF assms] by blast
  show "pc_steps OpClearSyncFlags s C"
    by (intro pc_stepsI [OF _ s'(2), of _ _ None]) (simp_all add: s'(1,4) same_refs_held [OF s'(3)])
qed

lemma step_truncate:
  assumes "pcinv mrel1 s C ds R P" "\<forall>a j n. held C a = Some (j, n) \<longrightarrow> j \<le> k \<or> j = 1"
  shows "pc_steps (OpTruncate k) s C"
proof -
  have "\<forall>a f n j. C a = Some (j, f, n) \<longrightarrow> 0 < n \<longrightarrow> j \<le> k \<or> j = 1"
    using assms(2) by (auto simp: held_some)
  then obtain s' C' ds' R' P' where s': "sqlite3PcacheTruncate defaultMethods k s = Some s'" "pcinv mrel1 s' C' ds' R' P'"
    "held C' = held C" "unsaved C' = dirty_upto k (unsaved C)"
    using pcache1_module.Truncate_inv [OF assms(1)] by blast
  show ?thesis by (rule pc_stepsI [OF _ s'(2), of _ _ None]) (use s' in simp_all)
qed

lemma step_config:
  assumes "pcinv mrel1 s C ds R P"
  shows "pc_steps (OpCachesize n) s C" "pc_steps (OpSpillsize n) s C" "pc_steps OpShrink s C"
proof -
  obtain s' R' where s': "sqlite3PcacheSetCachesize defaultMethods n s = Some s'" "pcinv mrel1 s' C ds R' P"
    using pcache1_module.SetCachesize_inv [OF assms] by blast
  show "pc_steps (OpCachesize n) s C" by (rule pc_stepsI [OF _ s'(2), of _ _ None]) (simp_all add: s'(1))
  obtain s' R' where s': "sqlite3PcacheShrink defaultMethods s = Some s'" "pcinv mrel1 s' C ds R' P"
    using pcache1_module.Shrink_inv [OF assms] by blast
  show "pc_steps OpShrink s C" by (rule pc_stepsI [OF _ s'(2), of _ _ None]) (simp_all add: s'(1))
  show "pc_steps (OpSpillsize n) s C"
    by (rule pc_stepsI [OF _ pcache1_module.SetSpillsize_inv [OF assms], of _ _ None n]) simp_all
qed

lemma pc_step_ok:
  assumes inv: "pcinv mrel1 s C ds R P" and may: "pc_may op s"
  shows "pc_steps op s C"
proof -
  note d = pcinvD [OF inv]
  have [simp]: "users s = held C" "dirties s = unsaved C" using users_held [OF d(1)] dirties_unsaved [OF d(1)] by simp_all
  obtain m where m: "pCache s = Some m" "mrel1 m R P" using d(2) by blast
  note res = resident_mrel1 [OF m(2,1)]
  show ?thesis
  proof (cases op)
    case (OpGet k e)
    with may step_get [OF inv] show ?thesis by simp
  next
    case (OpLookup k)
    with may step_lookup [OF inv] show ?thesis by simp
  next
    case (OpRef a)
    with may step_ref [OF inv] show ?thesis by simp
  next
    case (OpRelease a)
    with may step_release [OF inv] show ?thesis by simp
  next
    case (OpDrop a)
    with may step_drop [OF inv, of a] show ?thesis by (auto split: option.splits)
  next
    case (OpMakeDirty a)
    with may step_makedirty [OF inv] show ?thesis by simp
  next
    case (OpMakeClean a)
    with may step_makeclean [OF inv] show ?thesis by simp
  next
    case OpCleanAll
    with step_cleanall [OF inv] show ?thesis by simp
  next
    case OpClearWritable
    with step_clear [OF inv] show ?thesis by simp
  next
    case OpClearSyncFlags
    with step_clear [OF inv] show ?thesis by simp
  next
    case (OpMove a k)
    with may m(1) have k: "held C a \<noteq> None" "0 < k" "\<forall>b\<in>set (resident s). iKey m b \<noteq> k" by simp_all
    have "R k = None" using res [of k] k(3) by (cases "R k") auto
    from step_move [OF inv k(1,2) this] OpMove show ?thesis by simp
  next
    case (OpTruncate k)
    have "j \<le> k \<or> j = 1" if h: "held C a = Some (j, n)" for a j n
    proof -
      have "R j = Some a" using in_use_resident [OF inv] h by simp
      with res [of j a] have "a \<in> set (resident s)" by simp
      with may OpTruncate h show ?thesis by fastforce
    qed
    with step_truncate [OF inv] OpTruncate show ?thesis by blast
  next
    case (OpCachesize n)
    with step_config [OF inv] show ?thesis by simp
  next
    case (OpSpillsize n)
    with step_config [OF inv] show ?thesis by simp
  next
    case OpShrink
    with step_config [OF inv] show ?thesis by simp
  qed
qed

section \<open>Reachable states\<close>

inductive pc_reach :: "pcglobal \<Rightarrow> int \<Rightarrow> int \<Rightarrow> bool \<Rightarrow> pcache1 pcache \<Rightarrow> bool" for g sz extra purge where
  pc_open: "pcacheOpen g sz extra purge = Some (0, s) \<Longrightarrow> pc_reach g sz extra purge s"
| pc_op: "pc_reach g sz extra purge s \<Longrightarrow> pc_may op s \<Longrightarrow> pc_apply op s = Some (r, s') \<Longrightarrow> pc_reach g sz extra purge s'"

text \<open>A line has the page, the extra space of the pager, and the headers of pcache.c (80 bytes) and pcache1.c (56).\<close>

definition line_size :: "int \<Rightarrow> int \<Rightarrow> nat" where
  "line_size sz extra = nat sz + nat (extra + 80) + 56"

lemma open_inv:
  assumes "pcacheOpen g sz extra purge = Some (0, s)" "global_ok (line_size sz extra) g"
  shows "\<exists>R. pcinv mrel1 s Map.empty [] R {}"
proof -
  define s0 :: "pcache1 pcache" where "s0 = \<lparr>hdr = Map.empty, pDirty = None, pDirtyTail = None, pSynced = None, nRefSum = 0,
    szCache = 100, szSpill = 1, pcache.szPage = 1, pcache.szExtra = extra, pcache.bPurgeable = purge, eCreate = 2, pCache = None\<rparr>"
  obtain m where m: "pcache1Create (nat sz) (nat (extra + 80)) purge g = Some m"
    using assms(1) unfolding pcacheOpen_def sqlite3PcacheOpen_def sqlite3PcacheSetPageSize_def
    by (auto split: option.splits)
  have "mrel1 m Map.empty {}" by (rule Create_mrel1 [OF m]) (use assms(2) in \<open>simp add: line_size_def\<close>)
  from pcache1_module.cachesize [OF this, of "numberOfCachePages s0"] obtain m' R' where
    m': "xCachesize defaultMethods m (numberOfCachePages s0) = Some m'" "kept Map.empty {} R'" "mrel1 m' R' {}"
    by (elim exE conjE) (rule that)
  have R': "R' j \<noteq> Some a" for j a using keptD [OF m'(2), of j a] by auto
  have s: "s = s0\<lparr>pCache := Some m', pcache.szPage := sz\<rparr>"
    using assms(1) m m'(1) unfolding pcacheOpen_def sqlite3PcacheOpen_def sqlite3PcacheSetPageSize_def s0_def [symmetric]
    by (simp add: s0_def)
  have "mid s Map.empty []" unfolding s s0_def by (simp add: mid_def dlist_def cores_def fun_eq_iff)
  then have "pcinv mrel1 s Map.empty [] R' {}"
    using m'(3) R' unfolding pcinv_def by (simp add: s s0_def good_def refsum_def)
  then show ?thesis by blast
qed

lemma reach_inv:
  assumes "pc_reach g sz extra purge s" "global_ok (line_size sz extra) g"
  shows "\<exists>C ds R P. pcinv mrel1 s C ds R P"
  using assms
proof (induction rule: pc_reach.induct)
  case (pc_open s)
  then show ?case using open_inv by blast
next
  case (pc_op s op r s')
  then obtain C ds R P where "pcinv mrel1 s C ds R P" by blast
  from pc_step_ok [OF this pc_op.hyps(2)] pc_op.hyps(3) show ?case unfolding pc_steps_def by auto
qed

section \<open>A concrete run\<close>

fun pc_run :: "pc_op list \<Rightarrow> pcache1 pcache \<Rightarrow> pcache1 pcache option" where
  "pc_run [] s = Some s"
| "pc_run (op # ops) s =
     (if pc_may op s then (case pc_apply op s of None \<Rightarrow> None | Some (r, s) \<Rightarrow> pc_run ops s) else None)"

lemma pc_run_reach: "pc_run ops s = Some s' \<Longrightarrow> pc_reach g sz extra purge s \<Longrightarrow> pc_reach g sz extra purge s'"
proof (induction ops arbitrary: s)
  case (Cons op ops)
  from Cons.prems(1) obtain r s1 where s1: "pc_may op s" "pc_apply op s = Some (r, s1)" "pc_run ops s1 = Some s'"
    by (auto split: if_splits option.splits)
  from Cons.IH [OF s1(3) pc_reach.pc_op [OF Cons.prems(2) s1(1,2)]] show ?case .
qed simp

definition ex_global :: pcglobal where "ex_global = pcache1Init False 0 [] [] 1 id"

definition ex_run :: "pc_op list \<Rightarrow> pcache1 pcache option" where
  "ex_run ops = (case pcacheOpen ex_global 512 0 True of None \<Rightarrow> None | Some (rc, s) \<Rightarrow> if rc = 0 then pc_run ops s else None)"

declare walkPrev.simps [code] sqlite3PcacheCleanAll.simps [code] maskFlags.simps [code] truncDirty.simps [code] nextList.simps [code]

text \<open>Page 1 is dirty and no longer in use, page 2 is clean and has two references.\<close>

definition ex_env :: spillenv where
  "ex_env = \<lparr>errCode = 0, doNotSpill = 0, useWal = False, cacheMod = False, rcSubjournal = 0, rcFrames = 0, rcSync = 0, rcWrite = 0\<rparr>"

definition ex_state :: "pcache1 pcache" where
  "ex_state = the (ex_run [OpGet 1 ex_env, OpMakeDirty 1, OpGet 2 ex_env, OpRef 2, OpRelease 1])"

lemma ex_global_ok: "global_ok (line_size 512 0) ex_global"
  unfolding ex_global_def by (rule Init_global_ok) simp_all

lemma ex_reach: "pc_reach ex_global 512 0 True ex_state"
proof -
  have "ex_run [OpGet 1 ex_env, OpMakeDirty 1, OpGet 2 ex_env, OpRef 2, OpRelease 1] \<noteq> None" by code_simp
  then have r: "ex_run [OpGet 1 ex_env, OpMakeDirty 1, OpGet 2 ex_env, OpRef 2, OpRelease 1] = Some ex_state"
    by (auto simp: ex_state_def)
  then obtain s where "pcacheOpen ex_global 512 0 True = Some (0, s)"
    "pc_run [OpGet 1 ex_env, OpMakeDirty 1, OpGet 2 ex_env, OpRef 2, OpRelease 1] s = Some ex_state"
    unfolding ex_run_def by (auto split: option.splits if_splits)
  then show ?thesis by (blast intro: pc_run_reach pc_open)
qed

section \<open>Properties\<close>



text \<open>C19. In every such state \<open>nRefSum\<close>, which \<open>sqlite3PcacheRefCount\<close> returns, is the sum of the reference counts of the
  pages in the cache.\<close>

theorem page_cache_refcount:
  assumes "global_ok (line_size sz extra) g" "pc_reach g sz extra purge s"
  shows "sqlite3PcacheRefCount s = (\<Sum>a\<in>set (resident s). count_at (users s) a)"
proof -
  obtain C ds R P where inv: "pcinv mrel1 s C ds R P" using reach_inv [OF assms(2,1)] by blast
  note d = pcinvD [OF inv]
  obtain m where m: "pCache s = Some m" "mrel1 m R P" using d(2) by blast
  have P: "P \<subseteq> set (resident s)"
  proof
    fix a assume "a \<in> P"
    then obtain k where "R k = Some a" using pcache1_module.pinned_mem [OF inv] by blast
    with resident_mrel1 [OF m(2,1)] show "a \<in> set (resident s)" by blast
  qed
  have "count_at (users s) a = (case C a of None \<Rightarrow> 0 | Some (k, f, n) \<Rightarrow> n)" for a
    unfolding users_held [OF d(1)] by (auto simp: count_at_def held_def split: option.split)
  then have "(\<Sum>a\<in>set (resident s). count_at (users s) a) = refsum C (set (resident s))" by (simp add: refsum_def)
  also have "\<dots> = refsum C P"
  proof (rule refsum_mono_neutral [symmetric, OF finite_set P])
    fix a k f n assume "a \<in> set (resident s) - P" "C a = Some (k, f, n)"
    with d(4) [of a "(k, f, n)"] show "n = 0" by (simp add: pageok_def)
  qed
  finally show ?thesis using d(3) by (simp add: sqlite3PcacheRefCount_def)
qed

theorem page_cache_refcount_witness:
  "sqlite3PcacheRefCount ex_state = 2 \<and> (\<Sum>a\<in>set (resident ex_state). count_at (users ex_state) a) = 2"
proof -
  have "sqlite3PcacheRefCount ex_state = 2" by code_simp
  with page_cache_refcount [OF ex_global_ok ex_reach] show ?thesis by simp
qed

text \<open>In every such state every page of the module passes \<open>sqlite3PcachePageSanity\<close>.\<close>

lemma page_cache_sane:
  assumes "global_ok (line_size sz extra) g" "pc_reach g sz extra purge s"
  shows "\<forall>p\<in>set (resident s). sqlite3PcachePageSanity p s"
proof
  fix p assume p: "p \<in> set (resident s)"
  obtain C ds R P where inv: "pcinv mrel1 s C ds R P" using reach_inv [OF assms(2,1)] by blast
  note d = pcinvD [OF inv]
  obtain m where m: "pCache s = Some m" "mrel1 m R P" using d(2) by blast
  have "R (iKey m p) = Some p" using resident_mrel1 [OF m(2,1)] p by simp
  then obtain k f n where c: "C p = Some (k, f, n)" using d(5) by blast
  obtain h where h: "hdr s p = Some h" "core h = (k, f, n)" using mid_hdr(2) [OF d(1) c] by blast
  have e: "pDirty s = hd_or ds None" "pDirtyTail s = last_or None ds" using mid_dlist [OF d(1)] by (simp_all add: dlist_def)
  have "pDirty s \<noteq> Some p" "pDirtyTail s \<noteq> Some p" if "p \<notin> set ds"
    using that last_or_mem [of None ds p] unfolding e by (cases ds; auto)+
  with d(4) [OF c] h m(1) show "sqlite3PcachePageSanity p s"
    unfolding sqlite3PcachePageSanity_def by (auto simp: core_def flag_test pageok_def)
qed

lemma page_cache_sane_witness:
  "resident ex_state = [1, 2] \<and> (\<forall>p\<in>set (resident ex_state). sqlite3PcachePageSanity p ex_state)"
  using page_cache_sane [OF ex_global_ok ex_reach] by (intro conjI, code_simp, simp)

text \<open>C18. In every such state \<open>sqlite3PcacheDirtyList\<close> returns exactly the dirty pages, in strictly increasing order of their page
  numbers (if the cache has less than \<open>2^31\<close> pages, so that the 32 buckets of the merge sort suffice).\<close>

theorem dirty_list_sorted:
  assumes "global_ok (line_size sz extra) g" "pc_reach g sz extra purge s" "length (resident s) < 2 ^ 31"
  shows "\<exists>l. sqlite3PcacheDirtyList s = Some l \<and> set l = dom (dirties s)
    \<and> sorted_wrt (<) (map (\<lambda>a. the (dirties s a)) l)"
proof -
  obtain C ds R P where inv: "pcinv mrel1 s C ds R P" using reach_inv [OF assms(2,1)] by blast
  note d = pcinvD [OF inv]
  have ds: "set ds = dom (dirties s)"
    unfolding dirties_unsaved [OF d(1)]
  proof (intro set_eqI iffI)
    fix a assume "a \<in> set ds"
    with mid_mem [OF d(1)] pcache1_module.unsaved_iff [OF inv] show "a \<in> dom (unsaved C)" by fastforce
  next
    fix a assume "a \<in> dom (unsaved C)"
    with pcache1_module.unsaved_iff [OF inv] show "a \<in> set ds" by blast
  qed
  have "set ds \<subseteq> set (resident s)"
  proof
    fix a assume "a \<in> set ds"
    then obtain k where "unsaved C a = Some k" unfolding ds dirties_unsaved [OF d(1)] by auto
    then have "R k = Some a" using in_use_resident [OF inv] by blast
    moreover obtain m where "pCache s = Some m" "mrel1 m R P" using d(2) by blast
    ultimately show "a \<in> set (resident s)" using resident_mrel1 [of m R P s k a] by blast
  qed
  then have "card (set ds) \<le> card (set (resident s))" by (rule card_mono [OF finite_set])
  then have "length ds < 2 ^ 31" using assms(3) distinct_card [OF d(6)] card_length [of "resident s"] by linarith
  from pcache1_module.DirtyList_inv [OF inv this] obtain l where l: "sqlite3PcacheDirtyList s = Some l" "mset l = mset ds"
    "sorted_wrt (<) (map (\<lambda>a. case hdr s a of None \<Rightarrow> 0 | Some h \<Rightarrow> pgno h) l)" by blast
  have sl: "set l = set ds" using l(2) by (rule mset_eq_setD)
  have "map (\<lambda>a. case hdr s a of None \<Rightarrow> 0 | Some h \<Rightarrow> pgno h) l = map (\<lambda>a. the (dirties s a)) l"
  proof (rule map_cong [OF refl])
    fix a assume "a \<in> set l"
    then have "a \<in> dom (dirties s)" using sl ds by simp
    then show "(case hdr s a of None \<Rightarrow> 0 | Some h \<Rightarrow> pgno h) = the (dirties s a)"
      by (auto simp: dirties_def split: option.splits if_splits)
  qed
  with l sl ds show ?thesis by simp
qed

theorem dirty_list_sorted_witness:
  "length (resident ex_state) = 2 \<and> (\<exists>l. sqlite3PcacheDirtyList ex_state = Some l \<and> set l = dom (dirties ex_state)
    \<and> sorted_wrt (<) (map (\<lambda>a. the (dirties ex_state a)) l))"
proof -
  have "length (resident ex_state) = 2" by code_simp
  then show ?thesis using dirty_list_sorted [OF ex_global_ok ex_reach] by simp
qed

text \<open>The search of \<open>sqlite3PcacheFetchStress\<close> through the dirty list terminates, changes no page, and finds a dirty page
  without references whenever there is one.\<close>

theorem spill_victim_unused:
  assumes "global_ok (line_size sz extra) g" "pc_reach g sz extra purge s"
  shows "\<exists>r s'. spillVictim s = Some (r, s') \<and> users s' = users s \<and> dirties s' = dirties s
    \<and> (case r of
         None \<Rightarrow> \<forall>a. dirties s a \<noteq> None \<longrightarrow> users s a \<noteq> None
       | Some a \<Rightarrow> dirties s a \<noteq> None \<and> users s a = None)"
proof -
  obtain C ds R P where inv: "pcinv mrel1 s C ds R P" using reach_inv [OF assms(2,1)] by blast
  note d = pcinvD [OF inv]
  define s' where "s' = s\<lparr>pSynced := pSynced (snd (the (spillVictim s)))\<rparr>"
  obtain r where r: "spillVictim s = Some (r, s')" "case r of None \<Rightarrow> \<forall>a\<in>set ds. \<exists>h. hdr s a = Some h \<and> nRef h \<noteq> 0
       | Some a \<Rightarrow> \<exists>xs ys h. ds = xs @ a # ys \<and> hdr s a = Some h \<and> nRef h = 0
           \<and> (flags h AND PGHDR_NEED_SYNC \<noteq> 0 \<longrightarrow> (\<forall>b\<in>set ys. \<exists>g. hdr s b = Some g \<and> nRef g \<noteq> 0))"
    using pcache1_module.spillVictim_ok [OF inv] unfolding s'_def [symmetric] by (elim exE conjE) (rule that)
  have "users s' = users s" "dirties s' = dirties s" by (simp_all add: s'_def users_def dirties_def fun_eq_iff)
  moreover have ds: "a \<in> set ds \<longleftrightarrow> dirties s a \<noteq> None" for a
    unfolding dirties_unsaved [OF d(1)]
    using mid_mem [OF d(1), of a] pcache1_module.unsaved_iff [OF inv, of a] by (cases "unsaved C a") fastforce+
  have "case r of None \<Rightarrow> \<forall>a. dirties s a \<noteq> None \<longrightarrow> users s a \<noteq> None
       | Some a \<Rightarrow> dirties s a \<noteq> None \<and> users s a = None"
  proof (cases r)
    case None
    have "users s a \<noteq> None" if "dirties s a \<noteq> None" for a
    proof -
      from that ds have "a \<in> set ds" by simp
      with r(2) None obtain h where "hdr s a = Some h" "nRef h \<noteq> 0" by auto
      then show ?thesis by (simp add: users_def)
    qed
    with None show ?thesis by simp
  next
    case (Some a)
    with r(2) obtain xs ys h where a: "ds = xs @ a # ys" "hdr s a = Some h" "nRef h = 0" by auto
    then have "dirties s a \<noteq> None" using ds [of a] by simp
    with a Some show ?thesis by (simp add: users_def)
  qed
  ultimately show ?thesis using r(1) by blast
qed

theorem spill_victim_unused_witness:
  "map_option fst (spillVictim ex_state) = Some (Some 1) \<and> dirties ex_state 1 \<noteq> None \<and> users ex_state 1 = None"
proof -
  have "map_option fst (spillVictim ex_state) = Some (Some 1)" by code_simp
  with spill_victim_unused [OF ex_global_ok ex_reach] show ?thesis by auto
qed

end
