(* ===== verification/WalChecksum.thy ===== *)
theory WalChecksum
  imports Varint
begin

text \<open>
  The checksum of the write-ahead log (wal.c), and 4-byte integers at an offset of a buffer. \<open>be\<close> says whether the processor is big-endian.
\<close>

section \<open>Checksums\<close>

definition be32 :: "u8 \<Rightarrow> u8 \<Rightarrow> u8 \<Rightarrow> u8 \<Rightarrow> u32" where
  "be32 a b c d = ((push_bit 24 (ucast a) OR push_bit 16 (ucast b)) OR push_bit 8 (ucast c)) OR ucast d"

text \<open>A word in memory, as the processor reads it.\<close>

definition hostWord :: "bool \<Rightarrow> u8 \<Rightarrow> u8 \<Rightarrow> u8 \<Rightarrow> u8 \<Rightarrow> u32" where
  "hostWord be a b c d = (if be then be32 a b c d else be32 d c b a)"

definition BYTESWAP32 :: "u32 \<Rightarrow> u32" where
  "BYTESWAP32 x = push_bit 24 (x AND 0x000000FF) + push_bit 8 (x AND 0x0000FF00)
     + drop_bit 8 (x AND 0x00FF0000) + drop_bit 24 (x AND 0xFF000000)"

text \<open>The loops run at least once and read eight bytes in each round.\<close>

fun cksumLoop :: "(u32 \<Rightarrow> u32) \<Rightarrow> bool \<Rightarrow> u8 list \<Rightarrow> u32 \<Rightarrow> u32 \<Rightarrow> (u32 \<times> u32) option" where
  "cksumLoop conv be (a # b # c # d # a' # b' # c' # d' # aData) s1 s2 =
     (let s1 = s1 + (conv (hostWord be a b c d) + s2);
          s2 = s2 + (conv (hostWord be a' b' c' d') + s1)
      in if aData = [] then Some (s1, s2) else cksumLoop conv be aData s1 s2)"
| "cksumLoop conv be _ s1 s2 = None"

definition walChecksumBytes :: "bool \<Rightarrow> bool \<Rightarrow> u8 list \<Rightarrow> (u32 \<times> u32) option \<Rightarrow> (u32 \<times> u32) option" where
  "walChecksumBytes be nativeCksum a aIn =
     (let (s1, s2) = (case aIn of Some s \<Rightarrow> s | None \<Rightarrow> (0, 0))
      in cksumLoop (if nativeCksum then (\<lambda>x. x) else BYTESWAP32) be a s1 s2)"

section \<open>Integers in a buffer\<close>

definition get4 :: "u8 list \<Rightarrow> nat \<Rightarrow> u32 option" where
  "get4 bs off = map_option fst (sqlite3Get4byte (drop off bs))"

section \<open>Words and bytes\<close>

lemma word_add_disjoint:
  "list_all (\<lambda>i. \<not> (bit a i \<and> bit b i)) [0..<LENGTH('a)] \<Longrightarrow> (a :: 'a::len word) + b = a OR b"
  by (rule disjunctive_add) (use bit_imp_le_length in \<open>fastforce simp: list_all_iff\<close>)

lemma BYTESWAP32_or:
  "BYTESWAP32 x = ((push_bit 24 (x AND 0xFF) OR push_bit 8 (x AND 0xFF00)) OR drop_bit 8 (x AND 0xFF0000)) OR drop_bit 24 (x AND 0xFF000000)"
proof -
  let ?a = "push_bit 24 (x AND 0xFF)" and ?b = "push_bit 8 (x AND 0xFF00)"
  let ?c = "drop_bit 8 (x AND 0xFF0000)" and ?d = "drop_bit 24 (x AND 0xFF000000)"
  have "?a + ?b = ?a OR ?b" by (rule word_add_disjoint) (simp add: enum_simps)
  moreover have "(?a OR ?b) + ?c = (?a OR ?b) OR ?c" by (rule word_add_disjoint) (simp add: enum_simps)
  moreover have "((?a OR ?b) OR ?c) + ?d = ((?a OR ?b) OR ?c) OR ?d" by (rule word_add_disjoint) (simp add: enum_simps)
  ultimately show ?thesis unfolding BYTESWAP32_def by simp
qed

lemma BYTESWAP32_host: "BYTESWAP32 (hostWord be a b c d) = hostWord (\<not> be) a b c d"
  unfolding BYTESWAP32_or hostWord_def be32_def
  by (rule word_enumI) (simp add: enum_simps)

lemma get4_put: "get4 (sqlite3Put4byte v @ rest) 0 = Some v"
  using be4.dec_enc [of v rest] by (simp add: get4_def)

lemma get4_skip: "get4 (xs @ ys) (length xs + n) = get4 ys n"
  by (simp add: get4_def)

lemma length_put4 [simp]: "length (sqlite3Put4byte v) = 4"
  by (simp add: sqlite3Put4byte_def)

lemma list_4: "4 \<le> length xs \<Longrightarrow> \<exists>a b c d rest. xs = a # b # c # d # rest"
  by (auto simp: numeral_eq_Suc Suc_le_length_iff)

lemma put4_get4:
  assumes "get4 bs off = Some v"
  shows "sqlite3Put4byte v = take 4 (drop off bs)"
proof -
  have "3 < length (drop off bs)"
    using assms by (simp add: get4_def sqlite3Get4byte_def byte_at_def split: if_splits bind_splits)
  then have "4 \<le> length (drop off bs)" by linarith
  then have "\<exists>a b c d rest. drop off bs = a # b # c # d # rest" by (rule list_4)
  then obtain a b c d rest where bs: "drop off bs = a # b # c # d # rest" by (elim exE)
  then have v: "v = be32 a b c d" using assms by (simp add: get4_def sqlite3Get4byte_def be32_def)
  have "ucast (drop_bit 24 (be32 a b c d)) = a" "ucast (drop_bit 16 (be32 a b c d)) = b"
    "ucast (drop_bit 8 (be32 a b c d)) = c" "ucast (be32 a b c d) = d"
    unfolding be32_def by (rule word_enumI, simp add: enum_simps)+
  then show ?thesis unfolding bs v sqlite3Put4byte_def by simp
qed

lemma get4_total: "off + 4 \<le> length bs \<Longrightarrow> \<exists>v. get4 bs off = Some v"
proof -
  assume "off + 4 \<le> length bs"
  then have "4 \<le> length (drop off bs)" by simp
  then have "\<exists>a b c d rest. drop off bs = a # b # c # d # rest" by (rule list_4)
  then obtain a b c d rest where bs: "drop off bs = a # b # c # d # rest" by (elim exE)
  show ?thesis unfolding get4_def sqlite3Get4byte_def bs by simp
qed

lemma put4_inj: "sqlite3Put4byte v = sqlite3Put4byte v' \<longleftrightarrow> v = v'"
proof
  assume "sqlite3Put4byte v = sqlite3Put4byte v'"
  then have "get4 (sqlite3Put4byte v @ []) 0 = get4 (sqlite3Put4byte v' @ []) 0" by (simp only:)
  then show "v = v'" unfolding get4_put by simp
qed simp

section \<open>The checksum as a function\<close>

lemma cksumLoop_cong: "(\<And>a b c d. f (hostWord p a b c d) = g (hostWord q a b c d)) \<Longrightarrow> cksumLoop f p bs s1 s2 = cksumLoop g q bs s1 s2"
  by (induction f p bs s1 s2 rule: cksumLoop.induct) (simp_all add: Let_def)

text \<open>The checksum of big-endian words (or of little-endian ones), whatever the processor.\<close>

definition cksum :: "bool \<Rightarrow> u32 \<times> u32 \<Rightarrow> u8 list \<Rightarrow> u32 \<times> u32" where
  "cksum big ck bs = the (walChecksumBytes big True bs (Some ck))"

definition cksum_len :: "nat \<Rightarrow> bool" where
  "cksum_len n \<longleftrightarrow> 0 < n \<and> n mod 8 = 0"

lemma cksumLoop_total: "cksum_len (length bs) \<Longrightarrow> cksumLoop f p bs s1 s2 \<noteq> None"
proof (induction f p bs s1 s2 rule: cksumLoop.induct)
  case (1 conv be a b c d a' b' c' d' aData s1 s2)
  have "aData \<noteq> [] \<Longrightarrow> cksum_len (length aData)" using 1(2) by (auto simp: cksum_len_def mod_Suc split: if_splits)
  with 1 show ?case by (simp add: Let_def)
qed (simp_all add: cksum_len_def)

lemma walChecksumBytes_eq:
  assumes "cksum_len (length bs)"
  shows "walChecksumBytes be (big = be) bs aIn = Some (cksum big (case aIn of Some ck \<Rightarrow> ck | None \<Rightarrow> (0, 0)) bs)"
proof -
  let ?f = "if big = be then (\<lambda>x. x) else BYTESWAP32"
  have "cksumLoop ?f be bs s1 s2 = cksumLoop (\<lambda>x. x) big bs s1 s2" for s1 s2
  proof (rule cksumLoop_cong)
    fix a b c d
    show "?f (hostWord be a b c d) = hostWord big a b c d" by (cases be; cases big; simp add: BYTESWAP32_host)
  qed
  then have "walChecksumBytes be (big = be) bs aIn = walChecksumBytes big True bs (Some (case aIn of Some ck \<Rightarrow> ck | None \<Rightarrow> (0, 0)))"
    unfolding walChecksumBytes_def by (cases aIn) (simp_all only: option.case case_prod_beta Let_def if_True)
  moreover have "walChecksumBytes big True bs (Some ck) \<noteq> None" for ck
    using cksumLoop_total [OF assms] by (cases ck) (simp add: walChecksumBytes_def)
  ultimately show ?thesis by (simp add: cksum_def)
qed

end
