(* ===== verification/WalIndex.thy ===== *)
theory WalIndex
  imports SqlitePrelude
begin

text \<open>
  The wal-index of wal.c: the shared memory that answers in which frame of the write-ahead log the last copy of a page is.

  It is a sequence of 32 KiB blocks; block \<open>i\<close> has the page numbers of its frames (\<open>aPgno\<close>, here from 0) and a hash table
  of \<open>ht_slot\<close>, open addressing with linear probing, whose entries are positions in the page number array, counted from 1.
  Frame numbers are natural numbers (a log with \<open>2^32\<close> frames would have terabytes). The two copies of
  the header in shared memory are the field \<open>live\<close>; its version and its own checksum are left out.
\<close>

section \<open>State\<close>

definition HASHTABLE_NPAGE :: nat where "HASHTABLE_NPAGE = 4096"
definition HASHTABLE_HASH_1 :: u32 where "HASHTABLE_HASH_1 = 383"
definition HASHTABLE_NSLOT :: nat where "HASHTABLE_NSLOT = HASHTABLE_NPAGE * 2"
definition WALINDEX_HDR_SIZE :: nat where "WALINDEX_HDR_SIZE = 48 * 2 + 40"
definition HASHTABLE_NPAGE_ONE :: nat where "HASHTABLE_NPAGE_ONE = HASHTABLE_NPAGE - WALINDEX_HDR_SIZE div 4"

record walhdr =
  iChange :: u32
  isInit :: bool
  bigEndCksum :: bool
  szPageHdr :: u16
  mxFrame :: nat
  nPage :: u32
  aFrameCksum :: "u32 \<times> u32"
  aSalt :: "u8 list"

record wblock =
  aPgno :: "u32 list"
  aHash :: "nat list"

record wal =
  hdr :: walhdr
  live :: walhdr
  blocks :: "nat \<Rightarrow> wblock"
  nWiData :: nat
  apWiData :: "nat \<Rightarrow> bool"
  mapOk :: allocs
  readLock :: int
  minFrame :: nat
  nCkpt :: u32

text \<open>The first block is shorter, because the header precedes it.\<close>

definition npage :: "nat \<Rightarrow> nat" where
  "npage iHash = (if iHash = 0 then HASHTABLE_NPAGE_ONE else HASHTABLE_NPAGE)"

definition izero :: "nat \<Rightarrow> nat" where
  "izero iHash = (if iHash = 0 then 0 else HASHTABLE_NPAGE_ONE + (iHash - 1) * HASHTABLE_NPAGE)"

section \<open>Access to the blocks\<close>

text \<open>
  \<open>walIndexPage\<close>: enlarging the array of pointers and mapping the block (or allocating it, in heap memory mode) may fail (7 is \<open>SQLITE_NOMEM\<close>).
\<close>

definition walIndexPage :: "nat \<Rightarrow> wal \<Rightarrow> nat \<times> wal" where
  "walIndexPage iPage w =
     (let (ok, w) =
        (if nWiData w \<le> iPage then
           (let (ok, mem) = alloc_ok (mapOk w);
                w = w\<lparr>mapOk := mem\<rparr>
            in if ok then (True, w\<lparr>apWiData := (\<lambda>i. i < nWiData w \<and> apWiData w i), nWiData := iPage + 1\<rparr>) else (False, w))
         else (True, w))
      in if \<not> ok then (7, w)
         else if apWiData w iPage then (0, w)
         else
           (let (ok, mem) = alloc_ok (mapOk w);
                w = w\<lparr>mapOk := mem\<rparr>
            in if ok then (0, w\<lparr>apWiData := (apWiData w)(iPage := True)\<rparr>) else (7, w)))"

text \<open>\<open>walHashGet\<close> gives pointers into block \<open>iHash\<close>; the frame before the first of the block is \<open>izero iHash\<close>.\<close>

definition walHashGet :: "nat \<Rightarrow> wal \<Rightarrow> nat \<times> wal" where
  "walHashGet iHash w = walIndexPage iHash w"

definition walHash :: "u32 \<Rightarrow> nat" where
  "walHash iPage = unat ((iPage * HASHTABLE_HASH_1) AND (of_nat HASHTABLE_NSLOT - 1))"

definition walNextHash :: "nat \<Rightarrow> nat" where
  "walNextHash iPriorHash = (iPriorHash + 1) mod HASHTABLE_NSLOT"

definition walFramePage :: "nat \<Rightarrow> nat" where
  "walFramePage iFrame = (iFrame + HASHTABLE_NPAGE - HASHTABLE_NPAGE_ONE - 1) div HASHTABLE_NPAGE"

definition walFramePgno :: "wal \<Rightarrow> nat \<Rightarrow> u32 option" where
  "walFramePgno w iFrame =
     (let iHash = walFramePage iFrame;
          i = (if iHash = 0 then iFrame - 1 else (iFrame - 1 - HASHTABLE_NPAGE_ONE) mod HASHTABLE_NPAGE);
          a = aPgno (blocks w iHash)
      in if i < length a then Some (a ! i) else None)"

definition set_block :: "nat \<Rightarrow> wblock \<Rightarrow> wal \<Rightarrow> wal" where
  "set_block i b w = w\<lparr>blocks := (blocks w)(i := b)\<rparr>"

section \<open>Appending and removing entries\<close>

text \<open>If the block cannot be mapped the pointers are NULL.\<close>

definition walCleanupHash :: "wal \<Rightarrow> wal option" where
  "walCleanupHash w =
     (if mxFrame (hdr w) = 0 then Some w
      else
        (let i = walFramePage (mxFrame (hdr w));
             (rc, w) = walHashGet i w
         in if rc \<noteq> 0 then None
            else
              (let iLimit = mxFrame (hdr w) - izero i;
                   b = blocks w i
               in Some (set_block i
                    (b\<lparr>aHash := map (\<lambda>v. if v > iLimit then 0 else v) (aHash b),
                       aPgno := take iLimit (aPgno b) @ replicate (length (aPgno b) - iLimit) 0\<rparr>) w))))"

text \<open>
  \<open>for(iKey=walHash(iPage); aHash[iKey]; iKey=walNextHash(iKey)) if( (nCollide--)==0 ) return SQLITE_CORRUPT;\<close>
\<close>

fun probeFree :: "nat list \<Rightarrow> nat \<Rightarrow> nat \<Rightarrow> nat option" where
  "probeFree H iKey 0 = (if H ! iKey = 0 then Some iKey else None)"
| "probeFree H iKey (Suc nCollide) =
     (if H ! iKey = 0 then Some iKey else probeFree H (walNextHash iKey) nCollide)"

text \<open>The result code 11 is \<open>SQLITE_CORRUPT\<close>.\<close>

definition walIndexAppend :: "wal \<Rightarrow> nat \<Rightarrow> u32 \<Rightarrow> (nat \<times> wal) option" where
  "walIndexAppend w iFrame iPage =
     (let i = walFramePage iFrame;
          (rc, w) = walHashGet i w
      in if rc \<noteq> 0 then Some (rc, w)
         else do {
           let idx = iFrame - izero i;
           let w = (if idx = 1 then
                      (let b = blocks w i in
                       set_block i (b\<lparr>aPgno := replicate (length (aPgno b)) 0, aHash := replicate (length (aHash b)) 0\<rparr>) w)
                    else w);
           if idx = 0 \<or> length (aPgno (blocks w i)) < idx then None
           else do {
             w \<leftarrow> (if aPgno (blocks w i) ! (idx - 1) \<noteq> 0 then walCleanupHash w else Some w);
             let b = blocks w i;
             Some (case probeFree (aHash b) (walHash iPage) idx of
                     None \<Rightarrow> (11, w)
                   | Some iKey \<Rightarrow>
                       (0, set_block i (b\<lparr>aPgno := (aPgno b)[idx - 1 := iPage], aHash := (aHash b)[iKey := idx]\<rparr>) w))
           }
         })"

text \<open>The loop of \<open>sqlite3WalFrames\<close> that enters the frames it has written.\<close>

fun appendFrames :: "wal \<Rightarrow> nat \<Rightarrow> u32 list \<Rightarrow> (nat \<times> nat \<times> wal) option" where
  "appendFrames w iFrame [] = Some (0, iFrame, w)"
| "appendFrames w iFrame (pgno # ps) = do {
     (rc, w) \<leftarrow> walIndexAppend w (iFrame + 1) pgno;
     (if rc \<noteq> 0 then Some (rc, iFrame + 1, w) else appendFrames w (iFrame + 1) ps)
   }"

section \<open>Finding a frame\<close>

text \<open>The inner loop of \<open>sqlite3WalFindFrame\<close> on one block.\<close>

fun probeFind :: "(nat \<Rightarrow> bool option) \<Rightarrow> nat list \<Rightarrow> nat \<Rightarrow> nat \<Rightarrow> nat \<Rightarrow> nat \<Rightarrow> (nat \<times> nat) option" where
  "probeFind hit H z iKey nCollide iRead =
     (if H ! iKey = 0 then Some (0, iRead)
      else do {
        h \<leftarrow> hit (H ! iKey);
        let iRead = (if h then H ! iKey + z else iRead);
        (case nCollide of
           0 \<Rightarrow> Some (11, iRead)
         | Suc n \<Rightarrow> probeFind hit H z (walNextHash iKey) n iRead)
      })"

declare probeFind.simps [simp del]

definition hitFrame :: "wal \<Rightarrow> nat \<Rightarrow> u32 \<Rightarrow> nat \<Rightarrow> bool option" where
  "hitFrame w i pgno v =
     (let iFrame = v + izero i in
      if iFrame \<le> mxFrame (hdr w) \<and> iFrame \<ge> minFrame w
      then (if v - 1 < length (aPgno (blocks w i)) then Some (aPgno (blocks w i) ! (v - 1) = pgno) else None)
      else Some False)"

text \<open>The loop over the blocks, from the last to the first.\<close>

function findBlocks :: "wal \<Rightarrow> u32 \<Rightarrow> nat \<Rightarrow> nat \<Rightarrow> (nat \<times> nat \<times> wal) option" where
  "findBlocks w pgno iMinHash iHash =
     (if iHash < iMinHash then Some (0, 0, w)
      else
        (let (rc, w) = walHashGet iHash w in
         if rc \<noteq> 0 then Some (rc, 0, w)
         else do {
           (rc, iRead) \<leftarrow> probeFind (hitFrame w iHash pgno) (aHash (blocks w iHash)) (izero iHash) (walHash pgno) HASHTABLE_NSLOT 0;
           if rc \<noteq> 0 then Some (rc, 0, w)
           else if iRead \<noteq> 0 \<or> iHash = 0 then Some (0, iRead, w)
           else findBlocks w pgno iMinHash (iHash - 1)
         }))"
  by pat_completeness auto
termination
  by (relation "measure (\<lambda>(w, pgno, iMinHash, iHash). iHash)") auto

declare findBlocks.simps [simp del]

definition sqlite3WalFindFrame :: "wal \<Rightarrow> u32 \<Rightarrow> (nat \<times> nat \<times> wal) option" where
  "sqlite3WalFindFrame w pgno =
     (let iLast = mxFrame (hdr w) in
      if iLast = 0 \<or> readLock w = 0 then Some (0, 0, w)
      else findBlocks w pgno (walFramePage (minFrame w)) (walFramePage iLast))"

section \<open>Rolling back\<close>

text \<open>The result lists the pages for which \<open>xUndo\<close> is called; the callback succeeds, as the comment in the code explains.\<close>

definition sqlite3WalUndo :: "wal \<Rightarrow> (u32 list \<times> wal) option" where
  "sqlite3WalUndo w = do {
     let iMax = mxFrame (hdr w);
     let w = w\<lparr>hdr := live w\<rparr>;
     let frames = [mxFrame (hdr w) + 1..<iMax + 1];
     let pages = map (walFramePgno w) frames;
     if None \<in> set pages then None
     else do {
       w \<leftarrow> (if iMax \<noteq> mxFrame (hdr w) then walCleanupHash w else Some w);
       Some (map the pages, w)
     }
   }"

type_synonym savepoint = "nat \<times> (u32 \<times> u32) \<times> u32"

definition sqlite3WalSavepoint :: "wal \<Rightarrow> savepoint" where
  "sqlite3WalSavepoint w = (mxFrame (hdr w), aFrameCksum (hdr w), nCkpt w)"

definition sqlite3WalSavepointUndo :: "wal \<Rightarrow> savepoint \<Rightarrow> (savepoint \<times> wal) option" where
  "sqlite3WalSavepointUndo w sp = do {
     let (mx, ck, n) = sp;
     let (mx, n) = (if n \<noteq> nCkpt w then (0, nCkpt w) else (mx, n));
     w \<leftarrow> (if mx < mxFrame (hdr w)
          then walCleanupHash (w\<lparr>hdr := (hdr w)\<lparr>mxFrame := mx, aFrameCksum := ck\<rparr>\<rparr>)
          else Some w);
     Some ((mx, ck, n), w)
   }"

section \<open>Arithmetic of blocks and slots\<close>

lemma wal_consts: "HASHTABLE_NPAGE = 4096" "HASHTABLE_NSLOT = 8192" "HASHTABLE_NPAGE_ONE = 4062"
  by (simp_all add: HASHTABLE_NPAGE_def HASHTABLE_NSLOT_def HASHTABLE_NPAGE_ONE_def WALINDEX_HDR_SIZE_def)

lemma walHash_less [simp]: "walHash p < HASHTABLE_NSLOT"
proof -
  have "(p * HASHTABLE_HASH_1) AND 8191 \<le> (8191 :: u32)" by (rule word_and_le1)
  then have "unat ((p * HASHTABLE_HASH_1) AND (8191 :: u32)) \<le> unat (8191 :: u32)" by (simp only: word_le_nat_alt)
  then show ?thesis by (simp add: walHash_def wal_consts)
qed

definition slot :: "nat \<Rightarrow> nat \<Rightarrow> nat" where
  "slot k d = (k + d) mod HASHTABLE_NSLOT"

lemma slot_less [simp]: "slot k d < HASHTABLE_NSLOT"
  by (simp add: slot_def wal_consts)

lemma slot_0 [simp]: "k < HASHTABLE_NSLOT \<Longrightarrow> slot k 0 = k"
  by (simp add: slot_def)

lemma slot_next: "slot (walNextHash k) d = slot k (Suc d)"
  by (simp add: slot_def walNextHash_def mod_add_left_eq)

lemma next_slot: "walNextHash (slot k d) = slot k (Suc d)"
  by (simp add: slot_def walNextHash_def mod_Suc_eq)

lemma slot_inj: "slot k d = slot k e \<Longrightarrow> d < HASHTABLE_NSLOT \<Longrightarrow> e < HASHTABLE_NSLOT \<Longrightarrow> d = e"
proof (induction d e rule: linorder_wlog)
  case (le d e)
  then have "(k + e) mod HASHTABLE_NSLOT = (k + d) mod HASHTABLE_NSLOT" by (simp add: slot_def)
  then have "HASHTABLE_NSLOT dvd (k + e) - (k + d)" using le by (simp add: mod_eq_dvd_iff_nat)
  then have "HASHTABLE_NSLOT dvd e - d" by simp
  with le show ?case by (auto dest!: dvd_imp_le)
next
  case (sym d e)
  then show ?case by simp
qed

lemma framePage_unique: "izero i < f \<Longrightarrow> f \<le> izero i + npage i \<Longrightarrow> walFramePage f = i"
proof -
  assume a: "izero i < f" "f \<le> izero i + npage i"
  show "walFramePage f = i"
  proof (cases i)
    case 0
    with a show ?thesis by (simp add: walFramePage_def izero_def npage_def wal_consts)
  next
    case (Suc j)
    with a have "i * 4096 \<le> f + 33" "f + 33 < (i + 1) * 4096" by (simp_all add: izero_def npage_def wal_consts)
    then have "(f + 33) div 4096 = i" by (simp add: div_nat_eqI)
    then show ?thesis by (simp add: walFramePage_def wal_consts)
  qed
qed

lemma framePage_bounds:
  assumes "0 < f"
  shows "izero (walFramePage f) < f" "f \<le> izero (walFramePage f) + npage (walFramePage f)"
proof -
  define i where "i = (f + 33) div 4096"
  have i: "walFramePage f = i" by (simp add: walFramePage_def wal_consts i_def)
  define r where "r = (f + 33) mod 4096"
  have m: "r < 4096" by (simp add: r_def)
  have e: "i * 4096 + r = f + 33" unfolding i_def r_def by (rule div_mult_mod_eq)
  have "i * 4096 \<le> f + 33" using e by linarith
  moreover have "(i + 1) * 4096 = i * 4096 + 4096" by simp
  then have "f + 33 < (i + 1) * 4096" using e m by linarith
  ultimately show "izero (walFramePage f) < f" "f \<le> izero (walFramePage f) + npage (walFramePage f)"
    using assms unfolding i by (cases i; simp add: izero_def npage_def wal_consts)+
qed

lemma framePage_mono: "f \<le> g \<Longrightarrow> walFramePage f \<le> walFramePage g"
  unfolding walFramePage_def by (rule div_le_mono) simp

lemma izero_Suc: "izero (Suc i) = izero i + npage i"
  by (cases i) (simp_all add: izero_def npage_def)

lemma izero_mono: "i < j \<Longrightarrow> izero i + npage i \<le> izero j"
  by (cases j) (auto simp: izero_def npage_def wal_consts)

section \<open>One hash table\<close>

text \<open>
  The entry \<open>Suc j\<close> of page \<open>ps ! j\<close> is on the probe sequence of its page, and all slots before it hold older entries.
\<close>

definition ht :: "nat list \<Rightarrow> u32 list \<Rightarrow> bool" where
  "ht H ps \<longleftrightarrow> length H = HASHTABLE_NSLOT \<and> (\<forall>s<HASHTABLE_NSLOT. H ! s \<le> length ps)
     \<and> (\<forall>s<HASHTABLE_NSLOT. \<forall>t<HASHTABLE_NSLOT. H ! s = H ! t \<longrightarrow> H ! s \<noteq> 0 \<longrightarrow> s = t)
     \<and> (\<forall>j<length ps. \<exists>d<HASHTABLE_NSLOT. H ! slot (walHash (ps ! j)) d = Suc j
          \<and> (\<forall>e<d. 0 < H ! slot (walHash (ps ! j)) e \<and> H ! slot (walHash (ps ! j)) e \<le> j))"

lemma htD:
  assumes "ht H ps"
  shows "length H = HASHTABLE_NSLOT" "s < HASHTABLE_NSLOT \<Longrightarrow> H ! s \<le> length ps"
    "s < HASHTABLE_NSLOT \<Longrightarrow> t < HASHTABLE_NSLOT \<Longrightarrow> H ! s = H ! t \<Longrightarrow> H ! s \<noteq> 0 \<Longrightarrow> s = t"
    "j < length ps \<Longrightarrow> \<exists>d<HASHTABLE_NSLOT. H ! slot (walHash (ps ! j)) d = Suc j
          \<and> (\<forall>e<d. 0 < H ! slot (walHash (ps ! j)) e \<and> H ! slot (walHash (ps ! j)) e \<le> j)"
  using assms unfolding ht_def by simp_all

lemma ht_empty: "ht (replicate HASHTABLE_NSLOT 0) []"
  by (simp add: ht_def)

lemma ht_free:
  assumes "ht H ps" "length ps < HASHTABLE_NSLOT"
  shows "\<exists>d\<le>length ps. H ! slot k d = 0 \<and> (\<forall>e<d. H ! slot k e \<noteq> 0)"
proof -
  have "\<exists>d\<le>length ps. H ! slot k d = 0"
  proof (rule ccontr)
    assume "\<not> ?thesis"
    then have nz: "\<And>d. d \<le> length ps \<Longrightarrow> H ! slot k d \<noteq> 0" by auto
    have "inj_on (\<lambda>d. H ! slot k d) {..length ps}"
    proof (rule inj_onI)
      fix d e assume de: "d \<in> {..length ps}" "e \<in> {..length ps}" "H ! slot k d = H ! slot k e"
      then have "slot k d = slot k e" by (intro htD(3) [OF assms(1) slot_less slot_less]) (simp_all add: nz)
      then show "d = e" by (rule slot_inj) (use de assms(2) in simp_all)
    qed
    moreover have "(\<lambda>d. H ! slot k d) ` {..length ps} \<subseteq> {1..length ps}"
      using nz htD(2) [OF assms(1) slot_less] by (auto simp: Suc_le_eq)
    ultimately have "card {..length ps} \<le> card {1..length ps}" by (rule card_inj_on_le) simp
    then show False by simp
  qed
  then obtain d0 where d0: "d0 \<le> length ps" "H ! slot k d0 = 0" by blast
  define d where "d = (LEAST d. H ! slot k d = 0)"
  have "H ! slot k d = 0" unfolding d_def by (rule LeastI) (rule d0(2))
  moreover have "d \<le> d0" unfolding d_def by (rule Least_le) (rule d0(2))
  moreover have "H ! slot k e \<noteq> 0" if "e < d" for e using not_less_Least [of e "\<lambda>d. H ! slot k d = 0"] that by (simp add: d_def)
  ultimately show ?thesis using d0(1) by (intro exI [of _ d]) auto
qed

lemma probeFree_slot:
  "d \<le> n \<Longrightarrow> H ! slot k d = 0 \<Longrightarrow> \<forall>e<d. H ! slot k e \<noteq> 0 \<Longrightarrow> k < HASHTABLE_NSLOT \<Longrightarrow> probeFree H k n = Some (slot k d)"
proof (induction n arbitrary: k d)
  case 0
  then show ?case by simp
next
  case (Suc n)
  show ?case
  proof (cases d)
    case 0
    with Suc.prems show ?thesis by simp
  next
    case (Suc d')
    have "H ! k \<noteq> 0" using Suc.prems(3,4) Suc by (force dest: spec [of _ 0])
    moreover have "\<forall>e<d'. H ! slot (walNextHash k) e \<noteq> 0" using Suc.prems(3) Suc by (simp add: slot_next)
    moreover have "walNextHash k < HASHTABLE_NSLOT" by (simp add: walNextHash_def wal_consts)
    ultimately show ?thesis
      using Suc.IH [of d' "walNextHash k"] Suc.prems(1,2) Suc by (simp add: slot_next)
  qed
qed

declare probeFree.simps [simp del]

lemma ht_insert:
  assumes "ht H ps" "length ps < HASHTABLE_NSLOT - 1" "\<forall>e<d. H ! slot (walHash p) e \<noteq> 0" "H ! slot (walHash p) d = 0" "d \<le> length ps"
  shows "ht (H[slot (walHash p) d := Suc (length ps)]) (ps @ [p])"
proof -
  let ?s = "slot (walHash p) d" and ?H = "H[slot (walHash p) d := Suc (length ps)]"
  note h = htD [OF assms(1)]
  have nth: "?H ! t = (if t = ?s then Suc (length ps) else H ! t)" if "t < HASHTABLE_NSLOT" for t
    using that h(1) by (simp add: nth_list_update)
  have "?H ! t \<le> length (ps @ [p])" if "t < HASHTABLE_NSLOT" for t
    using h(2) [OF that] nth [OF that] by simp
  moreover have "t = u" if "t < HASHTABLE_NSLOT" "u < HASHTABLE_NSLOT" "?H ! t = ?H ! u" "?H ! t \<noteq> 0" for t u
    using that h(3) [OF that(1,2)] h(2) [OF that(1)] h(2) [OF that(2)] by (simp add: nth split: if_splits)
  moreover have "\<exists>d'<HASHTABLE_NSLOT. ?H ! slot (walHash ((ps @ [p]) ! j)) d' = Suc j
      \<and> (\<forall>e<d'. 0 < ?H ! slot (walHash ((ps @ [p]) ! j)) e \<and> ?H ! slot (walHash ((ps @ [p]) ! j)) e \<le> j)"
    if "j < length (ps @ [p])" for j
  proof (cases "j = length ps")
    case True
    have "?H ! slot (walHash p) e \<noteq> 0 \<and> ?H ! slot (walHash p) e \<le> length ps" if "e < d" for e
    proof -
      have "d < HASHTABLE_NSLOT" "e < HASHTABLE_NSLOT" using that assms(2,5) by linarith+
      then have "slot (walHash p) e \<noteq> ?s" using slot_inj [of "walHash p" e d] that by auto
      then show ?thesis using assms(3) that h(2) [OF slot_less] by (simp add: nth)
    qed
    with True assms(2,5) show ?thesis by (intro exI [of _ d]) (simp add: nth)
  next
    case False
    with that have j: "j < length ps" by simp
    obtain d' where d': "d' < HASHTABLE_NSLOT" "H ! slot (walHash (ps ! j)) d' = Suc j"
      "\<forall>e<d'. 0 < H ! slot (walHash (ps ! j)) e \<and> H ! slot (walHash (ps ! j)) e \<le> j" using h(4) [OF j] by blast
    have "slot (walHash (ps ! j)) e \<noteq> ?s" if "e \<le> d'" for e
    proof
      assume "slot (walHash (ps ! j)) e = ?s"
      then have "H ! slot (walHash (ps ! j)) e = 0" using assms(4) by simp
      with d'(2,3) that show False by (cases "e = d'") (auto simp: le_less)
    qed
    with d' j show ?thesis by (intro exI [of _ d']) (simp add: nth nth_append)
  qed
  ultimately show ?thesis using h(1) unfolding ht_def by simp
qed

lemma ht_take:
  assumes "ht H ps" "m \<le> length ps"
  shows "ht (map (\<lambda>v. if v > m then 0 else v) H) (take m ps)"
proof -
  let ?H = "map (\<lambda>v. if v > m then 0 else v) H"
  note h = htD [OF assms(1)]
  have nth: "?H ! t = (if H ! t > m then 0 else H ! t)" if "t < HASHTABLE_NSLOT" for t using that h(1) by simp
  have "\<exists>d<HASHTABLE_NSLOT. ?H ! slot (walHash (take m ps ! j)) d = Suc j
      \<and> (\<forall>e<d. 0 < ?H ! slot (walHash (take m ps ! j)) e \<and> ?H ! slot (walHash (take m ps ! j)) e \<le> j)"
    if "j < length (take m ps)" for j
  proof -
    from that have j: "j < length ps" "j < m" by simp_all
    obtain d where d: "d < HASHTABLE_NSLOT" "H ! slot (walHash (ps ! j)) d = Suc j"
      "\<forall>e<d. 0 < H ! slot (walHash (ps ! j)) e \<and> H ! slot (walHash (ps ! j)) e \<le> j" using h(4) [OF j(1)] by blast
    with j show ?thesis by (intro exI [of _ d]) (fastforce simp: nth)
  qed
  with h(1,3) assms(2) show ?thesis unfolding ht_def by (simp add: nth)
qed

text \<open>What the search returns: the newest entry of the page that the reader may see, plus the base.\<close>

definition newest :: "(nat \<Rightarrow> bool) \<Rightarrow> u32 list \<Rightarrow> u32 \<Rightarrow> nat" where
  "newest vis ps p = foldl (\<lambda>r v. if vis v \<and> ps ! (v - 1) = p then v else r) 0 [1..<Suc (length ps)]"

lemma newest_props:
  "newest vis ps p = 0 \<Longrightarrow> 1 \<le> v \<Longrightarrow> v \<le> length ps \<Longrightarrow> \<not> (vis v \<and> ps ! (v - 1) = p)"
  "newest vis ps p \<noteq> 0 \<Longrightarrow> 1 \<le> newest vis ps p \<and> newest vis ps p \<le> length ps \<and> vis (newest vis ps p) \<and> ps ! (newest vis ps p - 1) = p"
  "newest vis ps p < v \<Longrightarrow> v \<le> length ps \<Longrightarrow> \<not> (vis v \<and> ps ! (v - 1) = p)"
proof -
  have *: "(r < v \<longrightarrow> v \<le> n \<longrightarrow> \<not> Q v) \<and> (r \<noteq> 0 \<longrightarrow> 1 \<le> r \<and> r \<le> n \<and> Q r)"
    if "r = foldl (\<lambda>r v. if Q v then v else r) 0 [1..<Suc n]" for Q and r n v :: nat
    using that
  proof (induction n arbitrary: r)
    case (Suc n)
    show ?case
    proof (cases "Q (Suc n)")
      case True
      with Suc.prems have "r = Suc n" by simp
      with True show ?thesis by simp
    next
      case False
      with Suc.prems have "r = foldl (\<lambda>r v. if Q v then v else r) 0 [1..<Suc n]" by simp
      from Suc.IH [OF this] False show ?thesis by (auto simp: le_Suc_eq)
    qed
  qed simp
  note n = * [of "newest vis ps p" "\<lambda>v. vis v \<and> ps ! (v - 1) = p" "length ps", OF newest_def]
  show "newest vis ps p = 0 \<Longrightarrow> 1 \<le> v \<Longrightarrow> v \<le> length ps \<Longrightarrow> \<not> (vis v \<and> ps ! (v - 1) = p)" using n [of v] by linarith
  show "newest vis ps p < v \<Longrightarrow> v \<le> length ps \<Longrightarrow> \<not> (vis v \<and> ps ! (v - 1) = p)" using n [of v] by blast
  show "newest vis ps p \<noteq> 0 \<Longrightarrow> 1 \<le> newest vis ps p \<and> newest vis ps p \<le> length ps \<and> vis (newest vis ps p) \<and> ps ! (newest vis ps p - 1) = p"
    using n [of 0] by blast
qed

lemma newest_0I: "(\<And>v. 1 \<le> v \<Longrightarrow> v \<le> length ps \<Longrightarrow> \<not> (vis v \<and> ps ! (v - 1) = p)) \<Longrightarrow> newest vis ps p = 0"
  using newest_props(2) [of vis ps p] by blast

lemma newest_eqI:
  assumes "1 \<le> v" "v \<le> length ps" "vis v" "ps ! (v - 1) = p" "\<And>x. v < x \<Longrightarrow> x \<le> length ps \<Longrightarrow> \<not> (vis x \<and> ps ! (x - 1) = p)"
  shows "newest vis ps p = v"
proof (rule ccontr)
  assume ne: "newest vis ps p \<noteq> v"
  have nz: "newest vis ps p \<noteq> 0" using newest_props(1) [of vis ps p v] assms(1-4) by blast
  show False
  proof (cases "newest vis ps p < v")
    case True
    with newest_props(3) [of vis ps p v] assms(2-4) show False by blast
  next
    case False
    with ne have "v < newest vis ps p" by simp
    with assms(5) newest_props(2) [OF nz] show False by blast
  qed
qed

lemma probeFind_slot:
  assumes "\<And>e. e < d \<Longrightarrow> H ! slot k e \<noteq> 0" "H ! slot k d = 0" "d \<le> n" "k < HASHTABLE_NSLOT"
    "\<And>e. e < d \<Longrightarrow> hit (H ! slot k e) = Some (Q (H ! slot k e))"
  shows "probeFind hit H z k n r = Some (0, foldl (\<lambda>r v. if Q v then v + z else r) r (map (\<lambda>e. H ! slot k e) [0..<d]))"
  using assms
proof (induction n arbitrary: k d r)
  case 0
  then show ?case by (subst probeFind.simps) simp
next
  case (Suc n)
  show ?case
  proof (cases d)
    case 0
    with Suc.prems show ?thesis by (subst probeFind.simps) simp
  next
    case (Suc d')
    have k: "H ! k \<noteq> 0" "hit (H ! k) = Some (Q (H ! k))"
      using Suc.prems(1) [of 0] Suc.prems(5) [of 0] Suc.prems(4) Suc by simp_all
    have lt: "walNextHash k < HASHTABLE_NSLOT" by (simp add: walNextHash_def wal_consts)
    have "probeFind hit H z (walNextHash k) n r' = Some (0, foldl (\<lambda>r v. if Q v then v + z else r) r'
        (map (\<lambda>e. H ! slot (walNextHash k) e) [0..<d']))" for r'
      by (rule Suc.IH) (use Suc.prems Suc lt in \<open>simp_all add: slot_next\<close>)
    moreover have "map (\<lambda>e. H ! slot k e) [0..<d] = H ! k # map (\<lambda>e. H ! slot (walNextHash k) e) [0..<d']"
      using Suc Suc.prems(4)
      by (simp add: slot_next upt_conv_Cons del: upt_Suc) (simp add: map_Suc_upt [symmetric] comp_def del: upt_Suc map_Suc_upt)
    ultimately show ?thesis using k by (subst probeFind.simps) simp
  qed
qed

lemma foldl_last_match:
  "foldl (\<lambda>r v. if Q v then f v else r) r xs = (case filter Q xs of [] \<Rightarrow> r | y # ys \<Rightarrow> f (last (y # ys)))"
proof (induction xs rule: rev_induct)
  case (snoc x xs)
  then show ?case by (cases "filter Q xs") auto
qed simp

lemma ht_search:
  assumes "ht H ps" "length ps < HASHTABLE_NSLOT"
    "\<And>v. 1 \<le> v \<Longrightarrow> v \<le> length ps \<Longrightarrow> hit v = Some (vis v \<and> ps ! (v - 1) = p)"
  shows "probeFind hit H z (walHash p) HASHTABLE_NSLOT 0 =
    Some (0, if newest vis ps p = 0 then 0 else newest vis ps p + z)"
proof -
  let ?k = "walHash p" and ?Q = "\<lambda>v. vis v \<and> ps ! (v - 1) = p"
  obtain d where d: "d \<le> length ps" "H ! slot ?k d = 0" "\<forall>e<d. H ! slot ?k e \<noteq> 0"
    using ht_free [OF assms(1,2)] by blast
  define L where "L = map (\<lambda>e. H ! slot ?k e) [0..<d]"
  have range: "1 \<le> H ! slot ?k e \<and> H ! slot ?k e \<le> length ps" if "e < d" for e
    using d(3) that htD(2) [OF assms(1) slot_less] by (simp add: Suc_le_eq)
  have hit: "hit (H ! slot ?k e) = Some (?Q (H ! slot ?k e))" if "e < d" for e
    using range [OF that] assms(3) by blast
  have r: "probeFind hit H z ?k HASHTABLE_NSLOT 0 = Some (0, foldl (\<lambda>r v. if ?Q v then v + z else r) 0 L)"
    unfolding L_def
    by (rule probeFind_slot [where Q = ?Q]) (use d assms(2) hit in auto)
  have at: "\<exists>e<d. H ! slot ?k e = v \<and> (\<forall>e'<e. H ! slot ?k e' < v)" if v: "1 \<le> v" "v \<le> length ps" "ps ! (v - 1) = p" for v
  proof -
    have "v - 1 < length ps" using v(1,2) by simp
    from htD(4) [OF assms(1) this] v(1)
    obtain e where e: "e < HASHTABLE_NSLOT" "H ! slot ?k e = v" "\<forall>e'<e. 0 < H ! slot ?k e' \<and> H ! slot ?k e' \<le> v - 1"
      unfolding v(3) by auto
    have "\<not> d \<le> e"
    proof
      assume "d \<le> e"
      then have "d = e \<or> d < e" by auto
      with e(2,3) d(2) v(1) show False by auto
    qed
    with e v(1) show ?thesis by (intro exI [of _ e]) fastforce
  qed
  have fold: "foldl (\<lambda>r v. if ?Q v then v + z else r) 0 L = (case filter ?Q L of [] \<Rightarrow> 0 | y # ys \<Rightarrow> last (y # ys) + z)"
    by (rule foldl_last_match)
  show ?thesis
  proof (cases "filter ?Q L")
    case Nil
    have "\<not> ?Q v" if "1 \<le> v" "v \<le> length ps" for v
    proof
      assume q: "?Q v"
      with at [of v] that obtain e where "e < d" "H ! slot ?k e = v" by auto
      then have "v \<in> set L" by (auto simp: L_def)
      with q Nil show False by (auto simp: filter_empty_conv)
    qed
    then have "newest vis ps p = 0" by (rule newest_0I)
    with r fold Nil show ?thesis by simp
  next
    case (Cons y ys)
    define v where "v = last (filter ?Q L)"
    obtain us ws where s: "L = us @ v # ws" "?Q v" "\<forall>x\<in>set ws. \<not> ?Q x"
    proof -
      have "y \<in> set (filter ?Q L)" unfolding Cons by simp
      then have "\<exists>x\<in>set L. ?Q x" by (intro bexI [of _ y]) simp_all
      then obtain us x ws where l: "L = us @ x # ws" "?Q x" "\<forall>y\<in>set ws. \<not> ?Q y" by (rule split_list_last_propE)
      then have "v = x" unfolding v_def by (simp add: filter_False)
      with l that show ?thesis by blast
    qed
    define e where "e = length us"
    have e: "e < d" "H ! slot ?k e = v"
    proof -
      have "length L = d" by (simp add: L_def)
      with s(1) show "e < d" by (simp add: e_def)
      then show "H ! slot ?k e = v" using arg_cong [OF s(1), of "\<lambda>l. l ! e"] by (simp add: L_def e_def)
    qed
    have v: "1 \<le> v" "v \<le> length ps" using range [OF e(1)] e(2) by simp_all
    have none: "\<not> ?Q x" if x: "v < x" "x \<le> length ps" for x
    proof
      assume q: "?Q x"
      with at [of x] x obtain e' where e': "e' < d" "H ! slot ?k e' = x" "\<forall>e''<e'. H ! slot ?k e'' < x" by auto
      obtain e2 where e2: "e2 < d" "H ! slot ?k e2 = v" "\<forall>e''<e2. H ! slot ?k e'' < v" using at [of v] v s(2) by auto
      have "e2 = e"
      proof (rule slot_inj [of ?k])
        show "slot ?k e2 = slot ?k e"
          by (rule htD(3) [OF assms(1) slot_less slot_less]) (use e e2 v in simp_all)
      qed (use e e2 d(1) assms(2) in simp_all)
      with e2(3) e'(2) x have "\<not> e' < e" by fastforce
      moreover have "e' \<noteq> e" using e(2) e'(2) x by auto
      ultimately have "e < e'" by simp
      have len: "length us + Suc (length ws) = d" using arg_cong [OF s(1), of length] by (simp add: L_def)
      have "L ! e' = x" using e'(1,2) by (simp add: L_def)
      then have "ws ! (e' - Suc (length us)) = x"
        using \<open>e < e'\<close> unfolding s(1) e_def by (simp add: nth_append nth_Cons')
      moreover have "e' - Suc (length us) < length ws" using len e'(1) \<open>e < e'\<close> by (simp add: e_def)
      ultimately have "x \<in> set ws" by (metis nth_mem)
      with q s(3) show False by blast
    qed
    have n: "newest vis ps p = v" by (rule newest_eqI) (use v s(2) none in auto)
    have "foldl (\<lambda>r v. if ?Q v then v + z else r) 0 L = v + z"
      unfolding fold Cons using Cons by (simp add: v_def)
    with r n v show ?thesis by simp
  qed
qed

section \<open>The whole index\<close>

definition seg :: "nat \<Rightarrow> u32 list \<Rightarrow> u32 list" where
  "seg i pg = take (npage i) (drop (izero i) pg)"

definition bok :: "wblock \<Rightarrow> u32 list \<Rightarrow> bool" where
  "bok b ps \<longleftrightarrow> length ps \<le> length (aPgno b) \<and> take (length ps) (aPgno b) = ps
     \<and> (\<forall>k<length (aPgno b). length ps \<le> k \<longrightarrow> aPgno b ! k = 0) \<and> ht (aHash b) ps"

text \<open>
  The index holds the pages \<open>pg\<close> of the frames 1, 2, ... Blocks beyond may hold anything. A reader with an older \<open>mxFrame\<close>
  uses the same index, and a writer that died may have left entries beyond \<open>mxFrame\<close>.
\<close>

definition idx_ok :: "wal \<Rightarrow> u32 list \<Rightarrow> bool" where
  "idx_ok w pg \<longleftrightarrow> 0 \<notin> set pg
     \<and> (\<forall>i. length (aPgno (blocks w i)) = npage i \<and> length (aHash (blocks w i)) = HASHTABLE_NSLOT)
     \<and> (\<forall>i. izero i < length pg \<longrightarrow> bok (blocks w i) (seg i pg))"

lemma idx_okD:
  assumes "idx_ok w pg"
  shows "0 \<notin> set pg" "length (aPgno (blocks w i)) = npage i" "length (aHash (blocks w i)) = HASHTABLE_NSLOT"
    "izero i < length pg \<Longrightarrow> bok (blocks w i) (seg i pg)"
  using assms unfolding idx_ok_def by simp_all

lemma npage_le: "npage i \<le> 4096" "0 < npage i"
  by (simp_all add: npage_def wal_consts)

lemma length_seg: "length (seg i pg) = min (npage i) (length pg - izero i)"
  by (simp add: seg_def)

lemma seg_nth: "j < length (seg i pg) \<Longrightarrow> seg i pg ! j = pg ! (izero i + j)"
  by (cases "izero i \<le> length pg") (simp_all add: seg_def)

lemma bok_nth: "bok b ps \<Longrightarrow> j < length ps \<Longrightarrow> aPgno b ! j = ps ! j"
  unfolding bok_def by (metis nth_take)

text \<open>Mapping a block changes nothing that the index holds.\<close>

definition same_index :: "wal \<Rightarrow> wal \<Rightarrow> bool" where
  "same_index w w' \<longleftrightarrow> hdr w' = hdr w \<and> live w' = live w \<and> blocks w' = blocks w \<and> readLock w' = readLock w
     \<and> minFrame w' = minFrame w \<and> nCkpt w' = nCkpt w \<and> (False \<in> set (mapOk w') \<longrightarrow> False \<in> set (mapOk w))"

lemma same_index_refl [simp]: "same_index w w"
  by (simp add: same_index_def)

lemma same_index_trans: "same_index w w' \<Longrightarrow> same_index w' w'' \<Longrightarrow> same_index w w''"
  by (simp add: same_index_def)

lemma alloc_ok_False: "alloc_ok l = (ok, m) \<Longrightarrow> (False \<in> set m \<longrightarrow> False \<in> set l) \<and> (\<not> ok \<longrightarrow> False \<in> set l)"
  by (cases l) auto

lemma walHashGet_cases:
  assumes "walHashGet i w = (rc, w')"
  shows "same_index w w' \<and> (rc = 0 \<or> rc = 7 \<and> False \<in> set (mapOk w))"
proof -
  obtain ok m where a: "alloc_ok (mapOk w) = (ok, m)" by fastforce
  obtain ok2 m2 where b: "alloc_ok m = (ok2, m2)" by fastforce
  from assms alloc_ok_False [OF a] alloc_ok_False [OF b] a b show ?thesis
    unfolding walHashGet_def walIndexPage_def same_index_def by (auto simp: Let_def split: if_splits)
qed

lemma walHashGet_ok: "False \<notin> set (mapOk w) \<Longrightarrow> \<exists>w'. walHashGet i w = (0, w') \<and> same_index w w'"
  using walHashGet_cases [of i w] by (cases "walHashGet i w") auto

lemma idx_ok_same: "same_index w w' \<Longrightarrow> idx_ok w' pg \<longleftrightarrow> idx_ok w pg"
  by (simp add: same_index_def idx_ok_def)

text \<open>The linear search that the assertions of the code compare with.\<close>

fun lastFrame :: "u32 list \<Rightarrow> u32 \<Rightarrow> nat \<Rightarrow> nat \<Rightarrow> nat" where
  "lastFrame pg p iMin 0 = 0"
| "lastFrame pg p iMin (Suc f) =
     (if Suc f < iMin then 0 else if pg ! f = p then Suc f else lastFrame pg p iMin f)"

lemma lastFrame_eqI:
  "f \<le> hi \<Longrightarrow> 0 < f \<Longrightarrow> iMin \<le> f \<Longrightarrow> pg ! (f - 1) = p \<Longrightarrow> (\<And>x. f < x \<Longrightarrow> x \<le> hi \<Longrightarrow> pg ! (x - 1) \<noteq> p) \<Longrightarrow> lastFrame pg p iMin hi = f"
proof (induction hi)
  case (Suc hi)
  show ?case
  proof (cases "f = Suc hi")
    case True
    with Suc.prems show ?thesis by auto
  next
    case False
    with Suc.prems have "pg ! hi \<noteq> p" by (metis Suc_leI diff_Suc_1 le_neq_implies_less le_refl)
    with Suc False show ?thesis by simp
  qed
qed simp

lemma lastFrame_0I: "(\<And>x. 0 < x \<Longrightarrow> iMin \<le> x \<Longrightarrow> x \<le> hi \<Longrightarrow> pg ! (x - 1) \<noteq> p) \<Longrightarrow> lastFrame pg p iMin hi = 0"
proof (induction hi)
  case (Suc hi)
  have "\<not> Suc hi < iMin \<Longrightarrow> pg ! hi \<noteq> p" using Suc.prems [of "Suc hi"] by simp
  with Suc show ?case by simp
qed simp

lemma lastFrame_skip:
  "hi' \<le> hi \<Longrightarrow> (\<And>x. hi' < x \<Longrightarrow> x \<le> hi \<Longrightarrow> iMin \<le> x \<Longrightarrow> pg ! (x - 1) \<noteq> p) \<Longrightarrow> lastFrame pg p iMin hi = lastFrame pg p iMin hi'"
proof (induction hi)
  case (Suc hi)
  show ?case
  proof (cases "hi' = Suc hi")
    case False
    have "lastFrame pg p iMin hi' = 0" if "Suc hi < iMin" using that Suc.prems(1) by (intro lastFrame_0I) simp
    moreover have "\<not> Suc hi < iMin \<Longrightarrow> pg ! hi \<noteq> p" using Suc.prems(2) [of "Suc hi"] Suc.prems(1) False by simp
    ultimately show ?thesis using Suc False by simp
  qed simp
qed simp

lemma findBlocks_ok:
  assumes "idx_ok w pg" "mxFrame (hdr w) \<le> length pg" "iHash \<le> walFramePage (mxFrame (hdr w))" "0 < mxFrame (hdr w)"
  shows "\<exists>rc f w'. findBlocks w p (walFramePage (minFrame w)) iHash = Some (rc, f, w') \<and> same_index w w'
    \<and> (rc = 0 \<or> rc = 7 \<and> False \<in> set (mapOk w))
    \<and> (rc = 0 \<longrightarrow> f = lastFrame pg p (minFrame w) (min (mxFrame (hdr w)) (izero iHash + npage iHash)))"
  using assms
proof (induction iHash arbitrary: w rule: less_induct)
  case (less iHash)
  let ?lo = "minFrame w" and ?mx = "mxFrame (hdr w)" and ?hi = "izero iHash + npage iHash"
  obtain rc w1 where g: "walHashGet iHash w = (rc, w1)" by fastforce
  note s1 = walHashGet_cases [OF g]
  show ?case
  proof (cases "iHash < walFramePage ?lo")
    case True
    have "lastFrame pg p ?lo (min ?mx ?hi) = 0"
    proof (rule lastFrame_0I)
      fix x assume x: "0 < x" "?lo \<le> x" "x \<le> min ?mx ?hi"
      have "walFramePage ?lo \<le> walFramePage x" using x(2) by (rule framePage_mono)
      moreover have "izero (walFramePage x) < ?hi" using framePage_bounds(1) [OF x(1)] x(3) by simp
      ultimately have False using True izero_mono [of iHash "walFramePage x"] by simp
      then show "pg ! (x - 1) \<noteq> p" ..
    qed
    with True show ?thesis by (subst findBlocks.simps) simp
  next
    case False
    show ?thesis
    proof (cases "rc = 0")
      case rc: False
      with False g s1 show ?thesis by (subst findBlocks.simps) simp
    next
      case True
      have w1: "hdr w1 = hdr w" "minFrame w1 = minFrame w" "blocks w1 = blocks w" using s1 by (simp_all add: same_index_def)
      have z: "izero iHash < ?mx"
        using framePage_bounds(1) [OF less.prems(4)] less.prems(3) izero_mono [of iHash "walFramePage ?mx"]
        by (cases "iHash = walFramePage ?mx") auto
      define ps where "ps = seg iHash pg"
      define vis where "vis = (\<lambda>v. v + izero iHash \<le> ?mx \<and> ?lo \<le> v + izero iHash)"
      have b: "bok (blocks w1 iHash) ps" using idx_okD(4) [OF less.prems(1)] z less.prems(2) by (simp add: w1 ps_def)
      have hit: "hitFrame w1 iHash p v = Some (vis v \<and> ps ! (v - 1) = p)" if v: "1 \<le> v" "v \<le> length ps" for v
      proof -
        have "v - 1 < length ps" using v by simp
        then have "aPgno (blocks w iHash) ! (v - 1) = ps ! (v - 1)" "v - 1 < length (aPgno (blocks w iHash))"
          using bok_nth [OF b] b by (auto simp: w1 bok_def)
        then show ?thesis by (auto simp: hitFrame_def vis_def w1 Let_def)
      qed
      have "ht (aHash (blocks w1 iHash)) ps" using b by (simp add: bok_def)
      moreover have "length ps < HASHTABLE_NSLOT" using npage_le(1) [of iHash] by (simp add: ps_def length_seg wal_consts)
      ultimately have r: "probeFind (hitFrame w1 iHash p) (aHash (blocks w1 iHash)) (izero iHash) (walHash p) HASHTABLE_NSLOT 0
          = Some (0, if newest vis ps p = 0 then 0 else newest vis ps p + izero iHash)"
        by (rule ht_search) (rule hit)
      have at: "1 \<le> x - izero iHash \<and> x - izero iHash \<le> length ps \<and> ps ! (x - izero iHash - 1) = pg ! (x - 1)
          \<and> (vis (x - izero iHash) \<longleftrightarrow> x \<le> ?mx \<and> ?lo \<le> x)"
        if "izero iHash < x" "x \<le> ?mx" "x \<le> ?hi" for x
      proof -
        have "x - izero iHash - 1 < npage iHash" "x - izero iHash - 1 < length pg - izero iHash"
          using that less.prems(2) by linarith+
        then have "x - izero iHash - 1 < length ps" by (simp add: ps_def length_seg)
        then show ?thesis using that seg_nth [of "x - izero iHash - 1" iHash pg] by (auto simp: ps_def vis_def)
      qed
      show ?thesis
      proof (cases "newest vis ps p = 0")
        case nz: False
        define f where "f = newest vis ps p + izero iHash"
        note n = newest_props(2) [OF nz]
        have f: "0 < f" "?lo \<le> f" "f \<le> ?mx" "f \<le> ?hi" "izero iHash < f"
          using n by (auto simp: f_def vis_def ps_def length_seg)
        have "pg ! (f - 1) = p" using at [OF f(5,3,4)] n by (simp add: f_def)
        moreover have "pg ! (x - 1) \<noteq> p" if "f < x" "x \<le> min ?mx ?hi" for x
        proof -
          have x: "izero iHash < x" "x \<le> ?mx" "x \<le> ?hi" using that f(5) by simp_all
          have "newest vis ps p < x - izero iHash" using that(1) by (simp add: f_def)
          from newest_props(3) [OF this] at [OF x] x(2) f(2) that(1) show ?thesis by auto
        qed
        ultimately have "lastFrame pg p ?lo (min ?mx ?hi) = f" using f by (intro lastFrame_eqI) auto
        moreover have "findBlocks w p (walFramePage ?lo) iHash = Some (0, f, w1)"
          using False g True r nz by (subst findBlocks.simps) (simp add: f_def)
        ultimately show ?thesis using s1 by auto
      next
        case nz: True
        have none: "pg ! (x - 1) \<noteq> p" if "izero iHash < x" "x \<le> ?mx" "x \<le> ?hi" "?lo \<le> x" for x
          using newest_props(1) [OF nz, of "x - izero iHash"] at [OF that(1-3)] that(2,4) by auto
        show ?thesis
        proof (cases iHash)
          case 0
          have "lastFrame pg p ?lo (min ?mx ?hi) = 0"
            by (rule lastFrame_0I) (use none 0 in \<open>auto simp: izero_def\<close>)
          moreover have "findBlocks w p (walFramePage ?lo) iHash = Some (0, 0, w1)"
            using False g True r nz 0 by (subst findBlocks.simps) simp
          ultimately show ?thesis using s1 by auto
        next
          case (Suc k)
          have e: "findBlocks w p (walFramePage ?lo) iHash = findBlocks w1 p (walFramePage (minFrame w1)) k"
            using False g True r nz Suc w1(2) by (subst findBlocks.simps) simp
          have "idx_ok w1 pg" using idx_ok_same [of w w1] s1 less.prems(1) by blast
          from less.IH [OF _ this, of k] less.prems(2-4) Suc
          obtain rc f w' where w': "findBlocks w1 p (walFramePage (minFrame w1)) k = Some (rc, f, w')" "same_index w1 w'"
            "rc = 0 \<or> rc = 7 \<and> False \<in> set (mapOk w1)" "rc = 0 \<longrightarrow> f = lastFrame pg p ?lo (min ?mx (izero k + npage k))"
            by (auto simp: w1)
          have "izero iHash = izero k + npage k" using Suc izero_Suc by simp
          then have "lastFrame pg p ?lo (min ?mx ?hi) = lastFrame pg p ?lo (izero iHash)"
            by (intro lastFrame_skip) (use z none in auto)
          moreover have "min ?mx (izero k + npage k) = izero iHash" using z \<open>izero iHash = _\<close> by simp
          ultimately show ?thesis using e w' s1 same_index_trans [of w w1 w'] by (auto simp: same_index_def)
        qed
      qed
    qed
  qed
qed

lemma FindFrame_ok:
  assumes "idx_ok w pg" "mxFrame (hdr w) \<le> length pg"
  shows "\<exists>rc f w'. sqlite3WalFindFrame w p = Some (rc, f, w') \<and> same_index w w' \<and> (rc = 0 \<or> rc = 7 \<and> False \<in> set (mapOk w))
    \<and> (rc = 0 \<longrightarrow> f = (if readLock w = 0 then 0 else lastFrame pg p (minFrame w) (mxFrame (hdr w))))"
proof (cases "mxFrame (hdr w) = 0 \<or> readLock w = 0")
  case True
  then show ?thesis by (auto simp: sqlite3WalFindFrame_def)
next
  case False
  then have m: "0 < mxFrame (hdr w)" by simp
  have "min (mxFrame (hdr w)) (izero (walFramePage (mxFrame (hdr w))) + npage (walFramePage (mxFrame (hdr w)))) = mxFrame (hdr w)"
    using framePage_bounds(2) [OF m] by simp
  with findBlocks_ok [OF assms le_refl m, of p] False show ?thesis by (auto simp: sqlite3WalFindFrame_def)
qed

subsection \<open>Cleaning up\<close>

definition is_mapped :: "nat \<Rightarrow> wal \<Rightarrow> bool" where
  "is_mapped i w \<longleftrightarrow> i < nWiData w \<and> apWiData w i"

lemma walHashGet_mapped: "is_mapped i w \<Longrightarrow> walHashGet i w = (0, w)"
  by (simp add: is_mapped_def walHashGet_def walIndexPage_def)

lemma walHashGet_maps: "walHashGet i w = (0, w') \<Longrightarrow> is_mapped i w'"
  by (auto simp: is_mapped_def walHashGet_def walIndexPage_def Let_def split: if_splits prod.splits)

lemma seg_append:
  assumes "length pg < f" "f \<le> izero i + npage i" "izero i < f" "length pg = f - 1"
  shows "seg i (pg @ [p]) = seg i pg @ [p]" "length (seg i pg) = f - 1 - izero i"
  using assms by (auto simp: seg_def)

lemma seg_prefix: "izero j + npage j \<le> m \<Longrightarrow> m \<le> length pg \<Longrightarrow> seg j (take m pg) = seg j pg"
  by (simp add: seg_def drop_take min_def)

lemma bok_take:
  assumes "bok b ps" "m \<le> length ps"
  shows "bok (b\<lparr>aHash := map (\<lambda>v. if v > m then 0 else v) (aHash b), aPgno := take m (aPgno b) @ replicate (length (aPgno b) - m) 0\<rparr>) (take m ps)"
proof -
  note b = assms(1) [unfolded bok_def]
  have "take m (aPgno b) = take m ps" using b assms(2) by (metis min.absorb1 take_take)
  moreover have "(take m (aPgno b) @ replicate (length (aPgno b) - m) 0) ! k = 0" if "m \<le> k" "k < length (aPgno b)" for k
    using that by (simp add: nth_append)
  ultimately show ?thesis using b assms(2) ht_take [of "aHash b" ps m] by (simp add: bok_def)
qed

lemma walCleanupHash_ok:
  assumes "idx_ok w pg" "mxFrame (hdr w) \<le> length pg" "mxFrame (hdr w) = 0 \<or> is_mapped (walFramePage (mxFrame (hdr w))) w"
  shows "\<exists>B. walCleanupHash w = Some (w\<lparr>blocks := B\<rparr>) \<and> idx_ok (w\<lparr>blocks := B\<rparr>) (take (mxFrame (hdr w)) pg)"
proof (cases "mxFrame (hdr w) = 0")
  case True
  with assms(1) show ?thesis
    by (intro exI [of _ "blocks w"]) (simp add: walCleanupHash_def idx_ok_def)
next
  case False
  define m where "m = mxFrame (hdr w)"
  define i where "i = walFramePage m"
  define l where "l = m - izero i"
  have m: "0 < m" "m \<le> length pg" using False assms(2) by (simp_all add: m_def)
  note fb = framePage_bounds [OF m(1), folded i_def]
  have "l \<le> npage i" "l \<le> length pg - izero i" unfolding l_def using fb(2) m(2) by linarith+
  then have l: "l \<le> length (seg i pg)" by (simp add: length_seg)
  define b where "b = blocks w i"
  define b' where "b' = b\<lparr>aHash := map (\<lambda>v. if v > l then 0 else v) (aHash b), aPgno := take l (aPgno b) @ replicate (length (aPgno b) - l) 0\<rparr>"
  have e: "walCleanupHash w = Some (w\<lparr>blocks := (blocks w)(i := b')\<rparr>)"
    using assms(3) False by (simp add: walCleanupHash_def walHashGet_mapped m_def [symmetric] i_def [symmetric] l_def [symmetric]
      Let_def set_block_def b_def b'_def)
  have bi: "bok b (seg i pg)" using idx_okD(4) [OF assms(1), of i] fb(1) m(2) by (simp add: b_def)
  have b': "bok b' (take l (seg i pg))" unfolding b'_def by (rule bok_take [OF bi l])
  have si: "seg i (take m pg) = take l (seg i pg)"
    using fb m by (simp add: seg_def l_def drop_take min_def)
  have sz: "length (aPgno b') = npage i" "length (aHash b') = HASHTABLE_NSLOT"
    using idx_okD(2,3) [OF assms(1), of i] l bi by (simp_all add: b'_def b_def bok_def)
  have "idx_ok (w\<lparr>blocks := (blocks w)(i := b')\<rparr>) (take m pg)"
    unfolding idx_ok_def
  proof (intro conjI allI impI)
    show "0 \<notin> set (take m pg)" using idx_okD(1) [OF assms(1)] in_set_takeD by metis
    fix j
    show "length (aPgno (blocks (w\<lparr>blocks := (blocks w)(i := b')\<rparr>) j)) = npage j"
      "length (aHash (blocks (w\<lparr>blocks := (blocks w)(i := b')\<rparr>) j)) = HASHTABLE_NSLOT"
      using idx_okD(2,3) [OF assms(1)] sz by simp_all
    assume j: "izero j < length (take m pg)"
    show "bok (blocks (w\<lparr>blocks := (blocks w)(i := b')\<rparr>) j) (seg j (take m pg))"
    proof (cases "j = i")
      case True
      with b' si show ?thesis by simp
    next
      case False
      have "\<not> i < j" using izero_mono [of i j] fb(2) j by auto
      with False have "izero j + npage j \<le> m" using izero_mono [of j i] fb(1) by simp
      with False idx_okD(4) [OF assms(1), of j] j m(2) seg_prefix [of j m pg] show ?thesis by simp
    qed
  qed
  with e show ?thesis unfolding m_def [symmetric] by blast
qed

subsection \<open>Appending\<close>

lemma append_block:
  assumes "idx_ok w pg" "length pg = f - 1" "0 < f" "p \<noteq> 0" "bok (blocks w (walFramePage f)) (seg (walFramePage f) pg)"
  defines "i \<equiv> walFramePage f"
  defines "b \<equiv> blocks w i"
  shows "\<exists>k. probeFree (aHash b) (walHash p) (f - izero i) = Some k
    \<and> idx_ok (set_block i (b\<lparr>aPgno := (aPgno b)[f - izero i - 1 := p], aHash := (aHash b)[k := f - izero i]\<rparr>) w) (pg @ [p])"
proof -
  define ps where "ps = seg i pg"
  define idx where "idx = f - izero i"
  have fb: "izero i < f" "f \<le> izero i + npage i" unfolding i_def by (rule framePage_bounds [OF assms(3)])+
  have sa: "seg i (pg @ [p]) = ps @ [p]" "length ps = idx - 1" "0 < idx" "idx \<le> npage i"
    using seg_append(1) [of pg f i p] seg_append(2) [of pg f i] fb assms(2,3) by (simp_all add: ps_def idx_def)
  have bi: "bok b ps" using assms(5) by (simp add: b_def ps_def i_def)
  note bd = bi [unfolded bok_def]
  have len: "length ps < HASHTABLE_NSLOT - 1" using sa(2,4) npage_le(1) [of i] by (simp add: wal_consts)
  have "length ps < HASHTABLE_NSLOT" using len by linarith
  with bd obtain d where d: "d \<le> length ps" "aHash b ! slot (walHash p) d = 0" "\<forall>e<d. aHash b ! slot (walHash p) e \<noteq> 0"
    using ht_free [of "aHash b" ps "walHash p"] by blast
  define k where "k = slot (walHash p) d"
  have k: "probeFree (aHash b) (walHash p) idx = Some k"
    unfolding k_def by (rule probeFree_slot) (use d sa(2) in auto)
  define b' where "b' = b\<lparr>aPgno := (aPgno b)[idx - 1 := p], aHash := (aHash b)[k := idx]\<rparr>"
  have "ht ((aHash b)[k := idx]) (ps @ [p])"
    using ht_insert [of "aHash b" ps d p] bd len d sa(2,3) by (simp add: k_def)
  moreover have "take (length (ps @ [p])) ((aPgno b)[idx - 1 := p]) = ps @ [p]"
  proof -
    have "length ps < length (aPgno b)" using sa idx_okD(2) [OF assms(1), of i] by (simp add: b_def)
    then have "take (Suc (length ps)) ((aPgno b)[length ps := p]) = take (length ps) (aPgno b) @ [p]"
      by (simp add: take_Suc_conv_app_nth)
    moreover have "take (length ps) (aPgno b) = ps" using bd by blast
    moreover have "length (ps @ [p]) = Suc (length ps)" "idx - 1 = length ps" using sa(2) by simp_all
    ultimately show ?thesis by (simp only:)
  qed
  moreover have "length (aPgno b) = npage i" "length (aHash b) = HASHTABLE_NSLOT" using idx_okD(2,3) [OF assms(1)] by (simp_all add: b_def)
  ultimately have b': "bok b' (ps @ [p])" using bd sa by (auto simp: bok_def b'_def nth_list_update)
  have "idx_ok (set_block i b' w) (pg @ [p])"
    unfolding idx_ok_def
  proof (intro conjI allI impI)
    show "0 \<notin> set (pg @ [p])" using idx_okD(1) [OF assms(1)] assms(4) by simp
    fix j
    show "length (aPgno (blocks (set_block i b' w) j)) = npage j" "length (aHash (blocks (set_block i b' w) j)) = HASHTABLE_NSLOT"
      using idx_okD(2,3) [OF assms(1)] by (simp_all add: set_block_def b'_def b_def)
    assume j: "izero j < length (pg @ [p])"
    show "bok (blocks (set_block i b' w) j) (seg j (pg @ [p]))"
    proof (cases "j = i")
      case True
      with b' sa(1) show ?thesis by (simp add: set_block_def)
    next
      case False
      have "\<not> i < j" using izero_mono [of i j] fb(2) j assms(2,3) by auto
      with False have z: "izero j + npage j \<le> length pg" using izero_mono [of j i] fb(1) assms(2) by simp
      then have "izero j < length pg" using npage_le(2) [of j] by linarith
      moreover have "seg j (pg @ [p]) = seg j pg" using z by (simp add: seg_def)
      ultimately show ?thesis using False idx_okD(4) [OF assms(1), of j] by (simp add: set_block_def)
    qed
  qed
  with k show ?thesis by (auto simp: b'_def idx_def)
qed

text \<open>Either the frame begins a new block, which is cleared, or its entry is free after a possible cleanup.\<close>

lemma seg_empty: "length pg \<le> izero i \<Longrightarrow> seg i pg = []"
  by (simp add: seg_def)

lemma bok_cleared:
  assumes "length (aPgno b) = npage i" "length (aHash b) = HASHTABLE_NSLOT"
  shows "bok (b\<lparr>aPgno := replicate (length (aPgno b)) 0, aHash := replicate (length (aHash b)) 0\<rparr>) []"
  using assms ht_empty by (simp add: bok_def)

lemma idx_ok_set_beyond:
  assumes "idx_ok w pg" "length pg \<le> izero i" "length (aPgno b) = npage i" "length (aHash b) = HASHTABLE_NSLOT"
  shows "idx_ok (set_block i b w) pg"
  using assms unfolding idx_ok_def set_block_def by auto

lemma idx_ok_prefix:
  assumes "idx_ok w pg" "izero i \<le> length pg"
  shows "idx_ok w (take (izero i) pg)"
  unfolding idx_ok_def
proof (intro conjI allI impI)
  show "0 \<notin> set (take (izero i) pg)" using idx_okD(1) [OF assms(1)] in_set_takeD by metis
  fix j
  show "length (aPgno (blocks w j)) = npage j" "length (aHash (blocks w j)) = HASHTABLE_NSLOT" using idx_okD(2,3) [OF assms(1)] by simp_all
  assume j: "izero j < length (take (izero i) pg)"
  then have "izero j < izero i" by simp
  then have "j < i" using izero_mono [of i j] by (cases i j rule: linorder_cases) auto
  then have "seg j (take (izero i) pg) = seg j pg" by (intro seg_prefix izero_mono assms(2))
  then show "bok (blocks w j) (seg j (take (izero i) pg))" using idx_okD(4) [OF assms(1), of j] j by simp
qed

text \<open>
  The entry is free when it is written: a block is cleared before its first entry is made, and an entry that a writer left beyond \<open>mxFrame\<close> is cleaned up.
\<close>

lemma append_ready:
  assumes "idx_ok w pg" "0 < f" "f \<le> length pg + 1" "f \<le> length pg \<longrightarrow> mxFrame (hdr w) = f - 1" "is_mapped (walFramePage f) w"
  defines "i \<equiv> walFramePage f"
  defines "b \<equiv> blocks w i"
  defines "w2 \<equiv> (if f - izero i = 1 then set_block i (b\<lparr>aPgno := replicate (length (aPgno b)) 0, aHash := replicate (length (aHash b)) 0\<rparr>) w else w)"
  shows "\<exists>B. (if aPgno (blocks w2 i) ! (f - izero i - 1) \<noteq> 0 then walCleanupHash w2 else Some w2) = Some (w\<lparr>blocks := B\<rparr>)
      \<and> idx_ok (w\<lparr>blocks := B\<rparr>) (take (f - 1) pg) \<and> bok (B i) (seg i (take (f - 1) pg))"
proof -
  have fb: "izero i < f" "f \<le> izero i + npage i" unfolding i_def by (rule framePage_bounds [OF assms(2)])+
  have sz: "length (aPgno b) = npage i" "length (aHash b) = HASHTABLE_NSLOT"
    using idx_okD(2,3) [OF assms(1)] by (simp_all add: b_def)
  show ?thesis
  proof (cases "f - izero i = 1")
    case True
    then have f: "f - 1 = izero i" using fb by simp
    define b' where "b' = b\<lparr>aPgno := replicate (length (aPgno b)) 0, aHash := replicate (length (aHash b)) 0\<rparr>"
    have b': "bok b' []" unfolding b'_def by (rule bok_cleared [OF sz])
    have "idx_ok w (take (izero i) pg)" by (rule idx_ok_prefix [OF assms(1)]) (use assms(3) f in simp)
    then have ok: "idx_ok (set_block i b' w) (take (izero i) pg)"
      by (rule idx_ok_set_beyond) (use sz in \<open>simp_all add: b'_def\<close>)
    have w2: "w2 = set_block i b' w" using True by (simp add: w2_def b'_def)
    have s: "seg i (take (izero i) pg) = []" by (simp add: seg_empty)
    have "aPgno (blocks w2 i) ! (f - izero i - 1) = 0" using True npage_le(2) [of i] sz by (simp add: w2 set_block_def b'_def)
    then show ?thesis using ok b' s f
      by (intro exI [of _ "(blocks w)(i := b')"]) (simp add: w2 set_block_def)
  next
    case False
    then have z: "izero i < f - 1" "0 < f - 1" and w2: "w2 = w" using fb(1) by (simp_all add: w2_def)
    show ?thesis
    proof (cases "f \<le> length pg")
      case True
      have "f - izero i - 1 < npage i" "f - izero i - 1 < length pg - izero i" using True fb by linarith+
      then have l: "f - izero i - 1 < length (seg i pg)" by (simp add: length_seg)
      have "bok b (seg i pg)" using idx_okD(4) [OF assms(1), of i] fb True by (simp add: b_def)
      then have "aPgno b ! (f - izero i - 1) = pg ! (f - 1)" using bok_nth l seg_nth [OF l] fb by simp
      moreover have "pg ! (f - 1) \<in> set pg" using True assms(2) by simp
      ultimately have nz: "aPgno b ! (f - izero i - 1) \<noteq> 0" using idx_okD(1) [OF assms(1)] by metis
      have mx: "mxFrame (hdr w) = f - 1" using assms(4) True by blast
      have "walFramePage (f - 1) = i" by (rule framePage_unique) (use z fb in simp_all)
      then have "is_mapped (walFramePage (mxFrame (hdr w))) w" using assms(5) by (simp add: mx i_def)
      moreover have "mxFrame (hdr w) \<le> length pg" unfolding mx using True by linarith
      ultimately obtain B where B: "walCleanupHash w = Some (w\<lparr>blocks := B\<rparr>)" "idx_ok (w\<lparr>blocks := B\<rparr>) (take (f - 1) pg)"
        using walCleanupHash_ok [OF assms(1)] mx by auto
      have "bok (B i) (seg i (take (f - 1) pg))" using idx_okD(4) [OF B(2), of i] z True by simp
      with B nz show ?thesis by (intro exI [of _ B]) (simp add: w2 b_def)
    next
      case False
      then have f: "length pg = f - 1" using assms(3) by simp
      have bi: "bok b (seg i pg)" using idx_okD(4) [OF assms(1), of i] z f by (simp add: b_def)
      have "length (seg i pg) \<le> f - izero i - 1" "f - izero i - 1 < length (aPgno b)"
        using fb f sz by (simp_all add: length_seg)
      then have "aPgno b ! (f - izero i - 1) = 0" using bi unfolding bok_def by blast
      with f bi assms(1) show ?thesis by (intro exI [of _ "blocks w"]) (simp add: w2 b_def)
    qed
  qed
qed

text \<open>
  The precondition on \<open>mxFrame\<close> is for a log with entries beyond the frame, which a writer that died or rolled back without cleaning
  up has left.
\<close>

lemma walIndexAppend_eq:
  fixes f w1
  defines "i \<equiv> walFramePage f"
  defines "idx \<equiv> f - izero i"
  defines "b \<equiv> blocks w1 i"
  defines "w2 \<equiv> (if idx = 1 then set_block i (b\<lparr>aPgno := replicate (length (aPgno b)) 0, aHash := replicate (length (aHash b)) 0\<rparr>) w1 else w1)"
  assumes "walHashGet i w = (0, w1)" "idx \<noteq> 0" "idx \<le> length (aPgno (blocks w2 i))"
    "(if aPgno (blocks w2 i) ! (idx - 1) \<noteq> 0 then walCleanupHash w2 else Some w2) = Some w3"
    "probeFree (aHash (blocks w3 i)) (walHash p) idx = Some k"
  shows "walIndexAppend w f p = Some (0, set_block i ((blocks w3 i)\<lparr>aPgno := (aPgno (blocks w3 i))[idx - 1 := p],
      aHash := (aHash (blocks w3 i))[k := idx]\<rparr>) w3)"
proof -
  have "\<not> (idx = 0 \<or> length (aPgno (blocks w2 i)) < idx)" using assms(6,7) by simp
  then show ?thesis
    unfolding walIndexAppend_def i_def [symmetric] assms(5) Let_def prod.case idx_def [symmetric] b_def [symmetric] w2_def [symmetric]
    by (simp only: if_False not_True_eq_False simp_thms assms(8,9) Option.bind.simps option.case)
qed

lemma walIndexAppend_ok:
  assumes "idx_ok w pg" "0 < f" "f \<le> length pg + 1" "p \<noteq> 0" "f \<le> length pg \<Longrightarrow> mxFrame (hdr w) = f - 1"
  shows "\<exists>rc w'. walIndexAppend w f p = Some (rc, w') \<and>
    (rc = 0 \<and> idx_ok w' (take (f - 1) pg @ [p]) \<and> hdr w' = hdr w \<and> live w' = live w \<and> readLock w' = readLock w
       \<and> minFrame w' = minFrame w \<and> nCkpt w' = nCkpt w \<and> (False \<in> set (mapOk w') \<longrightarrow> False \<in> set (mapOk w)) \<and> is_mapped (walFramePage f) w'
     \<or> rc = 7 \<and> False \<in> set (mapOk w) \<and> same_index w w')"
proof -
  define i where "i = walFramePage f"
  define idx where "idx = f - izero i"
  have fb: "izero i < f" "f \<le> izero i + npage i" unfolding i_def by (rule framePage_bounds [OF assms(2)])+
  obtain rc w1 where g: "walHashGet i w = (rc, w1)" by fastforce
  note s1 = walHashGet_cases [OF g]
  show ?thesis
  proof (cases "rc = 0")
    case False
    with s1 g show ?thesis by (simp add: walIndexAppend_def i_def [symmetric])
  next
    case True
    have ok1: "idx_ok w1 pg" using s1 assms(1) idx_ok_same by blast
    have map1: "is_mapped i w1" using g True by (simp add: walHashGet_maps)
    have eq1: "hdr w1 = hdr w" "live w1 = live w" "readLock w1 = readLock w" "minFrame w1 = minFrame w" "nCkpt w1 = nCkpt w"
      "False \<in> set (mapOk w1) \<longrightarrow> False \<in> set (mapOk w)" using s1 by (simp_all add: same_index_def)
    define pg' where "pg' = take (f - 1) pg"
    have len': "length pg' = f - 1" using assms(3) by (simp add: pg'_def)
    define b where "b = blocks w1 i"
    define w2 where "w2 = (if idx = 1 then set_block i (b\<lparr>aPgno := replicate (length (aPgno b)) 0,
      aHash := replicate (length (aHash b)) 0\<rparr>) w1 else w1)"
    have "f \<le> length pg \<longrightarrow> mxFrame (hdr w1) = f - 1" using assms(5) eq1(1) by simp
    from append_ready [OF ok1 assms(2,3) this, folded i_def, OF map1]
    obtain B where B: "(if aPgno (blocks w2 i) ! (idx - 1) \<noteq> 0 then walCleanupHash w2 else Some w2) = Some (w1\<lparr>blocks := B\<rparr>)"
      "idx_ok (w1\<lparr>blocks := B\<rparr>) pg'" "bok (B i) (seg i pg')"
      unfolding w2_def b_def idx_def pg'_def by blast
    define w3 where "w3 = w1\<lparr>blocks := B\<rparr>"
    obtain k where k: "probeFree (aHash (B i)) (walHash p) idx = Some k"
      "idx_ok (set_block i ((B i)\<lparr>aPgno := (aPgno (B i))[idx - 1 := p], aHash := (aHash (B i))[k := idx]\<rparr>) w3) (pg' @ [p])"
      using append_block [of w3 pg' f p] B(2,3) len' assms(2,4) by (auto simp: w3_def i_def idx_def)
    define w4 where "w4 = set_block i ((B i)\<lparr>aPgno := (aPgno (B i))[idx - 1 := p], aHash := (aHash (B i))[k := idx]\<rparr>) w3"
    have len2: "length (aPgno (blocks w2 i)) = npage i" using idx_okD(2) [OF ok1, of i] by (simp add: w2_def b_def set_block_def)
    have "idx \<noteq> 0" "idx \<le> npage i" using fb by (simp_all add: idx_def)
    then have "walIndexAppend w f p = Some (0, w4)"
      using walIndexAppend_eq [of f w w1 w3 p k, folded i_def, folded idx_def, folded b_def, folded w2_def] g True B(1) k(1) len2
      by (simp add: w4_def w3_def)
    moreover have "is_mapped i w4" using map1 by (simp add: w4_def w3_def set_block_def is_mapped_def)
    ultimately show ?thesis using k(2) eq1 by (auto simp: w4_def w3_def set_block_def i_def pg'_def)
  qed
qed

text \<open>All but the blocks and the mappings.\<close>

definition same_state :: "wal \<Rightarrow> wal \<Rightarrow> bool" where
  "same_state w w' \<longleftrightarrow> hdr w' = hdr w \<and> live w' = live w \<and> readLock w' = readLock w
     \<and> minFrame w' = minFrame w \<and> nCkpt w' = nCkpt w \<and> (False \<in> set (mapOk w') \<longrightarrow> False \<in> set (mapOk w))"

lemma same_state_refl [simp]: "same_state w w"
  by (simp add: same_state_def)

lemma same_state_trans: "same_state w w' \<Longrightarrow> same_state w' w'' \<Longrightarrow> same_state w w''"
  by (simp add: same_state_def)

lemma same_index_state: "same_index w w' \<Longrightarrow> same_state w w'"
  by (simp add: same_index_def same_state_def)

lemma walIndexAppend_good:
  assumes "idx_ok w pg" "0 < f" "f \<le> length pg + 1" "p \<noteq> 0" "f \<le> length pg \<longrightarrow> mxFrame (hdr w) = f - 1" "False \<notin> set (mapOk w)"
  shows "\<exists>w'. walIndexAppend w f p = Some (0, w') \<and> idx_ok w' (take (f - 1) pg @ [p]) \<and> same_state w w'"
  using walIndexAppend_ok [of w pg f p] assms by (auto simp: same_state_def)

lemma appendFrames_good:
  assumes "idx_ok w pg" "f \<le> length pg" "0 \<notin> set ps" "f < length pg \<longrightarrow> mxFrame (hdr w) = f" "False \<notin> set (mapOk w)"
  shows "\<exists>w'. appendFrames w f ps = Some (0, f + length ps, w') \<and> same_state w w'
    \<and> idx_ok w' (if ps = [] then pg else take f pg @ ps)"
  using assms
proof (induction ps arbitrary: w pg f)
  case Nil
  then show ?case by simp
next
  case (Cons p ps)
  have "p \<noteq> 0" using Cons.prems(3) by auto
  then obtain w1 where w1: "walIndexAppend w (f + 1) p = Some (0, w1)" "idx_ok w1 (take f pg @ [p])" "same_state w w1"
    using walIndexAppend_good [of w pg "f + 1" p] Cons.prems by auto
  have "length (take f pg @ [p]) = f + 1" using Cons.prems(2) by simp
  moreover have "False \<notin> set (mapOk w1)" using w1(3) Cons.prems(5) by (auto simp: same_state_def)
  ultimately obtain w2 where "appendFrames w1 (f + 1) ps = Some (0, f + 1 + length ps, w2)" "same_state w1 w2"
    "idx_ok w2 (if ps = [] then take f pg @ [p] else take (f + 1) (take f pg @ [p]) @ ps)"
    using Cons.IH [OF w1(2), of "f + 1"] Cons.prems(3) by auto
  moreover have "(if ps = [] then take f pg @ [p] else take (f + 1) (take f pg @ [p]) @ ps) = take f pg @ p # ps"
    using Cons.prems(2) by simp
  ultimately show ?case using w1(1) same_state_trans [OF w1(3)] by auto
qed

declare appendFrames.simps [simp del]

lemma walCleanupHash_good:
  assumes "idx_ok w pg" "mxFrame (hdr w) \<le> length pg" "False \<notin> set (mapOk w)"
  shows "\<exists>w'. walCleanupHash w = Some w' \<and> idx_ok w' (take (mxFrame (hdr w)) pg) \<and> same_state w w'"
proof (cases "mxFrame (hdr w) = 0")
  case True
  with walCleanupHash_ok [OF assms(1,2)] show ?thesis by (auto simp: same_state_def)
next
  case False
  define i where "i = walFramePage (mxFrame (hdr w))"
  obtain w1 where w1: "walHashGet i w = (0, w1)" "same_index w w1" using walHashGet_ok [OF assms(3)] by blast
  have h: "hdr w1 = hdr w" using w1(2) by (simp add: same_index_def)
  have m: "is_mapped i w1" using w1(1) by (rule walHashGet_maps)
  have "walCleanupHash w = walCleanupHash w1"
    using w1(1) walHashGet_mapped [OF m] False by (simp add: walCleanupHash_def h i_def Let_def)
  moreover have "idx_ok w1 pg" using idx_ok_same [OF w1(2)] assms(1) by blast
  then have "\<exists>B. walCleanupHash w1 = Some (w1\<lparr>blocks := B\<rparr>) \<and> idx_ok (w1\<lparr>blocks := B\<rparr>) (take (mxFrame (hdr w)) pg)"
    using walCleanupHash_ok [of w1 pg] assms(2) m by (simp add: h i_def)
  ultimately show ?thesis using same_index_state [OF w1(2)] by (auto simp: same_state_def)
qed

lemma walFramePgno_ok:
  assumes "idx_ok w pg" "0 < f" "f \<le> length pg"
  shows "walFramePgno w f = Some (pg ! (f - 1))"
proof -
  define i where "i = walFramePage f"
  have fb: "izero i < f" "f \<le> izero i + npage i" unfolding i_def by (rule framePage_bounds [OF assms(2)])+
  define j where "j = f - izero i - 1"
  have "(if i = 0 then f - 1 else (f - 1 - HASHTABLE_NPAGE_ONE) mod HASHTABLE_NPAGE) = j"
  proof (cases i)
    case 0
    then show ?thesis by (simp add: j_def izero_def)
  next
    case (Suc k)
    have z: "izero i = HASHTABLE_NPAGE_ONE + k * HASHTABLE_NPAGE" "npage i = HASHTABLE_NPAGE" using Suc by (simp_all add: izero_def npage_def)
    have "f - 1 - HASHTABLE_NPAGE_ONE = k * HASHTABLE_NPAGE + j" "j < HASHTABLE_NPAGE" unfolding j_def using fb z by linarith+
    then show ?thesis using Suc by simp
  qed
  moreover have "j < npage i" "j < length pg - izero i" unfolding j_def using fb assms(3) by linarith+
  then have "j < length (seg i pg)" by (simp add: length_seg)
  moreover have "bok (blocks w i) (seg i pg)" using idx_okD(4) [OF assms(1), of i] fb assms(3) by simp
  ultimately have "aPgno (blocks w i) ! j = pg ! (f - 1)" "j < length (aPgno (blocks w i))"
    using bok_nth [of "blocks w i" "seg i pg" j] seg_nth [of j i pg] fb(1) idx_okD(2) [OF assms(1), of i] \<open>j < npage i\<close> by (simp_all add: j_def)
  then show ?thesis using \<open>(if i = 0 then _ else _) = j\<close> by (simp add: walFramePgno_def i_def [symmetric] Let_def)
qed

lemma idx_ok_hdr [simp]: "idx_ok (w\<lparr>hdr := h\<rparr>) pg \<longleftrightarrow> idx_ok w pg"
  by (simp add: idx_ok_def)

subsection \<open>A new connection\<close>

text \<open>The zero-filled memory of a new wal-index.\<close>

definition wal_init :: "nat \<Rightarrow> nat \<Rightarrow> wal" where
  "wal_init mx lv =
     (let h = (\<lambda>m. \<lparr>iChange = 0, isInit = True, bigEndCksum = False, szPageHdr = 4096, mxFrame = m, nPage = 0, aFrameCksum = (0, 0), aSalt = []\<rparr>)
      in \<lparr>hdr = h mx, live = h lv, blocks = (\<lambda>i. \<lparr>aPgno = replicate (npage i) 0, aHash = replicate HASHTABLE_NSLOT 0\<rparr>),
          nWiData = 0, apWiData = (\<lambda>_. False), mapOk = [], readLock = 1, minFrame = 1, nCkpt = 0\<rparr>)"

lemma wal_init_ok: "idx_ok (wal_init mx lv) []"
  by (simp add: idx_ok_def wal_init_def Let_def)

lemma wal_init_simps [simp]:
  "mxFrame (hdr (wal_init mx lv)) = mx" "mxFrame (live (wal_init mx lv)) = lv" "readLock (wal_init mx lv) = 1"
  "minFrame (wal_init mx lv) = 1" "mapOk (wal_init mx lv) = []" "nCkpt (wal_init mx lv) = 0"
  by (simp_all add: wal_init_def Let_def)

lemma wal_init_append:
  assumes "0 \<notin> set ps" "n = length ps"
  shows "\<exists>w. appendFrames (wal_init mx lv) 0 ps = Some (0, n, w) \<and> idx_ok w ps \<and> same_state (wal_init mx lv) w"
  using appendFrames_good [OF wal_init_ok, of 0 ps mx lv] assms by (auto split: if_splits)

lemma wal_init_state:
  assumes "same_state (wal_init mx lv) w"
  shows "mxFrame (hdr w) = mx" "mxFrame (live w) = lv" "readLock w = 1" "minFrame w = 1" "False \<notin> set (mapOk w)"
  using assms by (auto simp: same_state_def)

lemma FindFrame_good:
  assumes "idx_ok w pg" "mxFrame (hdr w) \<le> length pg" "readLock w \<noteq> 0" "False \<notin> set (mapOk w)"
  shows "\<exists>w'. sqlite3WalFindFrame w p = Some (0, lastFrame pg p (minFrame w) (mxFrame (hdr w)), w')"
  using FindFrame_ok [OF assms(1,2), of p] assms(3,4) by auto

lemma lastFrame_take: "hi \<le> n \<Longrightarrow> lastFrame (take n pg) p iMin hi = lastFrame pg p iMin hi"
  by (induction hi) simp_all

section \<open>Properties\<close>

text \<open>C26. The search through the hash tables finds what the linear search that the assertions of the code compare with finds: the last
  frame of the page among those that the reader may see, or 0, in every state of the index that appending, undoing and cleaning up
  can make (\<open>idx_ok\<close>), also with entries beyond \<open>mxFrame\<close>. The limit on the length of a probe sequence never stops it.
\<close>

theorem sqlite3WalFindFrame_linear:
  assumes "idx_ok w pg" "mxFrame (hdr w) \<le> length pg" "readLock w \<noteq> 0" "False \<notin> set (mapOk w)"
  shows "\<exists>w'. sqlite3WalFindFrame w p = Some (0, lastFrame pg p (minFrame w) (mxFrame (hdr w)), w') \<and> same_index w w'"
  using FindFrame_ok [OF assms(1,2), of p] assms(3,4) by auto

lemma FindFrame_linear_witness:
  "\<exists>w w'. appendFrames (wal_init 2 0) 0 [5, 7, 5] = Some (0, 3, w) \<and> sqlite3WalFindFrame w 5 = Some (0, 1, w')"
proof -
  have "0 \<notin> set [5, 7, 5 :: u32]" "3 = length [5, 7, 5 :: u32]" by simp_all
  from wal_init_append [OF this, of 2 0] obtain w
    where w: "appendFrames (wal_init 2 0) 0 [5, 7, 5] = Some (0, 3, w)" "idx_ok w [5, 7, 5]" "same_state (wal_init 2 0) w" by blast
  have "lastFrame [5, 7, 5] 5 1 2 = 1" by (simp add: numeral_2_eq_2)
  then show ?thesis using sqlite3WalFindFrame_linear [OF w(2), of 5] w(1) wal_init_state [OF w(3)] by auto
qed

text \<open>C6. Appending the frames of a write and publishing the new \<open>mxFrame\<close> never fails with \<open>SQLITE_CORRUPT\<close>, overwrites what an
  earlier writer left beyond \<open>mxFrame\<close>, and readers find for each page the last frame of the log so extended.
\<close>

theorem append_then_find:
  assumes "idx_ok w pg" "mxFrame (hdr w) \<le> length pg" "ps \<noteq> []" "0 \<notin> set ps" "readLock w \<noteq> 0" "False \<notin> set (mapOk w)"
  defines "n \<equiv> mxFrame (hdr w) + length ps"
  shows "\<exists>w1 w2. appendFrames w (mxFrame (hdr w)) ps = Some (0, n, w1)
    \<and> sqlite3WalFindFrame (w1\<lparr>hdr := (hdr w1)\<lparr>mxFrame := n\<rparr>\<rparr>) p = Some (0, lastFrame (take (mxFrame (hdr w)) pg @ ps) p (minFrame w) n, w2)"
proof -
  obtain w1 where w1: "appendFrames w (mxFrame (hdr w)) ps = Some (0, n, w1)" "same_state w w1" "idx_ok w1 (take (mxFrame (hdr w)) pg @ ps)"
    using appendFrames_good [OF assms(1,2,4)] assms(3,6) by (auto simp: n_def)
  define w1' where "w1' = w1\<lparr>hdr := (hdr w1)\<lparr>mxFrame := n\<rparr>\<rparr>"
  have "idx_ok w1' (take (mxFrame (hdr w)) pg @ ps)" using w1(3) by (simp add: w1'_def)
  moreover have "mxFrame (hdr w1') \<le> length (take (mxFrame (hdr w)) pg @ ps)" using assms(2) by (simp add: w1'_def n_def)
  moreover have "readLock w1' \<noteq> 0" "False \<notin> set (mapOk w1')" "minFrame w1' = minFrame w" "mxFrame (hdr w1') = n"
    using w1(2) assms(5,6) by (auto simp: w1'_def same_state_def)
  ultimately show ?thesis using FindFrame_good [of w1' _ p] w1(1) by (auto simp: w1'_def)
qed

lemma append_then_find_witness:
  "\<exists>w w1 w2. appendFrames (wal_init 1 0) 0 [5, 7] = Some (0, 2, w) \<and> appendFrames w 1 [8, 5] = Some (0, 3, w1)
    \<and> sqlite3WalFindFrame (w1\<lparr>hdr := (hdr w1)\<lparr>mxFrame := 3\<rparr>\<rparr>) 5 = Some (0, 3, w2)"
proof -
  have "0 \<notin> set [5, 7 :: u32]" "2 = length [5, 7 :: u32]" by simp_all
  from wal_init_append [OF this, of 1 0] obtain w
    where w: "appendFrames (wal_init 1 0) 0 [5, 7] = Some (0, 2, w)" "idx_ok w [5, 7]" "same_state (wal_init 1 0) w" by blast
  note st = wal_init_state [OF w(3)]
  have lf: "lastFrame (take 1 [5, 7] @ [8, 5]) 5 1 3 = 3" by (simp add: numeral_3_eq_3)
  have len: "(1 :: nat) + length [8, 5 :: u32] = 3" by simp
  have c: "mxFrame (hdr w) \<le> length [5, 7 :: u32]" "[8, 5 :: u32] \<noteq> []" "0 \<notin> set [8, 5 :: u32]" "readLock w \<noteq> 0"
    using st by simp_all
  from append_then_find [OF w(2) c st(5), of 5, unfolded st(1,4) len lf] w(1) show ?thesis by blast
qed

lemma sqlite3WalUndo_ok:
  assumes "idx_ok w pg" "mxFrame (hdr w) \<le> length pg" "mxFrame (live w) \<le> mxFrame (hdr w)" "False \<notin> set (mapOk w)"
  shows "\<exists>w'. sqlite3WalUndo w = Some (take (mxFrame (hdr w) - mxFrame (live w)) (drop (mxFrame (live w)) pg), w')
    \<and> same_state (w\<lparr>hdr := live w\<rparr>) w' \<and> idx_ok w' (if mxFrame (live w) = mxFrame (hdr w) then pg else take (mxFrame (live w)) pg)"
proof -
  define lv where "lv = mxFrame (live w)"
  define mx where "mx = mxFrame (hdr w)"
  define w1 where "w1 = w\<lparr>hdr := live w\<rparr>"
  have ok: "idx_ok w1 pg" using assms(1) by (simp add: w1_def)
  have nth: "walFramePgno w1 f = Some (pg ! (f - 1))" if "f \<in> {lv + 1..<mx + 1}" for f
    using walFramePgno_ok [OF ok, of f] that assms(2) by (simp add: mx_def)
  then have pages: "map (walFramePgno w1) [lv + 1..<mx + 1] = map (\<lambda>f. Some (pg ! (f - 1))) [lv + 1..<mx + 1]"
    by (intro map_cong refl) (simp del: upt_Suc)
  have eq: "map (\<lambda>f. pg ! (f - 1)) [lv + 1..<mx + 1] = take (mx - lv) (drop lv pg)"
    using assms(2,3) by (intro nth_equalityI) (simp_all add: mx_def lv_def del: upt_Suc)
  have hd1: "mxFrame (hdr w1) = lv" by (simp add: w1_def lv_def)
  have "False \<notin> set (mapOk w1)" "lv \<le> length pg" using assms(2-4) by (simp_all add: w1_def lv_def)
  then obtain w' where w': "walCleanupHash w1 = Some w'" "idx_ok w' (take lv pg)" "same_state w1 w'"
    using walCleanupHash_good [OF ok] hd1 by auto
  have "None \<notin> set (map (walFramePgno w1) [lv + 1..<mx + 1])" unfolding pages by auto
  moreover have "map the (map (walFramePgno w1) [lv + 1..<mx + 1]) = take (mx - lv) (drop lv pg)"
    unfolding pages eq [symmetric] by simp
  ultimately have "sqlite3WalUndo w = Some (take (mx - lv) (drop lv pg), if lv = mx then w1 else w')"
    using assms(3) w'(1) unfolding sqlite3WalUndo_def Let_def w1_def [symmetric] hd1 mx_def [symmetric]
    by (simp add: lv_def mx_def del: upt_Suc)
  moreover have "same_state w1 (if lv = mx then w1 else w') \<and> idx_ok (if lv = mx then w1 else w') (if lv = mx then pg else take lv pg)"
    using ok w'(2,3) by simp
  ultimately show ?thesis unfolding lv_def mx_def w1_def by blast
qed

text \<open>A rollback takes the header of the last commit again, invalidates exactly the pages of the frames written since, and removes
  them from the index.
\<close>

theorem sqlite3WalUndo_restores:
  assumes "idx_ok w pg" "mxFrame (hdr w) \<le> length pg" "mxFrame (live w) < mxFrame (hdr w)" "False \<notin> set (mapOk w)"
  shows "\<exists>w'. sqlite3WalUndo w = Some (take (mxFrame (hdr w) - mxFrame (live w)) (drop (mxFrame (live w)) pg), w')
    \<and> hdr w' = live w \<and> idx_ok w' (take (mxFrame (live w)) pg)"
  using sqlite3WalUndo_ok [OF assms(1,2) _ assms(4)] assms(3) by (auto simp: same_state_def)

lemma sqlite3WalUndo_witness:
  "\<exists>w w'. appendFrames (wal_init 3 1) 0 [5, 7, 5] = Some (0, 3, w) \<and> sqlite3WalUndo w = Some ([7, 5], w') \<and> idx_ok w' [5]"
proof -
  have "0 \<notin> set [5, 7, 5 :: u32]" "3 = length [5, 7, 5 :: u32]" by simp_all
  from wal_init_append [OF this, of 3 1] obtain w
    where w: "appendFrames (wal_init 3 1) 0 [5, 7, 5] = Some (0, 3, w)" "idx_ok w [5, 7, 5]" "same_state (wal_init 3 1) w" by blast
  show ?thesis using sqlite3WalUndo_restores [OF w(2)] w(1) wal_init_state [OF w(3)] by auto
qed

text \<open>C25. Rolling back to a savepoint after more frames have been appended restores the header and every search finds again what it
  found when the savepoint was opened.
\<close>

theorem savepoint_rollback:
  assumes "idx_ok w pg" "mxFrame (hdr w) \<le> length pg" "ps \<noteq> []" "0 \<notin> set ps" "readLock w \<noteq> 0" "False \<notin> set (mapOk w)"
  shows "\<exists>w1 w2 w3 w4 f. appendFrames w (mxFrame (hdr w)) ps = Some (0, mxFrame (hdr w) + length ps, w1)
    \<and> sqlite3WalSavepointUndo (w1\<lparr>hdr := (hdr w1)\<lparr>mxFrame := mxFrame (hdr w) + length ps, aFrameCksum := ck\<rparr>\<rparr>) (sqlite3WalSavepoint w)
        = Some (sqlite3WalSavepoint w, w2)
    \<and> hdr w2 = hdr w \<and> sqlite3WalFindFrame w2 p = Some (0, f, w3) \<and> sqlite3WalFindFrame w p = Some (0, f, w4)"
proof -
  define mx where "mx = mxFrame (hdr w)"
  obtain w1 where w1: "appendFrames w mx ps = Some (0, mx + length ps, w1)" "same_state w w1" "idx_ok w1 (take mx pg @ ps)"
    using appendFrames_good [OF assms(1,2,4)] assms(3,6) by (auto simp: mx_def)
  define v where "v = w1\<lparr>hdr := hdr w\<rparr>"
  have hv: "mxFrame (hdr v) = mx" by (simp add: v_def mx_def)
  have "idx_ok v (take mx pg @ ps)" using w1(3) by (simp add: v_def)
  moreover have "mxFrame (hdr v) \<le> length (take mx pg @ ps)" using assms(2) by (simp add: v_def mx_def)
  moreover have "False \<notin> set (mapOk v)" using w1(2) assms(6) by (auto simp: v_def same_state_def)
  ultimately obtain w2 where w2: "walCleanupHash v = Some w2" "idx_ok w2 (take mx (take mx pg @ ps))" "same_state v w2"
    using walCleanupHash_good [of v] unfolding hv by blast
  have len: "length (take mx pg) = mx" using assms(2) by (simp add: mx_def)
  then have ok2: "idx_ok w2 (take mx pg)" using w2(2) by simp
  have s2: "hdr w2 = hdr w" "minFrame w2 = minFrame w" "readLock w2 = readLock w" "False \<notin> set (mapOk w2)"
    using w2(3) w1(2) assms(6) by (auto simp: v_def same_state_def)
  have "w1\<lparr>hdr := (hdr w1)\<lparr>mxFrame := mx, aFrameCksum := aFrameCksum (hdr w)\<rparr>\<rparr> = v"
    using w1(2) by (simp add: v_def mx_def same_state_def)
  then have "sqlite3WalSavepointUndo (w1\<lparr>hdr := (hdr w1)\<lparr>mxFrame := mx + length ps, aFrameCksum := ck\<rparr>\<rparr>) (sqlite3WalSavepoint w)
      = Some (sqlite3WalSavepoint w, w2)"
    using w1(2) w2(1) assms(3) by (simp add: sqlite3WalSavepointUndo_def sqlite3WalSavepoint_def mx_def [symmetric] same_state_def Let_def)
  moreover obtain w3 where "sqlite3WalFindFrame w2 p = Some (0, lastFrame (take mx pg) p (minFrame w) mx, w3)"
    using FindFrame_good [OF ok2, of p] s2 len assms(2,5) by (auto simp: mx_def)
  moreover obtain w4 where "sqlite3WalFindFrame w p = Some (0, lastFrame pg p (minFrame w) mx, w4)"
    using FindFrame_good [OF assms(1,2,5,6), of p] by (auto simp: mx_def)
  ultimately show ?thesis using w1(1) s2(1) lastFrame_take [of mx mx pg p "minFrame w"]
    by (intro exI [of _ w1] exI [of _ w2] exI [of _ w3] exI [of _ w4] exI [of _ "lastFrame pg p (minFrame w) mx"]) (simp add: mx_def)
qed

lemma savepoint_rollback_witness:
  "\<exists>w w1 w2 w3. appendFrames (wal_init 2 0) 0 [5, 7] = Some (0, 2, w) \<and> appendFrames w 2 [5, 8] = Some (0, 4, w1)
    \<and> sqlite3WalSavepointUndo (w1\<lparr>hdr := (hdr w1)\<lparr>mxFrame := 4, aFrameCksum := (9, 9)\<rparr>\<rparr>) (sqlite3WalSavepoint w) = Some (sqlite3WalSavepoint w, w2)
    \<and> (\<exists>f w4. sqlite3WalFindFrame w2 5 = Some (0, f, w3) \<and> sqlite3WalFindFrame w 5 = Some (0, f, w4))"
proof -
  have "0 \<notin> set [5, 7 :: u32]" "2 = length [5, 7 :: u32]" by simp_all
  from wal_init_append [OF this, of 2 0] obtain w
    where w: "appendFrames (wal_init 2 0) 0 [5, 7] = Some (0, 2, w)" "idx_ok w [5, 7]" "same_state (wal_init 2 0) w" by blast
  note st = wal_init_state [OF w(3)]
  have len: "(2 :: nat) + length [5, 8 :: u32] = 4" by simp
  have c: "mxFrame (hdr w) \<le> length [5, 7 :: u32]" "[5, 8 :: u32] \<noteq> []" "0 \<notin> set [5, 8 :: u32]" "readLock w \<noteq> 0"
    using st by simp_all
  from savepoint_rollback [OF w(2) c st(5), of "(9, 9)" 5, unfolded st(1) len] w(1) show ?thesis by blast
qed

end
