(* ===== verification/WalLog.thy ===== *)
theory WalLog
  imports WalChecksum WalIndex
begin

text \<open>
  The file of the write-ahead log (wal.c): its header, the frames with their running checksum, writing the pages of a transaction
  and recovery after a crash.

  \<open>be\<close> says whether the processor is big-endian. The file is a list of bytes. Each call of the operating system, allocation of a buffer and request for a lock takes the next outcome from
  \<open>osRc\<close>, a result code (0 once the list is empty) and the number of bytes that a failing write still transfers. Offsets are natural numbers.
\<close>

section \<open>State\<close>

definition WAL_FRAME_HDRSIZE :: nat where "WAL_FRAME_HDRSIZE = 24"
definition WAL_HDRSIZE :: nat where "WAL_HDRSIZE = 32"
definition WAL_MAGIC :: u32 where "WAL_MAGIC = 0x377f0682"
definition WAL_MAX_VERSION :: u32 where "WAL_MAX_VERSION = 3007000"
definition WAL_NREADER :: nat where "WAL_NREADER = 8 - 3"
definition READMARK_NOT_USED :: nat where "READMARK_NOT_USED = 0xffffffff"

definition walFrameOffset :: "nat \<Rightarrow> nat \<Rightarrow> nat" where
  "walFrameOffset iFrame szPage = WAL_HDRSIZE + (iFrame - 1) * (szPage + WAL_FRAME_HDRSIZE)"

record ckptinfo =
  nBackfill :: nat
  aReadMark :: "nat list"
  nBackfillAttempted :: nat

text \<open>The wal-index and the fields of \<open>Wal\<close> that concern the file.\<close>

record wallog =
  ix :: wal
  szPage :: nat
  iReCksum :: nat
  truncateOnCommit :: bool
  syncHeader :: bool
  padToSectorBoundary :: bool
  mxWalSize :: int
  ckpt :: ckptinfo
  pWalFd :: "u8 list"
  osRc :: "(nat \<times> nat) list"

definition whdr :: "wallog \<Rightarrow> walhdr" where
  "whdr w = hdr (ix w)"

definition set_whdr :: "walhdr \<Rightarrow> wallog \<Rightarrow> wallog" where
  "set_whdr h w = w\<lparr>ix := (ix w)\<lparr>hdr := h\<rparr>\<rparr>"

section \<open>The file\<close>

fun osCall :: "wallog \<Rightarrow> nat \<times> nat \<times> wallog" where
  "osCall w = (case osRc w of [] \<Rightarrow> (0, 0, w) | (rc, n) # os \<Rightarrow> (rc, n, w\<lparr>osRc := os\<rparr>))"

definition putAt :: "u8 list \<Rightarrow> nat \<Rightarrow> u8 list \<Rightarrow> u8 list" where
  "putAt f off bs = (if bs = [] then f else take off f @ replicate (off - length f) 0 @ bs @ drop (off + length bs) f)"

definition sqlite3OsWrite :: "u8 list \<Rightarrow> nat \<Rightarrow> wallog \<Rightarrow> nat \<times> wallog" where
  "sqlite3OsWrite bs off w =
     (let (rc, n, w) = osCall w in
      if rc = 0 then (0, w\<lparr>pWalFd := putAt (pWalFd w) off bs\<rparr>)
      else (rc, w\<lparr>pWalFd := putAt (pWalFd w) off (take n bs)\<rparr>))"

text \<open>522 is \<open>SQLITE_IOERR_SHORT_READ\<close>, after which the rest of the buffer is zero. After another error the buffer is not read.\<close>

definition sqlite3OsRead :: "nat \<Rightarrow> nat \<Rightarrow> wallog \<Rightarrow> nat \<times> u8 list \<times> wallog" where
  "sqlite3OsRead amt off w =
     (let (rc, n, w) = osCall w;
          bs = take amt (drop off (pWalFd w));
          bs = bs @ replicate (amt - length bs) 0
      in (if rc = 0 \<and> length (pWalFd w) < off + amt then 522 else rc, bs, w))"

definition sqlite3OsSync :: "wallog \<Rightarrow> nat \<times> wallog" where
  "sqlite3OsSync w = (let (rc, n, w) = osCall w in (rc, w))"

section \<open>Reading a frame\<close>

text \<open>The field of the header holds the page size in 16 bits, 65536 as 1.\<close>

definition sqlite3WalReadFrame :: "wallog \<Rightarrow> nat \<Rightarrow> nat \<Rightarrow> nat \<times> u8 list \<times> wallog" where
  "sqlite3WalReadFrame w iRead nOut =
     (let sz = ucast (szPageHdr (whdr w)) :: u32;
          sz = unat ((sz AND 0xfe00) + push_bit 16 (sz AND 1));
          iOffset = walFrameOffset iRead sz + WAL_FRAME_HDRSIZE
      in sqlite3OsRead (if nOut > sz then sz else nOut) iOffset w)"

text \<open>How the pager reads a page: from the frame that holds it, or (\<^term>\<open>Some None\<close>) from the database file.\<close>

definition walPage :: "wallog \<Rightarrow> nat \<Rightarrow> u32 \<Rightarrow> u8 list option option" where
  "walPage w pgsz pgno = do {
     (rc, iFrame, i) \<leftarrow> sqlite3WalFindFrame (ix w) pgno;
     if rc \<noteq> 0 then None
     else if iFrame \<noteq> 0 then (let (rc, pData, w) = sqlite3WalReadFrame (w\<lparr>ix := i\<rparr>) iFrame pgsz in if rc = 0 then Some (Some pData) else None)
     else Some None
   }"

section \<open>Frames\<close>

text \<open>The header of a frame; the running checksum in \<open>hdr\<close> covers it.\<close>

definition walEncodeFrame :: "bool \<Rightarrow> wallog \<Rightarrow> u32 \<Rightarrow> u32 \<Rightarrow> u8 list \<Rightarrow> (u8 list \<times> wallog) option" where
  "walEncodeFrame be w iPage nTruncate aData =
     (let aFrame = sqlite3Put4byte iPage @ sqlite3Put4byte nTruncate in
      if iReCksum w = 0 then do {
        let nativeCksum = (bigEndCksum (whdr w) = be);
        aCksum \<leftarrow> walChecksumBytes be nativeCksum aFrame (Some (aFrameCksum (whdr w)));
        aCksum \<leftarrow> (if szPage w \<le> length aData
                   then walChecksumBytes be nativeCksum (take (szPage w) aData) (Some aCksum) else None);
        Some (aFrame @ aSalt (whdr w) @ sqlite3Put4byte (fst aCksum) @ sqlite3Put4byte (snd aCksum),
              set_whdr ((whdr w)\<lparr>aFrameCksum := aCksum\<rparr>) w)
      }
      else Some (aFrame @ replicate 16 0, w))"

text \<open>The result is the page and the size for a commit, or \<^term>\<open>None\<close> for an invalid frame. The running checksum may change also then.\<close>

definition walDecodeFrame :: "bool \<Rightarrow> wallog \<Rightarrow> u8 list \<Rightarrow> u8 list \<Rightarrow> ((u32 \<times> u32) option \<times> wallog) option" where
  "walDecodeFrame be w aData aFrame =
     (if aSalt (whdr w) \<noteq> take 8 (drop 8 aFrame) then Some (None, w)
      else do {
        pgno \<leftarrow> get4 aFrame 0;
        if pgno = 0 then Some (None, w)
        else do {
          let nativeCksum = (bigEndCksum (whdr w) = be);
          aCksum \<leftarrow> walChecksumBytes be nativeCksum (take 8 aFrame) (Some (aFrameCksum (whdr w)));
          aCksum \<leftarrow> (if szPage w \<le> length aData
                     then walChecksumBytes be nativeCksum (take (szPage w) aData) (Some aCksum) else None);
          let w = set_whdr ((whdr w)\<lparr>aFrameCksum := aCksum\<rparr>) w;
          c1 \<leftarrow> get4 aFrame 16;
          c2 \<leftarrow> get4 aFrame 20;
          nTruncate \<leftarrow> get4 aFrame 4;
          Some (if fst aCksum \<noteq> c1 \<or> snd aCksum \<noteq> c2 then None else Some (pgno, nTruncate), w)
        }
      })"

section \<open>Recovery\<close>

definition pageSize16 :: "nat \<Rightarrow> u16" where
  "pageSize16 sz = ucast (((of_nat sz :: u32) AND 0xff00) OR drop_bit 16 (of_nat sz))"

definition walIndexWriteHdr :: "wallog \<Rightarrow> wallog" where
  "walIndexWriteHdr w =
     (let h = (whdr w)\<lparr>isInit := True\<rparr>
      in w\<lparr>ix := (ix w)\<lparr>hdr := h, live := h\<rparr>\<rparr>)"

text \<open>
  The loop over the frames; \<open>ck\<close> is the checksum of the last commit. Its results are the result code, that checksum and the state.
\<close>

function recoverLoop :: "bool \<Rightarrow> nat \<Rightarrow> nat \<Rightarrow> wallog \<Rightarrow> nat \<Rightarrow> nat \<Rightarrow> u32 \<times> u32 \<Rightarrow> (nat \<times> (u32 \<times> u32) \<times> wallog) option" where
  "recoverLoop be nSize szPg w iFrame iOffset ck =
     (if iOffset + (szPg + WAL_FRAME_HDRSIZE) \<le> nSize then do {
        let iFrame = iFrame + 1;
        let (rc, aFrame, w) = sqlite3OsRead (szPg + WAL_FRAME_HDRSIZE) iOffset w;
        if rc \<noteq> 0 then Some (rc, ck, w)
        else do {
          (isValid, w) \<leftarrow> walDecodeFrame be w (drop WAL_FRAME_HDRSIZE aFrame) aFrame;
          (case isValid of
             None \<Rightarrow> Some (0, ck, w)
           | Some (pgno, nTruncate) \<Rightarrow> do {
               (rc, i) \<leftarrow> walIndexAppend (ix w) iFrame pgno;
               let w = w\<lparr>ix := i\<rparr>;
               if rc \<noteq> 0 then Some (rc, ck, w)
               else do {
                 let (w, ck) = (if nTruncate \<noteq> 0
                   then (set_whdr ((whdr w)\<lparr>mxFrame := iFrame, nPage := nTruncate, szPageHdr := pageSize16 szPg\<rparr>) w, aFrameCksum (whdr w))
                   else (w, ck));
                 recoverLoop be nSize szPg w iFrame (iOffset + (szPg + WAL_FRAME_HDRSIZE)) ck
               }
             })
        }
      }
      else Some (0, ck, w))"
  by pat_completeness auto
termination
  by (relation "measure (\<lambda>(be, nSize, szPg, w, iFrame, iOffset, ck). nSize - iOffset)") (auto simp: WAL_FRAME_HDRSIZE_def)

declare recoverLoop.simps [simp del]

definition recoverFinish :: "u32 \<times> u32 \<Rightarrow> wallog \<Rightarrow> wallog" where
  "recoverFinish ck w =
     (let w = walIndexWriteHdr (set_whdr ((whdr w)\<lparr>aFrameCksum := ck\<rparr>) w);
          mx = mxFrame (whdr w)
      in w\<lparr>ckpt := \<lparr>nBackfill = 0,
            aReadMark = 0 # (if mx \<noteq> 0 then mx else READMARK_NOT_USED) # replicate (WAL_NREADER - 2) READMARK_NOT_USED,
            nBackfillAttempted = mx\<rparr>\<rparr>)"

definition zeroHdr :: walhdr where
  "zeroHdr = \<lparr>iChange = 0, isInit = False, bigEndCksum = False, szPageHdr = 0, mxFrame = 0, nPage = 0, aFrameCksum = (0, 0), aSalt = replicate 8 0\<rparr>"

text \<open>From the header of the file to the label \<open>finished\<close>. The first component says whether the code there is reached.\<close>

definition recoverLog :: "bool \<Rightarrow> nat \<Rightarrow> wallog \<Rightarrow> (bool \<times> nat \<times> (u32 \<times> u32) \<times> wallog) option" where
  "recoverLog be nSize w = do {
     let (rc, aBuf, w) = sqlite3OsRead WAL_HDRSIZE 0 w;
     if rc \<noteq> 0 then Some (False, rc, (0, 0), w)
     else do {
       magic \<leftarrow> get4 aBuf 0;
       szPg \<leftarrow> get4 aBuf 8;
       if magic AND 0xFFFFFFFE \<noteq> WAL_MAGIC \<or> szPg AND (szPg - 1) \<noteq> 0 \<or> unat szPg > 65536 \<or> unat szPg < 512
       then Some (True, 0, (0, 0), w)
       else do {
         n \<leftarrow> get4 aBuf 12;
         let bigEnd = (magic AND 1 = 1);
         aCksum \<leftarrow> walChecksumBytes be (bigEnd = be) (take (WAL_HDRSIZE - 2 * 4) aBuf) None;
         let w = w\<lparr>szPage := unat szPg, ix := (ix w)\<lparr>nCkpt := n,
                    hdr := (whdr w)\<lparr>bigEndCksum := bigEnd, aSalt := take 8 (drop 16 aBuf), aFrameCksum := aCksum\<rparr>\<rparr>\<rparr>;
         c1 \<leftarrow> get4 aBuf 24;
         c2 \<leftarrow> get4 aBuf 28;
         if fst aCksum \<noteq> c1 \<or> snd aCksum \<noteq> c2 then Some (True, 0, (0, 0), w)
         else do {
           version \<leftarrow> get4 aBuf 4;
           if version \<noteq> WAL_MAX_VERSION then Some (True, 14, (0, 0), w)
           else (let (rc, n, w) = osCall w in
             if rc \<noteq> 0 then Some (False, 7, (0, 0), w)
             else do {
               (rc, ck, w) \<leftarrow> recoverLoop be nSize (unat szPg) w 0 WAL_HDRSIZE (0, 0);
               Some (True, rc, ck, w)
             })
         }
       }
     }
   }"

definition walIndexRecover :: "bool \<Rightarrow> wallog \<Rightarrow> (nat \<times> wallog) option" where
  "walIndexRecover be w =
     (let (rc, n, w) = osCall w in
      if rc \<noteq> 0 then Some (rc, w)
      else
        (let w = set_whdr zeroHdr w;
             (rc, n, w) = osCall w;
             nSize = length (pWalFd w)
         in if rc \<noteq> 0 then Some (rc, w)
            else do {
              (finished, rc, ck, w) \<leftarrow> (if nSize > WAL_HDRSIZE then recoverLog be nSize w else Some (True, 0, (0, 0), w));
              Some (rc, if finished \<and> rc = 0 then recoverFinish ck w else w)
            }))"

section \<open>Writing\<close>

text \<open>\<open>walWriteToLog\<close>: a write that crosses the synchronisation point is split there.\<close>

definition walWriteToLog :: "nat \<Rightarrow> u8 list \<Rightarrow> nat \<Rightarrow> wallog \<Rightarrow> nat \<times> wallog" where
  "walWriteToLog iSyncPoint content iOffset w =
     (if iOffset < iSyncPoint \<and> iOffset + length content \<ge> iSyncPoint then
        (let iFirstAmt = iSyncPoint - iOffset;
             (rc, w) = sqlite3OsWrite (take iFirstAmt content) iOffset w
         in if rc \<noteq> 0 then (rc, w)
            else (let content = drop iFirstAmt content;
                      (rc, w) = sqlite3OsSync w
                  in if content = [] \<or> rc \<noteq> 0 then (rc, w)
                     else sqlite3OsWrite content (iOffset + iFirstAmt) w))
      else sqlite3OsWrite content iOffset w)"

definition walWriteOneFrame :: "bool \<Rightarrow> nat \<Rightarrow> u32 \<times> u8 list \<Rightarrow> u32 \<Rightarrow> nat \<Rightarrow> wallog \<Rightarrow> (nat \<times> wallog) option" where
  "walWriteOneFrame be iSyncPoint pPage nTruncate iOffset w = do {
     (aFrame, w) \<leftarrow> walEncodeFrame be w (fst pPage) nTruncate (snd pPage);
     let (rc, w) = walWriteToLog iSyncPoint aFrame iOffset w;
     Some (if rc \<noteq> 0 then (rc, w) else walWriteToLog iSyncPoint (take (szPage w) (snd pPage)) (iOffset + length aFrame) w)
   }"

definition walWriteHeader :: "bool \<Rightarrow> nat \<Rightarrow> u8 list \<Rightarrow> wallog \<Rightarrow> (nat \<times> wallog) option" where
  "walWriteHeader be szPg rnd w =
     (let salt = (if nCkpt (ix w) = 0 then rnd else aSalt (whdr w));
          aWalHdr = sqlite3Put4byte (WAL_MAGIC OR (if be then 1 else 0)) @ sqlite3Put4byte WAL_MAX_VERSION
            @ sqlite3Put4byte (of_nat szPg) @ sqlite3Put4byte (nCkpt (ix w)) @ salt
      in do {
        aCksum \<leftarrow> walChecksumBytes be True aWalHdr None;
        let w = set_whdr ((whdr w)\<lparr>bigEndCksum := be, aFrameCksum := aCksum, aSalt := salt\<rparr>) (w\<lparr>szPage := szPg, truncateOnCommit := True\<rparr>);
        let (rc, w) = sqlite3OsWrite (aWalHdr @ sqlite3Put4byte (fst aCksum) @ sqlite3Put4byte (snd aCksum)) 0 w;
        Some (if rc \<noteq> 0 \<or> \<not> syncHeader w then (rc, w) else sqlite3OsSync w)
      })"

text \<open>
  The loop over the dirty pages. \<open>app\<close> collects the pages that were appended (flag \<open>PGHDR_WAL_APPEND\<close>), in reverse.
\<close>

fun writePages :: "bool \<Rightarrow> u32 \<Rightarrow> bool \<Rightarrow> nat \<Rightarrow> (u32 \<times> u8 list) list \<Rightarrow> (u32 \<times> u8 list) list \<Rightarrow> nat \<Rightarrow> nat \<Rightarrow> wallog
    \<Rightarrow> (nat \<times> (u32 \<times> u8 list) list \<times> nat \<times> nat \<times> wallog) option" where
  "writePages be nTruncate isCommit iFirst [] app iFrame iOffset w = Some (0, app, iFrame, iOffset, w)"
| "writePages be nTruncate isCommit iFirst (p # ps) app iFrame iOffset w = do {
     (iWrite, w) \<leftarrow> (if iFirst \<noteq> 0 \<and> (ps \<noteq> [] \<or> \<not> isCommit) then do {
          (rc, iWrite, i) \<leftarrow> sqlite3WalFindFrame (ix w) (fst p);
          Some (iWrite, w\<lparr>ix := i\<rparr>)
        }
        else Some (0, w));
     if iWrite \<noteq> 0 \<and> iWrite \<ge> iFirst then
       (let w = (if iReCksum w = 0 \<or> iWrite < iReCksum w then w\<lparr>iReCksum := iWrite\<rparr> else w);
            (rc, w) = sqlite3OsWrite (take (szPage w) (snd p)) (walFrameOffset iWrite (szPage w) + WAL_FRAME_HDRSIZE) w
        in if rc \<noteq> 0 then Some (rc, app, iFrame, iOffset, w)
           else writePages be nTruncate isCommit iFirst ps app iFrame iOffset w)
     else do {
       let iFrame = iFrame + 1;
       (rc, w) \<leftarrow> walWriteOneFrame be 0 p (if isCommit \<and> ps = [] then nTruncate else 0) iOffset w;
       if rc \<noteq> 0 then Some (rc, app, iFrame, iOffset, w)
       else writePages be nTruncate isCommit iFirst ps (p # app) iFrame (iOffset + (szPage w + WAL_FRAME_HDRSIZE)) w
     }
   }"

text \<open>Frames that were overwritten, and all after them, get new checksums.\<close>

fun rewriteLoop :: "bool \<Rightarrow> nat list \<Rightarrow> wallog \<Rightarrow> (nat \<times> wallog) option" where
  "rewriteLoop be [] w = Some (0, w)"
| "rewriteLoop be (iRead # is) w =
     (let iOff = walFrameOffset iRead (szPage w);
          (rc, aBuf, w) = sqlite3OsRead (szPage w + WAL_FRAME_HDRSIZE) iOff w
      in if rc \<noteq> 0 then Some (rc, w)
         else do {
           iPgno \<leftarrow> get4 aBuf 0;
           nDbSize \<leftarrow> get4 aBuf 4;
           (aFrame, w) \<leftarrow> walEncodeFrame be w iPgno nDbSize (drop WAL_FRAME_HDRSIZE aBuf);
           let (rc, w) = sqlite3OsWrite aFrame iOff w;
           if rc \<noteq> 0 then Some (rc, w) else rewriteLoop be is w
         })"

definition walRewriteChecksums :: "bool \<Rightarrow> nat \<Rightarrow> wallog \<Rightarrow> (nat \<times> wallog) option" where
  "walRewriteChecksums be iLast w =
     (let (rc, n, w) = osCall w in
      if rc \<noteq> 0 then Some (7, w)
      else do {
        let iCksumOff = (if iReCksum w = 1 then 24 else walFrameOffset (iReCksum w - 1) (szPage w) + 16);
        let (rc, aBuf, w) = sqlite3OsRead 8 iCksumOff w;
        c1 \<leftarrow> get4 aBuf 0;
        c2 \<leftarrow> get4 aBuf 4;
        let w = set_whdr ((whdr w)\<lparr>aFrameCksum := (c1, c2)\<rparr>) w;
        let iRead = iReCksum w;
        let w = w\<lparr>iReCksum := 0\<rparr>;
        if rc \<noteq> 0 then Some (rc, w) else rewriteLoop be [iRead..<iLast + 1] w
      })"

function padLoop :: "bool \<Rightarrow> nat \<Rightarrow> u32 \<times> u8 list \<Rightarrow> u32 \<Rightarrow> nat \<Rightarrow> nat \<Rightarrow> wallog \<Rightarrow> (nat \<times> nat \<times> wallog) option" where
  "padLoop be iSyncPoint pLast nTruncate iOffset nExtra w =
     (if iOffset < iSyncPoint then do {
        (rc, w) \<leftarrow> walWriteOneFrame be iSyncPoint pLast nTruncate iOffset w;
        if rc \<noteq> 0 then Some (rc, nExtra, w)
        else padLoop be iSyncPoint pLast nTruncate (iOffset + (szPage w + WAL_FRAME_HDRSIZE)) (nExtra + 1) w
      }
      else Some (0, nExtra, w))"
  by pat_completeness auto
termination
  by (relation "measure (\<lambda>(be, iSyncPoint, pLast, nTruncate, iOffset, nExtra, w). iSyncPoint - iOffset)") (auto simp: WAL_FRAME_HDRSIZE_def)

declare padLoop.simps [simp del]

text \<open>
  Padding and synchronising after a commit; \<open>sectorSize\<close> is what the device reports. The second result says that a failed write of a
  padding frame makes \<open>sqlite3WalFrames\<close> return.
\<close>

definition commitSync :: "bool \<Rightarrow> nat \<Rightarrow> (u32 \<times> u8 list) list \<Rightarrow> u32 \<Rightarrow> nat \<Rightarrow> wallog \<Rightarrow> (nat \<times> bool \<times> nat \<times> wallog) option" where
  "commitSync be sectorSize app nTruncate iOffset w = do {
     let iSyncPoint = (if padToSectorBoundary w then ((iOffset + sectorSize - 1) div sectorSize) * sectorSize else 0);
     let bSync = (padToSectorBoundary w \<longrightarrow> iSyncPoint = iOffset);
     (rc, nExtra, w) \<leftarrow> (case app of
         [] \<Rightarrow> (if iOffset < iSyncPoint then None else Some (0, 0, w))
       | pLast # _ \<Rightarrow> padLoop be iSyncPoint pLast nTruncate iOffset 0 w);
     if rc \<noteq> 0 then Some (rc, True, nExtra, w)
     else if bSync then (let (rc, w) = sqlite3OsSync w in Some (rc, False, nExtra, w))
     else Some (0, False, nExtra, w)
   }"

definition walLimitSize :: "nat \<Rightarrow> wallog \<Rightarrow> wallog" where
  "walLimitSize nMax w =
     (let (rx, n, w) = osCall w in
      if rx = 0 \<and> length (pWalFd w) > nMax
      then (let (rx, n, w) = osCall w in if rx = 0 then w\<lparr>pWalFd := take nMax (pWalFd w)\<rparr> else w)
      else w)"

text \<open>
  Everything after the frames have been written: checksums of overwritten frames, synchronisation, size limit, wal-index and header.
  An error code leaves the second component \<^term>\<open>False\<close> when the code returns at once.
\<close>

definition walFinishFrames :: "bool \<Rightarrow> nat \<Rightarrow> nat \<Rightarrow> u32 \<Rightarrow> bool \<Rightarrow> bool \<Rightarrow> (u32 \<times> u8 list) list \<Rightarrow> nat \<Rightarrow> nat \<Rightarrow> wallog \<Rightarrow> (nat \<times> wallog) option" where
  "walFinishFrames be sectorSize szPg nTruncate isCommit sync app iFrame iOffset w = do {
     (rc, w) \<leftarrow> (if isCommit \<and> iReCksum w \<noteq> 0 then walRewriteChecksums be iFrame w else Some (0, w));
     if rc \<noteq> 0 then Some (rc, w)
     else do {
       (rc, early, nExtra, w) \<leftarrow> (if isCommit \<and> sync then commitSync be sectorSize app nTruncate iOffset w else Some (0, False, 0, w));
       if early then Some (rc, w)
       else do {
         let w = (if isCommit \<and> truncateOnCommit w \<and> mxWalSize w \<ge> 0
                  then (let sz = nat (mxWalSize w);
                            off = walFrameOffset (iFrame + nExtra + 1) szPg;
                            w = walLimitSize (if off > sz then off else sz) w
                        in w\<lparr>truncateOnCommit := False\<rparr>)
                  else w);
         if rc \<noteq> 0 then Some (rc, w)
         else do {
           (rc, iFrame, i) \<leftarrow> appendFrames (ix w) (mxFrame (whdr w))
              (map fst (rev app) @ (case app of [] \<Rightarrow> [] | pLast # _ \<Rightarrow> replicate nExtra (fst pLast)));
           let w = w\<lparr>ix := i\<rparr>;
           if rc \<noteq> 0 then Some (rc, w)
           else (let h = (whdr w)\<lparr>szPageHdr := pageSize16 szPg, mxFrame := iFrame\<rparr>;
                     w = set_whdr (if isCommit then h\<lparr>iChange := iChange h + 1, nPage := nTruncate\<rparr> else h) w
                 in Some (0, if isCommit then walIndexWriteHdr w else w))
         }
       }
     }
   }"

text \<open>
  \<open>sqlite3WalFrames\<close> for a connection that holds a read lock other than 0: then \<open>walRestartLog\<close>, which it calls first, does nothing.
  \<open>rnd\<close> are the eight random bytes for the salt of a new log.
\<close>

definition sqlite3WalFrames :: "bool \<Rightarrow> nat \<Rightarrow> u8 list \<Rightarrow> nat \<Rightarrow> (u32 \<times> u8 list) list \<Rightarrow> u32 \<Rightarrow> bool \<Rightarrow> bool \<Rightarrow> wallog \<Rightarrow> (nat \<times> wallog) option" where
  "sqlite3WalFrames be sectorSize rnd szPg pList nTruncate isCommit sync w = do {
     let iFirst = (if whdr w \<noteq> live (ix w) then mxFrame (live (ix w)) + 1 else 0);
     let iFrame = mxFrame (whdr w);
     (rc, w) \<leftarrow> (if iFrame = 0 then walWriteHeader be szPg rnd w else Some (0, w));
     if rc \<noteq> 0 then Some (rc, w)
     else do {
       (rc, app, iFrame, iOffset, w) \<leftarrow> writePages be nTruncate isCommit iFirst pList [] iFrame (walFrameOffset (iFrame + 1) szPg) w;
       if rc \<noteq> 0 then Some (rc, w) else walFinishFrames be sectorSize szPg nTruncate isCommit sync app iFrame iOffset w
     }
   }"

section \<open>The bytes of a log\<close>

text \<open>A frame: page number, database size for a commit or 0, contents.\<close>

type_synonym frame = "u32 \<times> u32 \<times> u8 list"

fun frameCk :: "bool \<Rightarrow> u32 \<times> u32 \<Rightarrow> frame \<Rightarrow> u32 \<times> u32" where
  "frameCk big ck (p, n, d) = cksum big (cksum big ck (sqlite3Put4byte p @ sqlite3Put4byte n)) d"

definition frameHdr :: "bool \<Rightarrow> u8 list \<Rightarrow> u32 \<times> u32 \<Rightarrow> frame \<Rightarrow> u8 list" where
  "frameHdr big salt ck f = sqlite3Put4byte (fst f) @ sqlite3Put4byte (fst (snd f)) @ salt
     @ sqlite3Put4byte (fst (frameCk big ck f)) @ sqlite3Put4byte (snd (frameCk big ck f))"

definition frameBytes :: "bool \<Rightarrow> u8 list \<Rightarrow> u32 \<times> u32 \<Rightarrow> frame \<Rightarrow> u8 list" where
  "frameBytes big salt ck f = frameHdr big salt ck f @ snd (snd f)"

fun logBytes :: "bool \<Rightarrow> u8 list \<Rightarrow> u32 \<times> u32 \<Rightarrow> frame list \<Rightarrow> u8 list" where
  "logBytes big salt ck [] = []"
| "logBytes big salt ck (f # fs) = frameBytes big salt ck f @ logBytes big salt (frameCk big ck f) fs"

definition runCk :: "bool \<Rightarrow> u32 \<times> u32 \<Rightarrow> frame list \<Rightarrow> u32 \<times> u32" where
  "runCk big ck fs = foldl (frameCk big) ck fs"

lemma runCk_simps [simp]: "runCk big ck [] = ck" "runCk big ck (f # fs) = runCk big (frameCk big ck f) fs"
  "runCk big ck (fs @ gs) = runCk big (runCk big ck fs) gs"
  by (simp_all add: runCk_def)

lemma logBytes_append: "logBytes big salt ck (fs @ gs) = logBytes big salt ck fs @ logBytes big salt (runCk big ck fs) gs"
  by (induction fs arbitrary: ck) simp_all

definition frame_ok :: "nat \<Rightarrow> frame \<Rightarrow> bool" where
  "frame_ok szPg f \<longleftrightarrow> fst f \<noteq> 0 \<and> length (snd (snd f)) = szPg"

lemma length_frameHdr: "length salt = 8 \<Longrightarrow> length (frameHdr big salt ck f) = WAL_FRAME_HDRSIZE"
  by (simp add: frameHdr_def WAL_FRAME_HDRSIZE_def)

lemma length_frameBytes: "length salt = 8 \<Longrightarrow> frame_ok szPg f \<Longrightarrow> length (frameBytes big salt ck f) = szPg + WAL_FRAME_HDRSIZE"
  by (simp add: frameBytes_def length_frameHdr frame_ok_def)

lemma length_logBytes:
  "length salt = 8 \<Longrightarrow> list_all (frame_ok szPg) fs \<Longrightarrow> length (logBytes big salt ck fs) = length fs * (szPg + WAL_FRAME_HDRSIZE)"
  by (induction fs arbitrary: ck) (simp_all add: length_frameBytes)

lemma whdr_set [simp]: "whdr (set_whdr h w) = h" "szPage (set_whdr h w) = szPage w" "iReCksum (set_whdr h w) = iReCksum w"
  "pWalFd (set_whdr h w) = pWalFd w" "osRc (set_whdr h w) = osRc w" "set_whdr h (set_whdr h' w) = set_whdr h w"
  by (simp_all add: whdr_def set_whdr_def)

lemma walEncodeFrame_ok:
  assumes "iReCksum w = 0" "length d = szPage w" "cksum_len (szPage w)"
  shows "walEncodeFrame be w p n d = Some (frameHdr (bigEndCksum (whdr w)) (aSalt (whdr w)) (aFrameCksum (whdr w)) (p, n, d),
    set_whdr ((whdr w)\<lparr>aFrameCksum := frameCk (bigEndCksum (whdr w)) (aFrameCksum (whdr w)) (p, n, d)\<rparr>) w)"
  using assms walChecksumBytes_eq [of d be "bigEndCksum (whdr w)"]
    walChecksumBytes_eq [of "sqlite3Put4byte p @ sqlite3Put4byte n" be "bigEndCksum (whdr w)"]
  by (simp add: walEncodeFrame_def frameHdr_def cksum_len_def Let_def)

text \<open>A frame is accepted if and only if it is what \<open>walEncodeFrame\<close> writes.\<close>

lemma walDecodeFrame_ok:
  assumes "length buf = szPage w + WAL_FRAME_HDRSIZE" "cksum_len (szPage w)" "length (aSalt (whdr w)) = 8"
  defines "f \<equiv> (the (get4 buf 0), the (get4 buf 4), drop WAL_FRAME_HDRSIZE buf)"
  defines "h \<equiv> whdr w"
  defines "ck \<equiv> frameCk (bigEndCksum h) (aFrameCksum h) f"
  shows "walDecodeFrame be w (drop WAL_FRAME_HDRSIZE buf) buf =
    (if fst f \<noteq> 0 \<and> buf = frameBytes (bigEndCksum h) (aSalt h) (aFrameCksum h) f
     then Some (Some (fst f, fst (snd f)), set_whdr (h\<lparr>aFrameCksum := ck\<rparr>) w)
     else Some (None, if aSalt h = take 8 (drop 8 buf) \<and> fst f \<noteq> 0 then set_whdr (h\<lparr>aFrameCksum := ck\<rparr>) w else w))"
proof -
  have len: "WAL_FRAME_HDRSIZE \<le> length buf" "length buf = szPage w + 24" using assms(1) by (simp_all add: WAL_FRAME_HDRSIZE_def)
  obtain p n c1 c2 where g: "get4 buf 0 = Some p" "get4 buf 4 = Some n" "get4 buf 16 = Some c1" "get4 buf 20 = Some c2"
    using get4_total [of 0 buf] get4_total [of 4 buf] get4_total [of 16 buf] get4_total [of 20 buf] len(2) by auto
  define d where "d = drop WAL_FRAME_HDRSIZE buf"
  have d: "length d = szPage w" using assms(1) by (simp add: d_def)
  have f: "f = (p, n, d)" by (simp add: f_def g d_def)
  note put = put4_get4 [OF g(1)] put4_get4 [OF g(2)] put4_get4 [OF g(3)] put4_get4 [OF g(4)]
  have t8: "take 8 buf = sqlite3Put4byte p @ sqlite3Put4byte n" using put(1,2) by (simp add: take_add [of 4 4, simplified])
  have split: "buf = take 8 buf @ take 8 (drop 8 buf) @ take 4 (drop 16 buf) @ take 4 (drop 20 buf) @ d"
  proof -
    have "take 4 (drop 20 buf) @ d = drop 20 buf"
      using append_take_drop_id [of 4 "drop 20 buf"] by (simp add: d_def WAL_FRAME_HDRSIZE_def)
    moreover have "take 4 (drop 16 buf) @ drop 20 buf = drop 16 buf" using append_take_drop_id [of 4 "drop 16 buf"] by simp
    moreover have "take 8 (drop 8 buf) @ drop 16 buf = drop 8 buf" using append_take_drop_id [of 8 "drop 8 buf"] by simp
    ultimately show ?thesis by (simp only: append_take_drop_id)
  qed
  have ck: "ck = frameCk (bigEndCksum h) (aFrameCksum h) (p, n, d)" by (simp add: ck_def f)
  have eq: "buf = frameBytes (bigEndCksum h) (aSalt h) (aFrameCksum h) f \<longleftrightarrow> take 8 (drop 8 buf) = aSalt h \<and> c1 = fst ck \<and> c2 = snd ck"
    (is "?l \<longleftrightarrow> ?r")
  proof -
    have "frameBytes (bigEndCksum h) (aSalt h) (aFrameCksum h) f
      = take 8 buf @ aSalt h @ sqlite3Put4byte (fst ck) @ sqlite3Put4byte (snd ck) @ d"
      by (simp add: frameBytes_def frameHdr_def f ck t8)
    moreover have "length (take 8 (drop 8 buf)) = length (aSalt h)" using len(2) assms(3) by (simp add: h_def)
    moreover have "length (sqlite3Put4byte x) = length (take 4 (drop 16 buf))" "length (sqlite3Put4byte x) = length (take 4 (drop 20 buf))" for x
      using len(2) by simp_all
    ultimately show ?thesis by (subst split) (simp add: put(3,4) [symmetric] put4_inj eq_commute [of "aSalt h"] eq_commute [of "fst ck"] eq_commute [of "snd ck"])
  qed
  have ck1: "walChecksumBytes be (bigEndCksum h = be) (take 8 buf) (Some (aFrameCksum h))
      = Some (cksum (bigEndCksum h) (aFrameCksum h) (sqlite3Put4byte p @ sqlite3Put4byte n))"
    unfolding t8 by (simp add: walChecksumBytes_eq cksum_len_def)
  have ck2: "walChecksumBytes be (bigEndCksum h = be) d (Some c) = Some (cksum (bigEndCksum h) c d)" for c
    using assms(2) d by (simp add: walChecksumBytes_eq)
  show ?thesis unfolding eq
    using g ck1 ck2 d by (simp add: walDecodeFrame_def f h_def [symmetric] d_def [symmetric] ck Let_def)
qed

text \<open>The bytes do not begin with a valid frame.\<close>

definition dead :: "bool \<Rightarrow> u8 list \<Rightarrow> u32 \<times> u32 \<Rightarrow> nat \<Rightarrow> u8 list \<Rightarrow> bool" where
  "dead big salt ck szPg bs \<longleftrightarrow> (\<forall>f. frame_ok szPg f \<longrightarrow> \<not> (\<exists>rest. bs = frameBytes big salt ck f @ rest))"

section \<open>Recovery finds the committed frames\<close>

text \<open>The frames up to the last commit.\<close>

definition committed :: "frame list \<Rightarrow> frame list" where
  "committed fs = rev (dropWhile (\<lambda>f. fst (snd f) = 0) (rev fs))"

lemma committed_Cons:
  "committed (f # fs) = (if committed fs = [] then if fst (snd f) = 0 then [] else [f] else f # committed fs)"
  by (simp add: committed_def dropWhile_append)

lemma committed_Nil [simp]: "committed [] = []"
  by (simp add: committed_def)

definition commitHdr :: "nat \<Rightarrow> nat \<Rightarrow> frame list \<Rightarrow> walhdr \<Rightarrow> walhdr" where
  "commitHdr szPg n cs h = (if cs = [] then h
     else h\<lparr>mxFrame := n + length cs, nPage := fst (snd (last cs)), szPageHdr := pageSize16 szPg\<rparr>)"

text \<open>What recovery leaves alone.\<close>

definition same_env :: "wallog \<Rightarrow> wallog \<Rightarrow> bool" where
  "same_env w w' \<longleftrightarrow> pWalFd w' = pWalFd w \<and> osRc w' = osRc w \<and> szPage w' = szPage w \<and> iReCksum w' = iReCksum w
     \<and> syncHeader w' = syncHeader w \<and> padToSectorBoundary w' = padToSectorBoundary w \<and> mxWalSize w' = mxWalSize w
     \<and> live (ix w') = live (ix w) \<and> readLock (ix w') = readLock (ix w) \<and> minFrame (ix w') = minFrame (ix w) \<and> nCkpt (ix w') = nCkpt (ix w)
     \<and> (False \<in> set (mapOk (ix w')) \<longrightarrow> False \<in> set (mapOk (ix w)))"

lemma same_env_refl [simp]: "same_env w w"
  by (simp add: same_env_def)

lemma same_env_trans: "same_env w w' \<Longrightarrow> same_env w' w'' \<Longrightarrow> same_env w w''"
  by (simp add: same_env_def)

lemma same_env_set [simp]: "same_env w (set_whdr h w') \<longleftrightarrow> same_env w w'" "same_env (set_whdr h w) w' \<longleftrightarrow> same_env w w'"
  by (simp_all add: same_env_def set_whdr_def)

lemma same_env_ix: "same_state (ix w) i \<Longrightarrow> same_env w (w\<lparr>ix := i\<rparr>)"
  by (simp add: same_env_def same_state_def)

lemma OsRead_ok:
  assumes "osRc w = []" "off + amt \<le> length (pWalFd w)"
  shows "sqlite3OsRead amt off w = (0, take amt (drop off (pWalFd w)), w)"
  using assms by (simp add: sqlite3OsRead_def)

lemma dead_decode:
  assumes "dead (bigEndCksum (whdr w)) (aSalt (whdr w)) (aFrameCksum (whdr w)) (szPage w) tail" "szPage w + WAL_FRAME_HDRSIZE \<le> length tail"
    "cksum_len (szPage w)" "length (aSalt (whdr w)) = 8"
  defines "buf \<equiv> take (szPage w + WAL_FRAME_HDRSIZE) tail"
  shows "\<exists>y. walDecodeFrame be w (drop WAL_FRAME_HDRSIZE buf) buf = Some (None, set_whdr ((whdr w)\<lparr>aFrameCksum := y\<rparr>) w)"
proof -
  define f where "f = (the (get4 buf 0), the (get4 buf 4), drop WAL_FRAME_HDRSIZE buf)"
  have len: "length buf = szPage w + WAL_FRAME_HDRSIZE" using assms(2) by (simp add: buf_def)
  have same: "w = set_whdr ((whdr w)\<lparr>aFrameCksum := aFrameCksum (whdr w)\<rparr>) w" by (simp add: set_whdr_def whdr_def)
  have "\<not> (fst f \<noteq> 0 \<and> buf = frameBytes (bigEndCksum (whdr w)) (aSalt (whdr w)) (aFrameCksum (whdr w)) f)"
  proof
    assume a: "fst f \<noteq> 0 \<and> buf = frameBytes (bigEndCksum (whdr w)) (aSalt (whdr w)) (aFrameCksum (whdr w)) f"
    then have "frame_ok (szPage w) f" using len by (simp add: frame_ok_def f_def)
    moreover have "tail = frameBytes (bigEndCksum (whdr w)) (aSalt (whdr w)) (aFrameCksum (whdr w)) f @ drop (szPage w + WAL_FRAME_HDRSIZE) tail"
      using a append_take_drop_id [of "szPage w + WAL_FRAME_HDRSIZE" tail] by (simp add: buf_def)
    ultimately show False using assms(1) unfolding dead_def by blast
  qed
  note dec = walDecodeFrame_ok [OF len assms(3,4), of be, folded f_def, unfolded if_not_P [OF this]]
  show ?thesis
  proof (cases "aSalt (whdr w) = take 8 (drop 8 buf) \<and> fst f \<noteq> 0")
    case True
    show ?thesis unfolding dec if_P [OF True] by (rule exI, rule refl)
  next
    case False
    show ?thesis unfolding dec if_not_P [OF False] by (rule exI [of _ "aFrameCksum (whdr w)"]) (use same in simp)
  qed
qed

lemma frame_decode:
  assumes "frame_ok (szPage w) f" "cksum_len (szPage w)" "length (aSalt (whdr w)) = 8"
  defines "buf \<equiv> frameBytes (bigEndCksum (whdr w)) (aSalt (whdr w)) (aFrameCksum (whdr w)) f"
  shows "walDecodeFrame be w (drop WAL_FRAME_HDRSIZE buf) buf = Some (Some (fst f, fst (snd f)),
    set_whdr ((whdr w)\<lparr>aFrameCksum := frameCk (bigEndCksum (whdr w)) (aFrameCksum (whdr w)) f\<rparr>) w)"
proof -
  obtain p n d where f: "f = (p, n, d)" by (cases f)
  have len: "length buf = szPage w + WAL_FRAME_HDRSIZE" unfolding buf_def by (rule length_frameBytes [OF assms(3,1)])
  have 1: "get4 buf 0 = Some p" by (simp add: buf_def frameBytes_def frameHdr_def f get4_put)
  have 2: "get4 buf 4 = Some n"
    using get4_skip [of "sqlite3Put4byte p" _ 0] by (simp add: buf_def frameBytes_def frameHdr_def f get4_put)
  have 3: "drop WAL_FRAME_HDRSIZE buf = d" using length_frameHdr [OF assms(3)] by (simp add: buf_def frameBytes_def f)
  show ?thesis using walDecodeFrame_ok [OF len assms(2,3), of be] assms(1) unfolding 1 2 3
    by (simp add: f frame_ok_def buf_def)
qed

lemma recoverLoop_ok:
  assumes "pWalFd w = pre @ logBytes big salt ck fs @ tail" "dead big salt (runCk big ck fs) szPg tail" "list_all (frame_ok szPg) fs"
    "idx_ok (ix w) pg" "cksum_len szPg" "length salt = 8" "osRc w = []" "False \<notin> set (mapOk (ix w))"
    "szPage w = szPg" "bigEndCksum (whdr w) = big" "aSalt (whdr w) = salt" "aFrameCksum (whdr w) = ck"
  shows "\<exists>w' y. recoverLoop be (length (pWalFd w)) szPg w (length pg) (length pre) c0
      = Some (0, if committed fs = [] then c0 else runCk big ck (committed fs), w')
    \<and> idx_ok (ix w') (pg @ map fst fs) \<and> whdr w' = (commitHdr szPg (length pg) (committed fs) (whdr w))\<lparr>aFrameCksum := y\<rparr> \<and> same_env w w'"
  using assms
proof (induction fs arbitrary: w pre pg ck c0)
  case Nil
  show ?case
  proof (cases "length pre + (szPg + WAL_FRAME_HDRSIZE) \<le> length (pWalFd w)")
    case False
    with Nil.prems(4) show ?thesis
      by (intro exI [of _ w] exI [of _ "aFrameCksum (whdr w)"], subst recoverLoop.simps) (simp add: commitHdr_def)
  next
    case True
    have len: "szPage w + WAL_FRAME_HDRSIZE \<le> length tail" using True Nil.prems(1,9) by simp
    have r: "sqlite3OsRead (szPg + WAL_FRAME_HDRSIZE) (length pre) w = (0, take (szPg + WAL_FRAME_HDRSIZE) tail, w)"
      using OsRead_ok [OF Nil.prems(7) True] Nil.prems(1) by simp
    from dead_decode [OF _ len, of be] Nil.prems
    obtain y where "walDecodeFrame be w (drop WAL_FRAME_HDRSIZE (take (szPg + WAL_FRAME_HDRSIZE) tail)) (take (szPg + WAL_FRAME_HDRSIZE) tail)
        = Some (None, set_whdr ((whdr w)\<lparr>aFrameCksum := y\<rparr>) w)" by auto
    then have "recoverLoop be (length (pWalFd w)) szPg w (length pg) (length pre) c0 = Some (0, c0, set_whdr ((whdr w)\<lparr>aFrameCksum := y\<rparr>) w)"
      using True r by (subst recoverLoop.simps) simp
    with Nil.prems(4) show ?thesis
      by (intro exI [of _ "set_whdr ((whdr w)\<lparr>aFrameCksum := y\<rparr>) w"] exI [of _ y]) (simp add: commitHdr_def, simp add: set_whdr_def)
  qed
next
  case (Cons f fs)
  obtain p n d where f: "f = (p, n, d)" by (cases f)
  define B where "B = frameBytes big salt ck f"
  define rest where "rest = logBytes big salt (frameCk big ck f) fs @ tail"
  have fd: "pWalFd w = pre @ B @ rest" using Cons.prems(1) by (simp add: B_def rest_def)
  have fok: "frame_ok szPg f" "p \<noteq> 0" using Cons.prems(3) by (simp_all add: f frame_ok_def)
  have lenB: "length B = szPg + WAL_FRAME_HDRSIZE" unfolding B_def by (rule length_frameBytes [OF Cons.prems(6) fok(1)])
  have r: "sqlite3OsRead (szPg + WAL_FRAME_HDRSIZE) (length pre) w = (0, B, w)"
    using OsRead_ok [OF Cons.prems(7), of "length pre" "szPg + WAL_FRAME_HDRSIZE"] lenB by (simp add: fd)
  define ck1 where "ck1 = frameCk big ck f"
  define w1 where "w1 = set_whdr ((whdr w)\<lparr>aFrameCksum := ck1\<rparr>) w"
  have dec: "walDecodeFrame be w (drop WAL_FRAME_HDRSIZE B) B = Some (Some (p, n), w1)"
    using frame_decode [of w f be] fok(1) Cons.prems by (simp add: B_def w1_def ck1_def f)
  have "idx_ok (ix w1) pg" "False \<notin> set (mapOk (ix w1))" using Cons.prems(4,8) by (simp_all add: w1_def set_whdr_def)
  then obtain i where i: "walIndexAppend (ix w1) (length pg + 1) p = Some (0, i)" "idx_ok i (pg @ [p])" "same_state (ix w1) i"
    using walIndexAppend_good [of "ix w1" pg "length pg + 1" p] fok(2) by auto
  define w2 where "w2 = w1\<lparr>ix := i\<rparr>"
  have hi: "whdr w2 = (whdr w)\<lparr>aFrameCksum := ck1\<rparr>"
    using i(3) by (simp add: w2_def w1_def whdr_def set_whdr_def same_state_def)
  define w3 where "w3 = (if n \<noteq> 0 then set_whdr ((whdr w2)\<lparr>mxFrame := length pg + 1, nPage := n, szPageHdr := pageSize16 szPg\<rparr>) w2 else w2)"
  define c1 where "c1 = (if n \<noteq> 0 then ck1 else c0)"
  have env: "same_env w w3"
    using same_env_ix [OF i(3)] by (simp add: w3_def w2_def w1_def)
  have h3: "whdr w3 = (commitHdr szPg (length pg) (committed [f]) (whdr w))\<lparr>aFrameCksum := ck1\<rparr>"
    by (simp add: w3_def hi commitHdr_def committed_Cons f)
  have step: "recoverLoop be (length (pWalFd w)) szPg w (length pg) (length pre) c0
      = recoverLoop be (length (pWalFd w3)) szPg w3 (length (pg @ [p])) (length (pre @ B)) c1"
  proof -
    have "length pre + (szPg + WAL_FRAME_HDRSIZE) \<le> length (pWalFd w)" using lenB by (simp add: fd)
    moreover have "length (pWalFd w3) = length (pWalFd w)" using env by (simp add: same_env_def)
    ultimately show ?thesis
      using r dec i(1) lenB by (subst recoverLoop.simps) (simp add: Let_def w2_def [symmetric] w3_def c1_def hi)
  qed
  have "\<exists>w' y. recoverLoop be (length (pWalFd w3)) szPg w3 (length (pg @ [p])) (length (pre @ B)) c1
      = Some (0, if committed fs = [] then c1 else runCk big ck1 (committed fs), w')
    \<and> idx_ok (ix w') ((pg @ [p]) @ map fst fs) \<and> whdr w' = (commitHdr szPg (length (pg @ [p])) (committed fs) (whdr w3))\<lparr>aFrameCksum := y\<rparr> \<and> same_env w3 w'"
  proof (rule Cons.IH)
    show "pWalFd w3 = (pre @ B) @ logBytes big salt ck1 fs @ tail" using env by (simp add: same_env_def fd rest_def ck1_def)
    show "dead big salt (runCk big ck1 fs) szPg tail" using Cons.prems(2) by (simp add: ck1_def)
    show "list_all (frame_ok szPg) fs" using Cons.prems(3) by simp
    show "idx_ok (ix w3) (pg @ [p])" using i(2) by (simp add: w3_def w2_def set_whdr_def)
    show "osRc w3 = []" "False \<notin> set (mapOk (ix w3))" "szPage w3 = szPg" using env Cons.prems(7,8,9) by (auto simp: same_env_def)
    show "bigEndCksum (whdr w3) = big" "aSalt (whdr w3) = salt" "aFrameCksum (whdr w3) = ck1"
      using Cons.prems(10,11) by (simp_all add: h3 commitHdr_def)
  qed (use Cons.prems in simp_all)
  then obtain w' y where w': "recoverLoop be (length (pWalFd w3)) szPg w3 (length (pg @ [p])) (length (pre @ B)) c1
      = Some (0, if committed fs = [] then c1 else runCk big ck1 (committed fs), w')"
    "idx_ok (ix w') ((pg @ [p]) @ map fst fs)" "whdr w' = (commitHdr szPg (length (pg @ [p])) (committed fs) (whdr w3))\<lparr>aFrameCksum := y\<rparr>" "same_env w3 w'"
    by blast
  have "(if committed fs = [] then c1 else runCk big ck1 (committed fs)) = (if committed (f # fs) = [] then c0 else runCk big ck (committed (f # fs)))"
    by (simp add: committed_Cons c1_def ck1_def f)
  moreover have "(commitHdr szPg (length (pg @ [p])) (committed fs) (whdr w3))\<lparr>aFrameCksum := y\<rparr>
      = (commitHdr szPg (length pg) (committed (f # fs)) (whdr w))\<lparr>aFrameCksum := y\<rparr>"
    by (simp add: h3 commitHdr_def committed_Cons f)
  ultimately show ?case using w' step env same_env_trans [of w w3 w']
    by (intro exI [of _ w'] exI [of _ y]) (simp add: f)
qed

subsection \<open>The whole file\<close>

definition page_size :: "nat \<Rightarrow> bool" where
  "page_size szPg \<longleftrightarrow> szPg \<in> {512, 1024, 2048, 4096, 8192, 16384, 32768, 65536}"

definition hdr24 :: "bool \<Rightarrow> nat \<Rightarrow> u32 \<Rightarrow> u8 list \<Rightarrow> u8 list" where
  "hdr24 big szPg n salt = sqlite3Put4byte (WAL_MAGIC OR (if big then 1 else 0)) @ sqlite3Put4byte WAL_MAX_VERSION
     @ sqlite3Put4byte (of_nat szPg) @ sqlite3Put4byte n @ salt"

definition hdrCk :: "bool \<Rightarrow> nat \<Rightarrow> u32 \<Rightarrow> u8 list \<Rightarrow> u32 \<times> u32" where
  "hdrCk big szPg n salt = cksum big (0, 0) (hdr24 big szPg n salt)"

definition logHeader :: "bool \<Rightarrow> nat \<Rightarrow> u32 \<Rightarrow> u8 list \<Rightarrow> u8 list" where
  "logHeader big szPg n salt = hdr24 big szPg n salt
     @ sqlite3Put4byte (fst (hdrCk big szPg n salt)) @ sqlite3Put4byte (snd (hdrCk big szPg n salt))"

definition logFile :: "bool \<Rightarrow> nat \<Rightarrow> u32 \<Rightarrow> u8 list \<Rightarrow> frame list \<Rightarrow> u8 list" where
  "logFile big szPg n salt fs = logHeader big szPg n salt @ logBytes big salt (hdrCk big szPg n salt) fs"

lemma length_logHeader: "length salt = 8 \<Longrightarrow> length (logHeader big szPg n salt) = WAL_HDRSIZE"
  by (simp add: logHeader_def hdr24_def WAL_HDRSIZE_def)

lemma page_size_cases:
  assumes "page_size szPg"
  shows "unat (of_nat szPg :: u32) = szPg" "(of_nat szPg :: u32) AND (of_nat szPg - 1) = 0" "512 \<le> szPg" "szPg \<le> 65536" "cksum_len szPg"
  using assms unfolding page_size_def by (auto simp: cksum_len_def)

lemma logHeader_get4:
  assumes "length salt = 8"
  shows "get4 (logHeader big szPg n salt) 0 = Some (WAL_MAGIC OR (if big then 1 else 0))"
    "get4 (logHeader big szPg n salt) 4 = Some WAL_MAX_VERSION"
    "get4 (logHeader big szPg n salt) 8 = Some (of_nat szPg)"
    "get4 (logHeader big szPg n salt) 12 = Some n"
    "get4 (logHeader big szPg n salt) 24 = Some (fst (hdrCk big szPg n salt))"
    "get4 (logHeader big szPg n salt) 28 = Some (snd (hdrCk big szPg n salt))"
    "take 24 (logHeader big szPg n salt) = hdr24 big szPg n salt"
    "take 8 (drop 16 (logHeader big szPg n salt)) = salt"
proof -
  let ?m = "WAL_MAGIC OR (if big then 1 else 0)"
  have skip: "get4 (sqlite3Put4byte v @ bs) (4 + k) = get4 bs k" for v bs k using get4_skip [of "sqlite3Put4byte v" bs k] by simp
  have skip8: "get4 (salt @ bs) (8 + k) = get4 bs k" for bs k using get4_skip [of salt bs k] assms by simp
  note split = skip [of _ _ 0] skip [of _ _ 4] skip [of _ _ 8] skip [of _ _ 12] skip [of _ _ 16] skip [of _ _ 20] skip [of _ _ 24]
    skip8 [of _ 0] skip8 [of _ 4]
  show "get4 (logHeader big szPg n salt) 0 = Some ?m" "get4 (logHeader big szPg n salt) 4 = Some WAL_MAX_VERSION"
    "get4 (logHeader big szPg n salt) 8 = Some (of_nat szPg)" "get4 (logHeader big szPg n salt) 12 = Some n"
    "get4 (logHeader big szPg n salt) 24 = Some (fst (hdrCk big szPg n salt))"
    using split by (simp_all add: logHeader_def hdr24_def get4_put)
  show "get4 (logHeader big szPg n salt) 28 = Some (snd (hdrCk big szPg n salt))"
    using split get4_put [of "snd (hdrCk big szPg n salt)" "[]"] by (simp add: logHeader_def hdr24_def)
  show "take 24 (logHeader big szPg n salt) = hdr24 big szPg n salt" "take 8 (drop 16 (logHeader big szPg n salt)) = salt"
    using assms by (simp_all add: logHeader_def hdr24_def)
qed

lemma magic_bits: "(WAL_MAGIC OR (if big then 1 else 0)) AND 0xFFFFFFFE = WAL_MAGIC"
  "(WAL_MAGIC OR (if big then 1 else 0)) AND 1 = 1 \<longleftrightarrow> big"
  by (simp_all add: WAL_MAGIC_def)

text \<open>The header that recovery leaves.\<close>

definition recHdr :: "bool \<Rightarrow> nat \<Rightarrow> u32 \<Rightarrow> u8 list \<Rightarrow> frame list \<Rightarrow> walhdr" where
  "recHdr big szPg n salt cs = (commitHdr szPg 0 cs (zeroHdr\<lparr>bigEndCksum := big, aSalt := salt, isInit := True\<rparr>))
     \<lparr>aFrameCksum := (if cs = [] then (0, 0) else runCk big (hdrCk big szPg n salt) cs)\<rparr>"

lemma whdr_recoverFinish: "whdr (recoverFinish ck w) = (whdr w)\<lparr>aFrameCksum := ck, isInit := True\<rparr>"
  by (simp add: recoverFinish_def walIndexWriteHdr_def set_whdr_def whdr_def Let_def)

lemma walIndexRecover_ok:
  assumes "pWalFd w = logFile big szPg n salt fs @ tail" "dead big salt (runCk big (hdrCk big szPg n salt) fs) szPg tail"
    "list_all (frame_ok szPg) fs" "page_size szPg" "length salt = 8" "fs \<noteq> [] \<or> tail \<noteq> []"
    "idx_ok (ix w) []" "osRc w = []" "False \<notin> set (mapOk (ix w))"
  shows "\<exists>w'. walIndexRecover be w = Some (0, w') \<and> whdr w' = recHdr big szPg n salt (committed fs) \<and> live (ix w') = whdr w'
    \<and> idx_ok (ix w') (map fst fs) \<and> szPage w' = szPg \<and> nCkpt (ix w') = n \<and> pWalFd w' = pWalFd w
    \<and> readLock (ix w') = readLock (ix w) \<and> minFrame (ix w') = minFrame (ix w) \<and> False \<notin> set (mapOk (ix w')) \<and> osRc w' = [] \<and> iReCksum w' = iReCksum w
    \<and> nBackfill (ckpt w') = 0 \<and> nBackfillAttempted (ckpt w') = length (committed fs)"
proof -
  define H where "H = logHeader big szPg n salt"
  define ck where "ck = hdrCk big szPg n salt"
  note ps = page_size_cases [OF assms(4)]
  note h = logHeader_get4 [OF assms(5), of big szPg n, folded H_def ck_def]
  have lenH: "length H = WAL_HDRSIZE" unfolding H_def by (rule length_logHeader [OF assms(5)])
  have fd: "pWalFd w = H @ logBytes big salt ck fs @ tail" using assms(1) by (simp add: logFile_def H_def ck_def)
  have "logBytes big salt ck fs @ tail \<noteq> []"
    using assms(6) length_logBytes [OF assms(5,3), of big ck] by (cases fs) (auto simp: WAL_FRAME_HDRSIZE_def)
  then have long: "WAL_HDRSIZE < length (pWalFd w)" by (simp add: fd lenH)
  define w0 where "w0 = set_whdr zeroHdr w"
  define w1 where "w1 = w0\<lparr>szPage := szPg, ix := (ix w0)\<lparr>nCkpt := n, hdr := (whdr w0)\<lparr>bigEndCksum := big, aSalt := salt, aFrameCksum := ck\<rparr>\<rparr>\<rparr>"
  have r: "sqlite3OsRead WAL_HDRSIZE 0 w0 = (0, H, w0)"
    using OsRead_ok [of w0 0 WAL_HDRSIZE] assms(8) long lenH by (simp add: w0_def fd)
  have cks: "walChecksumBytes be (big = be) (hdr24 big szPg n salt) None = Some ck"
    using walChecksumBytes_eq [of "hdr24 big szPg n salt" be big None] assms(5)
    by (simp add: ck_def hdrCk_def hdr24_def cksum_len_def)
  have os1: "osCall w1 = (0, 0, w1)" using assms(8) by (simp add: w1_def w0_def)
  have "\<exists>w' y. recoverLoop be (length (pWalFd w1)) szPg w1 (length ([] :: u32 list)) (length H) (0, 0)
      = Some (0, if committed fs = [] then (0, 0) else runCk big ck (committed fs), w')
    \<and> idx_ok (ix w') ([] @ map fst fs) \<and> whdr w' = (commitHdr szPg (length ([] :: u32 list)) (committed fs) (whdr w1))\<lparr>aFrameCksum := y\<rparr> \<and> same_env w1 w'"
    by (rule recoverLoop_ok) (use assms ps in \<open>simp_all add: w1_def w0_def fd ck_def set_whdr_def whdr_def idx_ok_def\<close>)
  then obtain w2 y where w2: "recoverLoop be (length (pWalFd w1)) szPg w1 0 WAL_HDRSIZE (0, 0)
      = Some (0, if committed fs = [] then (0, 0) else runCk big ck (committed fs), w2)"
    "idx_ok (ix w2) (map fst fs)" "whdr w2 = (commitHdr szPg 0 (committed fs) (whdr w1))\<lparr>aFrameCksum := y\<rparr>" "same_env w1 w2"
    unfolding lenH by auto
  define ck2 where "ck2 = (if committed fs = [] then (0, 0) else runCk big ck (committed fs))"
  have fd1: "length (pWalFd w1) = length (pWalFd w)" by (simp add: w1_def w0_def)
  have os0: "osRc w0 = []" "pWalFd w0 = pWalFd w" using assms(8) by (simp_all add: w0_def)
  have log: "recoverLog be (length (pWalFd w)) w0 = Some (True, 0, ck2, w2)"
    unfolding recoverLog_def r using h(1-6) h(7) [symmetric] h(8) cks ps(1-4) magic_bits [of big] w2(1) os0
    by (simp add: Let_def fd1 w1_def ck2_def WAL_HDRSIZE_def)
  have rec: "walIndexRecover be w = Some (0, recoverFinish ck2 w2)"
    using log long assms(8) os0 unfolding walIndexRecover_def by (simp add: w0_def [symmetric] Let_def)
  have hd: "whdr (recoverFinish ck2 w2) = recHdr big szPg n salt (committed fs)"
    unfolding whdr_recoverFinish w2(3) recHdr_def ck2_def commitHdr_def ck_def [symmetric]
    by (simp add: w1_def w0_def whdr_def set_whdr_def)
  have "idx_ok (ix (recoverFinish ck2 w2)) (map fst fs)" "live (ix (recoverFinish ck2 w2)) = whdr (recoverFinish ck2 w2)"
    using w2(2) by (simp_all add: recoverFinish_def walIndexWriteHdr_def set_whdr_def whdr_def Let_def idx_ok_def)
  moreover have "ix (recoverFinish ck2 w2) = (ix w2)\<lparr>hdr := whdr (recoverFinish ck2 w2), live := whdr (recoverFinish ck2 w2)\<rparr>"
    "pWalFd (recoverFinish ck2 w2) = pWalFd w2" "szPage (recoverFinish ck2 w2) = szPage w2" "osRc (recoverFinish ck2 w2) = osRc w2"
    "iReCksum (recoverFinish ck2 w2) = iReCksum w2" "nBackfill (ckpt (recoverFinish ck2 w2)) = 0"
    "nBackfillAttempted (ckpt (recoverFinish ck2 w2)) = mxFrame (whdr (recoverFinish ck2 w2))"
    by (simp_all add: recoverFinish_def walIndexWriteHdr_def set_whdr_def whdr_def Let_def)
  moreover have "mxFrame (recHdr big szPg n salt (committed fs)) = length (committed fs)"
    by (simp add: recHdr_def commitHdr_def zeroHdr_def)
  ultimately show ?thesis using rec hd w2(4) assms(8,9)
    by (auto simp: same_env_def w1_def w0_def set_whdr_def)
qed

end
