(* ===== verification/WalCommit.thy ===== *)
theory WalCommit
  imports WalLog
begin

text \<open>
  Writing transactions to the write-ahead log: what \<open>sqlite3WalFrames\<close> leaves in the file.
\<close>

section \<open>Writes without errors\<close>

lemma putAt_end: "bs \<noteq> [] \<Longrightarrow> putAt (A @ T) (length A) bs = A @ bs @ drop (length bs) T"
  by (simp add: putAt_def)

lemma putAt_mid: "length bs = length B \<Longrightarrow> putAt (A @ B @ T) (length A) bs = A @ bs @ T"
  by (auto simp: putAt_def)

lemma putAt_split:
  assumes "off \<le> length f" "k \<le> length bs"
  shows "putAt (putAt f off (take k bs)) (off + k) (drop k bs) = putAt f off bs"
proof -
  define A T where "A = take off f" "T = drop off f"
  have f: "f = A @ T" "off = length A" using assms(1) by (simp_all add: A_T_def)
  show ?thesis
  proof (cases "k = 0 \<or> k = length bs")
    case True
    then show ?thesis by (auto simp: putAt_def)
  next
    case False
    then have ne: "take k bs \<noteq> []" "drop k bs \<noteq> []" "bs \<noteq> []" using assms(2) by auto
    have "putAt f off (take k bs) = (A @ take k bs) @ drop k T" using ne assms(2) by (simp add: f putAt_end)
    moreover have "off + k = length (A @ take k bs)" using assms(2) by (simp add: f)
    ultimately have "putAt (putAt f off (take k bs)) (off + k) (drop k bs) = putAt ((A @ take k bs) @ drop k T) (length (A @ take k bs)) (drop k bs)"
      by (rule arg_cong2 [where f = "\<lambda>x y. putAt x y (drop k bs)"])
    also have "\<dots> = (A @ take k bs) @ drop k bs @ drop (length (drop k bs)) (drop k T)" by (rule putAt_end [OF ne(2)])
    also have "\<dots> = A @ bs @ drop (length bs) T" using assms(2) by simp
    also have "\<dots> = putAt f off bs" using ne(3) by (simp add: f putAt_end)
    finally show ?thesis .
  qed
qed

lemma OsWrite_ok: "osRc w = [] \<Longrightarrow> sqlite3OsWrite bs off w = (0, w\<lparr>pWalFd := putAt (pWalFd w) off bs\<rparr>)"
  by (simp add: sqlite3OsWrite_def)

lemma walWriteToLog_ok:
  assumes "osRc w = []" "off \<le> length (pWalFd w)"
  shows "walWriteToLog sp bs off w = (0, w\<lparr>pWalFd := putAt (pWalFd w) off bs\<rparr>)"
proof (cases "off < sp \<and> off + length bs \<ge> sp")
  case True
  define w1 where "w1 = w\<lparr>pWalFd := putAt (pWalFd w) off (take (sp - off) bs)\<rparr>"
  have o: "osRc w1 = []" using assms(1) by (simp add: w1_def)
  have sync: "sqlite3OsSync w1 = (0, w1)" using o by (simp add: sqlite3OsSync_def)
  have "w1\<lparr>pWalFd := putAt (pWalFd w1) (off + (sp - off)) (drop (sp - off) bs)\<rparr> = w\<lparr>pWalFd := putAt (pWalFd w) off bs\<rparr>"
  proof -
    have "sp - off \<le> length bs" using True by linarith
    from putAt_split [OF assms(2) this] show ?thesis by (simp add: w1_def)
  qed
  moreover have "drop (sp - off) bs = [] \<Longrightarrow> w1 = w\<lparr>pWalFd := putAt (pWalFd w) off bs\<rparr>" by (simp add: w1_def)
  ultimately show ?thesis
    using True OsWrite_ok [OF assms(1)] OsWrite_ok [OF o] sync
    by (simp add: walWriteToLog_def w1_def [symmetric] Let_def)
next
  case False
  show ?thesis unfolding walWriteToLog_def if_not_P [OF False] by (rule OsWrite_ok [OF assms(1)])
qed

text \<open>A slot of the log: a frame whose salt and checksum may be anything.\<close>

definition slotBytes :: "u8 list \<Rightarrow> frame \<Rightarrow> u8 list" where
  "slotBytes j f = sqlite3Put4byte (fst f) @ sqlite3Put4byte (fst (snd f)) @ j @ snd (snd f)"

lemma frameBytes_slot: "frameBytes big salt ck f = slotBytes (salt @ sqlite3Put4byte (fst (frameCk big ck f)) @ sqlite3Put4byte (snd (frameCk big ck f))) f"
  by (simp add: frameBytes_def frameHdr_def slotBytes_def)

text \<open>Writing one frame puts a slot at the offset. With checksums it is a valid frame and the running checksum moves on.\<close>

lemma walWriteOneFrame_slot:
  fixes pg :: "u32 \<times> u8 list" and n :: u32
  assumes "osRc w = []" "pWalFd w = A @ T" "length d = szPage w" "cksum_len (szPage w)" "length (aSalt (whdr w)) = 8"
  defines "f \<equiv> (fst pg, n, d)"
  defines "h \<equiv> whdr w"
  assumes "snd pg = d"
  shows "\<exists>j. length j = 16 \<and> walWriteOneFrame be sp pg n (length A) w = Some (0,
      (if iReCksum w = 0 then set_whdr (h\<lparr>aFrameCksum := frameCk (bigEndCksum h) (aFrameCksum h) f\<rparr>) w else w)
        \<lparr>pWalFd := A @ slotBytes j f @ drop (length (slotBytes j f)) T\<rparr>)
    \<and> (iReCksum w = 0 \<longrightarrow> slotBytes j f = frameBytes (bigEndCksum h) (aSalt h) (aFrameCksum h) f)
    \<and> (iReCksum w \<noteq> 0 \<longrightarrow> j = replicate 16 0)"
proof -
  define ck where "ck = frameCk (bigEndCksum h) (aFrameCksum h) f"
  define j where "j = (if iReCksum w = 0 then aSalt h @ sqlite3Put4byte (fst ck) @ sqlite3Put4byte (snd ck) else replicate 16 0)"
  define w1 where "w1 = (if iReCksum w = 0 then set_whdr (h\<lparr>aFrameCksum := ck\<rparr>) w else w)"
  define H where "H = sqlite3Put4byte (fst f) @ sqlite3Put4byte (fst (snd f)) @ j"
  have j: "length j = 16" using assms(5) by (simp add: j_def h_def)
  have sb: "slotBytes j f = H @ d" by (simp add: slotBytes_def H_def f_def)
  have w1: "osRc w1 = []" "pWalFd w1 = A @ T" "szPage w1 = szPage w" using assms(1,2) by (simp_all add: w1_def)
  have enc: "walEncodeFrame be w (fst pg) n (snd pg) = Some (H, w1)"
  proof (cases "iReCksum w = 0")
    case True
    with walEncodeFrame_ok [OF True assms(3,4), of be "fst pg" n] show ?thesis
      by (simp add: H_def j_def w1_def ck_def frameHdr_def f_def h_def assms(8))
  next
    case False
    then show ?thesis by (simp add: walEncodeFrame_def H_def j_def w1_def f_def Let_def)
  qed
  define w2 where "w2 = w1\<lparr>pWalFd := putAt (pWalFd w1) (length A) H\<rparr>"
  have "H \<noteq> []" using j by (auto simp: H_def)
  then have fd2: "pWalFd w2 = A @ H @ drop (length H) T" by (simp add: w2_def w1(2) putAt_end)
  have s1: "walWriteToLog sp H (length A) w1 = (0, w2)" unfolding w2_def by (rule walWriteToLog_ok) (simp_all add: w1)
  have s2: "walWriteToLog sp d (length A + length H) w2 = (0, w2\<lparr>pWalFd := putAt (pWalFd w2) (length A + length H) d\<rparr>)"
    by (rule walWriteToLog_ok) (use w1 fd2 in \<open>simp_all add: w2_def\<close>)
  have "d \<noteq> []" using assms(3,4) by (auto simp: cksum_len_def)
  then have "putAt (pWalFd w2) (length A + length H) d = A @ H @ d @ drop (length (H @ d)) T"
    using putAt_end [of d "A @ H" "drop (length H) T"] by (simp add: fd2 add.commute)
  then have "walWriteOneFrame be sp pg n (length A) w = Some (0, w1\<lparr>pWalFd := A @ slotBytes j f @ drop (length (slotBytes j f)) T\<rparr>)"
    using enc s1 s2 assms(3,8) w1(3) by (simp add: walWriteOneFrame_def sb) (simp add: w2_def)
  moreover have "iReCksum w = 0 \<Longrightarrow> slotBytes j f = frameBytes (bigEndCksum h) (aSalt h) (aFrameCksum h) f"
    by (simp add: frameBytes_slot j_def ck_def)
  moreover have "iReCksum w \<noteq> 0 \<Longrightarrow> j = replicate 16 0" by (simp add: j_def)
  ultimately show ?thesis using j by (intro exI [of _ j]) (simp add: w1_def ck_def)
qed

fun slots :: "u8 list \<Rightarrow> frame list \<Rightarrow> bool" where
  "slots B [] \<longleftrightarrow> B = []"
| "slots B (f # fs) \<longleftrightarrow> (\<exists>j B'. length j = 16 \<and> B = slotBytes j f @ B' \<and> slots B' fs)"

lemma slots_append: "slots B (fs @ gs) \<longleftrightarrow> (\<exists>B1 B2. B = B1 @ B2 \<and> slots B1 fs \<and> slots B2 gs)"
proof (induction fs arbitrary: B)
  case (Cons f fs)
  then show ?case by simp (metis append.assoc)
qed simp

lemma logBytes_slots: "length salt = 8 \<Longrightarrow> slots (logBytes big salt ck fs) fs"
proof (induction fs arbitrary: ck)
  case (Cons f fs)
  then show ?case unfolding logBytes.simps slots.simps frameBytes_slot
    by (intro exI conjI) (auto intro: Cons.IH)
qed simp

lemma length_slotBytes: "length j = 16 \<Longrightarrow> frame_ok szPg f \<Longrightarrow> length (slotBytes j f) = szPg + WAL_FRAME_HDRSIZE"
  by (simp add: slotBytes_def frame_ok_def WAL_FRAME_HDRSIZE_def)

lemma length_slots: "slots B fs \<Longrightarrow> list_all (frame_ok szPg) fs \<Longrightarrow> length B = length fs * (szPg + WAL_FRAME_HDRSIZE)"
  by (induction fs arbitrary: B) (auto simp: length_slotBytes)

text \<open>Another contents for the frame at a position.\<close>

definition setData :: "nat \<Rightarrow> u8 list \<Rightarrow> frame list \<Rightarrow> frame list" where
  "setData k d fs = fs[k := (fst (fs ! k), fst (snd (fs ! k)), d)]"

lemma setData_simps [simp]:
  "length (setData k d fs) = length fs" "map fst (setData k d fs) = map fst fs"
  "setData 0 d (f # fs) = (fst f, fst (snd f), d) # fs" "setData (Suc k) d (f # fs) = f # setData k d fs"
  "take k (setData k d fs) = take k fs"
  by (simp_all add: setData_def map_update list_update_id) (cases "k < length fs"; simp add: list_update_beyond map_update list_update_id nth_map [symmetric] del: nth_map)

lemma setData_ok: "list_all (frame_ok szPg) fs \<Longrightarrow> length d = szPg \<Longrightarrow> list_all (frame_ok szPg) (setData k d fs)"
  by (induction fs arbitrary: k) (auto simp: setData_def frame_ok_def split: nat.splits)

lemma slots_setData:
  assumes "slots B fs" "list_all (frame_ok szPg) fs" "k < length fs" "length d = szPg"
  shows "\<exists>B'. slots B' (setData k d fs) \<and>
    (\<forall>A T. putAt (A @ B @ T) (length A + k * (szPg + WAL_FRAME_HDRSIZE) + WAL_FRAME_HDRSIZE) d = A @ B' @ T)"
  using assms
proof (induction fs arbitrary: B k)
  case (Cons f fs)
  then obtain j B1 where B: "length j = 16" "B = slotBytes j f @ B1" "slots B1 fs" by auto
  have f: "frame_ok szPg f" using Cons.prems(2) by simp
  show ?case
  proof (cases k)
    case 0
    define H where "H = sqlite3Put4byte (fst f) @ sqlite3Put4byte (fst (snd f)) @ j"
    have H: "length H = WAL_FRAME_HDRSIZE" using B(1) by (simp add: H_def WAL_FRAME_HDRSIZE_def)
    have "putAt (A @ B @ T) (length A + WAL_FRAME_HDRSIZE) d = A @ (H @ d @ B1) @ T" for A T
      using putAt_mid [of d "snd (snd f)" "A @ H" "B1 @ T"] f Cons.prems(4) H
      by (simp add: B(2) slotBytes_def frame_ok_def H_def)
    moreover have "slots (H @ d @ B1) (setData 0 d (f # fs))"
      unfolding setData_simps slots.simps
      by (rule exI [of _ j], rule exI [of _ B1]) (use B(1,3) in \<open>simp add: slotBytes_def H_def\<close>)
    ultimately show ?thesis using 0 by (intro exI [of _ "H @ d @ B1"]) simp
  next
    case (Suc k')
    then obtain B' where B': "slots B' (setData k' d fs)"
      "\<And>A T. putAt (A @ B1 @ T) (length A + k' * (szPg + WAL_FRAME_HDRSIZE) + WAL_FRAME_HDRSIZE) d = A @ B' @ T"
      using Cons.IH [OF B(3), of k'] Cons.prems by auto
    have "length A + k * (szPg + WAL_FRAME_HDRSIZE) = length (A @ slotBytes j f) + k' * (szPg + WAL_FRAME_HDRSIZE)" for A :: "u8 list"
      using length_slotBytes [OF B(1) f] Suc by simp
    then have "putAt (A @ B @ T) (length A + k * (szPg + WAL_FRAME_HDRSIZE) + WAL_FRAME_HDRSIZE) d = A @ (slotBytes j f @ B') @ T" for A T
      using B'(2) [of "A @ slotBytes j f" T] by (simp add: B(2) add.assoc)
    moreover have "slots (slotBytes j f @ B') (setData k d (f # fs))" using B(1) B'(1) Suc by auto
    ultimately show ?thesis by (intro exI [of _ "slotBytes j f @ B'"]) simp
  qed
qed simp

section \<open>The file of a writer\<close>

definition hdr_ck :: "nat \<Rightarrow> wallog \<Rightarrow> u32 \<times> u32" where
  "hdr_ck szPg w = hdrCk (bigEndCksum (whdr w)) szPg (nCkpt (ix w)) (aSalt (whdr w))"

text \<open>
  The file holds the header and the frames \<open>fs\<close>; the frames from \<open>iReCksum\<close> on, if that is set, wait for their checksums.
\<close>

definition finv :: "nat \<Rightarrow> wallog \<Rightarrow> frame list \<Rightarrow> bool" where
  "finv szPg w fs \<longleftrightarrow> list_all (frame_ok szPg) fs \<and> szPage w = szPg \<and> page_size szPg \<and> length (aSalt (whdr w)) = 8 \<and> osRc w = [] \<and> iReCksum w \<le> length fs
     \<and> (iReCksum w = 0 \<longrightarrow> aFrameCksum (whdr w) = runCk (bigEndCksum (whdr w)) (hdr_ck szPg w) fs)
     \<and> (\<exists>B tail. pWalFd w = logHeader (bigEndCksum (whdr w)) szPg (nCkpt (ix w)) (aSalt (whdr w))
            @ logBytes (bigEndCksum (whdr w)) (aSalt (whdr w)) (hdr_ck szPg w) (if iReCksum w = 0 then fs else take (iReCksum w - 1) fs) @ B @ tail
          \<and> slots B (if iReCksum w = 0 then [] else drop (iReCksum w - 1) fs))"

lemma finvD:
  assumes "finv szPg w fs"
  shows "list_all (frame_ok szPg) fs" "szPage w = szPg" "page_size szPg" "length (aSalt (whdr w)) = 8" "osRc w = []" "iReCksum w \<le> length fs"
    "iReCksum w = 0 \<Longrightarrow> aFrameCksum (whdr w) = runCk (bigEndCksum (whdr w)) (hdr_ck szPg w) fs"
  using assms unfolding finv_def by simp_all

lemma finvI:
  assumes "list_all (frame_ok szPg) fs" "szPage w = szPg" "page_size szPg" "length (aSalt (whdr w)) = 8" "osRc w = []" "iReCksum w \<le> length fs"
    "iReCksum w = 0 \<Longrightarrow> aFrameCksum (whdr w) = runCk (bigEndCksum (whdr w)) (hdr_ck szPg w) fs"
    "pWalFd w = logHeader (bigEndCksum (whdr w)) szPg (nCkpt (ix w)) (aSalt (whdr w))
       @ logBytes (bigEndCksum (whdr w)) (aSalt (whdr w)) (hdr_ck szPg w) (if iReCksum w = 0 then fs else take (iReCksum w - 1) fs) @ B @ tail"
    "slots B (if iReCksum w = 0 then [] else drop (iReCksum w - 1) fs)"
  shows "finv szPg w fs"
  unfolding finv_def using assms by blast

lemma finv_file:
  assumes "finv szPg w fs" "iReCksum w = 0 \<or> r \<le> iReCksum w" "0 < r" "r \<le> length fs"
  shows "\<exists>B tail. pWalFd w = logHeader (bigEndCksum (whdr w)) szPg (nCkpt (ix w)) (aSalt (whdr w))
            @ logBytes (bigEndCksum (whdr w)) (aSalt (whdr w)) (hdr_ck szPg w) (take (r - 1) fs) @ B @ tail
          \<and> slots B (drop (r - 1) fs)"
proof -
  let ?log = "logBytes (bigEndCksum (whdr w)) (aSalt (whdr w))"
  define r' where "r' = (if iReCksum w = 0 then length fs else iReCksum w - 1)"
  have r': "r - 1 \<le> r'" "r' \<le> length fs" using assms finvD(6) [OF assms(1)] by (auto simp: r'_def)
  obtain B tail where B: "pWalFd w = logHeader (bigEndCksum (whdr w)) szPg (nCkpt (ix w)) (aSalt (whdr w)) @ ?log (hdr_ck szPg w) (take r' fs) @ B @ tail"
    "slots B (drop r' fs)"
    using assms(1) unfolding finv_def r'_def by (auto split: if_splits)
  define mid where "mid = take (r' - (r - 1)) (drop (r - 1) fs)"
  have t: "take r' fs = take (r - 1) fs @ mid" "drop (r - 1) fs = mid @ drop r' fs"
    using r' append_take_drop_id [of "r' - (r - 1)" "drop (r - 1) fs"] by (simp_all add: mid_def take_add [symmetric])
  have "slots (?log (runCk (bigEndCksum (whdr w)) (hdr_ck szPg w) (take (r - 1) fs)) mid @ B) (drop (r - 1) fs)"
    unfolding t(2) slots_append using logBytes_slots [OF finvD(4) [OF assms(1)]] B(2) by blast
  with B(1) show ?thesis unfolding t(1) logBytes_append by (metis append.assoc)
qed

text \<open>Writing frames changes the file and the running checksum; the index may be mapped further.\<close>

definition keeps :: "wallog \<Rightarrow> wallog \<Rightarrow> bool" where
  "keeps w w' \<longleftrightarrow> (whdr w')\<lparr>aFrameCksum := (0, 0)\<rparr> = (whdr w)\<lparr>aFrameCksum := (0, 0)\<rparr> \<and> blocks (ix w') = blocks (ix w) \<and> live (ix w') = live (ix w)
     \<and> readLock (ix w') = readLock (ix w) \<and> minFrame (ix w') = minFrame (ix w) \<and> nCkpt (ix w') = nCkpt (ix w)
     \<and> (False \<in> set (mapOk (ix w')) \<longrightarrow> False \<in> set (mapOk (ix w)))
     \<and> truncateOnCommit w' = truncateOnCommit w \<and> padToSectorBoundary w' = padToSectorBoundary w \<and> mxWalSize w' = mxWalSize w"

lemma keeps_refl [simp]: "keeps w w"
  by (simp add: keeps_def)

lemma keeps_trans: "keeps w w' \<Longrightarrow> keeps w' w'' \<Longrightarrow> keeps w w''"
  unfolding keeps_def by simp

lemma keepsD:
  assumes "keeps w w'"
  shows "mxFrame (whdr w') = mxFrame (whdr w)" "bigEndCksum (whdr w') = bigEndCksum (whdr w)" "aSalt (whdr w') = aSalt (whdr w)"
    "blocks (ix w') = blocks (ix w)" "live (ix w') = live (ix w)" "readLock (ix w') = readLock (ix w)" "minFrame (ix w') = minFrame (ix w)"
    "nCkpt (ix w') = nCkpt (ix w)" "False \<notin> set (mapOk (ix w)) \<Longrightarrow> False \<notin> set (mapOk (ix w'))"
    "idx_ok (ix w') pg \<longleftrightarrow> idx_ok (ix w) pg" "iChange (whdr w') = iChange (whdr w)"
proof -
  have h: "(whdr w')\<lparr>aFrameCksum := (0, 0)\<rparr> = (whdr w)\<lparr>aFrameCksum := (0, 0)\<rparr>" using assms unfolding keeps_def by (elim conjE)
  have b: "blocks (ix w') = blocks (ix w)" using assms unfolding keeps_def by (elim conjE)
  show "mxFrame (whdr w') = mxFrame (whdr w)" "bigEndCksum (whdr w') = bigEndCksum (whdr w)" "aSalt (whdr w') = aSalt (whdr w)"
    "iChange (whdr w') = iChange (whdr w)"
    using arg_cong [OF h, of mxFrame] arg_cong [OF h, of bigEndCksum] arg_cong [OF h, of aSalt] arg_cong [OF h, of iChange] by simp_all
  show "blocks (ix w') = blocks (ix w)" "idx_ok (ix w') pg \<longleftrightarrow> idx_ok (ix w) pg" by (simp_all add: b idx_ok_def)
  show "live (ix w') = live (ix w)" "readLock (ix w') = readLock (ix w)" "minFrame (ix w') = minFrame (ix w)"
    "nCkpt (ix w') = nCkpt (ix w)" "False \<notin> set (mapOk (ix w)) \<Longrightarrow> False \<notin> set (mapOk (ix w'))"
    using assms unfolding keeps_def by blast+
qed

lemma keeps_fd [simp]: "keeps w (w'\<lparr>pWalFd := fd\<rparr>) \<longleftrightarrow> keeps w w'" "keeps w (w'\<lparr>iReCksum := r\<rparr>) \<longleftrightarrow> keeps w w'"
  by (simp_all add: keeps_def whdr_def)

lemma keeps_ck [simp]: "keeps w (set_whdr ((whdr w)\<lparr>aFrameCksum := ck\<rparr>) w)"
  by (simp add: keeps_def) (simp add: set_whdr_def)

lemma keeps_ix: "same_index (ix w) i \<Longrightarrow> keeps w (w\<lparr>ix := i\<rparr>)"
  by (simp add: keeps_def same_index_def whdr_def)

lemma finv_cong:
  assumes "bigEndCksum (whdr w') = bigEndCksum (whdr w)" "aSalt (whdr w') = aSalt (whdr w)" "aFrameCksum (whdr w') = aFrameCksum (whdr w)"
    "nCkpt (ix w') = nCkpt (ix w)" "szPage w' = szPage w" "osRc w' = osRc w" "iReCksum w' = iReCksum w" "pWalFd w' = pWalFd w"
  shows "finv szPg w' fs \<longleftrightarrow> finv szPg w fs"
  using assms by (simp add: finv_def hdr_ck_def)

lemma length_log_prefix:
  assumes "length salt = 8" "list_all (frame_ok szPg) fs" "k \<le> length fs"
  shows "length (logHeader big szPg n salt @ logBytes big salt ck (take k fs)) = walFrameOffset (k + 1) szPg"
proof -
  have "list_all (frame_ok szPg) (take k fs)" using assms(2) by (simp add: list_all_iff) (meson in_set_takeD)
  then show ?thesis using assms by (simp add: length_logHeader length_logBytes walFrameOffset_def)
qed

lemma overwrite_ok:
  assumes "finv szPg w fs" "0 < i" "i \<le> length fs" "length d = szPg"
  defines "w1 \<equiv> (if iReCksum w = 0 \<or> i < iReCksum w then w\<lparr>iReCksum := i\<rparr> else w)"
  shows "\<exists>w2. sqlite3OsWrite (take (szPage w1) d) (walFrameOffset i (szPage w1) + WAL_FRAME_HDRSIZE) w1 = (0, w2)
    \<and> finv szPg w2 (setData (i - 1) d fs) \<and> keeps w w2 \<and> iReCksum w2 = iReCksum w1"
proof -
  note fv = finvD [OF assms(1)]
  define r where "r = iReCksum w1"
  have r: "iReCksum w = 0 \<or> r \<le> iReCksum w" "0 < r" "r \<le> i" using assms(2) by (auto simp: r_def w1_def)
  obtain B tail where B: "pWalFd w = logHeader (bigEndCksum (whdr w)) szPg (nCkpt (ix w)) (aSalt (whdr w))
        @ logBytes (bigEndCksum (whdr w)) (aSalt (whdr w)) (hdr_ck szPg w) (take (r - 1) fs) @ B @ tail" "slots B (drop (r - 1) fs)"
    using finv_file [OF assms(1) r(1,2)] r(3) assms(3) by auto
  define A where "A = logHeader (bigEndCksum (whdr w)) szPg (nCkpt (ix w)) (aSalt (whdr w))
        @ logBytes (bigEndCksum (whdr w)) (aSalt (whdr w)) (hdr_ck szPg w) (take (r - 1) fs)"
  have lenA: "length A = walFrameOffset (r - 1 + 1) szPg" unfolding A_def
    by (rule length_log_prefix) (use fv r assms(3) in simp_all)
  have "list_all (frame_ok szPg) (drop (r - 1) fs)" using fv(1) by (simp add: list_all_iff) (meson in_set_dropD)
  moreover have "i - r < length (drop (r - 1) fs)" using r assms(2,3) by simp
  ultimately obtain B' where B': "slots B' (setData (i - r) d (drop (r - 1) fs))"
    "putAt (A @ B @ tail) (length A + (i - r) * (szPg + WAL_FRAME_HDRSIZE) + WAL_FRAME_HDRSIZE) d = A @ B' @ tail"
    using slots_setData [OF B(2), of szPg "i - r" d] assms(4) by blast
  have "length A + (i - r) * (szPg + WAL_FRAME_HDRSIZE) = walFrameOffset i szPg"
  proof -
    have "i - 1 = (r - 1) + (i - r)" using r by simp
    then show ?thesis using lenA by (simp add: walFrameOffset_def add_mult_distrib)
  qed
  then have put: "putAt (pWalFd w) (walFrameOffset i szPg + WAL_FRAME_HDRSIZE) d = A @ B' @ tail" using B'(2) B(1) by (simp add: A_def)
  define w2 where "w2 = w1\<lparr>pWalFd := A @ B' @ tail\<rparr>"
  have "sqlite3OsWrite (take (szPage w1) d) (walFrameOffset i (szPage w1) + WAL_FRAME_HDRSIZE) w1 = (0, w2)"
    using fv(2,5) assms(4) put by (simp add: OsWrite_ok w1_def w2_def)
  moreover have "setData (i - r) d (drop (r - 1) fs) = drop (r - 1) (setData (i - 1) d fs)"
  proof -
    have "i - 1 = (r - 1) + (i - r)" using r by simp
    then show ?thesis using r assms(3) by (simp add: setData_def drop_update_swap)
  qed
  then have "slots B' (drop (r - 1) (setData (i - 1) d fs))" using B'(1) by simp
  moreover have "take (r - 1) (setData (i - 1) d fs) = take (r - 1) fs" using r by (simp add: setData_def)
  ultimately have "finv szPg w2 (setData (i - 1) d fs)"
    using fv r assms(3,4) setData_ok [OF fv(1) assms(4)]
    by (intro finvI [where B = B' and tail = tail]) (simp_all add: w2_def r_def w1_def A_def hdr_ck_def whdr_def split: if_splits)
  then show ?thesis
    using \<open>sqlite3OsWrite _ _ _ = _\<close> by (intro exI [of _ w2]) (simp add: w2_def w1_def)
qed

lemma append_frame_ok:
  assumes "finv szPg w fs" "frame_ok szPg (p, n, d)"
  shows "\<exists>w2. walWriteOneFrame be sp (p, d) n (walFrameOffset (length fs + 1) szPg) w = Some (0, w2)
    \<and> finv szPg w2 (fs @ [(p, n, d)]) \<and> keeps w w2 \<and> iReCksum w2 = iReCksum w"
proof -
  note fv = finvD [OF assms(1)]
  let ?big = "bigEndCksum (whdr w)" and ?salt = "aSalt (whdr w)" and ?r = "iReCksum w"
  define fs1 where "fs1 = (if ?r = 0 then fs else take (?r - 1) fs)"
  define fs2 where "fs2 = (if ?r = 0 then [] else drop (?r - 1) fs)"
  obtain B tail where B: "pWalFd w = logHeader ?big szPg (nCkpt (ix w)) ?salt @ logBytes ?big ?salt (hdr_ck szPg w) fs1 @ B @ tail" "slots B fs2"
    using assms(1) unfolding finv_def fs1_def fs2_def by blast
  define A where "A = logHeader ?big szPg (nCkpt (ix w)) ?salt @ logBytes ?big ?salt (hdr_ck szPg w) fs1 @ B"
  have fs: "fs = fs1 @ fs2" by (simp add: fs1_def fs2_def)
  have "list_all (frame_ok szPg) fs1" "list_all (frame_ok szPg) fs2" using fv(1) unfolding fs by simp_all
  then have lenA: "length A = walFrameOffset (length fs + 1) szPg"
    using fv(4) length_slots [OF B(2)] by (simp add: A_def length_logHeader length_logBytes walFrameOffset_def fs add_mult_distrib)
  define f where "f = (p, n, d)"
  have d: "length d = szPage w" "cksum_len (szPage w)" using assms(2) fv(2) page_size_cases(5) [OF fv(3)] by (simp_all add: frame_ok_def)
  have "pWalFd w = A @ tail" using B(1) by (simp add: A_def)
  from walWriteOneFrame_slot [OF fv(5) this d fv(4), of "(p, d)" be sp n, unfolded fst_conv snd_conv, folded f_def, OF refl] obtain j
    where j: "length j = 16" "walWriteOneFrame be sp (p, d) n (length A) w = Some (0,
      (if ?r = 0 then set_whdr ((whdr w)\<lparr>aFrameCksum := frameCk ?big (aFrameCksum (whdr w)) f\<rparr>) w else w)
        \<lparr>pWalFd := A @ slotBytes j f @ drop (length (slotBytes j f)) tail\<rparr>)"
    "?r = 0 \<longrightarrow> slotBytes j f = frameBytes ?big ?salt (aFrameCksum (whdr w)) f"
    by (elim exE conjE) (rule that)
  define T where "T = drop (length (slotBytes j f)) tail"
  define w2 where "w2 = (if ?r = 0 then set_whdr ((whdr w)\<lparr>aFrameCksum := frameCk ?big (aFrameCksum (whdr w)) f\<rparr>) w else w)
      \<lparr>pWalFd := A @ slotBytes j f @ T\<rparr>"
  have frame2: "bigEndCksum (whdr w2) = ?big" "aSalt (whdr w2) = ?salt" "nCkpt (ix w2) = nCkpt (ix w)" "iReCksum w2 = ?r" "osRc w2 = []" "szPage w2 = szPg"
    "pWalFd w2 = A @ slotBytes j f @ T" "hdr_ck szPg w2 = hdr_ck szPg w"
    using fv(2,5) by (simp_all add: w2_def whdr_def set_whdr_def hdr_ck_def)
  have "finv szPg w2 (fs @ [f])"
  proof (cases "?r = 0")
    case True
    have "pWalFd w2 = logHeader ?big szPg (nCkpt (ix w)) ?salt @ logBytes ?big ?salt (hdr_ck szPg w) (fs @ [f]) @ [] @ T"
      using B(2) j(3) True fv(7) [OF True] frame2(7) by (simp add: A_def fs1_def fs2_def logBytes_append)
    moreover have "aFrameCksum (whdr w2) = runCk ?big (hdr_ck szPg w) (fs @ [f])"
      using True fv(7) [OF True] by (simp add: w2_def whdr_def set_whdr_def)
    ultimately show ?thesis using fv frame2(1-6,8) True assms(2)
      by (intro finvI [where B = "[]" and tail = T]) (simp_all add: f_def)
  next
    case False
    have "slots (B @ slotBytes j f) (fs2 @ [f])" unfolding slots_append using B(2) j(1) by fastforce
    moreover have "drop (?r - 1) (fs @ [f]) = fs2 @ [f]" "take (?r - 1) (fs @ [f]) = fs1" using fv(6) False by (simp_all add: fs1_def fs2_def)
    moreover have "pWalFd w2 = logHeader ?big szPg (nCkpt (ix w)) ?salt @ logBytes ?big ?salt (hdr_ck szPg w) fs1 @ (B @ slotBytes j f) @ T"
      using frame2(7) by (simp add: A_def)
    ultimately show ?thesis using fv frame2(1-6,8) False assms(2)
      by (intro finvI [where B = "B @ slotBytes j f" and tail = T]) (simp_all add: f_def)
  qed
  moreover have "keeps w w2" by (simp add: w2_def)
  ultimately show ?thesis using j(2) frame2(4) unfolding lenA by (intro exI [of _ w2]) (simp add: w2_def T_def f_def)
qed

section \<open>The pages of one call\<close>

text \<open>What the loop over the dirty pages does to the list of frames; \<open>fnd\<close> is the frame that the wal-index has for a page.\<close>

fun applyPages :: "(u32 \<Rightarrow> nat) \<Rightarrow> u32 \<Rightarrow> bool \<Rightarrow> nat \<Rightarrow> (u32 \<times> u8 list) list \<Rightarrow> frame list \<Rightarrow> frame list" where
  "applyPages fnd nTruncate isCommit iFirst [] fs = fs"
| "applyPages fnd nTruncate isCommit iFirst (p # ps) fs =
     (let i = (if iFirst \<noteq> 0 \<and> (ps \<noteq> [] \<or> \<not> isCommit) then fnd (fst p) else 0)
      in if i \<noteq> 0 \<and> i \<ge> iFirst then applyPages fnd nTruncate isCommit iFirst ps (setData (i - 1) (snd p) fs)
         else applyPages fnd nTruncate isCommit iFirst ps (fs @ [(fst p, if isCommit \<and> ps = [] then nTruncate else 0, snd p)]))"

lemma lastFrame_le: "lastFrame pg p lo hi \<le> hi"
  by (induction hi) auto

lemma writePages_ok:
  assumes "finv szPg w fs" "idx_ok (ix w) pg" "mxFrame (whdr w) = length pg" "length pg \<le> length fs" "readLock (ix w) \<noteq> 0"
    "False \<notin> set (mapOk (ix w))" "list_all (\<lambda>p. fst p \<noteq> 0 \<and> length (snd p) = szPg) ps"
  defines "fnd \<equiv> \<lambda>p. lastFrame pg p (minFrame (ix w)) (length pg)"
  shows "\<exists>w' new. writePages be nT c iFirst ps app (length fs) (walFrameOffset (length fs + 1) szPg) w
      = Some (0, rev new @ app, length (applyPages fnd nT c iFirst ps fs), walFrameOffset (length (applyPages fnd nT c iFirst ps fs) + 1) szPg, w')
    \<and> finv szPg w' (applyPages fnd nT c iFirst ps fs) \<and> keeps w w' \<and> map fst (applyPages fnd nT c iFirst ps fs) = map fst fs @ map fst new
    \<and> (c \<longrightarrow> ps \<noteq> [] \<longrightarrow> new \<noteq> [] \<and> last new = last ps)"
  using assms(1-7) unfolding fnd_def
proof (induction ps arbitrary: w fs app)
  case Nil
  then show ?case by (intro exI [of _ w] exI [of _ "[]"]) simp
next
  case (Cons p ps)
  let ?fnd = "\<lambda>p. lastFrame pg p (minFrame (ix w)) (length pg)"
  let ?c = "iFirst \<noteq> 0 \<and> (ps \<noteq> [] \<or> \<not> c)"
  define i where "i = (if ?c then ?fnd (fst p) else 0)"
  have p: "fst p \<noteq> 0" "length (snd p) = szPg" using Cons.prems(7) by simp_all
  have "\<exists>w1. (if ?c then do { (rc, iWrite, i) \<leftarrow> sqlite3WalFindFrame (ix w) (fst p); Some (iWrite, w\<lparr>ix := i\<rparr>) } else Some (0, w)) = Some (i, w1)
    \<and> keeps w w1 \<and> finv szPg w1 fs"
  proof (cases ?c)
    case True
    have "mxFrame (hdr (ix w)) = length pg" using Cons.prems(3) by (simp add: whdr_def)
    then obtain x where x: "sqlite3WalFindFrame (ix w) (fst p) = Some (0, i, x)" "same_index (ix w) x"
      using FindFrame_ok [OF Cons.prems(2), of "fst p"] Cons.prems(5,6) True by (auto simp: i_def)
    have "finv szPg (w\<lparr>ix := x\<rparr>) fs"
      using Cons.prems(1) x(2) by (subst finv_cong [of _ w]) (simp_all add: whdr_def same_index_def)
    with True x keeps_ix [OF x(2)] show ?thesis by simp
  next
    case False
    then have "i = 0" unfolding i_def by (rule if_not_P)
    with Cons.prems(1) show ?thesis unfolding if_not_P [OF False] by (intro exI [of _ w]) simp
  qed
  then obtain w1 where w1: "(if ?c then do { (rc, iWrite, i) \<leftarrow> sqlite3WalFindFrame (ix w) (fst p); Some (iWrite, w\<lparr>ix := i\<rparr>) } else Some (0, w)) = Some (i, w1)"
    "keeps w w1" "finv szPg w1 fs" by blast
  have i: "i \<le> length fs" using Cons.prems(4) lastFrame_le [of pg "fst p" "minFrame (ix w)" "length pg"] by (simp add: i_def)
  have step: "\<exists>w2 fs2 new1. writePages be nT c iFirst (p # ps) app (length fs) (walFrameOffset (length fs + 1) szPg) w
      = writePages be nT c iFirst ps (rev new1 @ app) (length fs2) (walFrameOffset (length fs2 + 1) szPg) w2
    \<and> finv szPg w2 fs2 \<and> keeps w w2 \<and> map fst fs2 = map fst fs @ map fst new1 \<and> length fs \<le> length fs2
    \<and> applyPages ?fnd nT c iFirst (p # ps) fs = applyPages ?fnd nT c iFirst ps fs2 \<and> (c \<longrightarrow> ps = [] \<longrightarrow> new1 = [p])"
  proof (cases "i \<noteq> 0 \<and> i \<ge> iFirst")
    case True
    then have i0: "0 < i" by simp
    from overwrite_ok [OF w1(3) i0 i p(2)] obtain w2
      where w2: "sqlite3OsWrite (take (szPage (if iReCksum w1 = 0 \<or> i < iReCksum w1 then w1\<lparr>iReCksum := i\<rparr> else w1)) (snd p))
         (walFrameOffset i (szPage (if iReCksum w1 = 0 \<or> i < iReCksum w1 then w1\<lparr>iReCksum := i\<rparr> else w1)) + WAL_FRAME_HDRSIZE)
         (if iReCksum w1 = 0 \<or> i < iReCksum w1 then w1\<lparr>iReCksum := i\<rparr> else w1) = (0, w2)"
      "finv szPg w2 (setData (i - 1) (snd p) fs)" "keeps w1 w2" by blast
    have "writePages be nT c iFirst (p # ps) app (length fs) (walFrameOffset (length fs + 1) szPg) w
      = writePages be nT c iFirst ps (rev [] @ app) (length (setData (i - 1) (snd p) fs)) (walFrameOffset (length (setData (i - 1) (snd p) fs) + 1) szPg) w2"
      unfolding writePages.simps w1(1) Option.bind.simps prod.case if_P [OF True] Let_def w2(1) by simp
    moreover have "applyPages ?fnd nT c iFirst (p # ps) fs = applyPages ?fnd nT c iFirst ps (setData (i - 1) (snd p) fs)"
      unfolding applyPages.simps Let_def i_def [symmetric] if_P [OF True] by (rule refl)
    moreover have "c \<longrightarrow> ps \<noteq> []" using i0 by (auto simp: i_def split: if_splits)
    ultimately show ?thesis using w2(2) keeps_trans [OF w1(2) w2(3)]
      by (intro exI [of _ w2] exI [of _ "setData (i - 1) (snd p) fs"] exI [of _ "[]"]) simp
  next
    case False
    define n where "n = (if c \<and> ps = [] then nT else 0)"
    define f where "f = (fst p, n, snd p)"
    have "frame_ok szPg f" using p by (simp add: frame_ok_def f_def)
    then obtain w2 where w2: "walWriteOneFrame be 0 p n (walFrameOffset (length fs + 1) szPg) w1 = Some (0, w2)" "finv szPg w2 (fs @ [f])" "keeps w1 w2"
      using append_frame_ok [OF w1(3), of "fst p" n "snd p" be 0] by (auto simp: f_def)
    have sz: "szPage w2 = szPg" using finvD(2) [OF w2(2)] .
    have "walFrameOffset (length fs + 1) szPg + (szPg + WAL_FRAME_HDRSIZE) = walFrameOffset (length (fs @ [f]) + 1) szPg"
      by (simp add: walFrameOffset_def)
    then have "writePages be nT c iFirst (p # ps) app (length fs) (walFrameOffset (length fs + 1) szPg) w
      = writePages be nT c iFirst ps (rev [p] @ app) (length (fs @ [f])) (walFrameOffset (length (fs @ [f]) + 1) szPg) w2"
      unfolding writePages.simps w1(1) Option.bind.simps prod.case if_not_P [OF False] Let_def n_def [symmetric] w2(1) by (simp add: sz)
    moreover have "applyPages ?fnd nT c iFirst (p # ps) fs = applyPages ?fnd nT c iFirst ps (fs @ [f])"
      unfolding applyPages.simps Let_def i_def [symmetric] if_not_P [OF False] by (simp add: f_def n_def)
    ultimately show ?thesis using w2(2) keeps_trans [OF w1(2) w2(3)]
      by (intro exI [of _ w2] exI [of _ "fs @ [f]"] exI [of _ "[p]"]) (simp add: f_def)
  qed
  then obtain w2 fs2 new1 where w2: "writePages be nT c iFirst (p # ps) app (length fs) (walFrameOffset (length fs + 1) szPg) w
      = writePages be nT c iFirst ps (rev new1 @ app) (length fs2) (walFrameOffset (length fs2 + 1) szPg) w2"
    "finv szPg w2 fs2" "keeps w w2" "map fst fs2 = map fst fs @ map fst new1" "length fs \<le> length fs2"
    "applyPages ?fnd nT c iFirst (p # ps) fs = applyPages ?fnd nT c iFirst ps fs2" "c \<longrightarrow> ps = [] \<longrightarrow> new1 = [p]" by blast
  note k = keepsD [OF w2(3)]
  have "\<exists>w' new. writePages be nT c iFirst ps (rev new1 @ app) (length fs2) (walFrameOffset (length fs2 + 1) szPg) w2
      = Some (0, rev new @ rev new1 @ app, length (applyPages ?fnd nT c iFirst ps fs2), walFrameOffset (length (applyPages ?fnd nT c iFirst ps fs2) + 1) szPg, w')
    \<and> finv szPg w' (applyPages ?fnd nT c iFirst ps fs2) \<and> keeps w2 w' \<and> map fst (applyPages ?fnd nT c iFirst ps fs2) = map fst fs2 @ map fst new
    \<and> (c \<longrightarrow> ps \<noteq> [] \<longrightarrow> new \<noteq> [] \<and> last new = last ps)"
    using Cons.IH [OF w2(2), of "rev new1 @ app"] Cons.prems k w2(5) by simp
  then obtain w' new where w': "writePages be nT c iFirst ps (rev new1 @ app) (length fs2) (walFrameOffset (length fs2 + 1) szPg) w2
      = Some (0, rev new @ rev new1 @ app, length (applyPages ?fnd nT c iFirst ps fs2), walFrameOffset (length (applyPages ?fnd nT c iFirst ps fs2) + 1) szPg, w')"
    "finv szPg w' (applyPages ?fnd nT c iFirst ps fs2)" "keeps w2 w'" "map fst (applyPages ?fnd nT c iFirst ps fs2) = map fst fs2 @ map fst new"
    "c \<longrightarrow> ps \<noteq> [] \<longrightarrow> new \<noteq> [] \<and> last new = last ps" by blast
  show ?case
    by (rule exI [of _ w'], rule exI [of _ "new1 @ new"], unfold w2(1,6))
      (use w' w2(4,7) keeps_trans [OF w2(3) w'(3)] in auto)
qed

section \<open>New checksums for overwritten frames\<close>

lemma OsRead_at:
  "osRc w = [] \<Longrightarrow> pWalFd w = X @ M @ Y \<Longrightarrow> amt = length M \<Longrightarrow> off = length X \<Longrightarrow> sqlite3OsRead amt off w = (0, M, w)"
  using OsRead_ok [of w off amt] by simp

lemma slot_get4:
  assumes "length j = 16"
  shows "get4 (slotBytes j f) 0 = Some (fst f)" "get4 (slotBytes j f) 4 = Some (fst (snd f))" "drop WAL_FRAME_HDRSIZE (slotBytes j f) = snd (snd f)"
  using get4_skip [of "sqlite3Put4byte (fst f)" _ 0] assms by (simp_all add: slotBytes_def get4_put WAL_FRAME_HDRSIZE_def)

lemma rewriteLoop_ok:
  assumes "list_all (frame_ok szPg) (fs1 @ fs2)" "szPage w = szPg" "page_size szPg" "length (aSalt (whdr w)) = 8" "osRc w = []" "iReCksum w = 0"
    "aFrameCksum (whdr w) = runCk (bigEndCksum (whdr w)) (hdr_ck szPg w) fs1"
    "pWalFd w = logHeader (bigEndCksum (whdr w)) szPg (nCkpt (ix w)) (aSalt (whdr w))
       @ logBytes (bigEndCksum (whdr w)) (aSalt (whdr w)) (hdr_ck szPg w) fs1 @ B @ tail" "slots B fs2"
  shows "\<exists>w'. rewriteLoop be [length fs1 + 1..<length fs1 + length fs2 + 1] w = Some (0, w') \<and> finv szPg w' (fs1 @ fs2) \<and> keeps w w' \<and> iReCksum w' = 0"
  using assms
proof (induction fs2 arbitrary: fs1 w B)
  case Nil
  then show ?case by (intro exI [of _ w]) (auto intro!: finvI [where B = "[]" and tail = tail])
next
  case (Cons f fs2)
  let ?big = "bigEndCksum (whdr w)" and ?salt = "aSalt (whdr w)"
  define A where "A = logHeader ?big szPg (nCkpt (ix w)) ?salt @ logBytes ?big ?salt (hdr_ck szPg w) fs1"
  obtain j B1 where B: "length j = 16" "B = slotBytes j f @ B1" "slots B1 fs2" using Cons.prems(9) by auto
  have f: "frame_ok szPg f" "list_all (frame_ok szPg) fs1" using Cons.prems(1) by simp_all
  obtain p n d where fd: "f = (p, n, d)" by (cases f)
  have lenA: "length A = walFrameOffset (length fs1 + 1) szPg"
    using length_log_prefix [OF Cons.prems(4) f(2) le_refl] by (simp add: A_def)
  have fl: "pWalFd w = A @ slotBytes j f @ B1 @ tail" using Cons.prems(8) by (simp add: A_def B(2))
  have rd: "sqlite3OsRead (szPg + WAL_FRAME_HDRSIZE) (walFrameOffset (length fs1 + 1) szPg) w = (0, slotBytes j f, w)"
    by (rule OsRead_at [OF Cons.prems(5) fl]) (simp_all add: lenA length_slotBytes [OF B(1) f(1)])
  have d: "length d = szPage w" "cksum_len (szPage w)" using f(1) Cons.prems(2) page_size_cases(5) [OF Cons.prems(3)] by (simp_all add: fd frame_ok_def)
  define ck1 where "ck1 = frameCk ?big (aFrameCksum (whdr w)) f"
  define H where "H = frameHdr ?big ?salt (aFrameCksum (whdr w)) f"
  define w1 where "w1 = set_whdr ((whdr w)\<lparr>aFrameCksum := ck1\<rparr>) w"
  have enc: "walEncodeFrame be w p n d = Some (H, w1)"
    using walEncodeFrame_ok [OF Cons.prems(6) d, of be p n] by (simp add: H_def w1_def ck1_def fd)
  define w2 where "w2 = w1\<lparr>pWalFd := A @ frameBytes ?big ?salt (aFrameCksum (whdr w)) f @ B1 @ tail\<rparr>"
  have put: "putAt (A @ slotBytes j f @ B1 @ tail) (length A) H = A @ frameBytes ?big ?salt (aFrameCksum (whdr w)) f @ B1 @ tail"
    using putAt_mid [of H "sqlite3Put4byte p @ sqlite3Put4byte n @ j" A "d @ B1 @ tail"] B(1) length_frameHdr [OF Cons.prems(4), of ?big "aFrameCksum (whdr w)" f]
    by (simp add: slotBytes_def fd frameBytes_def H_def WAL_FRAME_HDRSIZE_def)
  have wr: "sqlite3OsWrite H (walFrameOffset (length fs1 + 1) szPg) w1 = (0, w2)"
    using Cons.prems(5) fl put [unfolded lenA] by (simp add: OsWrite_ok w1_def w2_def)
  have "[length fs1 + 1..<length fs1 + length (f # fs2) + 1] = (length fs1 + 1) # [length (fs1 @ [f]) + 1..<length (fs1 @ [f]) + length fs2 + 1]"
    by (simp add: upt_conv_Cons del: upt_Suc)
  then have step: "rewriteLoop be [length fs1 + 1..<length fs1 + length (f # fs2) + 1] w
      = rewriteLoop be [length (fs1 @ [f]) + 1..<length (fs1 @ [f]) + length fs2 + 1] w2"
    using rd enc wr slot_get4 [OF B(1), of f] Cons.prems(2) by (simp add: fd del: upt_Suc)
  have "\<exists>w'. rewriteLoop be [length (fs1 @ [f]) + 1..<length (fs1 @ [f]) + length fs2 + 1] w2 = Some (0, w') \<and> finv szPg w' ((fs1 @ [f]) @ fs2) \<and> keeps w2 w' \<and> iReCksum w' = 0"
    by (rule Cons.IH [where B = B1])
      (use Cons.prems(1-7) B(3) in \<open>simp_all add: w2_def w1_def whdr_def set_whdr_def hdr_ck_def ck1_def A_def logBytes_append\<close>)
  moreover have "keeps w w2" by (simp add: w2_def w1_def)
  ultimately show ?case unfolding step using keeps_trans [of w w2] by auto
qed

lemma log_last_cksum:
  fixes big n
  assumes "length salt = 8" "list_all (frame_ok szPg) fs" "0 < r" "r \<le> length fs"
  defines "ck \<equiv> runCk big (hdrCk big szPg n salt) (take (r - 1) fs)"
  defines "off \<equiv> (if r = 1 then 24 else walFrameOffset (r - 1) szPg + 16)"
  shows "\<exists>X Y. logHeader big szPg n salt @ logBytes big salt (hdrCk big szPg n salt) (take (r - 1) fs)
    = X @ (sqlite3Put4byte (fst ck) @ sqlite3Put4byte (snd ck)) @ Y \<and> length X = off"
proof (cases "r = 1")
  case True
  then show ?thesis using assms(1)
    by (intro exI [of _ "hdr24 big szPg n salt"] exI [of _ "[]"]) (simp add: logHeader_def ck_def off_def hdr24_def)
next
  case False
  then obtain k where k: "r - 1 = Suc k" using assms(3) by (cases "r - 1") auto
  have t: "take (r - 1) fs = take k fs @ [fs ! k]" using k assms(4) by (simp add: take_Suc_conv_app_nth)
  define X where "X = logHeader big szPg n salt @ logBytes big salt (hdrCk big szPg n salt) (take k fs)
    @ sqlite3Put4byte (fst (fs ! k)) @ sqlite3Put4byte (fst (snd (fs ! k))) @ salt"
  have "length (logHeader big szPg n salt @ logBytes big salt (hdrCk big szPg n salt) (take k fs)) = walFrameOffset (k + 1) szPg"
    by (rule length_log_prefix) (use assms(1,2,4) k in simp_all)
  then have "length X = off" using k assms(1) False by (simp add: X_def off_def)
  moreover have "logHeader big szPg n salt @ logBytes big salt (hdrCk big szPg n salt) (take (r - 1) fs)
    = X @ (sqlite3Put4byte (fst ck) @ sqlite3Put4byte (snd ck)) @ snd (snd (fs ! k))"
    unfolding t ck_def by (simp add: logBytes_append frameBytes_def frameHdr_def X_def)
  ultimately show ?thesis by blast
qed

lemma walRewriteChecksums_ok:
  assumes "finv szPg w fs" "iReCksum w \<noteq> 0"
  shows "\<exists>w'. walRewriteChecksums be (length fs) w = Some (0, w') \<and> finv szPg w' fs \<and> keeps w w' \<and> iReCksum w' = 0"
proof -
  note fv = finvD [OF assms(1)]
  let ?big = "bigEndCksum (whdr w)" and ?salt = "aSalt (whdr w)" and ?r = "iReCksum w"
  define fs1 where "fs1 = take (?r - 1) fs"
  define fs2 where "fs2 = drop (?r - 1) fs"
  define ck where "ck = runCk ?big (hdr_ck szPg w) fs1"
  obtain B tail where B: "pWalFd w = logHeader ?big szPg (nCkpt (ix w)) ?salt @ logBytes ?big ?salt (hdr_ck szPg w) fs1 @ B @ tail" "slots B fs2"
    using assms unfolding finv_def fs1_def fs2_def by (auto split: if_splits)
  define off where "off = (if ?r = 1 then 24 else walFrameOffset (?r - 1) szPg + 16)"
  have "0 < ?r" using assms(2) by simp
  from log_last_cksum [OF fv(4,1) this fv(6), of ?big "nCkpt (ix w)"] obtain X Y
    where XY: "logHeader ?big szPg (nCkpt (ix w)) ?salt @ logBytes ?big ?salt (hdr_ck szPg w) fs1
      = X @ (sqlite3Put4byte (fst ck) @ sqlite3Put4byte (snd ck)) @ Y" "length X = off"
    unfolding hdr_ck_def [symmetric] fs1_def [symmetric] ck_def [symmetric] off_def [symmetric] by blast
  have "pWalFd w = X @ (sqlite3Put4byte (fst ck) @ sqlite3Put4byte (snd ck)) @ (Y @ B @ tail)"
    using arg_cong [OF XY(1), of "\<lambda>x. x @ B @ tail"] B(1) by simp
  then have rd: "sqlite3OsRead 8 off w = (0, sqlite3Put4byte (fst ck) @ sqlite3Put4byte (snd ck), w)"
    by (rule OsRead_at [OF fv(5)]) (simp_all add: XY(2))
  have c1: "get4 (sqlite3Put4byte (fst ck) @ sqlite3Put4byte (snd ck)) 0 = Some (fst ck)" by (rule get4_put)
  have c2: "get4 (sqlite3Put4byte (fst ck) @ sqlite3Put4byte (snd ck)) 4 = Some (snd ck)"
    using get4_skip [of "sqlite3Put4byte (fst ck)" "sqlite3Put4byte (snd ck)" 0] get4_put [of "snd ck" "[]"] by simp
  define w1 where "w1 = (set_whdr ((whdr w)\<lparr>aFrameCksum := ck\<rparr>) w)\<lparr>iReCksum := 0\<rparr>"
  have len: "length fs1 + 1 = ?r" "length fs1 + length fs2 = length fs" using assms(2) fv(6) by (simp_all add: fs1_def fs2_def)
  have "\<exists>w'. rewriteLoop be [length fs1 + 1..<length fs1 + length fs2 + 1] w1 = Some (0, w') \<and> finv szPg w' (fs1 @ fs2) \<and> keeps w1 w' \<and> iReCksum w' = 0"
    by (rule rewriteLoop_ok [where B = B and tail = tail])
      (use fv B in \<open>simp_all add: w1_def fs1_def fs2_def whdr_def set_whdr_def hdr_ck_def ck_def\<close>)
  then obtain w' where w': "rewriteLoop be [?r..<length fs + 1] w1 = Some (0, w')" "finv szPg w' fs" "keeps w1 w'" "iReCksum w' = 0"
    unfolding len by (auto simp: fs1_def fs2_def)
  have os: "osCall w = (0, 0, w)" using fv(5) by simp
  have "walRewriteChecksums be (length fs) w = Some (0, w')"
    unfolding walRewriteChecksums_def os Let_def prod.case fv(2)
    unfolding off_def [symmetric] rd prod.case c1 c2 Option.bind.simps whdr_set
    using w'(1) by (simp add: w1_def del: upt_Suc)
  moreover have "keeps w w1" by (simp add: w1_def)
  ultimately show ?thesis using w'(2-4) keeps_trans [of w w1] by blast
qed

section \<open>Header, padding and size limit\<close>

text \<open>The connection after a new header has been written.\<close>

definition afterHeader :: "bool \<Rightarrow> nat \<Rightarrow> u8 list \<Rightarrow> wallog \<Rightarrow> wallog" where
  "afterHeader be szPg salt w =
     (set_whdr ((whdr w)\<lparr>bigEndCksum := be, aFrameCksum := hdrCk be szPg (nCkpt (ix w)) salt, aSalt := salt\<rparr>) w)
       \<lparr>szPage := szPg, truncateOnCommit := True, pWalFd := logHeader be szPg (nCkpt (ix w)) salt @ drop WAL_HDRSIZE (pWalFd w)\<rparr>"

lemma walWriteHeader_eq:
  assumes "length rnd = 8" "length (aSalt (whdr w)) = 8" "osRc w = []"
  shows "walWriteHeader be szPg rnd w = Some (0, afterHeader be szPg (if nCkpt (ix w) = 0 then rnd else aSalt (whdr w)) w)"
proof -
  define salt where "salt = (if nCkpt (ix w) = 0 then rnd else aSalt (whdr w))"
  have salt: "length salt = 8" using assms(1,2) by (simp add: salt_def)
  define n where "n = nCkpt (ix w)"
  define ck where "ck = hdrCk be szPg n salt"
  define w1 where "w1 = set_whdr ((whdr w)\<lparr>bigEndCksum := be, aFrameCksum := ck, aSalt := salt\<rparr>) (w\<lparr>szPage := szPg, truncateOnCommit := True\<rparr>)"
  define w2 where "w2 = w1\<lparr>pWalFd := logHeader be szPg n salt @ drop WAL_HDRSIZE (pWalFd w)\<rparr>"
  have "walChecksumBytes be True (hdr24 be szPg n salt) None = Some ck"
    using walChecksumBytes_eq [of "hdr24 be szPg n salt" be be None] salt by (simp add: ck_def hdrCk_def hdr24_def cksum_len_def)
  moreover have "logHeader be szPg n salt \<noteq> []" using length_logHeader [OF salt, of be szPg n] by (auto simp: WAL_HDRSIZE_def)
  then have "putAt (pWalFd w) 0 (logHeader be szPg n salt) = logHeader be szPg n salt @ drop WAL_HDRSIZE (pWalFd w)"
    using putAt_end [of "logHeader be szPg n salt" "[]" "pWalFd w"] length_logHeader [OF salt, of be szPg n] by simp
  then have "sqlite3OsWrite (logHeader be szPg n salt) 0 w1 = (0, w2)"
    using assms(3) by (simp add: OsWrite_ok w1_def w2_def)
  moreover have "sqlite3OsSync w2 = (0, w2)" using assms(3) by (simp add: sqlite3OsSync_def w1_def w2_def)
  ultimately have "walWriteHeader be szPg rnd w = Some (0, w2)"
    unfolding walWriteHeader_def Let_def
    unfolding salt_def [symmetric]
    unfolding n_def [symmetric] hdr24_def [symmetric]
    by (simp add: w1_def logHeader_def ck_def)
  moreover have "w2 = afterHeader be szPg salt w" by (simp add: w2_def w1_def afterHeader_def set_whdr_def ck_def n_def)
  ultimately show ?thesis by (simp add: salt_def)
qed

lemma walWriteHeader_ok:
  assumes "page_size szPg" "length rnd = 8" "length (aSalt (whdr w)) = 8" "osRc w = []" "iReCksum w = 0"
  shows "\<exists>w'. walWriteHeader be szPg rnd w = Some (0, w') \<and> finv szPg w' [] \<and> iReCksum w' = 0
    \<and> ix w' = (ix w)\<lparr>hdr := whdr w'\<rparr> \<and> mxFrame (whdr w') = mxFrame (whdr w)
    \<and> padToSectorBoundary w' = padToSectorBoundary w \<and> mxWalSize w' = mxWalSize w"
proof -
  define salt where "salt = (if nCkpt (ix w) = 0 then rnd else aSalt (whdr w))"
  define w2 where "w2 = afterHeader be szPg salt w"
  have "walWriteHeader be szPg rnd w = Some (0, w2)" unfolding w2_def salt_def by (rule walWriteHeader_eq [OF assms(2-4)])
  moreover have "finv szPg w2 []"
    by (rule finvI [where B = "[]" and tail = "drop WAL_HDRSIZE (pWalFd w)"])
      (use assms in \<open>simp_all add: w2_def afterHeader_def whdr_def set_whdr_def hdr_ck_def salt_def\<close>)
  ultimately show ?thesis using assms(5)
    by (intro exI [of _ w2]) (simp add: w2_def afterHeader_def whdr_def set_whdr_def)
qed

lemma padLoop_ok:
  assumes "finv szPg w fs" "frame_ok szPg (p, nT, d)"
  shows "\<exists>k w'. padLoop be sp (p, d) nT (walFrameOffset (length fs + 1) szPg) nExtra w = Some (0, nExtra + k, w')
    \<and> finv szPg w' (fs @ replicate k (p, nT, d)) \<and> keeps w w' \<and> iReCksum w' = iReCksum w"
  using assms(1)
proof (induction "sp - walFrameOffset (length fs + 1) szPg" arbitrary: w fs nExtra rule: less_induct)
  case less
  let ?off = "walFrameOffset (length fs + 1) szPg"
  show ?case
  proof (cases "?off < sp")
    case False
    with less.prems show ?thesis
      by (intro exI [of _ 0] exI [of _ w]) (subst padLoop.simps, simp)
  next
    case True
    obtain w2 where w2: "walWriteOneFrame be sp (p, d) nT ?off w = Some (0, w2)" "finv szPg w2 (fs @ [(p, nT, d)])" "keeps w w2" "iReCksum w2 = iReCksum w"
      using append_frame_ok [OF less.prems assms(2), of be sp] by blast
    have off: "?off + (szPage w2 + WAL_FRAME_HDRSIZE) = walFrameOffset (length (fs @ [(p, nT, d)]) + 1) szPg"
      using finvD(2) [OF w2(2)] by (simp add: walFrameOffset_def)
    have "sp - walFrameOffset (length (fs @ [(p, nT, d)]) + 1) szPg < sp - ?off"
      using True by (simp add: walFrameOffset_def WAL_FRAME_HDRSIZE_def)
    from less.hyps [OF this w2(2), of "nExtra + 1"] obtain k w'
      where w': "padLoop be sp (p, d) nT (walFrameOffset (length (fs @ [(p, nT, d)]) + 1) szPg) (nExtra + 1) w2 = Some (0, nExtra + 1 + k, w')"
      "finv szPg w' ((fs @ [(p, nT, d)]) @ replicate k (p, nT, d))" "keeps w2 w'" "iReCksum w' = iReCksum w2" by blast
    have "padLoop be sp (p, d) nT ?off nExtra w = Some (0, nExtra + Suc k, w')"
      using True w2(1) w'(1) [folded off] by (subst padLoop.simps) simp
    then show ?thesis using w'(2-4) w2(4) keeps_trans [OF w2(3)]
      by (intro exI [of _ "Suc k"] exI [of _ w']) simp
  qed
qed

lemma OsSync_ok: "osRc w = [] \<Longrightarrow> sqlite3OsSync w = (0, w)"
  by (simp add: sqlite3OsSync_def)

lemma commitSync_ok:
  assumes "finv szPg w fs" "frame_ok szPg (p, nT, d)"
  shows "\<exists>k w'. commitSync be ss ((p, d) # app) nT (walFrameOffset (length fs + 1) szPg) w = Some (0, False, k, w')
    \<and> finv szPg w' (fs @ replicate k (p, nT, d)) \<and> keeps w w' \<and> iReCksum w' = iReCksum w"
proof -
  let ?off = "walFrameOffset (length fs + 1) szPg"
  define sp where "sp = (if padToSectorBoundary w then ((?off + ss - 1) div ss) * ss else 0)"
  obtain k w' where w': "padLoop be sp (p, d) nT ?off 0 w = Some (0, k, w')"
    "finv szPg w' (fs @ replicate k (p, nT, d))" "keeps w w'" "iReCksum w' = iReCksum w"
    using padLoop_ok [OF assms, of be sp 0] by auto
  have "sqlite3OsSync w' = (0, w')" by (rule OsSync_ok) (rule finvD(5) [OF w'(2)])
  then have "commitSync be ss ((p, d) # app) nT ?off w = Some (0, False, k, w')"
    unfolding commitSync_def Let_def sp_def [symmetric] using w'(1) by simp
  with w'(2-4) show ?thesis by blast
qed

lemma walLimitSize_ok:
  assumes "finv szPg w fs" "walFrameOffset (length fs + 1) szPg \<le> nMax"
  shows "finv szPg (walLimitSize nMax w) fs \<and> keeps w (walLimitSize nMax w) \<and> iReCksum (walLimitSize nMax w) = iReCksum w"
proof (cases "length (pWalFd w) > nMax")
  case False
  with assms finvD(5) [OF assms(1)] show ?thesis by (simp add: walLimitSize_def)
next
  case True
  note fv = finvD [OF assms(1)]
  let ?big = "bigEndCksum (whdr w)" and ?salt = "aSalt (whdr w)" and ?r = "iReCksum w"
  define fs1 where "fs1 = (if ?r = 0 then fs else take (?r - 1) fs)"
  define fs2 where "fs2 = (if ?r = 0 then [] else drop (?r - 1) fs)"
  obtain B tail where B: "pWalFd w = logHeader ?big szPg (nCkpt (ix w)) ?salt @ logBytes ?big ?salt (hdr_ck szPg w) fs1 @ B @ tail" "slots B fs2"
    using assms(1) unfolding finv_def fs1_def fs2_def by blast
  define A where "A = logHeader ?big szPg (nCkpt (ix w)) ?salt @ logBytes ?big ?salt (hdr_ck szPg w) fs1 @ B"
  have fs: "fs = fs1 @ fs2" by (simp add: fs1_def fs2_def)
  have "list_all (frame_ok szPg) fs1" "list_all (frame_ok szPg) fs2" using fv(1) unfolding fs by simp_all
  then have lenA: "length A = walFrameOffset (length fs + 1) szPg"
    using fv(4) length_slots [OF B(2)] by (simp add: A_def length_logHeader length_logBytes walFrameOffset_def fs add_mult_distrib)
  have "pWalFd w = A @ tail" using B(1) by (simp add: A_def)
  moreover have "length A \<le> nMax" unfolding lenA by (rule assms(2))
  ultimately have "take nMax (pWalFd w) = A @ take (nMax - length A) tail" by simp
  then have "pWalFd (w\<lparr>pWalFd := take nMax (pWalFd w)\<rparr>) = logHeader ?big szPg (nCkpt (ix w)) ?salt @ logBytes ?big ?salt (hdr_ck szPg w) fs1 @ B @ take (nMax - length A) tail"
    by (simp add: A_def)
  then have "finv szPg (w\<lparr>pWalFd := take nMax (pWalFd w)\<rparr>) fs"
    using fv B(2) by (intro finvI [where B = B and tail = "take (nMax - length A) tail"])
      (simp_all add: whdr_def hdr_ck_def fs1_def fs2_def cong: if_cong split del: if_split)
  then show ?thesis using True fv(5) by (simp add: walLimitSize_def)
qed

section \<open>One call of \<open>sqlite3WalFrames\<close>\<close>

lemma walFinishFrames_ok:
  assumes "finv szPg w fs" "idx_ok (ix w) pg" "mxFrame (whdr w) = length pg" "map fst fs = pg @ map fst new" "False \<notin> set (mapOk (ix w))"
    "c \<Longrightarrow> new \<noteq> [] \<and> frame_ok szPg (fst (last new), nT, snd (last new))"
  shows "\<exists>k w'. walFinishFrames be ss szPg nT c sync (rev new) (length fs) (walFrameOffset (length fs + 1) szPg) w = Some (0, w')
    \<and> (\<not> c \<longrightarrow> k = 0)
    \<and> finv szPg w' (fs @ replicate k (fst (last new), nT, snd (last new))) \<and> idx_ok (ix w') (map fst fs @ replicate k (fst (last new)))
    \<and> mxFrame (whdr w') = length fs + k \<and> readLock (ix w') = readLock (ix w) \<and> minFrame (ix w') = minFrame (ix w) \<and> False \<notin> set (mapOk (ix w'))
    \<and> live (ix w') = (if c then whdr w' else live (ix w)) \<and> iReCksum w' = (if c then 0 else iReCksum w) \<and> (c \<longrightarrow> nPage (whdr w') = nT)
    \<and> szPageHdr (whdr w') = pageSize16 szPg"
proof -
  define pl where "pl = (fst (last new), nT, snd (last new))"
  have "\<exists>w1. (if c \<and> iReCksum w \<noteq> 0 then walRewriteChecksums be (length fs) w else Some (0, w)) = Some (0, w1)
    \<and> finv szPg w1 fs \<and> keeps w w1 \<and> iReCksum w1 = (if c then 0 else iReCksum w)"
  proof (cases "c \<and> iReCksum w \<noteq> 0")
    case True
    with walRewriteChecksums_ok [OF assms(1), of be] show ?thesis by auto
  next
    case False
    with assms(1) show ?thesis by auto
  qed
  then obtain w1 where w1: "(if c \<and> iReCksum w \<noteq> 0 then walRewriteChecksums be (length fs) w else Some (0, w)) = Some (0, w1)"
    "finv szPg w1 fs" "keeps w w1" "iReCksum w1 = (if c then 0 else iReCksum w)" by blast
  have "\<exists>k w2. (if c \<and> sync then commitSync be ss (rev new) nT (walFrameOffset (length fs + 1) szPg) w1 else Some (0, False, 0, w1)) = Some (0, False, k, w2)
    \<and> finv szPg w2 (fs @ replicate k pl) \<and> keeps w w2 \<and> iReCksum w2 = iReCksum w1 \<and> (\<not> c \<longrightarrow> k = 0)"
  proof (cases "c \<and> sync")
    case True
    then obtain gs where r: "rev new = (fst (last new), snd (last new)) # gs" using assms(6) by (cases new rule: rev_cases) auto
    have "frame_ok szPg (fst (last new), nT, snd (last new))" using True assms(6) by blast
    from commitSync_ok [OF w1(2) this, of be ss gs] show ?thesis
      unfolding if_P [OF True] r pl_def using True keeps_trans [OF w1(3)] by blast
  next
    case False
    show ?thesis unfolding if_not_P [OF False] using w1 by (intro exI [of _ 0] exI [of _ w1]) simp
  qed
  then obtain k w2 where w2: "(if c \<and> sync then commitSync be ss (rev new) nT (walFrameOffset (length fs + 1) szPg) w1 else Some (0, False, 0, w1)) = Some (0, False, k, w2)"
    "finv szPg w2 (fs @ replicate k pl)" "keeps w w2" "iReCksum w2 = iReCksum w1" "\<not> c \<longrightarrow> k = 0" by blast
  define w3 where "w3 = (if c \<and> truncateOnCommit w2 \<and> mxWalSize w2 \<ge> 0
      then (let sz = nat (mxWalSize w2); off = walFrameOffset (length fs + k + 1) szPg; w = walLimitSize (if off > sz then off else sz) w2
            in w\<lparr>truncateOnCommit := False\<rparr>) else w2)"
  have w3: "finv szPg w3 (fs @ replicate k pl) \<and> blocks (ix w3) = blocks (ix w) \<and> mxFrame (whdr w3) = mxFrame (whdr w) \<and> live (ix w3) = live (ix w)
    \<and> readLock (ix w3) = readLock (ix w) \<and> minFrame (ix w3) = minFrame (ix w) \<and> False \<notin> set (mapOk (ix w3)) \<and> iReCksum w3 = iReCksum w1"
  proof (cases "c \<and> truncateOnCommit w2 \<and> mxWalSize w2 \<ge> 0")
    case True
    define N where "N = (if walFrameOffset (length fs + k + 1) szPg > nat (mxWalSize w2) then walFrameOffset (length fs + k + 1) szPg else nat (mxWalSize w2))"
    have l: "finv szPg (walLimitSize N w2) (fs @ replicate k pl) \<and> keeps w2 (walLimitSize N w2) \<and> iReCksum (walLimitSize N w2) = iReCksum w2"
      by (rule walLimitSize_ok [OF w2(2)]) (simp add: N_def)
    then have "keeps w (walLimitSize N w2)" using keeps_trans [OF w2(3)] by blast
    note k = keepsD [OF this]
    have w3': "w3 = (walLimitSize N w2)\<lparr>truncateOnCommit := False\<rparr>" using True by (simp add: w3_def N_def Let_def)
    have "finv szPg w3 (fs @ replicate k pl)" unfolding w3' using l by (subst finv_cong [of _ "walLimitSize N w2"]) (simp_all add: whdr_def)
    moreover have "whdr w3 = whdr (walLimitSize N w2)" "ix w3 = ix (walLimitSize N w2)" by (simp_all add: w3' whdr_def)
    ultimately show ?thesis using l k assms(5) w2(4) by (simp add: w3')
  next
    case False
    then have "w3 = w2" unfolding w3_def by (rule if_not_P)
    with w2 keepsD [OF w2(3)] assms(5) show ?thesis by simp
  qed
  define L where "L = map fst new @ replicate k (fst (last new))"
  have "idx_ok (ix w3) pg" using w3 assms(2) by (simp add: idx_ok_def)
  moreover have "0 \<notin> set L"
  proof
    assume "0 \<in> set L"
    moreover have "map fst (fs @ replicate k pl) = pg @ L" by (simp add: assms(4) L_def pl_def)
    ultimately have "0 \<in> set (map fst (fs @ replicate k pl))" by (simp only: set_append Un_iff simp_thms)
    then have "0 \<in> fst ` set (fs @ replicate k pl)" by (simp only: set_map)
    then obtain f where f: "0 = fst f" "f \<in> set (fs @ replicate k pl)" by (rule imageE)
    have "frame_ok szPg f" using finvD(1) [OF w2(2)] f(2) by (simp only: list_all_iff)
    then show False using f(1) by (simp add: frame_ok_def)
  qed
  ultimately obtain i where i: "appendFrames (ix w3) (length pg) L = Some (0, length pg + length L, i)" "same_state (ix w3) i"
    "idx_ok i (if L = [] then pg else take (length pg) pg @ L)"
    using appendFrames_good [of "ix w3" pg "length pg" L] w3 by auto
  have idx: "idx_ok i (map fst fs @ replicate k (fst (last new)))" using i(3) assms(4) by (auto simp: L_def split: if_splits)
  have len: "length pg + length L = length fs + k" using arg_cong [OF assms(4), of length] by (simp add: L_def)
  define w4 where "w4 = w3\<lparr>ix := i\<rparr>"
  define h where "h = (whdr w4)\<lparr>szPageHdr := pageSize16 szPg, mxFrame := length fs + k\<rparr>"
  define w5 where "w5 = set_whdr (if c then h\<lparr>iChange := iChange h + 1, nPage := nT\<rparr> else h) w4"
  define w6 where "w6 = (if c then walIndexWriteHdr w5 else w5)"
  have f4: "finv szPg w4 (fs @ replicate k pl)" using w3 i(2)
    by (subst finv_cong [of _ w3]) (simp_all add: w4_def whdr_def same_state_def)
  have f6: "finv szPg w6 (fs @ replicate k pl)" using f4
    by (subst finv_cong [of _ w4]) (simp_all add: w6_def w5_def h_def walIndexWriteHdr_def whdr_def set_whdr_def Let_def)
  have padapp: "(case rev new of [] \<Rightarrow> [] | pLast # _ \<Rightarrow> replicate k (fst pLast)) = replicate k (fst (last new))"
    using w2(5) assms(6) by (cases new rule: rev_cases; cases c) simp_all
  have mx3: "mxFrame (whdr w3) = length pg" using w3 assms(3) by simp
  have i1: "appendFrames (ix w3) (mxFrame (whdr w3)) L = Some (0, length fs + k, i)" using i(1) unfolding mx3 len .
  have "walFinishFrames be ss szPg nT c sync (rev new) (length fs) (walFrameOffset (length fs + 1) szPg) w = Some (0, w6)"
    unfolding walFinishFrames_def w1(1) Option.bind.simps prod.case w2(1) w3_def [symmetric] padapp rev_rev_ident L_def [symmetric]
    by (simp add: i1 w4_def h_def w5_def w6_def Let_def)
  moreover have "ix w6 = i\<lparr>hdr := whdr w6, live := (if c then whdr w6 else live i)\<rparr>"
    by (simp add: w6_def w5_def w4_def walIndexWriteHdr_def whdr_def set_whdr_def Let_def)
  then have "idx_ok (ix w6) (map fst fs @ replicate k (fst (last new)))" "live (ix w6) = (if c then whdr w6 else live (ix w))"
    "readLock (ix w6) = readLock (ix w)" "minFrame (ix w6) = minFrame (ix w)" "False \<notin> set (mapOk (ix w6))"
    using idx i(2) w3 by (auto simp: same_state_def idx_ok_def)
  moreover have "mxFrame (whdr w6) = length fs + k" "c \<longrightarrow> nPage (whdr w6) = nT" "iReCksum w6 = (if c then 0 else iReCksum w)"
    "szPageHdr (whdr w6) = pageSize16 szPg"
    using w3 w1(4) by (simp_all add: w6_def w5_def h_def w4_def walIndexWriteHdr_def whdr_def set_whdr_def Let_def)
  ultimately show ?thesis using f6 w2(5) by (intro exI [of _ k] exI [of _ w6]) (simp add: pl_def)
qed

text \<open>
  The invariant of a connection that may write: the file and the index hold the frames \<open>fs\<close>; those after the last commit carry no commit mark.
\<close>

definition winv :: "nat \<Rightarrow> wallog \<Rightarrow> frame list \<Rightarrow> bool" where
  "winv szPg w fs \<longleftrightarrow> page_size szPg \<and> length (aSalt (whdr w)) = 8 \<and> osRc w = [] \<and> (if fs = [] then iReCksum w = 0 else finv szPg w fs)
     \<and> idx_ok (ix w) (map fst fs) \<and> mxFrame (whdr w) = length fs \<and> mxFrame (live (ix w)) \<le> length fs
     \<and> readLock (ix w) \<noteq> 0 \<and> minFrame (ix w) \<le> mxFrame (live (ix w)) + 1 \<and> False \<notin> set (mapOk (ix w))
     \<and> committed (take (mxFrame (live (ix w))) fs) = take (mxFrame (live (ix w))) fs
     \<and> list_all (\<lambda>f. fst (snd f) = 0) (drop (mxFrame (live (ix w))) fs)
     \<and> (fs \<noteq> [] \<longrightarrow> szPageHdr (whdr w) = pageSize16 szPg) \<and> (mxFrame (live (ix w)) \<noteq> 0 \<longrightarrow> szPageHdr (live (ix w)) = pageSize16 szPg)"

definition pages_ok :: "nat \<Rightarrow> (u32 \<times> u8 list) list \<Rightarrow> bool" where
  "pages_ok szPg ps \<longleftrightarrow> ps \<noteq> [] \<and> list_all (\<lambda>p. fst p \<noteq> 0 \<and> length (snd p) = szPg) ps"

definition firstFrame :: "wallog \<Rightarrow> nat" where
  "firstFrame w = (if whdr w \<noteq> live (ix w) then mxFrame (live (ix w)) + 1 else 0)"

text \<open>The frames after the call; a commit may be padded with copies of its last frame.\<close>

definition framesAfter :: "wallog \<Rightarrow> frame list \<Rightarrow> u32 \<Rightarrow> bool \<Rightarrow> (u32 \<times> u8 list) list \<Rightarrow> nat \<Rightarrow> frame list" where
  "framesAfter w fs nT c ps k =
     applyPages (\<lambda>p. lastFrame (map fst fs) p (minFrame (ix w)) (length fs)) nT c (firstFrame w) ps fs
     @ replicate k (fst (last ps), nT, snd (last ps))"

lemma applyPages_length: "length fs \<le> length (applyPages fnd nT c iFirst ps fs)"
proof (induction ps arbitrary: fs)
  case (Cons p ps)
  have "length fs \<le> length (applyPages fnd nT c iFirst ps (fs @ [x]))" for x using Cons.IH [of "fs @ [x]"] by simp
  moreover have "length fs \<le> length (applyPages fnd nT c iFirst ps (setData j d fs))" for j d using Cons.IH [of "setData j d fs"] by simp
  ultimately show ?case by (simp add: Let_def)
qed simp

lemma applyPages_prefix:
  "m \<le> length fs \<Longrightarrow> iFirst \<noteq> 0 \<longrightarrow> m < iFirst \<Longrightarrow> take m (applyPages fnd nT c iFirst ps fs) = take m fs"
proof (induction ps arbitrary: fs)
  case (Cons p ps)
  have "take m (setData (i - 1) d fs) = take m fs" if "iFirst \<le> i" "i \<noteq> 0" "iFirst \<noteq> 0" for i d
    using that Cons.prems(2) by (simp add: setData_def)
  with Cons show ?case by (simp add: Let_def)
qed simp

lemma applyPages_last:
  "c \<Longrightarrow> ps \<noteq> [] \<Longrightarrow> last (applyPages fnd nT c iFirst ps fs) = (fst (last ps), nT, snd (last ps)) \<and> applyPages fnd nT c iFirst ps fs \<noteq> []"
proof (induction ps arbitrary: fs)
  case (Cons p ps)
  then show ?case by (cases ps) (simp_all add: Let_def)
qed simp

lemma list_all_update: "list_all P xs \<Longrightarrow> P x \<Longrightarrow> list_all P (xs[i := x])"
  using set_update_subset_insert [of xs i x] by (auto simp: list_all_iff)

lemma applyPages_marks:
  "m \<le> length fs \<Longrightarrow> list_all (\<lambda>f. fst (snd f) = 0) (drop m fs) \<Longrightarrow> \<not> c \<Longrightarrow> list_all (\<lambda>f. fst (snd f) = 0) (drop m (applyPages fnd nT c iFirst ps fs))"
proof (induction ps arbitrary: fs)
  case (Cons p ps)
  have "list_all (\<lambda>f. fst (snd f) = 0) (drop m (setData j d fs))" for j d
  proof (cases "j < m \<or> length fs \<le> j")
    case True
    with Cons.prems(2) show ?thesis by (auto simp: setData_def drop_update_cancel list_update_beyond)
  next
    case False
    then have "j - m < length fs - m" "m + (j - m) = j" by linarith+
    then have "fs ! j \<in> set (drop m fs)" using nth_mem [of "j - m" "drop m fs"] Cons.prems(1) by simp
    then have "fst (snd (fs ! j)) = 0" using Cons.prems(2) by (simp add: list_all_iff)
    with False Cons.prems(2) show ?thesis
      by (simp add: setData_def drop_update_swap) (rule list_all_update, simp_all)
  qed
  with Cons show ?case by (simp add: Let_def)
qed simp

lemma applyPages_nonempty: "ps \<noteq> [] \<Longrightarrow> \<forall>p. fnd p \<le> length fs \<Longrightarrow> applyPages fnd nT c iFirst ps fs \<noteq> []"
proof -
  assume ps: "ps \<noteq> []" "\<forall>p. fnd p \<le> length fs"
  then obtain p qs where "ps = p # qs" by (cases ps) auto
  moreover have "applyPages fnd nT c iFirst qs (fs @ [x]) \<noteq> []" for x using applyPages_length [of "fs @ [x]" fnd nT c iFirst qs] by auto
  moreover have "fs \<noteq> [] \<Longrightarrow> applyPages fnd nT c iFirst qs (setData j d fs) \<noteq> []" for j d
    using applyPages_length [of "setData j d fs" fnd nT c iFirst qs] by auto
  moreover have "fnd (fst p) \<noteq> 0 \<Longrightarrow> fs \<noteq> []" using ps(2) [rule_format, of "fst p"] by auto
  ultimately show ?thesis by (auto simp: Let_def)
qed

lemma committed_last: "fs \<noteq> [] \<Longrightarrow> fst (snd (last fs)) \<noteq> 0 \<Longrightarrow> committed fs = fs"
  by (cases fs rule: rev_cases) (simp_all add: committed_def)

lemma sqlite3WalFrames_ok:
  assumes "winv szPg w fs" "pages_ok szPg ps" "length rnd = 8" "c \<longleftrightarrow> nT \<noteq> 0"
  shows "\<exists>k w'. sqlite3WalFrames be ss rnd szPg ps nT c sync w = Some (0, w') \<and> winv szPg w' (framesAfter w fs nT c ps k) \<and> (\<not> c \<longrightarrow> k = 0)
    \<and> finv szPg w' (framesAfter w fs nT c ps k)
    \<and> live (ix w') = (if c then whdr w' else live (ix w)) \<and> (c \<longrightarrow> iReCksum w' = 0 \<and> nPage (whdr w') = nT)
    \<and> readLock (ix w') = readLock (ix w) \<and> minFrame (ix w') = minFrame (ix w)"
proof -
  let ?pg = "map fst fs" and ?lv = "mxFrame (live (ix w))"
  note wi = assms(1) [unfolded winv_def]
  have ps: "ps \<noteq> []" "list_all (\<lambda>p. fst p \<noteq> 0 \<and> length (snd p) = szPg) ps" using assms(2) by (simp_all add: pages_ok_def)
  have "\<exists>w1. (if mxFrame (whdr w) = 0 then walWriteHeader be szPg rnd w else Some (0, w)) = Some (0, w1) \<and> finv szPg w1 fs
    \<and> ix w1 = (ix w)\<lparr>hdr := whdr w1\<rparr> \<and> mxFrame (whdr w1) = length fs"
  proof (cases "fs = []")
    case True
    with wi walWriteHeader_ok [of szPg rnd w be] assms(3) show ?thesis by auto
  next
    case False
    with wi show ?thesis by (intro exI [of _ w]) (simp add: whdr_def)
  qed
  then obtain w1 where w1: "(if mxFrame (whdr w) = 0 then walWriteHeader be szPg rnd w else Some (0, w)) = Some (0, w1)" "finv szPg w1 fs"
    "ix w1 = (ix w)\<lparr>hdr := whdr w1\<rparr>" "mxFrame (whdr w1) = length fs" by blast
  have e1: "live (ix w1) = live (ix w)" "minFrame (ix w1) = minFrame (ix w)" "readLock (ix w1) = readLock (ix w)" "False \<notin> set (mapOk (ix w1))"
    "idx_ok (ix w1) ?pg" unfolding w1(3) using wi by simp_all
  define A where "A = applyPages (\<lambda>p. lastFrame ?pg p (minFrame (ix w)) (length fs)) nT c (firstFrame w) ps fs"
  have "mxFrame (whdr w1) = length ?pg" "length ?pg \<le> length fs" "readLock (ix w1) \<noteq> 0" using w1(4) e1(3) wi by simp_all
  from writePages_ok [OF w1(2) e1(5) this e1(4) ps(2), of be nT c "firstFrame w" "[]", unfolded e1(2) length_map, folded A_def]
  obtain w2 new where w2: "writePages be nT c (firstFrame w) ps [] (length fs) (walFrameOffset (length fs + 1) szPg) w1
      = Some (0, rev new, length A, walFrameOffset (length A + 1) szPg, w2)" "finv szPg w2 A" "keeps w1 w2" "map fst A = ?pg @ map fst new"
    "c \<longrightarrow> ps \<noteq> [] \<longrightarrow> new \<noteq> [] \<and> last new = last ps" by auto
  note k2 = keepsD [OF w2(3)]
  have pl: "fst (last ps) \<noteq> 0 \<and> length (snd (last ps)) = szPg" using ps by (simp add: list_all_iff)
  have "idx_ok (ix w2) ?pg" "mxFrame (whdr w2) = length ?pg" "False \<notin> set (mapOk (ix w2))" using k2 e1 w1(4) by simp_all
  moreover have "c \<Longrightarrow> new \<noteq> [] \<and> frame_ok szPg (fst (last new), nT, snd (last new))" using w2(5) ps(1) pl by (simp add: frame_ok_def)
  ultimately obtain k w' where w': "walFinishFrames be ss szPg nT c sync (rev new) (length A) (walFrameOffset (length A + 1) szPg) w2 = Some (0, w')"
    "\<not> c \<longrightarrow> k = 0"
    "finv szPg w' (A @ replicate k (fst (last new), nT, snd (last new)))" "idx_ok (ix w') (map fst A @ replicate k (fst (last new)))"
    "mxFrame (whdr w') = length A + k" "readLock (ix w') = readLock (ix w2)" "minFrame (ix w') = minFrame (ix w2)" "False \<notin> set (mapOk (ix w'))"
    "live (ix w') = (if c then whdr w' else live (ix w2))" "iReCksum w' = (if c then 0 else iReCksum w2)" "c \<longrightarrow> nPage (whdr w') = nT"
    "szPageHdr (whdr w') = pageSize16 szPg"
    using walFinishFrames_ok [OF w2(2) _ _ w2(4), of c nT be ss sync] by blast
  define F where "F = framesAfter w fs nT c ps k"
  have F: "F = A @ replicate k (fst (last new), nT, snd (last new))"
    using w2(5) ps(1) w'(2) by (cases c) (simp_all add: F_def framesAfter_def A_def)
  have run: "sqlite3WalFrames be ss rnd szPg ps nT c sync w = Some (0, w')"
    unfolding sqlite3WalFrames_def Let_def firstFrame_def [symmetric] w1(1)
    using wi w2(1) w'(1) by (simp add: w1(4))
  have fin: "finv szPg w' F" using w'(3) by (simp add: F)
  have lenA: "length fs \<le> length A" unfolding A_def by (rule applyPages_length)
  have "A \<noteq> []" unfolding A_def by (rule applyPages_nonempty [OF ps(1)]) (use lastFrame_le in blast)
  then have ne: "F \<noteq> []" by (simp add: F)
  have lastF: "last F = (fst (last ps), nT, snd (last ps))" if c
  proof -
    have "last A = (fst (last ps), nT, snd (last ps))" unfolding A_def using applyPages_last [OF that ps(1)] by blast
    moreover have "last new = last ps" using w2(5) that ps(1) by blast
    ultimately show ?thesis using \<open>A \<noteq> []\<close> by (cases k) (simp_all add: F)
  qed
  have pre: "take ?lv F = take ?lv fs" if "\<not> c"
  proof -
    have "F = A" using w'(2) that by (simp add: F)
    moreover have "firstFrame w \<noteq> 0 \<longrightarrow> ?lv < firstFrame w" by (simp add: firstFrame_def)
    ultimately show ?thesis using applyPages_prefix [of ?lv fs] wi by (simp add: A_def)
  qed
  have "committed (take (mxFrame (live (ix w'))) F) = take (mxFrame (live (ix w'))) F
      \<and> list_all (\<lambda>f. fst (snd f) = 0) (drop (mxFrame (live (ix w'))) F) \<and> mxFrame (live (ix w')) \<le> length F
      \<and> minFrame (ix w') \<le> mxFrame (live (ix w')) + 1"
  proof (cases c)
    case True
    then have "mxFrame (live (ix w')) = length F" using w'(5,9) by (simp add: F)
    moreover have "committed F = F" by (rule committed_last [OF ne]) (use lastF True assms(4) in simp)
    moreover have "minFrame (ix w') \<le> length F + 1" using wi w'(7) k2(7) e1(2) lenA by (simp add: F)
    ultimately show ?thesis by simp
  next
    case False
    have "F = A" using w'(2) False by (simp add: F)
    then have "list_all (\<lambda>f. fst (snd f) = 0) (drop ?lv F)" using applyPages_marks [of ?lv fs c] wi False by (simp add: A_def)
    moreover have "mxFrame (live (ix w')) = ?lv" "minFrame (ix w') = minFrame (ix w)" using False w'(7,9) k2(5,7) e1(1,2) by simp_all
    moreover have "?lv \<le> length F" using wi lenA \<open>F = A\<close> by simp
    ultimately show ?thesis using pre [OF False] wi by simp
  qed
  moreover have "idx_ok (ix w') (map fst F)" using w'(4) by (simp add: F)
  moreover have "mxFrame (whdr w') = length F" using w'(5) by (simp add: F)
  moreover have "mxFrame (live (ix w')) \<noteq> 0 \<longrightarrow> szPageHdr (live (ix w')) = pageSize16 szPg"
    using wi w'(9,12) k2(5) e1(1) by (cases c) simp_all
  ultimately have "winv szPg w' F" unfolding winv_def using w'(12) fin ne wi finvD(4,5) [OF fin] w'(6,8) k2(6) e1(3) by simp
  then show ?thesis unfolding F_def [symmetric]
    using run w' fin k2(5-7) e1 by (intro exI [of _ k] exI [of _ w']) (simp add: F_def)
qed

end
