(* ===== verification/WalDurable.thy ===== *)
theory WalDurable
  imports WalCommit
begin

text \<open>
  What the write-ahead log promises: it is a map from pages to contents. Every call of \<open>sqlite3WalFrames\<close> updates it, readers keep
  their snapshot, and recovery finds the map of the last commit again.
\<close>

section \<open>The contents of a log\<close>

definition latest :: "frame list \<Rightarrow> u32 \<rightharpoonup> u8 list" where
  "latest fs = map_of (rev (map (\<lambda>f. (fst f, snd (snd f))) fs))"

lemma latest_simps [simp]: "latest [] = Map.empty" "latest (fs @ [f]) = (latest fs)(fst f \<mapsto> snd (snd f))"
  by (simp_all add: latest_def)

lemma latest_append: "latest (fs @ gs) = latest fs ++ latest gs"
  by (simp add: latest_def)

lemma latest_mid: "latest (xs @ f # ys) = (latest xs)(fst f \<mapsto> snd (snd f)) ++ latest ys"
  using latest_append [of "xs @ [f]" ys] by simp

lemma latest_notin: "p \<notin> fst ` set fs \<Longrightarrow> latest fs p = None"
  unfolding latest_def by (force simp: map_of_eq_None_iff)

lemma lastFrame_latest:
  "m \<le> length fs \<Longrightarrow> latest (drop (lo - 1) (take m fs)) p
    = (let i = lastFrame (map fst fs) p lo m in if i = 0 then None else Some (snd (snd (fs ! (i - 1)))))"
proof (induction m)
  case (Suc m)
  have t: "take (Suc m) fs = take m fs @ [fs ! m]" using Suc.prems by (simp add: take_Suc_conv_app_nth)
  show ?case
  proof (cases "Suc m < lo")
    case True
    then have "drop (lo - 1) (take (Suc m) fs) = []" by simp
    with True show ?thesis by simp
  next
    case False
    then have "drop (lo - 1) (take (Suc m) fs) = drop (lo - 1) (take m fs) @ [fs ! m]" unfolding t using Suc.prems by simp
    with False Suc show ?thesis by (simp add: Let_def)
  qed
qed simp

lemma latest_setData:
  assumes "i < length fs" "fst (fs ! i) = p" "\<And>x. i < x \<Longrightarrow> x < length fs \<Longrightarrow> fst (fs ! x) \<noteq> p" "l \<le> i"
  shows "latest (drop l (setData i d fs)) = (latest (drop l fs))(p \<mapsto> d)"
proof -
  define xs where "xs = drop l (take i fs)"
  define ys where "ys = drop (Suc i) fs"
  have "drop l fs = drop l (take i fs @ fs ! i # ys)" using arg_cong [OF id_take_nth_drop [OF assms(1)], of "drop l"] by (simp only: ys_def)
  then have fs: "drop l fs = xs @ (fs ! i) # ys" using assms(1,4) by (simp add: xs_def)
  have "setData i d fs = take i fs @ (fst (fs ! i), fst (snd (fs ! i)), d) # ys"
    unfolding setData_def ys_def by (rule upd_conv_take_nth_drop [OF assms(1)])
  then have fs': "drop l (setData i d fs) = xs @ (p, fst (snd (fs ! i)), d) # ys" using assms(1,2,4) by (simp add: xs_def)
  have "p \<notin> fst ` set ys"
  proof
    assume "p \<in> fst ` set ys"
    then obtain j where "j < length ys" "fst (ys ! j) = p" by (auto simp: in_set_conv_nth)
    with assms(3) [of "Suc i + j"] show False by (simp add: ys_def)
  qed
  then have "p \<notin> dom (latest ys)" using latest_notin by (simp add: domIff)
  then show ?thesis unfolding fs fs' latest_mid using assms(2) by (simp add: map_add_upd_left)
qed

lemma lastFrame_after: "lastFrame pg p lo hi < x \<Longrightarrow> lo \<le> x \<Longrightarrow> x \<le> hi \<Longrightarrow> pg ! (x - 1) \<noteq> p"
proof (induction hi)
  case (Suc hi)
  then show ?case by (cases "x = Suc hi") (auto split: if_splits)
qed simp

lemma lastFrame_at: "lastFrame pg p lo hi \<noteq> 0 \<Longrightarrow> pg ! (lastFrame pg p lo hi - 1) = p"
  by (induction hi) (auto split: if_splits)

lemma applyPages_latest:
  fixes lo :: nat
  assumes "distinct (map fst ps)" "length pg \<le> length fs" "map fst (take (length pg) fs) = pg" "fst ` set ps \<inter> fst ` set (drop (length pg) fs) = {}"
    "l \<le> length pg" "iFirst \<noteq> 0 \<longrightarrow> l < iFirst"
  defines "fnd \<equiv> \<lambda>p. lastFrame pg p lo (length pg)"
  assumes "lo \<le> l + 1"
  shows "latest (drop l (applyPages fnd nT c iFirst ps fs)) = latest (drop l fs) ++ map_of ps"
  using assms(1-4)
proof (induction ps arbitrary: fs)
  case (Cons p ps)
  define i where "i = (if iFirst \<noteq> 0 \<and> (ps \<noteq> [] \<or> \<not> c) then fnd (fst p) else 0)"
  have pd: "fst p \<notin> dom (map_of ps)" using Cons.prems(1) by (simp add: dom_map_of_conv_image_fst)
  have comb: "m(fst p \<mapsto> snd p) ++ map_of ps = m ++ map_of (p # ps)" for m :: "u32 \<rightharpoonup> u8 list"
    using pd by (cases p) (simp add: map_add_upd_left)
  show ?case
  proof (cases "i \<noteq> 0 \<and> i \<ge> iFirst")
    case True
    then have i: "i = lastFrame pg (fst p) lo (length pg)" "i \<noteq> 0" "iFirst \<noteq> 0" by (auto simp: i_def fnd_def split: if_splits)
    have le: "i \<le> length pg" unfolding i(1) by (rule lastFrame_le)
    have pgn: "pg ! j = fst (fs ! j)" if "j < length pg" for j using that Cons.prems(2) by (subst Cons.prems(3) [symmetric]) simp
    have at: "fst (fs ! (i - 1)) = fst p"
      using lastFrame_at [of pg "fst p" lo "length pg"] i(1,2) le pgn [of "i - 1"] by simp
    have after: "fst (fs ! x) \<noteq> fst p" if x: "i - 1 < x" "x < length fs" for x
    proof (cases "x < length pg")
      case True
      have "lo \<le> x + 1" using x(1) True i(2,3) assms(6,8) \<open>i \<noteq> 0 \<and> i \<ge> iFirst\<close> by linarith
      with lastFrame_after [of pg "fst p" lo "length pg" "x + 1"] i(1) x True show ?thesis by (simp add: pgn)
    next
      case False
      then have "fs ! x \<in> set (drop (length pg) fs)" using nth_mem [of "x - length pg" "drop (length pg) fs"] x(2) by simp
      with Cons.prems(4) show ?thesis by fastforce
    qed
    have "latest (drop l (setData (i - 1) (snd p) fs)) = (latest (drop l fs))(fst p \<mapsto> snd p)"
      by (rule latest_setData) (use at after le i(2,3) Cons.prems(2) assms(6) True in auto)
    moreover have "latest (drop l (applyPages fnd nT c iFirst ps (setData (i - 1) (snd p) fs))) = latest (drop l (setData (i - 1) (snd p) fs)) ++ map_of ps"
    proof (rule Cons.IH)
      show "map fst (take (length pg) (setData (i - 1) (snd p) fs)) = pg" using Cons.prems(3) by (simp add: take_map [symmetric])
      have "drop (length pg) (setData (i - 1) (snd p) fs) = drop (length pg) fs" using le i(2) by (simp add: setData_def)
      then show "fst ` set ps \<inter> fst ` set (drop (length pg) (setData (i - 1) (snd p) fs)) = {}" using Cons.prems(4) by auto
    qed (use Cons.prems in simp_all)
    ultimately show ?thesis unfolding applyPages.simps Let_def i_def [symmetric] if_P [OF True] using comb [of "latest (drop l fs)"] by (simp only:)
  next
    case False
    define f where "f = (fst p, if c \<and> ps = [] then nT else 0, snd p)"
    have "latest (drop l (fs @ [f])) = (latest (drop l fs))(fst p \<mapsto> snd p)" using assms(5) Cons.prems(2) by (simp add: f_def)
    moreover have "latest (drop l (applyPages fnd nT c iFirst ps (fs @ [f]))) = latest (drop l (fs @ [f])) ++ map_of ps"
      by (rule Cons.IH) (use Cons.prems in \<open>auto simp: f_def\<close>)
    ultimately show ?thesis unfolding applyPages.simps Let_def i_def [symmetric] if_not_P [OF False] f_def [symmetric] using comb [of "latest (drop l fs)"] by (simp only:)
  qed
qed simp

lemma framesAfter_latest:
  assumes "winv szPg w fs" "pages_ok szPg ps" "distinct (map fst ps)" "\<not> c \<longrightarrow> k = 0"
  shows "latest (drop (minFrame (ix w) - 1) (framesAfter w fs nT c ps k)) = latest (drop (minFrame (ix w) - 1) fs) ++ map_of ps"
proof -
  note wi = assms(1) [unfolded winv_def]
  let ?l = "minFrame (ix w) - 1"
  define A where "A = applyPages (\<lambda>p. lastFrame (map fst fs) p (minFrame (ix w)) (length fs)) nT c (firstFrame w) ps fs"
  have "minFrame (ix w) \<le> mxFrame (live (ix w)) + 1" "mxFrame (live (ix w)) \<le> length fs" using wi by blast+
  then have l: "?l \<le> length fs" by linarith
  have "firstFrame w \<noteq> 0 \<longrightarrow> ?l < firstFrame w" using wi by (auto simp: firstFrame_def)
  then have 1: "latest (drop ?l A) = latest (drop ?l fs) ++ map_of ps"
    unfolding A_def using applyPages_latest [of ps "map fst fs" fs ?l "firstFrame w" "minFrame (ix w)" nT c] assms(3) l by simp
  have "length fs \<le> length A" unfolding A_def by (rule applyPages_length)
  with l have dr: "drop ?l (framesAfter w fs nT c ps k) = drop ?l A @ replicate k (fst (last ps), nT, snd (last ps))"
    by (simp add: framesAfter_def A_def [symmetric])
  have "last ps \<in> set ps" using assms(2) by (simp add: pages_ok_def)
  then have "map_of ps (fst (last ps)) = Some (snd (last ps))" using assms(3) by (simp add: map_of_is_SomeI)
  then have 2: "latest (drop ?l A) (fst (last ps)) = Some (snd (last ps))" unfolding 1 by simp
  have "latest (xs @ replicate k f) = latest xs" if "latest xs (fst f) = Some (snd (snd f))" for xs and f :: frame
  proof (induction k)
    case (Suc k)
    have "latest (xs @ replicate (Suc k) f) = (latest (xs @ replicate k f))(fst f \<mapsto> snd (snd f))"
      using latest_simps(2) [of "xs @ replicate k f" f] by (simp add: replicate_append_same [symmetric])
    with Suc that show ?case by (simp add: fun_upd_idem)
  qed simp
  from this [of "drop ?l A" "(fst (last ps), nT, snd (last ps))"] 1 2 show ?thesis unfolding dr by simp
qed

section \<open>Reading pages\<close>

text \<open>The file holds the frames after a header of 32 bytes.\<close>

definition fileHas :: "nat \<Rightarrow> u8 list \<Rightarrow> frame list \<Rightarrow> bool" where
  "fileHas szPg file fs \<longleftrightarrow> (\<exists>h B tail. file = h @ B @ tail \<and> length h = WAL_HDRSIZE \<and> slots B fs) \<and> list_all (frame_ok szPg) fs \<and> page_size szPg"

lemma finv_fileHas: "finv szPg w fs \<Longrightarrow> fileHas szPg (pWalFd w) fs"
proof -
  assume f: "finv szPg w fs"
  note fv = finvD [OF f]
  let ?log = "logBytes (bigEndCksum (whdr w)) (aSalt (whdr w)) (hdr_ck szPg w)"
  obtain B tail where B: "pWalFd w = logHeader (bigEndCksum (whdr w)) szPg (nCkpt (ix w)) (aSalt (whdr w))
      @ ?log (if iReCksum w = 0 then fs else take (iReCksum w - 1) fs) @ B @ tail"
    "slots B (if iReCksum w = 0 then [] else drop (iReCksum w - 1) fs)" using f unfolding finv_def by blast
  have "slots (?log (if iReCksum w = 0 then fs else take (iReCksum w - 1) fs) @ B)
      ((if iReCksum w = 0 then fs else take (iReCksum w - 1) fs) @ (if iReCksum w = 0 then [] else drop (iReCksum w - 1) fs))"
    unfolding slots_append using logBytes_slots [OF fv(4)] B(2) by blast
  moreover have "(if iReCksum w = 0 then fs else take (iReCksum w - 1) fs) @ (if iReCksum w = 0 then [] else drop (iReCksum w - 1) fs) = fs" by simp
  ultimately have "slots (?log (if iReCksum w = 0 then fs else take (iReCksum w - 1) fs) @ B) fs" by simp
  with B(1) fv(1,3) length_logHeader [OF fv(4)] show ?thesis unfolding fileHas_def by (metis append.assoc)
qed

lemma fileHas_take: "fileHas szPg file fs \<Longrightarrow> fileHas szPg file (take m fs)"
proof -
  assume f: "fileHas szPg file fs"
  then obtain h B tail where B: "file = h @ B @ tail" "length h = WAL_HDRSIZE" "slots B fs" unfolding fileHas_def by blast
  obtain B1 B2 where "B = B1 @ B2" "slots B1 (take m fs)" using slots_append [of B "take m fs" "drop m fs"] B(3) by auto
  with B(1,2) have "\<exists>h B tail. file = h @ B @ tail \<and> length h = WAL_HDRSIZE \<and> slots B (take m fs)" by (metis append.assoc)
  moreover have "list_all (frame_ok szPg) (take m fs)" using f by (auto simp: fileHas_def list_all_iff dest: in_set_takeD)
  ultimately show ?thesis using f unfolding fileHas_def by blast
qed

lemma fileHas_data:
  assumes "fileHas szPg file fs" "0 < i" "i \<le> length fs"
  shows "\<exists>X Y. file = X @ snd (snd (fs ! (i - 1))) @ Y \<and> length X = walFrameOffset i szPg + WAL_FRAME_HDRSIZE"
proof -
  obtain h B tail where B: "file = h @ B @ tail" "length h = WAL_HDRSIZE" "slots B fs" using assms(1) unfolding fileHas_def by blast
  have "fs = take (i - 1) fs @ fs ! (i - 1) # drop i fs" using id_take_nth_drop [of "i - 1" fs] assms(2,3) by simp
  then obtain B1 j B2 where s: "B = B1 @ slotBytes j (fs ! (i - 1)) @ B2" "slots B1 (take (i - 1) fs)" "length j = 16"
    using B(3) slots_append [of B "take (i - 1) fs" "fs ! (i - 1) # drop i fs"] by auto
  have "list_all (frame_ok szPg) (take (i - 1) fs)" using assms(1) by (auto simp: fileHas_def list_all_iff dest: in_set_takeD)
  then have "length B1 = (i - 1) * (szPg + WAL_FRAME_HDRSIZE)" using length_slots [OF s(2)] assms(3) by simp
  then have "length (h @ B1 @ sqlite3Put4byte (fst (fs ! (i - 1))) @ sqlite3Put4byte (fst (snd (fs ! (i - 1)))) @ j) = walFrameOffset i szPg + WAL_FRAME_HDRSIZE"
    using B(2) s(3) by (simp add: walFrameOffset_def WAL_FRAME_HDRSIZE_def)
  moreover have "file = (h @ B1 @ sqlite3Put4byte (fst (fs ! (i - 1))) @ sqlite3Put4byte (fst (snd (fs ! (i - 1)))) @ j) @ snd (snd (fs ! (i - 1))) @ (B2 @ tail)"
    by (simp add: B(1) s(1) slotBytes_def)
  ultimately show ?thesis by blast
qed

lemma pageSize16_decode:
  assumes "page_size szPg"
  shows "unat (((ucast (pageSize16 szPg) :: u32) AND 0xfe00) + push_bit 16 (ucast (pageSize16 szPg) AND 1)) = szPg"
  using assms unfolding page_size_def by (elim insertE emptyE) (simp_all add: pageSize16_def)

lemma walPage_ok:
  assumes "fileHas szPg (pWalFd v) fs" "idx_ok (ix v) (map fst fs)" "mxFrame (whdr v) \<le> length fs" "osRc v = []"
    "mxFrame (whdr v) \<noteq> 0 \<longrightarrow> szPageHdr (whdr v) = pageSize16 szPg" "readLock (ix v) \<noteq> 0" "False \<notin> set (mapOk (ix v))"
  shows "walPage v szPg p = Some (latest (drop (minFrame (ix v) - 1) (take (mxFrame (whdr v)) fs)) p)"
proof -
  define i where "i = lastFrame (map fst fs) p (minFrame (ix v)) (mxFrame (whdr v))"
  have "mxFrame (hdr (ix v)) \<le> length (map fst fs)" using assms(3) by (simp add: whdr_def)
  from FindFrame_ok [OF assms(2) this, of p] assms(6,7) obtain x
    where x: "sqlite3WalFindFrame (ix v) p = Some (0, i, x)" "same_index (ix v) x" by (auto simp: i_def whdr_def)
  have l: "latest (drop (minFrame (ix v) - 1) (take (mxFrame (whdr v)) fs)) p = (if i = 0 then None else Some (snd (snd (fs ! (i - 1)))))"
    using lastFrame_latest [OF assms(3), of "minFrame (ix v)" p] by (simp add: i_def Let_def)
  show ?thesis
  proof (cases "i = 0")
    case True
    with x l show ?thesis by (simp add: walPage_def)
  next
    case False
    have "i \<le> mxFrame (whdr v)" unfolding i_def by (rule lastFrame_le)
    then have i: "0 < i" "i \<le> length fs" "mxFrame (whdr v) \<noteq> 0" using False assms(3) by linarith+
    obtain X Y where XY: "pWalFd v = X @ snd (snd (fs ! (i - 1))) @ Y" "length X = walFrameOffset i szPg + WAL_FRAME_HDRSIZE"
      using fileHas_data [OF assms(1) i(1,2)] by blast
    have "frame_ok szPg (fs ! (i - 1))" using assms(1) i(1,2) by (simp add: fileHas_def list_all_length)
    then have len: "length (snd (snd (fs ! (i - 1)))) = szPg" by (simp add: frame_ok_def)
    define v' where "v' = v\<lparr>ix := x\<rparr>"
    have hd: "whdr v' = whdr v" using x(2) by (simp add: v'_def whdr_def same_index_def)
    have "sqlite3OsRead szPg (walFrameOffset i szPg + WAL_FRAME_HDRSIZE) v' = (0, snd (snd (fs ! (i - 1))), v')"
      by (rule OsRead_at [of v' X _ Y]) (use assms(4) XY len in \<open>simp_all add: v'_def\<close>)
    moreover have "page_size szPg" using assms(1) by (simp add: fileHas_def)
    ultimately have "sqlite3WalReadFrame v' i szPg = (0, snd (snd (fs ! (i - 1))), v')"
      using assms(5) i(3) pageSize16_decode [of szPg] unfolding sqlite3WalReadFrame_def hd Let_def by simp
    with x(1) l False show ?thesis by (simp add: walPage_def v'_def [symmetric])
  qed
qed

lemma walPage_empty: "mxFrame (whdr v) = 0 \<Longrightarrow> walPage v szPg p = Some None"
  by (simp add: walPage_def sqlite3WalFindFrame_def whdr_def)

lemma winvD:
  assumes "winv szPg w fs"
  shows "page_size szPg" "length (aSalt (whdr w)) = 8" "osRc w = []" "fs \<noteq> [] \<Longrightarrow> finv szPg w fs" "idx_ok (ix w) (map fst fs)"
    "mxFrame (whdr w) = length fs" "mxFrame (live (ix w)) \<le> length fs" "readLock (ix w) \<noteq> 0" "False \<notin> set (mapOk (ix w))"
    "committed (take (mxFrame (live (ix w))) fs) = take (mxFrame (live (ix w))) fs" "fs \<noteq> [] \<Longrightarrow> szPageHdr (whdr w) = pageSize16 szPg"
    "mxFrame (live (ix w)) \<noteq> 0 \<Longrightarrow> szPageHdr (live (ix w)) = pageSize16 szPg" "minFrame (ix w) \<le> mxFrame (live (ix w)) + 1"
    "list_all (\<lambda>f. fst (snd f) = 0) (drop (mxFrame (live (ix w))) fs)"
  using assms unfolding winv_def by (auto split: if_splits)

lemma walPage_winv:
  assumes "winv szPg w fs"
  shows "walPage w szPg p = Some (latest (drop (minFrame (ix w) - 1) fs) p)"
proof (cases "fs = []")
  case True
  with walPage_empty [of w szPg p] winvD(6) [OF assms] show ?thesis by simp
next
  case False
  note wi = winvD [OF assms]
  have "walPage w szPg p = Some (latest (drop (minFrame (ix w) - 1) (take (mxFrame (whdr w)) fs)) p)"
    by (rule walPage_ok) (use wi False finv_fileHas [OF wi(4) [OF False]] in simp_all)
  with wi(6) show ?thesis by simp
qed

text \<open>A reader that uses the header of the last commit.\<close>

definition reader :: "walhdr \<Rightarrow> wallog \<Rightarrow> wallog" where
  "reader h w = set_whdr h w"

lemma walPage_reader:
  assumes "winv szPg w fs" "mxFrame h \<le> length fs" "mxFrame h \<noteq> 0 \<Longrightarrow> szPageHdr h = pageSize16 szPg"
  shows "walPage (reader h w) szPg p = Some (latest (drop (minFrame (ix w) - 1) (take (mxFrame h) fs)) p)"
proof (cases "mxFrame h = 0")
  case True
  with walPage_empty [of "reader h w" szPg p] show ?thesis by (simp add: reader_def)
next
  case False
  note wi = winvD [OF assms(1)]
  have fs: "fs \<noteq> []" using False assms(2) by auto
  have "ix (reader h w) = (ix w)\<lparr>hdr := h\<rparr>" by (simp add: reader_def set_whdr_def)
  then show ?thesis using walPage_ok [of szPg "reader h w" fs p] finv_fileHas [OF wi(4) [OF fs]] wi(3,5,8,9) assms(2,3) False
    by (simp add: reader_def)
qed

section \<open>Recovery of a written log\<close>

lemma dead_short: "length salt = 8 \<Longrightarrow> length bs < szPg + WAL_FRAME_HDRSIZE \<Longrightarrow> dead big salt ck szPg bs"
  unfolding dead_def using length_frameBytes [of salt szPg] by (metis length_append not_add_less1)

lemma finv_logFile:
  assumes "finv szPg w fs" "iReCksum w = 0"
  shows "\<exists>tail. pWalFd w = logFile (bigEndCksum (whdr w)) szPg (nCkpt (ix w)) (aSalt (whdr w)) fs @ tail
    \<and> tail = drop (walFrameOffset (length fs + 1) szPg) (pWalFd w)"
proof -
  note fv = finvD [OF assms(1)]
  obtain B tail where B: "pWalFd w = logHeader (bigEndCksum (whdr w)) szPg (nCkpt (ix w)) (aSalt (whdr w))
        @ logBytes (bigEndCksum (whdr w)) (aSalt (whdr w)) (hdr_ck szPg w) fs @ B @ tail" "slots B []"
    using assms unfolding finv_def by auto
  have "length (logFile (bigEndCksum (whdr w)) szPg (nCkpt (ix w)) (aSalt (whdr w)) fs) = walFrameOffset (length fs + 1) szPg"
    using length_log_prefix [OF fv(4,1) le_refl, of "bigEndCksum (whdr w)" "nCkpt (ix w)"] by (simp add: logFile_def)
  with B show ?thesis by (simp add: logFile_def hdr_ck_def)
qed

text \<open>What a new connection finds after recovery from the frames \<open>gs\<close> at the start of the file.\<close>

lemma recover_pages:
  assumes "pWalFd v = logFile big szPg n salt gs @ tail" "dead big salt (runCk big (hdrCk big szPg n salt) gs) szPg tail"
    "list_all (frame_ok szPg) gs" "page_size szPg" "length salt = 8" "gs \<noteq> [] \<or> tail \<noteq> []"
    "idx_ok (ix v) []" "osRc v = []" "False \<notin> set (mapOk (ix v))" "readLock (ix v) \<noteq> 0"
  shows "\<exists>v'. walIndexRecover be v = Some (0, v') \<and> whdr v' = recHdr big szPg n salt (committed gs)
    \<and> (\<forall>p. walPage v' szPg p = Some (latest (drop (minFrame (ix v) - 1) (committed gs)) p))"
proof -
  obtain v' where v': "walIndexRecover be v = Some (0, v')" "whdr v' = recHdr big szPg n salt (committed gs)" "idx_ok (ix v') (map fst gs)"
    "pWalFd v' = pWalFd v" "readLock (ix v') = readLock (ix v)" "minFrame (ix v') = minFrame (ix v)" "False \<notin> set (mapOk (ix v'))" "osRc v' = []"
    using walIndexRecover_ok [OF assms(1-9), of be] by blast
  have "fileHas szPg (pWalFd v') gs"
    unfolding v'(4) assms(1) fileHas_def logFile_def
    by (intro conjI exI [of _ "logHeader big szPg n salt"] exI [of _ "logBytes big salt (hdrCk big szPg n salt) gs"] exI [of _ tail])
      (use logBytes_slots [OF assms(5)] length_logHeader [OF assms(5)] assms(3,4) in simp_all)
  moreover have mx: "mxFrame (whdr v') = length (committed gs)" "mxFrame (whdr v') \<noteq> 0 \<longrightarrow> szPageHdr (whdr v') = pageSize16 szPg"
    by (auto simp: v'(2) recHdr_def commitHdr_def zeroHdr_def)
  moreover have "committed gs = take (length (committed gs)) gs"
  proof -
    have "gs = committed gs @ rev (takeWhile (\<lambda>f. fst (snd f) = 0) (rev gs))"
      unfolding committed_def by (metis rev_append rev_rev_ident takeWhile_dropWhile_id)
    then show ?thesis by (metis append_eq_conv_conj)
  qed
  moreover have "length (committed gs) \<le> length gs"
    unfolding committed_def length_rev using length_dropWhile_le [of _ "rev gs"] by simp
  ultimately have "walPage v' szPg p = Some (latest (drop (minFrame (ix v) - 1) (committed gs)) p)" for p
    using walPage_ok [of szPg v' gs p] v'(3,5-8) assms(10) by simp
  with v'(1,2) show ?thesis by blast
qed

text \<open>A log that lost its end.\<close>

lemma take_logFile:
  assumes "length salt = 8" "list_all (frame_ok szPg) fs" "WAL_HDRSIZE \<le> k" "k \<le> walFrameOffset (length fs + 1) szPg"
  defines "j \<equiv> (k - WAL_HDRSIZE) div (szPg + WAL_FRAME_HDRSIZE)"
  shows "\<exists>part. take k (logFile big szPg n salt fs @ tail) = logFile big szPg n salt (take j fs) @ part \<and> length part < szPg + WAL_FRAME_HDRSIZE
    \<and> j \<le> length fs \<and> k = walFrameOffset (j + 1) szPg + length part"
proof -
  let ?sz = "szPg + WAL_FRAME_HDRSIZE"
  define x where "x = k - WAL_HDRSIZE"
  have sz: "0 < ?sz" by (simp add: WAL_FRAME_HDRSIZE_def)
  have x: "x \<le> length fs * ?sz" using assms(4) by (simp add: x_def walFrameOffset_def)
  have jx: "j * ?sz \<le> x" "x - j * ?sz < ?sz"
    using sz by (simp_all add: j_def x_def [symmetric] div_times_less_eq_dividend minus_div_mult_eq_mod)
  have j: "j \<le> length fs"
  proof (rule ccontr)
    assume "\<not> j \<le> length fs"
    then have "(length fs + 1) * ?sz \<le> j * ?sz" by (intro mult_le_mono1) simp
    with jx(1) x sz show False by (simp add: add_mult_distrib)
  qed
  define H where "H = logHeader big szPg n salt"
  define L where "L = logBytes big salt (hdrCk big szPg n salt)"
  define R where "R = logBytes big salt (runCk big (hdrCk big szPg n salt) (take j fs)) (drop j fs)"
  have H: "length H = WAL_HDRSIZE" unfolding H_def by (rule length_logHeader [OF assms(1)])
  have Lj: "length (L (take j fs)) = j * ?sz"
    using length_logBytes [OF assms(1), of szPg "take j fs" big "hdrCk big szPg n salt"] assms(2) j
    by (simp add: L_def list_all_iff) (meson in_set_takeD)
  have Lfs: "L fs = L (take j fs) @ R" unfolding L_def R_def logBytes_append [symmetric] by simp
  have "length (L fs) = length fs * ?sz" unfolding L_def by (rule length_logBytes [OF assms(1,2)])
  then have xR: "x - j * ?sz \<le> length R" using x Lfs Lj by simp
  have k: "k = length H + (length (L (take j fs)) + (x - j * ?sz))" using jx(1) assms(3) by (simp add: H Lj x_def)
  define part where "part = take (x - j * ?sz) R"
  have "take k ((H @ L fs) @ tail) = (H @ L (take j fs)) @ part"
    unfolding Lfs k part_def using xR by simp
  moreover have "length part = x - j * ?sz" using xR by (simp add: part_def)
  moreover have "k = walFrameOffset (j + 1) szPg + (x - j * ?sz)" using jx(1) assms(3) by (simp add: walFrameOffset_def x_def)
  ultimately show ?thesis using jx(2) j unfolding logFile_def H_def [symmetric] L_def [symmetric] by (intro exI [of _ part]) simp
qed

lemma recover_tiny:
  assumes "length (pWalFd v) \<le> WAL_HDRSIZE" "osRc v = []"
  shows "\<exists>v'. walIndexRecover be v = Some (0, v') \<and> mxFrame (whdr v') = 0"
  using assms by (simp add: walIndexRecover_def whdr_recoverFinish zeroHdr_def Let_def)

lemma committed_append_unmarked: "list_all (\<lambda>f. fst (snd f) = 0) gs \<Longrightarrow> committed (fs @ gs) = committed fs"
proof -
  assume "list_all (\<lambda>f. fst (snd f) = 0) gs"
  then have "dropWhile (\<lambda>f. fst (snd f) = 0) (rev gs @ rev fs) = dropWhile (\<lambda>f. fst (snd f) = 0) (rev fs)"
    by (intro dropWhile_append2) (auto simp: list_all_iff)
  then show ?thesis by (simp add: committed_def)
qed

text \<open>Only the last frame of a commit is marked.\<close>

lemma applyPages_butlast:
  "m \<le> length fs \<Longrightarrow> list_all (\<lambda>f. fst (snd f) = 0) (drop m fs) \<Longrightarrow> ps \<noteq> []
    \<Longrightarrow> \<exists>gs. applyPages fnd nT True iFirst ps fs = gs @ [(fst (last ps), nT, snd (last ps))] \<and> list_all (\<lambda>f. fst (snd f) = 0) (drop m gs) \<and> m \<le> length gs"
proof (induction ps arbitrary: fs)
  case (Cons p ps)
  show ?case
  proof (cases "ps = []")
    case True
    with Cons.prems show ?thesis by simp
  next
    case False
    have "list_all (\<lambda>f. fst (snd f) = 0) (drop m (setData j d fs))" for j d
      using applyPages_marks [of m fs False "\<lambda>_. j + 1" nT 1 "[(0, d)]"] Cons.prems(1,2) by simp
    then show ?thesis using Cons.IH Cons.prems False by (simp add: Let_def)
  qed
qed simp

end
