(* ===== verification/WalGuarantees.thy ===== *)
theory WalGuarantees
  imports WalDurable
begin

text \<open>
  What transactions may rely on: the refinement of the map from pages to contents, snapshots, durability, atomicity after a crash in the middle
  of a commit, and the frames that recovery accepts.
\<close>

section \<open>A new log\<close>

definition log_init :: wallog where
  "log_init = \<lparr>ix = (wal_init 0 0)\<lparr>hdr := zeroHdr\<lparr>aSalt := replicate 8 0\<rparr>, live := zeroHdr\<rparr>, szPage = 0, iReCksum = 0, truncateOnCommit = False,
     syncHeader = True, padToSectorBoundary = True, mxWalSize = -1, ckpt = \<lparr>nBackfill = 0, aReadMark = [], nBackfillAttempted = 0\<rparr>,
     pWalFd = [], osRc = []\<rparr>"

lemma log_init_winv: "winv 512 log_init []"
proof -
  have "idx_ok (ix log_init) []" using wal_init_ok [of 0 0] by (simp add: idx_ok_def log_init_def)
  then show ?thesis by (simp add: winv_def page_size_def log_init_def whdr_def zeroHdr_def)
qed

lemma log_init_simps: "minFrame (ix log_init) = 1" "live (ix log_init) = whdr log_init" "mxFrame (whdr log_init) = 0"
  by (simp_all add: log_init_def whdr_def zeroHdr_def)

text \<open>A connection that has just opened the log: the index is empty or will be rebuilt.\<close>

definition opened :: "wallog \<Rightarrow> bool" where
  "opened v \<longleftrightarrow> idx_ok (ix v) [] \<and> osRc v = [] \<and> False \<notin> set (mapOk (ix v)) \<and> readLock (ix v) \<noteq> 0"

lemma opened_log_init: "opened (log_init\<lparr>pWalFd := fd\<rparr>)"
  using winvD(5,9,8,3) [OF log_init_winv] by (simp add: opened_def)

definition onePage :: "u8 list" where
  "onePage = replicate 512 7"

lemma onePage_ok: "p \<noteq> 0 \<Longrightarrow> pages_ok 512 [(p, onePage)]"
  by (simp add: pages_ok_def onePage_def)

lemma committed_take: "committed gs = take (length (committed gs)) gs" "length (committed gs) \<le> length gs"
proof -
  have "gs = committed gs @ rev (takeWhile (\<lambda>f. fst (snd f) = 0) (rev gs))"
    unfolding committed_def by (metis rev_append rev_rev_ident takeWhile_dropWhile_id)
  then show "committed gs = take (length (committed gs)) gs" by (metis append_eq_conv_conj)
  show "length (committed gs) \<le> length gs" unfolding committed_def length_rev using length_dropWhile_le [of _ "rev gs"] by simp
qed

section \<open>Refinement\<close>

text \<open>A call that writes pages succeeds, keeps the invariant of the log, and updates the map from pages to contents that the log
  stands for, whatever it overwrites, appends or pads.
\<close>

theorem sqlite3WalFrames_refines:
  assumes "winv szPg w fs" "pages_ok szPg ps" "distinct (map fst ps)" "length rnd = 8" "c \<longleftrightarrow> nT \<noteq> 0"
  shows "\<exists>w' fs'. sqlite3WalFrames be ss rnd szPg ps nT c sync w = Some (0, w') \<and> winv szPg w' fs'
    \<and> (\<forall>p. walPage w' szPg p = (case map_of ps p of Some d \<Rightarrow> Some (Some d) | None \<Rightarrow> walPage w szPg p))"
proof -
  obtain k w' where w': "sqlite3WalFrames be ss rnd szPg ps nT c sync w = Some (0, w')" "winv szPg w' (framesAfter w fs nT c ps k)" "\<not> c \<longrightarrow> k = 0"
    "minFrame (ix w') = minFrame (ix w)" using sqlite3WalFrames_ok [OF assms(1,2,4,5), of be ss sync] by blast
  have "walPage w' szPg p = (case map_of ps p of Some d \<Rightarrow> Some (Some d) | None \<Rightarrow> walPage w szPg p)" for p
    using walPage_winv [OF w'(2), of p] walPage_winv [OF assms(1), of p] framesAfter_latest [OF assms(1-3) w'(3), of nT] w'(4)
    by (simp add: map_add_def split: option.split)
  with w'(1,2) show ?thesis by blast
qed

lemma sqlite3WalFrames_refines_witness:
  "\<exists>w'. sqlite3WalFrames False 4096 (replicate 8 1) 512 [(1, onePage)] 1 True False log_init = Some (0, w')
    \<and> walPage w' 512 1 = Some (Some onePage) \<and> walPage w' 512 2 = Some None"
proof -
  have "distinct (map fst [(1 :: u32, onePage)])" "length (replicate 8 (1 :: u8)) = 8" "True \<longleftrightarrow> (1 :: u32) \<noteq> 0" by simp_all
  from sqlite3WalFrames_refines [OF log_init_winv onePage_ok this, of False 4096 False]
  obtain w' where w': "sqlite3WalFrames False 4096 (replicate 8 1) 512 [(1, onePage)] 1 True False log_init = Some (0, w')"
    "\<And>p. walPage w' 512 p = (case map_of [(1, onePage)] p of Some d \<Rightarrow> Some (Some d) | None \<Rightarrow> walPage log_init 512 p)" by auto
  with w'(2) [of 1] w'(2) [of 2] walPage_empty [OF log_init_simps(3)] show ?thesis by simp
qed

lemma framesAfter_prefix:
  assumes "winv szPg w fs"
  shows "take (mxFrame (live (ix w))) (framesAfter w fs nT c ps k) = take (mxFrame (live (ix w))) fs" (is "take ?lv _ = _")
    "length fs \<le> length (framesAfter w fs nT c ps k)"
proof -
  note wi = winvD [OF assms]
  define A where "A = applyPages (\<lambda>p. lastFrame (map fst fs) p (minFrame (ix w)) (length fs)) nT c (firstFrame w) ps fs"
  have A: "length fs \<le> length A" unfolding A_def by (rule applyPages_length)
  then show "length fs \<le> length (framesAfter w fs nT c ps k)" by (simp add: framesAfter_def A_def [symmetric])
  have "firstFrame w \<noteq> 0 \<longrightarrow> ?lv < firstFrame w" by (simp add: firstFrame_def)
  then have "take ?lv A = take ?lv fs" unfolding A_def by (rule applyPages_prefix [OF wi(7)])
  with A wi(7) show "take ?lv (framesAfter w fs nT c ps k) = take ?lv fs" by (simp add: framesAfter_def A_def [symmetric])
qed

text \<open>C7. A reader that took the header of the last commit finds for every page what it found before, while a writer writes any pages.
\<close>

theorem reader_keeps_snapshot:
  assumes "winv szPg w fs" "pages_ok szPg ps" "length rnd = 8" "c \<longleftrightarrow> nT \<noteq> 0"
  shows "\<exists>w'. sqlite3WalFrames be ss rnd szPg ps nT c sync w = Some (0, w')
    \<and> (\<forall>p. walPage (reader (live (ix w)) w') szPg p = walPage (reader (live (ix w)) w) szPg p)"
proof -
  let ?lv = "mxFrame (live (ix w))"
  obtain k w' where w': "sqlite3WalFrames be ss rnd szPg ps nT c sync w = Some (0, w')" "winv szPg w' (framesAfter w fs nT c ps k)"
    "minFrame (ix w') = minFrame (ix w)" using sqlite3WalFrames_ok [OF assms, of be ss sync] by blast
  note wi = winvD [OF assms(1)] and t = framesAfter_prefix [OF assms(1), of nT c ps k]
  have "?lv \<le> length (framesAfter w fs nT c ps k)" using t(2) wi(7) by (rule le_trans [rotated])
  then have "walPage (reader (live (ix w)) w') szPg p = walPage (reader (live (ix w)) w) szPg p" for p
    using walPage_reader [OF w'(2), of "live (ix w)" p] walPage_reader [OF assms(1) wi(7), of p] wi(12) by (simp add: t(1) w'(3))
  with w'(1) show ?thesis by blast
qed

lemma reader_keeps_snapshot_witness:
  "\<exists>w'. sqlite3WalFrames True 512 (replicate 8 1) 512 [(1, onePage)] 0 False True log_init = Some (0, w')
    \<and> walPage (reader (live (ix log_init)) w') 512 1 = Some None"
proof -
  have "length (replicate 8 (1 :: u8)) = 8" "False \<longleftrightarrow> (0 :: u32) \<noteq> 0" by simp_all
  from reader_keeps_snapshot [OF log_init_winv onePage_ok [of 1] this, of True 512 True] walPage_empty [of "reader (live (ix log_init)) log_init" 512 1]
  show ?thesis by (auto simp: reader_def log_init_simps)
qed

section \<open>Durability\<close>

lemma framesAfter_last:
  assumes "ps \<noteq> []"
  shows "last (framesAfter w fs nT True ps k) = (fst (last ps), nT, snd (last ps))" "framesAfter w fs nT True ps k \<noteq> []"
  using applyPages_last [OF TrueI assms, of "\<lambda>p. lastFrame (map fst fs) p (minFrame (ix w)) (length fs)" nT "firstFrame w" fs]
  by (cases k; simp add: framesAfter_def)+

text \<open>What a commit leaves in the file.\<close>

lemma commit_log:
  assumes "winv szPg w fs" "pages_ok szPg ps" "length rnd = 8" "nT \<noteq> 0"
  shows "\<exists>k w' F. sqlite3WalFrames be ss rnd szPg ps nT True sync w = Some (0, w') \<and> winv szPg w' F \<and> F = framesAfter w fs nT True ps k
    \<and> take (walFrameOffset (length F + 1) szPg) (pWalFd w') = logFile (bigEndCksum (whdr w')) szPg (nCkpt (ix w')) (aSalt (whdr w')) F
    \<and> (whdr w')\<lparr>iChange := 0, isInit := True\<rparr> = recHdr (bigEndCksum (whdr w')) szPg (nCkpt (ix w')) (aSalt (whdr w')) F
    \<and> list_all (frame_ok szPg) F \<and> committed F = F \<and> minFrame (ix w') = minFrame (ix w)"
proof -
  obtain k w' where w': "sqlite3WalFrames be ss rnd szPg ps nT True sync w = Some (0, w')" "winv szPg w' (framesAfter w fs nT True ps k)"
    "finv szPg w' (framesAfter w fs nT True ps k)" "iReCksum w' = 0" "nPage (whdr w') = nT" "minFrame (ix w') = minFrame (ix w)"
    using sqlite3WalFrames_ok [OF assms(1-3), of True nT be ss sync] assms(4) by auto
  define F where "F = framesAfter w fs nT True ps k"
  have "ps \<noteq> []" using assms(2) by (simp add: pages_ok_def)
  note l = framesAfter_last [OF this, of w fs nT k, folded F_def]
  have cm: "committed F = F" by (rule committed_last) (use l assms(4) in simp_all)
  note fv = finvD [OF w'(3), folded F_def] and wi = winvD [OF w'(2), folded F_def]
  have "length (logFile (bigEndCksum (whdr w')) szPg (nCkpt (ix w')) (aSalt (whdr w')) F) = walFrameOffset (length F + 1) szPg"
    using length_log_prefix [OF fv(4,1) le_refl, of "bigEndCksum (whdr w')" "nCkpt (ix w')"] by (simp add: logFile_def)
  then have t: "take (walFrameOffset (length F + 1) szPg) (pWalFd w') = logFile (bigEndCksum (whdr w')) szPg (nCkpt (ix w')) (aSalt (whdr w')) F"
    using finv_logFile [OF w'(3,4), folded F_def] by (metis append_eq_conv_conj)
  have h: "(whdr w')\<lparr>iChange := 0, isInit := True\<rparr> = recHdr (bigEndCksum (whdr w')) szPg (nCkpt (ix w')) (aSalt (whdr w')) F"
    using l fv(7) [OF w'(4)] wi(6) wi(11) [OF l(2)] w'(5)
    by (intro walhdr.equality) (simp_all add: recHdr_def commitHdr_def hdr_ck_def zeroHdr_def)
  show ?thesis using w'(1,2,6) cm t h fv(1) unfolding F_def by blast
qed

text \<open>C3. After a commit the file alone is enough: a connection that opens the log after a crash, on a processor of either byte order,
  recovers the header of that commit (but for the change counter) and finds every page with the contents that the committing connection sees.
  The bytes after the last frame must not continue the log with a valid frame.
\<close>

theorem commit_durable:
  assumes "winv szPg w fs" "pages_ok szPg ps" "length rnd = 8" "nT \<noteq> 0"
    "sqlite3WalFrames be ss rnd szPg ps nT True sync w = Some (0, w')" "opened v" "minFrame (ix v) = minFrame (ix w)"
    "pWalFd v = take (walFrameOffset (mxFrame (whdr w') + 1) szPg) (pWalFd w') @ tail"
    "dead (bigEndCksum (whdr w')) (aSalt (whdr w')) (aFrameCksum (whdr w')) szPg tail"
  shows "\<exists>v'. walIndexRecover be' v = Some (0, v') \<and> (whdr v')\<lparr>iChange := 0, isInit := True\<rparr> = (whdr w')\<lparr>iChange := 0, isInit := True\<rparr>
    \<and> (\<forall>p. walPage v' szPg p = walPage w' szPg p)"
proof -
  let ?big = "bigEndCksum (whdr w')" and ?n = "nCkpt (ix w')" and ?salt = "aSalt (whdr w')"
  obtain k F where w': "winv szPg w' F" "F = framesAfter w fs nT True ps k"
    "take (walFrameOffset (length F + 1) szPg) (pWalFd w') = logFile ?big szPg ?n ?salt F"
    "(whdr w')\<lparr>iChange := 0, isInit := True\<rparr> = recHdr ?big szPg ?n ?salt F"
    "list_all (frame_ok szPg) F" "committed F = F" "minFrame (ix w') = minFrame (ix w)"
    using commit_log [OF assms(1-4), of be ss sync] assms(5) by auto
  note wi = winvD [OF w'(1)]
  have ne: "F \<noteq> []" using assms(2) framesAfter_last(2) [of ps w fs nT k] w'(2) by (simp add: pages_ok_def)
  have ck: "aFrameCksum (whdr w') = runCk ?big (hdrCk ?big szPg ?n ?salt) F"
    using arg_cong [OF w'(4), of aFrameCksum] ne by (simp add: recHdr_def)
  have "pWalFd v = logFile ?big szPg ?n ?salt F @ tail" using assms(8) w'(3) wi(6) by simp
  from recover_pages [OF this assms(9) [unfolded ck] w'(5) wi(1,2), of be'] ne assms(6)
  obtain v' where v': "walIndexRecover be' v = Some (0, v')" "whdr v' = recHdr ?big szPg ?n ?salt F"
    "\<And>p. walPage v' szPg p = Some (latest (drop (minFrame (ix v) - 1) F) p)" unfolding opened_def w'(6) by blast
  have "(whdr v')\<lparr>iChange := 0, isInit := True\<rparr> = whdr v'" unfolding v'(2) recHdr_def commitHdr_def zeroHdr_def by simp
  then show ?thesis using v' walPage_winv [OF w'(1)] assms(7) w'(4,7) by simp
qed

lemma dead_Nil: "dead big salt ck szPg []"
  by (simp add: dead_def frameBytes_def frameHdr_def sqlite3Put4byte_def)

lemma first_commit: "\<exists>w'. sqlite3WalFrames False 4096 (replicate 8 1) 512 [(1, onePage)] 1 True True log_init = Some (0, w')"
proof -
  have "length (replicate 8 (1 :: u8)) = 8" "True \<longleftrightarrow> (1 :: u32) \<noteq> 0" by simp_all
  from sqlite3WalFrames_ok [OF log_init_winv onePage_ok [of 1] this, of False 4096 True] show ?thesis by auto
qed

lemma commit_durable_witness:
  "\<exists>w' v'. sqlite3WalFrames False 4096 (replicate 8 1) 512 [(1, onePage)] 1 True True log_init = Some (0, w')
    \<and> walIndexRecover True (log_init\<lparr>pWalFd := take (walFrameOffset (mxFrame (whdr w') + 1) 512) (pWalFd w')\<rparr>) = Some (0, v')
    \<and> walPage v' 512 1 = walPage w' 512 1"
proof -
  obtain w' where w': "sqlite3WalFrames False 4096 (replicate 8 1) 512 [(1, onePage)] 1 True True log_init = Some (0, w')"
    using first_commit by blast
  have c: "length (replicate 8 (1 :: u8)) = 8" "(1 :: u32) \<noteq> 0" by simp_all
  let ?v = "log_init\<lparr>pWalFd := take (walFrameOffset (mxFrame (whdr w') + 1) 512) (pWalFd w')\<rparr>"
  from commit_durable [OF log_init_winv onePage_ok [of 1] c w' opened_log_init _ _ dead_Nil, of _ True] w'
  have "\<exists>v'. walIndexRecover True ?v = Some (0, v') \<and> (\<forall>p. walPage v' 512 p = walPage w' 512 p)" by auto
  with w' show ?thesis by blast
qed

section \<open>Atomicity\<close>

lemma latest_replicate: "latest ((xs @ [f]) @ replicate n f) = latest (xs @ [f])"
proof (induction n)
  case (Suc n)
  have "(xs @ [f]) @ replicate (Suc n) f = ((xs @ [f]) @ replicate n f) @ [f]" by (simp add: replicate_append_same)
  then have "latest ((xs @ [f]) @ replicate (Suc n) f) = (latest ((xs @ [f]) @ replicate n f))(fst f \<mapsto> snd (snd f))" by (simp only: latest_simps)
  then show ?case unfolding Suc.IH by simp
qed simp

text \<open>The frames of a commit of which only the first \<open>j\<close> reached the file.\<close>

lemma partial_commit:
  assumes "winv szPg w fs" "ps \<noteq> []" "nT \<noteq> 0" "F = framesAfter w fs nT True ps k" "mxFrame (live (ix w)) \<le> j"
  shows "committed (take j F) = take (mxFrame (live (ix w))) fs
    \<or> latest (drop (minFrame (ix w) - 1) (committed (take j F))) = latest (drop (minFrame (ix w) - 1) F)"
proof -
  let ?lv = "mxFrame (live (ix w))" and ?l = "minFrame (ix w) - 1"
  note wi = winvD [OF assms(1)]
  define f where "f = (fst (last ps), nT, snd (last ps))"
  obtain gs where gs: "applyPages (\<lambda>p. lastFrame (map fst fs) p (minFrame (ix w)) (length fs)) nT True (firstFrame w) ps fs = gs @ [f]"
    "list_all (\<lambda>f. fst (snd f) = 0) (drop ?lv gs)" "?lv \<le> length gs"
    using applyPages_butlast [OF wi(7,14) assms(2)] unfolding f_def by blast
  have F: "F = (gs @ [f]) @ replicate k f" unfolding assms(4) framesAfter_def gs(1) f_def by (rule refl)
  show ?thesis
  proof (cases "j \<le> length gs")
    case True
    then have "take j F = take ?lv F @ drop ?lv (take j gs)"
      using assms(5) gs(3) append_take_drop_id [of ?lv "take j gs"] by (simp add: F min_def)
    moreover have "list_all (\<lambda>f. fst (snd f) = 0) (drop ?lv (take j gs))"
      using gs(2) unfolding drop_take by (meson in_set_takeD list_all_iff)
    ultimately have "committed (take j F) = committed (take ?lv F)" by (simp add: committed_append_unmarked)
    then show ?thesis using framesAfter_prefix(1) [OF assms(1), of nT True ps k] wi(10) assms(4) by simp
  next
    case False
    define n where "n = min (j - length gs - 1) k"
    have j: "take j F = (gs @ [f]) @ replicate n f" using False by (simp add: F n_def take_Cons')
    have "committed (take j F) = take j F" unfolding j
      by (rule committed_last) (use assms(3) in \<open>simp_all add: f_def last_append\<close>)
    moreover have l: "latest (drop ?l ((gs @ [f]) @ replicate m f)) = latest (drop ?l gs @ [f])" for m
    proof -
      have "drop ?l ((gs @ [f]) @ replicate m f) = (drop ?l gs @ [f]) @ replicate m f" using gs(3) wi(13) by simp
      then show ?thesis by (simp only: latest_replicate)
    qed
    have "latest (drop ?l (take j F)) = latest (drop ?l F)" unfolding j l unfolding F by (rule l [symmetric])
    ultimately show ?thesis by simp
  qed
qed

text \<open>C4. If the machine fails in the middle of a commit, so that only a first part of the new end of the log is in the file, the next
  connection finds either every page as it was after the commit before or every page as the new commit wrote it.
\<close>

theorem crash_during_commit:
  assumes "winv szPg w fs" "pages_ok szPg ps" "length rnd = 8" "nT \<noteq> 0"
    "sqlite3WalFrames be ss rnd szPg ps nT True sync w = Some (0, w')" "opened v" "minFrame (ix v) = minFrame (ix w)"
    "pWalFd v = take n (pWalFd w')" "mxFrame (live (ix w)) = 0 \<or> walFrameOffset (mxFrame (live (ix w)) + 1) szPg \<le> n"
    "n \<le> walFrameOffset (mxFrame (whdr w') + 1) szPg"
  shows "\<exists>v'. walIndexRecover be' v = Some (0, v')
    \<and> ((\<forall>p. walPage v' szPg p = walPage (reader (live (ix w)) w) szPg p) \<or> (\<forall>p. walPage v' szPg p = walPage w' szPg p))"
proof -
  let ?lv = "mxFrame (live (ix w))"
  let ?big = "bigEndCksum (whdr w')" and ?n = "nCkpt (ix w')" and ?salt = "aSalt (whdr w')"
  obtain k F where w': "winv szPg w' F" "F = framesAfter w fs nT True ps k"
    "take (walFrameOffset (length F + 1) szPg) (pWalFd w') = logFile ?big szPg ?n ?salt F"
    "list_all (frame_ok szPg) F" "minFrame (ix w') = minFrame (ix w)"
    using commit_log [OF assms(1-4), of be ss sync] assms(5) by auto
  note wi = winvD [OF w'(1)] and wo = winvD [OF assms(1)]
  have ps: "ps \<noteq> []" using assms(2) by (simp add: pages_ok_def)
  have old: "walPage (reader (live (ix w)) w) szPg p = Some (latest (drop (minFrame (ix w) - 1) (take ?lv fs)) p)" for p
    by (rule walPage_reader [OF assms(1) wo(7,12)])
  have new: "walPage w' szPg p = Some (latest (drop (minFrame (ix w) - 1) F) p)" for p
    using walPage_winv [OF w'(1)] w'(5) by simp
  show ?thesis
  proof (cases "n \<le> WAL_HDRSIZE")
    case True
    moreover have "0 < ?lv \<longrightarrow> WAL_HDRSIZE < walFrameOffset (?lv + 1) szPg" by (simp add: walFrameOffset_def WAL_FRAME_HDRSIZE_def)
    ultimately have "?lv = 0" using assms(9) by linarith
    moreover have "length (pWalFd v) \<le> WAL_HDRSIZE" using assms(8) True by simp
    from recover_tiny [OF this, of be'] obtain v' where "walIndexRecover be' v = Some (0, v')" "mxFrame (whdr v') = 0"
      using assms(6) unfolding opened_def by blast
    ultimately show ?thesis using walPage_empty [of v'] old by auto
  next
    case False
    have n: "n \<le> walFrameOffset (length F + 1) szPg" using assms(10) wi(6) by simp
    then have "pWalFd v = take n (logFile ?big szPg ?n ?salt F @ [])"
      unfolding assms(8) w'(3) [symmetric] by (simp add: min_def)
    with take_logFile [OF wi(2) w'(4) _ n, of ?big ?n "[]"] False obtain j part where
      j: "pWalFd v = logFile ?big szPg ?n ?salt (take j F) @ part"
      "length part < szPg + WAL_FRAME_HDRSIZE" "n = walFrameOffset (j + 1) szPg + length part" "j \<le> length F" by (metis nat_le_linear)
    have "list_all (frame_ok szPg) (take j F)" using w'(4) by (meson in_set_takeD list_all_iff)
    moreover have "take j F \<noteq> [] \<or> part \<noteq> []" using j(3,4) False by (auto simp: walFrameOffset_def)
    ultimately obtain v' where v': "walIndexRecover be' v = Some (0, v')"
      "\<And>p. walPage v' szPg p = Some (latest (drop (minFrame (ix v) - 1) (committed (take j F))) p)"
      using recover_pages [OF j(1) dead_short [OF wi(2) j(2)] _ wi(1,2), of be'] assms(6) unfolding opened_def by blast
    have "?lv * (szPg + WAL_FRAME_HDRSIZE) < (j + 1) * (szPg + WAL_FRAME_HDRSIZE)"
      using assms(9) j(2,3) by (auto simp: walFrameOffset_def WAL_FRAME_HDRSIZE_def)
    then have "?lv \<le> j" by (simp only: mult_less_cancel2) simp
    from partial_commit [OF assms(1) ps assms(4) w'(2) this] v'(1) show ?thesis
      unfolding old new by (intro exI [of _ v']) (auto simp: v'(2) assms(7))
  qed
qed

lemma crash_during_commit_witness:
  "\<exists>w' v'. sqlite3WalFrames False 4096 (replicate 8 1) 512 [(1, onePage)] 1 True True log_init = Some (0, w')
    \<and> walIndexRecover True (log_init\<lparr>pWalFd := take 20 (pWalFd w')\<rparr>) = Some (0, v')
    \<and> (walPage v' 512 1 = Some None \<or> walPage v' 512 1 = walPage w' 512 1)"
proof -
  obtain w' where w': "sqlite3WalFrames False 4096 (replicate 8 1) 512 [(1, onePage)] 1 True True log_init = Some (0, w')"
    using first_commit by blast
  have c: "length (replicate 8 (1 :: u8)) = 8" "(1 :: u32) \<noteq> 0" by simp_all
  have n: "(20 :: nat) \<le> walFrameOffset (mxFrame (whdr w') + 1) 512" by (simp add: walFrameOffset_def WAL_HDRSIZE_def)
  let ?v = "log_init\<lparr>pWalFd := take 20 (pWalFd w')\<rparr>"
  from crash_during_commit [OF log_init_winv onePage_ok [of 1] c w' opened_log_init _ _ _ n, of "pWalFd w'" True]
    crash_during_commit [OF log_init_winv onePage_ok [of 1] c w' opened_log_init _ _ _ n, of "take 20 (pWalFd w')" True] w'
    walPage_empty [of "reader (live (ix log_init)) log_init" 512 1]
  have "\<exists>v'. walIndexRecover True ?v = Some (0, v') \<and> (walPage v' 512 1 = Some None \<or> walPage v' 512 1 = walPage w' 512 1)"
    by (auto simp: log_init_simps reader_def)
  with w' show ?thesis by blast
qed

section \<open>Frames\<close>

text \<open>C8. The decoder accepts a frame for a page and commit size if and only if these bytes are what the encoder writes for them at this
  place of the log: with the salt of the header and the checksum that continues that of the frame before. The processors that write and read
  may have different byte orders.
\<close>

theorem walDecodeFrame_encoded:
  assumes "length buf = szPage w + WAL_FRAME_HDRSIZE" "cksum_len (szPage w)" "length (aSalt (whdr w)) = 8" "iReCksum w = 0"
  shows "(\<exists>w'. walDecodeFrame be w (drop WAL_FRAME_HDRSIZE buf) buf = Some (Some (p, n), w'))
    \<longleftrightarrow> p \<noteq> 0 \<and> (\<exists>h w'. walEncodeFrame be' w p n (drop WAL_FRAME_HDRSIZE buf) = Some (h, w') \<and> buf = h @ drop WAL_FRAME_HDRSIZE buf)"
    (is "?d \<longleftrightarrow> _ \<and> ?e")
proof -
  define d where "d = drop WAL_FRAME_HDRSIZE buf"
  let ?h = "frameHdr (bigEndCksum (whdr w)) (aSalt (whdr w)) (aFrameCksum (whdr w))"
  have d: "length d = szPage w" using assms(1) by (simp add: d_def)
  have e: "?e \<longleftrightarrow> buf = ?h (p, n, d) @ d" using walEncodeFrame_ok [OF assms(4) d assms(2), of be' p n] by (simp add: d_def [symmetric])
  show ?thesis
  proof
    assume ?d
    then have "p = the (get4 buf 0)" "n = the (get4 buf 4)" "p \<noteq> 0"
      "buf = frameBytes (bigEndCksum (whdr w)) (aSalt (whdr w)) (aFrameCksum (whdr w)) (the (get4 buf 0), the (get4 buf 4), d)"
      unfolding walDecodeFrame_ok [OF assms(1-3), of be] d_def by (auto split: if_splits)
    then show "p \<noteq> 0 \<and> ?e" unfolding e by (simp add: frameBytes_def)
  next
    assume a: "p \<noteq> 0 \<and> ?e"
    then have "frame_ok (szPage w) (p, n, d)" "buf = frameBytes (bigEndCksum (whdr w)) (aSalt (whdr w)) (aFrameCksum (whdr w)) (p, n, d)"
      using d unfolding e by (simp_all add: frame_ok_def frameBytes_def)
    from frame_decode [OF this(1) assms(2,3), of be] this(2) show ?d by auto
  qed
qed

lemma walDecodeFrame_encoded_witness:
  "\<exists>h w1 w2. walEncodeFrame True (log_init\<lparr>szPage := 512\<rparr>) 5 9 onePage = Some (h, w1)
    \<and> walDecodeFrame False (log_init\<lparr>szPage := 512\<rparr>) onePage (h @ onePage) = Some (Some (5, 9), w2)"
proof -
  let ?w = "log_init\<lparr>szPage := 512\<rparr>"
  have c: "cksum_len (szPage ?w)" "length (aSalt (whdr ?w)) = 8" "iReCksum ?w = 0" "length onePage = szPage ?w"
    by (simp_all add: cksum_len_def log_init_def whdr_def onePage_def)
  from walEncodeFrame_ok [OF c(3,4,1), of True 5 9] obtain h w1
    where h: "walEncodeFrame True ?w 5 9 onePage = Some (h, w1)" "length h = WAL_FRAME_HDRSIZE" using length_frameHdr [OF c(2)] by blast
  then have "length (h @ onePage) = szPage ?w + WAL_FRAME_HDRSIZE" "drop WAL_FRAME_HDRSIZE (h @ onePage) = onePage" using c(4) by simp_all
  with walDecodeFrame_encoded [OF this(1) c(1-3), of False 5 9 True] h(1) show ?thesis by auto
qed

end
