(* ===== verification/WalSavepoint.thy ===== *)
theory WalSavepoint
  imports WalGuarantees
begin

text \<open>
  A rollback to a savepoint in the middle of a transaction that overwrites frames of its own. \<open>sqlite3WalSavepointUndo\<close> goes back to an earlier
  frame but leaves \<open>iReCksum\<close> alone, so that the frames written next get no checksum.
\<close>

section \<open>Writing one page before the commit\<close>

lemma OsWrite_iReCksum: "sqlite3OsWrite bs off w = (rc, w') \<Longrightarrow> iReCksum w' = iReCksum w"
  by (auto simp: sqlite3OsWrite_def Let_def split: list.splits prod.splits if_splits)

lemma OsSync_iReCksum: "sqlite3OsSync w = (rc, w') \<Longrightarrow> iReCksum w' = iReCksum w"
  by (auto simp: sqlite3OsSync_def split: list.splits prod.splits)

lemma walWriteToLog_iReCksum: "walWriteToLog sp bs off w = (rc, w') \<Longrightarrow> iReCksum w' = iReCksum w"
  by (auto simp: walWriteToLog_def Let_def split: if_splits prod.splits dest!: OsWrite_iReCksum OsSync_iReCksum)

lemma walWriteOneFrame_iReCksum:
  assumes "walWriteOneFrame be sp pg n off w = Some (rc, w')"
  shows "iReCksum w' = iReCksum w"
proof -
  from assms obtain aFrame w1 where e: "walEncodeFrame be w (fst pg) n (snd pg) = Some (aFrame, w1)"
    by (auto simp: walWriteOneFrame_def split: bind_splits)
  then have "iReCksum w1 = iReCksum w" by (auto simp: walEncodeFrame_def Let_def split: if_splits bind_splits)
  with assms e show ?thesis
    by (auto simp: walWriteOneFrame_def split: prod.splits if_splits dest!: walWriteToLog_iReCksum)
qed

lemma writePages_one:
  assumes "writePages be 0 False iFirst [(p, d)] [] iFrame iOff w = Some (0, app, a, b, w')" "sqlite3WalFindFrame (ix w) p = Some (0, i, x)"
  shows "iReCksum w' = (if iFirst \<noteq> 0 \<and> i \<noteq> 0 \<and> i \<ge> iFirst \<and> (iReCksum w = 0 \<or> i < iReCksum w) then i else iReCksum w)"
  using assms by (auto simp: Let_def split: bind_splits prod.splits if_splits dest!: walWriteOneFrame_iReCksum OsWrite_iReCksum)

lemma spill_page:
  assumes "winv szPg w fs" "p \<noteq> 0" "length d = szPg" "length rnd = 8"
  defines "i \<equiv> lastFrame (map fst fs) p (minFrame (ix w)) (length fs)"
  defines "over \<equiv> firstFrame w \<noteq> 0 \<and> i \<noteq> 0 \<and> i \<ge> firstFrame w"
  shows "\<exists>w'. sqlite3WalFrames be ss rnd szPg [(p, d)] 0 False sync w = Some (0, w')
    \<and> winv szPg w' (if over then setData (i - 1) d fs else fs @ [(p, 0, d)])
    \<and> nCkpt (ix w') = nCkpt (ix w) \<and> mxWalSize w' = mxWalSize w \<and> live (ix w') = live (ix w) \<and> minFrame (ix w') = minFrame (ix w)
    \<and> iReCksum w' = (if over \<and> (iReCksum w = 0 \<or> i < iReCksum w) then i else iReCksum w)"
proof -
  note wi = winvD [OF assms(1)]
  have pages: "pages_ok szPg [(p, d)]" "False \<longleftrightarrow> (0 :: u32) \<noteq> 0" using assms(2,3) by (simp_all add: pages_ok_def)
  obtain w' where w': "sqlite3WalFrames be ss rnd szPg [(p, d)] 0 False sync w = Some (0, w')" "winv szPg w' (framesAfter w fs 0 False [(p, d)] 0)"
    "live (ix w') = live (ix w)" "minFrame (ix w') = minFrame (ix w)"
    using sqlite3WalFrames_ok [OF assms(1) pages(1) assms(4) pages(2), of be ss sync] by auto
  have F: "framesAfter w fs 0 False [(p, d)] 0 = (if over then setData (i - 1) d fs else fs @ [(p, 0, d)])"
    by (simp add: framesAfter_def over_def i_def Let_def)
  have "\<exists>w1. (if mxFrame (whdr w) = 0 then walWriteHeader be szPg rnd w else Some (0, w)) = Some (0, w1) \<and> finv szPg w1 fs
    \<and> ix w1 = (ix w)\<lparr>hdr := whdr w1\<rparr> \<and> mxFrame (whdr w1) = length fs \<and> mxWalSize w1 = mxWalSize w \<and> iReCksum w1 = iReCksum w"
  proof (cases "fs = []")
    case True
    then have "iReCksum w = 0" using assms(1) by (simp add: winv_def)
    with True wi walWriteHeader_ok [of szPg rnd w be] assms(4) show ?thesis by auto
  next
    case False
    with wi show ?thesis by (intro exI [of _ w]) (simp add: whdr_def)
  qed
  then obtain w1 where w1: "(if mxFrame (whdr w) = 0 then walWriteHeader be szPg rnd w else Some (0, w)) = Some (0, w1)" "finv szPg w1 fs"
    "ix w1 = (ix w)\<lparr>hdr := whdr w1\<rparr>" "mxFrame (whdr w1) = length fs" "mxWalSize w1 = mxWalSize w" "iReCksum w1 = iReCksum w" by blast
  have e1: "idx_ok (ix w1) (map fst fs)" "mxFrame (whdr w1) = length (map fst fs)" "readLock (ix w1) \<noteq> 0" "False \<notin> set (mapOk (ix w1))"
    "minFrame (ix w1) = minFrame (ix w)" "nCkpt (ix w1) = nCkpt (ix w)"
    unfolding w1(3) using w1(4) wi(5,8,9) by simp_all
  have i: "i = lastFrame (map fst fs) p (minFrame (ix w1)) (mxFrame (hdr (ix w1)))" using e1(2,5) by (simp add: i_def whdr_def)
  have "mxFrame (hdr (ix w1)) \<le> length (map fst fs)" using e1(2) by (simp add: whdr_def)
  from FindFrame_ok [OF e1(1) this, of p] e1(3,4) obtain x where x: "sqlite3WalFindFrame (ix w1) p = Some (0, i, x)" unfolding i by auto
  have "length (map fst fs) \<le> length fs" "list_all (\<lambda>p. fst p \<noteq> 0 \<and> length (snd p) = szPg) [(p, d)]" using assms(2,3) by simp_all
  from writePages_ok [OF w1(2) e1(1,2) this(1) e1(3,4) this(2), of be 0 False "firstFrame w" "[]"]
  obtain a b w2 new A where w2: "writePages be 0 False (firstFrame w) [(p, d)] [] (length fs) (walFrameOffset (length fs + 1) szPg) w1 = Some (0, rev new, a, b, w2)"
    "keeps w1 w2" "finv szPg w2 A" "map fst A = map fst fs @ map fst new" by (elim exE conjE) (simp only: append_Nil2)
  have "0 \<notin> set (map fst A)" using finvD(1) [OF w2(3)] by (auto simp: list_all_iff frame_ok_def)
  then have new: "0 \<notin> set (map fst new)" unfolding w2(4) by simp
  have r2: "iReCksum w2 = (if over \<and> (iReCksum w = 0 \<or> i < iReCksum w) then i else iReCksum w)"
    unfolding writePages_one [OF w2(1) x] w1(6) over_def by simp
  note k2 = keepsD [OF w2(2)]
  have "mxFrame (whdr w2) = length (map fst fs)" "idx_ok (ix w2) (map fst fs)" "False \<notin> set (mapOk (ix w2))" using k2 e1 by simp_all
  then obtain i2 where i2: "appendFrames (ix w2) (mxFrame (whdr w2)) (map fst new) = Some (0, length fs + length new, i2)" "same_state (ix w2) i2"
    using appendFrames_good [of "ix w2" "map fst fs" "length fs" "map fst new"] new by auto
  have "iReCksum w' = iReCksum w2 \<and> nCkpt (ix w') = nCkpt (ix w2) \<and> mxWalSize w' = mxWalSize w2"
  proof -
    have "sqlite3WalFrames be ss rnd szPg [(p, d)] 0 False sync w = walFinishFrames be ss szPg 0 False sync (rev new) a b w2"
      unfolding sqlite3WalFrames_def Let_def firstFrame_def [symmetric] w1(1) using w2(1) wi(6) by (simp del: writePages.simps)
    moreover have "(case rev new of [] \<Rightarrow> [] | pLast # x \<Rightarrow> replicate 0 (fst pLast)) = []" by (simp split: list.split)
    ultimately have "w' = set_whdr ((whdr w2)\<lparr>szPageHdr := pageSize16 szPg, mxFrame := length fs + length new\<rparr>) (w2\<lparr>ix := i2\<rparr>)"
      using w'(1) i2 by (simp add: walFinishFrames_def i2(1) Let_def same_state_def whdr_def)
    then show ?thesis using i2(2) by (simp add: same_state_def set_whdr_def)
  qed
  then show ?thesis using w' r2 k2(8) e1(6) w1(5) w2(2) unfolding F by (auto simp: keeps_def)
qed

section \<open>A commit with an old \<open>iReCksum\<close>\<close>

lemma stale_commit:
  assumes "page_size szPg" "mxFrame (whdr w) = 0" "iReCksum w = 2" "osRc w = []" "length (aSalt (whdr w)) = 8" "length rnd = 8"
    "idx_ok (ix w) []" "False \<notin> set (mapOk (ix w))" "mxWalSize w < 0" "p \<noteq> 0" "length d = szPg"
  defines "salt \<equiv> if nCkpt (ix w) = 0 then rnd else aSalt (whdr w)"
  shows "\<exists>w' tail. sqlite3WalFrames be ss rnd szPg [(p, d)] nT True False w = Some (0, w')
    \<and> pWalFd w' = logHeader be szPg (nCkpt (ix w)) salt @ slotBytes (replicate 16 0) (p, nT, d) @ tail
    \<and> live (ix w') = whdr w' \<and> mxFrame (whdr w') = 1 \<and> nPage (whdr w') = nT"
proof -
  define w1 where "w1 = afterHeader be szPg salt w"
  have h: "walWriteHeader be szPg rnd w = Some (0, w1)" unfolding w1_def salt_def by (rule walWriteHeader_eq [OF assms(6,5,4)])
  have salt: "length salt = 8" using assms(5,6) by (simp add: salt_def)
  define H where "H = logHeader be szPg (nCkpt (ix w)) salt"
  have H: "length H = WAL_HDRSIZE" unfolding H_def by (rule length_logHeader [OF salt])
  have w1: "osRc w1 = []" "pWalFd w1 = H @ drop WAL_HDRSIZE (pWalFd w)" "length d = szPage w1" "cksum_len (szPage w1)" "length (aSalt (whdr w1)) = 8"
    "iReCksum w1 = 2" "ix w1 = (ix w)\<lparr>hdr := whdr w1\<rparr>" "mxWalSize w1 < 0" "mxFrame (whdr w1) = 0"
    using assms(1-4,9,11) salt page_size_cases(5) [OF assms(1)] by (simp_all add: w1_def afterHeader_def H_def set_whdr_def whdr_def)
  define f where "f = (p, nT, d)"
  define T where "T = drop (length (slotBytes (replicate 16 0) f)) (drop WAL_HDRSIZE (pWalFd w))"
  define w2 where "w2 = w1\<lparr>pWalFd := H @ slotBytes (replicate 16 0) f @ T\<rparr>"
  have off: "walFrameOffset (0 + 1) szPg = length H" by (simp add: walFrameOffset_def H)
  from walWriteOneFrame_slot [OF w1(1-5), of "(p, d)" be 0 nT, unfolded fst_conv snd_conv, folded f_def, OF refl] w1(6)
  have one: "walWriteOneFrame be 0 (p, d) nT (length H) w1 = Some (0, w2)" by (auto simp: w2_def T_def)
  have wp: "writePages be nT True iFirst [(p, d)] [] 0 (walFrameOffset (0 + 1) szPg) w1 = Some (0, [(p, d)], 1, walFrameOffset (0 + 1) szPg + (szPage w2 + WAL_FRAME_HDRSIZE), w2)" for iFirst
    unfolding off using one by simp
  obtain c1 c2 where ck: "get4 (replicate 8 0) 0 = Some c1" "get4 (replicate 8 0) 4 = Some c2"
    using get4_total [of 0 "replicate 8 0"] get4_total [of 4 "replicate 8 0"] by auto
  define w3 where "w3 = (set_whdr ((whdr w2)\<lparr>aFrameCksum := (c1, c2)\<rparr>) w2)\<lparr>iReCksum := 0\<rparr>"
  have "sqlite3OsRead 8 (walFrameOffset (iReCksum w2 - 1) (szPage w2) + 16) w2 = (0, replicate 8 0, w2)"
    by (rule OsRead_at [of w2 "H @ sqlite3Put4byte p @ sqlite3Put4byte nT @ replicate 8 0" _ "d @ T"])
      (use w1(1,6) H in \<open>simp_all add: w2_def slotBytes_def f_def walFrameOffset_def replicate_add [of 8 8, simplified]\<close>)
  then have rw: "walRewriteChecksums be 1 w2 = Some (0, w3)"
    using w1(1,6) ck unfolding walRewriteChecksums_def by (simp add: w2_def w3_def Let_def)
  have "idx_ok (ix w1) []" "False \<notin> set (mapOk (ix w1))" unfolding w1(7) using assms(7,8) by simp_all
  then have i3: "idx_ok (ix w3) []" "False \<notin> set (mapOk (ix w3))" by (simp_all add: w3_def w2_def set_whdr_def)
  obtain i where i: "appendFrames (ix w3) 0 [p] = Some (0, 1, i)" "same_state (ix w3) i"
    using appendFrames_good [OF i3(1), of 0 "[p]"] i3(2) assms(10) by auto
  have m3: "mxFrame (whdr w3) = 0" "\<not> mxWalSize w3 \<ge> 0" "iReCksum w2 = 2" using w1(6,8,9) by (simp_all add: w3_def w2_def whdr_def set_whdr_def)
  define w4 where "w4 = w3\<lparr>ix := i\<rparr>"
  define w' where "w' = walIndexWriteHdr (set_whdr ((whdr w4)\<lparr>szPageHdr := pageSize16 szPg, mxFrame := 1, iChange := iChange (whdr w4) + 1, nPage := nT\<rparr>) w4)"
  have "walFinishFrames be ss szPg nT True False [(p, d)] 1 x w2 = Some (0, w')" for x
    using rw m3 i(1) by (simp add: walFinishFrames_def Let_def w'_def w4_def)
  then have "sqlite3WalFrames be ss rnd szPg [(p, d)] nT True False w = Some (0, w')"
    unfolding sqlite3WalFrames_def Let_def using h wp assms(2) by (simp del: writePages.simps)
  moreover have "pWalFd w' = H @ slotBytes (replicate 16 0) f @ T"
    by (simp add: w'_def w4_def w3_def w2_def walIndexWriteHdr_def Let_def)
  moreover have "live (ix w') = whdr w'" "mxFrame (whdr w') = 1" "nPage (whdr w') = nT"
    by (simp_all add: w'_def walIndexWriteHdr_def Let_def whdr_def set_whdr_def)
  ultimately show ?thesis unfolding H_def f_def by blast
qed

lemma dead_slot:
  assumes "length salt = 8" "salt \<noteq> replicate 8 0"
  shows "dead big salt ck szPg (slotBytes (replicate 16 0) f @ tail)"
  unfolding dead_def
proof (intro allI impI notI)
  fix g
  assume "\<exists>rest. slotBytes (replicate 16 0) f @ tail = frameBytes big salt ck g @ rest"
  then obtain rest where "slotBytes (replicate 16 0) f @ tail = frameBytes big salt ck g @ rest" by blast
  from arg_cong [OF this, of "\<lambda>x. take 8 (drop 8 x)"] have "replicate 8 0 = salt"
    using assms(1) by (simp add: slotBytes_def frameBytes_def frameHdr_def)
  with assms(2) show False by simp
qed

text \<open>The connection after the rollback to the savepoint: nothing is written, but \<open>iReCksum\<close> is set.\<close>

definition stale :: "wallog \<Rightarrow> bool" where
  "stale w \<longleftrightarrow> mxFrame (whdr w) = 0 \<and> iReCksum w = 2 \<and> osRc w = [] \<and> length (aSalt (whdr w)) = 8 \<and> idx_ok (ix w) [] \<and> False \<notin> set (mapOk (ix w))
     \<and> mxWalSize w < 0 \<and> nCkpt (ix w) = 0"

lemma overwritten_then_rolled_back:
  assumes "p \<noteq> 0" "q \<noteq> 0" "p \<noteq> q" "length a = 512" "length b = 512" "length b' = 512" "length rnd = 8"
  shows "\<exists>w1 w2 w3 i. sqlite3WalFrames be ss rnd 512 [(p, a)] 0 False False log_init = Some (0, w1)
    \<and> sqlite3WalFrames be ss rnd 512 [(q, b)] 0 False False w1 = Some (0, w2) \<and> sqlite3WalFrames be ss rnd 512 [(q, b')] 0 False False w2 = Some (0, w3)
    \<and> sqlite3WalSavepointUndo (ix w3) (sqlite3WalSavepoint (ix log_init)) = Some (sqlite3WalSavepoint (ix log_init), i) \<and> stale (w3\<lparr>ix := i\<rparr>)"
proof -
  have init: "firstFrame log_init = 0" "nCkpt (ix log_init) = 0" "mxWalSize log_init < 0" "iReCksum log_init = 0"
    using log_init_simps by (simp_all add: firstFrame_def log_init_def)
  obtain w1 where w1: "sqlite3WalFrames be ss rnd 512 [(p, a)] 0 False False log_init = Some (0, w1)" "winv 512 w1 [(p, 0, a)]"
    "nCkpt (ix w1) = 0" "mxWalSize w1 < 0" "mxFrame (live (ix w1)) = 0" "minFrame (ix w1) = 1" "iReCksum w1 = 0"
    using spill_page [OF log_init_winv assms(1,4,7), of be ss False] init log_init_simps by auto
  have m1: "mxFrame (whdr w1) = 1" using winvD(6) [OF w1(2)] by simp
  have first1: "firstFrame w1 = 1" using m1 w1(5) by (auto simp: firstFrame_def)
  obtain w2 where w2: "sqlite3WalFrames be ss rnd 512 [(q, b)] 0 False False w1 = Some (0, w2)" "winv 512 w2 [(p, 0, a), (q, 0, b)]"
    "nCkpt (ix w2) = 0" "mxWalSize w2 < 0" "mxFrame (live (ix w2)) = 0" "minFrame (ix w2) = 1" "iReCksum w2 = 0"
    using spill_page [OF w1(2) assms(2,5,7), of be ss False] assms(3) w1 by auto
  have m2: "mxFrame (whdr w2) = 2" using winvD(6) [OF w2(2)] by simp
  have first2: "firstFrame w2 = 1" using m2 w2(5) by (auto simp: firstFrame_def)
  have "lastFrame (map fst [(p, 0 :: u32, a), (q, 0, b)]) q (minFrame (ix w2)) (length [(p, 0 :: u32, a), (q, 0, b)]) = 2"
    by (simp add: w2(6) numeral_2_eq_2)
  from spill_page [OF w2(2) assms(2,6,7), of be ss False, unfolded this first2]
  obtain w3 where w3: "sqlite3WalFrames be ss rnd 512 [(q, b')] 0 False False w2 = Some (0, w3)" "winv 512 w3 (setData 1 b' [(p, 0, a), (q, 0, b)])"
    "nCkpt (ix w3) = 0" "mxWalSize w3 < 0" "iReCksum w3 = 2"
    using w2 by auto
  note wi = winvD [OF w3(2)]
  define h where "h = (hdr (ix w3))\<lparr>mxFrame := 0, aFrameCksum := aFrameCksum (hdr (ix log_init))\<rparr>"
  have i: "sqlite3WalSavepointUndo (ix w3) (sqlite3WalSavepoint (ix log_init)) = Some (sqlite3WalSavepoint (ix log_init), (ix w3)\<lparr>hdr := h\<rparr>)"
    using wi(6) w3(3) init(2) log_init_simps(3)
    by (simp add: sqlite3WalSavepointUndo_def sqlite3WalSavepoint_def walCleanupHash_def h_def whdr_def Let_def)
  have "idx_ok ((ix w3)\<lparr>hdr := h\<rparr>) (map fst (setData 1 b' [(p, 0, a), (q, 0, b)]))" "False \<notin> set (mapOk ((ix w3)\<lparr>hdr := h\<rparr>))"
    using wi(5,9) by simp_all
  from walCleanupHash_good [OF this(1) _ this(2)] have idx: "idx_ok ((ix w3)\<lparr>hdr := h\<rparr>) []" by (simp add: h_def walCleanupHash_def)
  have "stale (w3\<lparr>ix := (ix w3)\<lparr>hdr := h\<rparr>\<rparr>)" unfolding stale_def using w3 wi(2,3,9) idx by (simp add: h_def whdr_def)
  with w1(1) w2(1) w3(1) i show ?thesis by blast
qed

text \<open>C9. A transaction writes a page twice, so that \<open>iReCksum\<close> is set, is rolled back to a savepoint before both writes, writes another page
  and commits. The commit returns \<open>SQLITE_OK\<close> and publishes the frame. But \<open>sqlite3WalSavepointUndo\<close> has kept \<open>iReCksum\<close>, the frame has
  neither salt nor checksum, \<open>walRewriteChecksums\<close> starts behind it, and recovery after a crash does not find the transaction.
\<close>

theorem savepoint_rollback_loses_commit:
  assumes "p \<noteq> 0" "q \<noteq> 0" "p \<noteq> q" "r \<noteq> 0" "nT \<noteq> 0" "length a = 512" "length b = 512" "length b' = 512" "length d = 512"
    "length rnd = 8" "rnd \<noteq> replicate 8 0"
  shows "\<exists>w1 w2 w3 sp i w4. sqlite3WalFrames be ss rnd 512 [(p, a)] 0 False False log_init = Some (0, w1)
    \<and> sqlite3WalFrames be ss rnd 512 [(q, b)] 0 False False w1 = Some (0, w2) \<and> sqlite3WalFrames be ss rnd 512 [(q, b')] 0 False False w2 = Some (0, w3)
    \<and> sqlite3WalSavepointUndo (ix w3) (sqlite3WalSavepoint (ix log_init)) = Some (sp, i)
    \<and> sqlite3WalFrames be ss rnd 512 [(r, d)] nT True False (w3\<lparr>ix := i\<rparr>) = Some (0, w4) \<and> mxFrame (live (ix w4)) = 1
    \<and> (\<forall>v. opened v \<and> pWalFd v = pWalFd w4 \<longrightarrow> (\<exists>v'. walIndexRecover be' v = Some (0, v') \<and> mxFrame (whdr v') = 0))"
proof -
  obtain w1 w2 w3 i where w: "sqlite3WalFrames be ss rnd 512 [(p, a)] 0 False False log_init = Some (0, w1)"
    "sqlite3WalFrames be ss rnd 512 [(q, b)] 0 False False w1 = Some (0, w2)" "sqlite3WalFrames be ss rnd 512 [(q, b')] 0 False False w2 = Some (0, w3)"
    "sqlite3WalSavepointUndo (ix w3) (sqlite3WalSavepoint (ix log_init)) = Some (sqlite3WalSavepoint (ix log_init), i)" "stale (w3\<lparr>ix := i\<rparr>)"
    using overwritten_then_rolled_back [OF assms(1-3,6-8,10), of be ss] by blast
  have ps: "page_size 512" by (simp add: page_size_def)
  note st = w(5) [unfolded stale_def]
  obtain w4 tail where w4: "sqlite3WalFrames be ss rnd 512 [(r, d)] nT True False (w3\<lparr>ix := i\<rparr>) = Some (0, w4)"
    "pWalFd w4 = logHeader be 512 0 rnd @ slotBytes (replicate 16 0) (r, nT, d) @ tail" "live (ix w4) = whdr w4" "mxFrame (whdr w4) = 1"
    using stale_commit [of 512 "w3\<lparr>ix := i\<rparr>" rnd r d be ss nT] ps st assms(4,9,10) by auto
  have "\<exists>v'. walIndexRecover be' v = Some (0, v') \<and> mxFrame (whdr v') = 0" if "opened v" "pWalFd v = pWalFd w4" for v
  proof -
    have "pWalFd v = logFile be 512 0 rnd [] @ slotBytes (replicate 16 0) (r, nT, d) @ tail" using that(2) w4(2) by (simp add: logFile_def)
    from recover_pages [OF this dead_slot [OF assms(10,11)] _ ps assms(10), of be'] that(1)
    obtain v' where "walIndexRecover be' v = Some (0, v')" "whdr v' = recHdr be 512 0 rnd []"
      by (auto simp: opened_def slotBytes_def)
    then show ?thesis by (intro exI [of _ v']) (simp add: recHdr_def commitHdr_def zeroHdr_def)
  qed
  with w(1-4) w4(1,3,4) show ?thesis
    by (intro exI [of _ w1] exI [of _ w2] exI [of _ w3] exI [of _ "sqlite3WalSavepoint (ix log_init)"] exI [of _ i] exI [of _ w4]) simp
qed

lemma savepoint_rollback_loses_commit_witness:
  "\<exists>w4 w. sqlite3WalFrames False 512 [1, 2, 3, 4, 5, 6, 7, 8] 512 [(4, onePage)] 4 True False w = Some (0, w4) \<and> mxFrame (live (ix w4)) = 1
    \<and> (\<exists>v'. walIndexRecover False (log_init\<lparr>pWalFd := pWalFd w4\<rparr>) = Some (0, v') \<and> mxFrame (whdr v') = 0)"
proof -
  have l: "length onePage = 512" by (simp add: onePage_def)
  have c: "(2 :: u32) \<noteq> 0" "(3 :: u32) \<noteq> 0" "(2 :: u32) \<noteq> 3" "(4 :: u32) \<noteq> 0" "(4 :: u32) \<noteq> 0"
    "length [1, 2, 3, 4, 5, 6, 7, 8 :: u8] = 8" by simp_all
  have n: "[1, 2, 3, 4, 5, 6, 7, 8 :: u8] \<noteq> replicate 8 0" by (auto dest!: arg_cong [where f = hd])
  from savepoint_rollback_loses_commit [OF c(1-5) l l l l c(6) n, of False 512 False] opened_log_init show ?thesis by fastforce
qed

end
