(* ===== verification/WalStore.thy ===== *)
theory WalStore
  imports WalSavepoint
begin

text \<open>
  The write-ahead log as a transactional store: every run of spills, commits, rollbacks, crashes with recovery, and reads by the
  writer or by a reader with a snapshot returns what a pair of maps does, the committed one and the one of the writer.
\<close>

section \<open>The operations\<close>








section \<open>The invariant with the header of the last commit\<close>






section \<open>Every operation follows the specification\<close>








section \<open>Whole runs\<close>






end
