(* ===== verification/RecordFormat.thy ===== *)
theory RecordFormat
  imports Varint
begin

text \<open>
  The record format. A value in a register (\<open>Mem\<close>, here \<open>mem\<close>) has a serial type; the opcode \<open>MakeRecord\<close> writes a header of serial types
  and the bytes of the values, and \<open>sqlite3VdbeRecordUnpack\<close> reads them back (vdbeaux.c, vdbe.c, vdbemem.c).
  The lemmas show that the opcode stays inside its buffer and fails only without memory or above the length limit, and that
  unpacking gives the values back. Doubles have the byte order of integers (\<open>swapMixedEndianFloat\<close> does nothing).
\<close>

section \<open>Values in registers\<close>

definition MEM_Null :: u16 where "MEM_Null = 0x0001"
definition MEM_Str :: u16 where "MEM_Str = 0x0002"
definition MEM_Int :: u16 where "MEM_Int = 0x0004"
definition MEM_Real :: u16 where "MEM_Real = 0x0008"
definition MEM_Blob :: u16 where "MEM_Blob = 0x0010"
definition MEM_Term :: u16 where "MEM_Term = 0x0200"
definition MEM_Ephem :: u16 where "MEM_Ephem = 0x1000"
definition MEM_Zero :: u16 where "MEM_Zero = 0x4000"

text \<open>\<open>u_ir\<close> are the 64 bits of the members \<open>i\<close> and \<open>r\<close> of the union; \<open>z\<close> are the \<open>n\<close> bytes at the pointer.\<close>

record mem =
  mflags :: u16
  u_ir :: u64
  nZero :: nat
  z :: "u8 list"

definition has :: "mem \<Rightarrow> u16 \<Rightarrow> bool" where
  "has m f \<longleftrightarrow> mflags m AND f \<noteq> 0"

definition MAX_6BYTE :: u64 where "MAX_6BYTE = push_bit 32 0x00008000 - 1"

section \<open>Serial types\<close>

text \<open>The results are the serial type and the length of the value in bytes.\<close>

definition sqlite3VdbeSerialType :: "mem \<Rightarrow> nat \<Rightarrow> u32 \<times> u32" where
  "sqlite3VdbeSerialType m file_format =
     (if has m MEM_Null then (0, 0)
      else if has m MEM_Int then
        (let i = u_ir m; u = (if i <s 0 then NOT i else i) in
         if u \<le> 127 then (if i AND 1 = i \<and> 4 \<le> file_format then (8 + ucast u, 0) else (1, 1))
         else if u \<le> 32767 then (2, 2)
         else if u \<le> 8388607 then (3, 3)
         else if u \<le> 2147483647 then (4, 4)
         else if u \<le> MAX_6BYTE then (5, 6)
         else (6, 8))
      else if has m MEM_Real then (7, 8)
      else (let n = of_nat (length (z m)) + (if has m MEM_Zero then of_nat (nZero m) else 0)
            in (n * 2 + 12 + (if has m MEM_Str then 1 else 0), n)))"

definition sqlite3SmallTypeSizes :: "nat list" where
  "sqlite3SmallTypeSizes = [
      0,  1,  2,  3,  4,  6,  8,  8,  0,  0,
      0,  0,  0,  0,  1,  1,  2,  2,  3,  3,
      4,  4,  5,  5,  6,  6,  7,  7,  8,  8,
      9,  9, 10, 10, 11, 11, 12, 12, 13, 13,
     14, 14, 15, 15, 16, 16, 17, 17, 18, 18,
     19, 19, 20, 20, 21, 21, 22, 22, 23, 23,
     24, 24, 25, 25, 26, 26, 27, 27, 28, 28,
     29, 29, 30, 30, 31, 31, 32, 32, 33, 33,
     34, 34, 35, 35, 36, 36, 37, 37, 38, 38,
     39, 39, 40, 40, 41, 41, 42, 42, 43, 43,
     44, 44, 45, 45, 46, 46, 47, 47, 48, 48,
     49, 49, 50, 50, 51, 51, 52, 52, 53, 53,
     54, 54, 55, 55, 56, 56, 57, 57]"

definition sqlite3VdbeSerialTypeLen :: "u32 \<Rightarrow> nat" where
  "sqlite3VdbeSerialTypeLen t = (if t \<ge> 128 then unat ((t - 12) div 2) else sqlite3SmallTypeSizes ! unat t)"

text \<open>\<open>do\{ buf[--i] = (u8)(v&0xFF); v >>= 8; \}while( i );\<close>\<close>

primrec putBytes :: "nat \<Rightarrow> u64 \<Rightarrow> u8 list \<Rightarrow> u8 list" where
  "putBytes 0 v acc = acc"
| "putBytes (Suc i) v acc = putBytes i (drop_bit 8 v) (ucast (v AND 0xFF) # acc)"

text \<open>The bytes that are written to the buffer.\<close>

definition sqlite3VdbeSerialPut :: "mem \<Rightarrow> u32 \<Rightarrow> u8 list" where
  "sqlite3VdbeSerialPut m t =
     (if t \<le> 7 \<and> 0 < t then putBytes (sqlite3SmallTypeSizes ! unat t) (u_ir m) []
      else if t \<ge> 12 then z m
      else [])"

definition rd :: "u8 list \<Rightarrow> nat \<Rightarrow> u8 option" where
  "rd buf k = (if k < length buf then Some (buf ! k) else None)"

text \<open>The macros compute with 32-bit integers.\<close>

definition TWO_BYTE_INT :: "u8 \<Rightarrow> u8 \<Rightarrow> u32" where
  "TWO_BYTE_INT a b = (256 * scast a) OR ucast b"

definition THREE_BYTE_INT :: "u8 \<Rightarrow> u8 \<Rightarrow> u8 \<Rightarrow> u32" where
  "THREE_BYTE_INT a b c = ((65536 * scast a) OR push_bit 8 (ucast b)) OR ucast c"

definition FOUR_BYTE_UINT :: "u8 \<Rightarrow> u8 \<Rightarrow> u8 \<Rightarrow> u8 \<Rightarrow> u32" where
  "FOUR_BYTE_UINT a b c d = ((push_bit 24 (ucast a) OR push_bit 16 (ucast b)) OR push_bit 8 (ucast c)) OR ucast d"

definition FOUR_BYTE_INT :: "u8 \<Rightarrow> u8 \<Rightarrow> u8 \<Rightarrow> u8 \<Rightarrow> u32" where
  "FOUR_BYTE_INT a b c d = ((16777216 * scast a OR push_bit 16 (ucast b)) OR push_bit 8 (ucast c)) OR ucast d"

text \<open>The test \<open>x!=x\<close> on the bits of a double: all bits of the exponent set, and one of the fraction.\<close>

definition sqlite3IsNaN :: "u64 \<Rightarrow> bool" where
  "sqlite3IsNaN x \<longleftrightarrow> drop_bit 52 x AND 0x7ff = 0x7ff \<and> take_bit 52 x \<noteq> 0"

definition serialGet :: "u8 list \<Rightarrow> u32 \<Rightarrow> mem \<Rightarrow> (nat \<times> mem) option" where
  "serialGet buf t m = do {
     a \<leftarrow> rd buf 0; b \<leftarrow> rd buf 1; c \<leftarrow> rd buf 2; d \<leftarrow> rd buf 3;
     e \<leftarrow> rd buf 4; f \<leftarrow> rd buf 5; g \<leftarrow> rd buf 6; h \<leftarrow> rd buf 7;
     let x = (ucast (FOUR_BYTE_UINT a b c d) :: u64);
     let y = FOUR_BYTE_UINT e f g h;
     let x = push_bit 32 x + ucast y;
     Some (8, m\<lparr>u_ir := x, mflags := (if t = 6 then MEM_Int else if sqlite3IsNaN x then MEM_Null else MEM_Real)\<rparr>)
   }"

text \<open>A string or blob is a pointer into the buffer. The result is \<^term>\<open>None\<close> if it would end behind the buffer.\<close>

definition sqlite3VdbeSerialGet :: "u8 list \<Rightarrow> u32 \<Rightarrow> mem \<Rightarrow> (nat \<times> mem) option" where
  "sqlite3VdbeSerialGet buf t m =
     (if t = 10 \<or> t = 11 \<or> t = 0 then Some (0, m\<lparr>mflags := MEM_Null\<rparr>)
      else if t = 1 then do {
        a \<leftarrow> rd buf 0;
        Some (1, m\<lparr>u_ir := scast a, mflags := MEM_Int\<rparr>)
      }
      else if t = 2 then do {
        a \<leftarrow> rd buf 0; b \<leftarrow> rd buf 1;
        Some (2, m\<lparr>u_ir := scast (TWO_BYTE_INT a b), mflags := MEM_Int\<rparr>)
      }
      else if t = 3 then do {
        a \<leftarrow> rd buf 0; b \<leftarrow> rd buf 1; c \<leftarrow> rd buf 2;
        Some (3, m\<lparr>u_ir := scast (THREE_BYTE_INT a b c), mflags := MEM_Int\<rparr>)
      }
      else if t = 4 then do {
        a \<leftarrow> rd buf 0; b \<leftarrow> rd buf 1; c \<leftarrow> rd buf 2; d \<leftarrow> rd buf 3;
        Some (4, m\<lparr>u_ir := scast (FOUR_BYTE_INT a b c d), mflags := MEM_Int\<rparr>)
      }
      else if t = 5 then do {
        a \<leftarrow> rd buf 0; b \<leftarrow> rd buf 1; c \<leftarrow> rd buf 2; d \<leftarrow> rd buf 3; e \<leftarrow> rd buf 4; f \<leftarrow> rd buf 5;
        Some (6, m\<lparr>u_ir := ucast (FOUR_BYTE_UINT c d e f) + push_bit 32 1 * scast (TWO_BYTE_INT a b), mflags := MEM_Int\<rparr>)
      }
      else if t = 6 \<or> t = 7 then serialGet buf t m
      else if t = 8 \<or> t = 9 then Some (0, m\<lparr>u_ir := ucast (t - 8), mflags := MEM_Int\<rparr>)
      else (let n = unat ((t - 12) div 2) in
        if length buf < n then None
        else Some (n, m\<lparr>z := take n buf, mflags := (if t AND 1 = 0 then MEM_Blob OR MEM_Ephem else MEM_Str OR MEM_Ephem)\<rparr>)))"

section \<open>Signed integers in bytes\<close>

definition fits :: "nat \<Rightarrow> u64 \<Rightarrow> bool" where
  "fits k v \<longleftrightarrow> drop_bit k (if v <s 0 then NOT v else v) = 0"

lemma msb_u64: "(v :: u64) <s 0 \<longleftrightarrow> bit v 63"
  using bit_last_iff [of v] by (simp add: word_sless_alt)

lemma fits_bits:
  assumes "fits k v" "k \<le> j" "j < 64"
  shows "bit v j = bit v 63"
proof -
  define u where "u = (if bit v 63 then NOT v else v)"
  have "drop_bit k u = 0" using assms(1) by (simp add: fits_def u_def msb_u64)
  then have "\<not> bit (drop_bit k u) (j - k)" by simp
  then have "\<not> bit u j" using assms(2) by (simp add: bit_drop_bit_eq)
  then show ?thesis using assms(3) by (auto simp: u_def bit_not_iff split: if_splits)
qed

lemma fits_signed:
  assumes "fits k v" "k < 64"
  shows "signed_take_bit k v = v"
proof (rule bit_word_eqI)
  fix n :: nat
  assume n: "n < LENGTH(64)"
  then have "bit v (min k n) = bit v n"
    using fits_bits [OF assms(1) le_refl assms(2)] fits_bits [OF assms(1), of n] by (cases "k \<le> n") (simp_all add: min_def)
  then show "bit (signed_take_bit k v) n = bit v n" using n by (simp add: bit_signed_take_bit_iff)
qed

lemma times_push: "(256 :: u32) * x = push_bit 8 x" "(65536 :: u32) * x = push_bit 16 x" "(16777216 :: u32) * x = push_bit 24 x"
  by (simp_all add: push_bit_eq_mult mult.commute)

lemma and_ff: "(ucast (v AND 0xFF) :: u8) = ucast (v :: u64)"
  by (rule word_enumI) (simp add: enum_simps)

lemma one_byte: "(scast (ucast v :: u8) :: u64) = signed_take_bit 7 v"
  by (rule word_enumI) (simp add: enum_simps)

lemma two_byte: "(scast (TWO_BYTE_INT (ucast (drop_bit 8 v)) (ucast v)) :: u64) = signed_take_bit 15 v"
  unfolding TWO_BYTE_INT_def times_push by (rule word_enumI) (simp add: enum_simps)

lemma three_byte: "(scast (THREE_BYTE_INT (ucast (drop_bit 16 v)) (ucast (drop_bit 8 v)) (ucast v)) :: u64) = signed_take_bit 23 v"
  unfolding THREE_BYTE_INT_def times_push by (rule word_enumI) (simp add: enum_simps)

lemma four_byte: "(scast (FOUR_BYTE_INT (ucast (drop_bit 24 v)) (ucast (drop_bit 16 v)) (ucast (drop_bit 8 v)) (ucast v)) :: u64) = signed_take_bit 31 v"
  unfolding FOUR_BYTE_INT_def times_push by (rule word_enumI) (simp add: enum_simps)

lemma four_byte_u: "FOUR_BYTE_UINT (ucast (drop_bit 24 v)) (ucast (drop_bit 16 v)) (ucast (drop_bit 8 v)) (ucast v) = ucast (v :: u64)"
  unfolding FOUR_BYTE_UINT_def by (rule word_enumI) (simp add: enum_simps)

lemma plus_disjoint: "ucast (a :: u32) + push_bit 32 (b :: u64) = ucast a OR push_bit 32 b"
  by (rule disjunctive_add) (auto simp: bit_simps dest: bit_imp_le_length)

lemma six_byte:
  "ucast (FOUR_BYTE_UINT (ucast (drop_bit 24 v)) (ucast (drop_bit 16 v)) (ucast (drop_bit 8 v)) (ucast v))
    + push_bit 32 1 * (scast (TWO_BYTE_INT (ucast (drop_bit 40 v)) (ucast (drop_bit 32 v))) :: u64) = signed_take_bit 47 v"
proof -
  have p: "push_bit 32 1 * x = push_bit 32 x" for x :: u64 by (simp add: push_bit_eq_mult mult.commute)
  have t: "(scast (TWO_BYTE_INT (ucast (drop_bit 40 v)) (ucast (drop_bit 32 v))) :: u64) = signed_take_bit 15 (drop_bit 32 v)"
    using two_byte [of "drop_bit 32 v"] by simp
  show ?thesis unfolding four_byte_u t p plus_disjoint by (rule word_enumI) (simp add: enum_simps)
qed

lemma eight_byte:
  "push_bit 32 (ucast (FOUR_BYTE_UINT (ucast (drop_bit 56 v)) (ucast (drop_bit 48 v)) (ucast (drop_bit 40 v)) (ucast (drop_bit 32 v))) :: u64)
    + ucast (FOUR_BYTE_UINT (ucast (drop_bit 24 v)) (ucast (drop_bit 16 v)) (ucast (drop_bit 8 v)) (ucast v)) = v"
proof -
  have h: "FOUR_BYTE_UINT (ucast (drop_bit 56 v)) (ucast (drop_bit 48 v)) (ucast (drop_bit 40 v)) (ucast (drop_bit 32 v)) = ucast (drop_bit 32 v)"
    using four_byte_u [of "drop_bit 32 v"] by simp
  show ?thesis unfolding four_byte_u h add.commute [of "push_bit 32 _"] plus_disjoint by (rule word_enumI) (simp add: enum_simps)
qed

section \<open>Values\<close>

datatype sql_value = VNull | VInt u64 | VReal u64 | VText "u8 list" | VBlob "u8 list"

text \<open>The value in a register; the zeros of a \<open>MEM_Zero\<close> blob belong to it.\<close>

definition val :: "mem \<Rightarrow> sql_value" where
  "val m = (if has m MEM_Null then VNull else if has m MEM_Int then VInt (u_ir m) else if has m MEM_Real then VReal (u_ir m)
     else if has m MEM_Str then VText (z m) else VBlob (z m @ (if has m MEM_Zero then replicate (nZero m) 0 else [])))"

text \<open>A register that holds a value: no NaN, zeros only after a blob, a length within the limits of the library.\<close>

definition mem_ok :: "mem \<Rightarrow> bool" where
  "mem_ok m \<longleftrightarrow> (has m MEM_Null \<or> has m MEM_Int \<or> has m MEM_Real \<or> has m MEM_Str \<or> has m MEM_Blob)
     \<and> (has m MEM_Zero \<longrightarrow> \<not> has m MEM_Null \<and> \<not> has m MEM_Int \<and> \<not> has m MEM_Real \<and> \<not> has m MEM_Str)
     \<and> (has m MEM_Real \<longrightarrow> \<not> sqlite3IsNaN (u_ir m)) \<and> length (z m) + nZero m < 2 ^ 31 - 6"

lemma flag_bits:
  "MEM_Null AND MEM_Int = 0" "MEM_Real AND MEM_Null = 0" "MEM_Real AND MEM_Int = 0" "MEM_Int AND MEM_Null = 0"
  "MEM_Null \<noteq> 0" "MEM_Int \<noteq> 0" "MEM_Real \<noteq> 0" "MEM_Str \<noteq> 0"
  "(MEM_Blob OR MEM_Ephem) AND MEM_Null = 0" "(MEM_Blob OR MEM_Ephem) AND MEM_Int = 0" "(MEM_Blob OR MEM_Ephem) AND MEM_Real = 0"
  "(MEM_Blob OR MEM_Ephem) AND MEM_Str = 0" "(MEM_Blob OR MEM_Ephem) AND MEM_Zero = 0"
  "(MEM_Str OR MEM_Ephem) AND MEM_Null = 0" "(MEM_Str OR MEM_Ephem) AND MEM_Int = 0" "(MEM_Str OR MEM_Ephem) AND MEM_Real = 0"
  "(MEM_Str OR MEM_Ephem) AND MEM_Str \<noteq> 0"
  by (simp_all add: MEM_Null_def MEM_Int_def MEM_Real_def MEM_Blob_def MEM_Ephem_def MEM_Str_def MEM_Zero_def)

lemma val_flags:
  "val (m\<lparr>mflags := MEM_Null\<rparr>) = VNull" "val (m\<lparr>u_ir := i, mflags := MEM_Int\<rparr>) = VInt i" "val (m\<lparr>u_ir := i, mflags := MEM_Real\<rparr>) = VReal i"
  "val (m\<lparr>z := bs, mflags := MEM_Blob OR MEM_Ephem\<rparr>) = VBlob bs" "val (m\<lparr>z := bs, mflags := MEM_Str OR MEM_Ephem\<rparr>) = VText bs"
  by (simp_all add: val_def has_def flag_bits)

lemma putBytes_simps:
  "putBytes (Suc 0) v [] = [ucast v]"
  "putBytes 2 v [] = [ucast (drop_bit 8 v), ucast v]"
  "putBytes 3 v [] = [ucast (drop_bit 16 v), ucast (drop_bit 8 v), ucast v]"
  "putBytes 4 v [] = [ucast (drop_bit 24 v), ucast (drop_bit 16 v), ucast (drop_bit 8 v), ucast v]"
  "putBytes 6 v [] = [ucast (drop_bit 40 v), ucast (drop_bit 32 v), ucast (drop_bit 24 v), ucast (drop_bit 16 v), ucast (drop_bit 8 v), ucast v]"
  "putBytes 8 v [] = [ucast (drop_bit 56 v), ucast (drop_bit 48 v), ucast (drop_bit 40 v), ucast (drop_bit 32 v),
     ucast (drop_bit 24 v), ucast (drop_bit 16 v), ucast (drop_bit 8 v), ucast v]"
  by (simp_all add: numeral_eq_Suc and_ff)

declare putBytes.simps [simp del]

lemma rd_simps [simp]: "rd (a # bs) 0 = Some a" "rd (a # bs) (Suc k) = rd bs k" "rd (a # bs) (numeral n) = rd bs (pred_numeral n)"
  by (simp_all add: rd_def numeral_eq_Suc)

text \<open>The bytes of a value in the record, with the zeros that the record leaves implicit.\<close>

definition fieldBytes :: "mem \<Rightarrow> nat \<Rightarrow> u8 list" where
  "fieldBytes m ff = sqlite3VdbeSerialPut m (fst (sqlite3VdbeSerialType m ff)) @ (if has m MEM_Zero then replicate (nZero m) 0 else [])"

lemma small_sizes:
  "sqlite3SmallTypeSizes ! Suc 0 = Suc 0" "sqlite3SmallTypeSizes ! 2 = 2" "sqlite3SmallTypeSizes ! 3 = 3" "sqlite3SmallTypeSizes ! 4 = 4"
  "sqlite3SmallTypeSizes ! 5 = 6" "sqlite3SmallTypeSizes ! 6 = 8" "sqlite3SmallTypeSizes ! 7 = 8"
  by (simp_all add: sqlite3SmallTypeSizes_def)

lemma le_fits:
  assumes "unat (if v <s 0 then NOT v else v) < 2 ^ k"
  shows "fits k v"
  using assms by (simp add: fits_def drop_bit_eq_0_iff)

lemma int_field:
  assumes "has m MEM_Int" "\<not> has m MEM_Null" "\<not> has m MEM_Zero"
  shows "length (fieldBytes m ff) = unat (snd (sqlite3VdbeSerialType m ff))
    \<and> (\<exists>m'. sqlite3VdbeSerialGet (fieldBytes m ff @ rest) (fst (sqlite3VdbeSerialType m ff)) m0 = Some (length (fieldBytes m ff), m') \<and> val m' = VInt (u_ir m))"
proof -
  define i where "i = u_ir m"
  define u where "u = (if i <s 0 then NOT i else i)"
  have ty: "sqlite3VdbeSerialType m ff = (if u \<le> 127 then (if i AND 1 = i \<and> 4 \<le> ff then (8 + ucast u, 0) else (1, 1))
         else if u \<le> 32767 then (2, 2) else if u \<le> 8388607 then (3, 3) else if u \<le> 2147483647 then (4, 4) else if u \<le> MAX_6BYTE then (5, 6) else (6, 8))"
    using assms by (simp add: sqlite3VdbeSerialType_def i_def u_def Let_def)
  have put: "fieldBytes m ff = sqlite3VdbeSerialPut m (fst (sqlite3VdbeSerialType m ff))" using assms(3) by (simp add: fieldBytes_def)
  have fits: "u \<le> 127 \<Longrightarrow> signed_take_bit 7 i = i" "u \<le> 32767 \<Longrightarrow> signed_take_bit 15 i = i" "u \<le> 8388607 \<Longrightarrow> signed_take_bit 23 i = i"
    "u \<le> 2147483647 \<Longrightarrow> signed_take_bit 31 i = i" "u \<le> MAX_6BYTE \<Longrightarrow> signed_take_bit 47 i = i"
    by (rule fits_signed, rule le_fits, simp_all add: u_def [symmetric] word_le_nat_alt MAX_6BYTE_def)+
  consider "u \<le> 127" "i AND 1 = i" "4 \<le> ff" | "sqlite3VdbeSerialType m ff = (1, 1)" "u \<le> 127" | "sqlite3VdbeSerialType m ff = (2, 2)" "u \<le> 32767"
    | "sqlite3VdbeSerialType m ff = (3, 3)" "u \<le> 8388607" | "sqlite3VdbeSerialType m ff = (4, 4)" "u \<le> 2147483647"
    | "sqlite3VdbeSerialType m ff = (5, 6)" "u \<le> MAX_6BYTE" | "sqlite3VdbeSerialType m ff = (6, 8)"
    using ty by metis
  then show ?thesis
  proof cases
    case 1
    have "i = 0 \<or> i = 1" using 1(2) by (metis and_one_eq mod_2_eq_odd of_bool_def)
    then have u: "u = i" by (auto simp: u_def word_sless_alt)
    have ty1: "sqlite3VdbeSerialType m ff = (8 + ucast i, 0)" using 1 by (simp add: ty u)
    from \<open>i = 0 \<or> i = 1\<close> show ?thesis
      by (elim disjE) (simp_all add: put ty1 sqlite3VdbeSerialPut_def sqlite3VdbeSerialGet_def val_flags i_def [symmetric])
  next
    case 2
    with fits(1) show ?thesis by (simp add: put sqlite3VdbeSerialPut_def sqlite3VdbeSerialGet_def small_sizes putBytes_simps val_flags one_byte i_def [symmetric])
  next
    case 3
    with fits(2) show ?thesis by (simp add: put sqlite3VdbeSerialPut_def sqlite3VdbeSerialGet_def small_sizes putBytes_simps val_flags two_byte i_def [symmetric])
  next
    case 4
    with fits(3) show ?thesis by (simp add: put sqlite3VdbeSerialPut_def sqlite3VdbeSerialGet_def small_sizes putBytes_simps val_flags three_byte i_def [symmetric])
  next
    case 5
    with fits(4) show ?thesis by (simp add: put sqlite3VdbeSerialPut_def sqlite3VdbeSerialGet_def small_sizes putBytes_simps val_flags four_byte i_def [symmetric])
  next
    case 6
    with fits(5) show ?thesis by (simp add: put sqlite3VdbeSerialPut_def sqlite3VdbeSerialGet_def small_sizes putBytes_simps val_flags six_byte i_def [symmetric] Let_def del: push_bit_of_1)
  next
    case 7
    then show ?thesis by (simp add: put sqlite3VdbeSerialPut_def sqlite3VdbeSerialGet_def serialGet_def small_sizes putBytes_simps val_flags eight_byte i_def [symmetric] Let_def)
  qed
qed

lemma text_type:
  fixes ff :: nat
  assumes "\<not> has m MEM_Null" "\<not> has m MEM_Int" "\<not> has m MEM_Real" "length (z m) + nZero m < 2 ^ 31 - 6"
  defines "n \<equiv> length (z m) + (if has m MEM_Zero then nZero m else 0)"
  defines "t \<equiv> fst (sqlite3VdbeSerialType m ff)"
  shows "unat (snd (sqlite3VdbeSerialType m ff)) = n" "unat ((t - 12) div 2) = n" "12 \<le> t" "t AND 1 = (if has m MEM_Str then 1 else 0)"
    "unat t = 2 * n + 12 + (if has m MEM_Str then 1 else 0)"
proof -
  let ?b = "if has m MEM_Str then 1 else 0 :: nat"
  have n: "n < 2 ^ 31 - 6" using assms(4) by (simp add: n_def)
  have t: "t = of_nat (2 * n + 12 + ?b)" using assms(1-3)
    by (simp add: t_def n_def sqlite3VdbeSerialType_def Let_def algebra_simps)
  have "snd (sqlite3VdbeSerialType m ff) = of_nat n" using assms(1-3) by (simp add: n_def sqlite3VdbeSerialType_def Let_def)
  then show "unat (snd (sqlite3VdbeSerialType m ff)) = n" using n by (simp add: unat_of_nat take_bit_nat_eq_self)
  have lt: "2 * n + 12 + ?b < 2 ^ 32" using n by simp
  then have ut: "unat t = 2 * n + 12 + ?b" unfolding t by (simp only: unat_of_nat) (rule mod_less, simp)
  then show "unat t = 2 * n + 12 + ?b" .
  show ge: "12 \<le> t" using ut by (simp add: word_le_nat_alt)
  have "unat (t - 12) = 2 * n + ?b" using ut ge by (simp add: unat_sub)
  then show "unat ((t - 12) div 2) = n" by (simp add: unat_div)
  have "t AND 1 = t mod 2" by (simp add: and_one_eq)
  then have "unat (t AND 1) = (2 * n + 12 + ?b) mod 2" using ut by (simp add: unat_mod)
  then have "unat (t AND 1) = ?b" by simp
  then show "t AND 1 = (if has m MEM_Str then 1 else 0)" by (simp add: word_unat_eq_iff split: if_splits)
qed

lemma field_roundtrip:
  assumes "mem_ok m"
  shows "length (fieldBytes m ff) = unat (snd (sqlite3VdbeSerialType m ff))
    \<and> (\<exists>m'. sqlite3VdbeSerialGet (fieldBytes m ff @ rest) (fst (sqlite3VdbeSerialType m ff)) m0 = Some (length (fieldBytes m ff), m') \<and> val m' = val m)"
proof -
  note ok = assms [unfolded mem_ok_def]
  consider "has m MEM_Null" | "\<not> has m MEM_Null" "has m MEM_Int" | "\<not> has m MEM_Null" "\<not> has m MEM_Int" "has m MEM_Real"
    | "\<not> has m MEM_Null" "\<not> has m MEM_Int" "\<not> has m MEM_Real" by blast
  then show ?thesis
  proof cases
    case 1
    then have "\<not> has m MEM_Zero" using ok by blast
    with 1 show ?thesis by (simp add: fieldBytes_def sqlite3VdbeSerialType_def sqlite3VdbeSerialPut_def sqlite3VdbeSerialGet_def val_flags) (simp add: val_def)
  next
    case 2
    then have "\<not> has m MEM_Zero" and v: "val m = VInt (u_ir m)" using ok by (blast, simp add: val_def)
    from int_field [OF 2(2,1) this(1), of ff rest m0] show ?thesis unfolding v .
  next
    case 3
    then have "\<not> has m MEM_Zero" "val m = VReal (u_ir m)" "\<not> sqlite3IsNaN (u_ir m)" using ok by (blast, simp add: val_def, blast)
    with 3 show ?thesis
      by (simp add: fieldBytes_def sqlite3VdbeSerialType_def sqlite3VdbeSerialPut_def sqlite3VdbeSerialGet_def serialGet_def small_sizes putBytes_simps
          eight_byte val_flags Let_def)
  next
    case 4
    define t where "t = fst (sqlite3VdbeSerialType m ff)"
    have len: "length (z m) + nZero m < 2 ^ 31 - 6" using ok by blast
    note ty = text_type [OF 4 len, of ff, folded t_def]
    have ne: "t \<noteq> 10" "t \<noteq> 11" "t \<noteq> 0" "t \<noteq> 1" "t \<noteq> 2" "t \<noteq> 3" "t \<noteq> 4" "t \<noteq> 5" "t \<noteq> 6" "t \<noteq> 7" "t \<noteq> 8" "t \<noteq> 9" "\<not> (t \<le> 7 \<and> 0 < t)"
      using ty(3) by (auto simp: word_le_nat_alt)
    have fb: "fieldBytes m ff = z m @ (if has m MEM_Zero then replicate (nZero m) 0 else [])"
      using ty(3) unfolding fieldBytes_def t_def [symmetric] sqlite3VdbeSerialPut_def if_not_P [OF ne(13)] by simp
    have "length (fieldBytes m ff) = length (z m) + (if has m MEM_Zero then nZero m else 0)" by (simp add: fb)
    moreover have "val m = (if has m MEM_Str then VText (fieldBytes m ff) else VBlob (fieldBytes m ff))"
      using 4 ok by (auto simp: val_def fb)
    moreover have "sqlite3VdbeSerialGet (fieldBytes m ff @ rest) t m0 = Some (length (fieldBytes m ff),
        m0\<lparr>z := fieldBytes m ff, mflags := (if has m MEM_Str then MEM_Str OR MEM_Ephem else MEM_Blob OR MEM_Ephem)\<rparr>)"
      unfolding sqlite3VdbeSerialGet_def using ne ty(2,4) calculation(1) by (simp add: Let_def)
    ultimately show ?thesis using ty(1) by (simp add: t_def [symmetric] val_flags)
  qed
qed

section \<open>Making a record\<close>

text \<open>\<open>sqlite3VdbeMemExpandBlob\<close>; it may fail to enlarge the buffer. The size is an \<open>int\<close> in the code.\<close>

definition sqlite3VdbeMemExpandBlob :: "mem \<Rightarrow> allocs \<Rightarrow> (mem \<times> allocs) option" where
  "sqlite3VdbeMemExpandBlob m al =
     (let (ok, al) = alloc_ok al in
      if ok then Some (m\<lparr>z := z m @ replicate (nZero m) 0, mflags := mflags m AND NOT (MEM_Zero OR MEM_Term)\<rparr>, al) else None)"

text \<open>
  The first loop, from the last value to the first, here over the reversed list. It stores the serial types in \<open>uTemp\<close> (the second components) and counts
  \<open>nData\<close>, \<open>nHdr\<close> and \<open>nZero\<close>; \<^term>\<open>None\<close> is \<open>no_mem\<close>.
\<close>

fun recSizes :: "nat \<Rightarrow> mem list \<Rightarrow> allocs \<Rightarrow> nat \<Rightarrow> nat \<Rightarrow> nat \<Rightarrow> (mem \<times> u32) list \<Rightarrow> ((mem \<times> u32) list \<times> nat \<times> nat \<times> nat \<times> allocs) option" where
  "recSizes ff [] al nData nHdr nZ acc = Some (acc, nData, nHdr, nZ, al)"
| "recSizes ff (m # ms) al nData nHdr nZ acc = do {
     let (t, len) = sqlite3VdbeSerialType m ff;
     (m, al, nZ, len) \<leftarrow>
       (if has m MEM_Zero then
          if nData \<noteq> 0 then do {
            (m, al) \<leftarrow> sqlite3VdbeMemExpandBlob m al;
            Some (m, al, nZ, len)
          }
          else Some (m, al, nZ + nZero m, len - of_nat (nZero m))
        else Some (m, al, nZ, len));
     recSizes ff ms al (nData + unat len) (nHdr + (if t \<le> 127 then 1 else sqlite3VarintLen (ucast t))) nZ ((m, t) # acc)
   }"

text \<open>The size of the header with the varint that holds it.\<close>

definition recHeaderSize :: "nat \<Rightarrow> nat" where
  "recHeaderSize nHdr =
     (if nHdr \<le> 126 then nHdr + 1
      else (let nVarint = sqlite3VarintLen (of_nat nHdr); nHdr = nHdr + nVarint
            in if nVarint < sqlite3VarintLen (of_nat nHdr) then nHdr + 1 else nHdr))"

definition putBuf :: "u8 list \<Rightarrow> nat \<Rightarrow> u8 list \<Rightarrow> u8 list option" where
  "putBuf buf off bs = (if off + length bs \<le> length buf then Some (take off buf @ bs @ drop (off + length bs) buf) else None)"

fun recWrite :: "(mem \<times> u32) list \<Rightarrow> nat \<Rightarrow> nat \<Rightarrow> u8 list \<Rightarrow> (nat \<times> nat \<times> u8 list) option" where
  "recWrite [] i j buf = Some (i, j, buf)"
| "recWrite ((m, t) # ms) i j buf = do {
     buf \<leftarrow> putBuf buf i (putVarint32 t);
     let i = i + length (putVarint32 t);
     buf \<leftarrow> putBuf buf j (sqlite3VdbeSerialPut m t);
     recWrite ms i (j + length (sqlite3VdbeSerialPut m t)) buf
   }"

datatype record_result = TooBig | NoMem | Record "u8 list" nat

text \<open>
  The opcode on the values after the affinities have been applied. \<open>limit\<close> is \<open>SQLITE_LIMIT_LENGTH\<close>, \<open>junk\<close> the contents of the new
  buffer. The result holds the bytes and the number of zeros that follow them.
\<close>

definition OP_MakeRecord :: "nat \<Rightarrow> nat \<Rightarrow> mem list \<Rightarrow> (nat \<Rightarrow> u8) \<Rightarrow> allocs \<Rightarrow> record_result option" where
  "OP_MakeRecord ff limit ms junk al =
     (case recSizes ff (rev ms) al 0 0 0 [] of
        None \<Rightarrow> Some NoMem
      | Some (fs, nData, nHdr, nZ, al) \<Rightarrow>
          (let nHdr = recHeaderSize nHdr;
               nByte = nHdr + nData
           in if nByte + nZ > limit then Some TooBig
              else (let (ok, al) = alloc_ok al in
                if \<not> ok then Some NoMem
                else do {
                  let zNewRecord = map junk [0..<nByte];
                  zNewRecord \<leftarrow> putBuf zNewRecord 0 (putVarint32 (of_nat nHdr));
                  (i, j, zNewRecord) \<leftarrow> recWrite fs (length (putVarint32 (of_nat nHdr))) nHdr zNewRecord;
                  Some (Record zNewRecord nZ)
                })))"

section \<open>Reading a record\<close>

text \<open>\<open>d\<close> is an \<open>int\<close>: a header size of \<open>2^31\<close> or more would make it negative, and the first access would be outside the record.\<close>

fun unpackLoop :: "u8 list \<Rightarrow> nat \<Rightarrow> nat \<Rightarrow> nat \<Rightarrow> mem list \<Rightarrow> mem list option" where
  "unpackLoop aKey szHdr idx d [] = Some []"
| "unpackLoop aKey szHdr idx d (pMem # ms) =
     (if idx < szHdr \<and> d \<le> length aKey then do {
        (t, n) \<leftarrow> getVarint32 (drop idx aKey);
        (k, m) \<leftarrow> sqlite3VdbeSerialGet (drop d aKey) t (pMem\<lparr>z := []\<rparr>);
        rest \<leftarrow> unpackLoop aKey szHdr (idx + n) (d + k) ms;
        Some (m # rest)
      }
      else Some [])"

text \<open>\<open>aMem\<close> are the \<open>nField\<close> (at least one) registers to fill; the result are the \<open>u\<close> registers that were filled.\<close>

definition sqlite3VdbeRecordUnpack :: "u8 list \<Rightarrow> mem list \<Rightarrow> mem list option" where
  "sqlite3VdbeRecordUnpack aKey aMem = do {
     (szHdr, idx) \<leftarrow> getVarint32 aKey;
     if unat szHdr \<ge> 2 ^ 31 then None else unpackLoop aKey (unat szHdr) idx (unat szHdr) aMem
   }"

section \<open>Sizes\<close>

lemma length_putVarint32: "length (putVarint32 t) = (if t \<le> 127 then 1 else sqlite3VarintLen (ucast t))"
proof -
  have "unat (ucast t :: u64) = unat t" by (simp add: unsigned_ucast_eq take_bit_nat_eq_self order_less_trans [OF unsigned_less])
  then have "unat (ucast t :: u64) < 2 ^ 63" using unsigned_less [of t, where 'a = nat] by simp
  moreover have "t < 0x80 \<longleftrightarrow> t \<le> 127" by (simp add: word_less_nat_alt word_le_nat_alt) linarith
  ultimately show ?thesis using VarintLen_length [of "ucast t"] by (simp add: putVarint32_def)
qed

lemma put_text: "has m MEM_Zero \<Longrightarrow> mem_ok m \<Longrightarrow> z m' = bs \<Longrightarrow> sqlite3VdbeSerialPut m' (fst (sqlite3VdbeSerialType m ff)) = bs"
proof -
  assume a: "has m MEM_Zero" "mem_ok m" "z m' = bs"
  then have "\<not> has m MEM_Null" "\<not> has m MEM_Int" "\<not> has m MEM_Real" "length (z m) + nZero m < 2 ^ 31 - 6" unfolding mem_ok_def by blast+
  from text_type(3) [OF this, of ff] a(3) show ?thesis by (auto simp: sqlite3VdbeSerialPut_def word_le_nat_alt)
qed

definition recPuts :: "(mem \<times> u32) list \<Rightarrow> u8 list" where
  "recPuts fs = concat (map (\<lambda>(m, t). sqlite3VdbeSerialPut m t) fs)"

lemma recPuts_simps [simp]: "recPuts [] = []" "recPuts ((m, t) # fs) = sqlite3VdbeSerialPut m t @ recPuts fs"
  by (simp_all add: recPuts_def)

definition types :: "nat \<Rightarrow> mem list \<Rightarrow> u32 list" where
  "types ff ms = map (\<lambda>m. fst (sqlite3VdbeSerialType m ff)) ms"

definition typeBytes :: "u32 list \<Rightarrow> u8 list" where
  "typeBytes ts = concat (map putVarint32 ts)"

text \<open>What the first loop has computed when the values \<open>ds\<close> are done.\<close>

definition sizes_ok :: "nat \<Rightarrow> mem list \<Rightarrow> (mem \<times> u32) list \<Rightarrow> nat \<Rightarrow> nat \<Rightarrow> nat \<Rightarrow> bool" where
  "sizes_ok ff ds fs nData nHdr nZ \<longleftrightarrow> recPuts fs @ replicate nZ 0 = concat (map (\<lambda>m. fieldBytes m ff) ds) \<and> nData = length (recPuts fs)
     \<and> map snd fs = types ff ds \<and> nHdr = length (typeBytes (types ff ds))"

lemma recSizes_step:
  assumes "mem_ok m" "sizes_ok ff ds fs nData nHdr nZ"
  defines "t \<equiv> fst (sqlite3VdbeSerialType m ff)"
  shows "(recSizes ff (m # ms) al nData nHdr nZ fs = None \<and> False \<in> set al)
    \<or> (\<exists>al' m' nData' nHdr' nZ'. recSizes ff (m # ms) al nData nHdr nZ fs = recSizes ff ms al' nData' nHdr' nZ' ((m', t) # fs)
        \<and> sizes_ok ff (m # ds) ((m', t) # fs) nData' nHdr' nZ' \<and> (False \<in> set al' \<longrightarrow> False \<in> set al))"
proof -
  note sz = assms(2) [unfolded sizes_ok_def]
  obtain len where ty: "sqlite3VdbeSerialType m ff = (t, len)" unfolding t_def by (cases "sqlite3VdbeSerialType m ff") simp
  have len: "length (fieldBytes m ff) = unat len" using field_roundtrip [OF assms(1), of ff "[]" m] ty by simp
  have fb: "fieldBytes m ff = sqlite3VdbeSerialPut m t @ (if has m MEM_Zero then replicate (nZero m) 0 else [])" by (simp add: fieldBytes_def t_def)
  have hl: "(if t \<le> 127 then 1 else sqlite3VarintLen (ucast t)) = length (putVarint32 t)" by (simp add: length_putVarint32)
  have th: "types ff (m # ds) = t # types ff ds" "length (typeBytes (types ff (m # ds))) = nHdr + length (putVarint32 t)"
    using sz by (simp_all add: types_def t_def typeBytes_def)
  consider "\<not> has m MEM_Zero" | "has m MEM_Zero" "nData \<noteq> 0" | "has m MEM_Zero" "nData = 0" by blast
  then show ?thesis
  proof cases
    case 1
    then have "sizes_ok ff (m # ds) ((m, t) # fs) (nData + unat len) (nHdr + length (putVarint32 t)) nZ"
      using sz th fb len by (simp add: sizes_ok_def)
    with 1 show ?thesis by (simp add: ty hl) blast
  next
    case 2
    obtain ok al' where al: "alloc_ok al = (ok, al')" by fastforce
    have al2: "False \<in> set al' \<longrightarrow> False \<in> set al" "\<not> ok \<longrightarrow> False \<in> set al" using al by (cases al; auto)+
    define m' where "m' = m\<lparr>z := z m @ replicate (nZero m) 0, mflags := mflags m AND NOT (MEM_Zero OR MEM_Term)\<rparr>"
    have "sqlite3VdbeSerialPut m' t = z m @ replicate (nZero m) 0" "sqlite3VdbeSerialPut m t = z m"
      unfolding t_def by (rule put_text [OF 2(1) assms(1)], simp add: m'_def)+
    then have "sizes_ok ff (m # ds) ((m', t) # fs) (nData + unat len) (nHdr + length (putVarint32 t)) nZ"
      using sz th fb len 2(1) by (simp add: sizes_ok_def)
    moreover have "sqlite3VdbeMemExpandBlob m al = (if ok then Some (m', al') else None)"
      by (simp add: sqlite3VdbeMemExpandBlob_def al m'_def)
    ultimately show ?thesis using 2 al2 by (cases ok) (simp_all add: ty hl, blast)
  next
    case 3
    have p: "sqlite3VdbeSerialPut m t = z m" unfolding t_def by (rule put_text [OF 3(1) assms(1)]) simp
    have e: "recPuts fs = []" using sz 3(2) by simp
    then have r: "concat (map (\<lambda>m. fieldBytes m ff) ds) = replicate nZ 0" using sz by simp
    have "unat (len - of_nat (nZero m)) = length (z m)"
    proof -
      have "unat len = length (z m) + nZero m" using len 3(1) p by (simp add: fb)
      moreover have "nZero m < 2 ^ 32" using assms(1) by (simp add: mem_ok_def)
      ultimately show ?thesis by (subst unat_sub) (simp_all add: word_le_nat_alt unat_of_nat)
    qed
    then have "sizes_ok ff (m # ds) ((m, t) # fs) (nData + unat (len - of_nat (nZero m))) (nHdr + length (putVarint32 t)) (nZ + nZero m)"
      using sz th fb 3 p e by (simp add: sizes_ok_def r replicate_add [symmetric] add.commute [of nZ])
    with 3 show ?thesis by (simp add: ty hl) blast
  qed
qed

lemma recSizes_ok:
  assumes "list_all mem_ok ms" "sizes_ok ff ds fs nData nHdr nZ"
  shows "(recSizes ff ms al nData nHdr nZ fs = None \<and> False \<in> set al)
    \<or> (\<exists>fs' nData' nHdr' nZ' al'. recSizes ff ms al nData nHdr nZ fs = Some (fs', nData', nHdr', nZ', al')
        \<and> sizes_ok ff (rev ms @ ds) fs' nData' nHdr' nZ' \<and> (False \<in> set al' \<longrightarrow> False \<in> set al))"
  using assms
proof (induction ms arbitrary: ds fs nData nHdr nZ al)
  case (Cons m ms)
  have "mem_ok m" "list_all mem_ok ms" using Cons.prems(1) by simp_all
  from recSizes_step [OF this(1) Cons.prems(2), of ms al] show ?case
  proof
    assume "\<exists>al' m' nData' nHdr' nZ'. recSizes ff (m # ms) al nData nHdr nZ fs
          = recSizes ff ms al' nData' nHdr' nZ' ((m', fst (sqlite3VdbeSerialType m ff)) # fs)
        \<and> sizes_ok ff (m # ds) ((m', fst (sqlite3VdbeSerialType m ff)) # fs) nData' nHdr' nZ' \<and> (False \<in> set al' \<longrightarrow> False \<in> set al)"
    then obtain al' m' nData' nHdr' nZ' where s: "recSizes ff (m # ms) al nData nHdr nZ fs
          = recSizes ff ms al' nData' nHdr' nZ' ((m', fst (sqlite3VdbeSerialType m ff)) # fs)"
      "sizes_ok ff (m # ds) ((m', fst (sqlite3VdbeSerialType m ff)) # fs) nData' nHdr' nZ'" "False \<in> set al' \<longrightarrow> False \<in> set al" by blast
    have "rev (m # ms) @ ds = rev ms @ m # ds" by simp
    with Cons.IH [OF \<open>list_all mem_ok ms\<close> s(2), of al'] s(1,3) show ?case by (simp only:) blast
  qed blast
qed (use assms(2) in simp)

text \<open>The varint of the header size counts itself.\<close>

lemma varint_len_le: "1 \<le> k \<Longrightarrow> sqlite3VarintLen v \<le> k \<longleftrightarrow> unat v < 2 ^ (7 * k)"
proof -
  assume k: "1 \<le> k"
  then obtain j where j: "k = Suc j" by (cases k) auto
  have d: "drop_bit (7 * j) (drop_bit 7 v) = 0 \<longleftrightarrow> unat v < 2 ^ (7 * k)"
    by (simp only: drop_bit_drop_bit drop_bit_eq_0_iff) (simp add: j add.commute)
  show ?thesis
  proof
    assume "sqlite3VarintLen v \<le> k"
    then have "length (cont_bytes (drop_bit 7 v)) \<le> j" by (simp add: sqlite3VarintLen_cont j)
    then show "unat v < 2 ^ (7 * k)" using length_cont_bytes_ge [of j "drop_bit 7 v"] d by fastforce
  next
    assume "unat v < 2 ^ (7 * k)"
    with d length_cont_bytes [of j "drop_bit 7 v"] show "sqlite3VarintLen v \<le> k" by (simp add: sqlite3VarintLen_cont j)
  qed
qed

lemma recHeaderSize_ok:
  assumes "n < 2 ^ 31"
  shows "length (putVarint32 (of_nat (recHeaderSize n))) + n = recHeaderSize n" "recHeaderSize n \<le> n + 6"
proof -
  define V where "V n = sqlite3VarintLen (of_nat n)" for n
  have u: "unat (of_nat k :: u64) = k" if "k < 2 ^ 32" for k using that by (simp add: unat_of_nat)
  have V: "1 \<le> k \<Longrightarrow> m < 2 ^ 32 \<Longrightarrow> V m \<le> k \<longleftrightarrow> m < 2 ^ (7 * k)" for m k using varint_len_le [of k "of_nat m"] u [of m] by (simp add: V_def)
  have V1: "1 \<le> V m" for m unfolding V_def by (subst sqlite3VarintLen.simps) (simp add: Let_def)
  have len: "length (putVarint32 (of_nat m)) = V m" if "m < 2 ^ 32" for m
  proof -
    have "(of_nat m :: u32) \<le> 127 \<longleftrightarrow> m \<le> 127" using that by (simp add: word_le_nat_alt unat_of_nat)
    moreover have "ucast (of_nat m :: u32) = (of_nat m :: u64)" using that by (simp add: word_unat_eq_iff unsigned_ucast_eq unat_of_nat take_bit_nat_eq_self)
    moreover have "m \<le> 127 \<Longrightarrow> V m = 1" using V [of 1 m] V1 [of m] that by simp
    ultimately show ?thesis by (simp add: length_putVarint32 V_def)
  qed
  have "V (recHeaderSize n) + n = recHeaderSize n \<and> recHeaderSize n \<le> n + 6"
  proof (cases "n \<le> 126")
    case True
    then have "V (n + 1) \<le> 1" using V [of 1 "n + 1"] by simp
    then have "V (n + 1) = 1" using V1 [of "n + 1"] by linarith
    moreover have "recHeaderSize n = n + 1" using True by (simp add: recHeaderSize_def)
    ultimately show ?thesis unfolding \<open>recHeaderSize n = n + 1\<close> by linarith
  next
    case False
    define k where "k = V n"
    have k: "1 \<le> k" "k \<le> 5" using V1 V [of 5 n] assms by (simp_all add: k_def)
    have lo: "n < 2 ^ (7 * k)" using V [of k n] k(1) assms by (simp add: k_def)
    have b: "k = 1 \<or> k = 2 \<or> k = 3 \<or> k = 4 \<or> k = 5" using k by auto
    have "n + k + 1 < 2 ^ (7 * (k + 1))" using lo b by auto
    then have up: "V (n + k + 1) \<le> k + 1" "V (n + k) \<le> k + 1" using V [of "k + 1" "n + k + 1"] V [of "k + 1" "n + k"] assms k by simp_all
    have mono: "V a \<le> V b" if "a \<le> b" "b < 2 ^ 32" for a b
      using V [of "V b" b] V [of "V b" a] V1 [of b] that by simp
    have ge: "k \<le> V (n + k)" "V (n + k) \<le> V (n + k + 1)" unfolding k_def [symmetric] using mono [of n "n + k"] mono [of "n + k" "n + k + 1"] assms k by (simp_all add: k_def)
    have h: "recHeaderSize n = (if k < V (n + k) then n + k + 1 else n + k)"
      using False by (simp add: recHeaderSize_def V_def k_def Let_def)
    show ?thesis using h up ge k by auto
  qed
  then show "length (putVarint32 (of_nat (recHeaderSize n))) + n = recHeaderSize n" "recHeaderSize n \<le> n + 6"
    using len [of "recHeaderSize n"] assms by auto
qed

section \<open>The bytes of a record\<close>

definition recordBytes :: "nat \<Rightarrow> mem list \<Rightarrow> u8 list" where
  "recordBytes ff ms = putVarint32 (of_nat (recHeaderSize (length (typeBytes (types ff ms))))) @ typeBytes (types ff ms) @ concat (map (\<lambda>m. fieldBytes m ff) ms)"

lemma putBuf_mid: "length bs = length X \<Longrightarrow> off = length A \<Longrightarrow> putBuf (A @ X @ B) off bs = Some (A @ bs @ B)"
  by (simp add: putBuf_def)

lemma recWrite_ok:
  assumes "length X = length (typeBytes (map snd fs))" "length Y = length (recPuts fs)"
  shows "recWrite fs (length A) (length (A @ X @ B)) (A @ X @ B @ Y)
    = Some (length (A @ X), length (A @ X @ B @ Y), A @ typeBytes (map snd fs) @ B @ recPuts fs)"
  using assms
proof (induction fs arbitrary: A X B Y)
  case (Cons f fs)
  obtain m t where f: "f = (m, t)" by fastforce
  define P where "P = putVarint32 t"
  define S where "S = sqlite3VdbeSerialPut m t"
  define X1 X2 Y1 Y2 where "X1 = take (length P) X" "X2 = drop (length P) X" "Y1 = take (length S) Y" "Y2 = drop (length S) Y"
  have XY: "X = X1 @ X2" "Y = Y1 @ Y2" "length X1 = length P" "length Y1 = length S" "length X2 = length (typeBytes (map snd fs))" "length Y2 = length (recPuts fs)"
    using Cons.prems by (simp_all add: X1_X2_Y1_Y2_def f P_def S_def typeBytes_def)
  have 1: "putBuf (A @ X @ B @ Y) (length A) P = Some (A @ P @ X2 @ B @ Y)" using putBuf_mid [of P X1 "length A" A "X2 @ B @ Y"] XY(1,3) by simp
  have 2: "putBuf (A @ P @ X2 @ B @ Y) (length (A @ X @ B)) S = Some (A @ P @ X2 @ B @ S @ Y2)"
    using putBuf_mid [of S Y1 "length (A @ X @ B)" "A @ P @ X2 @ B" Y2] XY(1-4) by simp
  have "recWrite (f # fs) (length A) (length (A @ X @ B)) (A @ X @ B @ Y)
    = recWrite fs (length (A @ P)) (length ((A @ P) @ X2 @ (B @ S))) ((A @ P) @ X2 @ (B @ S) @ Y2)"
    using 1 2 XY(1,3) by (simp add: f P_def [symmetric] S_def [symmetric] add.assoc)
  also have "\<dots> = Some (length ((A @ P) @ X2), length ((A @ P) @ X2 @ (B @ S) @ Y2), (A @ P) @ typeBytes (map snd fs) @ (B @ S) @ recPuts fs)"
    by (rule Cons.IH [OF XY(5,6)])
  finally show ?case using XY(1-4) by (simp add: f P_def S_def typeBytes_def add.assoc)
qed (simp add: typeBytes_def)

lemma length_putVarint32_le: "length (putVarint32 t) \<le> 5"
proof -
  have "unat (ucast t :: u64) = unat t" by (simp add: unsigned_ucast_eq take_bit_nat_eq_self order_less_trans [OF unsigned_less])
  then have "unat (ucast t :: u64) < 2 ^ (7 * 5)" using unsigned_less [of t, where 'a = nat] by simp
  then show ?thesis using varint_len_le [of 5 "ucast t"] by (simp add: length_putVarint32)
qed

lemma length_typeBytes: "length (typeBytes ts) \<le> 5 * length ts"
proof (induction ts)
  case (Cons t ts)
  then show ?case using length_putVarint32_le [of t] by (simp add: typeBytes_def)
qed (simp add: typeBytes_def)

text \<open>
  The opcode returns in bounds, whatever happens: out of memory only if an allocation failed, otherwise \<open>too_big\<close> exactly if the record is longer than the limit.
\<close>

lemma OP_MakeRecord_ok:
  assumes "list_all mem_ok ms" "length ms < 2 ^ 26" "limit < 2 ^ 31"
  shows "(OP_MakeRecord ff limit ms junk al = Some NoMem \<and> False \<in> set al)
    \<or> (if length (recordBytes ff ms) > limit then OP_MakeRecord ff limit ms junk al = Some TooBig
       else \<exists>bs n. OP_MakeRecord ff limit ms junk al = Some (Record bs n) \<and> bs @ replicate n 0 = recordBytes ff ms)"
proof -
  have "sizes_ok ff [] [] 0 0 0" by (simp add: sizes_ok_def types_def typeBytes_def)
  from recSizes_ok [OF _ this, of "rev ms" al] assms(1) consider "recSizes ff (rev ms) al 0 0 0 [] = None" "False \<in> set al"
    | fs nData nHdr nZ al' where "recSizes ff (rev ms) al 0 0 0 [] = Some (fs, nData, nHdr, nZ, al')" "sizes_ok ff ms fs nData nHdr nZ"
      "False \<in> set al' \<longrightarrow> False \<in> set al" by (auto simp: list.pred_set)
  then show ?thesis
  proof cases
    case 1
    then show ?thesis by (simp add: OP_MakeRecord_def)
  next
    case 2
    note sz = 2(2) [unfolded sizes_ok_def]
    have "nHdr < 2 ^ 31" using length_typeBytes [of "types ff ms"] sz assms(2) by (simp add: types_def)
    note hs = recHeaderSize_ok [OF this]
    define h where "h = recHeaderSize nHdr"
    define V where "V = putVarint32 (of_nat h)"
    have rb: "recordBytes ff ms = V @ typeBytes (types ff ms) @ recPuts fs @ replicate nZ 0"
      using sz by (simp add: recordBytes_def V_def h_def)
    have lenV: "length V + nHdr = h" using hs(1) by (simp add: V_def h_def)
    have len: "length (recordBytes ff ms) = h + nData + nZ" using sz lenV unfolding rb length_append by simp
    obtain ok al'' where al: "alloc_ok al' = (ok, al'')" by fastforce
    have al2: "\<not> ok \<longrightarrow> False \<in> set al" using al 2(3) by (cases al') auto
    define junkb where "junkb = map junk [0..<h + nData]"
    define J1 J2 J3 where "J1 = take (length V) junkb" "J2 = take nHdr (drop (length V) junkb)" "J3 = drop nHdr (drop (length V) junkb)"
    have J: "junkb = J1 @ J2 @ J3" "length J1 = length V" "length J2 = nHdr" "length J3 = nData"
      using lenV by (simp_all add: J1_J2_J3_def junkb_def del: drop_drop)
    have w1: "putBuf junkb 0 V = Some (V @ J2 @ J3)" using putBuf_mid [of V J1 0 "[]" "J2 @ J3"] J(1,2) by simp
    have "recWrite fs (length V) (length (V @ J2 @ [])) (V @ J2 @ [] @ J3) = Some (length (V @ J2), length (V @ J2 @ [] @ J3), V @ typeBytes (map snd fs) @ [] @ recPuts fs)"
      by (rule recWrite_ok) (use sz J in simp_all)
    then have w2: "recWrite fs (length V) h (V @ J2 @ J3) = Some (h, h + nData, V @ typeBytes (types ff ms) @ recPuts fs)"
      using sz J lenV by simp
    have "OP_MakeRecord ff limit ms junk al = (if length (recordBytes ff ms) > limit then Some TooBig
        else if \<not> ok then Some NoMem else Some (Record (V @ typeBytes (types ff ms) @ recPuts fs) nZ))"
      using w1 w2 al unfolding OP_MakeRecord_def 2(1) option.case prod.case Let_def h_def [symmetric] V_def [symmetric] junkb_def [symmetric] len by simp
    then show ?thesis using al2 rb by (cases ok) auto
  qed
qed

lemma unpackLoop_ok:
  assumes "drop idx aKey = typeBytes (types ff ms) @ R" "idx + length (typeBytes (types ff ms)) = szHdr"
    "drop d aKey = concat (map (\<lambda>m. fieldBytes m ff) ms) @ rest" "d \<le> length aKey" "list_all mem_ok ms"
  shows "\<exists>vs. unpackLoop aKey szHdr idx d aMem = Some vs \<and> map val vs = take (length aMem) (map val ms)"
  using assms
proof (induction aMem arbitrary: idx d ms)
  case (Cons p aMem)
  show ?case
  proof (cases ms)
    case Nil
    with Cons.prems show ?thesis by (simp add: types_def typeBytes_def)
  next
    case (Cons m ms')
    define t where "t = fst (sqlite3VdbeSerialType m ff)"
    have tb: "typeBytes (types ff ms) = putVarint32 t @ typeBytes (types ff ms')" by (simp add: Cons types_def typeBytes_def t_def)
    have pos: "0 < length (putVarint32 t)" using VarintLen_length [of "ucast t"] by (auto simp: putVarint32_def)
    have g: "getVarint32 (drop idx aKey) = Some (t, length (putVarint32 t))" unfolding Cons.prems(1) tb append_assoc by (rule dec_enc_varint32)
    define F where "F = fieldBytes m ff"
    have m: "mem_ok m" "list_all mem_ok ms'" using Cons.prems(5) Cons by simp_all
    obtain m' where m': "sqlite3VdbeSerialGet (drop d aKey) t (p\<lparr>z := []\<rparr>) = Some (length F, m')" "val m' = val m"
      using field_roundtrip [OF m(1), of ff "concat (map (\<lambda>m. fieldBytes m ff) ms') @ rest" "p\<lparr>z := []\<rparr>"] Cons.prems(3)
      by (auto simp: Cons t_def F_def)
    have d: "d + length F \<le> length aKey" using arg_cong [OF Cons.prems(3), of length] Cons.prems(4) by (simp add: Cons F_def)
    have dr: "drop (idx + length (putVarint32 t)) aKey = typeBytes (types ff ms') @ R" "drop (d + length F) aKey = concat (map (\<lambda>m. fieldBytes m ff) ms') @ rest"
      using arg_cong [OF Cons.prems(1) [unfolded tb], of "drop (length (putVarint32 t))"] arg_cong [OF Cons.prems(3) [unfolded Cons], of "drop (length F)"]
      by (simp_all add: F_def add.commute)
    have "idx + length (putVarint32 t) + length (typeBytes (types ff ms')) = szHdr" using Cons.prems(2) tb by simp
    from Cons.IH [OF dr(1) this dr(2) d m(2)] obtain vs where
      vs: "unpackLoop aKey szHdr (idx + length (putVarint32 t)) (d + length F) aMem = Some vs" "map val vs = take (length aMem) (map val ms')" by blast
    have "idx < szHdr" using Cons.prems(2) pos unfolding tb length_append by linarith
    then have "unpackLoop aKey szHdr idx d (p # aMem) = Some (m' # vs)" using g m'(1) vs(1) Cons.prems(4) by simp
    then show ?thesis using vs(2) m'(2) by (intro exI [of _ "m' # vs"]) (simp add: Cons)
  qed
qed simp

section \<open>Properties\<close>

text \<open>C5. Decoding what \<open>MakeRecord\<close> built gives back the values, for any values of any lengths and any schema format: NULLs, integers of
  every width, floating point numbers bit by bit, text, and blobs with the zeros that \<open>MEM_Zero\<close> stands for. A caller with fewer
  registers gets the first ones.
\<close>

theorem record_roundtrip:
  assumes "list_all mem_ok ms" "length ms < 2 ^ 26" "limit < 2 ^ 31" "OP_MakeRecord ff limit ms junk al = Some (Record bs n)"
  shows "\<exists>vs. sqlite3VdbeRecordUnpack (bs @ replicate n 0) aMem = Some vs \<and> map val vs = take (length aMem) (map val ms)"
proof -
  have bs: "bs @ replicate n 0 = recordBytes ff ms" "length (recordBytes ff ms) \<le> limit"
    using OP_MakeRecord_ok [OF assms(1-3), of ff junk al] assms(4) by (auto split: if_splits)
  define n1 where "n1 = length (typeBytes (types ff ms))"
  define h where "h = recHeaderSize n1"
  have "n1 < 2 ^ 31" using length_typeBytes [of "types ff ms"] assms(2) by (simp add: types_def n1_def)
  note hs = recHeaderSize_ok [OF this, folded h_def]
  have rb: "recordBytes ff ms = putVarint32 (of_nat h) @ typeBytes (types ff ms) @ concat (map (\<lambda>m. fieldBytes m ff) ms)"
    by (simp add: recordBytes_def h_def n1_def)
  have h: "h < 2 ^ 31" "h \<le> length (recordBytes ff ms)" using bs(2) assms(3) hs(1) by (simp_all add: rb n1_def)
  then have u: "unat (of_nat h :: u32) = h" by (simp add: unat_of_nat)
  have "\<exists>vs. unpackLoop (recordBytes ff ms) h (length (putVarint32 (of_nat h))) h aMem = Some vs \<and> map val vs = take (length aMem) (map val ms)"
    by (rule unpackLoop_ok [where R = "concat (map (\<lambda>m. fieldBytes m ff) ms)" and rest = "[]"])
      (use hs(1) h(2) assms(1) in \<open>simp_all add: rb n1_def [symmetric]\<close>)
  moreover have "getVarint32 (recordBytes ff ms) = Some (of_nat h, length (putVarint32 (of_nat h)))" unfolding rb by (rule dec_enc_varint32)
  ultimately show ?thesis unfolding bs(1) sqlite3VdbeRecordUnpack_def using u h(1) by simp
qed

definition sampleRow :: "mem list" where
  "sampleRow = [\<lparr>mflags = MEM_Int, u_ir = -300, nZero = 0, z = []\<rparr>, \<lparr>mflags = MEM_Str, u_ir = 0, nZero = 0, z = [104, 105]\<rparr>,
     \<lparr>mflags = MEM_Blob OR MEM_Zero, u_ir = 0, nZero = 3, z = [7]\<rparr>]"

lemmas mem_flag_defs = has_def MEM_Int_def MEM_Null_def MEM_Real_def MEM_Str_def MEM_Blob_def MEM_Zero_def

lemma sampleRow_ok: "list_all mem_ok sampleRow" "length sampleRow = 3"
  "map val sampleRow = [VInt (-300), VText [104, 105], VBlob [7, 0, 0, 0]]"
proof -
  have "replicate 3 (0 :: u8) = [0, 0, 0]" by (simp add: numeral_eq_Suc)
  then show "map val sampleRow = [VInt (-300), VText [104, 105], VBlob [7, 0, 0, 0]]" by (simp add: sampleRow_def mem_flag_defs val_def)
qed (simp_all add: sampleRow_def mem_ok_def mem_flag_defs)

lemma length_recordBytes:
  assumes "list_all mem_ok ms" "length ms < 2 ^ 26"
  shows "length (recordBytes ff ms) \<le> 5 * length ms + 6 + sum_list (map (\<lambda>m. unat (snd (sqlite3VdbeSerialType m ff))) ms)"
proof -
  define n1 where "n1 = length (typeBytes (types ff ms))"
  have n1: "n1 \<le> 5 * length ms" using length_typeBytes [of "types ff ms"] by (simp add: n1_def types_def)
  then have "n1 < 2 ^ 31" using assms(2) by simp
  moreover have f: "length (fieldBytes m ff) = unat (snd (sqlite3VdbeSerialType m ff))" if "mem_ok m" for m
    using field_roundtrip [OF that, of ff "[]" m] by simp
  have "length (concat (map (\<lambda>m. fieldBytes m ff) ms)) = sum_list (map (\<lambda>m. unat (snd (sqlite3VdbeSerialType m ff))) ms)"
    using assms(1) by (induction ms) (simp_all add: f)
  ultimately show ?thesis using n1 recHeaderSize_ok [of n1] by (simp add: recordBytes_def n1_def [symmetric])
qed

lemma sampleRow_record: "\<exists>bs n. OP_MakeRecord 4 1000 sampleRow (\<lambda>_. 0) [] = Some (Record bs n)"
proof -
  have "sum_list (map (\<lambda>m. unat (snd (sqlite3VdbeSerialType m 4))) sampleRow) = 8"
    by (simp add: sampleRow_def mem_flag_defs sqlite3VdbeSerialType_def MAX_6BYTE_def word_sless_alt)
  then have "length (recordBytes 4 sampleRow) \<le> 1000" using length_recordBytes [OF sampleRow_ok(1), of 4] sampleRow_ok(2) by simp
  then show ?thesis using OP_MakeRecord_ok [OF sampleRow_ok(1), of 1000 4 "\<lambda>_. 0" "[]"] sampleRow_ok(2) by auto
qed

lemma record_roundtrip_witness:
  "\<exists>bs n vs. OP_MakeRecord 4 1000 sampleRow (\<lambda>_. 0) [] = Some (Record bs n)
    \<and> sqlite3VdbeRecordUnpack (bs @ replicate n 0) sampleRow = Some vs \<and> map val vs = [VInt (-300), VText [104, 105], VBlob [7, 0, 0, 0]]"
proof -
  obtain bs n where r: "OP_MakeRecord 4 1000 sampleRow (\<lambda>_. 0) [] = Some (Record bs n)" using sampleRow_record by blast
  have "length sampleRow < 2 ^ 26" "(1000 :: nat) < 2 ^ 31" using sampleRow_ok(2) by simp_all
  from record_roundtrip [OF sampleRow_ok(1) this r, of sampleRow] r show ?thesis by (simp add: sampleRow_ok(2,3))
qed

end
