(* ===== verification/Spec2Isabelle.thy ===== *)
theory Spec2Isabelle
  imports Varint Bitvec RowSet HashTable NumText Mem5 Complete Tokenize Prng Notify UnixLock MemJournal PageCache WalStore RecordFormat
begin

text \<open>
  A verification library for the SQLite 3.21 core (src/sqlite_src_doc/source_code/src, below \<open>S/\<close>).

  \<^bold>\<open>The program.\<close> A statement goes through the tokenizer (S/tokenize.c) to the generated parser and the
  code generator; the program they produce runs on a virtual machine over B-trees, whose pages come
  from a pager with a page cache (S/pcache.c on the module S/pcache1.c) and with rollback journals (in memory:
  S/memjournal.c) or a write-ahead log, on top of an operating system interface that locks the database file (S/os_unix.c). Connections that share
  a cache wait for one another (S/notify.c). Everything rests on small
  foundations: integers of the file format and numbers in text (S/util.c), character tables
  (S/global.c), a hash table for the symbols of a schema (S/hash.c), sets of page numbers
  (S/bitvec.c) and of rowids (S/rowset.c), an allocator for systems without a heap (S/mem5.c), a
  random number generator (S/random.c). The development models these foundations and the stateful
  protocols among the parts above them, each from its source.

  \<^bold>\<open>Conventions.\<close> A C buffer is a list of bytes and a read or write outside it is \<^term>\<open>None\<close>, as are a
  dereferenced NULL and signed overflow; a theorem that a result is \<^term>\<open>Some r\<close> therefore says that
  the routine returns and that its accesses are in bounds. Unsigned integers whose wrap-around matters are words
  (\<open>u8\<close>, \<open>u32\<close>, \<open>u64\<close>) or natural numbers reduced modulo \<open>2^32\<close> where the code reduces them. Allocation
  outcomes are an argument: a list of Booleans consumed one by one, success once it is empty.
  Loops are structural or well-founded recursions, with three exceptions. The descent of
  \<open>bitvecSetLoop\<close> has fuel 9, enough because \<open>3968 * 62^4 > 2^32\<close> bounds its depth and a rehash needs one more
  round each; theorems show the result is not \<^term>\<open>None\<close>. \<open>runParserLoop\<close>, \<open>unlockChain\<close> and the
  loops along the dirty list of pcache.c (\<open>walkPrev\<close>, \<open>nextList\<close>, \<open>maskFlags\<close>, \<open>truncDirty\<close>, \<open>sqlite3PcacheCleanAll\<close>) are partial
  functions, and theorems prove that they return. The merge sorts of rowset.c and pcache.c have 40 and 32 buckets, as in the code, so
  their theorems ask for fewer than \<open>2^40\<close> entries and \<open>2^31\<close> pages.

  \<^bold>\<open>Theories.\<close>
  \<^item> \<open>SqlitePrelude\<close>: word types, checked reads, allocation outcomes, bit lemmas, and the interfaces:
    \<open>byte_codec\<close> (an encoder and a decoder that reads back what was written, whatever follows; sequences then
    round-trip), \<open>page_set\<close> (a mutable finite set over a universe, with failing insertion) and \<open>simulation\<close> (a concrete step
    function that follows an abstract machine, hence whole runs agree).
  \<^item> \<open>Varint\<close> (S/util.c): \<open>sqlite3PutVarint\<close>, \<open>sqlite3GetVarint\<close> with its unrolled
    branches and masks, \<open>sqlite3GetVarint32\<close>, \<open>sqlite3VarintLen\<close>, 4-byte integers. Round trips, equality of the optimised reader with a
    loop, lengths. Interprets \<open>byte_codec\<close> three times.
  \<^item> \<open>Bitvec\<close> (S/bitvec.c): the bitmap that is a bit array, a hash of at most 124 numbers or 62 subtrees;
    set, clear and test against sets, for every outcome of allocation. Interprets \<open>page_set\<close>. The wrap-around of \<open>iDivisor\<close> near \<open>2^32\<close> is a theorem.
  \<^item> \<open>MergeBuckets\<close>: the bucket merge sort, over the locale \<open>bucket_merge\<close> (and \<open>bucket_merge_mset\<close> for merges that drop nothing, used
    by pcache.c), used by \<open>RowSet\<close> (S/rowset.c): insertion,
    batches and tests, extraction in order, errors. Interprets \<open>simulation\<close> on a set with a batch number.
  \<^item> \<open>CharTables\<close> (S/global.c, S/sqliteInt.h, S/util.c): case folding, character classes, comparison without case as a
    total preorder, dequoting, hexadecimal blobs.
  \<^item> \<open>HashTable\<close> (S/hash.c): one linked list threaded through buckets; rehash, insertion, removal. The locale
    \<open>array_sizer\<close> is what the table needs of the allocator, a sublocale of \<open>simulation\<close>; the
    theorems below interpret it on the buddy allocator.
  \<^item> \<open>IntArith\<close> (S/util.c): 64-bit arithmetic that detects overflow, LogEst. \<open>NumText\<close> (S/util.c):
    \<open>sqlite3Atoi64\<close> in three text encodings, \<open>sqlite3GetInt32\<close>, hexadecimal literals.
  \<^item> \<open>Mem5\<close> (S/mem5.c): the buddy allocator: control bytes, free lists, split and merge. A partition of the pool
    is its invariant; the locale \<open>mem_methods\<close> is the contract of \<open>sqlite3_mem_methods\<close>, and every run of
    calls hands out disjoint blocks.
  \<^item> \<open>Complete\<close> (S/complete.c): the state machine of \<open>sqlite3_complete\<close> accepts exactly the sequences of complete statements of an
    inductive grammar. \<open>Tokenize\<close> (S/tokenize.c): \<open>sqlite3GetToken\<close> stays in bounds, advances and loses no byte;
    \<open>sqlite3RunParser\<close> feeds the parser with exactly the tokens that are not spaces and two end markers. The keyword
    table and the parser, both generated, are parameters.
  \<^item> \<open>Prng\<close> (S/random.c): RC4; the state stays a permutation.
  \<^item> \<open>Notify\<close> (S/notify.c): the list of blocked connections and its invariant over all interleavings of calls;
    delivery of each notification exactly once; detection of deadlock.
  \<^item> \<open>UnixLock\<close> (S/os_unix.c): the five locking levels over advisory locks of byte ranges. Operations are
    trees of system calls (\<open>act\<close>), processes interleave between calls and every call may fail; mutual exclusion of
    locks is an invariant of the reachable states.
  \<^item> \<open>MemJournal\<close> (S/memjournal.c): the chunked journal that moves to disk beyond a threshold refines a
    byte string, an instance of \<open>simulation\<close>; the methods of the real file are parameters.
  \<^item> \<open>PcacheModule\<close>: the methods of a page cache module (S/sqlite.h.in) and their contract, the locale \<open>pcache_module\<close>: what
    each method may do to a map from page numbers to pages and to the set of pinned pages. \<open>Pcache1\<close> (S/pcache1.c): the default module
    with one group per cache: start-time buffer, bulk allocation, hash table, LRU list; its invariant \<open>mrel1\<close>
    and a proof of the contract. \<open>Pcache\<close> (S/pcache.c, and the calls of S/pager.c that fetch and spill): headers, reference
    counts, the doubly linked dirty list, all over an arbitrary module; the invariant \<open>pcinv\<close> is kept by every operation, proved once inside
    the locale. \<open>PageCache\<close> interprets the locale on \<open>Pcache1\<close>: the operations as steps of a state machine that refines a
    specification on the pages in use and the dirty pages, reference accounting, order of the dirty list, spill victims.
  \<^item> \<open>WalIndex\<close> (S/wal.c): the hash index of the write-ahead log: blocks of page numbers and hash tables with linear probing. The
    invariant \<open>idx_ok\<close> relates it to the list of the pages of the frames; append, clean-up, search, undo and savepoints keep it, and the
    search equals the linear search of the code's own assertions. Blocks are evaluated by lemmas, never as tables of 8192 entries.
  \<^item> \<open>WalChecksum\<close>, \<open>WalLog\<close> (S/wal.c, and \<open>readDbPage\<close> of S/pager.c): the log file as bytes: the checksum for either byte order, frames,
    \<open>sqlite3WalFrames\<close> with overwritten frames, \<open>walRewriteChecksums\<close>, padding, synchronising and size limit, \<open>walIndexRecover\<close>, reading a page.
    A call of the operating system takes its outcome from a list, success once it is empty; the theorems about whole calls are for an empty list.
    \<open>WalCommit\<close> proves that writing keeps \<open>winv\<close>, which relates the file and the index to a list of frames; \<open>WalDurable\<close> reads that
    list as a map from pages to contents. \<open>WalGuarantees\<close> holds what follows: refinement of the map, snapshots, durability, atomicity
    after a crash. \<open>WalSavepoint\<close> shows a committed transaction that recovery drops, after a rollback to a savepoint. \<open>WalStore\<close> puts the operations together: \<open>simulation\<close> is interpreted on runs of writes, commits,
    rollbacks, crashes and reads, which follow a pair of maps.
  \<^item> \<open>RecordFormat\<close> (S/vdbeaux.c, \<open>OP_MakeRecord\<close> of S/vdbe.c, \<open>sqlite3VdbeMemExpandBlob\<close> of S/vdbemem.c): serial types, values as bytes, rows as
    records; the opcode stays in bounds and unpacking a record gives the values back.

  \<^bold>\<open>Not modelled.\<close> The transactions of the pager, B-trees, the virtual machine, the parser (generated
  from S/parse.y) and the code generator need models of one another and are left for later. Of the write-ahead log, opening and closing, checkpoints, restarting the log (\<open>walRestartLog\<close>) and the locks and
  the two-copy header of the shared memory are not modelled: there is one writer, and a reader is a header it took. Floating point
  (\<open>sqlite3AtoF\<close>, dates, \<open>%f\<close>) has no exact counterpart here; wrappers of the system (mutexes, threads, Windows) and
  the shell, tests, extensions, build tools and the generated amalgamation hold no logic of the core. Mutexes are
  not modelled: an operation protected by one is atomic. The contents of cached pages, the groups that several caches share and
  the statistics of pcache1.c are left out. Next in line are the UTF codecs and
  LIKE/GLOB matching, checkpoints, and the cell layout of B-tree pages.
\<close>

section \<open>The hash table on the buddy allocator\<close>

text \<open>
  \<open>sqlite3MallocSize\<close> of a block from mem5.c is what \<open>memsys5Roundup\<close> promises for the request. A
  bucket has 16 bytes and the atoms of the pool have a power of two.
\<close>

lemma splitLoop_szAtom: "splitLoop i m k s = Some s' \<Longrightarrow> szAtom s' = szAtom s"
  by (induction m arbitrary: s)
    (auto simp: memsys5Link_def setCtrl_def Let_def split: if_splits bind_splits)

lemma memsys5Size_Roundup:
  assumes "memsys5Malloc s n = Some (Some p, s')" "0 < szAtom s"
  shows "memsys5Size s' p = memsys5Roundup s n"
proof -
  obtain f k where fk: "fullSzLoop n (szAtom s) 0 = (f, k)" by fastforce
  define b where "b = binLoop (aiFreelist s) k"
  have u: "memsys5MallocUnsafe s n = Some (Some p, s')" and n: "\<not> n > 0x40000000"
    using assms(1) by (auto simp: memsys5Malloc_def memsys5MallocUnsafe_def split: if_splits)
  have b: "k \<le> b" "b \<le> 30" using u n binLoop_ok [OF b_def [symmetric]]
    by (auto simp: memsys5MallocUnsafe_def fk b_def LOGMAX_def split: if_splits)
  obtain s1 s2 where s: "memsys5Unlink (hd (aiFreelist s ! b)) b s = Some s1"
    "splitLoop (hd (aiFreelist s ! b)) b k s1 = Some s2" "setCtrl (hd (aiFreelist s ! b)) (of_nat k) s2 = Some s'"
    "p = hd (aiFreelist s ! b) * szAtom s'"
    using u n b by (auto simp: memsys5MallocUnsafe_def fk b_def LOGMAX_def Let_def split: if_splits bind_splits)
  have "szAtom s' = szAtom s" using s(1,3) splitLoop_szAtom [OF s(2)]
    by (auto simp: memsys5Unlink_def setCtrl_def split: if_splits)
  moreover have "aCtrl s' ! hd (aiFreelist s ! b) = ctl False k" using s(3)
    by (auto simp: setCtrl_def ctl_def split: if_splits)
  moreover have "f = szAtom s * 2 ^ k" using fullSzLoop_ok [OF assms(2) fk] by simp
  ultimately show ?thesis using s(4) n b assms(2)
    by (simp add: memsys5Size_def memsys5Roundup_def fk ctl_log)
qed





end
